(* ===== verification/Dts_Prelude.thy ===== *)
theory Dts_Prelude
  imports Main "HOL-Library.Word" "HOL-Library.Char_ord" "HOL-Library.List_Lexorder"
    "HOL-Library.Multiset"
begin

text \<open>
  What every component of the development shares:
  \<^item> the shape of effectful code: a computation takes a state and returns either an
    exception or a value, and in both cases the state it leaves behind (a C++ exception and an
    error raised in a Redis script do not undo the writes made before them);
  \<^item> decimal printing and reading of integers, as \<open>std::to_string\<close> and
    \<open>std::from_chars\<close> do it;
  \<^item> \<open>std::map\<close> as an association list sorted by key, with lookup, insertion and removal;
  \<^item> generic lemmas on lists and maps.
\<close>

named_theorems sem_simps \<open>unfolding rules of the state-and-exception combinators\<close>

section \<open>Computations with a state and exceptions\<close>

type_synonym ('s, 'e, 'a) sem = "'s \<Rightarrow> ('e + 'a) \<times> 's"

definition sret :: "'a \<Rightarrow> ('s, 'e, 'a) sem" where
  "sret x = (\<lambda>s. (Inr x, s))"

definition sthrow :: "'e \<Rightarrow> ('s, 'e, 'a) sem" where
  "sthrow e = (\<lambda>s. (Inl e, s))"

definition sbind :: "('s, 'e, 'a) sem \<Rightarrow> ('a \<Rightarrow> ('s, 'e, 'b) sem) \<Rightarrow> ('s, 'e, 'b) sem" where
  "sbind m f = (\<lambda>s. case m s of (Inl e, s') \<Rightarrow> (Inl e, s') | (Inr x, s') \<Rightarrow> f x s')"

definition scatch :: "('s, 'e, 'a) sem \<Rightarrow> ('e \<Rightarrow> ('s, 'f, 'a) sem) \<Rightarrow> ('s, 'f, 'a) sem" where
  "scatch m h = (\<lambda>s. case m s of (Inl e, s') \<Rightarrow> h e s' | (Inr x, s') \<Rightarrow> (Inr x, s'))"

definition sget :: "('s, 'e, 's) sem" where
  "sget = (\<lambda>s. (Inr s, s))"

definition smodify :: "('s \<Rightarrow> 's) \<Rightarrow> ('s, 'e, unit) sem" where
  "smodify f = (\<lambda>s. (Inr (), f s))"

fun sfor :: "('a \<Rightarrow> ('s, 'e, unit) sem) \<Rightarrow> 'a list \<Rightarrow> ('s, 'e, unit) sem" where
  "sfor f [] = sret ()"
| "sfor f (x # xs) = sbind (f x) (\<lambda>_. sfor f xs)"

lemma sret_apply [simp, sem_simps]: "sret x s = (Inr x, s)"
  by (simp add: sret_def)

lemma sthrow_apply [simp, sem_simps]: "sthrow e s = (Inl e, s)"
  by (simp add: sthrow_def)

lemma sget_apply [simp, sem_simps]: "sget s = (Inr s, s)"
  by (simp add: sget_def)

lemma smodify_apply [simp, sem_simps]: "smodify f s = (Inr (), f s)"
  by (simp add: smodify_def)

lemma sbind_Inr [simp, sem_simps]: "m s = (Inr x, s') \<Longrightarrow> sbind m f s = f x s'"
  by (simp add: sbind_def)

lemma sbind_Inl [simp, sem_simps]: "m s = (Inl e, s') \<Longrightarrow> sbind m f s = (Inl e, s')"
  by (simp add: sbind_def)

lemma scatch_Inr [simp, sem_simps]: "m s = (Inr x, s') \<Longrightarrow> scatch m h s = (Inr x, s')"
  by (simp add: scatch_def)

lemma scatch_Inl [simp, sem_simps]: "m s = (Inl e, s') \<Longrightarrow> scatch m h s = h e s'"
  by (simp add: scatch_def)

lemma sbind_eq_InrE:
  assumes "sbind m f s = (Inr y, s'')"
  obtains x s' where "m s = (Inr x, s')" "f x s' = (Inr y, s'')"
  using assms by (auto simp: sbind_def split: prod.splits sum.splits)

lemma sfor_append: "sfor f (xs @ ys) s = sbind (sfor f xs) (\<lambda>_. sfor f ys) s"
  by (induction xs arbitrary: s) (auto simp: sbind_def split: prod.splits sum.splits)

section \<open>Decimal numbers\<close>

fun nat_digits :: "nat \<Rightarrow> string" where
  "nat_digits n =
     (if n < 10 then [char_of (48 + n)]
      else nat_digits (n div 10) @ [char_of (48 + n mod 10)])"

declare nat_digits.simps [simp del]

text \<open>\<open>std::to_string\<close> of an integer.\<close>

definition int_str :: "int \<Rightarrow> string" where
  "int_str i = (if i < 0 then CHR ''-'' # nat_digits (nat (- i)) else nat_digits (nat i))"

definition digit_val :: "char \<Rightarrow> nat option" where
  "digit_val c = (if 48 \<le> (of_char c :: nat) \<and> (of_char c :: nat) \<le> 57
                  then Some (of_char c - 48) else None)"

text \<open>The longest prefix of digits, read as a number, and how many digits it has.\<close>

fun read_digits :: "string \<Rightarrow> nat \<Rightarrow> nat \<Rightarrow> nat \<times> nat" where
  "read_digits [] acc k = (acc, k)"
| "read_digits (c # cs) acc k =
     (case digit_val c of None \<Rightarrow> (acc, k) | Some d \<Rightarrow> read_digits cs (10 * acc + d) (Suc k))"

text \<open>
  \<open>std::from_chars\<close> into a signed type: an optional minus sign and at least one digit;
  what follows the digits is left unread. \<open>None\<close> when there is no digit.
\<close>

definition read_int :: "string \<Rightarrow> int option" where
  "read_int s =
     (case s of
        [] \<Rightarrow> None
      | c # cs \<Rightarrow>
          (let neg = (c = CHR ''-''); r = read_digits (if neg then cs else s) 0 0
           in if snd r = 0 then None else Some (if neg then - int (fst r) else int (fst r))))"

lemma digit_val_char_of: "d < 10 \<Longrightarrow> digit_val (char_of (48 + d :: nat)) = Some d"
  by (simp add: digit_val_def)

lemma read_digits_append:
  "\<forall>c \<in> set xs. digit_val c \<noteq> None \<Longrightarrow>
   read_digits (xs @ ys) acc k =
     read_digits ys (fst (read_digits xs acc k)) (snd (read_digits xs acc k))"
  by (induction xs arbitrary: acc k) auto

lemma nat_digits_digits: "\<forall>c \<in> set (nat_digits n). digit_val c \<noteq> None"
proof (induction n rule: nat_digits.induct)
  case (1 n)
  show ?case
  proof (cases "n < 10")
    case True
    then show ?thesis by (subst nat_digits.simps) (simp add: digit_val_char_of)
  next
    case False
    with 1 show ?thesis
      by (subst nat_digits.simps) (auto simp: digit_val_char_of)
  qed
qed

lemma nat_digits_neq_Nil [simp]: "nat_digits n \<noteq> []"
  by (subst nat_digits.simps) simp

lemma read_digits_nat_digits:
  "read_digits (nat_digits n) 0 k = (n, k + length (nat_digits n))"
proof (induction n arbitrary: k rule: nat_digits.induct)
  case (1 n)
  show ?case
  proof (cases "n < 10")
    case True
    then show ?thesis
      using nat_digits.simps [of n] by (simp add: digit_val_char_of)
  next
    case False
    have d: "digit_val (char_of (48 + n mod 10)) = Some (n mod 10)"
      by (simp add: digit_val_char_of)
    have "read_digits (nat_digits (n div 10) @ [char_of (48 + n mod 10)]) 0 k
          = (n, Suc (k + length (nat_digits (n div 10))))"
      using 1 [OF False] d
      by (simp add: read_digits_append [OF nat_digits_digits])
    with False show ?thesis
      using nat_digits.simps [of n] by simp
  qed
qed

lemma nat_digits_hd: "\<exists>c cs. nat_digits n = c # cs \<and> c \<noteq> CHR ''-''"
proof -
  obtain c cs where c: "nat_digits n = c # cs"
    by (cases "nat_digits n") simp_all
  with nat_digits_digits [of n] have "digit_val c \<noteq> None" by simp
  then have "c \<noteq> CHR ''-''" by (auto simp: digit_val_def)
  with c show ?thesis by blast
qed

lemma read_int_int_str [simp]: "read_int (int_str i) = Some i"
proof (cases "i < 0")
  case True
  then show ?thesis
    by (simp add: int_str_def read_int_def read_digits_nat_digits)
next
  case False
  obtain c cs where "nat_digits (nat i) = c # cs" "c \<noteq> CHR ''-''"
    using nat_digits_hd by blast
  with False read_digits_nat_digits [of "nat i" 0] show ?thesis
    by (simp add: int_str_def read_int_def)
qed

lemma int_str_inject [simp]: "int_str i = int_str j \<longleftrightarrow> i = j"
  by (metis option.inject read_int_int_str)

section \<open>\<open>std::map\<close>: an association list sorted by key\<close>

type_synonym ('k, 'v) omap = "('k \<times> 'v) list"

definition omap_ok :: "('k :: linorder, 'v) omap \<Rightarrow> bool" where
  "omap_ok m \<longleftrightarrow> sorted (map fst m) \<and> distinct (map fst m)"

text \<open>\<open>m[k] = v\<close>: overwrite the value of \<open>k\<close>, or insert it at its place.\<close>

fun omap_put :: "'k :: linorder \<Rightarrow> 'v \<Rightarrow> ('k, 'v) omap \<Rightarrow> ('k, 'v) omap" where
  "omap_put k v [] = [(k, v)]"
| "omap_put k v ((k', v') # m) =
     (if k < k' then (k, v) # (k', v') # m
      else if k = k' then (k, v) # m
      else (k', v') # omap_put k v m)"

lemma map_of_omap_put [simp]: "map_of (omap_put k v m) = (map_of m)(k \<mapsto> v)"
  by (induction m) (auto simp: fun_eq_iff)

lemma fst_set_omap_put [simp]: "fst ` set (omap_put k v m) = insert k (fst ` set m)"
proof (induction m)
  case (Cons p m)
  obtain k' v' where [simp]: "p = (k', v')" by (cases p)
  from Cons show ?case by (simp add: insert_commute)
qed simp

lemma omap_ok_Nil [simp, intro]: "omap_ok []"
  by (simp add: omap_ok_def)

lemma omap_ok_Cons:
  "omap_ok ((k, v) # m) \<longleftrightarrow> (\<forall>k' \<in> fst ` set m. k < k') \<and> omap_ok m"
  by (auto simp: omap_ok_def order_less_le)

lemma omap_ok_put [intro]: "omap_ok m \<Longrightarrow> omap_ok (omap_put k v m)"
proof (induction m)
  case (Cons p m)
  obtain k' v' where [simp]: "p = (k', v')" by (cases p)
  from Cons show ?case by (auto simp: omap_ok_Cons)
qed (simp add: omap_ok_def)

lemma omap_ok_filter [intro]: "omap_ok m \<Longrightarrow> omap_ok (filter P m)"
  by (induction m) (auto simp: omap_ok_Cons)

lemma omap_ok_map_val [intro]:
  "omap_ok m \<Longrightarrow> omap_ok (map (\<lambda>(k, v). (k, f k v)) m)"
  by (induction m) (auto simp: omap_ok_Cons image_image split_beta dest!: bspec)

lemma omap_ok_distinct: "omap_ok m \<Longrightarrow> distinct (map fst m)"
  by (simp add: omap_ok_def)

lemma omap_mem_iff: "omap_ok m \<Longrightarrow> (k, v) \<in> set m \<longleftrightarrow> map_of m k = Some v"
  by (simp add: omap_ok_distinct)

lemma map_of_filter_val:
  "distinct (map fst m) \<Longrightarrow>
   map_of (filter (\<lambda>(k, v). P v) m) k =
     (case map_of m k of None \<Rightarrow> None | Some v \<Rightarrow> if P v then Some v else None)"
  by (induction m) (auto simp: map_of_eq_None_iff split: option.splits
      intro: rev_image_eqI)

section \<open>Lists\<close>

lemma count_list_filter: "count_list xs x = length (filter (\<lambda>y. y = x) xs)"
  by (induction xs) auto

lemma filter_eq_self: "(\<And>x. x \<in> set xs \<Longrightarrow> P x) \<Longrightarrow> filter P xs = xs"
  by (simp add: filter_id_conv)

lemma distinct_map_inj: "distinct xs \<Longrightarrow> inj_on f (set xs) \<Longrightarrow> distinct (map f xs)"
  by (simp add: distinct_map)

lemma distinct_set_single: "distinct xs \<Longrightarrow> set xs = {x} \<Longrightarrow> xs = [x]"
proof -
  assume d: "distinct xs" and s: "set xs = {x}"
  then have "length xs = card {x}" by (metis distinct_card)
  then have "length xs = 1" by simp
  with s show "xs = [x]" by (cases xs) auto
qed

section \<open>Runs with a measure\<close>

text \<open>Steps that keep \<open>P\<close> and lower \<open>m\<close> are at most \<open>m\<close> many.\<close>

lemma relpow_measure:
  assumes "\<And>p q. R p q \<Longrightarrow> P p \<Longrightarrow> P q \<and> m q < (m p :: nat)"
  shows "(R ^^ k) p q \<Longrightarrow> P p \<Longrightarrow> k + m q \<le> m p \<and> P q"
proof (induction k arbitrary: q)
  case (Suc k)
  then obtain q1 where "(R ^^ k) p q1" "R q1 q" by auto
  with Suc.IH [of q1] Suc.prems(2) assms [of q1 q] show ?case by fastforce
qed simp

end
