(* ===== verification/Task_Types.thy ===== *)
theory Task_Types
  imports Dts_Prelude
begin

text \<open>
  The data model: the structs of \<open>src/common/include/task.hpp\<close> and \<open>dag.hpp\<close>, the
  protobuf messages of \<open>src/common/proto/dts\<close> and the conversions of
  \<open>src/common/src/converters.cpp\<close>.

  A \<open>double\<close> is its 64-bit pattern (the conversions only copy it; the pattern 0 is 0.0). The
  enum \<open>dts::TaskState\<close> is an \<open>int8_t\<close> and the protobuf enum an open 32-bit one, so
  both are words and the casts between them are the casts of the code. The JSON library
  (nlohmann) is a parameter: \<open>json_lib\<close> holds its printer, its parser and its conversion of
  an integer to a \<open>double\<close>.
\<close>

section \<open>Task states\<close>

type_synonym double = "64 word"
type_synonym TaskState = "8 word"
type_synonym PbTaskState = "32 word"

definition PENDING :: TaskState where "PENDING = 0"
definition RUNNING :: TaskState where "RUNNING = 1"
definition SUCCESS :: TaskState where "SUCCESS = 2"
definition FAILED :: TaskState where "FAILED = 3"
definition TIMEOUT :: TaskState where "TIMEOUT = 4"
definition CANCELLED :: TaskState where "CANCELLED = 5"
definition WAITING_DEPS :: TaskState where "WAITING_DEPS = 6"
definition UNKNOWN :: TaskState where "UNKNOWN = 99"

lemmas task_state_defs = PENDING_def RUNNING_def SUCCESS_def FAILED_def TIMEOUT_def CANCELLED_def
  WAITING_DEPS_def UNKNOWN_def

definition TaskStateToString :: "TaskState \<Rightarrow> string" where
  "TaskStateToString state =
     (if state = PENDING then ''PENDING''
      else if state = RUNNING then ''RUNNING''
      else if state = SUCCESS then ''SUCCESS''
      else if state = FAILED then ''FAILED''
      else if state = TIMEOUT then ''TIMEOUT''
      else if state = CANCELLED then ''CANCELLED''
      else if state = WAITING_DEPS then ''WAITING_DEPS''
      else ''UNKNOWN'')"

text \<open>\<open>static_cast\<close> from the 8-bit enum to the protobuf enum (sign extension) and back.\<close>

definition StateToProto :: "TaskState \<Rightarrow> PbTaskState" where
  "StateToProto state = scast state"

definition StateFromProto :: "PbTaskState \<Rightarrow> TaskState" where
  "StateFromProto state = ucast state"

lemma StateFromProto_StateToProto [simp]: "StateFromProto (StateToProto s) = s"
  unfolding StateToProto_def StateFromProto_def
  by (rule bit_word_eqI) (auto simp: bit_simps)

section \<open>JSON and protobuf structs\<close>

datatype json =
    JNull
  | JBool bool
  | JInt int
  | JFloat double
  | JString string
  | JArray "json list"
  | JObject "(string \<times> json) list"

text \<open>\<open>google::protobuf::Value\<close>; a \<open>Struct\<close> is a map from field names to values.\<close>

datatype pb_value =
    PNotSet
  | PNull
  | PNumber double
  | PString string
  | PBool bool
  | PStruct "(string \<times> pb_value) list"

type_synonym pb_struct = "(string \<times> pb_value) list"

record json_lib =
  jl_dump :: "json \<Rightarrow> string + string"
  jl_parse :: "string \<Rightarrow> string + json"
  jl_i2d :: "int \<Rightarrow> double"

text \<open>Storing a list of members one after the other, \<open>m[k] = v\<close>, into an empty map.\<close>

definition put_all :: "(string \<times> 'a) list \<Rightarrow> (string \<times> 'a) list" where
  "put_all kvs = foldl (\<lambda>m (k, v). omap_put k v m) [] kvs"

definition index_keys :: "'a list \<Rightarrow> (string \<times> 'a) list" where
  "index_keys xs = zip (map (\<lambda>i. int_str (int i)) [0..<length xs]) xs"

text \<open>
  \<open>JsonToStruct\<close> walks \<open>j.items()\<close>: the members of an object, the elements of an array
  under their index, nothing for null, and a primitive under the empty key.
  \<open>json_to_value\<close> is the chain of \<open>if\<close>s on one member.
\<close>

primrec json_to_value :: "json_lib \<Rightarrow> json \<Rightarrow> pb_value" where
  "json_to_value L (JBool b) = PBool b"
| "json_to_value L (JInt i) = PNumber (jl_i2d L i)"
| "json_to_value L (JFloat d) = PNumber d"
| "json_to_value L (JString s) = PString s"
| "json_to_value L JNull = PNull"
| "json_to_value L (JArray xs) = PStruct (put_all (index_keys (map (json_to_value L) xs)))"
| "json_to_value L (JObject kvs) =
     PStruct (put_all (map (map_prod id (json_to_value L)) kvs))"

fun json_items :: "json \<Rightarrow> (string \<times> json) list" where
  "json_items (JObject kvs) = kvs"
| "json_items (JArray xs) = index_keys xs"
| "json_items JNull = []"
| "json_items j = [('''', j)]"

definition JsonToStruct :: "json_lib \<Rightarrow> json \<Rightarrow> pb_struct" where
  "JsonToStruct L j = put_all (map (map_prod id (json_to_value L)) (json_items j))"

text \<open>
  \<open>StructToJson\<close>: null, list and unset values fall into the \<open>default\<close> branch and
  leave no member.
\<close>

primrec value_to_json :: "pb_value \<Rightarrow> json option" where
  "value_to_json (PBool b) = Some (JBool b)"
| "value_to_json (PNumber d) = Some (JFloat d)"
| "value_to_json (PString s) = Some (JString s)"
| "value_to_json (PStruct kvs) =
     Some (JObject (put_all (List.map_filter (\<lambda>(k, v). map_option (Pair k) v)
       (map (map_prod id value_to_json) kvs))))"
| "value_to_json PNull = None"
| "value_to_json PNotSet = None"

definition StructToJson :: "pb_struct \<Rightarrow> json" where
  "StructToJson proto =
     JObject (put_all (List.map_filter (\<lambda>(k, v). map_option (Pair k) v)
       (map (map_prod id value_to_json) proto)))"

section \<open>Tasks, edges and requests\<close>

record Resource =
  cpu_core :: double
  mem_mb :: "64 word"

record Shard =
  shard_id :: "32 word"
  total_shards :: "32 word"

record Task =
  t_job_id :: string
  t_task_id :: string
  t_natural_id :: string
  t_client_id :: string
  t_stream_id :: string
  t_priority :: "32 word"
  t_state :: TaskState
  t_pending_dependencies :: "32 word"
  t_func_name :: string
  t_func_params :: json
  t_required :: Resource
  t_shard :: Shard
  t_timeout_ms :: "32 word"
  t_max_retry :: "32 word"
  t_retry_count :: "32 word"
  t_submit_ts :: "64 word"
  t_start_ts :: "64 word"
  t_finish_ts :: "64 word"
  t_result :: json
  t_error_msg :: string

text \<open>The member initialisers of the structs.\<close>

definition default_Task :: Task where
  "default_Task =
     \<lparr>t_job_id = '''', t_task_id = '''', t_natural_id = '''', t_client_id = '''', t_stream_id = '''',
      t_priority = 0, t_state = PENDING, t_pending_dependencies = 0, t_func_name = '''',
      t_func_params = JNull, t_required = \<lparr>cpu_core = 0, mem_mb = 0\<rparr>,
      t_shard = \<lparr>shard_id = 0, total_shards = 1\<rparr>, t_timeout_ms = 30000, t_max_retry = 3,
      t_retry_count = 0, t_submit_ts = 0, t_start_ts = 0, t_finish_ts = 0, t_result = JNull,
      t_error_msg = ''''\<rparr>"

record PbTask =
  p_task_id :: string
  p_natural_id :: string
  p_job_id :: string
  p_pending_dependencies :: "32 word"
  p_client_id :: string
  p_priority :: "32 word"
  p_state :: PbTaskState
  p_func_name :: string
  p_func_params :: string
  p_required :: Resource
  p_shard :: Shard
  p_timeout_ms :: "32 word"
  p_max_retry :: "32 word"
  p_retry_count :: "32 word"
  p_submit_ts :: "64 word"
  p_start_ts :: "64 word"
  p_finish_ts :: "64 word"
  p_result :: pb_struct
  p_error_msg :: string

text \<open>A message with no field set.\<close>

definition default_PbTask :: PbTask where
  "default_PbTask =
     \<lparr>p_task_id = '''', p_natural_id = '''', p_job_id = '''', p_pending_dependencies = 0,
      p_client_id = '''', p_priority = 0, p_state = 0, p_func_name = '''', p_func_params = '''',
      p_required = \<lparr>cpu_core = 0, mem_mb = 0\<rparr>, p_shard = \<lparr>shard_id = 0, total_shards = 0\<rparr>,
      p_timeout_ms = 0, p_max_retry = 0, p_retry_count = 0, p_submit_ts = 0, p_start_ts = 0,
      p_finish_ts = 0, p_result = [], p_error_msg = ''''\<rparr>"

record TaskEdge =
  parent_natural_id :: string
  child_natural_id :: string

record PbSubmitDagRequest =
  pr_idempotency_key :: string
  pr_tasks :: "PbTask list"
  pr_edges :: "TaskEdge list"
  pr_client_id :: string

record SubmitDagRequest =
  sd_job_id :: string
  sd_idempotency_key :: string
  sd_client_id :: string
  sd_tasks :: "Task list"
  sd_edges :: "TaskEdge list"

section \<open>Conversions\<close>

text \<open>
  \<open>TaskToProto\<close> fails only where the JSON printer throws (a string that is not UTF-8), and
  that exception leaves the function.
\<close>

definition TaskToProto :: "json_lib \<Rightarrow> Task \<Rightarrow> string + PbTask" where
  "TaskToProto L task =
     (case jl_dump L (t_func_params task) of
        Inl e \<Rightarrow> Inl e
      | Inr params \<Rightarrow>
          Inr \<lparr>p_task_id = t_task_id task, p_natural_id = t_natural_id task,
               p_job_id = t_job_id task,
               p_pending_dependencies = t_pending_dependencies task,
               p_client_id = t_client_id task, p_priority = t_priority task,
               p_state = StateToProto (t_state task), p_func_name = t_func_name task,
               p_func_params = params, p_required = t_required task, p_shard = t_shard task,
               p_timeout_ms = t_timeout_ms task, p_max_retry = t_max_retry task,
               p_retry_count = t_retry_count task, p_submit_ts = t_submit_ts task,
               p_start_ts = t_start_ts task, p_finish_ts = t_finish_ts task,
               p_result = JsonToStruct L (t_result task), p_error_msg = t_error_msg task\<rparr>)"

definition parse_params :: "json_lib \<Rightarrow> string \<Rightarrow> json" where
  "parse_params L params_str =
     (if params_str = [] then JObject []
      else case jl_parse L params_str of Inl e \<Rightarrow> JObject [] | Inr j \<Rightarrow> j)"

definition TaskFromProto :: "json_lib \<Rightarrow> PbTask \<Rightarrow> Task" where
  "TaskFromProto L proto =
     default_Task
       \<lparr>t_task_id := p_task_id proto, t_natural_id := p_natural_id proto,
        t_job_id := p_job_id proto, t_client_id := p_client_id proto,
        t_priority := p_priority proto, t_state := StateFromProto (p_state proto),
        t_func_name := p_func_name proto,
        t_func_params := parse_params L (p_func_params proto),
        t_required := p_required proto, t_shard := p_shard proto,
        t_timeout_ms := p_timeout_ms proto, t_max_retry := p_max_retry proto,
        t_retry_count := p_retry_count proto, t_submit_ts := p_submit_ts proto,
        t_start_ts := p_start_ts proto, t_finish_ts := p_finish_ts proto,
        t_result := StructToJson (p_result proto), t_error_msg := p_error_msg proto,
        t_pending_dependencies := p_pending_dependencies proto\<rparr>"

text \<open>A null request gives an empty one; job id and client id are never filled in.\<close>

definition ConvertPbFromDagRequest :: "json_lib \<Rightarrow> PbSubmitDagRequest option \<Rightarrow> SubmitDagRequest" where
  "ConvertPbFromDagRequest L req_pb =
     (case req_pb of
        None \<Rightarrow> \<lparr>sd_job_id = '''', sd_idempotency_key = '''', sd_client_id = '''',
                 sd_tasks = [], sd_edges = []\<rparr>
      | Some r \<Rightarrow> \<lparr>sd_job_id = '''', sd_idempotency_key = pr_idempotency_key r, sd_client_id = '''',
                   sd_tasks = map (TaskFromProto L) (pr_tasks r), sd_edges = pr_edges r\<rparr>)"

section \<open>Round trips\<close>

text \<open>
  The JSON values that survive \<open>JsonToStruct\<close> and \<open>StructToJson\<close>: objects in the
  library's form (sorted members) built from booleans, doubles, strings and such objects.
\<close>

fun plain_json :: "json \<Rightarrow> bool" where
  "plain_json (JBool b) = True"
| "plain_json (JFloat d) = True"
| "plain_json (JString s) = True"
| "plain_json (JObject kvs) = (omap_ok kvs \<and> (\<forall>p \<in> set kvs. plain_json (snd p)))"
| "plain_json _ = False"

lemma foldl_omap_put_append:
  "omap_ok (m @ kvs) \<Longrightarrow> foldl (\<lambda>m (k, v). omap_put k v m) m kvs = m @ kvs"
proof (induction kvs arbitrary: m)
  case (Cons p kvs)
  obtain k v where p: "p = (k, v)" by (cases p)
  have "\<forall>k' \<in> fst ` set m. k' < k"
    using Cons.prems p by (auto simp: omap_ok_def sorted_append order_less_le)
  then have "omap_put k v m = m @ [(k, v)]"
    by (induction m) (auto simp: less_imp_not_less)
  with Cons p show ?case by simp
qed simp

lemma put_all_id: "omap_ok kvs \<Longrightarrow> put_all kvs = kvs"
  using foldl_omap_put_append [of "[]" kvs] by (simp add: put_all_def)

lemma omap_ok_map_prod: "omap_ok (map (map_prod id f) kvs) \<longleftrightarrow> omap_ok kvs"
  by (simp add: omap_ok_def comp_def)

lemma map_filter_members:
  "(\<And>p. p \<in> set kvs \<Longrightarrow> f (g (snd p)) = Some (snd p)) \<Longrightarrow>
   List.map_filter (\<lambda>(k, v). map_option (Pair k) v)
     (map (map_prod id f) (map (map_prod id g) kvs)) = kvs"
proof (induction kvs)
  case (Cons p kvs)
  obtain k v where p: "p = (k, v)" by (cases p)
  have "f (g v) = Some v" using Cons.prems [of p] p by simp
  with Cons p show ?case by (simp add: map_filter_simps)
qed (simp add: map_filter_simps)

lemma value_to_json_to_value: "plain_json j \<Longrightarrow> value_to_json (json_to_value L j) = Some j"
proof (induction j rule: plain_json.induct)
  case (4 kvs)
  then have "List.map_filter (\<lambda>(k, v). map_option (Pair k) v)
      (map (map_prod id value_to_json) (map (map_prod id (json_to_value L)) kvs)) = kvs"
    by (intro map_filter_members) auto
  with 4 show ?case by (simp add: put_all_id omap_ok_map_prod del: map_map)
qed simp_all

lemma StructToJson_JsonToStruct:
  assumes "plain_json (JObject kvs)"
  shows "StructToJson (JsonToStruct L (JObject kvs)) = JObject kvs"
  using value_to_json_to_value [OF assms, of L] by (simp add: StructToJson_def JsonToStruct_def)


text \<open>A library that prints the empty object as two braces and parses every text to it.\<close>

definition sample_json_lib :: json_lib where
  "sample_json_lib =
     \<lparr>jl_dump = (\<lambda>_. Inr ''{}''), jl_parse = (\<lambda>_. Inr (JObject [])), jl_i2d = word_of_int\<rparr>"

definition sample_task :: Task where
  "sample_task =
     default_Task\<lparr>t_task_id := ''a'', t_func_name := ''echo'', t_func_params := JObject [],
       t_state := SUCCESS, t_result := JObject [(''ok'', JBool True), (''rows'', JFloat 7)]\<rparr>"


lemma int_str_0: "int_str 0 = ''0''"
  by code_simp

text \<open>
  A result does not always survive: a null member is dropped, an array comes back as an
  object with the indices as keys, and an integer comes back as the double it converts to.
\<close>

theorem result_conversion_lossy:
  "StructToJson (JsonToStruct L (JObject [(''a'', JNull)])) = JObject [] \<and>
   StructToJson (JsonToStruct L (JObject [(''a'', JArray [JBool True])])) =
     JObject [(''a'', JObject [(''0'', JBool True)])] \<and>
   StructToJson (JsonToStruct L (JObject [(''a'', JInt i)])) = JObject [(''a'', JFloat (jl_i2d L i))]"
  by (simp add: StructToJson_def JsonToStruct_def put_all_def index_keys_def map_filter_simps
      int_str_0)

end
