(* ===== verification/Redis_Keys.thy ===== *)
theory Redis_Keys
  imports Dts_Prelude
begin

text \<open>
  The key namespace of \<open>src/common/include/redis/RedisKeys.hpp\<close>: field names, stream
  names and the functions that build a key from an id. The lemmas say that each key function is
  injective and that no two of them ever build the same key, so that an operation on one kind of
  key cannot touch another.
\<close>

subsection \<open>Part 1: field names\<close>

definition kPayload :: string where "kPayload = ''payload''"
definition kTaskId :: string where "kTaskId = ''task_id''"
definition kJobId :: string where "kJobId = ''job_id''"
definition kPriority :: string where "kPriority = ''priority''"
definition kSubmitTs :: string where "kSubmitTs = ''submit_ts''"
definition kWorkerId :: string where "kWorkerId = ''worker_id''"

subsection \<open>Part 2: streams and the consumer group\<close>

definition kTasks :: string where "kTasks = ''dts:stream:tasks''"
definition kErrors :: string where "kErrors = ''dts:stream:errors''"
definition kGroupMain :: string where "kGroupMain = ''dts:group:main''"

subsection \<open>Part 3: run-time state of a DAG\<close>

definition kPrefixChildren :: string where "kPrefixChildren = ''dts:dag:children:''"
definition kPrefixDeps :: string where "kPrefixDeps = ''dts:dag:deps:''"
definition kPrefixMeta :: string where "kPrefixMeta = ''dts:task:meta:''"

definition Children :: "string \<Rightarrow> string" where
  "Children task_id = kPrefixChildren @ task_id"

definition DependencyHash :: "string \<Rightarrow> string" where
  "DependencyHash job_id = kPrefixDeps @ job_id"

definition TaskMeta :: "string \<Rightarrow> string" where
  "TaskMeta task_id = kPrefixMeta @ task_id"

subsection \<open>Part 4: run-time state of tasks, workers and jobs\<close>

definition kPrefixTaskRuntime :: string where "kPrefixTaskRuntime = ''dts:task:runtime:''"
definition kPrefixWorker :: string where "kPrefixWorker = ''dts:worker:''"
definition kPrefixJobTasks :: string where "kPrefixJobTasks = ''dts:job:tasks:''"

definition TaskRuntime :: "string \<Rightarrow> string" where
  "TaskRuntime task_id = kPrefixTaskRuntime @ task_id"

definition WorkerKey :: "string \<Rightarrow> string" where
  "WorkerKey worker_name = kPrefixWorker @ worker_name"

definition JobTasks :: "string \<Rightarrow> string" where
  "JobTasks job_id = kPrefixJobTasks @ job_id"

subsection \<open>Part 5: distributed locks\<close>

definition kPrefixLock :: string where "kPrefixLock = ''dts:lock:''"

definition ResourceLock :: "string \<Rightarrow> string" where
  "ResourceLock resource_name = kPrefixLock @ ''resource:'' @ resource_name"

definition SchedulerLeader :: string where
  "SchedulerLeader = kPrefixLock @ ''scheduler:leader''"

subsection \<open>Injectivity and disjointness\<close>

lemmas key_defs = Children_def DependencyHash_def TaskMeta_def TaskRuntime_def WorkerKey_def
  JobTasks_def ResourceLock_def SchedulerLeader_def kTasks_def kErrors_def kPrefixChildren_def
  kPrefixDeps_def kPrefixMeta_def kPrefixTaskRuntime_def kPrefixWorker_def kPrefixJobTasks_def
  kPrefixLock_def

text \<open>The families of keys the components use, and what a key of each family is.\<close>

datatype key_kind = KChildren | KDeps | KMeta | KRuntime | KWorker | KJobTasks | KLock

fun key_of :: "key_kind \<Rightarrow> string \<Rightarrow> string" where
  "key_of KChildren i = Children i"
| "key_of KDeps i = DependencyHash i"
| "key_of KMeta i = TaskMeta i"
| "key_of KRuntime i = TaskRuntime i"
| "key_of KWorker i = WorkerKey i"
| "key_of KJobTasks i = JobTasks i"
| "key_of KLock i = ResourceLock i"

lemma key_of_inject [simp]: "key_of k i = key_of k' j \<longleftrightarrow> k = k' \<and> i = j"
  by (cases k; cases k') (simp_all add: key_defs)

lemma key_of_not_stream [simp]:
  "key_of k i \<noteq> kTasks" "key_of k i \<noteq> kErrors" "kTasks \<noteq> key_of k i" "kErrors \<noteq> key_of k i"
  by (cases k; simp add: key_defs)+

lemma kTasks_neq_kErrors [simp]: "kTasks \<noteq> kErrors" "kErrors \<noteq> kTasks"
  by (simp_all add: key_defs)

lemma Children_inject [simp]: "Children i = Children j \<longleftrightarrow> i = j"
  by (simp add: key_defs)

lemma TaskMeta_inject [simp]: "TaskMeta i = TaskMeta j \<longleftrightarrow> i = j"
  by (simp add: key_defs)

lemma DependencyHash_inject [simp]: "DependencyHash i = DependencyHash j \<longleftrightarrow> i = j"
  by (simp add: key_defs)

lemma dag_keys_distinct [simp]:
  "Children i \<noteq> TaskMeta j" "TaskMeta j \<noteq> Children i"
  "Children i \<noteq> DependencyHash j" "DependencyHash j \<noteq> Children i"
  "TaskMeta i \<noteq> DependencyHash j" "DependencyHash j \<noteq> TaskMeta i"
  "Children i \<noteq> kTasks" "kTasks \<noteq> Children i" "Children i \<noteq> kErrors" "kErrors \<noteq> Children i"
  "TaskMeta i \<noteq> kTasks" "kTasks \<noteq> TaskMeta i" "TaskMeta i \<noteq> kErrors" "kErrors \<noteq> TaskMeta i"
  "DependencyHash i \<noteq> kTasks" "kTasks \<noteq> DependencyHash i"
  "DependencyHash i \<noteq> kErrors" "kErrors \<noteq> DependencyHash i"
  by (simp_all add: key_defs)

text \<open>
  Two keys built by the key functions are equal only when they come from the same function
  and the same id, and none of them is one of the two streams: the namespaces of
  \<open>RedisKeys.hpp\<close> never collide, whatever the ids are.
\<close>

theorem keys_never_collide:
  "(key_of k i = key_of k' j \<longleftrightarrow> k = k' \<and> i = j) \<and> key_of k i \<notin> {kTasks, kErrors}"
  by simp

end
