(* ===== verification/Redis_Store.thy ===== *)
theory Redis_Store
  imports Redis_Keys "HOL-Library.AList"
begin

text \<open>
  The interface of the Redis server, which is not part of the repository. The server is a
  parameter of the model: its state has an arbitrary type \<open>'r\<close> and every command the code
  sends is a field of the record \<open>redis_ops\<close>. What the code relies on is the locale
  \<open>redis_store\<close>: its laws state the documented effect of each command on an abstract
  keyspace \<open>view\<close>, for a server that answers (\<open>up\<close>); nothing is assumed of a server
  that does not, so a command may then raise any error. Expiry is not part of the abstract
  keyspace: the laws describe what holds before a time to live runs out. The task stream is
  neither deleted nor overwritten by the code, and the laws of these two commands leave it out.

  \<open>ref_ops\<close> at the end is an in-memory keyspace that obeys the laws.
\<close>

section \<open>Commands\<close>

type_synonym fields = "(string \<times> string) list"
type_synonym stream_entry = "string \<times> fields"

text \<open>\<open>sw::redis::Error\<close> and every other \<open>std::exception\<close>, with their messages.\<close>

datatype redis_err = RedisError string | StdException string

record 'r redis_ops =
  r_smembers :: "string \<Rightarrow> ('r, redis_err, string list) sem"
  r_sadd :: "string \<Rightarrow> string \<Rightarrow> ('r, redis_err, int) sem"
  r_hincrby :: "string \<Rightarrow> string \<Rightarrow> int \<Rightarrow> ('r, redis_err, int) sem"
  r_hset :: "string \<Rightarrow> string \<Rightarrow> string \<Rightarrow> ('r, redis_err, int) sem"
  r_hdel :: "string \<Rightarrow> string \<Rightarrow> ('r, redis_err, int) sem"
  r_hgetall :: "string \<Rightarrow> ('r, redis_err, (string \<times> string) list) sem"
  r_exists :: "string \<Rightarrow> ('r, redis_err, int) sem"
  r_del :: "string \<Rightarrow> ('r, redis_err, int) sem"
  r_get :: "string \<Rightarrow> ('r, redis_err, string option) sem"
  r_set :: "string \<Rightarrow> string \<Rightarrow> int \<Rightarrow> ('r, redis_err, unit) sem"
  r_expire :: "string \<Rightarrow> int \<Rightarrow> ('r, redis_err, bool) sem"
  r_xadd :: "string \<Rightarrow> string \<Rightarrow> fields \<Rightarrow> ('r, redis_err, string) sem"

section \<open>The abstract keyspace\<close>

datatype rval =
    RStr string
  | RSet "string set"
  | RHash "string \<Rightarrow> string option"
  | RStream "stream_entry list"

type_synonym keyspace = "string \<Rightarrow> rval option"

definition is_set :: "keyspace \<Rightarrow> string \<Rightarrow> bool" where
  "is_set v k \<longleftrightarrow> (case v k of None \<Rightarrow> True | Some (RSet _) \<Rightarrow> True | _ \<Rightarrow> False)"

definition is_hash :: "keyspace \<Rightarrow> string \<Rightarrow> bool" where
  "is_hash v k \<longleftrightarrow> (case v k of None \<Rightarrow> True | Some (RHash _) \<Rightarrow> True | _ \<Rightarrow> False)"

definition is_stream :: "keyspace \<Rightarrow> string \<Rightarrow> bool" where
  "is_stream v k \<longleftrightarrow> (case v k of None \<Rightarrow> True | Some (RStream _) \<Rightarrow> True | _ \<Rightarrow> False)"

definition set_at :: "keyspace \<Rightarrow> string \<Rightarrow> string set" where
  "set_at v k = (case v k of Some (RSet S) \<Rightarrow> S | _ \<Rightarrow> {})"

definition hash_at :: "keyspace \<Rightarrow> string \<Rightarrow> (string \<Rightarrow> string option)" where
  "hash_at v k = (case v k of Some (RHash h) \<Rightarrow> h | _ \<Rightarrow> Map.empty)"

definition stream_at :: "keyspace \<Rightarrow> string \<Rightarrow> stream_entry list" where
  "stream_at v k = (case v k of Some (RStream es) \<Rightarrow> es | _ \<Rightarrow> [])"

text \<open>A hash is deleted with its last field.\<close>

definition put_hash :: "(string \<Rightarrow> string option) \<Rightarrow> rval option" where
  "put_hash h = (if h = Map.empty then None else Some (RHash h))"

text \<open>The integer a hash field holds; a missing field counts as 0 for \<open>HINCRBY\<close>.\<close>

definition hash_int :: "keyspace \<Rightarrow> string \<Rightarrow> string \<Rightarrow> int \<Rightarrow> bool" where
  "hash_int v k f n \<longleftrightarrow>
     hash_at v k f = Some (int_str n) \<or> hash_at v k f = None \<and> n = 0"

definition in_int64 :: "int \<Rightarrow> bool" where
  "in_int64 n \<longleftrightarrow> - (2 ^ 63) \<le> n \<and> n < 2 ^ 63"

named_theorems view_simps \<open>reading the abstract keyspace after an update\<close>

lemma set_at_upd [simp, view_simps]:
  "set_at (v(k \<mapsto> RSet S)) k = S" "set_at (v(k := None)) k = {}"
  "k \<noteq> k' \<Longrightarrow> set_at (v(k := x)) k' = set_at v k'"
  by (simp_all add: set_at_def)

lemma hash_at_upd [simp, view_simps]:
  "hash_at (v(k \<mapsto> RHash h)) k = h" "hash_at (v(k := put_hash h)) k = h"
  "k \<noteq> k' \<Longrightarrow> hash_at (v(k := x)) k' = hash_at v k'"
  by (auto simp: hash_at_def put_hash_def)

lemma stream_at_upd [simp, view_simps]:
  "stream_at (v(k \<mapsto> RStream es)) k = es"
  "k \<noteq> k' \<Longrightarrow> stream_at (v(k := x)) k' = stream_at v k'"
  by (simp_all add: stream_at_def)

lemma is_kind_upd [simp, view_simps]:
  "is_set (v(k \<mapsto> RSet S)) k" "is_hash (v(k \<mapsto> RHash h)) k" "is_hash (v(k := put_hash h)) k"
  "is_stream (v(k \<mapsto> RStream es)) k"
  "is_set (v(k := None)) k" "is_hash (v(k := None)) k" "is_stream (v(k := None)) k"
  "k \<noteq> k' \<Longrightarrow> is_set (v(k := x)) k' = is_set v k'"
  "k \<noteq> k' \<Longrightarrow> is_hash (v(k := x)) k' = is_hash v k'"
  "k \<noteq> k' \<Longrightarrow> is_stream (v(k := x)) k' = is_stream v k'"
  by (simp_all add: is_set_def is_hash_def is_stream_def put_hash_def)

section \<open>The laws the code relies on\<close>

locale redis_store =
  fixes R :: "'r redis_ops"
    and view :: "'r \<Rightarrow> keyspace"
    and up :: "'r \<Rightarrow> bool"
  assumes smembers:
    "up r \<Longrightarrow> is_set (view r) k \<Longrightarrow>
     \<exists>xs r'. r_smembers R k r = (Inr xs, r') \<and> up r' \<and> view r' = view r \<and>
             distinct xs \<and> set xs = set_at (view r) k"
  and sadd:
    "up r \<Longrightarrow> is_set (view r) k \<Longrightarrow>
     \<exists>n r'. r_sadd R k m r = (Inr n, r') \<and> up r' \<and>
            view r' = (view r)(k \<mapsto> RSet (insert m (set_at (view r) k)))"
  and hincrby:
    "up r \<Longrightarrow> is_hash (view r) k \<Longrightarrow> hash_int (view r) k f n \<Longrightarrow> in_int64 (n + d) \<Longrightarrow>
     \<exists>r'. r_hincrby R k f d r = (Inr (n + d), r') \<and> up r' \<and>
          view r' = (view r)(k \<mapsto> RHash ((hash_at (view r) k)(f \<mapsto> int_str (n + d))))"
  and hset:
    "up r \<Longrightarrow> is_hash (view r) k \<Longrightarrow>
     \<exists>n r'. r_hset R k f x r = (Inr n, r') \<and> up r' \<and>
            view r' = (view r)(k \<mapsto> RHash ((hash_at (view r) k)(f \<mapsto> x)))"
  and hdel:
    "up r \<Longrightarrow> is_hash (view r) k \<Longrightarrow>
     \<exists>n r'. r_hdel R k f r = (Inr n, r') \<and> up r' \<and>
            view r' = (view r)(k := put_hash ((hash_at (view r) k)(f := None)))"
  and hgetall:
    "up r \<Longrightarrow> is_hash (view r) k \<Longrightarrow>
     \<exists>xs r'. r_hgetall R k r = (Inr xs, r') \<and> up r' \<and> view r' = view r \<and>
             distinct (map fst xs) \<and> map_of xs = hash_at (view r) k"
  and exists:
    "up r \<Longrightarrow>
     \<exists>r'. r_exists R k r = (Inr (if view r k = None then 0 else 1), r') \<and> up r' \<and> view r' = view r"
  and del:
    "up r \<Longrightarrow> k \<noteq> kTasks \<Longrightarrow> \<exists>n r'. r_del R k r = (Inr n, r') \<and> up r' \<and> view r' = (view r)(k := None)"
  and get:
    "up r \<Longrightarrow> view r k = None \<or> view r k = Some (RStr x) \<Longrightarrow>
     \<exists>r'. r_get R k r = (Inr (if view r k = None then None else Some x), r') \<and>
          up r' \<and> view r' = view r"
  and set:
    "up r \<Longrightarrow> k \<noteq> kTasks \<Longrightarrow> \<exists>r'. r_set R k x ttl r = (Inr (), r') \<and> up r' \<and> view r' = (view r)(k \<mapsto> RStr x)"
  and expire:
    "up r \<Longrightarrow> \<exists>b r'. r_expire R k ttl r = (Inr b, r') \<and> up r' \<and> view r' = view r"
  and xadd:
    "up r \<Longrightarrow> is_stream (view r) k \<Longrightarrow>
     \<exists>i r'. r_xadd R k ''*'' fs r = (Inr i, r') \<and> up r' \<and>
            view r' = (view r)(k \<mapsto> RStream (stream_at (view r) k @ [(i, fs)])) \<and>
            i \<notin> fst ` List.set (stream_at (view r) k)"

section \<open>An in-memory keyspace that obeys the laws\<close>

datatype kval = KStr string | KSet "string list" | KHash fields | KStream "stream_entry list"

record mem_store =
  ms_keys :: "string \<Rightarrow> kval option"
  ms_next :: nat

fun kval_abs :: "kval \<Rightarrow> rval" where
  "kval_abs (KStr s) = RStr s"
| "kval_abs (KSet xs) = RSet (set xs)"
| "kval_abs (KHash h) = RHash (map_of h)"
| "kval_abs (KStream es) = RStream es"

definition ms_view :: "mem_store \<Rightarrow> keyspace" where
  "ms_view r k = map_option kval_abs (ms_keys r k)"

text \<open>
  Well-formed: sets, hash fields and stream ids have no repetition, no hash is empty, and the stream
  ids used so far are below the counter.
\<close>

fun kval_ok :: "nat \<Rightarrow> kval \<Rightarrow> bool" where
  "kval_ok n (KStr s) = True"
| "kval_ok n (KSet xs) = distinct xs"
| "kval_ok n (KHash h) = (distinct (map fst h) \<and> h \<noteq> [])"
| "kval_ok n (KStream es) = (distinct (map fst es) \<and> (\<forall>e \<in> set es. \<exists>i < n. fst e = int_str (int i)))"

definition ms_up :: "mem_store \<Rightarrow> bool" where
  "ms_up r \<longleftrightarrow> (\<forall>k x. ms_keys r k = Some x \<longrightarrow> kval_ok (ms_next r) x)"

definition wrong_type :: "redis_err" where
  "wrong_type = RedisError ''WRONGTYPE''"

definition ms_put :: "string \<Rightarrow> kval option \<Rightarrow> mem_store \<Rightarrow> mem_store" where
  "ms_put k x r = r\<lparr>ms_keys := (ms_keys r)(k := x)\<rparr>"

definition put_khash :: "fields \<Rightarrow> kval option" where
  "put_khash h = (if h = [] then None else Some (KHash h))"

definition ms_smembers :: "string \<Rightarrow> (mem_store, redis_err, string list) sem" where
  "ms_smembers k r =
     (case ms_keys r k of None \<Rightarrow> (Inr [], r) | Some (KSet xs) \<Rightarrow> (Inr xs, r) | _ \<Rightarrow> (Inl wrong_type, r))"

definition ms_sadd :: "string \<Rightarrow> string \<Rightarrow> (mem_store, redis_err, int) sem" where
  "ms_sadd k m r =
     (case ms_keys r k of
        None \<Rightarrow> (Inr 1, ms_put k (Some (KSet [m])) r)
      | Some (KSet xs) \<Rightarrow>
          (if m \<in> set xs then (Inr 0, r) else (Inr 1, ms_put k (Some (KSet (xs @ [m]))) r))
      | _ \<Rightarrow> (Inl wrong_type, r))"

definition ms_hash :: "mem_store \<Rightarrow> string \<Rightarrow> fields option" where
  "ms_hash r k =
     (case ms_keys r k of None \<Rightarrow> Some [] | Some (KHash h) \<Rightarrow> Some h | _ \<Rightarrow> None)"

definition ms_hset :: "string \<Rightarrow> string \<Rightarrow> string \<Rightarrow> (mem_store, redis_err, int) sem" where
  "ms_hset k f x r =
     (case ms_hash r k of
        None \<Rightarrow> (Inl wrong_type, r)
      | Some h \<Rightarrow> (Inr (if map_of h f = None then 1 else 0),
                   ms_put k (Some (KHash (AList.update f x h))) r))"

definition ms_hincrby :: "string \<Rightarrow> string \<Rightarrow> int \<Rightarrow> (mem_store, redis_err, int) sem" where
  "ms_hincrby k f d r =
     (case ms_hash r k of
        None \<Rightarrow> (Inl wrong_type, r)
      | Some h \<Rightarrow>
          (case (case map_of h f of None \<Rightarrow> Some 0 | Some s \<Rightarrow> read_int s) of
             None \<Rightarrow> (Inl (RedisError ''ERR hash value is not an integer''), r)
           | Some n \<Rightarrow>
               (if in_int64 (n + d)
                then (Inr (n + d), ms_put k (Some (KHash (AList.update f (int_str (n + d)) h))) r)
                else (Inl (RedisError ''ERR increment or decrement would overflow''), r))))"

definition ms_hdel :: "string \<Rightarrow> string \<Rightarrow> (mem_store, redis_err, int) sem" where
  "ms_hdel k f r =
     (case ms_hash r k of
        None \<Rightarrow> (Inl wrong_type, r)
      | Some h \<Rightarrow> (Inr (if map_of h f = None then 0 else 1),
                   ms_put k (put_khash (AList.delete f h)) r))"

definition ms_hgetall :: "string \<Rightarrow> (mem_store, redis_err, (string \<times> string) list) sem" where
  "ms_hgetall k r =
     (case ms_hash r k of None \<Rightarrow> (Inl wrong_type, r) | Some h \<Rightarrow> (Inr h, r))"

definition ms_exists :: "string \<Rightarrow> (mem_store, redis_err, int) sem" where
  "ms_exists k r = (Inr (if ms_keys r k = None then 0 else 1), r)"

definition ms_del :: "string \<Rightarrow> (mem_store, redis_err, int) sem" where
  "ms_del k r = (Inr (if ms_keys r k = None then 0 else 1), ms_put k None r)"

definition ms_get :: "string \<Rightarrow> (mem_store, redis_err, string option) sem" where
  "ms_get k r =
     (case ms_keys r k of
        None \<Rightarrow> (Inr None, r) | Some (KStr s) \<Rightarrow> (Inr (Some s), r) | _ \<Rightarrow> (Inl wrong_type, r))"

definition ms_set :: "string \<Rightarrow> string \<Rightarrow> int \<Rightarrow> (mem_store, redis_err, unit) sem" where
  "ms_set k x ttl r = (Inr (), ms_put k (Some (KStr x)) r)"

definition ms_expire :: "string \<Rightarrow> int \<Rightarrow> (mem_store, redis_err, bool) sem" where
  "ms_expire k ttl r = (Inr (ms_keys r k \<noteq> None), r)"

definition ms_xadd :: "string \<Rightarrow> string \<Rightarrow> fields \<Rightarrow> (mem_store, redis_err, string) sem" where
  "ms_xadd k i fs r =
     (case ms_keys r k of
        None \<Rightarrow>
          (Inr (int_str (int (ms_next r))),
           ms_put k (Some (KStream [(int_str (int (ms_next r)), fs)])) (r\<lparr>ms_next := Suc (ms_next r)\<rparr>))
      | Some (KStream es) \<Rightarrow>
          (Inr (int_str (int (ms_next r))),
           ms_put k (Some (KStream (es @ [(int_str (int (ms_next r)), fs)])))
             (r\<lparr>ms_next := Suc (ms_next r)\<rparr>))
      | _ \<Rightarrow> (Inl wrong_type, r))"

definition ref_ops :: "mem_store redis_ops" where
  "ref_ops =
     \<lparr>r_smembers = ms_smembers, r_sadd = ms_sadd, r_hincrby = ms_hincrby, r_hset = ms_hset,
      r_hdel = ms_hdel, r_hgetall = ms_hgetall, r_exists = ms_exists, r_del = ms_del,
      r_get = ms_get, r_set = ms_set, r_expire = ms_expire, r_xadd = ms_xadd\<rparr>"

definition ms_empty :: mem_store where
  "ms_empty = \<lparr>ms_keys = (\<lambda>_. None), ms_next = 0\<rparr>"

lemmas ms_op_defs = ms_smembers_def ms_sadd_def ms_hincrby_def ms_hset_def ms_hdel_def
  ms_hgetall_def ms_exists_def ms_del_def ms_get_def ms_set_def ms_expire_def ms_xadd_def

lemma ms_view_put [simp]: "ms_view (ms_put k x r) = (ms_view r)(k := map_option kval_abs x)"
  by (auto simp: ms_view_def ms_put_def)

lemma ms_view_next [simp]: "ms_view (r\<lparr>ms_next := n\<rparr>) = ms_view r"
  by (auto simp: ms_view_def)

lemma ms_put_sel [simp]:
  "ms_next (ms_put k x r) = ms_next r" "ms_keys (ms_put k x r) = (ms_keys r)(k := x)"
  by (simp_all add: ms_put_def)

lemma ms_up_put: "ms_up r \<Longrightarrow> (\<And>y. x = Some y \<Longrightarrow> kval_ok (ms_next r) y) \<Longrightarrow> ms_up (ms_put k x r)"
  by (simp add: ms_up_def)

lemma kval_ok_mono: "kval_ok n x \<Longrightarrow> n \<le> m \<Longrightarrow> kval_ok m x"
  by (cases x) (auto intro: less_le_trans)

lemma ms_up_next: "ms_up r \<Longrightarrow> ms_up (r\<lparr>ms_next := Suc (ms_next r)\<rparr>)"
  by (auto simp: ms_up_def intro: kval_ok_mono [where n = "ms_next r"])

lemma ms_up_ok: "ms_up r \<Longrightarrow> ms_keys r k = Some x \<Longrightarrow> kval_ok (ms_next r) x"
  by (simp add: ms_up_def)

lemma ms_up_set: "ms_up r \<Longrightarrow> ms_keys r k = Some (KSet xs) \<Longrightarrow> distinct xs"
  by (auto dest: ms_up_ok)

lemma ms_view_None_iff [simp]: "ms_view r k = None \<longleftrightarrow> ms_keys r k = None"
  by (simp add: ms_view_def)

lemma kval_abs_eq_iff:
  "kval_abs x = RStr s \<longleftrightarrow> x = KStr s"
  "kval_abs x = RSet S \<longleftrightarrow> (\<exists>xs. x = KSet xs \<and> S = set xs)"
  "kval_abs x = RHash f \<longleftrightarrow> (\<exists>h. x = KHash h \<and> f = map_of h)"
  "kval_abs x = RStream es \<longleftrightarrow> x = KStream es"
  by (cases x; auto)+

lemma ms_kind_iff:
  "is_set (ms_view r) k \<longleftrightarrow> (ms_keys r k = None \<or> (\<exists>xs. ms_keys r k = Some (KSet xs)))"
  "is_hash (ms_view r) k \<longleftrightarrow> (\<exists>h. ms_hash r k = Some h)"
  "is_stream (ms_view r) k \<longleftrightarrow> (ms_keys r k = None \<or> (\<exists>es. ms_keys r k = Some (KStream es)))"
  by (auto simp: is_set_def is_hash_def is_stream_def ms_view_def ms_hash_def kval_abs_eq_iff
      split: option.splits kval.splits rval.splits)

lemma ms_at:
  "ms_keys r k = Some (KSet xs) \<Longrightarrow> set_at (ms_view r) k = set xs"
  "ms_keys r k = None \<Longrightarrow> set_at (ms_view r) k = {}"
  "ms_keys r k = None \<Longrightarrow> stream_at (ms_view r) k = []"
  "ms_keys r k = Some (KStream es) \<Longrightarrow> stream_at (ms_view r) k = es"
  "ms_hash r k = Some h \<Longrightarrow> hash_at (ms_view r) k = map_of h"
  by (auto simp: set_at_def stream_at_def hash_at_def ms_view_def ms_hash_def
      split: option.splits kval.splits)

lemma ms_hash_distinct: "ms_up r \<Longrightarrow> ms_hash r k = Some h \<Longrightarrow> distinct (map fst h)"
  by (auto simp: ms_hash_def dest!: ms_up_ok split: option.splits kval.splits)

lemma put_khash_abs: "map_option kval_abs (put_khash h) = put_hash (map_of h)"
  by (simp add: put_khash_def put_hash_def)

lemma update_neq_Nil [simp]: "AList.update f x h \<noteq> []"
  by (cases h) auto

lemma ms_up_put_hash:
  "ms_up r \<Longrightarrow> distinct (map fst h) \<Longrightarrow> h \<noteq> [] \<Longrightarrow> ms_up (ms_put k (Some (KHash h)) r)"
  by (rule ms_up_put) auto

lemma ms_xadd_fresh:
  assumes "ms_up r" "ms_keys r k = Some (KStream es)"
  shows "int_str (int (ms_next r)) \<notin> fst ` set es"
  using ms_up_ok [OF assms] by force

lemma ms_up_xadd:
  assumes "ms_up r" "ms_keys r k = Some (KStream es) \<or> es = []"
  shows "ms_up (ms_put k (Some (KStream (es @ [(int_str (int (ms_next r)), fs)])))
           (r\<lparr>ms_next := Suc (ms_next r)\<rparr>))"
proof (rule ms_up_put [OF ms_up_next [OF assms(1)]])
  fix y
  assume "Some (KStream (es @ [(int_str (int (ms_next r)), fs)])) = Some y"
  moreover have "kval_ok (ms_next r) (KStream es)"
    using assms(2) ms_up_ok [OF assms(1), of k "KStream es"] by (elim disjE) simp_all
  moreover have "int_str (int (ms_next r)) \<notin> fst ` set es"
    using assms(2) by (elim disjE) (simp_all add: ms_xadd_fresh [OF assms(1)])
  ultimately show "kval_ok (ms_next (r\<lparr>ms_next := Suc (ms_next r)\<rparr>)) y"
    by (fastforce simp: less_Suc_eq)
qed

lemma ms_hgetall_law:
  "ms_up r \<Longrightarrow> ms_hash r k = Some h \<Longrightarrow>
   ms_hgetall k r = (Inr h, r) \<and> distinct (map fst h) \<and> map_of h = hash_at (ms_view r) k"
  by (simp add: ms_hgetall_def ms_at ms_hash_distinct)

interpretation mem: redis_store ref_ops ms_view ms_up
proof (unfold_locales, goal_cases)
  case (1 r k)
  then show ?case
    by (auto simp: ref_ops_def ms_op_defs ms_kind_iff ms_at dest: ms_up_set)
next
  case (2 r k m)
  then show ?case
    by (fastforce simp: ref_ops_def ms_op_defs ms_kind_iff ms_at insert_absorb fun_upd_idem_iff
        ms_view_def intro!: ms_up_put dest: ms_up_ok)
next
  case (3 r k f n d)
  then obtain h where h: "ms_hash r k = Some h" by (auto simp: ms_kind_iff)
  with 3 have "(case map_of h f of None \<Rightarrow> Some 0 | Some s \<Rightarrow> read_int s) = Some n"
    by (auto simp: hash_int_def ms_at)
  with 3 h show ?case
    by (auto simp: ref_ops_def ms_op_defs ms_at update_conv' intro!: ms_up_put_hash
        distinct_update dest: ms_hash_distinct)
next
  case (4 r k f x)
  then show ?case
    by (auto simp: ref_ops_def ms_op_defs ms_kind_iff ms_at update_conv' intro!: ms_up_put_hash
        distinct_update dest: ms_hash_distinct)
next
  case (5 r k f)
  then obtain h where h: "ms_hash r k = Some h" by (auto simp: ms_kind_iff)
  have "ms_up (ms_put k (put_khash (AList.delete f h)) r)"
    using 5(1) ms_hash_distinct [OF 5(1) h]
    by (auto simp: put_khash_def distinct_delete intro!: ms_up_put)
  with h show ?case
    by (auto simp: ref_ops_def ms_op_defs ms_at put_khash_abs delete_conv')
next
  case (6 r k)
  then show ?case by (auto simp: ref_ops_def ms_kind_iff dest: ms_hgetall_law)
next
  case (7 r k)
  then show ?case by (simp add: ref_ops_def ms_op_defs)
next
  case (8 r k)
  then show ?case by (auto simp: ref_ops_def ms_op_defs intro!: ms_up_put)
next
  case (9 r k x)
  then show ?case
    by (auto simp: ref_ops_def ms_op_defs ms_view_def split: option.splits kval.splits)
next
  case (10 r k x ttl)
  then show ?case by (auto simp: ref_ops_def ms_op_defs intro!: ms_up_put)
next
  case (11 r k ttl)
  then show ?case by (simp add: ref_ops_def ms_op_defs)
next
  case (12 r k fs)
  then consider "ms_keys r k = None" | es where "ms_keys r k = Some (KStream es)"
    by (auto simp: ms_kind_iff)
  then show ?case
  proof cases
    case 1
    then show ?thesis
      using ms_up_xadd [OF 12(1), of k "[]" fs] by (simp add: ref_ops_def ms_op_defs ms_at)
  next
    case 2
    then show ?thesis
      using ms_up_xadd [OF 12(1), of k es fs] ms_xadd_fresh [OF 12(1)]
      by (simp add: ref_ops_def ms_op_defs ms_at)
  qed
qed

lemma ms_up_empty [simp]: "ms_up ms_empty"
  by (simp add: ms_up_def ms_empty_def)

end
