(* ===== verification/Task_Serializer.thy ===== *)
theory Task_Serializer
  imports Task_Types Redis_Store
begin

text \<open>
  \<open>src/common/include/utils/TaskSerializer.hpp\<close>: what a stream entry carries (a pointer to
  a task, not the task) and how it is read back. The protobuf wire format is generated code: a
  \<open>pb_codec\<close> holds \<open>SerializeToString\<close> and \<open>ParseFromString\<close>.
\<close>

record StreamTaskPointer =
  sp_task_id :: string
  sp_job_id :: string
  sp_stream_id :: string

record pb_codec =
  pb_serialize :: "PbTask \<Rightarrow> string"
  pb_parse :: "string \<Rightarrow> PbTask option"

definition ToXAddArgs :: "string \<Rightarrow> string \<Rightarrow> fields" where
  "ToXAddArgs task_id job_id = [(''id'', task_id), (''job'', job_id)]"

text \<open>The loop over the fields of an entry; the flag is \<open>found_id\<close>.\<close>

fun parse_fields :: "fields \<Rightarrow> StreamTaskPointer \<Rightarrow> bool \<Rightarrow> StreamTaskPointer \<times> bool" where
  "parse_fields [] ptr found_id = (ptr, found_id)"
| "parse_fields ((field, val) # fs) ptr found_id =
     (if field = ''id'' \<or> field = ''task_id''
      then parse_fields fs (ptr\<lparr>sp_task_id := val\<rparr>) True
      else if field = ''job'' \<or> field = ''job_id''
      then parse_fields fs (ptr\<lparr>sp_job_id := val\<rparr>) found_id
      else parse_fields fs ptr found_id)"

definition ParseStreamEntry :: "stream_entry \<Rightarrow> StreamTaskPointer option" where
  "ParseStreamEntry entry =
     (let (ptr, found_id) =
        parse_fields (snd entry)
          \<lparr>sp_task_id = '''', sp_job_id = '''', sp_stream_id = fst entry\<rparr> False
      in if \<not> found_id then None else Some ptr)"

definition FromMetaBinary :: "json_lib \<Rightarrow> pb_codec \<Rightarrow> string \<Rightarrow> Task option" where
  "FromMetaBinary L P binary_data =
     (if binary_data = [] then None
      else case pb_parse P binary_data of
             None \<Rightarrow> None
           | Some proto_task \<Rightarrow> Some (TaskFromProto L proto_task))"

text \<open>The id an entry points to, when it is well formed.\<close>

definition entry_task :: "stream_entry \<Rightarrow> string option" where
  "entry_task e = map_option sp_task_id (ParseStreamEntry e)"

lemma parse_fields_found:
  "snd (parse_fields fs ptr b) \<longleftrightarrow> b \<or> (\<exists>p \<in> set fs. fst p = ''id'' \<or> fst p = ''task_id'')"
  by (induction fs ptr b rule: parse_fields.induct) auto

lemma parse_fields_stream_id: "sp_stream_id (fst (parse_fields fs ptr b)) = sp_stream_id ptr"
  by (induction fs ptr b rule: parse_fields.induct) auto

lemma ParseStreamEntry_ToXAddArgs:
  "ParseStreamEntry (sid, ToXAddArgs t j) =
     Some \<lparr>sp_task_id = t, sp_job_id = j, sp_stream_id = sid\<rparr>"
  by (simp add: ParseStreamEntry_def ToXAddArgs_def)

lemma ParseStreamEntry_script:
  "ParseStreamEntry (sid, [(''task_id'', t), (''job_id'', j)]) =
     Some \<lparr>sp_task_id = t, sp_job_id = j, sp_stream_id = sid\<rparr>"
  by (simp add: ParseStreamEntry_def)

lemma entry_task_simps [simp]:
  "entry_task (sid, ToXAddArgs t j) = Some t"
  "entry_task (sid, [(''task_id'', t), (''job_id'', j)]) = Some t"
  by (simp_all add: entry_task_def ParseStreamEntry_ToXAddArgs ParseStreamEntry_script)

text \<open>
  Both producers of the task stream are understood: an entry written by \<open>ToXAddArgs\<close>
  (fields \<open>id\<close> and \<open>job\<close>) and one written by the completion script (fields
  \<open>task_id\<close> and \<open>job_id\<close>) parse to the same pointer, which carries the task id, the
  job id and the entry's stream id.
\<close>

theorem stream_entry_roundtrip:
  "ParseStreamEntry (sid, ToXAddArgs t j) = Some \<lparr>sp_task_id = t, sp_job_id = j, sp_stream_id = sid\<rparr> \<and>
   ParseStreamEntry (sid, [(kTaskId, t), (kJobId, j)]) = ParseStreamEntry (sid, ToXAddArgs t j)"
  by (simp add: ParseStreamEntry_ToXAddArgs kTaskId_def kJobId_def ParseStreamEntry_script)

text \<open>
  An entry is rejected exactly when none of its fields is named \<open>id\<close> or
  \<open>task_id\<close>; the pointer of an accepted one keeps the entry's stream id.
\<close>

theorem stream_entry_rejected_iff:
  "(ParseStreamEntry e = None \<longleftrightarrow> ''id'' \<notin> fst ` set (snd e) \<and> ''task_id'' \<notin> fst ` set (snd e)) \<and>
   map_option sp_stream_id (ParseStreamEntry e) \<in> {None, Some (fst e)}"
proof -
  let ?r = "parse_fields (snd e) \<lparr>sp_task_id = '''', sp_job_id = '''', sp_stream_id = fst e\<rparr> False"
  have "snd ?r \<longleftrightarrow> ''id'' \<in> fst ` set (snd e) \<or> ''task_id'' \<in> fst ` set (snd e)"
    by (force simp: parse_fields_found)
  moreover have "sp_stream_id (fst ?r) = fst e"
    by (simp add: parse_fields_stream_id)
  ultimately show ?thesis
    by (cases ?r) (auto simp: ParseStreamEntry_def)
qed

end
