(* ===== verification/Db_Tables.thy ===== *)
theory Db_Tables
  imports Dts_Prelude
begin

text \<open>
  The PostgreSQL tables of \<open>init.sql\<close> as far as the code reads and writes them, the SQL
  statements' common parts (\<open>UPDATE ... WHERE\<close>, \<open>SELECT ... WHERE\<close>, constrained row
  insertion), and the transaction bracket of \<open>DatabasePool::ExecuteTx\<close>.

  The columns \<open>required\<close>, \<open>shard\<close> and \<open>client_id\<close> of \<open>task\<close> and the
  timestamps of \<open>job\<close> are neither read nor written by the modelled code and left out. The
  input functions of the types \<open>uuid\<close> and \<open>jsonb\<close> are parameters (\<open>pg_types\<close>);
  what the server and the network do to a transaction is the parameter \<open>tx_env\<close>.
\<close>

section \<open>Rows and tables\<close>

record job_row =
  j_job_id :: string
  j_idempotency_key :: string
  j_state :: int

record task_row =
  tr_task_id :: string
  tr_job_id :: string
  tr_natural_id :: string
  tr_func_name :: string
  tr_func_params :: "string option"
  tr_state :: int
  tr_priority :: int
  tr_retry_count :: int
  tr_max_retry :: int
  tr_timeout_ms :: int
  tr_pending_dependencies :: int
  tr_error_msg :: "string option"
  tr_submit_ts :: "int option"
  tr_start_ts :: "int option"
  tr_finish_ts :: "int option"
  tr_result :: "string option"
  tr_worker_id :: "string option"

type_synonym edge_row = "string \<times> string"

record database =
  db_jobs :: "job_row list"
  db_tasks :: "task_row list"
  db_edges :: "edge_row list"

text \<open>The states a row holds, as the SQL texts spell them.\<close>

definition ST_PENDING :: int where "ST_PENDING = 0"
definition ST_RUNNING :: int where "ST_RUNNING = 1"
definition ST_SUCCESS :: int where "ST_SUCCESS = 2"
definition ST_FAILED :: int where "ST_FAILED = 3"
definition ST_WAITING :: int where "ST_WAITING = 6"

lemmas st_defs = ST_PENDING_def ST_RUNNING_def ST_SUCCESS_def ST_FAILED_def ST_WAITING_def

section \<open>Errors and transactions\<close>

text \<open>\<open>pqxx::broken_connection\<close> is caught apart from every other \<open>std::exception\<close>.\<close>

datatype db_err = BrokenConnection string | StdExn string

text \<open>
  What happens to one transaction from outside: opening it may fail, the commit may fail (and
  then may or may not have taken effect), and the time the server reads.
\<close>

record tx_env =
  te_begin :: "db_err option"
  te_commit :: "(db_err \<times> bool) option"
  te_now :: int

definition tx_ok :: "int \<Rightarrow> tx_env" where
  "tx_ok now = \<lparr>te_begin = None, te_commit = None, te_now = now\<rparr>"

text \<open>
  \<open>ExecuteTx\<close> around the caller's closure: the closure works on the database and on the
  caller's captured variables. An exception rolls the database back and leaves the captured
  variables as they are, and it is thrown again in every case.
\<close>

definition run_tx ::
  "tx_env \<Rightarrow> ('db \<times> 'l, db_err, unit) sem \<Rightarrow> ('db \<times> 'l, db_err, unit) sem" where
  "run_tx E tx_logic s =
     (case te_begin E of
        Some e \<Rightarrow> (Inl e, s)
      | None \<Rightarrow>
          (case tx_logic s of
             (Inl e, s') \<Rightarrow> (Inl e, (fst s, snd s'))
           | (Inr _, s') \<Rightarrow>
               (case te_commit E of
                  None \<Rightarrow> (Inr (), s')
                | Some (e, applied) \<Rightarrow> (Inl e, (if applied then fst s' else fst s, snd s')))))"

lemma run_tx_ok [simp]:
  "run_tx (tx_ok now) f s =
     (case f s of (Inl e, s') \<Rightarrow> (Inl e, (fst s, snd s')) | (Inr _, s') \<Rightarrow> (Inr (), s'))"
  by (simp add: run_tx_def tx_ok_def split: prod.splits sum.splits)

lemma run_tx_error_atomic:
  "run_tx E f s = (Inl e, s') \<Longrightarrow>
   fst s' = fst s \<or> (\<exists>e'. te_commit E = Some (e', True) \<and> fst s' = fst (snd (f s)))"
  by (auto simp: run_tx_def split: option.splits prod.splits sum.splits if_splits)

lemma run_tx_logic_fails:
  "f s = (Inl e, s') \<Longrightarrow> \<exists>e'. fst (run_tx E f s) = Inl e' \<and> fst (snd (run_tx E f s)) = fst s"
  by (cases "te_begin E") (auto simp: run_tx_def)

section \<open>Statements\<close>

text \<open>\<open>UPDATE t SET f WHERE p\<close>: the new table and the number of affected rows.\<close>

definition sql_update :: "('row \<Rightarrow> bool) \<Rightarrow> ('row \<Rightarrow> 'row) \<Rightarrow> 'row list \<Rightarrow> 'row list" where
  "sql_update p f rows = map (\<lambda>r. if p r then f r else r) rows"

definition affected :: "('row \<Rightarrow> bool) \<Rightarrow> 'row list \<Rightarrow> int" where
  "affected p rows = int (length (filter p rows))"

lemma sql_update_id: "(\<And>r. r \<in> set rows \<Longrightarrow> \<not> p r) \<Longrightarrow> sql_update p f rows = rows"
  by (simp add: sql_update_def map_idI)

lemma map_sql_update [simp]:
  "(\<And>r. g (f r) = g r) \<Longrightarrow> map g (sql_update p f rows) = map g rows"
  by (simp add: sql_update_def)

lemma set_sql_update:
  "set (sql_update p f rows) = f ` {r \<in> set rows. p r} \<union> {r \<in> set rows. \<not> p r}"
  by (auto simp: sql_update_def)

definition upd_tasks :: "(task_row \<Rightarrow> bool) \<Rightarrow> (task_row \<Rightarrow> task_row) \<Rightarrow> database \<Rightarrow> database" where
  "upd_tasks p f db = db\<lparr>db_tasks := sql_update p f (db_tasks db)\<rparr>"

definition task_by_id :: "string \<Rightarrow> task_row \<Rightarrow> bool" where
  "task_by_id i r \<longleftrightarrow> tr_task_id r = i"

definition find_task :: "database \<Rightarrow> string \<Rightarrow> task_row option" where
  "find_task db i = List.find (task_by_id i) (db_tasks db)"

lemma find_task_Some:
  "find_task db i = Some r \<Longrightarrow> r \<in> set (db_tasks db) \<and> tr_task_id r = i"
  by (auto simp: find_task_def find_Some_iff task_by_id_def)

lemma find_map_key:
  "(\<And>r. r \<in> set rows \<Longrightarrow> p (g r) = p r) \<Longrightarrow>
   List.find p (map g rows) = map_option g (List.find p rows)"
  by (induction rows) auto

text \<open>Updating rows without touching the id: what a later lookup by id sees.\<close>

lemma find_task_upd:
  assumes "\<And>r. tr_task_id (f r) = tr_task_id r"
  shows "find_task (upd_tasks p f db) i =
           map_option (\<lambda>r. if p r then f r else r) (find_task db i)"
  unfolding find_task_def upd_tasks_def sql_update_def
  using assms by (simp add: find_map_key task_by_id_def)

section \<open>Constrained insertion\<close>

record pg_types =
  pg_uuid_ok :: "string \<Rightarrow> bool"
  pg_json_ok :: "string \<Rightarrow> bool"

definition in_smallint :: "int \<Rightarrow> bool" where
  "in_smallint n \<longleftrightarrow> - 32768 \<le> n \<and> n \<le> 32767"

definition in_integer :: "int \<Rightarrow> bool" where
  "in_integer n \<longleftrightarrow> - 2147483648 \<le> n \<and> n \<le> 2147483647"

text \<open>
  \<open>INSERT INTO job ... ON CONFLICT (idempotency_key) DO NOTHING\<close>: a row whose key is taken is
  skipped, a repeated primary key is an error.
\<close>

definition insert_job :: "job_row \<Rightarrow> database \<Rightarrow> db_err + database" where
  "insert_job j db =
     (if j_idempotency_key j \<in> j_idempotency_key ` set (db_jobs db) then Inr db
      else if j_job_id j \<in> j_job_id ` set (db_jobs db)
      then Inl (StdExn ''duplicate key value violates unique constraint job_pkey'')
      else Inr (db\<lparr>db_jobs := db_jobs db @ [j]\<rparr>))"

definition insert_task :: "pg_types \<Rightarrow> task_row \<Rightarrow> database \<Rightarrow> db_err + database" where
  "insert_task T t db =
     (if \<not> pg_uuid_ok T (tr_task_id t) \<or> \<not> pg_uuid_ok T (tr_job_id t)
      then Inl (StdExn ''invalid input syntax for type uuid'')
      else if \<not> (case tr_func_params t of None \<Rightarrow> True | Some s \<Rightarrow> pg_json_ok T s)
      then Inl (StdExn ''invalid input syntax for type json'')
      else if \<not> in_smallint (tr_priority t) \<or> \<not> in_smallint (tr_max_retry t) \<or>
              \<not> in_integer (tr_timeout_ms t) \<or> \<not> in_integer (tr_pending_dependencies t)
      then Inl (StdExn ''value out of range'')
      else if tr_task_id t \<in> tr_task_id ` set (db_tasks db)
      then Inl (StdExn ''duplicate key value violates unique constraint task_pkey'')
      else if (tr_job_id t, tr_natural_id t) \<in> (\<lambda>r. (tr_job_id r, tr_natural_id r)) ` set (db_tasks db)
      then Inl (StdExn ''duplicate key value violates unique constraint uq_job_natural_id'')
      else if tr_job_id t \<notin> j_job_id ` set (db_jobs db)
      then Inl (StdExn ''insert violates foreign key constraint fk_task_to_job'')
      else Inr (db\<lparr>db_tasks := db_tasks db @ [t]\<rparr>))"

definition insert_edge :: "edge_row \<Rightarrow> database \<Rightarrow> db_err + database" where
  "insert_edge e db =
     (if e \<in> set (db_edges db)
      then Inl (StdExn ''duplicate key value violates unique constraint task_edge_pkey'')
      else if fst e \<notin> tr_task_id ` set (db_tasks db) \<or> snd e \<notin> tr_task_id ` set (db_tasks db)
      then Inl (StdExn ''insert violates foreign key constraint fk_edge'')
      else Inr (db\<lparr>db_edges := db_edges db @ [e]\<rparr>))"

text \<open>The constraints of \<open>init.sql\<close> as an invariant of the database.\<close>

definition db_ok :: "database \<Rightarrow> bool" where
  "db_ok db \<longleftrightarrow>
     distinct (map j_job_id (db_jobs db)) \<and> distinct (map j_idempotency_key (db_jobs db)) \<and>
     distinct (map tr_task_id (db_tasks db)) \<and>
     distinct (map (\<lambda>r. (tr_job_id r, tr_natural_id r)) (db_tasks db)) \<and>
     tr_job_id ` set (db_tasks db) \<subseteq> j_job_id ` set (db_jobs db) \<and>
     distinct (db_edges db) \<and>
     (\<forall>p c. (p, c) \<in> set (db_edges db) \<longrightarrow>
        p \<in> tr_task_id ` set (db_tasks db) \<and> c \<in> tr_task_id ` set (db_tasks db))"

lemma insert_job_ok: "insert_job j db = Inr db' \<Longrightarrow> db_ok db \<Longrightarrow> db_ok db'"
  by (auto simp: insert_job_def db_ok_def image_subset_iff split: if_splits)

lemma insert_task_ok: "insert_task T t db = Inr db' \<Longrightarrow> db_ok db \<Longrightarrow> db_ok db'"
  by (auto simp: insert_task_def db_ok_def image_subset_iff split: if_splits)

lemma insert_edge_ok: "insert_edge e db = Inr db' \<Longrightarrow> db_ok db \<Longrightarrow> db_ok db'"
  by (auto simp: insert_edge_def db_ok_def image_subset_iff split: if_splits)

lemma find_key_in:
  "distinct (map key rows) \<Longrightarrow> r \<in> set rows \<Longrightarrow>
   List.find (\<lambda>x. key x = key r) rows = Some r"
proof (induction rows)
  case (Cons a rows)
  then show ?case by (cases "r = a") (auto simp: image_iff)
qed simp

lemma find_task_in:
  assumes "distinct (map tr_task_id (db_tasks db))" "r \<in> set (db_tasks db)"
  shows "find_task db (tr_task_id r) = Some r"
  using find_key_in[OF assms] by (simp add: find_task_def task_by_id_def[abs_def])

text \<open>An update of task rows that keeps the key columns keeps the constraints.\<close>

lemma upd_tasks_ok:
  assumes "\<And>r. tr_task_id (f r) = tr_task_id r" "\<And>r. tr_job_id (f r) = tr_job_id r"
    "\<And>r. tr_natural_id (f r) = tr_natural_id r" and "db_ok db"
  shows "db_ok (upd_tasks p f db)"
proof -
  have k: "map g (sql_update p f (db_tasks db)) = map g (db_tasks db)"
    if "\<And>r. g (f r) = g r" for g :: "task_row \<Rightarrow> 'b"
    by (rule map_sql_update) (rule that)
  have s: "g ` set (sql_update p f (db_tasks db)) = g ` set (db_tasks db)"
    if "\<And>r. g (f r) = g r" for g :: "task_row \<Rightarrow> string"
    by (metis map_sql_update list.set_map that)
  show ?thesis
    using assms(4) by (simp add: db_ok_def upd_tasks_def assms(1-3) s)
qed

text \<open>Type inputs that accept every text but the empty one.\<close>

definition sample_types :: pg_types where
  "sample_types = \<lparr>pg_uuid_ok = (\<lambda>s. s \<noteq> []), pg_json_ok = (\<lambda>s. s \<noteq> [])\<rparr>"

lemma sample_types_ok [simp]: "pg_uuid_ok sample_types s \<longleftrightarrow> s \<noteq> []" "pg_json_ok sample_types s \<longleftrightarrow> s \<noteq> []"
  by (simp_all add: sample_types_def)

end
