(* ===== verification/Database_Pool.thy ===== *)
theory Database_Pool
  imports Db_Tables
begin

text \<open>
  \<open>src/common/include/database_pool.h\<close>: the pool of PostgreSQL connections. A connection is
  its identity and whether it is open; what a transaction does to its connection, and what an
  attempt to reconnect yields, comes from outside (\<open>exec_env\<close>). \<open>AcquireConnection\<close>
  waits while the pool is empty: it has no step then.
\<close>

record conn =
  c_id :: nat
  c_open :: bool

type_synonym pool = "conn list"

text \<open>
  One run of \<open>ExecuteTx\<close>: the transaction's environment, whether the connection is open
  afterwards, and what a new \<open>pqxx::connection\<close> would be (\<open>None\<close>: its constructor throws).
\<close>

record exec_env =
  xe_tx :: tx_env
  xe_open_after :: bool
  xe_reconnect :: "conn option"

text \<open>The constructor: one connection per slot, kept when it is open; a throw there is fatal.\<close>

fun DatabasePool :: "conn option list \<Rightarrow> pool option" where
  "DatabasePool [] = Some []"
| "DatabasePool (None # cs) = None"
| "DatabasePool (Some c # cs) =
     map_option (\<lambda>p. if c_open c then c # p else p) (DatabasePool cs)"

definition AcquireConnection :: "pool \<Rightarrow> (conn \<times> pool) option" where
  "AcquireConnection p = (case p of [] \<Rightarrow> None | c # cs \<Rightarrow> Some (c, cs))"

definition ReleaseConnection :: "conn option \<Rightarrow> bool \<Rightarrow> conn \<Rightarrow> pool \<Rightarrow> pool" where
  "ReleaseConnection new_conn force_reconnect conn p =
     (let conn' =
        (if force_reconnect \<or> \<not> c_open conn
         then (case new_conn of
                 None \<Rightarrow> None
               | Some c \<Rightarrow> if c_open c then Some c else None)
         else Some conn)
      in case conn' of
           Some c \<Rightarrow> if c_open c then p @ [c] else p
         | None \<Rightarrow> p)"

text \<open>
  \<open>ExecuteTx\<close>. The two \<open>catch\<close> blocks release the connection without asking for a
  reconnection, and on the normal path \<open>conn_broken\<close> is still false.
\<close>

definition ExecuteTx ::
  "exec_env \<Rightarrow> ('db \<times> 'l, db_err, unit) sem \<Rightarrow> 'db \<times> 'l \<Rightarrow> pool \<Rightarrow>
   ((db_err + unit) \<times> ('db \<times> 'l) \<times> pool) option"
where
  "ExecuteTx E tx_logic s p =
     (case AcquireConnection p of
        None \<Rightarrow> None
      | Some (conn, p1) \<Rightarrow>
          (let (r, s') = run_tx (xe_tx E) tx_logic s;
               conn1 = conn\<lparr>c_open := xe_open_after E\<rparr>;
               conn_broken = False
           in case r of
                Inl (BrokenConnection e) \<Rightarrow>
                  Some (Inl (BrokenConnection e), s', ReleaseConnection (xe_reconnect E) False conn1 p1)
              | Inl (StdExn e) \<Rightarrow>
                  Some (Inl (StdExn e), s', ReleaseConnection (xe_reconnect E) False conn1 p1)
              | Inr u \<Rightarrow>
                  Some (Inr u, s', ReleaseConnection (xe_reconnect E) conn_broken conn1 p1)))"

lemma length_ReleaseConnection:
  "length (ReleaseConnection nc f c p) \<le> Suc (length p)"
  "length p \<le> length (ReleaseConnection nc f c p)"
  by (auto simp: ReleaseConnection_def Let_def split: option.splits)

lemma ReleaseConnection_open:
  "set (ReleaseConnection nc f c p) \<subseteq> set p \<union> {d. c_open d}"
  by (auto simp: ReleaseConnection_def Let_def split: option.splits if_splits)

lemma ReleaseConnection_keeps:
  "c_open c \<Longrightarrow> \<not> f \<Longrightarrow> ReleaseConnection nc f c p = p @ [c]"
  by (simp add: ReleaseConnection_def)

lemma ReleaseConnection_lost:
  "\<not> c_open c \<Longrightarrow> nc = None \<or> (\<exists>d. nc = Some d \<and> \<not> c_open d) \<Longrightarrow> ReleaseConnection nc f c p = p"
  by (auto simp: ReleaseConnection_def Let_def)

text \<open>
  \<open>ExecuteTx\<close> hands its caller exactly the outcome and the effect of one database
  transaction around the closure (rolled back on any exception, which is thrown on), and gives the
  connection back: the pool keeps its size while the connection stays open or is replaced, and
  never grows.
\<close>

theorem execute_tx_is_transaction:
  assumes "p = c # cs"
  shows "\<exists>p'. ExecuteTx E f s p = Some (fst (run_tx (xe_tx E) f s), snd (run_tx (xe_tx E) f s), p') \<and>
           length p' \<le> length p \<and>
           (xe_open_after E \<longrightarrow> p' = cs @ [c\<lparr>c_open := True\<rparr>]) \<and>
           (\<not> xe_open_after E \<longrightarrow> (\<forall>d. xe_reconnect E = Some d \<and> c_open d \<longrightarrow> p' = cs @ [d]))"
proof -
  let ?p = "ReleaseConnection (xe_reconnect E) False (c\<lparr>c_open := xe_open_after E\<rparr>) cs"
  have "ExecuteTx E f s p = Some (fst (run_tx (xe_tx E) f s), snd (run_tx (xe_tx E) f s), ?p)"
    by (simp add: ExecuteTx_def AcquireConnection_def Let_def assms split: prod.split sum.split db_err.split)
  moreover have "length ?p \<le> length p"
    using length_ReleaseConnection(1) [of "xe_reconnect E" False _ cs] by (simp add: assms)
  ultimately show ?thesis
    by (intro exI [of _ ?p]) (auto simp: ReleaseConnection_def)
qed

theorem execute_tx_is_transaction_witness:
  "\<exists>p'. ExecuteTx \<lparr>xe_tx = tx_ok 7, xe_open_after = True, xe_reconnect = None\<rparr>
          (smodify (\<lambda>(d, l). (d + 1, True))) (1 :: nat, False) [\<lparr>c_id = 0, c_open = True\<rparr>] =
        Some (Inr (), (2, True), p')"
  using execute_tx_is_transaction [OF refl, of "\<lparr>xe_tx = tx_ok 7, xe_open_after = True, xe_reconnect = None\<rparr>"
      "smodify (\<lambda>(d, l). (d + 1, True))" "(1 :: nat, False)" "\<lparr>c_id = 0, c_open = True\<rparr>" "[]"]
  by auto

section \<open>Many threads\<close>

text \<open>
  Threads take and give back connections in any order; \<open>held\<close> are the connections that
  threads are working with. A thread with no connection to take waits.
\<close>

record pool_state =
  ps_pool :: pool
  ps_held :: "conn list"

inductive pool_step :: "pool_state \<Rightarrow> pool_state \<Rightarrow> bool" where
  acquire: "AcquireConnection (ps_pool s) = Some (c, p) \<Longrightarrow>
     pool_step s \<lparr>ps_pool = p, ps_held = c # ps_held s\<rparr>"
| release: "ps_held s = xs @ c # ys \<Longrightarrow>
     pool_step s \<lparr>ps_pool = ReleaseConnection nc False (c\<lparr>c_open := b\<rparr>) (ps_pool s),
                  ps_held = xs @ ys\<rparr>"

definition pool_size :: "pool_state \<Rightarrow> nat" where
  "pool_size s = length (ps_pool s) + length (ps_held s)"

lemma pool_step_size: "pool_step s s' \<Longrightarrow> pool_size s' \<le> pool_size s"
proof (induction rule: pool_step.induct)
  case (acquire s c p)
  then show ?case by (auto simp: AcquireConnection_def pool_size_def split: list.splits)
next
  case (release s xs c ys nc b)
  then show ?case
    using length_ReleaseConnection(1) [of nc False "c\<lparr>c_open := b\<rparr>" "ps_pool s"]
    by (simp add: pool_size_def)
qed

lemma pool_step_open:
  "pool_step s s' \<Longrightarrow> \<forall>c \<in> set (ps_pool s). c_open c \<Longrightarrow> \<forall>c \<in> set (ps_pool s'). c_open c"
proof (induction rule: pool_step.induct)
  case (acquire s c p)
  then show ?case by (auto simp: AcquireConnection_def split: list.splits)
next
  case (release s xs c ys nc b)
  then show ?case
    using ReleaseConnection_open [of nc False "c\<lparr>c_open := b\<rparr>" "ps_pool s"] by auto
qed

lemma pool_steps_inv:
  "pool_step\<^sup>*\<^sup>* s s' \<Longrightarrow>
   pool_size s' \<le> pool_size s \<and>
   ((\<forall>c \<in> set (ps_pool s). c_open c) \<longrightarrow> (\<forall>c \<in> set (ps_pool s'). c_open c))"
proof (induction rule: rtranclp_induct)
  case (step y z)
  then show ?case using pool_step_size pool_step_open by (meson order_trans)
qed simp

lemma empty_pool_stuck: "pool_size s = 0 \<Longrightarrow> \<not> pool_step s s'"
  by (auto simp: pool_size_def AcquireConnection_def elim!: pool_step.cases split: list.splits)

text \<open>
  Whatever the threads do, the connections in the pool and in use together never become more
  than there were, and the ones waiting in the pool were open when they were put there. A lost
  connection is never replaced later: once the last one is gone no thread ever gets one again.
\<close>

theorem pool_never_grows:
  assumes "pool_step\<^sup>*\<^sup>* s s'"
  shows "pool_size s' \<le> pool_size s \<and>
         ((\<forall>c \<in> set (ps_pool s). c_open c) \<longrightarrow> (\<forall>c \<in> set (ps_pool s'). c_open c)) \<and>
         (pool_size s = 0 \<longrightarrow> s' = s)"
proof -
  have "s' = s" if "pool_size s = 0"
    using assms that empty_pool_stuck by (metis converse_rtranclpE)
  then show ?thesis using pool_steps_inv [OF assms] by blast
qed

text \<open>A pool of one connection that is taken, dies and cannot be replaced: nothing is left.\<close>

theorem pool_never_grows_witness:
  "\<exists>s'. pool_step\<^sup>*\<^sup>* \<lparr>ps_pool = [\<lparr>c_id = 0, c_open = True\<rparr>], ps_held = []\<rparr> s' \<and>
        pool_size s' \<le> 1 \<and> ps_pool s' = [] \<and> ps_held s' = []"
proof -
  let ?c = "\<lparr>c_id = 0, c_open = True\<rparr>"
  let ?s0 = "\<lparr>ps_pool = [?c], ps_held = []\<rparr>" and ?s1 = "\<lparr>ps_pool = [], ps_held = [?c]\<rparr>"
  let ?s2 = "\<lparr>ps_pool = [], ps_held = []\<rparr>"
  have 1: "pool_step ?s0 ?s1"
    using pool_step.acquire [of ?s0 ?c "[]"] by (simp add: AcquireConnection_def)
  have 2: "pool_step ?s1 ?s2"
    using pool_step.release [of ?s1 "[]" ?c "[]" None False] by (simp add: ReleaseConnection_lost)
  from 1 2 have *: "pool_step\<^sup>*\<^sup>* ?s0 ?s2" by (meson converse_rtranclp_into_rtranclp rtranclp.rtrancl_refl)
  from pool_never_grows [OF this] have "pool_size ?s2 \<le> pool_size ?s0" by blast
  with * show ?thesis by (intro exI [of _ ?s2]) (simp add: pool_size_def)
qed

end
