(* ===== verification/Task_Submitter.thy ===== *)
theory Task_Submitter
  imports Task_Serializer Database_Pool
begin

text \<open>
  The API server's submission path, \<open>src/api-server/src/task_submitter.cpp\<close> and
  \<open>batch_item.hpp\<close>: a request becomes a \<open>BatchItem\<close> with fresh ids, and a batch of
  items is written to PostgreSQL in one transaction and then sent to Redis as one pipeline.

  Ids come from a generator \<open>gen\<close> (the n-th id it yields). An \<open>int\<close> counter of edges is
  an \<open>int\<close> here (a request has fewer than \<open>2^31\<close> edges). A pipeline is the list of its
  commands: the server runs them in order, the reply of a single command is never looked at, and
  \<open>exec\<close> throws only when the connection is lost, which may be after any number of commands.
\<close>

section \<open>Batch items\<close>

record DagCommitContext =
  cx_job_id :: string
  cx_natural_to_uuid :: "string \<Rightarrow> string option"
  cx_entry_task_ids :: "string list"

record BatchItem =
  bi_req :: PbSubmitDagRequest
  bi_ctx :: DagCommitContext

definition new_BatchItem :: "PbSubmitDagRequest \<Rightarrow> BatchItem" where
  "new_BatchItem r =
     \<lparr>bi_req = r, bi_ctx = \<lparr>cx_job_id = '''', cx_natural_to_uuid = (\<lambda>_. None), cx_entry_task_ids = []\<rparr>\<rparr>"

definition MAX_QUEUE_SIZE :: nat where "MAX_QUEUE_SIZE = 100000"
definition MIN_BATCH_SIZE :: nat where "MIN_BATCH_SIZE = 200"

text \<open>The loop that gives each task an id, drawing from the generator.\<close>

fun map_task_ids ::
  "(nat \<Rightarrow> string) \<Rightarrow> PbTask list \<Rightarrow> (string \<Rightarrow> string option) \<Rightarrow> nat \<Rightarrow> (string \<Rightarrow> string option) \<times> nat"
where
  "map_task_ids gen [] m n = (m, n)"
| "map_task_ids gen (task # tasks) m n =
     map_task_ids gen tasks (m(p_natural_id task \<mapsto> gen n)) (Suc n)"

record SubmitState =
  ss_pending_queue :: "BatchItem list"
  ss_next_id :: nat

definition queue_full :: string where "queue_full = ''Server is busy, queue full''"

text \<open>\<open>SubmitDagAsync\<close>: the job id, or the exception; and whether a flusher is notified.\<close>

definition SubmitDagAsync ::
  "(nat \<Rightarrow> string) \<Rightarrow> PbSubmitDagRequest \<Rightarrow> SubmitState \<Rightarrow> (string + string \<times> bool) \<times> SubmitState"
where
  "SubmitDagAsync gen proto_req s =
     (let job_id = gen (ss_next_id s);
          (m, n) = map_task_ids gen (pr_tasks proto_req) (\<lambda>_. None) (Suc (ss_next_id s));
          item = (new_BatchItem proto_req)\<lparr>bi_ctx :=
                   \<lparr>cx_job_id = job_id, cx_natural_to_uuid = m, cx_entry_task_ids = []\<rparr>\<rparr>
      in if length (ss_pending_queue s) \<ge> MAX_QUEUE_SIZE
         then (Inl queue_full, s\<lparr>ss_next_id := n\<rparr>)
         else (let q = ss_pending_queue s @ [item]
               in (Inr (job_id, length q \<ge> MIN_BATCH_SIZE),
                   s\<lparr>ss_pending_queue := q, ss_next_id := n\<rparr>)))"

section \<open>The database batch\<close>

text \<open>A statement of the transaction that may fail, on the database part of the state.\<close>

definition stmt :: "(database \<Rightarrow> db_err + database) \<Rightarrow> (database, db_err, unit) sem" where
  "stmt f db = (case f db of Inl e \<Rightarrow> (Inl e, db) | Inr db' \<Rightarrow> (Inr (), db'))"

definition dep_count :: "TaskEdge list \<Rightarrow> string \<Rightarrow> int" where
  "dep_count edges =
     foldl (\<lambda>d e. d(child_natural_id e := d (child_natural_id e) + 1)) (\<lambda>_. 0) edges"

definition at_uuid :: "DagCommitContext \<Rightarrow> string \<Rightarrow> db_err + string" where
  "at_uuid ctx k =
     (case cx_natural_to_uuid ctx k of None \<Rightarrow> Inl (StdExn ''unordered_map::at'') | Some u \<Rightarrow> Inr u)"

definition job_row_of :: "BatchItem \<Rightarrow> job_row" where
  "job_row_of item =
     \<lparr>j_job_id = cx_job_id (bi_ctx item), j_idempotency_key = pr_idempotency_key (bi_req item),
      j_state = 0\<rparr>"

text \<open>COPY into the temporary table, whose id column is a \<open>uuid\<close>, and the INSERT from it.\<close>

definition flush_jobs :: "pg_types \<Rightarrow> BatchItem list \<Rightarrow> (database, db_err, unit) sem" where
  "flush_jobs T batch db =
     (if \<forall>item \<in> set batch. pg_uuid_ok T (cx_job_id (bi_ctx item))
      then sfor (\<lambda>item. stmt (insert_job (job_row_of item))) batch db
      else (Inl (StdExn ''invalid input syntax for type uuid''), db))"

definition task_row_of :: "int \<Rightarrow> DagCommitContext \<Rightarrow> PbTask \<Rightarrow> string \<Rightarrow> int \<Rightarrow> task_row" where
  "task_row_of now_ts ctx task uuid pending =
     \<lparr>tr_task_id = uuid, tr_job_id = cx_job_id ctx, tr_natural_id = p_natural_id task,
      tr_func_name = p_func_name task, tr_func_params = Some (p_func_params task),
      tr_state = (if pending = 0 then 0 else 6), tr_priority = uint (p_priority task),
      tr_retry_count = 0, tr_max_retry = uint (p_max_retry task),
      tr_timeout_ms = uint (p_timeout_ms task), tr_pending_dependencies = pending,
      tr_error_msg = None, tr_submit_ts = Some now_ts, tr_start_ts = None, tr_finish_ts = None,
      tr_result = None, tr_worker_id = None\<rparr>"

text \<open>One item's tasks: the rows written to the COPY stream and the entry tasks recorded.\<close>

fun stream_tasks ::
  "int \<Rightarrow> DagCommitContext \<Rightarrow> (string \<Rightarrow> int) \<Rightarrow> PbTask list \<Rightarrow> db_err + task_row list \<times> string list"
where
  "stream_tasks now_ts ctx deps [] = Inr ([], [])"
| "stream_tasks now_ts ctx deps (task # tasks) =
     (case at_uuid ctx (p_natural_id task) of
        Inl e \<Rightarrow> Inl e
      | Inr uuid \<Rightarrow>
          (case stream_tasks now_ts ctx deps tasks of
             Inl e \<Rightarrow> Inl e
           | Inr (rows, entries) \<Rightarrow>
               (let pending = deps (p_natural_id task)
                in Inr (task_row_of now_ts ctx task uuid pending # rows,
                        if pending = 0 then uuid # entries else entries))))"

fun stream_items :: "int \<Rightarrow> BatchItem list \<Rightarrow> db_err + task_row list \<times> BatchItem list" where
  "stream_items now_ts [] = Inr ([], [])"
| "stream_items now_ts (item # items) =
     (case stream_tasks now_ts (bi_ctx item) (dep_count (pr_edges (bi_req item))) (pr_tasks (bi_req item)) of
        Inl e \<Rightarrow> Inl e
      | Inr (rows, entries) \<Rightarrow>
          (case stream_items now_ts items of
             Inl e \<Rightarrow> Inl e
           | Inr (rows', items') \<Rightarrow>
               Inr (rows @ rows',
                    item\<lparr>bi_ctx := (bi_ctx item)\<lparr>cx_entry_task_ids :=
                      cx_entry_task_ids (bi_ctx item) @ entries\<rparr>\<rparr> # items')))"

fun stream_edges :: "DagCommitContext \<Rightarrow> TaskEdge list \<Rightarrow> db_err + edge_row list" where
  "stream_edges ctx [] = Inr []"
| "stream_edges ctx (e # es) =
     (case (at_uuid ctx (parent_natural_id e), at_uuid ctx (child_natural_id e)) of
        (Inr p, Inr c) \<Rightarrow>
          (case stream_edges ctx es of Inl x \<Rightarrow> Inl x | Inr rows \<Rightarrow> Inr ((p, c) # rows))
      | (Inl x, _) \<Rightarrow> Inl x | (_, Inl x) \<Rightarrow> Inl x)"

fun stream_all_edges :: "BatchItem list \<Rightarrow> db_err + edge_row list" where
  "stream_all_edges [] = Inr []"
| "stream_all_edges (item # items) =
     (case stream_edges (bi_ctx item) (pr_edges (bi_req item)) of
        Inl x \<Rightarrow> Inl x
      | Inr rows \<Rightarrow>
          (case stream_all_edges items of Inl x \<Rightarrow> Inl x | Inr rows' \<Rightarrow> Inr (rows @ rows')))"

text \<open>
  \<open>FlushDBBatch\<close>, the closure of the transaction. The batch is captured by reference: the
  entry tasks are recorded in it.
\<close>

definition FlushDBBatch ::
  "pg_types \<Rightarrow> int \<Rightarrow> (database \<times> BatchItem list, db_err, unit) sem" where
  "FlushDBBatch T now_ts = (\<lambda>(db, batch).
     if batch = [] then (Inr (), (db, batch))
     else case flush_jobs T batch db of
       (Inl e, db1) \<Rightarrow> (Inl e, (db1, batch))
     | (Inr _, db1) \<Rightarrow>
         (case stream_items now_ts batch of
            Inl e \<Rightarrow> (Inl e, (db1, batch))
          | Inr (rows, batch1) \<Rightarrow>
              (case sfor (\<lambda>r. stmt (insert_task T r)) rows db1 of
                 (Inl e, db2) \<Rightarrow> (Inl e, (db2, batch1))
               | (Inr _, db2) \<Rightarrow>
                   (if \<exists>item \<in> set batch1. pr_edges (bi_req item) \<noteq> []
                    then (case stream_all_edges batch1 of
                            Inl e \<Rightarrow> (Inl e, (db2, batch1))
                          | Inr erows \<Rightarrow>
                              (case sfor (\<lambda>r. stmt (insert_edge r)) erows db2 of
                                 (Inl e, db3) \<Rightarrow> (Inl e, (db3, batch1))
                               | (Inr _, db3) \<Rightarrow> (Inr (), (db3, batch1))))
                    else (Inr (), (db2, batch1))))))"

section \<open>The Redis pipeline\<close>

datatype redis_cmd =
    CSAdd string string
  | CExpire string int
  | CSet string string int
  | CHSet string string string
  | CXAdd string string fields

definition exec_cmd :: "'r redis_ops \<Rightarrow> redis_cmd \<Rightarrow> 'r \<Rightarrow> 'r" where
  "exec_cmd R c r =
     (case c of
        CSAdd k m \<Rightarrow> snd (r_sadd R k m r)
      | CExpire k ttl \<Rightarrow> snd (r_expire R k ttl r)
      | CSet k v ttl \<Rightarrow> snd (r_set R k v ttl r)
      | CHSet k f v \<Rightarrow> snd (r_hset R k f v r)
      | CXAdd k i fs \<Rightarrow> snd (r_xadd R k i fs r))"

definition pipe_exec :: "'r redis_ops \<Rightarrow> nat option \<Rightarrow> redis_cmd list \<Rightarrow> ('r, redis_err, unit) sem" where
  "pipe_exec R lost cmds r =
     (case lost of
        None \<Rightarrow> (Inr (), foldl (\<lambda>r c. exec_cmd R c r) r cmds)
      | Some n \<Rightarrow> (Inl (RedisError ''connection lost''), foldl (\<lambda>r c. exec_cmd R c r) r (take n cmds)))"

definition TTL :: int where "TTL = 24 * 3600"

definition BuildXAddFieldsFromProto :: "PbTask \<Rightarrow> string \<Rightarrow> string \<Rightarrow> fields" where
  "BuildXAddFieldsFromProto client_task task_uuid job_id = [(''id'', task_uuid), (''job'', job_id)]"

text \<open>The phase over the edges; the list holds \<open>processed_parents\<close>.\<close>

fun append_edges :: "DagCommitContext \<Rightarrow> TaskEdge list \<Rightarrow> string list \<Rightarrow> db_err + redis_cmd list" where
  "append_edges ctx [] processed_parents = Inr []"
| "append_edges ctx (e # es) processed_parents =
     (case (at_uuid ctx (parent_natural_id e), at_uuid ctx (child_natural_id e)) of
        (Inr p_uuid, Inr c_uuid) \<Rightarrow>
          (let children_key = Children p_uuid;
               seen = p_uuid \<in> set processed_parents
           in case append_edges ctx es (if seen then processed_parents else p_uuid # processed_parents) of
                Inl x \<Rightarrow> Inl x
              | Inr cmds \<Rightarrow>
                  Inr (CSAdd children_key c_uuid #
                       (if seen then [] else [CExpire children_key TTL]) @ cmds))
      | (Inl x, _) \<Rightarrow> Inl x | (_, Inl x) \<Rightarrow> Inl x)"

definition internal_task :: "DagCommitContext \<Rightarrow> PbTask \<Rightarrow> string \<Rightarrow> PbTask" where
  "internal_task ctx client_task uuid =
     default_PbTask
       \<lparr>p_task_id := uuid, p_job_id := cx_job_id ctx, p_natural_id := p_natural_id client_task,
        p_func_name := p_func_name client_task, p_func_params := p_func_params client_task,
        p_priority := p_priority client_task, p_max_retry := p_max_retry client_task,
        p_timeout_ms := p_timeout_ms client_task\<rparr>"

fun append_tasks ::
  "pb_codec \<Rightarrow> DagCommitContext \<Rightarrow> (string \<Rightarrow> int) \<Rightarrow> PbTask list \<Rightarrow> db_err + redis_cmd list" where
  "append_tasks P ctx deps [] = Inr []"
| "append_tasks P ctx deps (client_task # tasks) =
     (case at_uuid ctx (p_natural_id client_task) of
        Inl x \<Rightarrow> Inl x
      | Inr uuid \<Rightarrow>
          (case append_tasks P ctx deps tasks of
             Inl x \<Rightarrow> Inl x
           | Inr cmds \<Rightarrow>
               (let binary_payload = pb_serialize P (internal_task ctx client_task uuid);
                    pending = deps (p_natural_id client_task)
                in Inr (CSet (TaskMeta uuid) binary_payload TTL #
                        (if pending > 0
                         then CHSet (DependencyHash (cx_job_id ctx)) uuid (int_str pending)
                         else CXAdd kTasks ''*''
                                (BuildXAddFieldsFromProto client_task uuid (cx_job_id ctx))) # cmds))))"

definition AppendDagToPipeline ::
  "pb_codec \<Rightarrow> PbSubmitDagRequest \<Rightarrow> DagCommitContext \<Rightarrow> db_err + redis_cmd list" where
  "AppendDagToPipeline P proto_req ctx =
     (if cx_job_id ctx = [] then Inr []
      else case append_edges ctx (pr_edges proto_req) [] of
        Inl x \<Rightarrow> Inl x
      | Inr cmds1 \<Rightarrow>
          (case append_tasks P ctx (dep_count (pr_edges proto_req)) (pr_tasks proto_req) of
             Inl x \<Rightarrow> Inl x
           | Inr cmds2 \<Rightarrow>
               Inr (cmds1 @ cmds2 @
                    (if pr_edges proto_req \<noteq> [] then [CExpire (DependencyHash (cx_job_id ctx)) TTL]
                     else []))))"

fun append_items :: "pb_codec \<Rightarrow> BatchItem list \<Rightarrow> db_err + redis_cmd list" where
  "append_items P [] = Inr []"
| "append_items P (item # items) =
     (case AppendDagToPipeline P (bi_req item) (bi_ctx item) of
        Inl x \<Rightarrow> Inl x
      | Inr cmds \<Rightarrow> (case append_items P items of Inl x \<Rightarrow> Inl x | Inr cmds' \<Rightarrow> Inr (cmds @ cmds')))"

section \<open>One batch\<close>

text \<open>
  \<open>ProcessBatch\<close>: every exception is swallowed and logged; the \<open>bool\<close> says whether the
  batch went through (the code only logs it).
\<close>

record batch_env =
  be_tx :: tx_env
  be_lost :: "nat option"

definition ProcessBatch ::
  "pg_types \<Rightarrow> pb_codec \<Rightarrow> 'r redis_ops \<Rightarrow> batch_env \<Rightarrow> BatchItem list \<Rightarrow> database \<times> 'r \<Rightarrow> bool \<times> database \<times> 'r"
where
  "ProcessBatch T P R E batch = (\<lambda>(db, r).
     if batch = [] then (True, db, r)
     else case run_tx (be_tx E) (FlushDBBatch T (te_now (be_tx E))) (db, batch) of
       (Inl e, (db1, batch1)) \<Rightarrow> (False, db1, r)
     | (Inr _, (db1, batch1)) \<Rightarrow>
         (case append_items P batch1 of
            Inl x \<Rightarrow> (False, db1, r)
          | Inr cmds \<Rightarrow>
              (case pipe_exec R (be_lost E) cmds r of
                 (Inl e, r1) \<Rightarrow> (False, db1, r1)
               | (Inr _, r1) \<Rightarrow> (True, db1, r1))))"

end
