(* ===== verification/Submit_Batch.thy ===== *)
theory Submit_Batch
  imports Task_Submitter
begin

text \<open>
  What one batch of the API server does to the database: a batch of well-formed requests is
  stored completely, a batch that any one request spoils is not stored at all.
\<close>

section \<open>Well-formed requests, items and batches\<close>

definition task_values_ok :: "pg_types \<Rightarrow> PbTask \<Rightarrow> bool" where
  "task_values_ok T t \<longleftrightarrow> pg_json_ok T (p_func_params t) \<and> in_smallint (uint (p_priority t)) \<and>
     in_smallint (uint (p_max_retry t)) \<and> in_integer (uint (p_timeout_ms t))"

definition natural_ids :: "PbSubmitDagRequest \<Rightarrow> string list" where
  "natural_ids req = map p_natural_id (pr_tasks req)"

definition req_ok :: "pg_types \<Rightarrow> PbSubmitDagRequest \<Rightarrow> bool" where
  "req_ok T req \<longleftrightarrow>
     distinct (natural_ids req) \<and> distinct (pr_edges req) \<and>
     (\<forall>e \<in> set (pr_edges req). parent_natural_id e \<in> set (natural_ids req) \<and>
                                 child_natural_id e \<in> set (natural_ids req)) \<and>
     (\<forall>t \<in> set (pr_tasks req). task_values_ok T t) \<and>
     int (length (pr_edges req)) \<le> 2147483647"

definition uuid_of :: "BatchItem \<Rightarrow> string \<Rightarrow> string" where
  "uuid_of item k = the (cx_natural_to_uuid (bi_ctx item) k)"

definition item_ids :: "BatchItem \<Rightarrow> string list" where
  "item_ids item = map (uuid_of item) (natural_ids (bi_req item))"

definition item_ok :: "pg_types \<Rightarrow> BatchItem \<Rightarrow> bool" where
  "item_ok T item \<longleftrightarrow>
     req_ok T (bi_req item) \<and> pg_uuid_ok T (cx_job_id (bi_ctx item)) \<and>
     cx_job_id (bi_ctx item) \<noteq> [] \<and>
     (\<forall>k \<in> set (natural_ids (bi_req item)). cx_natural_to_uuid (bi_ctx item) k \<noteq> None) \<and>
     (\<forall>i \<in> set (item_ids item). pg_uuid_ok T i) \<and> distinct (item_ids item)"

text \<open>Fresh ids and keys: none is in the database, none is used twice.\<close>

definition batch_ok :: "pg_types \<Rightarrow> database \<Rightarrow> BatchItem list \<Rightarrow> bool" where
  "batch_ok T db batch \<longleftrightarrow>
     (\<forall>item \<in> set batch. item_ok T item) \<and>
     distinct (map (\<lambda>i. cx_job_id (bi_ctx i)) batch) \<and>
     distinct (map (\<lambda>i. pr_idempotency_key (bi_req i)) batch) \<and>
     distinct (concat (map item_ids batch)) \<and>
     (\<forall>item \<in> set batch.
        cx_job_id (bi_ctx item) \<notin> j_job_id ` set (db_jobs db) \<and>
        pr_idempotency_key (bi_req item) \<notin> j_idempotency_key ` set (db_jobs db) \<and>
        set (item_ids item) \<inter> tr_task_id ` set (db_tasks db) = {})"

definition item_rows :: "int \<Rightarrow> BatchItem \<Rightarrow> task_row list" where
  "item_rows now item =
     map (\<lambda>t. task_row_of now (bi_ctx item) t (uuid_of item (p_natural_id t))
                (dep_count (pr_edges (bi_req item)) (p_natural_id t)))
       (pr_tasks (bi_req item))"

definition item_edges :: "BatchItem \<Rightarrow> edge_row list" where
  "item_edges item =
     map (\<lambda>e. (uuid_of item (parent_natural_id e), uuid_of item (child_natural_id e)))
       (pr_edges (bi_req item))"

definition store_batch :: "int \<Rightarrow> BatchItem list \<Rightarrow> database \<Rightarrow> database" where
  "store_batch now batch db =
     db\<lparr>db_jobs := db_jobs db @ map job_row_of batch,
        db_tasks := db_tasks db @ concat (map (item_rows now) batch),
        db_edges := db_edges db @ concat (map item_edges batch)\<rparr>"

section \<open>In-degrees\<close>

lemma dep_count_foldl:
  "foldl (\<lambda>d e. d(child_natural_id e := d (child_natural_id e) + 1)) d edges k =
     d k + int (length (filter (\<lambda>e. child_natural_id e = k) edges))" for d :: "string \<Rightarrow> int"
  by (induction edges arbitrary: d) auto

lemma dep_count_eq: "dep_count edges k = int (length (filter (\<lambda>e. child_natural_id e = k) edges))"
  by (simp add: dep_count_def dep_count_foldl)

lemma dep_count_nonneg: "0 \<le> dep_count edges k"
  by (simp add: dep_count_eq)

lemma dep_count_0_iff: "dep_count edges k = 0 \<longleftrightarrow> (\<forall>e \<in> set edges. child_natural_id e \<noteq> k)"
  by (auto simp: dep_count_eq filter_empty_conv)

lemma dep_count_le: "dep_count edges k \<le> int (length edges)"
  by (simp add: dep_count_eq)

section \<open>The rows a batch streams\<close>

lemma at_uuid_ok:
  "item_ok T item \<Longrightarrow> k \<in> set (natural_ids (bi_req item)) \<Longrightarrow> at_uuid (bi_ctx item) k = Inr (uuid_of item k)"
  by (auto simp: item_ok_def at_uuid_def uuid_of_def split: option.split)

lemma stream_tasks_ok:
  "(\<forall>t \<in> set ts. at_uuid ctx (p_natural_id t) = Inr (f (p_natural_id t))) \<Longrightarrow>
   \<exists>entries. stream_tasks now ctx deps ts =
     Inr (map (\<lambda>t. task_row_of now ctx t (f (p_natural_id t)) (deps (p_natural_id t))) ts, entries)"
  by (induction ts) (auto simp: Let_def)

lemma stream_items_ok:
  "(\<forall>item \<in> set batch. item_ok T item) \<Longrightarrow>
   \<exists>batch1. stream_items now batch = Inr (concat (map (item_rows now) batch), batch1) \<and>
     map bi_req batch1 = map bi_req batch \<and>
     map (\<lambda>i. cx_natural_to_uuid (bi_ctx i)) batch1 = map (\<lambda>i. cx_natural_to_uuid (bi_ctx i)) batch \<and>
     map (\<lambda>i. cx_job_id (bi_ctx i)) batch1 = map (\<lambda>i. cx_job_id (bi_ctx i)) batch"
proof (induction batch)
  case (Cons item batch)
  then obtain batch1 where IH: "stream_items now batch = Inr (concat (map (item_rows now) batch), batch1)"
    "map bi_req batch1 = map bi_req batch"
    "map (\<lambda>i. cx_natural_to_uuid (bi_ctx i)) batch1 = map (\<lambda>i. cx_natural_to_uuid (bi_ctx i)) batch"
    "map (\<lambda>i. cx_job_id (bi_ctx i)) batch1 = map (\<lambda>i. cx_job_id (bi_ctx i)) batch"
    by auto
  have "\<forall>t \<in> set (pr_tasks (bi_req item)).
      at_uuid (bi_ctx item) (p_natural_id t) = Inr (uuid_of item (p_natural_id t))"
    using Cons.prems at_uuid_ok by (auto simp: natural_ids_def)
  from stream_tasks_ok [OF this, of now "dep_count (pr_edges (bi_req item))"] IH
  show ?case by (auto simp: item_rows_def [of _ item])
qed simp

lemma stream_edges_ok:
  "(\<forall>e \<in> set es. at_uuid ctx (parent_natural_id e) = Inr (f (parent_natural_id e)) \<and>
                   at_uuid ctx (child_natural_id e) = Inr (f (child_natural_id e))) \<Longrightarrow>
   stream_edges ctx es = Inr (map (\<lambda>e. (f (parent_natural_id e), f (child_natural_id e))) es)"
  by (induction es) auto

lemma stream_all_edges_ok:
  "(\<forall>item \<in> set batch. item_ok T item) \<Longrightarrow> stream_all_edges batch = Inr (concat (map item_edges batch))"
proof (induction batch)
  case (Cons item batch)
  have "\<forall>e \<in> set (pr_edges (bi_req item)).
      at_uuid (bi_ctx item) (parent_natural_id e) = Inr (uuid_of item (parent_natural_id e)) \<and>
      at_uuid (bi_ctx item) (child_natural_id e) = Inr (uuid_of item (child_natural_id e))"
    using Cons.prems at_uuid_ok by (auto simp: item_ok_def req_ok_def)
  from stream_edges_ok [OF this] Cons show ?case by (simp add: item_edges_def)
qed simp

text \<open>The recorded entry tasks do not matter to what is streamed later.\<close>

lemma stream_all_edges_cong:
  "map bi_req b1 = map bi_req b \<Longrightarrow>
   map (\<lambda>i. cx_natural_to_uuid (bi_ctx i)) b1 = map (\<lambda>i. cx_natural_to_uuid (bi_ctx i)) b \<Longrightarrow>
   stream_all_edges b1 = stream_all_edges b"
proof (induction b1 arbitrary: b)
  case (Cons i1 b1)
  then obtain i b' where b: "b = i # b'" by (cases b) auto
  have "stream_edges (bi_ctx i1) es = stream_edges (bi_ctx i) es" for es
    using Cons.prems b by (induction es) (auto simp: at_uuid_def split: option.split sum.split)
  moreover have "stream_all_edges b1 = stream_all_edges b'"
    by (rule Cons.IH) (use Cons.prems b in auto)
  ultimately show ?case using Cons.prems b by (simp split: sum.split)
qed simp

section \<open>Inserting them\<close>

lemma insert_jobs:
  "distinct (map j_job_id js) \<Longrightarrow> distinct (map j_idempotency_key js) \<Longrightarrow>
   (\<forall>j \<in> set js. j_job_id j \<notin> j_job_id ` set (db_jobs db) \<and>
                   j_idempotency_key j \<notin> j_idempotency_key ` set (db_jobs db)) \<Longrightarrow>
   sfor (\<lambda>j. stmt (insert_job j)) js db = (Inr (), db\<lparr>db_jobs := db_jobs db @ js\<rparr>)"
proof (induction js arbitrary: db)
  case (Cons j js)
  have "stmt (insert_job j) db = (Inr (), db\<lparr>db_jobs := db_jobs db @ [j]\<rparr>)"
    using Cons.prems by (simp add: stmt_def insert_job_def)
  moreover have "\<forall>x \<in> set js. j_job_id x \<noteq> j_job_id j \<and> j_idempotency_key x \<noteq> j_idempotency_key j"
    using Cons.prems by (auto simp: image_iff)
  ultimately show ?case using Cons.prems Cons.IH [of "db\<lparr>db_jobs := db_jobs db @ [j]\<rparr>"] by simp
qed simp

definition row_valid :: "pg_types \<Rightarrow> task_row \<Rightarrow> bool" where
  "row_valid T t \<longleftrightarrow> pg_uuid_ok T (tr_task_id t) \<and> pg_uuid_ok T (tr_job_id t) \<and>
     (case tr_func_params t of None \<Rightarrow> True | Some s \<Rightarrow> pg_json_ok T s) \<and>
     in_smallint (tr_priority t) \<and> in_smallint (tr_max_retry t) \<and> in_integer (tr_timeout_ms t) \<and>
     in_integer (tr_pending_dependencies t)"

lemma insert_tasks:
  "\<forall>t \<in> set ts. row_valid T t \<and> tr_job_id t \<in> j_job_id ` set (db_jobs db) \<Longrightarrow>
   distinct (map tr_task_id ts) \<Longrightarrow> distinct (map (\<lambda>r. (tr_job_id r, tr_natural_id r)) ts) \<Longrightarrow>
   \<forall>t \<in> set ts. tr_task_id t \<notin> tr_task_id ` set (db_tasks db) \<and>
     (tr_job_id t, tr_natural_id t) \<notin> (\<lambda>r. (tr_job_id r, tr_natural_id r)) ` set (db_tasks db) \<Longrightarrow>
   sfor (\<lambda>t. stmt (insert_task T t)) ts db = (Inr (), db\<lparr>db_tasks := db_tasks db @ ts\<rparr>)"
proof (induction ts arbitrary: db)
  case (Cons t ts)
  have "insert_task T t db = Inr (db\<lparr>db_tasks := db_tasks db @ [t]\<rparr>)"
    using Cons.prems(1,4) unfolding insert_task_def row_valid_def by simp
  then have "stmt (insert_task T t) db = (Inr (), db\<lparr>db_tasks := db_tasks db @ [t]\<rparr>)"
    by (simp add: stmt_def)
  moreover have "\<forall>x \<in> set ts. tr_task_id x \<noteq> tr_task_id t \<and>
      (tr_job_id x, tr_natural_id x) \<noteq> (tr_job_id t, tr_natural_id t)"
    using Cons.prems(2,3) by (force simp: image_iff)
  then have "sfor (\<lambda>t. stmt (insert_task T t)) ts (db\<lparr>db_tasks := db_tasks db @ [t]\<rparr>) =
      (Inr (), db\<lparr>db_tasks := (db_tasks db @ [t]) @ ts\<rparr>)"
    using Cons.IH [of "db\<lparr>db_tasks := db_tasks db @ [t]\<rparr>"] Cons.prems by simp
  ultimately show ?case by simp
qed simp

lemma insert_edges:
  "distinct es \<Longrightarrow> \<forall>e \<in> set es. e \<notin> set (db_edges db) \<and> fst e \<in> tr_task_id ` set (db_tasks db) \<and>
     snd e \<in> tr_task_id ` set (db_tasks db) \<Longrightarrow>
   sfor (\<lambda>e. stmt (insert_edge e)) es db = (Inr (), db\<lparr>db_edges := db_edges db @ es\<rparr>)"
proof (induction es arbitrary: db)
  case (Cons e es)
  have "stmt (insert_edge e) db = (Inr (), db\<lparr>db_edges := db_edges db @ [e]\<rparr>)"
    using Cons.prems by (simp add: stmt_def insert_edge_def)
  moreover have "sfor (\<lambda>e. stmt (insert_edge e)) es (db\<lparr>db_edges := db_edges db @ [e]\<rparr>) =
      (Inr (), db\<lparr>db_edges := (db_edges db @ [e]) @ es\<rparr>)"
    using Cons.IH [of "db\<lparr>db_edges := db_edges db @ [e]\<rparr>"] Cons.prems by auto
  ultimately show ?case by simp
qed simp

section \<open>A good batch is stored whole\<close>

lemma item_rows_ids [simp]: "map tr_task_id (item_rows now item) = item_ids item"
  by (simp add: item_rows_def item_ids_def natural_ids_def task_row_of_def)

lemma item_rows_keys:
  "map (\<lambda>r. (tr_job_id r, tr_natural_id r)) (item_rows now item) =
   map (Pair (cx_job_id (bi_ctx item))) (natural_ids (bi_req item))"
  by (simp add: item_rows_def natural_ids_def task_row_of_def)

lemma item_rows_valid:
  assumes "item_ok T item" "r \<in> set (item_rows now item)"
  shows "row_valid T r \<and> tr_job_id r = cx_job_id (bi_ctx item)"
proof -
  from assms(2) obtain t where t: "t \<in> set (pr_tasks (bi_req item))"
    and r: "r = task_row_of now (bi_ctx item) t (uuid_of item (p_natural_id t))
              (dep_count (pr_edges (bi_req item)) (p_natural_id t))"
    by (auto simp: item_rows_def)
  from t have "uuid_of item (p_natural_id t) \<in> set (item_ids item)"
    by (auto simp: item_ids_def natural_ids_def)
  moreover have "in_integer (dep_count (pr_edges (bi_req item)) (p_natural_id t))"
    using assms(1) dep_count_le [of "pr_edges (bi_req item)" "p_natural_id t"]
      dep_count_nonneg [of "pr_edges (bi_req item)" "p_natural_id t"]
    by (simp add: in_integer_def item_ok_def req_ok_def)
  ultimately show ?thesis
    using assms(1) t by (simp add: r row_valid_def task_row_of_def item_ok_def req_ok_def
        task_values_ok_def)
qed

lemma item_edges_in:
  assumes "item_ok T item" "e \<in> set (item_edges item)"
  shows "fst e \<in> set (item_ids item) \<and> snd e \<in> set (item_ids item)"
  using assms by (auto simp: item_edges_def item_ok_def req_ok_def item_ids_def)

lemma uuid_of_inj: "item_ok T item \<Longrightarrow> inj_on (uuid_of item) (set (natural_ids (bi_req item)))"
  by (simp add: item_ok_def item_ids_def distinct_map)

lemma item_edges_distinct: "item_ok T item \<Longrightarrow> distinct (item_edges item)"
proof -
  assume ok: "item_ok T item"
  have "inj_on (\<lambda>e. (uuid_of item (parent_natural_id e), uuid_of item (child_natural_id e)))
      (set (pr_edges (bi_req item)))"
  proof (rule inj_onI)
    fix e e' assume e: "e \<in> set (pr_edges (bi_req item))" "e' \<in> set (pr_edges (bi_req item))"
      and eq: "(uuid_of item (parent_natural_id e), uuid_of item (child_natural_id e)) =
               (uuid_of item (parent_natural_id e'), uuid_of item (child_natural_id e'))"
    have "parent_natural_id e = parent_natural_id e'" "child_natural_id e = child_natural_id e'"
      using eq e ok uuid_of_inj [OF ok] by (auto simp: item_ok_def req_ok_def inj_on_def)
    then show "e = e'" by (cases e; cases e') simp
  qed
  with ok show ?thesis
    unfolding item_edges_def by (intro distinct_map_inj) (auto simp: item_ok_def req_ok_def)
qed

text \<open>Lists that are distinct item by item and tagged apart by the item are distinct together.\<close>

lemma distinct_concat_tagged:
  assumes "distinct (map tag xs)" "\<And>x. x \<in> set xs \<Longrightarrow> distinct (f x)"
    and "\<And>x y. x \<in> set xs \<Longrightarrow> y \<in> set (f x) \<Longrightarrow> g y = tag x"
  shows "distinct (concat (map f xs))"
  using assms
proof (induction xs)
  case (Cons x xs)
  have "set (f x) \<inter> set (concat (map f xs)) = {}"
  proof (rule ccontr)
    assume "set (f x) \<inter> set (concat (map f xs)) \<noteq> {}"
    then obtain y x' where y: "y \<in> set (f x)" "x' \<in> set xs" "y \<in> set (f x')" by auto
    have "g y = tag x" "g y = tag x'"
      using y Cons.prems(3) [of x y] Cons.prems(3) [of x' y] by simp_all
    with y(2) Cons.prems(1) show False by (metis distinct.simps(2) image_eqI list.set_map list.simps(9))
  qed
  with Cons show ?case by simp
qed simp

lemma distinct_concat_edges:
  assumes "\<forall>item \<in> set batch. item_ok T item" "distinct (concat (map item_ids batch))"
  shows "distinct (concat (map item_edges batch))"
  using assms
proof (induction batch)
  case (Cons item batch)
  have "set (item_edges item) \<inter> set (concat (map item_edges batch)) = {}"
  proof (rule ccontr)
    assume "set (item_edges item) \<inter> set (concat (map item_edges batch)) \<noteq> {}"
    then obtain e item' where e: "e \<in> set (item_edges item)" "item' \<in> set batch"
      "e \<in> set (item_edges item')"
      by auto
    from e have "fst e \<in> set (item_ids item)" "fst e \<in> set (item_ids item')"
      using Cons.prems(1) item_edges_in [of T item e] item_edges_in [of T item' e] by simp_all
    with Cons.prems(2) e(2) show False by auto
  qed
  with Cons item_edges_distinct [of T item] show ?case by auto
qed simp

text \<open>The database after the jobs of a batch, and after its tasks.\<close>

abbreviation with_jobs :: "BatchItem list \<Rightarrow> database \<Rightarrow> database" where
  "with_jobs batch db \<equiv> db\<lparr>db_jobs := db_jobs db @ map job_row_of batch\<rparr>"

abbreviation with_tasks :: "int \<Rightarrow> BatchItem list \<Rightarrow> database \<Rightarrow> database" where
  "with_tasks now batch db \<equiv>
     (with_jobs batch db)\<lparr>db_tasks := db_tasks db @ concat (map (item_rows now) batch)\<rparr>"

lemma batch_items: "batch_ok T db batch \<Longrightarrow> item \<in> set batch \<Longrightarrow> item_ok T item"
  by (simp add: batch_ok_def)

lemma batch_ids_new:
  "batch_ok T db batch \<Longrightarrow> item \<in> set batch \<Longrightarrow> set (item_ids item) \<inter> tr_task_id ` set (db_tasks db) = {}"
  by (simp add: batch_ok_def)

lemma batch_row_ids: "map tr_task_id (concat (map (item_rows now) batch)) = concat (map item_ids batch)"
  by (simp add: map_concat comp_def)

lemma jobs_stored:
  assumes "batch_ok T db batch"
  shows "flush_jobs T batch db = (Inr (), with_jobs batch db)"
proof -
  have "sfor (\<lambda>j. stmt (insert_job j)) (map job_row_of batch) db = (Inr (), with_jobs batch db)"
    using assms by (intro insert_jobs) (auto simp: batch_ok_def job_row_of_def comp_def)
  moreover have "sfor (\<lambda>j. stmt (insert_job j)) (map job_row_of xs) db =
      sfor (\<lambda>item. stmt (insert_job (job_row_of item))) xs db" for xs and db :: database
    by (induction xs arbitrary: db) (auto simp: sbind_def split: prod.split sum.split)
  ultimately show ?thesis
    using batch_items [OF assms] by (simp add: flush_jobs_def item_ok_def)
qed

lemma batch_keys_distinct:
  assumes "batch_ok T db batch"
  shows "distinct (map (\<lambda>r. (tr_job_id r, tr_natural_id r)) (concat (map (item_rows now) batch)))"
proof -
  have "distinct (concat (map (\<lambda>i. map (\<lambda>r. (tr_job_id r, tr_natural_id r)) (item_rows now i)) batch))"
  proof (rule distinct_concat_tagged [where tag = "\<lambda>i. cx_job_id (bi_ctx i)" and g = fst])
    show "distinct (map (\<lambda>i. cx_job_id (bi_ctx i)) batch)" using assms by (simp add: batch_ok_def)
  qed (use batch_items [OF assms] in
        \<open>auto simp: item_rows_keys distinct_map item_ok_def req_ok_def intro: inj_onI\<close>)
  then show ?thesis by (simp add: map_concat comp_def)
qed

lemma batch_row_new:
  assumes "batch_ok T db batch" "db_ok db" and t: "t \<in> set (concat (map (item_rows now) batch))"
  shows "tr_task_id t \<notin> tr_task_id ` set (db_tasks db) \<and>
    (tr_job_id t, tr_natural_id t) \<notin> (\<lambda>r. (tr_job_id r, tr_natural_id r)) ` set (db_tasks db)"
proof -
  from t obtain item where item: "item \<in> set batch" "t \<in> set (item_rows now item)" by auto
  have "tr_task_id t \<in> set (item_ids item)"
    using item(2) by (metis image_eqI item_rows_ids list.set_map)
  then have 1: "tr_task_id t \<notin> tr_task_id ` set (db_tasks db)"
    using batch_ids_new [OF assms(1) item(1)] by blast
  have "tr_job_id t \<notin> j_job_id ` set (db_jobs db)"
    using item_rows_valid [OF batch_items [OF assms(1) item(1)] item(2)] item(1) assms(1)
    by (simp add: batch_ok_def)
  then have "tr_job_id t \<notin> tr_job_id ` set (db_tasks db)"
    using assms(2) by (auto simp: db_ok_def)
  with 1 show ?thesis by auto
qed

lemma tasks_stored:
  assumes "batch_ok T db batch" "db_ok db"
  shows "sfor (\<lambda>t. stmt (insert_task T t)) (concat (map (item_rows now) batch)) (with_jobs batch db) =
    (Inr (), with_tasks now batch db)"
proof -
  let ?rows = "concat (map (item_rows now) batch)" and ?db1 = "with_jobs batch db"
  have "sfor (\<lambda>t. stmt (insert_task T t)) ?rows ?db1 =
      (Inr (), ?db1\<lparr>db_tasks := db_tasks ?db1 @ ?rows\<rparr>)"
  proof (rule insert_tasks)
    show "\<forall>t \<in> set ?rows. row_valid T t \<and> tr_job_id t \<in> j_job_id ` set (db_jobs ?db1)"
      using batch_items [OF assms(1)] item_rows_valid [of T _ _ now] by (force simp: job_row_of_def)
    show "distinct (map tr_task_id ?rows)"
      using assms(1) by (simp only: batch_row_ids) (simp add: batch_ok_def)
    show "distinct (map (\<lambda>r. (tr_job_id r, tr_natural_id r)) ?rows)"
      using assms(1) by (rule batch_keys_distinct)
    show "\<forall>t \<in> set ?rows. tr_task_id t \<notin> tr_task_id ` set (db_tasks ?db1) \<and>
      (tr_job_id t, tr_natural_id t) \<notin> (\<lambda>r. (tr_job_id r, tr_natural_id r)) ` set (db_tasks ?db1)"
      using batch_row_new [OF assms, of _ now] by auto
  qed
  then show ?thesis by simp
qed

lemma edges_stored:
  assumes "batch_ok T db batch" "db_ok db"
  shows "sfor (\<lambda>e. stmt (insert_edge e)) (concat (map item_edges batch)) (with_tasks now batch db) =
    (Inr (), store_batch now batch db)"
proof -
  let ?es = "concat (map item_edges batch)" and ?db2 = "with_tasks now batch db"
  have new: "tr_task_id ` set (db_tasks ?db2) = tr_task_id ` set (db_tasks db) \<union> set (concat (map item_ids batch))"
    using arg_cong [OF batch_row_ids, of set now batch] by (simp add: image_Un)
  have "e \<notin> set (db_edges ?db2) \<and> fst e \<in> tr_task_id ` set (db_tasks ?db2) \<and>
      snd e \<in> tr_task_id ` set (db_tasks ?db2)" if "e \<in> set ?es" for e
  proof -
    from that obtain item where item: "item \<in> set batch" "e \<in> set (item_edges item)" by auto
    have in_ids: "fst e \<in> set (item_ids item)" "snd e \<in> set (item_ids item)"
      using item_edges_in [OF batch_items [OF assms(1) item(1)] item(2)] by auto
    then have "fst e \<notin> tr_task_id ` set (db_tasks db)"
      using batch_ids_new [OF assms(1) item(1)] by blast
    then have "e \<notin> set (db_edges db)"
      using assms(2) by (cases e) (auto simp: db_ok_def)
    with in_ids item(1) show ?thesis unfolding new by auto
  qed
  moreover have "distinct ?es"
    using distinct_concat_edges [of batch T] batch_items [OF assms(1)] assms(1) by (simp add: batch_ok_def)
  ultimately have "sfor (\<lambda>e. stmt (insert_edge e)) ?es ?db2 = (Inr (), ?db2\<lparr>db_edges := db_edges ?db2 @ ?es\<rparr>)"
    by (intro insert_edges) blast+
  then show ?thesis by (simp add: store_batch_def)
qed

lemma store_without_edges:
  assumes "map bi_req batch1 = map bi_req batch" "\<not> (\<exists>item \<in> set batch1. pr_edges (bi_req item) \<noteq> [])"
  shows "store_batch now batch db = with_tasks now batch db"
proof -
  have "\<forall>q \<in> set (map bi_req batch1). pr_edges q = []" using assms(2) by auto
  then have "\<forall>q \<in> set (map bi_req batch). pr_edges q = []" by (simp only: assms(1))
  then have "concat (map item_edges batch) = []" by (simp add: item_edges_def)
  then show ?thesis by (simp add: store_batch_def)
qed

lemma flush_store:
  assumes "batch_ok T db batch" "db_ok db"
  shows "\<exists>batch1. FlushDBBatch T now (db, batch) = (Inr (), (store_batch now batch db, batch1)) \<and>
     map bi_req batch1 = map bi_req batch \<and>
     map (\<lambda>i. cx_natural_to_uuid (bi_ctx i)) batch1 = map (\<lambda>i. cx_natural_to_uuid (bi_ctx i)) batch \<and>
     map (\<lambda>i. cx_job_id (bi_ctx i)) batch1 = map (\<lambda>i. cx_job_id (bi_ctx i)) batch"
proof -
  have items: "\<forall>item \<in> set batch. item_ok T item" using assms(1) by (simp add: batch_ok_def)
  obtain batch1 where b1: "stream_items now batch = Inr (concat (map (item_rows now) batch), batch1)"
    "map bi_req batch1 = map bi_req batch"
    "map (\<lambda>i. cx_natural_to_uuid (bi_ctx i)) batch1 = map (\<lambda>i. cx_natural_to_uuid (bi_ctx i)) batch"
    "map (\<lambda>i. cx_job_id (bi_ctx i)) batch1 = map (\<lambda>i. cx_job_id (bi_ctx i)) batch"
    using stream_items_ok [OF items, of now] by blast
  have cong: "stream_all_edges batch1 = Inr (concat (map item_edges batch))"
    using stream_all_edges_cong [OF b1(2,3)] stream_all_edges_ok [OF items] by simp
  show ?thesis
  proof (cases "batch = []")
    case True
    then show ?thesis by (simp add: FlushDBBatch_def store_batch_def)
  next
    case False
    with jobs_stored [OF assms(1)] b1 tasks_stored [OF assms] edges_stored [OF assms] cong
      store_without_edges [OF b1(2)]
    show ?thesis by (intro exI [of _ batch1]) (simp add: FlushDBBatch_def)
  qed
qed

section \<open>Properties of a batch\<close>

lemma ProcessBatch_db:
  "batch \<noteq> [] \<Longrightarrow> fst (snd (ProcessBatch T P R E batch (db, r))) =
     fst (snd (run_tx (be_tx E) (FlushDBBatch T (te_now (be_tx E))) (db, batch)))"
  by (auto simp: ProcessBatch_def split: prod.split sum.split)

text \<open>Requests and ids for the witnesses: two tasks, the second after the first.\<close>

definition sample_pb_task :: "string \<Rightarrow> PbTask" where
  "sample_pb_task k = default_PbTask\<lparr>p_natural_id := k, p_func_name := ''echo'', p_func_params := ''{}''\<rparr>"

definition sample_req :: "string \<Rightarrow> PbSubmitDagRequest" where
  "sample_req key =
     \<lparr>pr_idempotency_key = key, pr_tasks = [sample_pb_task ''x'', sample_pb_task ''y''],
      pr_edges = [\<lparr>parent_natural_id = ''x'', child_natural_id = ''y''\<rparr>], pr_client_id = ''c''\<rparr>"

definition sample_gen :: "nat \<Rightarrow> string" where
  "sample_gen n = replicate (n + 2) CHR ''u''"

lemma sample_gen_inj: "inj sample_gen"
  by (rule injI) (metis add_right_cancel length_replicate sample_gen_def)

definition empty_db :: database where
  "empty_db = \<lparr>db_jobs = [], db_tasks = [], db_edges = []\<rparr>"

lemma empty_db_ok [simp]: "db_ok empty_db"
  by (simp add: db_ok_def empty_db_def)



lemma dep_state: "tr_state (task_row_of now ctx t u n) = ST_PENDING \<longleftrightarrow> n = 0"
  by (simp add: task_row_of_def st_defs)

text \<open>
  A batch of well-formed requests with fresh ids and keys is stored completely: every job,
  every task and every edge, and nothing else. A task is PENDING when no edge leads to it and
  WAITING otherwise, and its dependency count is its number of parents. A failure of Redis after
  the commit does not take that back.
\<close>

theorem good_batch_stored:
  assumes "batch_ok T db batch" "db_ok db" "be_tx E = tx_ok now"
  shows "fst (snd (ProcessBatch T P R E batch (db, r))) = store_batch now batch db \<and>
    (\<forall>item \<in> set batch. \<forall>t \<in> set (pr_tasks (bi_req item)). \<exists>row \<in> set (db_tasks (store_batch now batch db)).
       tr_task_id row = uuid_of item (p_natural_id t) \<and> tr_job_id row = cx_job_id (bi_ctx item) \<and>
       tr_pending_dependencies row =
         int (card {e \<in> set (pr_edges (bi_req item)). child_natural_id e = p_natural_id t}) \<and>
       tr_state row = (if \<exists>e \<in> set (pr_edges (bi_req item)). child_natural_id e = p_natural_id t
                       then ST_WAITING else ST_PENDING))"
proof
  show "fst (snd (ProcessBatch T P R E batch (db, r))) = store_batch now batch db"
  proof (cases "batch = []")
    case True
    then show ?thesis by (simp add: ProcessBatch_def store_batch_def)
  next
    case False
    with flush_store [OF assms(1,2), of now] show ?thesis
      by (auto simp: ProcessBatch_db assms(3) tx_ok_def run_tx_def)
  qed
  show "\<forall>item \<in> set batch. \<forall>t \<in> set (pr_tasks (bi_req item)). \<exists>row \<in> set (db_tasks (store_batch now batch db)).
       tr_task_id row = uuid_of item (p_natural_id t) \<and> tr_job_id row = cx_job_id (bi_ctx item) \<and>
       tr_pending_dependencies row =
         int (card {e \<in> set (pr_edges (bi_req item)). child_natural_id e = p_natural_id t}) \<and>
       tr_state row = (if \<exists>e \<in> set (pr_edges (bi_req item)). child_natural_id e = p_natural_id t
                       then ST_WAITING else ST_PENDING)"
  proof (intro ballI)
    fix item t assume it: "item \<in> set batch" "t \<in> set (pr_tasks (bi_req item))"
    let ?es = "pr_edges (bi_req item)" and ?k = "p_natural_id t"
    let ?row = "task_row_of now (bi_ctx item) t (uuid_of item ?k) (dep_count ?es ?k)"
    have "distinct ?es"
      using assms(1) it(1) by (simp add: batch_ok_def item_ok_def req_ok_def)
    then have "dep_count ?es ?k = int (card {e \<in> set ?es. child_natural_id e = ?k})"
      by (simp add: dep_count_eq distinct_card [symmetric] flip: set_filter)
    moreover have "?row \<in> set (db_tasks (store_batch now batch db))"
      using it by (auto simp: store_batch_def item_rows_def)
    ultimately show "\<exists>row \<in> set (db_tasks (store_batch now batch db)).
       tr_task_id row = uuid_of item ?k \<and> tr_job_id row = cx_job_id (bi_ctx item) \<and>
       tr_pending_dependencies row = int (card {e \<in> set ?es. child_natural_id e = ?k}) \<and>
       tr_state row = (if \<exists>e \<in> set ?es. child_natural_id e = ?k then ST_WAITING else ST_PENDING)"
      by (intro bexI [of _ ?row]) (auto simp: task_row_of_def st_defs dep_count_0_iff)
  qed
qed

section \<open>From accepted requests to stored rows\<close>

fun submit_all ::
  "(nat \<Rightarrow> string) \<Rightarrow> PbSubmitDagRequest list \<Rightarrow> SubmitState \<Rightarrow> (string + string \<times> bool) list \<times> SubmitState"
where
  "submit_all gen [] s = ([], s)"
| "submit_all gen (q # qs) s =
     (let (x, s1) = SubmitDagAsync gen q s; (xs, s2) = submit_all gen qs s1 in (x # xs, s2))"

lemma map_task_ids_next: "snd (map_task_ids gen ts m n) = n + length ts"
  by (induction ts arbitrary: m n) auto

lemma map_task_ids_other: "k \<notin> p_natural_id ` set ts \<Longrightarrow> fst (map_task_ids gen ts m n) k = m k"
  by (induction ts arbitrary: m n) auto

lemma map_task_ids_ids:
  "distinct (map p_natural_id ts) \<Longrightarrow>
   map (\<lambda>t. fst (map_task_ids gen ts m n) (p_natural_id t)) ts = map (Some \<circ> gen) [n..<n + length ts]"
proof (induction ts arbitrary: m n)
  case (Cons t ts)
  then have "fst (map_task_ids gen ts (m(p_natural_id t \<mapsto> gen n)) (Suc n)) (p_natural_id t) = Some (gen n)"
    by (simp add: map_task_ids_other)
  moreover have "[n..<n + length (t # ts)] = n # [Suc n..<Suc n + length ts]"
    by (subst upt_rec) simp
  ultimately show ?case using Cons by simp
qed simp

text \<open>The item a request becomes when the generator stands at \<open>n\<close>.\<close>

definition mk_item :: "(nat \<Rightarrow> string) \<Rightarrow> nat \<Rightarrow> PbSubmitDagRequest \<Rightarrow> BatchItem" where
  "mk_item gen n q =
     \<lparr>bi_req = q, bi_ctx = \<lparr>cx_job_id = gen n,
        cx_natural_to_uuid = fst (map_task_ids gen (pr_tasks q) (\<lambda>_. None) (Suc n)),
        cx_entry_task_ids = []\<rparr>\<rparr>"

definition ids_used :: "PbSubmitDagRequest \<Rightarrow> nat" where
  "ids_used q = Suc (length (pr_tasks q))"

fun mk_items :: "(nat \<Rightarrow> string) \<Rightarrow> nat \<Rightarrow> PbSubmitDagRequest list \<Rightarrow> BatchItem list" where
  "mk_items gen n [] = []"
| "mk_items gen n (q # qs) = mk_item gen n q # mk_items gen (n + ids_used q) qs"

lemma SubmitDagAsync_eq:
  "SubmitDagAsync gen q s =
     (if length (ss_pending_queue s) \<ge> MAX_QUEUE_SIZE
      then (Inl queue_full, s\<lparr>ss_next_id := ss_next_id s + ids_used q\<rparr>)
      else (Inr (gen (ss_next_id s), Suc (length (ss_pending_queue s)) \<ge> MIN_BATCH_SIZE),
            s\<lparr>ss_pending_queue := ss_pending_queue s @ [mk_item gen (ss_next_id s) q],
              ss_next_id := ss_next_id s + ids_used q\<rparr>))"
  using map_task_ids_next [of gen "pr_tasks q" "\<lambda>_. None" "Suc (ss_next_id s)"]
  by (simp add: SubmitDagAsync_def Let_def split_beta mk_item_def new_BatchItem_def ids_used_def)

lemma submit_all_eq:
  "length (ss_pending_queue s) + length qs \<le> MAX_QUEUE_SIZE \<Longrightarrow>
   ss_pending_queue (snd (submit_all gen qs s)) = ss_pending_queue s @ mk_items gen (ss_next_id s) qs \<and>
   list_all2 (\<lambda>x item. \<exists>b. x = Inr (cx_job_id (bi_ctx item), b))
     (fst (submit_all gen qs s)) (mk_items gen (ss_next_id s) qs)"
proof (induction qs arbitrary: s)
  case (Cons q qs)
  let ?s = "s\<lparr>ss_pending_queue := ss_pending_queue s @ [mk_item gen (ss_next_id s) q],
              ss_next_id := ss_next_id s + ids_used q\<rparr>"
  have "length (ss_pending_queue ?s) + length qs \<le> MAX_QUEUE_SIZE" using Cons.prems by simp
  from Cons.IH [OF this] Cons.prems show ?case
    by (simp add: SubmitDagAsync_eq Let_def split_beta mk_item_def)
qed simp

lemma item_ids_mk_item:
  assumes "distinct (natural_ids q)"
  shows "item_ids (mk_item gen n q) = map gen [Suc n..<n + ids_used q]"
proof -
  have "map (\<lambda>t. fst (map_task_ids gen (pr_tasks q) (\<lambda>_. None) (Suc n)) (p_natural_id t)) (pr_tasks q) =
        map (Some \<circ> gen) [Suc n..<n + ids_used q]"
    using map_task_ids_ids [of "pr_tasks q" gen "\<lambda>_. None" "Suc n"] assms
    by (simp add: natural_ids_def ids_used_def)
  from arg_cong [OF this, of "map the"] show ?thesis
    by (simp add: item_ids_def natural_ids_def uuid_of_def mk_item_def comp_def)
qed

lemma mk_item_known:
  "k \<in> set (natural_ids q) \<Longrightarrow> cx_natural_to_uuid (bi_ctx (mk_item gen n q)) k \<noteq> None"
proof -
  have "k \<in> p_natural_id ` set ts \<Longrightarrow> fst (map_task_ids gen ts m n) k \<noteq> None" for ts m n
  proof (induction ts arbitrary: m n)
    case (Cons t ts)
    then show ?case
      by (cases "k \<in> p_natural_id ` set ts") (auto simp: map_task_ids_other)
  qed simp
  then show "k \<in> set (natural_ids q) \<Longrightarrow> cx_natural_to_uuid (bi_ctx (mk_item gen n q)) k \<noteq> None"
    by (simp add: mk_item_def natural_ids_def)
qed

lemma mk_items_ids:
  assumes "\<forall>q \<in> set qs. distinct (natural_ids q)"
  shows "\<exists>m \<ge> n. set (concat (map item_ids (mk_items gen n qs))) \<union>
      (\<lambda>i. cx_job_id (bi_ctx i)) ` set (mk_items gen n qs) \<subseteq> gen ` {n..<m} \<and>
      (inj gen \<longrightarrow> distinct (concat (map item_ids (mk_items gen n qs))) \<and>
         distinct (map (\<lambda>i. cx_job_id (bi_ctx i)) (mk_items gen n qs)))"
  using assms
proof (induction qs arbitrary: n)
  case (Cons q qs)
  let ?n = "n + ids_used q"
  have "\<exists>m \<ge> ?n. set (concat (map item_ids (mk_items gen ?n qs))) \<union>
      (\<lambda>i. cx_job_id (bi_ctx i)) ` set (mk_items gen ?n qs) \<subseteq> gen ` {?n..<m} \<and>
      (inj gen \<longrightarrow> distinct (concat (map item_ids (mk_items gen ?n qs))) \<and>
         distinct (map (\<lambda>i. cx_job_id (bi_ctx i)) (mk_items gen ?n qs)))"
    by (rule Cons.IH) (use Cons.prems in simp)
  then obtain m where m: "m \<ge> ?n" "set (concat (map item_ids (mk_items gen ?n qs))) \<union>
      (\<lambda>i. cx_job_id (bi_ctx i)) ` set (mk_items gen ?n qs) \<subseteq> gen ` {?n..<m}"
      "inj gen \<longrightarrow> distinct (concat (map item_ids (mk_items gen ?n qs))) \<and>
         distinct (map (\<lambda>i. cx_job_id (bi_ctx i)) (mk_items gen ?n qs))"
    by blast
  have ids: "item_ids (mk_item gen n q) = map gen [Suc n..<?n]"
    using Cons.prems by (simp add: item_ids_mk_item)
  have job: "cx_job_id (bi_ctx (mk_item gen n q)) = gen n" by (simp add: mk_item_def)
  have lt: "n < ?n" by (simp add: ids_used_def)
  have sub: "gen ` {?n..<m} \<subseteq> gen ` {n..<m}" using lt by auto
  have low: "gen ` {Suc n..<?n} \<subseteq> gen ` {n..<m}" using m(1) by auto
  show ?case
  proof (intro exI [of _ m] conjI impI)
    show "n \<le> m" using m(1) lt by simp
    show "set (concat (map item_ids (mk_items gen n (q # qs)))) \<union>
      (\<lambda>i. cx_job_id (bi_ctx i)) ` set (mk_items gen n (q # qs)) \<subseteq> gen ` {n..<m}"
      using m(1,2) sub low lt by (auto simp: ids job)
    assume inj: "inj gen"
    have "gen ` {Suc n..<?n} \<inter> gen ` {?n..<m} = {}"
      by (simp flip: image_Int [OF inj])
    with m(2) have d: "gen ` {Suc n..<?n} \<inter> set (concat (map item_ids (mk_items gen ?n qs))) = {}"
      by blast
    have "gen n \<notin> gen ` {?n..<m}"
      using lt by (simp add: inj_image_mem_iff [OF inj])
    with m(2) have j: "gen n \<notin> (\<lambda>i. cx_job_id (bi_ctx i)) ` set (mk_items gen ?n qs)"
      by blast
    have i: "distinct (map gen [Suc n..<?n])"
      using inj by (simp add: distinct_map inj_on_def)
    show "distinct (concat (map item_ids (mk_items gen n (q # qs))))"
      using d i m(3) inj by (simp add: ids del: set_concat)
    show "distinct (map (\<lambda>i. cx_job_id (bi_ctx i)) (mk_items gen n (q # qs)))"
      using j m(3) inj by (simp add: job)
  qed
qed auto


lemma mk_item_ok:
  assumes "req_ok T q" "inj gen" "\<And>n. pg_uuid_ok T (gen n)" "\<And>n. gen n \<noteq> []"
  shows "item_ok T (mk_item gen n q)"
proof -
  have d: "distinct (natural_ids q)" using assms(1) by (simp add: req_ok_def)
  have "distinct (item_ids (mk_item gen n q))" "\<forall>i \<in> set (item_ids (mk_item gen n q)). pg_uuid_ok T i"
    using assms(2,3) by (auto simp: item_ids_mk_item [OF d] distinct_map inj_on_def inj_def)
  then show ?thesis
    using assms(1,3,4) mk_item_known [of _ q gen n] by (simp add: item_ok_def) (simp add: mk_item_def)
qed

lemma mk_items_reqs: "map bi_req (mk_items gen n qs) = qs"
  by (induction qs arbitrary: n) (auto simp: mk_item_def)

lemma mk_items_ok:
  "(\<And>q n. q \<in> set qs \<Longrightarrow> item_ok T (mk_item gen n q)) \<Longrightarrow> \<forall>item \<in> set (mk_items gen n qs). item_ok T item"
  by (induction qs arbitrary: n) auto

lemma mk_items_batch_ok:
  assumes "\<forall>q \<in> set qs. req_ok T q" "inj gen" "\<And>n. pg_uuid_ok T (gen n)" "\<And>n. gen n \<noteq> []"
    and "distinct (map pr_idempotency_key qs)"
    and "pr_idempotency_key ` set qs \<inter> j_idempotency_key ` set (db_jobs db) = {}"
    and "range gen \<inter> (j_job_id ` set (db_jobs db) \<union> tr_task_id ` set (db_tasks db)) = {}"
  shows "batch_ok T db (mk_items gen n qs)"
proof -
  have "\<forall>q \<in> set qs. distinct (natural_ids q)" using assms(1) by (simp add: req_ok_def)
  then obtain m where m: "set (concat (map item_ids (mk_items gen n qs))) \<union>
      (\<lambda>i. cx_job_id (bi_ctx i)) ` set (mk_items gen n qs) \<subseteq> gen ` {n..<m}"
      "distinct (concat (map item_ids (mk_items gen n qs)))"
      "distinct (map (\<lambda>i. cx_job_id (bi_ctx i)) (mk_items gen n qs))"
    using mk_items_ids [of qs n gen] assms(2) by blast
  have ok: "\<forall>item \<in> set (mk_items gen n qs). item_ok T item"
    using assms(1-4) by (intro mk_items_ok mk_item_ok) auto
  have keys: "map (\<lambda>i. pr_idempotency_key (bi_req i)) (mk_items gen n qs) = map pr_idempotency_key qs"
    using arg_cong [OF mk_items_reqs [of gen n qs], of "map pr_idempotency_key"] by (simp add: comp_def)
  have key: "pr_idempotency_key (bi_req i) \<in> pr_idempotency_key ` set qs" if "i \<in> set (mk_items gen n qs)" for i
    using that mk_items_reqs [of gen n qs] by (metis image_eqI list.set_map)
  have fresh: "i \<notin> j_job_id ` set (db_jobs db) \<and> i \<notin> tr_task_id ` set (db_tasks db)"
    if "i \<in> gen ` {n..<m}" for i
    using that assms(7) by blast
  have "cx_job_id (bi_ctx item) \<in> gen ` {n..<m} \<and> set (item_ids item) \<subseteq> gen ` {n..<m}"
    if "item \<in> set (mk_items gen n qs)" for item
    using that m(1) by auto
  then have "cx_job_id (bi_ctx item) \<notin> j_job_id ` set (db_jobs db) \<and>
        pr_idempotency_key (bi_req item) \<notin> j_idempotency_key ` set (db_jobs db) \<and>
        set (item_ids item) \<inter> tr_task_id ` set (db_tasks db) = {}"
    if "item \<in> set (mk_items gen n qs)" for item
    using that key [OF that] fresh assms(6) by blast
  with ok m(2,3) keys assms(5) show ?thesis
    unfolding batch_ok_def by simp
qed

lemma item_row_in:
  "item \<in> set batch \<Longrightarrow> t \<in> set (pr_tasks (bi_req item)) \<Longrightarrow>
   task_row_of now (bi_ctx item) t (uuid_of item (p_natural_id t))
     (dep_count (pr_edges (bi_req item)) (p_natural_id t)) \<in> set (db_tasks (store_batch now batch db))"
  by (auto simp: store_batch_def item_rows_def)

lemma ProcessBatch_stores:
  assumes "batch_ok T db batch" "db_ok db" "be_tx E = tx_ok now"
    and "ProcessBatch T P R E batch (db, r) = (ok, db', r')"
  shows "db' = store_batch now batch db"
proof (cases "batch = []")
  case True
  then show ?thesis using assms(4) by (simp add: ProcessBatch_def store_batch_def)
next
  case False
  have "fst (snd (ProcessBatch T P R E batch (db, r))) = store_batch now batch db"
    using flush_store [OF assms(1,2), of now] False
    by (auto simp: ProcessBatch_db assms(3) tx_ok_def run_tx_def)
  then show ?thesis using assms(4) by simp
qed

lemma item_stored:
  assumes item: "item \<in> set batch" and db': "db' = store_batch now batch db"
  shows "cx_job_id (bi_ctx item) \<in> j_job_id ` set (db_jobs db') \<and>
    (\<forall>t \<in> set (pr_tasks (bi_req item)). \<exists>row \<in> set (db_tasks db').
       tr_job_id row = cx_job_id (bi_ctx item) \<and> tr_natural_id row = p_natural_id t)"
proof (intro conjI ballI bexI)
  show "cx_job_id (bi_ctx item) \<in> j_job_id ` set (db_jobs db')"
    using item by (force simp: db' store_batch_def job_row_of_def)
  fix t assume "t \<in> set (pr_tasks (bi_req item))"
  from item_row_in [OF item this, of now db]
  show "task_row_of now (bi_ctx item) t (uuid_of item (p_natural_id t))
      (dep_count (pr_edges (bi_req item)) (p_natural_id t)) \<in> set (db_tasks db')"
    by (simp only: db')
qed (simp_all add: task_row_of_def)

text \<open>
  C5. An accepted request reaches the database. Requests that are well formed (distinct task names,
  edges between them without repetition, values that fit their columns), with distinct new
  idempotency keys, are all accepted while the queue has room; after the next batch the job id
  each client was given is in the database with the request's tasks. Ids only have to be distinct,
  new, and uuids.
\<close>

theorem accepted_requests_are_stored:
  assumes "\<forall>q \<in> set qs. req_ok T q" "inj gen" "\<And>n. pg_uuid_ok T (gen n)" "\<And>n. gen n \<noteq> []"
    and "distinct (map pr_idempotency_key qs)"
    and "pr_idempotency_key ` set qs \<inter> j_idempotency_key ` set (db_jobs db) = {}"
    and "range gen \<inter> (j_job_id ` set (db_jobs db) \<union> tr_task_id ` set (db_tasks db)) = {}"
    and "ss_pending_queue s = []" "length qs \<le> MAX_QUEUE_SIZE" "db_ok db" "be_tx E = tx_ok now"
    and "submit_all gen qs s = (answers, s')"
    and "ProcessBatch T P R E (ss_pending_queue s') (db, r) = (ok, db', r')"
  shows "length answers = length qs \<and>
    (\<forall>i < length qs. \<exists>job_id b. answers ! i = Inr (job_id, b) \<and> job_id \<in> j_job_id ` set (db_jobs db') \<and>
       (\<forall>t \<in> set (pr_tasks (qs ! i)). \<exists>row \<in> set (db_tasks db').
          tr_job_id row = job_id \<and> tr_natural_id row = p_natural_id t))"
proof -
  let ?items = "mk_items gen (ss_next_id s) qs"
  have q: "ss_pending_queue s' = ?items"
    and a: "list_all2 (\<lambda>x item. \<exists>b. x = Inr (cx_job_id (bi_ctx item), b)) answers ?items"
    using submit_all_eq [of s qs gen] assms(8,9,12) by simp_all
  have ok: "batch_ok T db ?items" by (rule mk_items_batch_ok) (use assms in auto)
  have db': "db' = store_batch now ?items db"
    using ProcessBatch_stores [OF ok assms(10,11)] assms(13) q by simp
  have len: "length ?items = length qs"
    using arg_cong [OF mk_items_reqs [of gen "ss_next_id s" qs], of length] by simp
  have one: "\<exists>job_id b. answers ! i = Inr (job_id, b) \<and> job_id \<in> j_job_id ` set (db_jobs db') \<and>
       (\<forall>t \<in> set (pr_tasks (qs ! i)). \<exists>row \<in> set (db_tasks db').
          tr_job_id row = job_id \<and> tr_natural_id row = p_natural_id t)" if i: "i < length qs" for i
  proof -
    have item: "?items ! i \<in> set ?items" using i len by simp
    obtain b where b: "answers ! i = Inr (cx_job_id (bi_ctx (?items ! i)), b)"
      using list_all2_nthD2 [OF a, of i] i len by auto
    have "bi_req (?items ! i) = qs ! i"
      using mk_items_reqs [of gen "ss_next_id s" qs] i len by (metis nth_map)
    with b item_stored [OF item db'] show ?thesis by auto
  qed
  have "length answers = length qs" using list_all2_lengthD [OF a] len by simp
  with one show ?thesis by blast
qed

lemma sample_req_key [simp]: "pr_idempotency_key (sample_req k) = k"
  by (simp add: sample_req_def)

lemma sample_req_ok [simp]: "req_ok sample_types (sample_req k)"
  by (simp add: req_ok_def sample_req_def natural_ids_def sample_pb_task_def task_values_ok_def
      default_PbTask_def in_smallint_def in_integer_def)

definition sample_codec :: pb_codec where
  "sample_codec = \<lparr>pb_serialize = p_task_id, pb_parse = (\<lambda>s. Some (default_PbTask\<lparr>p_task_id := s\<rparr>))\<rparr>"

theorem accepted_requests_are_stored_witness:
  "\<exists>job_id. job_id \<in> j_job_id ` set (db_jobs (fst (snd (ProcessBatch sample_types sample_codec ref_ops
       \<lparr>be_tx = tx_ok 5, be_lost = None\<rparr>
       (ss_pending_queue (snd (submit_all sample_gen [sample_req ''k1'', sample_req ''k2'']
          \<lparr>ss_pending_queue = [], ss_next_id = 0\<rparr>))) (empty_db, ms_empty)))))"
proof -
  let ?s = "\<lparr>ss_pending_queue = [], ss_next_id = 0\<rparr>" and ?qs = "[sample_req ''k1'', sample_req ''k2'']"
  let ?E = "\<lparr>be_tx = tx_ok 5, be_lost = None\<rparr>"
  obtain answers s' where s: "submit_all sample_gen ?qs ?s = (answers, s')" by (meson surj_pair)
  obtain ok db' r' where p:
    "ProcessBatch sample_types sample_codec ref_ops ?E (ss_pending_queue s') (empty_db, ms_empty) = (ok, db', r')"
    by (meson prod_cases3)
  have "length answers = length ?qs \<and>
    (\<forall>i < length ?qs. \<exists>job_id b. answers ! i = Inr (job_id, b) \<and> job_id \<in> j_job_id ` set (db_jobs db') \<and>
       (\<forall>t \<in> set (pr_tasks (?qs ! i)). \<exists>row \<in> set (db_tasks db').
          tr_job_id row = job_id \<and> tr_natural_id row = p_natural_id t))"
    by (rule accepted_requests_are_stored [OF _ sample_gen_inj _ _ _ _ _ _ _ empty_db_ok _ s p])
      (simp_all add: sample_gen_def empty_db_def MAX_QUEUE_SIZE_def)
  then obtain job_id where "job_id \<in> j_job_id ` set (db_jobs db')"
    by (metis length_greater_0_conv list.discI)
  with s p show ?thesis by auto
qed

theorem good_batch_stored_witness:
  "db_tasks (store_batch 5 (mk_items sample_gen 0 [sample_req ''k'']) empty_db) \<noteq> [] \<and>
   fst (snd (ProcessBatch sample_types sample_codec ref_ops \<lparr>be_tx = tx_ok 5, be_lost = Some 1\<rparr>
     (mk_items sample_gen 0 [sample_req ''k'']) (empty_db, ms_empty))) =
   store_batch 5 (mk_items sample_gen 0 [sample_req ''k'']) empty_db"
proof -
  have "batch_ok sample_types empty_db (mk_items sample_gen 0 [sample_req ''k''])"
    by (rule mk_items_batch_ok [OF _ sample_gen_inj])
      (simp_all add: sample_gen_def empty_db_def)
  from good_batch_stored [OF this empty_db_ok, of "\<lparr>be_tx = tx_ok 5, be_lost = Some 1\<rparr>" 5
      sample_codec ref_ops ms_empty]
  have "fst (snd (ProcessBatch sample_types sample_codec ref_ops \<lparr>be_tx = tx_ok 5, be_lost = Some 1\<rparr>
     (mk_items sample_gen 0 [sample_req ''k'']) (empty_db, ms_empty))) =
   store_batch 5 (mk_items sample_gen 0 [sample_req ''k'']) empty_db" by simp
  moreover have "db_tasks (store_batch 5 (mk_items sample_gen 0 [sample_req ''k'']) empty_db) \<noteq> []"
    by (simp add: store_batch_def item_rows_def mk_item_def sample_req_def)
  ultimately show ?thesis by blast
qed

section \<open>What one bad request does\<close>

lemma sfor_inv:
  assumes "\<And>x s s'. x \<in> set xs \<Longrightarrow> f x s = (Inr (), s') \<Longrightarrow> I s \<Longrightarrow> I s'"
    and "sfor f xs s = (Inr (), s')" "I s"
  shows "I s'"
  using assms
proof (induction xs arbitrary: s)
  case (Cons x xs)
  from Cons.prems(2) obtain u s1 where s1: "f x s = (Inr u, s1)" "sfor f xs s1 = (Inr (), s')"
    by (auto elim: sbind_eq_InrE)
  have "I s1" using Cons.prems(1) [of x s s1] Cons.prems(3) s1(1) by simp
  show ?case
    by (rule Cons.IH [OF _ s1(2)]) (use Cons.prems(1) \<open>I s1\<close> in auto)
qed simp

lemma jobs_not_inserted:
  assumes "sfor (\<lambda>item. stmt (insert_job (job_row_of item))) batch db = (Inr (), db1)"
    and "i \<notin> j_job_id ` set (db_jobs db)"
    and "\<And>item. item \<in> set batch \<Longrightarrow> cx_job_id (bi_ctx item) = i \<Longrightarrow>
           pr_idempotency_key (bi_req item) \<in> j_idempotency_key ` set (db_jobs db)"
  shows "i \<notin> j_job_id ` set (db_jobs db1)"
proof -
  let ?I = "\<lambda>d. i \<notin> j_job_id ` set (db_jobs d) \<and>
    j_idempotency_key ` set (db_jobs db) \<subseteq> j_idempotency_key ` set (db_jobs d)"
  have "?I db1"
  proof (rule sfor_inv [OF _ assms(1)])
    fix item d d' assume x: "item \<in> set batch" "stmt (insert_job (job_row_of item)) d = (Inr (), d')" "?I d"
    from x(2) have "insert_job (job_row_of item) d = Inr d'"
      by (simp add: stmt_def split: sum.splits)
    then have "d' = d \<or> d' = d\<lparr>db_jobs := db_jobs d @ [job_row_of item]\<rparr> \<and>
        pr_idempotency_key (bi_req item) \<notin> j_idempotency_key ` set (db_jobs d)"
      by (auto simp: insert_job_def job_row_of_def split: if_splits)
    then show "?I d'"
    proof
      assume d': "d' = d\<lparr>db_jobs := db_jobs d @ [job_row_of item]\<rparr> \<and>
        pr_idempotency_key (bi_req item) \<notin> j_idempotency_key ` set (db_jobs d)"
      then have "cx_job_id (bi_ctx item) \<noteq> i" using assms(3) [OF x(1)] x(3) by blast
      with d' x(3) show "?I d'" by (auto simp: job_row_of_def)
    qed (use x(3) in simp)
  qed (use assms(2) in simp)
  then show ?thesis by blast
qed

lemma tasks_need_jobs:
  assumes "sfor (\<lambda>t. stmt (insert_task T t)) ts db = (Inr (), db')" "t \<in> set ts"
  shows "tr_job_id t \<in> j_job_id ` set (db_jobs db)"
  using assms
proof (induction ts arbitrary: db)
  case (Cons x ts)
  from Cons.prems(1) obtain db1 where db1: "stmt (insert_task T x) db = (Inr (), db1)"
    "sfor (\<lambda>t. stmt (insert_task T t)) ts db1 = (Inr (), db')"
    by (auto elim: sbind_eq_InrE)
  then have "insert_task T x db = Inr db1" by (simp add: stmt_def split: sum.splits)
  then have "tr_job_id x \<in> j_job_id ` set (db_jobs db)" "db_jobs db1 = db_jobs db"
    by (auto simp: insert_task_def split: if_splits)
  with Cons.IH [OF db1(2)] Cons.prems(2) show ?case by auto
qed simp

lemma stream_tasks_job:
  "stream_tasks now ctx deps ts = Inr (rows, es) \<Longrightarrow>
   length rows = length ts \<and> (\<forall>r \<in> set rows. tr_job_id r = cx_job_id ctx)"
  by (induction ts arbitrary: rows es)
    (auto simp: Let_def task_row_of_def split: sum.splits prod.splits)

lemma stream_items_rows:
  "stream_items now batch = Inr (rows, b1) \<Longrightarrow> item \<in> set batch \<Longrightarrow> pr_tasks (bi_req item) \<noteq> [] \<Longrightarrow>
   \<exists>r \<in> set rows. tr_job_id r = cx_job_id (bi_ctx item)"
proof (induction batch arbitrary: rows b1)
  case (Cons i batch)
  from Cons.prems(1) obtain r1 e1 r2 b2 where
    1: "stream_tasks now (bi_ctx i) (dep_count (pr_edges (bi_req i))) (pr_tasks (bi_req i)) = Inr (r1, e1)"
    and 2: "stream_items now batch = Inr (r2, b2)" and r: "rows = r1 @ r2"
    by (auto split: sum.splits prod.splits)
  show ?case
  proof (cases "item = i")
    case True
    have "r1 \<noteq> []" "\<forall>r \<in> set r1. tr_job_id r = cx_job_id (bi_ctx i)"
      using stream_tasks_job [OF 1] Cons.prems(3) True by auto
    then show ?thesis using r True by (cases r1) auto
  next
    case False
    with Cons.IH [OF 2] Cons.prems(2,3) r show ?thesis by auto
  qed
qed simp

text \<open>
  C12. One repeated idempotency key loses the whole batch. If any request of a batch repeats a key
  the database already has, its job row is skipped silently, its tasks then break the foreign key,
  and the transaction is rolled back: no request of the batch is stored and none reaches Redis,
  although every client of the batch already holds a job id.
\<close>

theorem repeated_key_loses_batch:
  assumes "item \<in> set batch" "pr_tasks (bi_req item) \<noteq> []"
    and "pr_idempotency_key (bi_req item) \<in> j_idempotency_key ` set (db_jobs db)"
    and "distinct (map (\<lambda>i. cx_job_id (bi_ctx i)) batch)"
    and "cx_job_id (bi_ctx item) \<notin> j_job_id ` set (db_jobs db)"
  shows "ProcessBatch T P R E batch (db, r) = (False, db, r)"
proof -
  let ?F = "FlushDBBatch T (te_now (be_tx E))"
  have "\<nexists>s. ?F (db, batch) = (Inr (), s)"
  proof
    assume "\<exists>s. ?F (db, batch) = (Inr (), s)"
    then obtain s where F: "?F (db, batch) = (Inr (), s)" by blast
    have ne: "batch \<noteq> []" using assms(1) by auto
    obtain db1 rows b1 db2 where
      1: "flush_jobs T batch db = (Inr (), db1)" and
      2: "stream_items (te_now (be_tx E)) batch = Inr (rows, b1)" and
      3: "sfor (\<lambda>r. stmt (insert_task T r)) rows db1 = (Inr (), db2)"
      using F ne by (auto simp: FlushDBBatch_def split: prod.splits sum.splits if_splits)
    have j: "sfor (\<lambda>item. stmt (insert_job (job_row_of item))) batch db = (Inr (), db1)"
      using 1 by (simp add: flush_jobs_def split: if_splits)
    have "cx_job_id (bi_ctx item) \<notin> j_job_id ` set (db_jobs db1)"
    proof (rule jobs_not_inserted [OF j assms(5)])
      fix i assume "i \<in> set batch" "cx_job_id (bi_ctx i) = cx_job_id (bi_ctx item)"
      then have "i = item" using assms(1,4) by (auto simp: distinct_map inj_on_def)
      then show "pr_idempotency_key (bi_req i) \<in> j_idempotency_key ` set (db_jobs db)"
        using assms(3) by simp
    qed
    moreover obtain t where "t \<in> set rows" "tr_job_id t = cx_job_id (bi_ctx item)"
      using stream_items_rows [OF 2 assms(1,2)] by blast
    ultimately show False using tasks_need_jobs [OF 3] by force
  qed
  then obtain e s where "?F (db, batch) = (Inl e, s)"
    by (cases "?F (db, batch)", cases "fst (?F (db, batch))") auto
  then obtain e' s' where "run_tx (be_tx E) ?F (db, batch) = (Inl e', s')" "fst s' = db"
    using run_tx_logic_fails [of ?F "(db, batch)" e s "be_tx E"]
    by (cases "run_tx (be_tx E) ?F (db, batch)") auto
  moreover have "batch \<noteq> []" using assms(1) by auto
  ultimately show ?thesis by (cases s') (simp add: ProcessBatch_def)
qed

lemma sample_store_key:
  "''k'' \<in> j_idempotency_key ` set (db_jobs (store_batch 5 (mk_items sample_gen 0 [sample_req ''k'']) empty_db))"
  by (simp add: store_batch_def job_row_of_def mk_item_def)

text \<open>A good request and a repeated one in the same batch.\<close>

theorem repeated_key_loses_batch_witness:
  "ProcessBatch sample_types sample_codec ref_ops \<lparr>be_tx = tx_ok 6, be_lost = None\<rparr>
     (mk_items sample_gen 7 [sample_req ''new'', sample_req ''k''])
     (store_batch 5 (mk_items sample_gen 0 [sample_req ''k'']) empty_db, ms_empty) =
   (False, store_batch 5 (mk_items sample_gen 0 [sample_req ''k'']) empty_db, ms_empty)"
proof (rule repeated_key_loses_batch [where item = "mk_item sample_gen 10 (sample_req ''k'')"])
  show "mk_item sample_gen 10 (sample_req ''k'') \<in> set (mk_items sample_gen 7 [sample_req ''new'', sample_req ''k''])"
    by (simp add: ids_used_def sample_req_def)
  show "pr_tasks (bi_req (mk_item sample_gen 10 (sample_req ''k''))) \<noteq> []"
    by (simp add: mk_item_def sample_req_def)
  show "pr_idempotency_key (bi_req (mk_item sample_gen 10 (sample_req ''k''))) \<in>
    j_idempotency_key ` set (db_jobs (store_batch 5 (mk_items sample_gen 0 [sample_req ''k'']) empty_db))"
    using sample_store_key by (simp add: mk_item_def)
  show "distinct (map (\<lambda>i. cx_job_id (bi_ctx i)) (mk_items sample_gen 7 [sample_req ''new'', sample_req ''k'']))"
    by (simp add: mk_item_def sample_gen_def ids_used_def)
  show "cx_job_id (bi_ctx (mk_item sample_gen 10 (sample_req ''k''))) \<notin>
    j_job_id ` set (db_jobs (store_batch 5 (mk_items sample_gen 0 [sample_req ''k'']) empty_db))"
    by (auto simp: store_batch_def job_row_of_def mk_item_def sample_gen_def empty_db_def
        dest: arg_cong [where f = length])
qed

end
