(* ===== verification/Complete_Task.thy ===== *)
theory Complete_Task
  imports Task_Serializer
begin

text \<open>
  The Lua script \<open>complete_task.lua\<close> (embedded in \<open>scripts/complete_task.hpp\<close>) that
  advances a DAG when a task succeeds. It runs atomically in the server, so it is one computation
  on the server's state; a command that raises an error ends the script and leaves the writes
  made so far.

  \<open>children_done\<close> says what a pass over a list of children does to the abstract keyspace; the
  lemmas of the locale show that the script does it for every server that obeys the laws.
\<close>

section \<open>The script\<close>

text \<open>Lua's \<open>tostring\<close> of an integral number (below \<open>10^14\<close>, where Lua prints all digits).\<close>

definition lua_tostring :: "int \<Rightarrow> string" where
  "lua_tostring n = int_str n"

definition ready_fields :: "string \<Rightarrow> string \<Rightarrow> fields" where
  "ready_fields job_id child_id = [(''task_id'', child_id), (''job_id'', job_id)]"

definition missing_meta_fields :: "string \<Rightarrow> string \<Rightarrow> fields" where
  "missing_meta_fields job_id child_id =
     [(''type'', ''MISSING_META''), (''job_id'', job_id), (''task_id'', child_id),
      (''reason'', ''Meta data not found when dependency met'')]"

definition negative_deps_fields :: "string \<Rightarrow> string \<Rightarrow> int \<Rightarrow> fields" where
  "negative_deps_fields job_id child_id remain =
     [(''type'', ''NEGATIVE_DEPS''), (''job_id'', job_id), (''task_id'', child_id),
      (''current_val'', lua_tostring remain)]"

text \<open>The key the script builds, \<open>"dts:task:meta:" .. child_id\<close>.\<close>

definition script_meta_key :: "string \<Rightarrow> string" where
  "script_meta_key child_id = ''dts:task:meta:'' @ child_id"

text \<open>The loop over the children: \<open>KEYS[2]\<close>, \<open>KEYS[3]\<close>, \<open>KEYS[4]\<close> and \<open>ARGV[1]\<close>.\<close>

fun complete_children ::
  "'r redis_ops \<Rightarrow> string \<Rightarrow> string \<Rightarrow> string \<Rightarrow> string \<Rightarrow> string list \<Rightarrow> int \<Rightarrow> ('r, redis_err, int) sem"
where
  "complete_children R key2 key3 key4 job_id [] triggered_count = sret triggered_count"
| "complete_children R key2 key3 key4 job_id (child_id # children) triggered_count =
     sbind (r_hincrby R key2 child_id (-1)) (\<lambda>remain.
       if remain = 0 then
         sbind (r_exists R (script_meta_key child_id)) (\<lambda>meta_exists.
           if meta_exists = 1 then
             sbind (r_xadd R key3 ''*'' (ready_fields job_id child_id)) (\<lambda>_.
             sbind (r_hdel R key2 child_id) (\<lambda>_.
               complete_children R key2 key3 key4 job_id children (triggered_count + 1)))
           else
             sbind (r_xadd R key4 ''*'' (missing_meta_fields job_id child_id)) (\<lambda>_.
               complete_children R key2 key3 key4 job_id children triggered_count))
       else if remain < 0 then
         sbind (r_xadd R key4 ''*'' (negative_deps_fields job_id child_id remain)) (\<lambda>_.
           complete_children R key2 key3 key4 job_id children triggered_count)
       else complete_children R key2 key3 key4 job_id children triggered_count)"

definition complete_task ::
  "'r redis_ops \<Rightarrow> string \<Rightarrow> string \<Rightarrow> string \<Rightarrow> string \<Rightarrow> string \<Rightarrow> ('r, redis_err, int) sem"
where
  "complete_task R key1 key2 key3 key4 job_id =
     sbind (r_smembers R key1) (\<lambda>children.
       if children = [] then sret 0
       else sbind (complete_children R key2 key3 key4 job_id children 0) (\<lambda>triggered_count.
              sbind (r_del R key1) (\<lambda>_. sret triggered_count)))"

section \<open>What it does to the keyspace\<close>

definition ready_child :: "keyspace \<Rightarrow> (string \<Rightarrow> int) \<Rightarrow> string \<Rightarrow> bool" where
  "ready_child v n c \<longleftrightarrow> n c = 1 \<and> v (TaskMeta c) \<noteq> None"

definition child_errors :: "string \<Rightarrow> keyspace \<Rightarrow> (string \<Rightarrow> int) \<Rightarrow> string \<Rightarrow> fields list" where
  "child_errors job_id v n c =
     (if n c = 1 then if v (TaskMeta c) = None then [missing_meta_fields job_id c] else []
      else if n c < 1 then [negative_deps_fields job_id c (n c - 1)] else [])"

definition dag_keys_ok :: "string \<Rightarrow> keyspace \<Rightarrow> bool" where
  "dag_keys_ok job_id v \<longleftrightarrow>
     is_hash v (DependencyHash job_id) \<and> is_stream v kTasks \<and> is_stream v kErrors"

definition children_done ::
  "string \<Rightarrow> (string \<Rightarrow> int) \<Rightarrow> string list \<Rightarrow> keyspace \<Rightarrow> keyspace \<Rightarrow> bool"
where
  "children_done job_id n cs v v' \<longleftrightarrow>
     dag_keys_ok job_id v' \<and>
     hash_at v' (DependencyHash job_id) =
       (\<lambda>f. if f \<in> set cs
            then if ready_child v n f then None else Some (int_str (n f - 1))
            else hash_at v (DependencyHash job_id) f) \<and>
     map snd (stream_at v' kTasks) =
       map snd (stream_at v kTasks) @ map (ready_fields job_id) (filter (ready_child v n) cs) \<and>
     map snd (stream_at v' kErrors) =
       map snd (stream_at v kErrors) @ concat (map (child_errors job_id v n) cs) \<and>
     (\<forall>k. k \<notin> {DependencyHash job_id, kTasks, kErrors} \<longrightarrow> v' k = v k)"

lemma children_done_Nil: "dag_keys_ok job_id v \<Longrightarrow> children_done job_id n [] v v"
  by (simp add: children_done_def)

lemma children_done_keep:
  assumes "children_done job_id n cs v v'"
  shows "ready_child v' n' c \<longleftrightarrow> ready_child v n' c" "child_errors j v' n' c = child_errors j v n' c"
  using assms by (simp_all add: children_done_def ready_child_def child_errors_def)

lemma children_done_Cons:
  assumes "children_done job_id n [c] v v1" "children_done job_id n cs v1 v2" "c \<notin> set cs"
  shows "children_done job_id n (c # cs) v v2"
proof -
  have "ready_child v1 n = ready_child v n" "child_errors job_id v1 n = child_errors job_id v n"
    using children_done_keep [OF assms(1)] by blast+
  with assms show ?thesis
    unfolding children_done_def by (auto simp: fun_eq_iff)
qed

lemma script_meta_key [simp]: "script_meta_key c = TaskMeta c"
  by (simp add: script_meta_key_def TaskMeta_def kPrefixMeta_def)

context redis_store
begin

text \<open>One child: decrement, then one of the four branches.\<close>

lemma one_child:
  assumes up: "up r" and ok: "dag_keys_ok job_id (view r)"
    and n: "hash_int (view r) (DependencyHash job_id) c (n c)" "in_int64 (n c - 1)"
  obtains r' where "up r'" "children_done job_id n [c] (view r) (view r')"
    "complete_children R (DependencyHash job_id) kTasks kErrors job_id (c # cs) m r =
     complete_children R (DependencyHash job_id) kTasks kErrors job_id cs
       (if ready_child (view r) n c then m + 1 else m) r'"
proof -
  let ?K = "DependencyHash job_id" and ?v = "view r"
  from ok have kinds: "is_hash ?v ?K" "is_stream ?v kTasks" "is_stream ?v kErrors"
    by (simp_all add: dag_keys_ok_def)
  from hincrby [OF up kinds(1) n(1), of "-1"] n(2) obtain r1 where r1:
    "r_hincrby R ?K c (-1) r = (Inr (n c - 1), r1)" "up r1"
    "view r1 = ?v(?K \<mapsto> RHash ((hash_at ?v ?K)(c \<mapsto> int_str (n c - 1))))"
    by auto
  from r1(3) kinds have kinds1: "is_stream (view r1) kTasks" "is_stream (view r1) kErrors"
    by simp_all
  consider (ready) "n c = 1" "?v (TaskMeta c) \<noteq> None" | (missing) "n c = 1" "?v (TaskMeta c) = None"
    | (negative) "n c < 1" | (waiting) "n c > 1"
    by linarith
  then show thesis
  proof cases
    case ready
    from exists [OF r1(2), of "TaskMeta c"] obtain r2 where r2:
      "r_exists R (TaskMeta c) r1 = (Inr 1, r2)" "up r2" "view r2 = view r1"
      using ready r1(3) by auto
    from xadd [OF r2(2), of kTasks "ready_fields job_id c"] obtain i r3 where r3:
      "r_xadd R kTasks ''*'' (ready_fields job_id c) r2 = (Inr i, r3)" "up r3"
      "view r3 = (view r1)(kTasks \<mapsto> RStream (stream_at ?v kTasks @ [(i, ready_fields job_id c)]))"
      using kinds1 r2(3) r1(3) by auto
    from hdel [OF r3(2), of ?K c] obtain x r4 where r4:
      "r_hdel R ?K c r3 = (Inr x, r4)" "up r4"
      "view r4 = (view r3)(?K := put_hash ((hash_at ?v ?K)(c := None)))"
      using r3(3) r1(3) by auto
    show thesis
      by (rule that [OF r4(2)])
        (use ready kinds r1 r2 r3 r4 in \<open>auto simp: children_done_def dag_keys_ok_def ready_child_def
           child_errors_def intro!: ext\<close>)
  next
    case missing
    from exists [OF r1(2), of "TaskMeta c"] obtain r2 where r2:
      "r_exists R (TaskMeta c) r1 = (Inr 0, r2)" "up r2" "view r2 = view r1"
      using missing r1(3) by auto
    from xadd [OF r2(2), of kErrors "missing_meta_fields job_id c"] obtain i r3 where r3:
      "r_xadd R kErrors ''*'' (missing_meta_fields job_id c) r2 = (Inr i, r3)" "up r3"
      "view r3 = (view r1)(kErrors \<mapsto> RStream (stream_at ?v kErrors @ [(i, missing_meta_fields job_id c)]))"
      using kinds1 r2(3) r1(3) by auto
    show thesis
      by (rule that [OF r3(2)])
        (use missing kinds r1 r2 r3 in \<open>auto simp: children_done_def dag_keys_ok_def ready_child_def
           child_errors_def intro!: ext\<close>)
  next
    case negative
    from xadd [OF r1(2), of kErrors "negative_deps_fields job_id c (n c - 1)"] obtain i r3 where r3:
      "r_xadd R kErrors ''*'' (negative_deps_fields job_id c (n c - 1)) r1 = (Inr i, r3)" "up r3"
      "view r3 = (view r1)(kErrors \<mapsto>
         RStream (stream_at ?v kErrors @ [(i, negative_deps_fields job_id c (n c - 1))]))"
      using kinds1 r1(3) by auto
    show thesis
      by (rule that [OF r3(2)])
        (use negative kinds r1 r3 in \<open>auto simp: children_done_def dag_keys_ok_def ready_child_def
           child_errors_def intro!: ext\<close>)
  next
    case waiting
    show thesis
      by (rule that [OF r1(2)])
        (use waiting kinds r1 in \<open>auto simp: children_done_def dag_keys_ok_def ready_child_def
           child_errors_def intro!: ext\<close>)
  qed
qed

text \<open>The whole loop.\<close>

lemma children_loop:
  assumes "up r" "dag_keys_ok job_id (view r)" "distinct cs"
    and "\<And>c. c \<in> set cs \<Longrightarrow> hash_int (view r) (DependencyHash job_id) c (n c) \<and> in_int64 (n c - 1)"
  shows "\<exists>r'. complete_children R (DependencyHash job_id) kTasks kErrors job_id cs m r =
                (Inr (m + int (length (filter (ready_child (view r) n) cs))), r') \<and>
              up r' \<and> children_done job_id n cs (view r) (view r')"
  using assms
proof (induction cs arbitrary: r m)
  case Nil
  then show ?case by (auto intro: children_done_Nil)
next
  case (Cons c cs)
  let ?K = "DependencyHash job_id"
  obtain r1 where r1: "up r1" "children_done job_id n [c] (view r) (view r1)"
    "complete_children R ?K kTasks kErrors job_id (c # cs) m r =
     complete_children R ?K kTasks kErrors job_id cs (if ready_child (view r) n c then m + 1 else m) r1"
    using one_child [of r job_id c n cs m] Cons.prems by auto
  have h: "hash_int (view r1) ?K c' (n c') \<and> in_int64 (n c' - 1)" if "c' \<in> set cs" for c'
    using that Cons.prems r1(2) by (auto simp: children_done_def hash_int_def)
  have ok: "dag_keys_ok job_id (view r1)" using r1(2) by (simp add: children_done_def)
  have same: "ready_child (view r1) n = ready_child (view r) n"
    using children_done_keep(1) [OF r1(2)] by blast
  from Cons.IH [OF r1(1) ok _ h, of "if ready_child (view r) n c then m + 1 else m"] Cons.prems(3)
  obtain r' where r': "up r'" "children_done job_id n cs (view r1) (view r')"
    "complete_children R ?K kTasks kErrors job_id cs (if ready_child (view r) n c then m + 1 else m) r1 =
     (Inr ((if ready_child (view r) n c then m + 1 else m)
           + int (length (filter (ready_child (view r1) n) cs))), r')"
    by auto
  have "children_done job_id n (c # cs) (view r) (view r')"
    by (rule children_done_Cons [OF r1(2) r'(2)]) (use Cons.prems(3) in simp)
  with r1(3) r'(1,3) same show ?case
    by (intro exI [of _ r']) (simp del: complete_children.simps)
qed

text \<open>The script, on a task with children and on one without.\<close>

lemma script_with_children:
  assumes "up r" "dag_keys_ok job_id (view r)" "view r (Children t) = Some (RSet S)" "S \<noteq> {}"
    and "\<And>c. c \<in> S \<Longrightarrow> hash_int (view r) (DependencyHash job_id) c (n c) \<and> in_int64 (n c - 1)"
  shows "\<exists>cs r' v'. complete_task R (Children t) (DependencyHash job_id) kTasks kErrors job_id r =
                  (Inr (int (length (filter (ready_child (view r) n) cs))), r') \<and>
                up r' \<and> distinct cs \<and> set cs = S \<and> children_done job_id n cs (view r) v' \<and>
                view r' = v'(Children t := None)"
proof -
  from assms(3) have "is_set (view r) (Children t)" "set_at (view r) (Children t) = S"
    by (simp_all add: is_set_def set_at_def)
  with smembers [OF assms(1)] obtain cs r1 where r1:
    "r_smembers R (Children t) r = (Inr cs, r1)" "up r1" "view r1 = view r" "distinct cs" "set cs = S"
    by metis
  have "\<exists>r2. complete_children R (DependencyHash job_id) kTasks kErrors job_id cs 0 r1 =
          (Inr (0 + int (length (filter (ready_child (view r1) n) cs))), r2) \<and> up r2 \<and>
        children_done job_id n cs (view r1) (view r2)"
    by (rule children_loop) (use r1 assms in auto)
  then obtain r2 where r2: "up r2" "children_done job_id n cs (view r) (view r2)"
    "complete_children R (DependencyHash job_id) kTasks kErrors job_id cs 0 r1 =
       (Inr (int (length (filter (ready_child (view r) n) cs))), r2)"
    using r1(3) by auto
  from del [OF r2(1), of "Children t"] obtain x r3 where r3:
    "r_del R (Children t) r2 = (Inr x, r3)" "up r3" "view r3 = (view r2)(Children t := None)"
    by auto
  have "cs \<noteq> []" using r1(5) assms(4) by auto
  with r1 r2 r3 show ?thesis
    by (intro exI [of _ cs] exI [of _ r3] exI [of _ "view r2"]) (simp add: complete_task_def)
qed

lemma script_without_children:
  assumes "up r" "view r (Children t) = None"
  shows "\<exists>r'. complete_task R (Children t) k2 k3 k4 job_id r = (Inr 0, r') \<and> up r' \<and> view r' = view r"
proof -
  from assms(2) have "is_set (view r) (Children t)" "set_at (view r) (Children t) = {}"
    by (simp_all add: is_set_def set_at_def)
  with smembers [OF assms(1)] obtain r1 where
    "r_smembers R (Children t) r = (Inr [], r1)" "up r1" "view r1 = view r"
    by (metis set_empty)
  then show ?thesis by (simp add: complete_task_def)
qed

end

end
