(* ===== verification/Dag_Flow.thy ===== *)
theory Dag_Flow
  imports Submit_Batch Complete_Task
begin

text \<open>
  How a DAG flows through Redis: \<open>AppendDagToPipeline\<close> lays it out (a set of children per
  task, a counter per waiting task, the task's data, and the entry tasks on the stream), and each
  run of the completion script counts down and releases the children that became ready.

  \<open>dag_inv\<close> is the abstract meaning of the keys of one job: which tasks are done, and which
  have been put on the stream. The lemmas are proved in the locale \<open>redis_store\<close>, for every
  server that obeys its laws, and for any number of jobs interleaved.
\<close>

section \<open>The tasks of a job on the stream\<close>

definition job_entry :: "string \<Rightarrow> fields \<Rightarrow> string option" where
  "job_entry job_id fs =
     (case ParseStreamEntry ([], fs) of
        None \<Rightarrow> None
      | Some p \<Rightarrow> if sp_job_id p = job_id then Some (sp_task_id p) else None)"

definition job_tasks :: "string \<Rightarrow> keyspace \<Rightarrow> string list" where
  "job_tasks job_id v = List.map_filter (job_entry job_id) (map snd (stream_at v kTasks))"

lemma job_entry_simps [simp]:
  "job_entry j (ready_fields j' t) = (if j' = j then Some t else None)"
  "job_entry j (BuildXAddFieldsFromProto q t j') = (if j' = j then Some t else None)"
  by (simp_all add: job_entry_def ready_fields_def BuildXAddFieldsFromProto_def
      ParseStreamEntry_script ParseStreamEntry_ToXAddArgs [unfolded ToXAddArgs_def])

lemma map_filter_append [simp]: "List.map_filter f (xs @ ys) = List.map_filter f xs @ List.map_filter f ys"
  by (simp add: List.map_filter_def)

lemma map_filter_ready [simp]:
  "List.map_filter (job_entry j) (map (ready_fields j') ts) = (if j' = j then ts else [])"
  by (induction ts) (auto simp: map_filter_simps)

lemma map_filter_build [simp]:
  "List.map_filter (job_entry j) (map (\<lambda>t. BuildXAddFieldsFromProto t (f t) j') ts) =
     (if j' = j then map f ts else [])"
  by (induction ts) (auto simp: map_filter_simps)

lemma meta_image [simp]:
  "Children p \<notin> TaskMeta ` S" "DependencyHash j \<notin> TaskMeta ` S" "kErrors \<notin> TaskMeta ` S"
  "TaskMeta p \<in> TaskMeta ` S \<longleftrightarrow> p \<in> S"
  by auto

section \<open>Commands of a pipeline on the keyspace\<close>

context redis_store
begin

lemma exec_sadd:
  "up r \<Longrightarrow> is_set (view r) k \<Longrightarrow> up (exec_cmd R (CSAdd k m) r) \<and>
   view (exec_cmd R (CSAdd k m) r) = (view r)(k \<mapsto> RSet (insert m (set_at (view r) k)))"
  using sadd [of r k m] by (auto simp: exec_cmd_def)

lemma exec_expire: "up r \<Longrightarrow> up (exec_cmd R (CExpire k n) r) \<and> view (exec_cmd R (CExpire k n) r) = view r"
  using expire [of r k n] by (auto simp: exec_cmd_def)

lemma exec_set:
  "up r \<Longrightarrow> k \<noteq> kTasks \<Longrightarrow> up (exec_cmd R (CSet k x n) r) \<and> view (exec_cmd R (CSet k x n) r) = (view r)(k \<mapsto> RStr x)"
  using set [of r k x n] by (auto simp: exec_cmd_def)

lemma exec_hset:
  "up r \<Longrightarrow> is_hash (view r) k \<Longrightarrow> up (exec_cmd R (CHSet k f x) r) \<and>
   view (exec_cmd R (CHSet k f x) r) = (view r)(k \<mapsto> RHash ((hash_at (view r) k)(f \<mapsto> x)))"
  using hset [of r k f x] by (auto simp: exec_cmd_def)

lemma exec_xadd:
  "up r \<Longrightarrow> is_stream (view r) k \<Longrightarrow> up (exec_cmd R (CXAdd k ''*'' fs) r) \<and>
   (\<exists>i. view (exec_cmd R (CXAdd k ''*'' fs) r) = (view r)(k \<mapsto> RStream (stream_at (view r) k @ [(i, fs)])))"
  using xadd [of r k fs] by (auto simp: exec_cmd_def)

end

definition exec_cmds :: "'r redis_ops \<Rightarrow> redis_cmd list \<Rightarrow> 'r \<Rightarrow> 'r" where
  "exec_cmds R cmds r = foldl (\<lambda>r c. exec_cmd R c r) r cmds"

lemma exec_cmds_simps [simp]:
  "exec_cmds R [] r = r" "exec_cmds R (c # cs) r = exec_cmds R cs (exec_cmd R c r)"
  "exec_cmds R (cs @ cs') r = exec_cmds R cs' (exec_cmds R cs r)"
  by (simp_all add: exec_cmds_def)

section \<open>Laying out the edges\<close>

definition with_edges :: "edge_row list \<Rightarrow> keyspace \<Rightarrow> keyspace" where
  "with_edges es v = foldl (\<lambda>v (p, c). v(Children p \<mapsto> RSet (insert c (set_at v (Children p))))) v es"

lemma with_edges_Cons [simp]:
  "with_edges [] v = v"
  "with_edges ((p, c) # es) v = with_edges es (v(Children p \<mapsto> RSet (insert c (set_at v (Children p)))))"
  by (simp_all add: with_edges_def)

lemma with_edges_other: "(\<And>p. k \<noteq> Children p) \<Longrightarrow> with_edges es v k = v k"
  by (induction es arbitrary: v) auto

lemma with_edges_children:
  "with_edges es v (Children p) =
     (if p \<in> fst ` set es then Some (RSet (set_at v (Children p) \<union> {c. (p, c) \<in> set es}))
      else v (Children p))"
proof (induction es arbitrary: v)
  case (Cons e es)
  obtain p' c where e: "e = (p', c)" by (cases e)
  let ?v = "v(Children p' \<mapsto> RSet (insert c (set_at v (Children p'))))"
  have IH: "with_edges (e # es) v (Children p) =
     (if p \<in> fst ` set es then Some (RSet (set_at ?v (Children p) \<union> {c. (p, c) \<in> set es}))
      else ?v (Children p))"
    by (simp only: e with_edges_Cons Cons)
  show ?case
  proof (cases "p = p'")
    case True
    have "{ca. (p, ca) \<in> set (e # es)} = insert c {ca. (p, ca) \<in> set es}" using e True by auto
    moreover have "{ca. (p, ca) \<in> set es} = {}" if "p \<notin> fst ` set es" using that by force
    ultimately show ?thesis unfolding IH using e True by simp
  next
    case False
    then show ?thesis unfolding IH using e by simp
  qed
qed simp

lemma with_edges_kind:
  "is_set v (Children p) \<Longrightarrow> is_set (with_edges es v) (Children p)"
  by (simp add: is_set_def with_edges_children)

context redis_store
begin

lemma exec_edges:
  assumes "append_edges ctx es seen = Inr cmds" "up r" "\<forall>p. is_set (view r) (Children p)"
    and "\<And>k u. at_uuid ctx k = Inr u \<Longrightarrow> f k = u"
  shows "up (exec_cmds R cmds r) \<and>
     view (exec_cmds R cmds r) = with_edges (map (\<lambda>e. (f (parent_natural_id e), f (child_natural_id e))) es) (view r)"
  using assms
proof (induction ctx es seen arbitrary: cmds r rule: append_edges.induct)
  case (2 ctx e es seen)
  obtain p c where pc: "at_uuid ctx (parent_natural_id e) = Inr p" "at_uuid ctx (child_natural_id e) = Inr c"
    using "2.prems"(1) by (auto split: sum.splits)
  let ?seen = "if p \<in> set seen then seen else p # seen"
  obtain cmds' where c': "append_edges ctx es ?seen = Inr cmds'"
    and cmds: "cmds = CSAdd (Children p) c #
        (if p \<in> set seen then [] else [CExpire (Children p) TTL]) @ cmds'"
    using "2.prems"(1) pc by (auto simp: Let_def split: sum.splits)
  let ?r1 = "exec_cmd R (CSAdd (Children p) c) r"
  have r1: "up ?r1" "view ?r1 = (view r)(Children p \<mapsto> RSet (insert c (set_at (view r) (Children p))))"
    using exec_sadd [of r "Children p" c] "2.prems"(2,3) by auto
  let ?r2 = "exec_cmds R (if p \<in> set seen then [] else [CExpire (Children p) TTL]) ?r1"
  have r2: "up ?r2" "view ?r2 = view ?r1"
    using exec_expire [OF r1(1)] r1(1) by auto
  have kind: "\<forall>q. is_set (view ?r2) (Children q)"
    using "2.prems"(3) by (auto simp: r2(2) r1(2) is_set_def)
  have f: "f (parent_natural_id e) = p" "f (child_natural_id e) = c"
    using "2.prems"(4) pc by blast+
  have "exec_cmds R cmds r = exec_cmds R cmds' ?r2" by (simp add: cmds)
  with "2.IH" [OF refl pc refl refl c' r2(1) kind "2.prems"(4)] show ?case
    by (simp only: list.map with_edges_Cons f r2(2) r1(2))
qed simp

end

section \<open>Laying out the tasks\<close>

definition tasks_laid_out ::
  "pb_codec \<Rightarrow> DagCommitContext \<Rightarrow> (string \<Rightarrow> int) \<Rightarrow> (PbTask \<Rightarrow> string) \<Rightarrow> PbTask list \<Rightarrow>
   keyspace \<Rightarrow> keyspace \<Rightarrow> bool"
where
  "tasks_laid_out P ctx deps u ts v v' \<longleftrightarrow>
     (let K = DependencyHash (cx_job_id ctx) in
      is_hash v' K \<and> is_stream v' kTasks \<and>
      map snd (stream_at v' kTasks) = map snd (stream_at v kTasks) @
        map (\<lambda>t. BuildXAddFieldsFromProto t (u t) (cx_job_id ctx))
          (filter (\<lambda>t. \<not> deps (p_natural_id t) > 0) ts) \<and>
      (\<forall>t \<in> set ts. v' (TaskMeta (u t)) = Some (RStr (pb_serialize P (internal_task ctx t (u t))))) \<and>
      (\<forall>t \<in> set ts. hash_at v' K (u t) =
         (if deps (p_natural_id t) > 0 then Some (int_str (deps (p_natural_id t)))
          else hash_at v K (u t))) \<and>
      (\<forall>f. f \<notin> u ` set ts \<longrightarrow> hash_at v' K f = hash_at v K f) \<and>
      (\<forall>k. k \<notin> {K, kTasks} \<union> TaskMeta ` u ` set ts \<longrightarrow> v' k = v k))"

lemma tasks_laid_out_Cons:
  assumes "u t \<notin> u ` set ts"
    and v1: "is_hash v1 K" "is_stream v1 kTasks" "K = DependencyHash (cx_job_id ctx)"
    and "map snd (stream_at v1 kTasks) = map snd (stream_at v kTasks) @
       (if deps (p_natural_id t) > 0 then []
        else [BuildXAddFieldsFromProto t (u t) (cx_job_id ctx)])"
    and "hash_at v1 K = (if deps (p_natural_id t) > 0
       then (hash_at v K)(u t \<mapsto> int_str (deps (p_natural_id t))) else hash_at v K)"
    and "v1 (TaskMeta (u t)) = Some (RStr (pb_serialize P (internal_task ctx t (u t))))"
    and "\<forall>k. k \<notin> {K, kTasks, TaskMeta (u t)} \<longrightarrow> v1 k = v k"
    and v2: "tasks_laid_out P ctx deps u ts v1 v2"
  shows "tasks_laid_out P ctx deps u (t # ts) v v2"
proof -
  have other: "v2 k = v k" if "k \<notin> {K, kTasks} \<union> TaskMeta ` u ` set (t # ts)" for k
  proof -
    have "v2 k = v1 k" using v2 that by (simp add: tasks_laid_out_def v1(3) Let_def)
    also have "v1 k = v k" using assms(8) that by simp
    finally show ?thesis .
  qed
  have meta: "v2 (TaskMeta (u t)) = v1 (TaskMeta (u t))"
  proof -
    have "TaskMeta (u t) \<notin> {K, kTasks} \<union> TaskMeta ` u ` set ts"
      using assms(1) by (auto simp: v1(3))
    with v2 show ?thesis unfolding tasks_laid_out_def Let_def v1(3) [symmetric] by blast
  qed
  have field: "hash_at v2 K (u t) = hash_at v1 K (u t)"
    using v2 assms(1) by (simp add: tasks_laid_out_def Let_def v1(3))
  have "hash_at v1 K f = hash_at v K f" if "f \<noteq> u t" for f using that assms(6) by simp
  moreover have "u t' \<noteq> u t" if "t' \<in> set ts" for t' using assms(1) that by (metis image_eqI)
  ultimately show ?thesis
    using v2 assms(5-7) other meta field
    by (simp add: tasks_laid_out_def Let_def v1(3) [symmetric])
qed

context redis_store
begin

lemma exec_tasks:
  assumes "append_tasks P ctx deps ts = Inr cmds" "up r"
    and "is_hash (view r) (DependencyHash (cx_job_id ctx))" "is_stream (view r) kTasks"
    and "\<And>t. t \<in> set ts \<Longrightarrow> at_uuid ctx (p_natural_id t) = Inr (u t)" "distinct (map u ts)"
  shows "up (exec_cmds R cmds r) \<and> tasks_laid_out P ctx deps u ts (view r) (view (exec_cmds R cmds r))"
  using assms
proof (induction ts arbitrary: cmds r)
  case Nil
  then show ?case by (simp add: tasks_laid_out_def)
next
  case (Cons t ts)
  let ?K = "DependencyHash (cx_job_id ctx)"
  let ?pl = "pb_serialize P (internal_task ctx t (u t))"
  let ?c = "if deps (p_natural_id t) > 0 then CHSet ?K (u t) (int_str (deps (p_natural_id t)))
            else CXAdd kTasks ''*'' (BuildXAddFieldsFromProto t (u t) (cx_job_id ctx))"
  have t: "at_uuid ctx (p_natural_id t) = Inr (u t)" using Cons.prems(5) by simp
  obtain cmds' where cmds': "append_tasks P ctx deps ts = Inr cmds'"
    and cmds: "cmds = CSet (TaskMeta (u t)) ?pl TTL # ?c # cmds'"
    using Cons.prems(1) t by (auto simp: Let_def split: sum.splits)
  let ?r1 = "exec_cmd R (CSet (TaskMeta (u t)) ?pl TTL) r"
  have r1: "up ?r1" "view ?r1 = (view r)(TaskMeta (u t) \<mapsto> RStr ?pl)"
    using exec_set [OF Cons.prems(2), of "TaskMeta (u t)"] by auto
  have k1: "is_hash (view ?r1) ?K" "is_stream (view ?r1) kTasks"
    using Cons.prems(3,4) by (simp_all add: r1(2))
  let ?r2 = "exec_cmd R ?c ?r1"
  have r2: "up ?r2" "is_hash (view ?r2) ?K" "is_stream (view ?r2) kTasks"
    "map snd (stream_at (view ?r2) kTasks) = map snd (stream_at (view r) kTasks) @
       (if deps (p_natural_id t) > 0 then []
        else [BuildXAddFieldsFromProto t (u t) (cx_job_id ctx)])"
    "hash_at (view ?r2) ?K = (if deps (p_natural_id t) > 0
       then (hash_at (view r) ?K)(u t \<mapsto> int_str (deps (p_natural_id t))) else hash_at (view r) ?K)"
    "view ?r2 (TaskMeta (u t)) = Some (RStr ?pl)"
    "\<forall>k. k \<notin> {?K, kTasks, TaskMeta (u t)} \<longrightarrow> view ?r2 k = view r k"
    using exec_hset [OF r1(1) k1(1), of "u t" "int_str (deps (p_natural_id t))"]
      exec_xadd [OF r1(1) k1(2), of "BuildXAddFieldsFromProto t (u t) (cx_job_id ctx)"]
      Cons.prems(3,4)
    by (auto simp: r1(2))
  have at: "\<And>t. t \<in> set ts \<Longrightarrow> at_uuid ctx (p_natural_id t) = Inr (u t)" "distinct (map u ts)"
    using Cons.prems(5,6) by simp_all
  from Cons.IH [OF cmds' r2(1-3) at] have IH: "up (exec_cmds R cmds' ?r2)"
    "tasks_laid_out P ctx deps u ts (view ?r2) (view (exec_cmds R cmds' ?r2))"
    by simp_all
  have "exec_cmds R cmds r = exec_cmds R cmds' ?r2" by (simp add: cmds)
  moreover have "u t \<notin> u ` set ts" using Cons.prems(6) by simp
  ultimately show ?case
    using tasks_laid_out_Cons [OF _ r2(2,3) refl r2(4-7) IH(2)] IH(1) by simp
qed

end

section \<open>What the keys of a job mean\<close>

definition children :: "edge_row set \<Rightarrow> string \<Rightarrow> string set" where
  "children E p = {c. (p, c) \<in> E}"

definition remaining :: "edge_row set \<Rightarrow> string set \<Rightarrow> string \<Rightarrow> nat" where
  "remaining E done c = card {p. (p, c) \<in> E \<and> p \<notin> done}"

definition dag_inv :: "pb_codec \<Rightarrow> BatchItem \<Rightarrow> string set \<Rightarrow> keyspace \<Rightarrow> bool" where
  "dag_inv P item done v \<longleftrightarrow>
     (let job = cx_job_id (bi_ctx item); ids = set (item_ids item); E = set (item_edges item) in
      dag_keys_ok job v \<and>
      (\<forall>p \<in> ids. v (Children p) =
         (if p \<in> done \<or> children E p = {} then None else Some (RSet (children E p)))) \<and>
      (\<forall>f. hash_at v (DependencyHash job) f =
         (if f \<in> ids \<and> remaining E done f > 0 then Some (int_str (int (remaining E done f))) else None)) \<and>
      (\<forall>t \<in> set (pr_tasks (bi_req item)). v (TaskMeta (uuid_of item (p_natural_id t))) =
         Some (RStr (pb_serialize P (internal_task (bi_ctx item) t (uuid_of item (p_natural_id t)))))) \<and>
      distinct (job_tasks job v) \<and> set (job_tasks job v) = {c \<in> ids. remaining E done c = 0})"

lemma finite_parents: "finite E \<Longrightarrow> finite {p. (p, c) \<in> E \<and> Q p}" for E :: "edge_row set"
  by (rule finite_subset [of _ "fst ` E"]) (auto intro: rev_image_eqI)

lemma remaining_0_iff: "finite E \<Longrightarrow> remaining E done c = 0 \<longleftrightarrow> (\<forall>p. (p, c) \<in> E \<longrightarrow> p \<in> done)"
  using finite_parents [of E c "\<lambda>p. p \<notin> done"] by (auto simp: remaining_def)

lemma remaining_insert_child:
  assumes "finite E" "(t, c) \<in> E" "t \<notin> done"
  shows "remaining E done c = Suc (remaining E (insert t done) c)"
proof -
  have "{p. (p, c) \<in> E \<and> p \<notin> done} = insert t {p. (p, c) \<in> E \<and> p \<notin> insert t done}"
    using assms(2,3) by auto
  then show ?thesis
    using finite_parents [OF assms(1), of c "\<lambda>p. p \<notin> insert t done"] by (simp add: remaining_def)
qed

lemma remaining_insert_other: "(t, c) \<notin> E \<or> t \<in> done \<Longrightarrow> remaining E (insert t done) c = remaining E done c"
  unfolding remaining_def by (rule arg_cong [where f = card]) auto

lemma remaining_le: "finite E \<Longrightarrow> remaining E done c \<le> card E"
proof -
  assume "finite E"
  moreover have "{p. (p, c) \<in> E \<and> p \<notin> done} \<subseteq> fst ` E" by (auto intro: rev_image_eqI)
  ultimately show "remaining E done c \<le> card E"
    unfolding remaining_def by (meson card_image_le card_mono finite_imageI order_trans)
qed

text \<open>The in-degree the code counts is the number of parents.\<close>

lemma dep_count_remaining:
  assumes "item_ok T item" "t \<in> set (pr_tasks (bi_req item))"
  shows "dep_count (pr_edges (bi_req item)) (p_natural_id t) =
         int (remaining (set (item_edges item)) {} (uuid_of item (p_natural_id t)))"
proof -
  let ?es = "pr_edges (bi_req item)" and ?k = "p_natural_id t"
  let ?S = "{e \<in> set ?es. child_natural_id e = ?k}"
  have k: "?k \<in> set (natural_ids (bi_req item))" using assms(2) by (simp add: natural_ids_def)
  have es: "parent_natural_id e \<in> set (natural_ids (bi_req item))"
    "child_natural_id e \<in> set (natural_ids (bi_req item))" if "e \<in> set ?es" for e
    using assms(1) that by (simp_all add: item_ok_def req_ok_def)
  note inj = uuid_of_inj [OF assms(1), THEN inj_onD]
  have "distinct ?es" using assms(1) by (simp add: item_ok_def req_ok_def)
  then have "dep_count ?es ?k = int (card ?S)"
    by (simp add: dep_count_eq distinct_card [symmetric] flip: set_filter)
  also have "card ?S = card ((\<lambda>e. uuid_of item (parent_natural_id e)) ` ?S)"
  proof (rule card_image [symmetric], rule inj_onI)
    fix e e' assume e: "e \<in> ?S" "e' \<in> ?S"
      "uuid_of item (parent_natural_id e) = uuid_of item (parent_natural_id e')"
    then have "parent_natural_id e = parent_natural_id e'" using es inj by blast
    with e show "e = e'" by (cases e; cases e') auto
  qed
  also have "(\<lambda>e. uuid_of item (parent_natural_id e)) ` ?S =
      {p. (p, uuid_of item ?k) \<in> set (item_edges item) \<and> p \<notin> {}}"
  proof (intro equalityI subsetI)
    fix p assume "p \<in> {p. (p, uuid_of item ?k) \<in> set (item_edges item) \<and> p \<notin> {}}"
    then obtain e where e: "e \<in> set ?es" "p = uuid_of item (parent_natural_id e)"
      "uuid_of item ?k = uuid_of item (child_natural_id e)"
      by (auto simp: item_edges_def)
    then have "child_natural_id e = ?k" using es inj k by metis
    with e show "p \<in> (\<lambda>e. uuid_of item (parent_natural_id e)) ` ?S" by auto
  qed (auto simp: item_edges_def)
  finally show ?thesis by (simp add: remaining_def)
qed

text \<open>A change elsewhere in the keyspace does not touch a job.\<close>

lemma dag_inv_frame:
  assumes "dag_inv P item done v" "job = cx_job_id (bi_ctx item)"
    and "v' (DependencyHash job) = v (DependencyHash job)"
    and "\<forall>p \<in> set (item_ids item). v' (Children p) = v (Children p) \<and> v' (TaskMeta p) = v (TaskMeta p)"
    and "is_stream v' kTasks" "is_stream v' kErrors" "job_tasks job v' = job_tasks job v"
  shows "dag_inv P item done v'"
proof -
  have "hash_at v' (DependencyHash job) = hash_at v (DependencyHash job)"
    "is_hash v' (DependencyHash job) = is_hash v (DependencyHash job)"
    using assms(3) by (simp_all add: hash_at_def is_hash_def)
  moreover have "uuid_of item (p_natural_id t) \<in> set (item_ids item)" if "t \<in> set (pr_tasks (bi_req item))" for t
    using that by (simp add: item_ids_def natural_ids_def)
  ultimately show ?thesis
    using assms by (simp add: dag_inv_def Let_def dag_keys_ok_def)
qed

lemma item_edges_sub:
  "item_ok T item \<Longrightarrow> set (item_edges item) \<subseteq> set (item_ids item) \<times> set (item_ids item)"
  using item_edges_in [of T item] by auto

text \<open>Another task's completion does not touch a job it does not belong to.\<close>

lemma dag_inv_insert_other:
  assumes "dag_inv P item done v" "item_ok T item" "t \<notin> set (item_ids item)"
  shows "dag_inv P item (insert t done) v"
proof -
  have "(t, c) \<notin> set (item_edges item)" for c
    using item_edges_sub [OF assms(2)] assms(3) by auto
  then have "remaining (set (item_edges item)) (insert t done) c = remaining (set (item_edges item)) done c" for c
    by (simp add: remaining_insert_other)
  moreover have "p \<in> insert t done \<longleftrightarrow> p \<in> done" if "p \<in> set (item_ids item)" for p
    using that assms(3) by auto
  ultimately show ?thesis using assms(1,3) by (simp add: dag_inv_def Let_def)
qed

section \<open>Laying out a request\<close>

definition dag_fresh :: "BatchItem \<Rightarrow> keyspace \<Rightarrow> bool" where
  "dag_fresh item v \<longleftrightarrow>
     v (DependencyHash (cx_job_id (bi_ctx item))) = None \<and>
     (\<forall>p \<in> set (item_ids item). v (Children p) = None) \<and>
     job_tasks (cx_job_id (bi_ctx item)) v = []"

definition base_ok :: "keyspace \<Rightarrow> bool" where
  "base_ok v \<longleftrightarrow> (\<forall>p. is_set v (Children p)) \<and> is_stream v kTasks \<and> is_stream v kErrors"

definition laid_out :: "pb_codec \<Rightarrow> BatchItem \<Rightarrow> keyspace \<Rightarrow> keyspace \<Rightarrow> bool" where
  "laid_out P item v v' \<longleftrightarrow>
     (\<exists>v1. v1 = with_edges (item_edges item) v \<and>
        tasks_laid_out P (bi_ctx item) (dep_count (pr_edges (bi_req item)))
          (\<lambda>t. uuid_of item (p_natural_id t)) (pr_tasks (bi_req item)) v1 v')"

lemma append_edges_total:
  "(\<forall>e \<in> set es. (\<exists>u. at_uuid ctx (parent_natural_id e) = Inr u) \<and> (\<exists>u. at_uuid ctx (child_natural_id e) = Inr u)) \<Longrightarrow>
   \<exists>cmds. append_edges ctx es seen = Inr cmds"
proof (induction es arbitrary: seen)
  case (Cons e es)
  then obtain p c where pc: "at_uuid ctx (parent_natural_id e) = Inr p" "at_uuid ctx (child_natural_id e) = Inr c"
    by auto
  obtain cmds where "append_edges ctx es (if p \<in> set seen then seen else p # seen) = Inr cmds"
    using Cons by fastforce
  with pc show ?case by (simp add: Let_def)
qed simp

lemma append_tasks_total:
  "(\<forall>t \<in> set ts. \<exists>u. at_uuid ctx (p_natural_id t) = Inr u) \<Longrightarrow> \<exists>cmds. append_tasks P ctx deps ts = Inr cmds"
  by (induction ts) (auto simp: Let_def)

context redis_store
begin

lemma exec_dag:
  assumes "item_ok T item" "up r" "base_ok (view r)" "view r (DependencyHash (cx_job_id (bi_ctx item))) = None"
  shows "\<exists>cmds. AppendDagToPipeline P (bi_req item) (bi_ctx item) = Inr cmds \<and>
           up (exec_cmds R cmds r) \<and> laid_out P item (view r) (view (exec_cmds R cmds r))"
proof -
  let ?ctx = "bi_ctx item" and ?es = "pr_edges (bi_req item)" and ?ts = "pr_tasks (bi_req item)"
  let ?u = "\<lambda>t. uuid_of item (p_natural_id t)"
  have at: "at_uuid ?ctx k = Inr (uuid_of item k)" if "k \<in> set (natural_ids (bi_req item))" for k
    using at_uuid_ok [OF assms(1) that] .
  have "\<forall>e \<in> set ?es. (\<exists>u. at_uuid ?ctx (parent_natural_id e) = Inr u) \<and> (\<exists>u. at_uuid ?ctx (child_natural_id e) = Inr u)"
    using assms(1) at by (auto simp: item_ok_def req_ok_def)
  then obtain c1 where c1: "append_edges ?ctx ?es [] = Inr c1" using append_edges_total by blast
  have at_ts: "at_uuid ?ctx (p_natural_id t) = Inr (?u t)" if "t \<in> set ?ts" for t
    using at that by (simp add: natural_ids_def)
  then obtain c2 where c2: "append_tasks P ?ctx (dep_count ?es) ?ts = Inr c2"
    using append_tasks_total by blast
  let ?r1 = "exec_cmds R c1 r"
  have "up ?r1 \<and> view ?r1 = with_edges (map (\<lambda>e. (uuid_of item (parent_natural_id e), uuid_of item (child_natural_id e))) ?es) (view r)"
    by (rule exec_edges [OF c1 assms(2)])
      (use assms(3) in \<open>auto simp: base_ok_def at_uuid_def uuid_of_def split: option.splits\<close>)
  then have r1: "up ?r1" "view ?r1 = with_edges (item_edges item) (view r)"
    by (simp_all add: item_edges_def)
  have dep: "view ?r1 (DependencyHash (cx_job_id ?ctx)) = None"
    using assms(4) by (simp add: r1(2) with_edges_other)
  have str: "view ?r1 kTasks = view r kTasks"
    by (simp add: r1(2) with_edges_other)
  have kinds: "is_hash (view ?r1) (DependencyHash (cx_job_id ?ctx))" "is_stream (view ?r1) kTasks"
    using assms(3) dep str by (simp_all add: is_hash_def is_stream_def base_ok_def)
  have "distinct (map ?u ?ts)"
    using assms(1) by (simp add: item_ok_def item_ids_def natural_ids_def comp_def)
  from exec_tasks [OF c2 r1(1) kinds at_ts this] have r2:
    "up (exec_cmds R c2 ?r1)" "tasks_laid_out P ?ctx (dep_count ?es) ?u ?ts (view ?r1) (view (exec_cmds R c2 ?r1))"
    by simp_all
  let ?c3 = "if ?es \<noteq> [] then [CExpire (DependencyHash (cx_job_id ?ctx)) TTL] else []"
  have r3: "up (exec_cmds R ?c3 (exec_cmds R c2 ?r1))"
    "view (exec_cmds R ?c3 (exec_cmds R c2 ?r1)) = view (exec_cmds R c2 ?r1)"
    using exec_expire [OF r2(1)] r2(1) by auto
  have "AppendDagToPipeline P (bi_req item) ?ctx = Inr (c1 @ c2 @ ?c3)"
    using assms(1) c1 c2 by (simp add: AppendDagToPipeline_def item_ok_def)
  moreover have "laid_out P item (view r) (view (exec_cmds R (c1 @ c2 @ ?c3) r))"
    using r2(2) r3(2) by (simp add: laid_out_def r1(2))
  ultimately show ?thesis using r3(1) by (intro exI [of _ "c1 @ c2 @ ?c3"]) simp
qed

end

text \<open>What the laid-out keys of the request mean: nothing is done, the tasks without parents are released.\<close>

text \<open>The children sets and the hash of counts of an item that has just been laid out.\<close>

lemma laid_out_children:
  assumes "dag_fresh item v" "p \<in> set (item_ids item)"
    and "v' (Children p) = with_edges (item_edges item) v (Children p)"
  shows "v' (Children p) =
    (if children (set (item_edges item)) p = {} then None else Some (RSet (children (set (item_edges item)) p)))"
proof -
  have "v (Children p) = None" using assms(1,2) by (simp add: dag_fresh_def)
  moreover have "p \<in> fst ` set (item_edges item) \<longleftrightarrow> children (set (item_edges item)) p \<noteq> {}"
    by (force simp: children_def)
  ultimately show ?thesis by (auto simp: assms(3) with_edges_children set_at_def children_def)
qed

lemma laid_out_hash:
  assumes ok: "item_ok T item" and fresh: "\<And>f. hash_at v1 (DependencyHash (cx_job_id (bi_ctx item))) f = None"
    and lo: "tasks_laid_out P (bi_ctx item) (dep_count (pr_edges (bi_req item)))
      (\<lambda>t. uuid_of item (p_natural_id t)) (pr_tasks (bi_req item)) v1 v'"
  shows "hash_at v' (DependencyHash (cx_job_id (bi_ctx item))) f =
    (if f \<in> set (item_ids item) \<and> remaining (set (item_edges item)) {} f > 0
     then Some (int_str (int (remaining (set (item_edges item)) {} f))) else None)"
proof -
  let ?u = "\<lambda>t. uuid_of item (p_natural_id t)" and ?ts = "pr_tasks (bi_req item)"
  let ?deps = "dep_count (pr_edges (bi_req item))" and ?K = "DependencyHash (cx_job_id (bi_ctx item))"
  have ids: "set (item_ids item) = ?u ` set ?ts" by (simp add: item_ids_def natural_ids_def image_image)
  show ?thesis
  proof (cases "f \<in> set (item_ids item)")
    case True
    then obtain t where t: "t \<in> set ?ts" "f = ?u t" by (auto simp: ids)
    then have "hash_at v' ?K f = (if ?deps (p_natural_id t) > 0 then Some (int_str (?deps (p_natural_id t)))
        else hash_at v1 ?K f)"
      using lo by (simp add: tasks_laid_out_def Let_def)
    with True t dep_count_remaining [OF ok t(1)] fresh show ?thesis by simp
  next
    case False
    then have "hash_at v' ?K f = hash_at v1 ?K f" using lo ids by (simp add: tasks_laid_out_def Let_def)
    with False fresh show ?thesis by simp
  qed
qed

lemma laid_out_inv:
  assumes "item_ok T item" "base_ok v" "dag_fresh item v" "laid_out P item v v'"
  shows "dag_inv P item {} v'"
proof -
  let ?ctx = "bi_ctx item" and ?job = "cx_job_id (bi_ctx item)" and ?ts = "pr_tasks (bi_req item)"
  let ?u = "\<lambda>t. uuid_of item (p_natural_id t)" and ?E = "set (item_edges item)"
  let ?deps = "dep_count (pr_edges (bi_req item))" and ?K = "DependencyHash ?job"
  define v1 where "v1 = with_edges (item_edges item) v"
  have lo: "tasks_laid_out P ?ctx ?deps ?u ?ts v1 v'"
    using assms(4) by (simp add: laid_out_def v1_def)
  have ids: "set (item_ids item) = ?u ` set ?ts" by (simp add: item_ids_def natural_ids_def image_image)
  have v1K: "v1 ?K = v ?K" and v1s: "v1 kTasks = v kTasks" and v1e: "v1 kErrors = v kErrors"
    by (simp_all add: v1_def with_edges_other)
  have other: "v' k = v1 k" if "k \<notin> {?K, kTasks} \<union> TaskMeta ` set (item_ids item)" for k
    using lo that by (simp add: tasks_laid_out_def Let_def ids)
  have "is_stream v' kErrors"
    using other [of kErrors] assms(2) by (simp add: is_stream_def v1e base_ok_def)
  then have keys: "dag_keys_ok ?job v'" using lo by (simp add: dag_keys_ok_def tasks_laid_out_def Let_def)
  have ch: "v' (Children p) = (if children ?E p = {} then None else Some (RSet (children ?E p)))"
    if "p \<in> set (item_ids item)" for p
    using laid_out_children [OF assms(3) that] other [of "Children p"] by (auto simp: v1_def)
  have "hash_at v1 ?K f = None" for f
    using assms(3) by (simp add: hash_at_def v1K dag_fresh_def)
  note hash = laid_out_hash [OF assms(1) this lo]
  have "job_tasks ?job v1 = []"
    using assms(3) by (simp add: job_tasks_def stream_at_def v1s dag_fresh_def)
  then have jt: "job_tasks ?job v' = map ?u (filter (\<lambda>t. \<not> ?deps (p_natural_id t) > 0) ?ts)"
    using lo by (simp add: job_tasks_def tasks_laid_out_def Let_def)
  have d: "distinct (job_tasks ?job v')"
    using assms(1) unfolding jt
    by (simp add: item_ok_def item_ids_def natural_ids_def comp_def distinct_map inj_on_def)
  have s: "set (job_tasks ?job v') = {c \<in> set (item_ids item). remaining ?E {} c = 0}"
    using dep_count_remaining [OF assms(1)] by (auto simp: jt ids)
  show ?thesis
    using keys ch hash lo d s by (simp add: dag_inv_def Let_def tasks_laid_out_def)
qed

lemma laid_out_base: "laid_out P item v v' \<Longrightarrow> base_ok v \<Longrightarrow> base_ok v' \<and> v' kErrors = v kErrors"
proof -
  assume lo: "laid_out P item v v'" and ok: "base_ok v"
  define v1 where "v1 = with_edges (item_edges item) v"
  have l: "tasks_laid_out P (bi_ctx item) (dep_count (pr_edges (bi_req item)))
     (\<lambda>t. uuid_of item (p_natural_id t)) (pr_tasks (bi_req item)) v1 v'"
    using lo by (simp add: laid_out_def v1_def)
  have ch: "v' (Children p) = v1 (Children p)" for p
    using l by (simp add: tasks_laid_out_def Let_def)
  have e: "v' kErrors = v kErrors"
    using l by (simp add: tasks_laid_out_def Let_def v1_def with_edges_other)
  have "is_set v1 (Children p)" for p
    using ok unfolding v1_def by (intro with_edges_kind) (simp add: base_ok_def)
  then have "is_set v' (Children p)" for p
    by (simp add: is_set_def ch)
  moreover have "is_stream v' kTasks" using l by (simp add: tasks_laid_out_def Let_def)
  moreover have "is_stream v' kErrors" using ok e by (simp add: base_ok_def is_stream_def)
  ultimately show "base_ok v' \<and> v' kErrors = v kErrors" using e by (simp add: base_ok_def)
qed

text \<open>What laying out one request leaves alone of another.\<close>

lemma laid_out_frame:
  assumes "laid_out P item v v'" "item_ok T item"
    and "cx_job_id (bi_ctx item) \<noteq> job" "set (item_ids item) \<inter> ids = {}"
  shows "v' (DependencyHash job) = v (DependencyHash job) \<and>
         (\<forall>p \<in> ids. v' (Children p) = v (Children p) \<and> v' (TaskMeta p) = v (TaskMeta p)) \<and>
         job_tasks job v' = job_tasks job v"
proof (intro conjI ballI)
  define v1 where "v1 = with_edges (item_edges item) v"
  have l: "tasks_laid_out P (bi_ctx item) (dep_count (pr_edges (bi_req item)))
     (\<lambda>t. uuid_of item (p_natural_id t)) (pr_tasks (bi_req item)) v1 v'"
    using assms(1) by (simp add: laid_out_def v1_def)
  have ids: "(\<lambda>t. uuid_of item (p_natural_id t)) ` set (pr_tasks (bi_req item)) = set (item_ids item)"
    by (simp add: item_ids_def natural_ids_def image_image)
  have other: "v' k = v1 k"
    if "k \<notin> {DependencyHash (cx_job_id (bi_ctx item)), kTasks} \<union> TaskMeta ` set (item_ids item)" for k
    using l that by (simp add: tasks_laid_out_def Let_def ids)
  show "v' (DependencyHash job) = v (DependencyHash job)"
    using other [of "DependencyHash job"] assms(3) by (simp add: v1_def with_edges_other)
  show "job_tasks job v' = job_tasks job v"
    using l assms(3) by (simp add: job_tasks_def tasks_laid_out_def Let_def v1_def stream_at_def with_edges_other)
  fix p assume p: "p \<in> ids"
  have "p \<notin> fst ` set (item_edges item)"
    using item_edges_sub [OF assms(2)] assms(4) p by auto
  then show "v' (Children p) = v (Children p)"
    using other [of "Children p"] by (simp add: v1_def with_edges_children)
  show "v' (TaskMeta p) = v (TaskMeta p)"
    using other [of "TaskMeta p"] assms(4) p by (auto simp: v1_def with_edges_other)
qed

definition apart :: "BatchItem \<Rightarrow> BatchItem \<Rightarrow> bool" where
  "apart a b \<longleftrightarrow> cx_job_id (bi_ctx a) \<noteq> cx_job_id (bi_ctx b) \<and> set (item_ids a) \<inter> set (item_ids b) = {}"

definition batch_apart :: "BatchItem list \<Rightarrow> bool" where
  "batch_apart batch \<longleftrightarrow> distinct (map (\<lambda>i. cx_job_id (bi_ctx i)) batch) \<and> distinct (concat (map item_ids batch))"

lemma batch_apart_Cons:
  "batch_apart (i # batch) \<Longrightarrow> batch_apart batch \<and> (\<forall>j \<in> set batch. apart i j \<and> apart j i)"
  unfolding batch_apart_def apart_def by (simp add: image_iff disjoint_iff) metis

lemma batch_apart_mem:
  "batch_apart batch \<Longrightarrow> i \<in> set batch \<Longrightarrow> j \<in> set batch \<Longrightarrow> i \<noteq> j \<Longrightarrow> apart i j"
  by (induction batch) (auto dest!: batch_apart_Cons)

lemma laid_out_keeps:
  assumes "laid_out P item v v'" "item_ok T item" "apart item a" "base_ok v"
  shows "dag_fresh a v \<Longrightarrow> dag_fresh a v'" "dag_inv P a done v \<Longrightarrow> dag_inv P a done v'"
proof -
  note fr = laid_out_frame [OF assms(1,2), of "cx_job_id (bi_ctx a)" "set (item_ids a)"]
  note b = laid_out_base [OF assms(1,4)]
  show "dag_fresh a v'" if "dag_fresh a v"
    using fr that assms(3) by (simp add: dag_fresh_def apart_def)
  show "dag_inv P a done v'" if "dag_inv P a done v"
    by (rule dag_inv_frame [OF that refl]) (use fr b assms(3) in \<open>auto simp: apart_def base_ok_def\<close>)
qed

context redis_store
begin

lemma exec_batch:
  assumes "\<forall>item \<in> set batch. item_ok T item" "batch_apart batch" "up r" "base_ok (view r)"
    and "\<forall>item \<in> set batch. dag_fresh item (view r)"
  shows "\<exists>cmds. append_items P batch = Inr cmds \<and> up (exec_cmds R cmds r) \<and>
     base_ok (view (exec_cmds R cmds r)) \<and> view (exec_cmds R cmds r) kErrors = view r kErrors \<and>
     (\<forall>item \<in> set batch. dag_inv P item {} (view (exec_cmds R cmds r))) \<and>
     (\<forall>a. (\<forall>item \<in> set batch. apart item a) \<longrightarrow>
        (\<forall>done. dag_inv P a done (view r) \<longrightarrow> dag_inv P a done (view (exec_cmds R cmds r))))"
  using assms
proof (induction batch arbitrary: r)
  case (Cons item batch)
  have ok: "item_ok T item" and fr: "dag_fresh item (view r)" using Cons.prems by simp_all
  obtain c1 where c1: "AppendDagToPipeline P (bi_req item) (bi_ctx item) = Inr c1"
    "up (exec_cmds R c1 r)" "laid_out P item (view r) (view (exec_cmds R c1 r))"
    using exec_dag [OF ok Cons.prems(3,4)] fr unfolding dag_fresh_def by blast
  let ?r1 = "exec_cmds R c1 r"
  note b1 = laid_out_base [OF c1(3) Cons.prems(4)]
  note keep = laid_out_keeps [OF c1(3) ok _ Cons.prems(4)]
  have ap: "batch_apart batch" "\<forall>j \<in> set batch. apart item j \<and> apart j item"
    using batch_apart_Cons [OF Cons.prems(2)] by simp_all
  have fresh: "\<forall>i \<in> set batch. dag_fresh i (view ?r1)"
    using keep(1) ap(2) Cons.prems(5) by auto
  obtain c2 where c2: "append_items P batch = Inr c2" "up (exec_cmds R c2 ?r1)"
    "base_ok (view (exec_cmds R c2 ?r1))" "view (exec_cmds R c2 ?r1) kErrors = view ?r1 kErrors"
    "\<forall>i \<in> set batch. dag_inv P i {} (view (exec_cmds R c2 ?r1))"
    "\<forall>a. (\<forall>i \<in> set batch. apart i a) \<longrightarrow>
        (\<forall>done. dag_inv P a done (view ?r1) \<longrightarrow> dag_inv P a done (view (exec_cmds R c2 ?r1)))"
    using Cons.IH [of ?r1] Cons.prems(1) ap(1) c1(2) b1 fresh by auto
  have inv1: "dag_inv P item {} (view ?r1)"
    by (rule laid_out_inv [OF ok Cons.prems(4) fr c1(3)])
  have "\<forall>i \<in> set (item # batch). dag_inv P i {} (view (exec_cmds R c2 ?r1))"
    using c2(5,6) ap(2) inv1 by simp
  moreover have "append_items P (item # batch) = Inr (c1 @ c2)"
    using c1(1) c2(1) by simp
  moreover have "dag_inv P a dn (view (exec_cmds R c2 ?r1))"
    if "\<forall>i \<in> set (item # batch). apart i a" "dag_inv P a dn (view r)" for a dn
    using that c2(6) keep(2) [of a dn] by simp
  ultimately show ?case
    using c2(2-4) b1 by (intro exI [of _ "c1 @ c2"]) simp
qed auto

end

end
