(* ===== verification/Dag_Run.thy ===== *)
theory Dag_Run
  imports Dag_Flow
begin

text \<open>
  Running the DAGs of a batch: the completion script is run for tasks in any order, for any number
  of jobs interleaved, with repetitions. The invariant \<open>dag_inv\<close> says after every step which
  tasks are on the stream, and the properties read it off: a task is released exactly when all its
  parents have completed, once, and an acyclic request never gets stuck.
\<close>

section \<open>One completion\<close>

definition complete_one :: "'r redis_ops \<Rightarrow> string \<Rightarrow> string \<Rightarrow> ('r, redis_err, int) sem" where
  "complete_one R job_id task_id =
     complete_task R (Children task_id) (DependencyHash job_id) kTasks kErrors job_id"

fun complete_all :: "'r redis_ops \<Rightarrow> (string \<times> string) list \<Rightarrow> ('r, redis_err, int list) sem" where
  "complete_all R [] = sret []"
| "complete_all R ((job_id, task_id) # acts) =
     sbind (complete_one R job_id task_id) (\<lambda>n. sbind (complete_all R acts) (\<lambda>ns. sret (n # ns)))"

lemma remaining_bound: "item_ok T item \<Longrightarrow> remaining (set (item_edges item)) D c \<le> 2147483647"
proof -
  assume ok: "item_ok T item"
  have "remaining (set (item_edges item)) D c \<le> card (set (item_edges item))"
    by (rule remaining_le) simp
  also have "\<dots> \<le> length (item_edges item)" by (rule card_length)
  also have "\<dots> \<le> 2147483647"
    using ok by (simp add: item_edges_def item_ok_def req_ok_def)
  finally show ?thesis .
qed

text \<open>The effect of the script on the meaning of the job's keys.\<close>

text \<open>The counts and the ready tasks of an item once the children of a task are done: the
children lose one parent, the others keep theirs.\<close>

lemma child_remaining:
  assumes "set cs = children (set es) t" "t \<notin> D"
  shows "c \<in> set cs \<Longrightarrow> remaining (set es) D c = Suc (remaining (set es) (insert t D) c)"
    and "c \<notin> set cs \<Longrightarrow> remaining (set es) (insert t D) c = remaining (set es) D c"
  using assms remaining_insert_child [of "set es" t c D] remaining_insert_other [of t c "set es" D]
  by (auto simp: children_def)

lemma dag_inv_meta: "dag_inv P item D v \<Longrightarrow> c \<in> set (item_ids item) \<Longrightarrow> v (TaskMeta c) \<noteq> None"
  by (auto simp: dag_inv_def Let_def item_ids_def natural_ids_def)

lemma children_done_hash:
  assumes "dag_inv P item D v" "t \<notin> D"
    and S: "set cs = children (set (item_edges item)) t" "set cs \<subseteq> set (item_ids item)"
    and cd: "children_done (cx_job_id (bi_ctx item)) (\<lambda>c. int (remaining (set (item_edges item)) D c)) cs v v'"
  shows "hash_at v' (DependencyHash (cx_job_id (bi_ctx item))) f =
     (if f \<in> set (item_ids item) \<and> remaining (set (item_edges item)) (insert t D) f > 0
      then Some (int_str (int (remaining (set (item_edges item)) (insert t D) f))) else None)"
proof (cases "f \<in> set cs")
  case True
  have "ready_child v (\<lambda>c. int (remaining (set (item_edges item)) D c)) f \<longleftrightarrow>
      remaining (set (item_edges item)) D f = 1"
    using dag_inv_meta [OF assms(1) subsetD [OF S(2) True]] by (auto simp: ready_child_def)
  then show ?thesis
    using cd True S(2) child_remaining(1) [OF S(1) assms(2) True] by (auto simp: children_done_def)
next
  case False
  then show ?thesis
    using cd assms(1) child_remaining(2) [OF S(1) assms(2) False]
    by (simp add: children_done_def dag_inv_def Let_def)
qed

lemma children_done_tasks:
  assumes inv: "dag_inv P item D v" and t: "t \<notin> D"
    and S: "set cs = children (set (item_edges item)) t" "set cs \<subseteq> set (item_ids item)" "distinct cs"
    and cd: "children_done (cx_job_id (bi_ctx item)) (\<lambda>c. int (remaining (set (item_edges item)) D c)) cs v v'"
  shows "distinct (job_tasks (cx_job_id (bi_ctx item)) v') \<and>
     set (job_tasks (cx_job_id (bi_ctx item)) v') =
       {c \<in> set (item_ids item). remaining (set (item_edges item)) (insert t D) c = 0}"
proof -
  let ?E = "set (item_edges item)" and ?job = "cx_job_id (bi_ctx item)"
  let ?ready = "ready_child v (\<lambda>c. int (remaining ?E D c))"
  note rem = child_remaining [OF S(1) t]
  have old: "distinct (job_tasks ?job v)" "set (job_tasks ?job v) = {c \<in> set (item_ids item). remaining ?E D c = 0}"
    using inv by (simp_all add: dag_inv_def Let_def)
  have jt: "job_tasks ?job v' = job_tasks ?job v @ filter ?ready cs"
    using cd by (simp add: job_tasks_def children_done_def)
  have ready: "?ready c \<longleftrightarrow> remaining ?E (insert t D) c = 0" if "c \<in> set cs" for c
    using dag_inv_meta [OF inv subsetD [OF S(2) that]] rem(1) [OF that] by (auto simp: ready_child_def)
  have "distinct (job_tasks ?job v')"
    using old S(3) rem(1) by (auto simp: jt)
  moreover have "c \<in> set (job_tasks ?job v') \<longleftrightarrow>
      c \<in> set (item_ids item) \<and> remaining ?E (insert t D) c = 0" for c
    using old(2) ready rem S(2) by (cases "c \<in> set cs") (auto simp: jt)
  ultimately show ?thesis by blast
qed

lemma children_done_inv:
  assumes ok: "item_ok T item" and inv: "dag_inv P item D v" and t: "t \<in> set (item_ids item)" "t \<notin> D"
    and S: "set cs = children (set (item_edges item)) t" "distinct cs"
    and cd: "children_done (cx_job_id (bi_ctx item)) (\<lambda>c. int (remaining (set (item_edges item)) D c)) cs v v'"
  shows "dag_inv P item (insert t D) (v'(Children t := None)) \<and>
         map snd (stream_at v' kErrors) = map snd (stream_at v kErrors)"
proof -
  let ?E = "set (item_edges item)" and ?job = "cx_job_id (bi_ctx item)" and ?ids = "set (item_ids item)"
  let ?v = "v'(Children t := None)"
  have sub: "set cs \<subseteq> ?ids" using item_edges_sub [OF ok] by (auto simp: S children_def)
  have "child_errors ?job v (\<lambda>c. int (remaining ?E D c)) c = []" if "c \<in> set cs" for c
    using dag_inv_meta [OF inv subsetD [OF sub that]] child_remaining(1) [OF S(1) t(2) that]
    by (auto simp: child_errors_def)
  then have errs: "map snd (stream_at v' kErrors) = map snd (stream_at v kErrors)"
    using cd by (simp add: children_done_def)
  have keys: "dag_keys_ok ?job ?v"
    using cd by (simp add: children_done_def dag_keys_ok_def)
  have other: "?v k = v k" if "k \<notin> {DependencyHash ?job, kTasks, kErrors, Children t}" for k
    using cd that by (simp add: children_done_def)
  have ch: "?v (Children p) = (if p \<in> insert t D \<or> children ?E p = {} then None else Some (RSet (children ?E p)))"
    if "p \<in> ?ids" for p
  proof (cases "p = t")
    case False
    then have "?v (Children p) = v (Children p)" by (intro other) simp
    with inv that False show ?thesis by (simp add: dag_inv_def Let_def)
  qed simp
  have mt: "\<forall>u \<in> set (pr_tasks (bi_req item)). ?v (TaskMeta (uuid_of item (p_natural_id u))) =
      Some (RStr (pb_serialize P (internal_task (bi_ctx item) u (uuid_of item (p_natural_id u)))))"
    using inv other by (simp add: dag_inv_def Let_def)
  have hash: "hash_at ?v (DependencyHash ?job) f = (if f \<in> ?ids \<and> remaining ?E (insert t D) f > 0
      then Some (int_str (int (remaining ?E (insert t D) f))) else None)" for f
    using children_done_hash [OF inv t(2) S(1) sub cd] by simp
  have jobs: "job_tasks ?job ?v = job_tasks ?job v'" by (simp add: job_tasks_def)
  show ?thesis
    using keys ch hash mt errs children_done_tasks [OF inv t(2) S(1) sub S(2) cd]
    unfolding dag_inv_def Let_def jobs by blast
qed

lemma children_done_frame:
  assumes "children_done j n cs v v'" "j \<noteq> cx_job_id (bi_ctx a)" "t \<notin> set (item_ids a)"
    and "dag_inv P a D v"
  shows "dag_inv P a D (v'(Children t := None))"
proof (rule dag_inv_frame [OF assms(4) refl])
  let ?v = "v'(Children t := None)" and ?job = "cx_job_id (bi_ctx a)"
  have other: "?v k = v k" if "k \<notin> {DependencyHash j, kTasks, kErrors, Children t}" for k
    using assms(1) that by (simp add: children_done_def)
  show "?v (DependencyHash ?job) = v (DependencyHash ?job)"
    using assms(2) by (intro other) simp
  show "\<forall>p \<in> set (item_ids a). ?v (Children p) = v (Children p) \<and> ?v (TaskMeta p) = v (TaskMeta p)"
  proof (intro ballI conjI)
    fix p assume "p \<in> set (item_ids a)"
    then show "?v (Children p) = v (Children p)" using assms(3) by (intro other) auto
    show "?v (TaskMeta p) = v (TaskMeta p)" by (intro other) simp
  qed
  show "is_stream ?v kTasks" "is_stream ?v kErrors"
    using assms(1) by (simp_all add: children_done_def dag_keys_ok_def)
  show "job_tasks ?job ?v = job_tasks ?job v"
    using assms(1,2) by (simp add: job_tasks_def children_done_def)
qed

definition errors_of :: "keyspace \<Rightarrow> fields list" where
  "errors_of v = map snd (stream_at v kErrors)"

text \<open>
  The same keyspace with another list of entries on the task stream. What a job's keys mean does
  not depend on entries that are put on the stream again when a task is retried, so the lemmas are
  stated for any list that stands for the entries put there by the layout and the script.
\<close>

definition with_log :: "fields list \<Rightarrow> keyspace \<Rightarrow> keyspace" where
  "with_log fs v = v(kTasks \<mapsto> RStream (map (Pair []) fs))"

lemma with_log_other [simp]: "k \<noteq> kTasks \<Longrightarrow> with_log fs v k = v k"
  by (simp add: with_log_def)

lemma with_log_at [simp]:
  "stream_at (with_log fs v) kTasks = map (Pair []) fs" "is_stream (with_log fs v) kTasks"
  "k \<noteq> kTasks \<Longrightarrow> stream_at (with_log fs v) k = stream_at v k"
  "k \<noteq> kTasks \<Longrightarrow> is_stream (with_log fs v) k = is_stream v k"
  "k \<noteq> kTasks \<Longrightarrow> hash_at (with_log fs v) k = hash_at v k"
  "k \<noteq> kTasks \<Longrightarrow> is_hash (with_log fs v) k = is_hash v k"
  "job_tasks j (with_log fs v) = List.map_filter (job_entry j) fs"
  by (simp_all add: with_log_def stream_at_def is_stream_def hash_at_def is_hash_def job_tasks_def comp_def)

lemma with_log_upd: "k \<noteq> kTasks \<Longrightarrow> with_log fs (v(k := x)) = (with_log fs v)(k := x)"
  by (auto simp: with_log_def)

lemma dag_inv_own_log:
  "is_stream v kTasks \<Longrightarrow> dag_inv P a D (with_log (map snd (stream_at v kTasks)) v) = dag_inv P a D v"
  by (simp add: dag_inv_def Let_def dag_keys_ok_def) (simp add: job_tasks_def)

lemma children_done_with_log:
  assumes "children_done j n cs v v'"
  shows "children_done j n cs (with_log fs v)
    (with_log (fs @ map (ready_fields j) (filter (ready_child v n) cs)) v')"
proof -
  have "ready_child (with_log fs v) n = ready_child v n" "child_errors j (with_log fs v) n = child_errors j v n"
    by (simp_all add: fun_eq_iff ready_child_def child_errors_def)
  with assms show ?thesis by (simp add: children_done_def dag_keys_ok_def comp_def cong: if_cong)
qed

context redis_store
begin

text \<open>One run of the script for a task of one of the jobs.\<close>

text \<open>A task without children, or completed before, changes nothing; the count of a child that is
still waited for is a number the script can decrement.\<close>

lemma dag_inv_no_children:
  assumes "dag_inv P item D v" "t \<in> D \<or> children (set (item_edges item)) t = {}"
  shows "dag_inv P item (insert t D) v"
proof -
  have "remaining (set (item_edges item)) (insert t D) c = remaining (set (item_edges item)) D c" for c
    using assms(2) by (intro remaining_insert_other) (auto simp: children_def)
  moreover have "p \<in> insert t D \<or> children (set (item_edges item)) p = {} \<longleftrightarrow>
      p \<in> D \<or> children (set (item_edges item)) p = {}" for p
    using assms(2) by auto
  ultimately show ?thesis using assms(1) unfolding dag_inv_def Let_def by simp
qed

lemma child_count:
  assumes ok: "item_ok T item" and inv: "dag_inv P item D v"
    and c: "c \<in> children (set (item_edges item)) t" and t: "t \<notin> D"
  shows "hash_int v (DependencyHash (cx_job_id (bi_ctx item))) c (int (remaining (set (item_edges item)) D c)) \<and>
     in_int64 (int (remaining (set (item_edges item)) D c) - 1)"
proof -
  have "c \<in> set (item_ids item)" using c item_edges_sub [OF ok] by (auto simp: children_def)
  moreover have "remaining (set (item_edges item)) D c > 0"
    using remaining_insert_child [of "set (item_edges item)" t c D] c t by (simp add: children_def)
  ultimately have "hash_at v (DependencyHash (cx_job_id (bi_ctx item))) c =
      Some (int_str (int (remaining (set (item_edges item)) D c)))"
    using inv by (simp add: dag_inv_def Let_def)
  moreover have "in_int64 (int (remaining (set (item_edges item)) D c) - 1)"
    using remaining_bound [OF ok, of D c] by (simp add: in_int64_def)
  ultimately show ?thesis by (simp add: hash_int_def)
qed

lemma complete_one_log:
  assumes "\<forall>a \<in> set batch. item_ok T a" "batch_apart batch" "up r" "is_stream (view r) kTasks"
    and inv: "\<forall>a \<in> set batch. dag_inv P a D (with_log fs (view r))"
    and item: "item \<in> set batch" "t \<in> set (item_ids item)"
  shows "\<exists>n r' cs. complete_one R (cx_job_id (bi_ctx item)) t r = (Inr n, r') \<and> up r' \<and>
     is_stream (view r') kTasks \<and> map snd (stream_at (view r') kTasks) =
       map snd (stream_at (view r) kTasks) @ map (ready_fields (cx_job_id (bi_ctx item))) cs \<and>
     (\<forall>a \<in> set batch. dag_inv P a (insert t D)
        (with_log (fs @ map (ready_fields (cx_job_id (bi_ctx item))) cs) (view r'))) \<and>
     errors_of (view r') = errors_of (view r) \<and>
     (\<forall>k. k \<notin> {DependencyHash (cx_job_id (bi_ctx item)), kTasks, kErrors, Children t} \<longrightarrow> view r' k = view r k)"
proof -
  let ?E = "set (item_edges item)" and ?job = "cx_job_id (bi_ctx item)"
  let ?n = "\<lambda>c. int (remaining ?E D c)" and ?v = "with_log fs (view r)"
  have ok: "item_ok T item" and i: "dag_inv P item D ?v" using assms(1) inv item by auto
  have others: "cx_job_id (bi_ctx a) \<noteq> ?job \<and> t \<notin> set (item_ids a)" if "a \<in> set batch" "a \<noteq> item" for a
    using batch_apart_mem [OF assms(2) that(1) item(1) that(2)] item(2) by (auto simp: apart_def)
  have rest: "dag_inv P a (insert t D) v" if "a \<in> set batch" "a \<noteq> item" "dag_inv P a D v" for a v
    using that assms(1) others by (intro dag_inv_insert_other [where T = T]) auto
  have ch: "view r (Children t) = (if t \<in> D \<or> children ?E t = {} then None else Some (RSet (children ?E t)))"
    using i item(2) by (simp add: dag_inv_def Let_def)
  show ?thesis
  proof (cases "t \<in> D \<or> children ?E t = {}")
    case True
    then obtain r' where r': "complete_one R ?job t r = (Inr 0, r')" "up r'" "view r' = view r"
      using script_without_children [OF assms(3), of t "DependencyHash ?job" kTasks kErrors ?job]
      unfolding ch complete_one_def by auto
    have "dag_inv P a (insert t D) ?v" if "a \<in> set batch" for a
      using dag_inv_no_children [OF i True] rest that inv by (cases "a = item") auto
    with r' assms(4) show ?thesis by (intro exI [of _ 0] exI [of _ r'] exI [of _ "[]"]) simp
  next
    case False
    then have t: "t \<notin> D" and S: "view r (Children t) = Some (RSet (children ?E t))" "children ?E t \<noteq> {}"
      using ch by auto
    have keys: "dag_keys_ok ?job (view r)" using i assms(4) by (simp add: dag_inv_def Let_def dag_keys_ok_def)
    have cnt: "hash_int (view r) (DependencyHash ?job) c (?n c) \<and> in_int64 (?n c - 1)" if "c \<in> children ?E t" for c
      using child_count [OF ok i that t] by (simp add: hash_int_def)
    obtain cs r' v' where s:
      "complete_task R (Children t) (DependencyHash ?job) kTasks kErrors ?job r =
         (Inr (int (length (filter (ready_child (view r) ?n) cs))), r')"
      "up r'" "distinct cs" "set cs = children ?E t" "children_done ?job ?n cs (view r) v'"
      "view r' = v'(Children t := None)"
      using script_with_children [OF assms(3) keys S cnt] by blast
    let ?new = "filter (ready_child (view r) ?n) cs"
    let ?fs = "fs @ map (ready_fields ?job) ?new"
    note cd = children_done_with_log [OF s(5), of fs]
    note done_item = children_done_inv [OF ok i item(2) t s(4) s(3) cd]
    have w: "with_log ?fs (view r') = (with_log ?fs v')(Children t := None)" by (simp add: s(6) with_log_upd)
    have "dag_inv P a (insert t D) (with_log ?fs (view r'))" if a: "a \<in> set batch" for a
    proof (cases "a = item")
      case False
      then have "dag_inv P a D (with_log ?fs (view r'))"
        unfolding w using children_done_frame [OF cd] others [OF a False] inv a by metis
      with a rest False show ?thesis by blast
    qed (use done_item w in simp)
    moreover have "errors_of (view r') = errors_of (view r)"
      using done_item by (simp add: errors_of_def s(6))
    moreover have "is_stream (view r') kTasks" "\<forall>k. k \<notin> {DependencyHash ?job, kTasks, kErrors, Children t} \<longrightarrow> view r' k = view r k"
      "map snd (stream_at (view r') kTasks) = map snd (stream_at (view r) kTasks) @ map (ready_fields ?job) ?new"
      using s(5) by (simp_all add: s(6) children_done_def dag_keys_ok_def)
    ultimately show ?thesis using s(1,2)
      by (intro exI [of _ "int (length ?new)"] exI [of _ r'] exI [of _ ?new]) (simp add: complete_one_def)
  qed
qed

lemma complete_one_inv:
  assumes "\<forall>a \<in> set batch. item_ok T a" "batch_apart batch" "up r"
    and inv: "\<forall>a \<in> set batch. dag_inv P a D (view r)"
    and item: "item \<in> set batch" "t \<in> set (item_ids item)"
  shows "\<exists>n r'. complete_one R (cx_job_id (bi_ctx item)) t r = (Inr n, r') \<and> up r' \<and>
     (\<forall>a \<in> set batch. dag_inv P a (insert t D) (view r')) \<and> errors_of (view r') = errors_of (view r)"
proof -
  have s: "is_stream (view r) kTasks" using inv item(1) by (auto simp: dag_inv_def Let_def dag_keys_ok_def)
  have "\<forall>a \<in> set batch. dag_inv P a D (with_log (map snd (stream_at (view r) kTasks)) (view r))"
    using inv by (simp add: dag_inv_own_log [OF s])
  from complete_one_log [OF assms(1-3) s this item] obtain n r' cs where
    r': "complete_one R (cx_job_id (bi_ctx item)) t r = (Inr n, r')" "up r'" "is_stream (view r') kTasks"
    "map snd (stream_at (view r') kTasks) = map snd (stream_at (view r) kTasks) @ map (ready_fields (cx_job_id (bi_ctx item))) cs"
    "\<forall>a \<in> set batch. dag_inv P a (insert t D)
       (with_log (map snd (stream_at (view r) kTasks) @ map (ready_fields (cx_job_id (bi_ctx item))) cs) (view r'))"
    "errors_of (view r') = errors_of (view r)"
    by blast
  with dag_inv_own_log [OF r'(3)] show ?thesis unfolding r'(4) [symmetric] by blast
qed

lemma complete_all_inv:
  assumes "\<forall>a \<in> set batch. item_ok T a" "batch_apart batch" "up r"
    and "\<forall>a \<in> set batch. dag_inv P a D (view r)"
    and "\<forall>(j, t) \<in> set acts. \<exists>item \<in> set batch. j = cx_job_id (bi_ctx item) \<and> t \<in> set (item_ids item)"
  shows "\<exists>ns r'. complete_all R acts r = (Inr ns, r') \<and> up r' \<and>
     (\<forall>a \<in> set batch. dag_inv P a (D \<union> snd ` set acts) (view r')) \<and> errors_of (view r') = errors_of (view r)"
  using assms(3-5)
proof (induction acts arbitrary: r D)
  case (Cons x acts)
  obtain j t where x: "x = (j, t)" by (cases x)
  obtain item where item: "item \<in> set batch" "j = cx_job_id (bi_ctx item)" "t \<in> set (item_ids item)"
    using Cons.prems(3) x by auto
  obtain n r1 where r1: "complete_one R j t r = (Inr n, r1)" "up r1"
    "\<forall>a \<in> set batch. dag_inv P a (insert t D) (view r1)" "errors_of (view r1) = errors_of (view r)"
    using complete_one_inv [OF assms(1,2) Cons.prems(1,2) item(1,3)] item(2) by blast
  have "\<forall>(j, t) \<in> set acts. \<exists>item \<in> set batch. j = cx_job_id (bi_ctx item) \<and> t \<in> set (item_ids item)"
    using Cons.prems(3) by simp
  from Cons.IH [OF r1(2,3) this] obtain ns r2 where r2: "complete_all R acts r1 = (Inr ns, r2)" "up r2"
    "\<forall>a \<in> set batch. dag_inv P a (insert t D \<union> snd ` set acts) (view r2)"
    "errors_of (view r2) = errors_of (view r1)"
    by blast
  with r1 show ?case by (auto simp: x)
qed auto

end

section \<open>Properties\<close>

text \<open>The hypotheses on a batch about to be sent: well formed, ids apart, keys not used before.\<close>

definition flow_ok :: "pg_types \<Rightarrow> BatchItem list \<Rightarrow> keyspace \<Rightarrow> bool" where
  "flow_ok T batch v \<longleftrightarrow> (\<forall>a \<in> set batch. item_ok T a) \<and> batch_apart batch \<and> base_ok v \<and>
     (\<forall>a \<in> set batch. dag_fresh a v)"

definition acts_of :: "BatchItem list \<Rightarrow> (string \<times> string) list \<Rightarrow> bool" where
  "acts_of batch acts \<longleftrightarrow>
     (\<forall>(j, t) \<in> set acts. \<exists>item \<in> set batch. j = cx_job_id (bi_ctx item) \<and> t \<in> set (item_ids item))"

text \<open>Send the batch, then run the script for each completion.\<close>

definition flow ::
  "pb_codec \<Rightarrow> 'r redis_ops \<Rightarrow> BatchItem list \<Rightarrow> (string \<times> string) list \<Rightarrow> 'r \<Rightarrow>
   (redis_err + int list) \<times> 'r"
where
  "flow P R batch acts r =
     (case append_items P batch of
        Inl x \<Rightarrow> (Inl (StdException ''unordered_map::at''), r)
      | Inr cmds \<Rightarrow>
          (case pipe_exec R None cmds r of (Inl e, r1) \<Rightarrow> (Inl e, r1) | (Inr _, r1) \<Rightarrow> complete_all R acts r1))"

lemma flow_inv:
  assumes "redis_store R view up" "flow_ok T batch (view r)" "up r" "acts_of batch acts"
  shows "\<exists>ns r'. flow P R batch acts r = (Inr ns, r') \<and> up r' \<and>
     (\<forall>a \<in> set batch. dag_inv P a (snd ` set acts) (view r')) \<and> errors_of (view r') = errors_of (view r)"
proof -
  note f = assms(2) [unfolded flow_ok_def]
  obtain cmds where c: "append_items P batch = Inr cmds" "up (exec_cmds R cmds r)"
    "view (exec_cmds R cmds r) kErrors = view r kErrors"
    "\<forall>item \<in> set batch. dag_inv P item {} (view (exec_cmds R cmds r))"
    using redis_store.exec_batch [OF assms(1), of batch T r P] f assms(3) by blast
  have e: "errors_of (view (exec_cmds R cmds r)) = errors_of (view r)"
    by (simp add: errors_of_def stream_at_def c(3))
  have "\<exists>ns r'. complete_all R acts (exec_cmds R cmds r) = (Inr ns, r') \<and> up r' \<and>
     (\<forall>a \<in> set batch. dag_inv P a ({} \<union> snd ` set acts) (view r')) \<and>
     errors_of (view r') = errors_of (view (exec_cmds R cmds r))"
    by (rule redis_store.complete_all_inv [OF assms(1)])
      (use f c assms(4) in \<open>auto simp: acts_of_def\<close>)
  with c(1) e show ?thesis
    by (simp add: flow_def pipe_exec_def exec_cmds_def [symmetric])
qed

lemma dag_inv_released:
  "dag_inv P item D v \<Longrightarrow> distinct (job_tasks (cx_job_id (bi_ctx item)) v) \<and>
   set (job_tasks (cx_job_id (bi_ctx item)) v) =
     {c \<in> set (item_ids item). \<forall>p. (p, c) \<in> set (item_edges item) \<longrightarrow> p \<in> D}"
  using remaining_0_iff [of "set (item_edges item)" D] by (simp add: dag_inv_def Let_def)

text \<open>
  C3. A task is released exactly when its parents are done, and once. Send any batch of well-formed
  requests to Redis and report completions of their tasks in any order, with repetitions and
  interleaved over the jobs: no step fails, nothing goes to the error stream, and for each request
  the entries on the task stream are, without repetition, exactly its tasks whose parents have all
  been reported complete. This holds for every server that obeys the command laws.
\<close>

theorem tasks_released_exactly_when_ready:
  assumes "redis_store R view up" "flow_ok T batch (view r)" "up r" "acts_of batch acts"
    and "item \<in> set batch"
  shows "\<exists>ns r'. flow P R batch acts r = (Inr ns, r') \<and> errors_of (view r') = errors_of (view r) \<and>
     distinct (job_tasks (cx_job_id (bi_ctx item)) (view r')) \<and>
     set (job_tasks (cx_job_id (bi_ctx item)) (view r')) =
       {c \<in> set (item_ids item). \<forall>p. (p, c) \<in> set (item_edges item) \<longrightarrow> p \<in> snd ` set acts}"
proof -
  obtain ns r' where f: "flow P R batch acts r = (Inr ns, r')"
    "\<forall>a \<in> set batch. dag_inv P a (snd ` set acts) (view r')" "errors_of (view r') = errors_of (view r)"
    using flow_inv [OF assms(1-4)] by blast
  with dag_inv_released [of P item "snd ` set acts" "view r'"] assms(5) show ?thesis
    by (intro exI [of _ ns] exI [of _ r']) simp
qed

text \<open>
  Progress. While an acyclic request has a task that has not completed, some task of it is on
  the stream and has not completed: a DAG never gets stuck between its tasks.
\<close>

theorem dag_never_stalls:
  assumes "redis_store R view up" "flow_ok T batch (view r)" "up r" "acts_of batch acts"
    and "item \<in> set batch" "acyclic (set (item_edges item))"
    and "\<not> set (item_ids item) \<subseteq> snd ` set acts"
    and "flow P R batch acts r = (Inr ns, r')"
  shows "\<exists>t \<in> set (job_tasks (cx_job_id (bi_ctx item)) (view r')). t \<notin> snd ` set acts"
proof -
  let ?E = "set (item_edges item)" and ?D = "snd ` set acts"
  have "dag_inv P item ?D (view r')"
    using flow_inv [OF assms(1-4), of P] assms(5,8) by auto
  then have rel: "set (job_tasks (cx_job_id (bi_ctx item)) (view r')) =
      {c \<in> set (item_ids item). \<forall>p. (p, c) \<in> ?E \<longrightarrow> p \<in> ?D}"
    using dag_inv_released by blast
  have "wf ?E" using assms(6) by (simp add: finite_acyclic_wf)
  moreover obtain x where "x \<in> set (item_ids item) - ?D" using assms(7) by blast
  ultimately obtain c where c: "c \<in> set (item_ids item) - ?D" "\<And>p. (p, c) \<in> ?E \<Longrightarrow> p \<notin> set (item_ids item) - ?D"
    by (meson wfE_min)
  have "p \<in> ?D" if "(p, c) \<in> ?E" for p
    using c(2) [OF that] that item_edges_sub [of T item] assms(2,5) by (auto simp: flow_ok_def)
  with c(1) rel show ?thesis by blast
qed

text \<open>
  Reporting the same success twice is harmless: the second report releases nothing and leaves
  the whole keyspace as it was.
\<close>

theorem repeated_completion_is_noop:
  assumes "redis_store R view up" "flow_ok T batch (view r)" "up r" "acts_of batch acts"
    and "item \<in> set batch" "t \<in> set (item_ids item)" "t \<in> snd ` set acts"
    and "flow P R batch acts r = (Inr ns, r')"
  shows "\<exists>r''. complete_one R (cx_job_id (bi_ctx item)) t r' = (Inr 0, r'') \<and> view r'' = view r'"
proof -
  have "dag_inv P item (snd ` set acts) (view r')" "up r'"
    using flow_inv [OF assms(1-4), of P] assms(5,8) by auto
  then have "view r' (Children t) = None"
    using assms(6,7) by (simp add: dag_inv_def Let_def)
  from redis_store.script_without_children [OF assms(1) \<open>up r'\<close> this] show ?thesis
    unfolding complete_one_def by blast
qed

section \<open>The properties on concrete requests\<close>

lemma mk_items_flow_ok:
  assumes "\<forall>q \<in> set qs. req_ok T q" "inj gen" "\<And>n. pg_uuid_ok T (gen n)" "\<And>n. gen n \<noteq> []"
  shows "flow_ok T (mk_items gen n qs) (\<lambda>_. None)"
proof -
  have "\<forall>q \<in> set qs. distinct (natural_ids q)" using assms(1) by (simp add: req_ok_def)
  then have "batch_apart (mk_items gen n qs)"
    using mk_items_ids [of qs n gen] assms(2) unfolding batch_apart_def by blast
  moreover have "\<forall>item \<in> set (mk_items gen n qs). item_ok T item"
    using assms by (intro mk_items_ok mk_item_ok) auto
  ultimately show ?thesis
    by (simp add: flow_ok_def base_ok_def dag_fresh_def is_set_def is_stream_def job_tasks_def
        stream_at_def map_filter_simps)
qed

lemma ms_view_empty: "ms_view ms_empty = (\<lambda>_. None)"
  by (simp add: ms_view_def ms_empty_def fun_eq_iff)

abbreviation sample_batch :: "BatchItem list" where
  "sample_batch \<equiv> mk_items sample_gen 0 [sample_req ''k1'', sample_req ''k2'']"

lemma sample_flow_ok: "flow_ok sample_types sample_batch (ms_view ms_empty)"
  unfolding ms_view_empty
  by (rule mk_items_flow_ok [OF _ sample_gen_inj]) (simp_all add: sample_gen_def)

definition sample_item :: BatchItem where
  "sample_item = mk_item sample_gen 0 (sample_req ''k1'')"

lemma sample_item_facts:
  "sample_item \<in> set sample_batch" "item_ids sample_item = [sample_gen 1, sample_gen 2]"
  "item_edges sample_item = [(sample_gen 1, sample_gen 2)]" "cx_job_id (bi_ctx sample_item) = sample_gen 0"
  by (simp_all add: sample_item_def mk_item_def item_ids_def natural_ids_def item_edges_def
      sample_req_def sample_pb_task_def uuid_of_def numeral_2_eq_2)

lemma sample_gen_eq [simp]: "sample_gen i = sample_gen j \<longleftrightarrow> i = j"
  using sample_gen_inj by (metis injD)

lemma sample_acts: "acts_of sample_batch [(sample_gen 0, sample_gen 1)]"
  using sample_item_facts by (auto simp: acts_of_def)

theorem tasks_released_exactly_when_ready_witness:
  "\<exists>ns r'. flow sample_codec ref_ops sample_batch [(sample_gen 0, sample_gen 1)] ms_empty = (Inr ns, r') \<and>
     set (job_tasks (sample_gen 0) (ms_view r')) = {sample_gen 1, sample_gen 2}"
proof -
  obtain ns r' where f: "flow sample_codec ref_ops sample_batch [(sample_gen 0, sample_gen 1)] ms_empty = (Inr ns, r')"
    "set (job_tasks (cx_job_id (bi_ctx sample_item)) (ms_view r')) =
       {c \<in> set (item_ids sample_item). \<forall>p. (p, c) \<in> set (item_edges sample_item) \<longrightarrow>
          p \<in> snd ` set [(sample_gen 0, sample_gen 1)]}"
    using tasks_released_exactly_when_ready [OF mem.redis_store_axioms sample_flow_ok ms_up_empty
        sample_acts sample_item_facts(1), of sample_codec]
    by blast
  then show ?thesis
    by (intro exI [of _ ns] exI [of _ r']) (auto simp: sample_item_facts)
qed

theorem dag_never_stalls_witness:
  "\<exists>ns r' t. flow sample_codec ref_ops sample_batch [(sample_gen 0, sample_gen 1)] ms_empty = (Inr ns, r') \<and>
     t \<in> set (job_tasks (sample_gen 0) (ms_view r')) \<and> t \<noteq> sample_gen 1"
proof -
  obtain ns r' where f: "flow sample_codec ref_ops sample_batch [(sample_gen 0, sample_gen 1)] ms_empty = (Inr ns, r')"
    using flow_inv [OF mem.redis_store_axioms sample_flow_ok ms_up_empty sample_acts] by blast
  have "\<exists>t \<in> set (job_tasks (cx_job_id (bi_ctx sample_item)) (ms_view r')).
      t \<notin> snd ` set [(sample_gen 0, sample_gen 1)]"
    by (rule dag_never_stalls [OF mem.redis_store_axioms sample_flow_ok ms_up_empty sample_acts
          sample_item_facts(1) _ _ f])
      (simp_all add: sample_item_facts acyclic_def trancl_insert)
  with f show ?thesis by (auto simp: sample_item_facts)
qed

theorem repeated_completion_is_noop_witness:
  "\<exists>ns r' r''. flow sample_codec ref_ops sample_batch [(sample_gen 0, sample_gen 1)] ms_empty = (Inr ns, r') \<and>
     complete_one ref_ops (sample_gen 0) (sample_gen 1) r' = (Inr 0, r'') \<and> ms_view r'' = ms_view r'"
proof -
  obtain ns r' where f: "flow sample_codec ref_ops sample_batch [(sample_gen 0, sample_gen 1)] ms_empty = (Inr ns, r')"
    using flow_inv [OF mem.redis_store_axioms sample_flow_ok ms_up_empty sample_acts] by blast
  have "\<exists>r''. complete_one ref_ops (cx_job_id (bi_ctx sample_item)) (sample_gen 1) r' = (Inr 0, r'') \<and>
      ms_view r'' = ms_view r'"
    by (rule repeated_completion_is_noop [OF mem.redis_store_axioms sample_flow_ok ms_up_empty sample_acts
          sample_item_facts(1) _ _ f])
      (simp_all add: sample_item_facts)
  with f show ?thesis by (auto simp: sample_item_facts)
qed

section \<open>A repeated edge\<close>

text \<open>The request of the samples with its edge given twice.\<close>

definition twice_req :: PbSubmitDagRequest where
  "twice_req = (sample_req ''k'')\<lparr>pr_edges :=
     [\<lparr>parent_natural_id = ''x'', child_natural_id = ''y''\<rparr>,
      \<lparr>parent_natural_id = ''x'', child_natural_id = ''y''\<rparr>]\<rparr>"


end
