(* ===== verification/Dag_Execution.thy ===== *)
theory Dag_Execution
  imports Dag_Run
begin

text \<open>
  A batch worked off to its end: workers take any task that is on the stream and has not completed,
  in any order and over all jobs, and report its success. This composes the layout of the batch in
  Redis (\<open>task_submitter.cpp\<close>) with the completion script (\<open>complete_task.hpp\<close>).
\<close>

section \<open>Working off\<close>

inductive work_off ::
  "'r redis_ops \<Rightarrow> ('r \<Rightarrow> keyspace) \<Rightarrow> BatchItem list \<Rightarrow> (string \<times> string) list \<times> 'r \<Rightarrow> (string \<times> string) list \<times> 'r \<Rightarrow> bool"
  for R view batch where
  complete: "item \<in> set batch \<Longrightarrow> job = cx_job_id (bi_ctx item) \<Longrightarrow> t \<in> set (job_tasks job (view r)) \<Longrightarrow>
    t \<notin> snd ` set acts \<Longrightarrow> complete_one R job t r = (Inr n, r') \<Longrightarrow>
    work_off R view batch (acts, r) (acts @ [(job, t)], r')"

inductive_cases work_offE: "work_off R view batch (acts, r) s"

text \<open>Every completion comes after those of the task's parents.\<close>

definition parents_first :: "BatchItem list \<Rightarrow> (string \<times> string) list \<Rightarrow> bool" where
  "parents_first batch acts \<longleftrightarrow>
     (\<forall>i < length acts. \<forall>item \<in> set batch. \<forall>p. (p, snd (acts ! i)) \<in> set (item_edges item) \<longrightarrow> p \<in> snd ` set (take i acts))"

lemma parents_first_snoc:
  "parents_first batch (acts @ [a]) \<longleftrightarrow> parents_first batch acts \<and>
     (\<forall>item \<in> set batch. \<forall>p. (p, snd a) \<in> set (item_edges item) \<longrightarrow> p \<in> snd ` set acts)"
  by (auto simp: parents_first_def nth_append less_Suc_eq)

definition working_ok :: "pb_codec \<Rightarrow> ('r \<Rightarrow> keyspace) \<Rightarrow> ('r \<Rightarrow> bool) \<Rightarrow> BatchItem list \<Rightarrow> (string \<times> string) list \<times> 'r \<Rightarrow> bool" where
  "working_ok P view up batch = (\<lambda>(acts, r). up r \<and> (\<forall>a \<in> set batch. dag_inv P a (snd ` set acts) (view r)) \<and>
     snd ` set acts \<subseteq> (\<Union>item \<in> set batch. set (item_ids item)) \<and> distinct (map snd acts) \<and> parents_first batch acts)"

text \<open>An edge belongs to the request of its child.\<close>

lemma edge_owner:
  assumes "batch_apart batch" "\<forall>a \<in> set batch. item_ok T a" "item \<in> set batch" "item2 \<in> set batch"
    and "c \<in> set (item_ids item)" "(p, c) \<in> set (item_edges item2)"
  shows "(p, c) \<in> set (item_edges item)"
proof -
  have "c \<in> set (item_ids item2)" using item_edges_sub [of T item2] assms(2,4,6) by auto
  then have "item2 = item" using batch_apart_mem [OF assms(1,3,4)] assms(5) by (auto simp: apart_def)
  with assms(6) show ?thesis by simp
qed

context redis_store
begin

lemma work_off_ok:
  assumes "batch_apart batch" "\<forall>a \<in> set batch. item_ok T a" "working_ok P view up batch s" "work_off R view batch s s'"
  shows "working_ok P view up batch s'"
proof -
  obtain acts r where s: "s = (acts, r)" by (cases s)
  from assms(4) [unfolded s] obtain item t n r' where t: "item \<in> set batch" "t \<in> set (job_tasks (cx_job_id (bi_ctx item)) (view r))"
    "t \<notin> snd ` set acts" "complete_one R (cx_job_id (bi_ctx item)) t r = (Inr n, r')"
    "s' = (acts @ [(cx_job_id (bi_ctx item), t)], r')"
    by (elim work_offE) blast
  have ok: "up r" "\<forall>a \<in> set batch. dag_inv P a (snd ` set acts) (view r)" using assms(3) by (auto simp: working_ok_def s)
  have rel: "t \<in> set (item_ids item)" "\<forall>p. (p, t) \<in> set (item_edges item) \<longrightarrow> p \<in> snd ` set acts"
    using dag_inv_released [of P item "snd ` set acts" "view r"] ok(2) t(1,2) by auto
  obtain n2 r2 where "complete_one R (cx_job_id (bi_ctx item)) t r = (Inr n2, r2)" "up r2"
    "\<forall>a \<in> set batch. dag_inv P a (insert t (snd ` set acts)) (view r2)"
    using complete_one_inv [OF assms(2,1) ok t(1) rel(1)] by blast
  moreover have "parents_first batch (acts @ [(cx_job_id (bi_ctx item), t)])"
    using assms(3) rel(2) edge_owner [OF assms(1,2) t(1) _ rel(1)] by (auto simp: working_ok_def s parents_first_snoc)
  ultimately show ?thesis using assms(3) t rel(1) by (auto simp: working_ok_def s)
qed

lemma work_off_can_go_on:
  assumes "batch_apart batch" "\<forall>a \<in> set batch. item_ok T a" "working_ok P view up batch (acts, r)"
    and "item \<in> set batch" "acyclic (set (item_edges item))" "\<not> set (item_ids item) \<subseteq> snd ` set acts"
  shows "\<exists>s'. work_off R view batch (acts, r) s'"
proof -
  let ?E = "set (item_edges item)" and ?D = "snd ` set acts"
  have ok: "up r" "\<forall>a \<in> set batch. dag_inv P a ?D (view r)" using assms(3) by (auto simp: working_ok_def)
  have rel: "set (job_tasks (cx_job_id (bi_ctx item)) (view r)) = {c \<in> set (item_ids item). \<forall>p. (p, c) \<in> ?E \<longrightarrow> p \<in> ?D}"
    using dag_inv_released [of P item ?D "view r"] ok(2) assms(4) by blast
  have "wf ?E" using assms(5) by (simp add: finite_acyclic_wf)
  moreover obtain x where "x \<in> set (item_ids item) - ?D" using assms(6) by blast
  ultimately obtain c where c: "c \<in> set (item_ids item) - ?D" "\<And>p. (p, c) \<in> ?E \<Longrightarrow> p \<notin> set (item_ids item) - ?D"
    by (meson wfE_min)
  have "p \<in> ?D" if "(p, c) \<in> ?E" for p
    using c(2) [OF that] that item_edges_sub [of T item] assms(2,4) by auto
  with c(1) rel have "c \<in> set (job_tasks (cx_job_id (bi_ctx item)) (view r))" by blast
  moreover obtain n r' where "complete_one R (cx_job_id (bi_ctx item)) c r = (Inr n, r')"
    using complete_one_inv [OF assms(2,1) ok assms(4)] c(1) by blast
  ultimately show ?thesis using complete [of item batch _ c view r acts R n r'] assms(4) c(1) by blast
qed

end

section \<open>Properties\<close>

text \<open>
  C4. Acyclic requests are worked off completely. Send any batch of well-formed acyclic requests to
  Redis and let workers complete released tasks in any order: no task completes before its parents or
  twice, and the work stops exactly when every task of the batch has completed, which therefore
  takes as many completions as there are tasks.
\<close>

theorem batch_worked_off:
  assumes "redis_store R view up" "flow_ok T batch (view r)" "up r" "\<forall>item \<in> set batch. acyclic (set (item_edges item))"
    and "flow P R batch [] r = (Inr ns, r0)" "(work_off R view batch)\<^sup>*\<^sup>* ([], r0) (acts, r')"
  shows "distinct (map snd acts) \<and> parents_first batch acts \<and> length acts \<le> card (\<Union>item \<in> set batch. set (item_ids item)) \<and>
     ((\<nexists>s. work_off R view batch (acts, r') s) \<longleftrightarrow> snd ` set acts = (\<Union>item \<in> set batch. set (item_ids item)))"
proof -
  let ?all = "\<Union>item \<in> set batch. set (item_ids item)"
  have f: "\<forall>a \<in> set batch. item_ok T a" "batch_apart batch" using assms(2) by (auto simp: flow_ok_def)
  have "acts_of batch []" by (simp add: acts_of_def)
  from flow_inv [OF assms(1-3) this, of P] assms(5)
  have start: "working_ok P view up batch ([], r0)" by (simp add: working_ok_def parents_first_def)
  have "working_ok P view up batch (acts, r')"
    using assms(6)
  proof (induction rule: rtranclp_induct)
    case base
    show ?case by (rule start)
  next
    case (step s s')
    show ?case by (rule redis_store.work_off_ok [OF assms(1) f(2,1) step.IH step.hyps(2)])
  qed
  note ok = this [unfolded working_ok_def prod.case]
  have fin: "finite ?all" by simp
  have len: "length acts = card (snd ` set acts)"
    using ok by (metis distinct_card length_map set_map)
  have more: "\<exists>s. work_off R view batch (acts, r') s" if "snd ` set acts \<noteq> ?all"
  proof -
    obtain item where "item \<in> set batch" "\<not> set (item_ids item) \<subseteq> snd ` set acts" using \<open>snd ` set acts \<noteq> ?all\<close> ok by blast
    then show ?thesis
      using redis_store.work_off_can_go_on [OF assms(1) f(2,1) \<open>working_ok P view up batch (acts, r')\<close>] assms(4) by blast
  qed
  have none: "\<not> work_off R view batch (acts, r') s" if "snd ` set acts = ?all" for s
  proof
    assume "work_off R view batch (acts, r') s"
    then obtain item t where "item \<in> set batch" "t \<in> set (job_tasks (cx_job_id (bi_ctx item)) (view r'))" "t \<notin> snd ` set acts"
      by (elim work_offE) blast
    moreover from this have "t \<in> set (item_ids item)"
      using dag_inv_released [of P item "snd ` set acts" "view r'"] ok by auto
    ultimately show False using that by blast
  qed
  have "length acts \<le> card ?all" unfolding len using ok fin by (intro card_mono) auto
  moreover have "(\<nexists>s. work_off R view batch (acts, r') s) \<longleftrightarrow> snd ` set acts = ?all" using more none by metis
  ultimately show ?thesis using ok by simp
qed

theorem batch_worked_off_witness:
  "\<exists>ns r0. flow sample_codec ref_ops sample_batch [] ms_empty = (Inr ns, r0) \<and>
     (\<exists>s. work_off ref_ops ms_view sample_batch ([], r0) s)"
proof -
  have "acts_of sample_batch []" by (simp add: acts_of_def)
  from flow_inv [OF mem.redis_store_axioms sample_flow_ok ms_up_empty this]
  obtain ns r0 where f: "flow sample_codec ref_ops sample_batch [] ms_empty = (Inr ns, r0)" by blast
  have "\<forall>item \<in> set sample_batch. acyclic (set (item_edges item))"
    by (auto simp: acyclic_def trancl_insert mk_item_def item_ids_def natural_ids_def item_edges_def sample_req_def
        sample_pb_task_def uuid_of_def)
  from batch_worked_off [OF mem.redis_store_axioms sample_flow_ok ms_up_empty this f rtranclp.rtrancl_refl] f
  show ?thesis using sample_item_facts(1,2) by fastforce
qed

end
