(* ===== verification/Worker_Manager.thy ===== *)
theory Worker_Manager
  imports Dts_Prelude
begin

text \<open>
  \<open>src/scheduler/src/worker_manager.cpp\<close>: the scheduler's table of workers. Every operation
  takes the manager's mutex for its whole effect, so each is one function on the table. Times are
  \<open>system_clock\<close> readings in nanoseconds, passed in as \<open>now\<close>; the clock may step back. The
  running-task counter is an \<open>int32_t\<close>, and \<open>std::sort\<close> (which is not stable) is a
  parameter with the two laws of the locale \<open>sorts_by\<close>.
\<close>

section \<open>Sorting\<close>

locale sorts_by =
  fixes key :: "'a \<Rightarrow> 'k :: linorder"
    and srt :: "'a list \<Rightarrow> 'a list"
  assumes mset_srt: "mset (srt xs) = mset xs"
    and sorted_srt: "sorted (map key (srt xs))"
begin

lemma set_srt: "set (srt xs) = set xs"
  by (metis mset_srt set_mset_mset)

lemma srt_eq_Nil_iff: "srt xs = [] \<longleftrightarrow> xs = []"
  by (metis mset_srt mset_zero_iff)

lemma srt_Cons_least: "srt xs = y # ys \<Longrightarrow> x \<in> set xs \<Longrightarrow> key y \<le> key x"
  using sorted_srt [of xs] set_srt [of xs] by auto

end

section \<open>The table\<close>

record WorkerInfo =
  wi_worker_id :: string
  wi_address :: string
  wi_last_heartbeat_time :: int
  wi_running_task_count :: "32 word"
  wi_cpu_usage :: "32 word"

record WorkerManager =
  wm_workers :: "(string, WorkerInfo) omap"
  wm_worker_timeout :: int

record HeartbeatRequest =
  hb_worker_id :: string
  hb_running_task_count :: "32 word"
  hb_cpu_usage_percent :: "32 word"

definition new_WorkerInfo :: "int \<Rightarrow> string \<Rightarrow> string \<Rightarrow> WorkerInfo" where
  "new_WorkerInfo now i addr =
     \<lparr>wi_worker_id = i, wi_address = addr, wi_last_heartbeat_time = now,
      wi_running_task_count = 0, wi_cpu_usage = 0\<rparr>"

definition new_WorkerManager :: "int \<Rightarrow> WorkerManager" where
  "new_WorkerManager timeout = \<lparr>wm_workers = [], wm_worker_timeout = timeout\<rparr>"

definition load :: "WorkerInfo \<Rightarrow> int" where
  "load w = sint (wi_running_task_count w)"

text \<open>\<open>std::chrono::seconds\<close> against a difference of nanoseconds.\<close>

definition timed_out :: "WorkerManager \<Rightarrow> int \<Rightarrow> WorkerInfo \<Rightarrow> bool" where
  "timed_out m now w \<longleftrightarrow> now - wi_last_heartbeat_time w > wm_worker_timeout m * 1000000000"

section \<open>Operations\<close>

definition HandleRegister :: "int \<Rightarrow> string \<Rightarrow> string \<Rightarrow> WorkerManager \<Rightarrow> WorkerManager" where
  "HandleRegister now worker_id address m =
     (case map_of (wm_workers m) worker_id of
        Some w \<Rightarrow>
          m\<lparr>wm_workers := omap_put worker_id
              (w\<lparr>wi_address := address, wi_last_heartbeat_time := now,
                 wi_running_task_count := 0\<rparr>) (wm_workers m)\<rparr>
      | None \<Rightarrow>
          m\<lparr>wm_workers := omap_put worker_id (new_WorkerInfo now worker_id address) (wm_workers m)\<rparr>)"

definition HandleHeartbeat :: "int \<Rightarrow> HeartbeatRequest \<Rightarrow> WorkerManager \<Rightarrow> bool \<times> WorkerManager" where
  "HandleHeartbeat now request m =
     (case map_of (wm_workers m) (hb_worker_id request) of
        None \<Rightarrow> (False, m)
      | Some w \<Rightarrow>
          (True, m\<lparr>wm_workers := omap_put (hb_worker_id request)
              (w\<lparr>wi_last_heartbeat_time := now,
                 wi_running_task_count := hb_running_task_count request\<rparr>) (wm_workers m)\<rparr>))"

text \<open>The loop that copies the workers that have not timed out.\<close>

fun copy_available :: "WorkerManager \<Rightarrow> int \<Rightarrow> (string, WorkerInfo) omap \<Rightarrow> WorkerInfo list" where
  "copy_available m now [] = []"
| "copy_available m now ((i, w) # ws) =
     (if timed_out m now w then copy_available m now ws else w # copy_available m now ws)"

definition GetAvailableWorkersSorted ::
  "(WorkerInfo list \<Rightarrow> WorkerInfo list) \<Rightarrow> int \<Rightarrow> WorkerManager \<Rightarrow> WorkerInfo list" where
  "GetAvailableWorkersSorted srt now m = srt (copy_available m now (wm_workers m))"

text \<open>The erase loop: the ids erased, in key order, and the entries left.\<close>

fun prune_loop ::
  "WorkerManager \<Rightarrow> int \<Rightarrow> (string, WorkerInfo) omap \<Rightarrow> string list \<times> (string, WorkerInfo) omap"
where
  "prune_loop m now [] = ([], [])"
| "prune_loop m now ((i, w) # ws) =
     (let (dead, rest) = prune_loop m now ws
      in if timed_out m now w then (i # dead, rest) else (dead, (i, w) # rest))"

definition PruneDeadWorkers :: "int \<Rightarrow> WorkerManager \<Rightarrow> string list \<times> WorkerManager" where
  "PruneDeadWorkers now m =
     (let (dead, rest) = prune_loop m now (wm_workers m) in (dead, m\<lparr>wm_workers := rest\<rparr>))"

definition PrebookTask :: "string \<Rightarrow> 32 word \<Rightarrow> WorkerManager \<Rightarrow> WorkerManager" where
  "PrebookTask worker_id n m =
     (case map_of (wm_workers m) worker_id of
        None \<Rightarrow> m
      | Some w \<Rightarrow>
          m\<lparr>wm_workers := omap_put worker_id
              (w\<lparr>wi_running_task_count := wi_running_task_count w + n\<rparr>) (wm_workers m)\<rparr>)"

section \<open>Invariant\<close>

definition wm_ok :: "WorkerManager \<Rightarrow> bool" where
  "wm_ok m \<longleftrightarrow> omap_ok (wm_workers m) \<and>
     (\<forall>i w. map_of (wm_workers m) i = Some w \<longrightarrow> wi_worker_id w = i)"

lemma copy_available_filter:
  "copy_available m now ws = map snd (filter (\<lambda>(i, w). \<not> timed_out m now w) ws)"
  by (induction ws) (auto split: prod.splits)

lemma prune_loop_filter:
  "prune_loop m now ws =
     (map fst (filter (\<lambda>(i, w). timed_out m now w) ws), filter (\<lambda>(i, w). \<not> timed_out m now w) ws)"
  by (induction ws) (auto split: prod.splits)

lemma PruneDeadWorkers_workers:
  assumes "omap_ok (wm_workers m)"
  shows "map_of (wm_workers (snd (PruneDeadWorkers now m))) i =
           (case map_of (wm_workers m) i of
              None \<Rightarrow> None | Some w \<Rightarrow> if timed_out m now w then None else Some w)"
  using map_of_filter_val [OF omap_ok_distinct [OF assms], of "\<lambda>w. \<not> timed_out m now w" i]
  by (simp add: PruneDeadWorkers_def prune_loop_filter split: option.split)

lemma PruneDeadWorkers_dead:
  assumes "omap_ok (wm_workers m)"
  shows "i \<in> set (fst (PruneDeadWorkers now m)) \<longleftrightarrow>
           (\<exists>w. map_of (wm_workers m) i = Some w \<and> timed_out m now w)"
  using assms by (force simp: PruneDeadWorkers_def prune_loop_filter omap_mem_iff [symmetric])

lemma wm_ok_new [simp]: "wm_ok (new_WorkerManager t)"
  by (simp add: wm_ok_def new_WorkerManager_def)

lemma wm_ok_HandleRegister: "wm_ok m \<Longrightarrow> wm_ok (HandleRegister now i a m)"
  by (auto simp: wm_ok_def HandleRegister_def new_WorkerInfo_def split: option.split)

lemma wm_ok_HandleHeartbeat: "wm_ok m \<Longrightarrow> wm_ok (snd (HandleHeartbeat now r m))"
  by (auto simp: wm_ok_def HandleHeartbeat_def split: option.split)

lemma wm_ok_PrebookTask: "wm_ok m \<Longrightarrow> wm_ok (PrebookTask i c m)"
  by (auto simp: wm_ok_def PrebookTask_def split: option.split)

lemma wm_ok_PruneDeadWorkers: "wm_ok m \<Longrightarrow> wm_ok (snd (PruneDeadWorkers now m))"
proof -
  assume ok: "wm_ok m"
  then have "omap_ok (wm_workers (snd (PruneDeadWorkers now m)))"
    by (auto simp: wm_ok_def PruneDeadWorkers_def prune_loop_filter)
  with ok show ?thesis
    by (auto simp: wm_ok_def PruneDeadWorkers_workers split: option.splits if_splits)
qed

lemma timeout_const [simp]:
  "wm_worker_timeout (HandleRegister now i a m) = wm_worker_timeout m"
  "wm_worker_timeout (snd (HandleHeartbeat now r m)) = wm_worker_timeout m"
  "wm_worker_timeout (PrebookTask i c m) = wm_worker_timeout m"
  "wm_worker_timeout (snd (PruneDeadWorkers now m)) = wm_worker_timeout m"
  by (simp_all add: HandleRegister_def HandleHeartbeat_def PrebookTask_def PruneDeadWorkers_def
      split_beta split: option.split)

section \<open>Histories and the specification\<close>

text \<open>What the gRPC threads, the dispatch loop and the patrol thread do, in the order of the mutex.\<close>

datatype wm_op =
    ORegister int string string
  | OHeartbeat int HeartbeatRequest
  | OPrebook string "32 word"
  | OPrune int

fun wm_step :: "wm_op \<Rightarrow> WorkerManager \<Rightarrow> WorkerManager" where
  "wm_step (ORegister now i a) m = HandleRegister now i a m"
| "wm_step (OHeartbeat now r) m = snd (HandleHeartbeat now r m)"
| "wm_step (OPrebook i c) m = PrebookTask i c m"
| "wm_step (OPrune now) m = snd (PruneDeadWorkers now m)"

definition wm_run :: "int \<Rightarrow> wm_op list \<Rightarrow> WorkerManager" where
  "wm_run timeout ops = foldl (\<lambda>m op. wm_step op m) (new_WorkerManager timeout) ops"

text \<open>
  The specification looks at one worker: its address, the time it was last heard of and its load,
  or nothing when the scheduler does not know it.
\<close>

type_synonym worker_view = "(string \<times> int \<times> 32 word) option"

fun spec_step :: "int \<Rightarrow> string \<Rightarrow> wm_op \<Rightarrow> worker_view \<Rightarrow> worker_view" where
  "spec_step timeout i (ORegister now j a) v = (if i = j then Some (a, now, 0) else v)"
| "spec_step timeout i (OHeartbeat now r) v =
     (if i = hb_worker_id r then map_option (\<lambda>(a, t, n). (a, now, hb_running_task_count r)) v else v)"
| "spec_step timeout i (OPrebook j c) v =
     (if i = j then map_option (\<lambda>(a, t, n). (a, t, n + c)) v else v)"
| "spec_step timeout i (OPrune now) v =
     (case v of None \<Rightarrow> None
      | Some (a, t, n) \<Rightarrow> if now - t > timeout * 1000000000 then None else Some (a, t, n))"

definition spec_run :: "int \<Rightarrow> string \<Rightarrow> wm_op list \<Rightarrow> worker_view" where
  "spec_run timeout i ops = foldl (\<lambda>v op. spec_step timeout i op v) None ops"

definition view_worker :: "WorkerManager \<Rightarrow> string \<Rightarrow> worker_view" where
  "view_worker m i =
     map_option (\<lambda>w. (wi_address w, wi_last_heartbeat_time w, wi_running_task_count w))
       (map_of (wm_workers m) i)"

lemma wm_ok_step: "wm_ok m \<Longrightarrow> wm_ok (wm_step op m)"
  by (cases op) (simp_all add: wm_ok_HandleRegister wm_ok_HandleHeartbeat wm_ok_PrebookTask
      wm_ok_PruneDeadWorkers)

lemma view_step:
  assumes "wm_ok m"
  shows "view_worker (wm_step op m) i = spec_step (wm_worker_timeout m) i op (view_worker m i)"
proof (cases op)
  case (ORegister now j a)
  then show ?thesis
    by (auto simp: view_worker_def HandleRegister_def new_WorkerInfo_def split: option.split)
next
  case (OHeartbeat now r)
  then show ?thesis
    by (auto simp: view_worker_def HandleHeartbeat_def split: option.split)
next
  case (OPrebook j c)
  then show ?thesis
    by (auto simp: view_worker_def PrebookTask_def split: option.split)
next
  case (OPrune now)
  then show ?thesis
    using assms by (auto simp: view_worker_def PruneDeadWorkers_workers wm_ok_def timed_out_def
        split: option.split)
qed

lemma wm_run_inv:
  "wm_ok (wm_run t ops) \<and> wm_worker_timeout (wm_run t ops) = t \<and>
   view_worker (wm_run t ops) i = spec_run t i ops"
proof (induction ops rule: rev_induct)
  case Nil
  then show ?case by (simp add: wm_run_def spec_run_def view_worker_def new_WorkerManager_def
        wm_ok_def)
next
  case (snoc op ops)
  have t: "wm_worker_timeout (wm_step op m) = wm_worker_timeout m" for m
    by (cases op) simp_all
  have r: "wm_run t (ops @ [op]) = wm_step op (wm_run t ops)"
    and s: "spec_run t i (ops @ [op]) = spec_step t i op (spec_run t i ops)"
    by (simp_all add: wm_run_def spec_run_def)
  show ?case
    using snoc wm_ok_step view_step [of "wm_run t ops" op i] by (simp add: r s t)
qed

text \<open>
  C9. Refinement. After any sequence of registrations, heartbeats, bookings and prunings, in any
  order and at any clock readings, the manager's table is well formed (sorted by id, every entry
  under its own id) and shows for each worker exactly what the one-worker specification says: the
  address of its last registration, the time of its last registration or heartbeat, and its load
  since then, and nothing once a pruning found it silent for longer than the timeout.
\<close>

theorem worker_manager_refines:
  "wm_ok (wm_run t ops) \<and> (\<forall>i. view_worker (wm_run t ops) i = spec_run t i ops)"
  using wm_run_inv by blast

text \<open>
  \<open>HandleHeartbeat\<close> accepts a heartbeat exactly when the worker is registered and has
  not been pruned since, so that a worker the scheduler dropped is told to register again; a
  rejected heartbeat changes nothing.
\<close>

theorem heartbeat_accepted_iff_known:
  "(fst (HandleHeartbeat now r (wm_run t ops)) \<longleftrightarrow> spec_run t (hb_worker_id r) ops \<noteq> None) \<and>
   (\<not> fst (HandleHeartbeat now r (wm_run t ops)) \<longrightarrow>
      snd (HandleHeartbeat now r (wm_run t ops)) = wm_run t ops)"
proof -
  have "spec_run t (hb_worker_id r) ops = view_worker (wm_run t ops) (hb_worker_id r)"
    using wm_run_inv by simp
  then show ?thesis
    by (auto simp: HandleHeartbeat_def view_worker_def split: option.splits)
qed

theorem heartbeat_accepted_iff_known_witness:
  "fst (HandleHeartbeat 5 \<lparr>hb_worker_id = ''w'', hb_running_task_count = 1, hb_cpu_usage_percent = 0\<rparr>
          (wm_run 30 [ORegister 0 ''w'' ''addr'']))"
  using heartbeat_accepted_iff_known [of 5
      "\<lparr>hb_worker_id = ''w'', hb_running_task_count = 1, hb_cpu_usage_percent = 0\<rparr>" 30
      "[ORegister 0 ''w'' ''addr'']"]
  by (simp add: spec_run_def)

text \<open>An insertion sort is one of the sorters the laws allow.\<close>

interpretation load_sort: sorts_by load "sort_key load"
  by unfold_locales simp_all

lemma set_copy_available:
  assumes "wm_ok m"
  shows "set (copy_available m now (wm_workers m)) =
           {w. map_of (wm_workers m) (wi_worker_id w) = Some w \<and> \<not> timed_out m now w}"
proof -
  have mem: "(i, w) \<in> set (wm_workers m) \<longleftrightarrow>
      map_of (wm_workers m) (wi_worker_id w) = Some w \<and> i = wi_worker_id w" for i w
    using assms by (auto simp: wm_ok_def omap_mem_iff)
  show ?thesis
    by (auto simp: copy_available_filter mem image_iff)
qed

lemma distinct_copy_available:
  assumes "wm_ok m"
  shows "distinct (map wi_worker_id (copy_available m now (wm_workers m)))"
proof -
  have key: "wi_worker_id w = i" if "(i, w) \<in> set (wm_workers m)" for i w
    using assms that by (auto simp: wm_ok_def omap_mem_iff)
  have eq: "map wi_worker_id (copy_available m now (wm_workers m)) =
        map fst (filter (\<lambda>(i, w). \<not> timed_out m now w) (wm_workers m))"
    unfolding copy_available_filter map_map by (rule map_cong) (auto simp: key)
  have "distinct (map fst (filter (\<lambda>(i, w). \<not> timed_out m now w) (wm_workers m)))"
    using assms by (intro omap_ok_distinct omap_ok_filter) (simp add: wm_ok_def)
  with eq show ?thesis by simp
qed

text \<open>
  C14. \<open>GetAvailableWorkersSorted\<close> lists each worker heard of within the timeout exactly once
  and no other, and puts the least loaded first; this holds for whatever \<open>std::sort\<close> does
  with workers of equal load.
\<close>

theorem available_workers_live_and_sorted:
  assumes "sorts_by load srt" and "wm_ok m"
  shows "set (GetAvailableWorkersSorted srt now m) =
           {w. map_of (wm_workers m) (wi_worker_id w) = Some w \<and> \<not> timed_out m now w} \<and>
         distinct (map wi_worker_id (GetAvailableWorkersSorted srt now m)) \<and>
         sorted (map load (GetAvailableWorkersSorted srt now m))"
proof -
  note laws = sorts_by.mset_srt [OF assms(1)] sorts_by.sorted_srt [OF assms(1)]
    sorts_by.set_srt [OF assms(1)]
  have "mset (map wi_worker_id (srt (copy_available m now (wm_workers m)))) =
        mset (map wi_worker_id (copy_available m now (wm_workers m)))"
    by (simp add: laws)
  then have "distinct (map wi_worker_id (srt (copy_available m now (wm_workers m))))"
    using distinct_copy_available [OF assms(2), of now] by (metis mset_eq_imp_distinct_iff)
  then show ?thesis
    using set_copy_available [OF assms(2)]
    by (simp add: GetAvailableWorkersSorted_def laws)
qed

theorem available_workers_live_and_sorted_witness:
  "sorted (map load (GetAvailableWorkersSorted (sort_key load) 9
     (wm_run 30 [ORegister 0 ''a'' ''h1'', ORegister 0 ''b'' ''h2'', OPrebook ''a'' 1])))"
  using available_workers_live_and_sorted [OF load_sort.sorts_by_axioms, of
      "wm_run 30 [ORegister 0 ''a'' ''h1'', ORegister 0 ''b'' ''h2'', OPrebook ''a'' 1]" 9]
    wm_run_inv
  by blast

text \<open>
  \<open>PruneDeadWorkers\<close> returns exactly the ids of the workers silent for longer than the
  timeout, each once, removes exactly those, and leaves every other entry as it was; a second call
  at the same time finds nothing.
\<close>

theorem prune_removes_exactly_the_dead:
  assumes "wm_ok m" and "PruneDeadWorkers now m = (dead, m')"
  shows "distinct dead \<and>
         set dead = {i. \<exists>w. map_of (wm_workers m) i = Some w \<and> timed_out m now w} \<and>
         (\<forall>i. map_of (wm_workers m') i =
                (if i \<in> set dead then None else map_of (wm_workers m) i)) \<and>
         PruneDeadWorkers now m' = ([], m')"
proof -
  have ok: "omap_ok (wm_workers m)" using assms(1) by (simp add: wm_ok_def)
  have dead: "dead = fst (PruneDeadWorkers now m)" and m': "m' = snd (PruneDeadWorkers now m)"
    using assms(2) by simp_all
  have d: "distinct dead"
    unfolding dead PruneDeadWorkers_def prune_loop_filter Let_def prod.case fst_conv
    by (intro omap_ok_distinct omap_ok_filter ok)
  have s: "set dead = {i. \<exists>w. map_of (wm_workers m) i = Some w \<and> timed_out m now w}"
    using PruneDeadWorkers_dead [OF ok] dead by auto
  have r: "map_of (wm_workers m') i = (if i \<in> set dead then None else map_of (wm_workers m) i)" for i
    using PruneDeadWorkers_workers [OF ok, of now i] by (simp add: m' s split: option.split)
  have t: "timed_out m' now = timed_out m now"
    by (intro ext) (simp add: timed_out_def m')
  have "filter (\<lambda>(i, w). timed_out m now w) (wm_workers m') = []"
    "filter (\<lambda>(i, w). \<not> timed_out m now w) (wm_workers m') = wm_workers m'"
    by (auto simp: m' PruneDeadWorkers_def prune_loop_filter filter_empty_conv)
  then have "PruneDeadWorkers now m' = ([], m')"
    by (simp add: PruneDeadWorkers_def prune_loop_filter t)
  with d s r show ?thesis by blast
qed

theorem prune_removes_exactly_the_dead_witness:
  "fst (PruneDeadWorkers 40000000000 (wm_run 30 [ORegister 0 ''a'' ''h1'',
     ORegister 20000000000 ''b'' ''h2''])) = [''a'']"
proof -
  let ?m = "wm_run 30 [ORegister 0 ''a'' ''h1'', ORegister 20000000000 ''b'' ''h2'']"
  have m: "?m = \<lparr>wm_workers = [(''a'', new_WorkerInfo 0 ''a'' ''h1''),
      (''b'', new_WorkerInfo 20000000000 ''b'' ''h2'')], wm_worker_timeout = 30\<rparr>"
    by (simp add: wm_run_def new_WorkerManager_def HandleRegister_def)
  obtain dead m' where p: "PruneDeadWorkers 40000000000 ?m = (dead, m')" by fastforce
  have "wm_ok ?m" using wm_run_inv by blast
  from prune_removes_exactly_the_dead [OF this p]
  have "distinct dead" "set dead = {''a''}"
    by (auto simp: m timed_out_def new_WorkerInfo_def split: if_splits)
  then have "dead = [''a'']"
    by (rule distinct_set_single)
  with p show ?thesis by simp
qed

end
