(* ===== verification/Task_Repository.thy ===== *)
theory Task_Repository
  imports Database_Pool Task_Types Worker_Manager "HOL-Library.Product_Lexorder"
begin

text \<open>
  \<open>src/scheduler/src/task_repository.cpp\<close>: the scheduler's reads and writes of the
  \<open>task\<close> table. Each operation is one transaction; a variable the closure captures by
  reference is the second component of the transaction's state, so it keeps its value when the
  commit fails. \<open>pg_types\<close> decides which texts are uuids, the JSON library is \<open>json_lib\<close>,
  and the order \<open>ORDER BY\<close> leaves open is a sorter that obeys \<open>sorts_by\<close>.
\<close>

type_synonym 'l tx = "(database \<times> 'l, db_err, unit) sem"

definition bad_uuid :: db_err where
  "bad_uuid = StdExn ''invalid input syntax for type uuid''"

text \<open>\<open>as<uint32_t>\<close> refuses a negative number.\<close>

definition as_uint32 :: "int \<Rightarrow> db_err + 32 word" where
  "as_uint32 n = (if 0 \<le> n \<and> n < 2 ^ 32 then Inr (word_of_int n)
                  else Inl (StdExn ''Could not convert string to unsigned int''))"

section \<open>Operations\<close>

definition retry_row :: "string \<Rightarrow> task_row \<Rightarrow> task_row" where
  "retry_row error_msg r =
     r\<lparr>tr_state := ST_PENDING, tr_retry_count := tr_retry_count r + 1, tr_worker_id := None,
       tr_start_ts := None, tr_finish_ts := None, tr_error_msg := Some error_msg\<rparr>"

definition fail_row :: "int \<Rightarrow> string \<Rightarrow> task_row \<Rightarrow> task_row" where
  "fail_row now error_msg r =
     r\<lparr>tr_state := ST_FAILED, tr_finish_ts := Some now, tr_error_msg := Some error_msg\<rparr>"

text \<open>\<open>HandleTaskFailure\<close>; the last argument of the C++ function is not used there.\<close>

definition HandleTaskFailure_tx :: "pg_types \<Rightarrow> int \<Rightarrow> string \<Rightarrow> string \<Rightarrow> bool tx" where
  "HandleTaskFailure_tx T now task_id error_msg = (\<lambda>(db, retrying).
     if \<not> pg_uuid_ok T task_id then (Inl bad_uuid, (db, retrying))
     else case find_task db task_id of
       None \<Rightarrow> (Inr (), (db, retrying))
     | Some r \<Rightarrow>
         (if tr_retry_count r < tr_max_retry r
          then (Inr (), (upd_tasks (task_by_id task_id) (retry_row error_msg) db, True))
          else (Inr (), (upd_tasks (task_by_id task_id) (fail_row now error_msg) db, False))))"

definition HandleTaskFailure ::
  "pg_types \<Rightarrow> tx_env \<Rightarrow> string \<Rightarrow> string \<Rightarrow> int \<Rightarrow> database \<Rightarrow> bool \<times> database" where
  "HandleTaskFailure T E task_id error_msg worker_reported_retry db =
     (case run_tx E (HandleTaskFailure_tx T (te_now E) task_id error_msg) (db, False) of
        (Inl e, (db', retrying)) \<Rightarrow> (False, db')
      | (Inr _, (db', retrying)) \<Rightarrow> (retrying, db'))"

definition parse_row_params :: "json_lib \<Rightarrow> task_row \<Rightarrow> db_err + json" where
  "parse_row_params L row =
     (case tr_func_params row of
        None \<Rightarrow> Inr JNull
      | Some s \<Rightarrow> if s = [] then Inr JNull
                  else (case jl_parse L s of Inl e \<Rightarrow> Inl (StdExn e) | Inr j \<Rightarrow> Inr j))"

definition row_to_task :: "json_lib \<Rightarrow> task_row \<Rightarrow> db_err + Task" where
  "row_to_task L row =
     (case (as_uint32 (tr_priority row), as_uint32 (tr_max_retry row),
            as_uint32 (tr_retry_count row), as_uint32 (tr_timeout_ms row),
            parse_row_params L row) of
        (Inr priority, Inr max_retry, Inr retry_count, Inr timeout_ms, Inr params) \<Rightarrow>
          Inr (default_Task
            \<lparr>t_task_id := tr_task_id row, t_job_id := tr_job_id row,
             t_natural_id := tr_natural_id row, t_func_name := tr_func_name row,
             t_priority := priority, t_max_retry := max_retry, t_retry_count := retry_count,
             t_timeout_ms := timeout_ms, t_func_params := params\<rparr>)
      | (Inl e, _) \<Rightarrow> Inl e | (_, Inl e, _) \<Rightarrow> Inl e | (_, _, Inl e, _) \<Rightarrow> Inl e
      | (_, _, _, Inl e, _) \<Rightarrow> Inl e | (_, _, _, _, Inl e) \<Rightarrow> Inl e)"

definition GetTaskById_tx :: "pg_types \<Rightarrow> json_lib \<Rightarrow> string \<Rightarrow> Task option tx" where
  "GetTaskById_tx T L task_id = (\<lambda>(db, result_task).
     if \<not> pg_uuid_ok T task_id then (Inl bad_uuid, (db, result_task))
     else case find_task db task_id of
       None \<Rightarrow> (Inr (), (db, result_task))
     | Some row \<Rightarrow>
         (case row_to_task L row of
            Inl e \<Rightarrow> (Inl e, (db, result_task)) | Inr t \<Rightarrow> (Inr (), (db, Some t))))"

definition GetTaskById ::
  "pg_types \<Rightarrow> json_lib \<Rightarrow> tx_env \<Rightarrow> string \<Rightarrow> database \<Rightarrow> Task option \<times> database" where
  "GetTaskById T L E task_id db =
     (case run_tx E (GetTaskById_tx T L task_id) (db, None) of
        (Inl e, (db', _)) \<Rightarrow> (None, db')
      | (Inr _, (db', result_task)) \<Rightarrow> (result_task, db'))"

text \<open>\<open>ORDER BY priority DESC, submit_ts ASC\<close>, with nulls last, and \<open>LIMIT\<close>.\<close>

definition pending_key :: "task_row \<Rightarrow> int \<times> int \<times> int" where
  "pending_key r =
     (- tr_priority r, case tr_submit_ts r of Some t \<Rightarrow> (0, t) | None \<Rightarrow> (1, 0))"

definition pending_row_to_task :: "json_lib \<Rightarrow> task_row \<Rightarrow> db_err + Task" where
  "pending_row_to_task L row =
     (case (as_uint32 (tr_priority row), as_uint32 (tr_timeout_ms row), parse_row_params L row) of
        (Inr priority, Inr timeout_ms, Inr params) \<Rightarrow>
          Inr (default_Task
            \<lparr>t_task_id := tr_task_id row, t_job_id := tr_job_id row,
             t_func_name := tr_func_name row, t_priority := priority,
             t_timeout_ms := timeout_ms, t_func_params := params\<rparr>)
      | (Inl e, _) \<Rightarrow> Inl e | (_, Inl e, _) \<Rightarrow> Inl e | (_, _, Inl e) \<Rightarrow> Inl e)"

definition push_row :: "json_lib \<Rightarrow> task_row \<Rightarrow> Task list tx" where
  "push_row L row = (\<lambda>(db, tasks).
     case pending_row_to_task L row of
       Inl e \<Rightarrow> (Inl e, (db, tasks)) | Inr t \<Rightarrow> (Inr (), (db, tasks @ [t])))"

definition GetPendingTasks_tx ::
  "(task_row list \<Rightarrow> task_row list) \<Rightarrow> json_lib \<Rightarrow> int \<Rightarrow> Task list tx" where
  "GetPendingTasks_tx srt L limit = (\<lambda>(db, tasks).
     if limit < 0 then (Inl (StdExn ''LIMIT must not be negative''), (db, tasks))
     else sfor (push_row L)
            (take (nat limit) (srt (filter (\<lambda>r. tr_state r = ST_PENDING) (db_tasks db)))) (db, tasks))"

definition GetPendingTasks ::
  "(task_row list \<Rightarrow> task_row list) \<Rightarrow> json_lib \<Rightarrow> tx_env \<Rightarrow> int \<Rightarrow> database \<Rightarrow> Task list \<times> database"
where
  "GetPendingTasks srt L E limit db =
     (case run_tx E (GetPendingTasks_tx srt L limit) (db, []) of (_, (db', tasks)) \<Rightarrow> (tasks, db'))"

definition claimable :: "string \<Rightarrow> task_row \<Rightarrow> bool" where
  "claimable task_id r \<longleftrightarrow> tr_task_id r = task_id \<and> tr_state r = ST_PENDING"

definition run_row :: "int \<Rightarrow> string \<Rightarrow> task_row \<Rightarrow> task_row" where
  "run_row now worker_id r =
     r\<lparr>tr_state := ST_RUNNING, tr_worker_id := Some worker_id, tr_start_ts := Some now\<rparr>"

text \<open>The column \<open>worker_id\<close> is a \<open>varchar(255)\<close>.\<close>

definition varchar_ok :: "string \<Rightarrow> bool" where
  "varchar_ok s \<longleftrightarrow> length s \<le> 255"

definition UpdateTaskToRunning_tx :: "pg_types \<Rightarrow> int \<Rightarrow> string \<Rightarrow> string \<Rightarrow> bool tx" where
  "UpdateTaskToRunning_tx T now task_id worker_id = (\<lambda>(db, updated).
     if \<not> pg_uuid_ok T task_id then (Inl bad_uuid, (db, updated))
     else if \<not> varchar_ok worker_id \<and> affected (claimable task_id) (db_tasks db) > 0
     then (Inl (StdExn ''value too long for type character varying(255)''), (db, updated))
     else (Inr (), (upd_tasks (claimable task_id) (run_row now worker_id) db,
                    affected (claimable task_id) (db_tasks db) = 1)))"

definition UpdateTaskToRunning ::
  "pg_types \<Rightarrow> tx_env \<Rightarrow> string \<Rightarrow> string \<Rightarrow> database \<Rightarrow> bool \<times> database" where
  "UpdateTaskToRunning T E task_id worker_id db =
     (case run_tx E (UpdateTaskToRunning_tx T (te_now E) task_id worker_id) (db, False) of
        (_, (db', updated)) \<Rightarrow> (updated, db'))"

definition pending_row :: "task_row \<Rightarrow> task_row" where
  "pending_row r = r\<lparr>tr_state := ST_PENDING, tr_worker_id := None, tr_start_ts := None\<rparr>"

definition RevertTaskToPending_tx :: "pg_types \<Rightarrow> string \<Rightarrow> unit tx" where
  "RevertTaskToPending_tx T task_id = (\<lambda>(db, u).
     if \<not> pg_uuid_ok T task_id then (Inl bad_uuid, (db, u))
     else (Inr (), (upd_tasks (task_by_id task_id) pending_row db, u)))"

definition RevertTaskToPending ::
  "pg_types \<Rightarrow> tx_env \<Rightarrow> string \<Rightarrow> database \<Rightarrow> bool \<times> database" where
  "RevertTaskToPending T E task_id db =
     (case run_tx E (RevertTaskToPending_tx T task_id) (db, ()) of
        (Inl _, (db', _)) \<Rightarrow> (False, db') | (Inr _, (db', _)) \<Rightarrow> (True, db'))"

definition orphaned :: "string \<Rightarrow> task_row \<Rightarrow> bool" where
  "orphaned dead_worker_id r \<longleftrightarrow> tr_worker_id r = Some dead_worker_id \<and> tr_state r = ST_RUNNING"

definition RequeueOrphanedTasks_tx :: "string \<Rightarrow> int tx" where
  "RequeueOrphanedTasks_tx dead_worker_id = (\<lambda>(db, n).
     (Inr (), (upd_tasks (orphaned dead_worker_id) pending_row db,
               affected (orphaned dead_worker_id) (db_tasks db))))"

definition RequeueOrphanedTasks :: "tx_env \<Rightarrow> string \<Rightarrow> database \<Rightarrow> int \<times> database" where
  "RequeueOrphanedTasks E dead_worker_id db =
     (case run_tx E (RequeueOrphanedTasks_tx dead_worker_id) (db, 0) of (_, (db', n)) \<Rightarrow> (n, db'))"

section \<open>Lemmas\<close>

lemmas repo_tx_defs = HandleTaskFailure_tx_def GetTaskById_tx_def GetPendingTasks_tx_def
  UpdateTaskToRunning_tx_def RevertTaskToPending_tx_def RequeueOrphanedTasks_tx_def
lemmas row_defs = retry_row_def fail_row_def run_row_def pending_row_def

lemma row_upd_keys [simp]:
  "tr_task_id (retry_row e r) = tr_task_id r" "tr_task_id (fail_row now e r) = tr_task_id r"
  "tr_task_id (run_row now w r) = tr_task_id r" "tr_task_id (pending_row r) = tr_task_id r"
  "tr_job_id (retry_row e r) = tr_job_id r" "tr_job_id (fail_row now e r) = tr_job_id r"
  "tr_job_id (run_row now w r) = tr_job_id r" "tr_job_id (pending_row r) = tr_job_id r"
  "tr_natural_id (retry_row e r) = tr_natural_id r" "tr_natural_id (fail_row now e r) = tr_natural_id r"
  "tr_natural_id (run_row now w r) = tr_natural_id r" "tr_natural_id (pending_row r) = tr_natural_id r"
  by (simp_all add: row_defs)

text \<open>The outcome of each write when the transaction goes through.\<close>

lemma HandleTaskFailure_ok:
  "pg_uuid_ok T i \<Longrightarrow>
   HandleTaskFailure T (tx_ok now) i e k db =
     (case find_task db i of
        None \<Rightarrow> (False, db)
      | Some r \<Rightarrow>
          if tr_retry_count r < tr_max_retry r
          then (True, upd_tasks (task_by_id i) (retry_row e) db)
          else (False, upd_tasks (task_by_id i) (fail_row now e) db))"
  by (simp add: HandleTaskFailure_def HandleTaskFailure_tx_def tx_ok_def run_tx_def
      split: option.split)

lemma UpdateTaskToRunning_ok:
  "pg_uuid_ok T i \<Longrightarrow> varchar_ok w \<Longrightarrow>
   UpdateTaskToRunning T (tx_ok now) i w db =
     (affected (claimable i) (db_tasks db) = 1, upd_tasks (claimable i) (run_row now w) db)"
  by (simp add: UpdateTaskToRunning_def UpdateTaskToRunning_tx_def tx_ok_def run_tx_def)

lemma RequeueOrphanedTasks_ok:
  "RequeueOrphanedTasks (tx_ok now) w db =
     (affected (orphaned w) (db_tasks db), upd_tasks (orphaned w) pending_row db)"
  by (simp add: RequeueOrphanedTasks_def RequeueOrphanedTasks_tx_def tx_ok_def run_tx_def)

lemma RevertTaskToPending_ok:
  "pg_uuid_ok T i \<Longrightarrow>
   RevertTaskToPending T (tx_ok now) i db = (True, upd_tasks (task_by_id i) pending_row db)"
  by (simp add: RevertTaskToPending_def RevertTaskToPending_tx_def tx_ok_def run_tx_def)

lemma find_task_self:
  "find_task db i = Some r \<Longrightarrow> (\<And>r. tr_task_id (f r) = tr_task_id r) \<Longrightarrow>
   find_task (upd_tasks (task_by_id i) f db) i = Some (f r)"
  using find_task_Some [of db i r] by (simp add: find_task_upd task_by_id_def)

lemma find_task_other:
  assumes "j \<noteq> i" "\<And>r. tr_task_id (f r) = tr_task_id r"
  shows "find_task (upd_tasks (task_by_id i) f db) j = find_task db j"
  using assms find_task_Some [of db j]
  by (cases "find_task db j") (auto simp: find_task_upd task_by_id_def)

lemma affected_0_iff: "affected p rows = 0 \<longleftrightarrow> (\<forall>r \<in> set rows. \<not> p r)"
  by (auto simp: affected_def filter_empty_conv)

lemma sfor_keeps_db: "fst (snd (sfor (push_row L) rows (db, ts))) = db"
proof (induction rows arbitrary: ts)
  case (Cons r rows)
  then show ?case
    by (cases "pending_row_to_task L r") (simp_all add: push_row_def sbind_def)
qed simp

lemma run_tx_db_ok:
  assumes "\<And>s. db_ok (fst s) \<Longrightarrow> db_ok (fst (snd (f s)))" "db_ok (fst s)"
  shows "db_ok (fst (snd (run_tx E f s)))"
  using assms(1) [of s] assms(2)
  by (auto simp: run_tx_def split: option.splits prod.splits sum.splits)

section \<open>Properties\<close>

text \<open>
  No operation of the repository breaks a constraint of the schema, whatever happens to its
  transaction; the two reading operations change nothing.
\<close>

theorem repository_keeps_constraints:
  assumes "db_ok db"
  shows "db_ok (snd (HandleTaskFailure T E i e k db)) \<and>
         db_ok (snd (UpdateTaskToRunning T E i w db)) \<and>
         db_ok (snd (RevertTaskToPending T E i db)) \<and>
         db_ok (snd (RequeueOrphanedTasks E w db)) \<and>
         snd (GetTaskById T L E i db) = db \<and> snd (GetPendingTasks srt L E n db) = db"
proof (intro conjI)
  have r: "db_ok (fst (snd (run_tx E f (db, l))))"
    if "\<And>s. db_ok (fst s) \<Longrightarrow> db_ok (fst (snd (f s)))" for f :: "'l tx" and l
    by (rule run_tx_db_ok) (use that assms in auto)
  have k: "fst (snd (run_tx E f (db, l))) = db"
    if "\<And>s. fst (snd (f s)) = fst s" for f :: "'l tx" and l
    using that [of "(db, l)"] by (auto simp: run_tx_def split: option.splits prod.splits sum.splits)
  have "db_ok (fst (snd (run_tx E (HandleTaskFailure_tx T (te_now E) i e) (db, False))))"
    by (rule r) (auto simp: HandleTaskFailure_tx_def upd_tasks_ok split: option.split)
  then show "db_ok (snd (HandleTaskFailure T E i e k db))"
    by (auto simp: HandleTaskFailure_def split: prod.split sum.split)
  have "db_ok (fst (snd (run_tx E (UpdateTaskToRunning_tx T (te_now E) i w) (db, False))))"
    by (rule r) (auto simp: UpdateTaskToRunning_tx_def upd_tasks_ok)
  then show "db_ok (snd (UpdateTaskToRunning T E i w db))"
    by (auto simp: UpdateTaskToRunning_def split: prod.split)
  have "db_ok (fst (snd (run_tx E (RevertTaskToPending_tx T i) (db, ()))))"
    by (rule r) (auto simp: RevertTaskToPending_tx_def upd_tasks_ok)
  then show "db_ok (snd (RevertTaskToPending T E i db))"
    by (auto simp: RevertTaskToPending_def split: prod.split sum.split)
  have "db_ok (fst (snd (run_tx E (RequeueOrphanedTasks_tx w) (db, 0))))"
    by (rule r) (auto simp: RequeueOrphanedTasks_tx_def upd_tasks_ok)
  then show "db_ok (snd (RequeueOrphanedTasks E w db))"
    by (auto simp: RequeueOrphanedTasks_def split: prod.split)
  have "fst (snd (run_tx E (GetTaskById_tx T L i) (db, None))) = db"
    by (rule k) (auto simp: GetTaskById_tx_def split: option.split sum.split)
  then show "snd (GetTaskById T L E i db) = db"
    by (auto simp: GetTaskById_def split: prod.split sum.split)
  have "fst (snd (run_tx E (GetPendingTasks_tx srt L n) (db, []))) = db"
    by (rule k) (auto simp: GetPendingTasks_tx_def sfor_keeps_db split_beta)
  then show "snd (GetPendingTasks srt L E n db) = db"
    by (auto simp: GetPendingTasks_def split: prod.split)
qed

text \<open>A table with one job and three tasks, for the witnesses.\<close>

definition sample_row :: "string \<Rightarrow> int \<Rightarrow> int \<Rightarrow> task_row" where
  "sample_row i st n =
     \<lparr>tr_task_id = i, tr_job_id = ''j'', tr_natural_id = i, tr_func_name = ''echo'',
      tr_func_params = None, tr_state = st, tr_priority = 0, tr_retry_count = n,
      tr_max_retry = 2, tr_timeout_ms = 1000, tr_pending_dependencies = 0, tr_error_msg = None,
      tr_submit_ts = Some 1, tr_start_ts = None, tr_finish_ts = None, tr_result = None,
      tr_worker_id = None\<rparr>"

definition sample_db :: database where
  "sample_db =
     \<lparr>db_jobs = [\<lparr>j_job_id = ''j'', j_idempotency_key = ''k'', j_state = 0\<rparr>],
      db_tasks = [sample_row ''a'' ST_PENDING 1, sample_row ''b'' ST_RUNNING 0,
                  sample_row ''c'' ST_SUCCESS 0],
      db_edges = [(''a'', ''b'')]\<rparr>"

lemma sample_find [simp]:
  "find_task sample_db ''a'' = Some (sample_row ''a'' ST_PENDING 1)"
  "find_task sample_db ''b'' = Some (sample_row ''b'' ST_RUNNING 0)"
  "find_task sample_db ''c'' = Some (sample_row ''c'' ST_SUCCESS 0)"
  by (simp_all add: find_task_def sample_db_def sample_row_def task_by_id_def)

lemma sample_db_ok: "db_ok sample_db"
  by (auto simp: db_ok_def sample_db_def sample_row_def)

theorem repository_keeps_constraints_witness:
  "db_ok (snd (RevertTaskToPending sample_types (tx_ok 5) ''c'' sample_db))"
  using repository_keeps_constraints [OF sample_db_ok] by blast

text \<open>Reports of failure for the same task one after the other, and their answers.\<close>

fun fail_times ::
  "pg_types \<Rightarrow> int \<Rightarrow> string \<Rightarrow> string \<Rightarrow> nat \<Rightarrow> database \<Rightarrow> bool list \<times> database" where
  "fail_times T now i e 0 db = ([], db)"
| "fail_times T now i e (Suc n) db =
     (let (b, db1) = HandleTaskFailure T (tx_ok now) i e 0 db;
          (bs, db2) = fail_times T now i e n db1
      in (b # bs, db2))"

lemma fail_step:
  assumes "pg_uuid_ok T i" "find_task db i = Some r"
  shows "HandleTaskFailure T (tx_ok now) i e k db =
           (if tr_retry_count r < tr_max_retry r
            then (True, upd_tasks (task_by_id i) (retry_row e) db)
            else (False, upd_tasks (task_by_id i) (fail_row now e) db))"
  using assms by (simp add: HandleTaskFailure_ok)

lemma fail_times_other:
  assumes "pg_uuid_ok T i" "j \<noteq> i"
  shows "find_task (snd (fail_times T now i e n db)) j = find_task db j"
proof (induction n arbitrary: db)
  case (Suc n)
  have "find_task (snd (HandleTaskFailure T (tx_ok now) i e 0 db)) j = find_task db j"
    using assms by (simp add: HandleTaskFailure_ok find_task_other split: option.split)
  with Suc show ?case by (simp add: Let_def split_beta)
qed simp

lemma fail_times_permanent:
  assumes "pg_uuid_ok T i" "find_task db i = Some r" "tr_max_retry r \<le> tr_retry_count r"
  shows "fst (fail_times T now i e n db) = replicate n False \<and>
         (n > 0 \<longrightarrow> find_task (snd (fail_times T now i e n db)) i = Some (fail_row now e r))"
  using assms
proof (induction n arbitrary: db r)
  case (Suc n)
  let ?db = "upd_tasks (task_by_id i) (fail_row now e) db"
  have f: "find_task ?db i = Some (fail_row now e r)"
    using Suc.prems by (simp add: find_task_self)
  have m: "tr_max_retry (fail_row now e r) \<le> tr_retry_count (fail_row now e r)"
    using Suc.prems by (simp add: fail_row_def)
  have x: "fail_row now e (fail_row now e r) = fail_row now e r" by (simp add: fail_row_def)
  from Suc.IH [OF Suc.prems(1) f m] Suc.prems f show ?case
    by (cases n) (simp_all add: fail_step Let_def split_beta x)
qed simp

lemma fail_times_spec:
  assumes "pg_uuid_ok T i" "find_task db i = Some r" "tr_retry_count r \<le> tr_max_retry r"
  shows "fst (fail_times T now i e (nat (tr_max_retry r - tr_retry_count r) + n) db) =
           replicate (nat (tr_max_retry r - tr_retry_count r)) True @ replicate n False \<and>
         (n > 0 \<longrightarrow>
           (\<exists>r'. find_task (snd (fail_times T now i e
                     (nat (tr_max_retry r - tr_retry_count r) + n) db)) i = Some r' \<and>
                 tr_state r' = ST_FAILED \<and> tr_retry_count r' = tr_max_retry r \<and>
                 tr_error_msg r' = Some e))"
  using assms
proof (induction "nat (tr_max_retry r - tr_retry_count r)" arbitrary: db r)
  case 0
  then show ?case
    using fail_times_permanent [of T i db r now e n] by (auto simp: fail_row_def)
next
  case (Suc k)
  let ?db = "upd_tasks (task_by_id i) (retry_row e) db"
  have f: "find_task ?db i = Some (retry_row e r)"
    using Suc.prems by (simp add: find_task_self)
  have lt: "tr_retry_count r < tr_max_retry r" and k: "nat (tr_max_retry r - tr_retry_count r) = Suc k"
    using Suc.hyps(2) by linarith+
  have c: "k = nat (tr_max_retry (retry_row e r) - tr_retry_count (retry_row e r))"
    "tr_retry_count (retry_row e r) \<le> tr_max_retry (retry_row e r)"
    "tr_max_retry (retry_row e r) = tr_max_retry r"
    using Suc.hyps(2) lt by (simp_all add: retry_row_def)
  note IH = Suc.hyps(1) [OF c(1) Suc.prems(1) f c(2), folded c(1), unfolded c(3)]
  show ?case
    unfolding k using IH lt by (simp add: fail_step [OF Suc.prems(1,2)] Let_def split_beta)
qed

text \<open>
  C8. Bounded retries. A task that keeps failing is sent back for another attempt exactly
  \<open>max_retry - retry_count\<close> times; every later report finds it permanently failed, with the
  retry count at its limit and the last error stored. No other task's row is touched.
\<close>

theorem failure_retries_bounded:
  assumes "pg_uuid_ok T i" "find_task db i = Some r" "tr_retry_count r \<le> tr_max_retry r"
    and "k = nat (tr_max_retry r - tr_retry_count r)"
  shows "fst (fail_times T now i e (k + n) db) = replicate k True @ replicate n False \<and>
         (n > 0 \<longrightarrow>
           (\<exists>r'. find_task (snd (fail_times T now i e (k + n) db)) i = Some r' \<and>
                 tr_state r' = ST_FAILED \<and> tr_retry_count r' = tr_max_retry r \<and>
                 tr_error_msg r' = Some e)) \<and>
         (\<forall>j. j \<noteq> i \<longrightarrow> find_task (snd (fail_times T now i e (k + n) db)) j = find_task db j)"
  using fail_times_spec [OF assms(1-3)] fail_times_other [OF assms(1)] unfolding assms(4) by blast

theorem failure_retries_bounded_witness:
  "fst (fail_times sample_types 9 ''a'' ''boom'' 3 sample_db) = [True, False, False]"
proof -
  have "fst (fail_times sample_types 9 ''a'' ''boom'' (1 + 2) sample_db) =
          replicate 1 True @ replicate 2 False"
    using failure_retries_bounded [of sample_types "''a''" sample_db "sample_row ''a'' ST_PENDING 1" 1
        9 "''boom''" 2]
    by (simp add: sample_row_def)
  then show ?thesis by (simp add: numeral_2_eq_2 numeral_3_eq_3)
qed

text \<open>Several schedulers claim the same task one after the other.\<close>

fun claim_all :: "pg_types \<Rightarrow> int \<Rightarrow> string \<Rightarrow> string list \<Rightarrow> database \<Rightarrow> bool list \<times> database" where
  "claim_all T now i [] db = ([], db)"
| "claim_all T now i (w # ws) db =
     (let (b, db1) = UpdateTaskToRunning T (tx_ok now) i w db;
          (bs, db2) = claim_all T now i ws db1
      in (b # bs, db2))"

lemma claim_lost:
  assumes "pg_uuid_ok T i" "\<forall>w \<in> set ws. varchar_ok w"
    and "\<forall>r \<in> set (db_tasks db). \<not> claimable i r"
  shows "claim_all T now i ws db = (replicate (length ws) False, db)"
  using assms(2)
proof (induction ws)
  case (Cons w ws)
  have "affected (claimable i) (db_tasks db) = 0" "upd_tasks (claimable i) f db = db" for f
    using assms(3) by (simp_all add: affected_0_iff upd_tasks_def sql_update_id)
  with Cons assms(1) show ?case by (simp add: UpdateTaskToRunning_ok)
qed simp

lemma not_claimable_run_row: "\<not> claimable i (run_row now w r)"
  by (simp add: claimable_def run_row_def st_defs)

lemma claimable_unique:
  assumes "distinct (map tr_task_id rows)" "r \<in> set rows" "claimable i r"
  shows "affected (claimable i) rows = 1"
proof -
  have "filter (claimable i) rows = [r]"
  proof (rule distinct_set_single)
    show "distinct (filter (claimable i) rows)"
      using assms(1) by (simp add: distinct_map)
    show "set (filter (claimable i) rows) = {r}"
      using assms by (auto simp: claimable_def distinct_map inj_on_def)
  qed
  then show ?thesis by (simp add: affected_def)
qed

text \<open>
  Mutual exclusion of the claim. When any number of schedulers try to claim a pending task,
  one after the other, exactly the first succeeds: the task is RUNNING for its worker, and the
  others are refused and change nothing.
\<close>

theorem claim_exactly_once:
  assumes "db_ok db" "pg_uuid_ok T i" "find_task db i = Some r" "tr_state r = ST_PENDING"
    and "\<forall>w' \<in> set (w # ws). varchar_ok w'"
  shows "fst (claim_all T now i (w # ws) db) = True # replicate (length ws) False \<and>
         find_task (snd (claim_all T now i (w # ws) db)) i = Some (run_row now w r)"
proof -
  let ?db = "upd_tasks (claimable i) (run_row now w) db"
  have r: "r \<in> set (db_tasks db)" "claimable i r"
    using find_task_Some [OF assms(3)] assms(4) by (auto simp: claimable_def)
  have one: "affected (claimable i) (db_tasks db) = 1"
    by (rule claimable_unique [OF _ r]) (use assms(1) in \<open>simp add: db_ok_def\<close>)
  have lost: "\<forall>r \<in> set (db_tasks ?db). \<not> claimable i r"
    using not_claimable_run_row by (fastforce simp: upd_tasks_def sql_update_def)
  have "find_task ?db i = Some (run_row now w r)"
    using assms(3) r(2) by (simp add: find_task_upd)
  moreover have "claim_all T now i ws ?db = (replicate (length ws) False, ?db)"
    by (rule claim_lost [OF assms(2) _ lost]) (use assms(5) in simp)
  moreover have "UpdateTaskToRunning T (tx_ok now) i w db = (True, ?db)"
    using one assms(5) by (simp add: UpdateTaskToRunning_ok [OF assms(2)])
  ultimately show ?thesis by simp
qed

theorem claim_exactly_once_witness:
  "fst (claim_all sample_types 9 ''a'' [''w1'', ''w2'', ''w3''] sample_db) = [True, False, False]"
  using claim_exactly_once [OF sample_db_ok, of sample_types "''a''" "sample_row ''a'' ST_PENDING 1"
      "''w1''" "[''w2'', ''w3'']" 9]
  by (simp add: sample_row_def varchar_ok_def)

text \<open>
  \<open>RequeueOrphanedTasks\<close> puts exactly the RUNNING tasks of the dead worker back to
  PENDING with no worker, says how many they were, and leaves every other task alone; a second
  call finds none.
\<close>

theorem requeue_exactly_orphans:
  "RequeueOrphanedTasks (tx_ok now) w db = (n, db') \<longrightarrow>
   n = affected (orphaned w) (db_tasks db) \<and>
   (\<forall>i. find_task db' i =
          map_option (\<lambda>r. if orphaned w r then pending_row r else r) (find_task db i)) \<and>
   RequeueOrphanedTasks (tx_ok now') w db' = (0, db')"
proof
  assume "RequeueOrphanedTasks (tx_ok now) w db = (n, db')"
  then have n: "n = affected (orphaned w) (db_tasks db)"
    and db': "db' = upd_tasks (orphaned w) pending_row db"
    by (simp_all add: RequeueOrphanedTasks_ok)
  have none: "\<forall>r \<in> set (db_tasks db'). \<not> orphaned w r"
    by (auto simp: db' upd_tasks_def set_sql_update orphaned_def pending_row_def)
  then have "upd_tasks (orphaned w) pending_row db' = db'"
    by (simp add: upd_tasks_def sql_update_id)
  moreover have "affected (orphaned w) (db_tasks db') = 0"
    using none by (simp add: affected_0_iff)
  moreover have "find_task db' i =
      map_option (\<lambda>r. if orphaned w r then pending_row r else r) (find_task db i)" for i
    unfolding db' by (rule find_task_upd) simp
  ultimately show "n = affected (orphaned w) (db_tasks db) \<and>
   (\<forall>i. find_task db' i =
          map_option (\<lambda>r. if orphaned w r then pending_row r else r) (find_task db i)) \<and>
   RequeueOrphanedTasks (tx_ok now') w db' = (0, db')"
    using n by (simp add: RequeueOrphanedTasks_ok)
qed

theorem requeue_exactly_orphans_witness:
  "RequeueOrphanedTasks (tx_ok 8) ''w''
     (snd (RequeueOrphanedTasks (tx_ok 5) ''w'' sample_db)) =
   (0, snd (RequeueOrphanedTasks (tx_ok 5) ''w'' sample_db))"
  using requeue_exactly_orphans [of 5 "''w''" sample_db "fst (RequeueOrphanedTasks (tx_ok 5) ''w'' sample_db)"
      "snd (RequeueOrphanedTasks (tx_ok 5) ''w'' sample_db)" 8]
  by simp

text \<open>
  \<open>RevertTaskToPending\<close> has no guard on the state: a late revert puts a task that has
  already succeeded back to PENDING. And \<open>UpdateTaskToRunning\<close> reports success although
  nothing was stored when its commit fails, because the captured flag is set before the commit.
\<close>

theorem revert_unguarded_and_claim_not_durable:
  "find_task (snd (RevertTaskToPending sample_types (tx_ok 5) ''c'' sample_db)) ''c'' =
     Some (sample_row ''c'' ST_PENDING 0) \<and>
   UpdateTaskToRunning sample_types
     \<lparr>te_begin = None, te_commit = Some (BrokenConnection ''lost'', False), te_now = 5\<rparr>
     ''a'' ''w'' sample_db = (True, sample_db)"
proof -
  have "pending_row (sample_row ''c'' ST_SUCCESS 0) = sample_row ''c'' ST_PENDING 0"
    by (simp add: pending_row_def sample_row_def)
  then have "find_task (snd (RevertTaskToPending sample_types (tx_ok 5) ''c'' sample_db)) ''c'' =
      Some (sample_row ''c'' ST_PENDING 0)"
    by (simp add: RevertTaskToPending_ok find_task_self)
  moreover have "affected (claimable ''a'') (db_tasks sample_db) = 1"
    by (simp add: affected_def sample_db_def claimable_def sample_row_def)
  ultimately show ?thesis
    by (simp add: UpdateTaskToRunning_def UpdateTaskToRunning_tx_def run_tx_def varchar_ok_def)
qed

end
