(* ===== verification/Work_Queue.thy ===== *)
theory Work_Queue
  imports Dts_Prelude
begin

text \<open>
  The contract of a queue that one side appends to and background threads take from: what was
  accepted is, in order, what has been taken followed by what still waits. Three components hand
  work to their threads this way (the database batcher, the task submitter, the thread pool); each
  interprets the locale on its own step relation.
\<close>

locale handoff =
  fixes step :: "'s \<Rightarrow> 's \<Rightarrow> bool"
    and init :: 's
    and accepted :: "'s \<Rightarrow> 'a list"
    and taken :: "'s \<Rightarrow> 'a list"
    and waiting :: "'s \<Rightarrow> 'a list"
  assumes start: "accepted init = taken init @ waiting init"
    and grows: "step s s' \<Longrightarrow> \<exists>xs. accepted s' = accepted s @ xs \<and> (\<exists>ys. taken s' = taken s @ ys) \<and>
                  (accepted s = taken s @ waiting s \<longrightarrow> accepted s' = taken s' @ waiting s')"
begin

lemma fifo: "step\<^sup>*\<^sup>* init s \<Longrightarrow> accepted s = taken s @ waiting s"
proof (induction rule: rtranclp_induct)
  case base
  show ?case by (rule start)
next
  case (step y z)
  then show ?case using grows by blast
qed

lemma monotone:
  "step\<^sup>*\<^sup>* s s' \<Longrightarrow> \<exists>xs ys. accepted s' = accepted s @ xs \<and> taken s' = taken s @ ys"
proof (induction rule: rtranclp_induct)
  case (step y z)
  then show ?case using grows [OF step.hyps(2)] by fastforce
qed simp

lemma taken_prefix: "step\<^sup>*\<^sup>* init s \<Longrightarrow> taken s = take (length (taken s)) (accepted s)"
  using fifo by simp

lemma taken_once: "step\<^sup>*\<^sup>* init s \<Longrightarrow> distinct (accepted s) \<Longrightarrow> distinct (taken s)"
  using fifo [of s] by simp

lemma drained: "step\<^sup>*\<^sup>* init s \<Longrightarrow> waiting s = [] \<Longrightarrow> taken s = accepted s"
  using fifo [of s] by simp

text \<open>What was accepted at some time is taken, in order, once nothing waits later.\<close>

lemma eventually_taken:
  "step\<^sup>*\<^sup>* init s \<Longrightarrow> step\<^sup>*\<^sup>* s s' \<Longrightarrow> waiting s' = [] \<Longrightarrow> \<exists>ys. taken s' = accepted s @ ys"
  using monotone [of s s'] drained [of s'] by (metis rtranclp_trans)

end

end
