(* ===== verification/Db_Batcher.thy ===== *)
theory Db_Batcher
  imports Database_Pool Work_Queue
begin

text \<open>
  \<open>src/scheduler/src/db_batcher.cpp\<close>: the scheduler's write-behind queue of status updates.
  Producers append under the mutex, one thread moves up to \<open>kBatchSize\<close> updates out and writes
  them with one \<open>UPDATE ... FROM (VALUES ...)\<close>. When several rows of the VALUES list name the
  same task PostgreSQL uses one of them and does not say which: \<open>pick\<close> chooses.
\<close>

record TaskUpdateOp =
  op_task_id :: string
  op_state :: "32 word"
  op_result_json :: string
  op_error_msg :: string
  op_worker_id :: string

definition kBatchSize :: nat where "kBatchSize = 1000"

section \<open>One flush\<close>

definition op_json :: "TaskUpdateOp \<Rightarrow> string" where
  "op_json op = (if op_result_json op = [] then ''{}'' else op_result_json op)"

definition ops_for :: "TaskUpdateOp list \<Rightarrow> task_row \<Rightarrow> TaskUpdateOp list" where
  "ops_for batch r = filter (\<lambda>op. op_task_id op = tr_task_id r) batch"

text \<open>
  The casts: every task id is cast to \<open>uuid\<close> by the join; the new values are cast for the rows
  that join.
\<close>

definition op_values_ok :: "pg_types \<Rightarrow> TaskUpdateOp \<Rightarrow> bool" where
  "op_values_ok T op \<longleftrightarrow> pg_json_ok T (op_json op) \<and> in_smallint (sint (op_state op)) \<and>
     length (op_worker_id op) \<le> 255"

definition apply_op :: "int \<Rightarrow> TaskUpdateOp \<Rightarrow> task_row \<Rightarrow> task_row" where
  "apply_op now op r =
     r\<lparr>tr_state := sint (op_state op), tr_result := Some (op_json op),
       tr_error_msg := Some (op_error_msg op), tr_worker_id := Some (op_worker_id op),
       tr_finish_ts := Some now\<rparr>"

definition FlushBatch_tx ::
  "pg_types \<Rightarrow> (TaskUpdateOp list \<Rightarrow> TaskUpdateOp) \<Rightarrow> int \<Rightarrow> TaskUpdateOp list \<Rightarrow>
   (database \<times> unit, db_err, unit) sem"
where
  "FlushBatch_tx T pick now batch = (\<lambda>(db, u).
     if \<exists>op \<in> set batch. \<not> pg_uuid_ok T (op_task_id op)
     then (Inl (StdExn ''invalid input syntax for type uuid''), (db, u))
     else if \<exists>r \<in> set (db_tasks db). \<exists>op \<in> set (ops_for batch r). \<not> op_values_ok T op
     then (Inl (StdExn ''invalid value''), (db, u))
     else (Inr (), (upd_tasks (\<lambda>r. ops_for batch r \<noteq> [])
                      (\<lambda>r. apply_op now (pick (ops_for batch r)) r) db, u)))"

text \<open>\<open>FlushBatch\<close>: an exception is logged and the batch is gone.\<close>

definition FlushBatch ::
  "pg_types \<Rightarrow> (TaskUpdateOp list \<Rightarrow> TaskUpdateOp) \<Rightarrow> tx_env \<Rightarrow> TaskUpdateOp list \<Rightarrow> database \<Rightarrow> database"
where
  "FlushBatch T pick E batch db =
     (if batch = [] then db
      else case run_tx E (FlushBatch_tx T pick (te_now E) batch) (db, ()) of
        (Inl e, (db', _)) \<Rightarrow> db'
      | (Inr _, (db', _)) \<Rightarrow> db')"

section \<open>The queue and the thread\<close>

datatype thread_state = Looping | Flushing "TaskUpdateOp list" | Exited

text \<open>\<open>bt_added\<close> and \<open>bt_moved\<close> record what was added and what the thread moved out.\<close>

record batcher =
  bt_queue :: "TaskUpdateOp list"
  bt_stop :: bool
  bt_thread :: thread_state
  bt_db :: database
  bt_added :: "TaskUpdateOp list"
  bt_moved :: "TaskUpdateOp list"

definition new_batcher :: "database \<Rightarrow> batcher" where
  "new_batcher db =
     \<lparr>bt_queue = [], bt_stop = False, bt_thread = Looping, bt_db = db, bt_added = [], bt_moved = []\<rparr>"

text \<open>\<open>AddStatusUpdate\<close>; the flag says whether the thread is notified.\<close>

definition AddStatusUpdate :: "TaskUpdateOp \<Rightarrow> batcher \<Rightarrow> bool \<times> batcher" where
  "AddStatusUpdate op s =
     (length (bt_queue s) + 1 \<ge> kBatchSize,
      s\<lparr>bt_queue := bt_queue s @ [op], bt_added := bt_added s @ [op]\<rparr>)"

text \<open>
  One iteration of \<open>RunLoop\<close> up to the flush: the loop condition, and what follows the timed
  wait (which may end at any time, by its predicate or by the timeout).
\<close>

definition RunLoop_iter :: "batcher \<Rightarrow> batcher" where
  "RunLoop_iter s =
     (if \<not> (\<not> bt_stop s \<or> bt_queue s \<noteq> []) then s\<lparr>bt_thread := Exited\<rparr>
      else if bt_queue s = [] then (if bt_stop s then s\<lparr>bt_thread := Exited\<rparr> else s)
      else (let batch = take kBatchSize (bt_queue s)
            in s\<lparr>bt_queue := drop kBatchSize (bt_queue s), bt_thread := Flushing batch,
                 bt_moved := bt_moved s @ batch\<rparr>))"

definition RunLoop_flush ::
  "pg_types \<Rightarrow> (TaskUpdateOp list \<Rightarrow> TaskUpdateOp) \<Rightarrow> tx_env \<Rightarrow> TaskUpdateOp list \<Rightarrow> batcher \<Rightarrow> batcher"
where
  "RunLoop_flush T pick E batch s =
     s\<lparr>bt_db := FlushBatch T pick E batch (bt_db s), bt_thread := Looping\<rparr>"

definition Stop_batcher :: "batcher \<Rightarrow> batcher" where
  "Stop_batcher s = s\<lparr>bt_stop := True\<rparr>"

inductive batcher_step ::
  "pg_types \<Rightarrow> (TaskUpdateOp list \<Rightarrow> TaskUpdateOp) \<Rightarrow> batcher \<Rightarrow> batcher \<Rightarrow> bool" for T pick
where
  add: "batcher_step T pick s (snd (AddStatusUpdate op s))"
| stop: "batcher_step T pick s (Stop_batcher s)"
| iter: "bt_thread s = Looping \<Longrightarrow> batcher_step T pick s (RunLoop_iter s)"
| flush: "bt_thread s = Flushing batch \<Longrightarrow> batcher_step T pick s (RunLoop_flush T pick E batch s)"

lemma batcher_step_handoff:
  "batcher_step T pick s s' \<Longrightarrow>
   \<exists>xs. bt_added s' = bt_added s @ xs \<and> (\<exists>ys. bt_moved s' = bt_moved s @ ys) \<and>
     (bt_added s = bt_moved s @ bt_queue s \<longrightarrow> bt_added s' = bt_moved s' @ bt_queue s')"
  by (induction rule: batcher_step.induct)
    (auto simp: AddStatusUpdate_def Stop_batcher_def RunLoop_iter_def RunLoop_flush_def Let_def)

interpretation batcher: handoff "batcher_step T pick" "new_batcher db" bt_added bt_moved bt_queue
  by unfold_locales (simp add: new_batcher_def, rule batcher_step_handoff)

lemma batcher_exit:
  "(batcher_step T pick)\<^sup>*\<^sup>* (new_batcher db) s \<Longrightarrow> bt_thread s = Exited \<Longrightarrow> bt_stop s"
proof (induction rule: rtranclp_induct)
  case (step y z)
  from step.hyps(2) step.IH step.prems show ?case
    by cases (auto simp: AddStatusUpdate_def Stop_batcher_def RunLoop_iter_def RunLoop_flush_def
        Let_def split: if_splits)
qed (simp add: new_batcher_def)

section \<open>Properties\<close>

text \<open>
  The batcher loses and repeats nothing on its way to the database. Whatever the interleaving of
  producers, the thread and \<open>Stop\<close>: what the thread has moved out is, in order, a prefix of
  what was added, the rest is in the queue, and a batch in hand has at most 1000 updates; the
  thread exits only after \<open>Stop\<close>.
\<close>

theorem batcher_fifo:
  assumes "(batcher_step T pick)\<^sup>*\<^sup>* (new_batcher db) s"
  shows "bt_added s = bt_moved s @ bt_queue s \<and>
         (distinct (bt_added s) \<longrightarrow> distinct (bt_moved s)) \<and>
         (\<forall>batch. bt_thread s = Flushing batch \<longrightarrow> length batch \<le> 1000 \<and> batch \<noteq> []) \<and>
         (bt_thread s = Exited \<longrightarrow> bt_stop s)"
proof -
  have "\<forall>batch. bt_thread s = Flushing batch \<longrightarrow> length batch \<le> 1000 \<and> batch \<noteq> []"
    using assms
  proof (induction rule: rtranclp_induct)
    case (step y z)
    from step.hyps(2) step.IH show ?case
      by cases (auto simp: AddStatusUpdate_def Stop_batcher_def RunLoop_iter_def RunLoop_flush_def
          Let_def kBatchSize_def)
  qed (simp add: new_batcher_def)
  then show ?thesis
    using batcher.fifo [OF assms] batcher.taken_once [OF assms] batcher_exit [OF assms] by blast
qed

definition sample_op :: "string \<Rightarrow> string \<Rightarrow> TaskUpdateOp" where
  "sample_op i json =
     \<lparr>op_task_id = i, op_state = 2, op_result_json = json, op_error_msg = '''', op_worker_id = ''w''\<rparr>"

theorem batcher_fifo_witness:
  "\<exists>s. (batcher_step sample_types hd)\<^sup>*\<^sup>* (new_batcher \<lparr>db_jobs = [], db_tasks = [], db_edges = []\<rparr>) s \<and>
       bt_moved s = [sample_op ''a'' []] \<and> bt_added s = bt_moved s @ bt_queue s"
proof -
  let ?s0 = "new_batcher \<lparr>db_jobs = [], db_tasks = [], db_edges = []\<rparr>"
  let ?s1 = "snd (AddStatusUpdate (sample_op ''a'' []) ?s0)" and ?s2 = "RunLoop_iter (snd (AddStatusUpdate (sample_op ''a'' []) ?s0))"
  have "batcher_step sample_types hd ?s0 ?s1" by (rule batcher_step.add)
  moreover have "batcher_step sample_types hd ?s1 ?s2"
    by (rule batcher_step.iter) (simp add: AddStatusUpdate_def new_batcher_def)
  ultimately have r: "(batcher_step sample_types hd)\<^sup>*\<^sup>* ?s0 ?s2" by simp
  moreover have "bt_moved ?s2 = [sample_op ''a'' []]"
    by (simp add: RunLoop_iter_def AddStatusUpdate_def new_batcher_def kBatchSize_def Let_def)
  ultimately show ?thesis using batcher_fifo [OF r] by blast
qed

text \<open>The thread after \<open>Stop\<close>, with no more producers: iterations and flushes in turn.\<close>

function drain ::
  "pg_types \<Rightarrow> (TaskUpdateOp list \<Rightarrow> TaskUpdateOp) \<Rightarrow> tx_env \<Rightarrow> TaskUpdateOp list \<Rightarrow> database \<Rightarrow> database \<times> nat"
where
  "drain T pick E q db =
     (if q = [] then (db, 0)
      else (let (db', n) = drain T pick E (drop kBatchSize q) (FlushBatch T pick E (take kBatchSize q) db)
            in (db', Suc n)))"
  by pat_completeness auto
termination
  by (relation "measure (\<lambda>(T, pick, E, q, db). length q)") (auto simp: kBatchSize_def)

declare drain.simps [simp del]

fun run_stopped ::
  "pg_types \<Rightarrow> (TaskUpdateOp list \<Rightarrow> TaskUpdateOp) \<Rightarrow> tx_env \<Rightarrow> nat \<Rightarrow> batcher \<Rightarrow> batcher" where
  "run_stopped T pick E 0 s = s"
| "run_stopped T pick E (Suc fuel) s =
     (case bt_thread s of
        Exited \<Rightarrow> s
      | Flushing batch \<Rightarrow> run_stopped T pick E fuel (RunLoop_flush T pick E batch s)
      | Looping \<Rightarrow> run_stopped T pick E fuel (RunLoop_iter s))"

lemma run_stopped_drains:
  "bt_stop s \<Longrightarrow> bt_thread s = Looping \<Longrightarrow>
   run_stopped T pick E (2 * snd (drain T pick E (bt_queue s) (bt_db s)) + 1 + k) s =
     s\<lparr>bt_queue := [], bt_thread := Exited, bt_moved := bt_moved s @ bt_queue s,
       bt_db := fst (drain T pick E (bt_queue s) (bt_db s))\<rparr>"
proof (induction T pick E "bt_queue s" "bt_db s" arbitrary: s rule: drain.induct)
  case (1 T pick E)
  show ?case
  proof (cases "bt_queue s = []")
    case True
    then show ?thesis using 1(2,3) by (cases k) (simp_all add: drain.simps RunLoop_iter_def)
  next
    case False
    let ?b = "take kBatchSize (bt_queue s)"
    let ?s2 = "RunLoop_flush T pick E ?b (RunLoop_iter s)"
    have s2: "bt_queue ?s2 = drop kBatchSize (bt_queue s)" "bt_db ?s2 = FlushBatch T pick E ?b (bt_db s)"
      "bt_stop ?s2" "bt_thread ?s2 = Looping" "bt_moved ?s2 = bt_moved s @ ?b" "bt_added ?s2 = bt_added s"
      using False 1(2) by (simp_all add: RunLoop_flush_def RunLoop_iter_def Let_def)
    have d: "drain T pick E (bt_queue s) (bt_db s) =
        (fst (drain T pick E (bt_queue ?s2) (bt_db ?s2)), Suc (snd (drain T pick E (bt_queue ?s2) (bt_db ?s2))))"
      using False by (subst drain.simps) (simp add: s2 split_beta)
    have "run_stopped T pick E (2 * snd (drain T pick E (bt_queue s) (bt_db s)) + 1 + k) s =
        run_stopped T pick E (2 * snd (drain T pick E (bt_queue ?s2) (bt_db ?s2)) + 1 + k) ?s2"
      using False 1(2,3) by (simp add: d RunLoop_iter_def Let_def)
    also have "\<dots> = ?s2\<lparr>bt_queue := [], bt_thread := Exited, bt_moved := bt_moved ?s2 @ bt_queue ?s2,
       bt_db := fst (drain T pick E (bt_queue ?s2) (bt_db ?s2))\<rparr>"
      by (rule 1(1) [OF False s2(1) [symmetric] s2(2) [symmetric] s2(3,4)])
    finally show ?thesis
      using False by (simp add: d s2(1,5)) (simp add: RunLoop_flush_def RunLoop_iter_def Let_def)
  qed
qed

lemma drain_batches: "snd (drain T pick E q db) \<le> length q div 1000 + 1"
proof (induction T pick E q db rule: drain.induct)
  case (1 T pick E q db)
  show ?case
  proof (cases "q = []")
    case True
    then show ?thesis by (simp add: drain.simps)
  next
    case False
    let ?d = "drain T pick E (drop kBatchSize q) (FlushBatch T pick E (take kBatchSize q) db)"
    have d: "snd (drain T pick E q db) = Suc (snd ?d)"
      using False by (subst drain.simps) (simp add: split_beta)
    show ?thesis
    proof (cases "length q \<le> 1000")
      case True
      then have "drop kBatchSize q = []" by (simp add: kBatchSize_def)
      then have "snd ?d = 0" by (simp add: drain.simps)
      with d show ?thesis by simp
    next
      case False
      then have "length (drop kBatchSize q) div 1000 + 1 \<le> length q div 1000"
        by (simp add: kBatchSize_def)
      with 1 [OF \<open>q \<noteq> []\<close>] d show ?thesis by simp
    qed
  qed
qed

text \<open>
  \<open>Stop\<close> flushes what is left. From any state the batcher can reach with the stop flag set
  and the thread between two batches, if nothing more is added, the thread exits after at most
  \<open>2 * (n div 1000 + 1) + 1\<close> of its steps, \<open>n\<close> being the length of the queue, and every
  update ever added has then been handed to a flush, in order.
\<close>

theorem stop_flushes_everything:
  assumes "(batcher_step T pick)\<^sup>*\<^sup>* (new_batcher db) s" "bt_stop s" "bt_thread s = Looping"
    and "fuel = 2 * (length (bt_queue s) div 1000 + 1) + 1"
  shows "bt_thread (run_stopped T pick E fuel s) = Exited \<and> bt_queue (run_stopped T pick E fuel s) = [] \<and>
         bt_moved (run_stopped T pick E fuel s) = bt_added s"
proof -
  have "2 * snd (drain T pick E (bt_queue s) (bt_db s)) + 1 \<le> fuel"
    using drain_batches [of T pick E "bt_queue s" "bt_db s"] assms(4) by simp
  then obtain k where "fuel = 2 * snd (drain T pick E (bt_queue s) (bt_db s)) + 1 + k"
    using le_Suc_ex by blast
  with run_stopped_drains [OF assms(2,3), of T pick E k] batcher.fifo [OF assms(1)]
  show ?thesis by simp
qed

theorem stop_flushes_everything_witness:
  "bt_thread (run_stopped sample_types hd (tx_ok 1) 3
     (Stop_batcher (new_batcher \<lparr>db_jobs = [], db_tasks = [], db_edges = []\<rparr>))) = Exited"
proof -
  let ?s0 = "new_batcher \<lparr>db_jobs = [], db_tasks = [], db_edges = []\<rparr>"
  have "(batcher_step sample_types hd)\<^sup>*\<^sup>* ?s0 (Stop_batcher ?s0)"
    by (rule r_into_rtranclp) (rule batcher_step.stop)
  from stop_flushes_everything [OF this, of 3 "tx_ok 1"] show ?thesis
    by (simp add: Stop_batcher_def new_batcher_def)
qed

lemma ops_for_distinct:
  "distinct (map op_task_id batch) \<Longrightarrow> op \<in> set batch \<Longrightarrow> op_task_id op = tr_task_id r \<Longrightarrow>
   ops_for batch r = [op]"
  unfolding ops_for_def by (rule distinct_set_single) (auto simp: distinct_map inj_on_def)

text \<open>
  A flush applies its updates. When every update of a batch names a different task and its
  values fit their columns, the transaction stores for each task of the batch exactly its update
  (state, result, error, worker, finish time) and leaves every other task alone.
\<close>

theorem flush_applies_updates:
  assumes "distinct (map op_task_id batch)" "\<forall>op \<in> set batch. pg_uuid_ok T (op_task_id op) \<and> op_values_ok T op"
    and "\<And>xs. xs \<noteq> [] \<Longrightarrow> pick xs \<in> set xs" "db' = FlushBatch T pick (tx_ok now) batch db"
  shows "(\<forall>op \<in> set batch. find_task db' (op_task_id op) =
            map_option (apply_op now op) (find_task db (op_task_id op))) \<and>
         (\<forall>i. i \<notin> op_task_id ` set batch \<longrightarrow> find_task db' i = find_task db i)"
proof -
  let ?f = "\<lambda>r. apply_op now (pick (ops_for batch r)) r"
  have "\<forall>r \<in> set (db_tasks db). \<forall>op \<in> set (ops_for batch r). op_values_ok T op"
    using assms(2) by (simp add: ops_for_def)
  then have "db' = upd_tasks (\<lambda>r. ops_for batch r \<noteq> []) ?f db" if "batch \<noteq> []"
    using that assms(2,4) by (auto simp: FlushBatch_def FlushBatch_tx_def tx_ok_def run_tx_def)
  moreover have "db' = upd_tasks (\<lambda>r. ops_for batch r \<noteq> []) ?f db" if "batch = []"
    using that assms(4) by (simp add: FlushBatch_def ops_for_def upd_tasks_def sql_update_def)
  ultimately have db': "db' = upd_tasks (\<lambda>r. ops_for batch r \<noteq> []) ?f db" by blast
  have find: "find_task db' i = map_option (\<lambda>r. if ops_for batch r \<noteq> [] then ?f r else r) (find_task db i)" for i
    unfolding db' by (rule find_task_upd) (simp add: apply_op_def)
  show ?thesis
  proof (intro conjI ballI allI impI)
    fix op assume op: "op \<in> set batch"
    have "ops_for batch r = [op] \<and> pick [op] = op" if "find_task db (op_task_id op) = Some r" for r
      using find_task_Some [OF that] ops_for_distinct [OF assms(1) op] assms(3) [of "[op]"] by simp
    then show "find_task db' (op_task_id op) = map_option (apply_op now op) (find_task db (op_task_id op))"
      by (cases "find_task db (op_task_id op)") (auto simp: find)
  next
    fix i assume i: "i \<notin> op_task_id ` set batch"
    have "ops_for batch r = []" if "find_task db i = Some r" for r
      using find_task_Some [OF that] i by (auto simp: ops_for_def filter_empty_conv image_iff)
    then show "find_task db' i = find_task db i" by (cases "find_task db i") (auto simp: find)
  qed
qed

definition one_task_db :: database where
  "one_task_db = \<lparr>db_jobs = [], db_tasks =
     [\<lparr>tr_task_id = ''a'', tr_job_id = ''j'', tr_natural_id = ''x'', tr_func_name = ''f'',
       tr_func_params = None, tr_state = 0, tr_priority = 0, tr_retry_count = 0, tr_max_retry = 0,
       tr_timeout_ms = 0, tr_pending_dependencies = 0, tr_error_msg = None, tr_submit_ts = None,
       tr_start_ts = None, tr_finish_ts = None, tr_result = None, tr_worker_id = None\<rparr>], db_edges = []\<rparr>"

theorem flush_applies_updates_witness:
  "map_option tr_state (find_task (FlushBatch sample_types hd (tx_ok 9) [sample_op ''a'' []] one_task_db) ''a'') = Some 2"
proof -
  have "\<forall>op \<in> set [sample_op ''a'' []].
      find_task (FlushBatch sample_types hd (tx_ok 9) [sample_op ''a'' []] one_task_db) (op_task_id op) =
      map_option (apply_op 9 op) (find_task one_task_db (op_task_id op))"
    by (rule flush_applies_updates [where T = sample_types and pick = hd, THEN conjunct1, OF _ _ _ refl])
      (simp_all add: sample_op_def op_values_ok_def op_json_def in_smallint_def)
  then show ?thesis
    by (simp add: sample_op_def apply_op_def one_task_db_def find_task_def task_by_id_def)
qed

text \<open>
  One result that is not JSON loses its whole batch: the transaction is rolled back, and the
  updates of all other tasks of the batch are dropped with it, for they are not put back.
\<close>

theorem bad_result_loses_batch:
  assumes "op \<in> set batch" "find_task db (op_task_id op) = Some r" "\<not> pg_json_ok T (op_json op)"
  shows "FlushBatch T pick E batch db = db"
proof -
  have "op \<in> set (ops_for batch r)" "r \<in> set (db_tasks db)"
    using assms(1) find_task_Some [OF assms(2)] by (simp_all add: ops_for_def)
  then have "\<exists>r \<in> set (db_tasks db). \<exists>op \<in> set (ops_for batch r). \<not> op_values_ok T op"
    using assms(3) by (auto simp: op_values_ok_def)
  then have "\<exists>e s. FlushBatch_tx T pick (te_now E) batch (db, ()) = (Inl e, s)"
    unfolding FlushBatch_tx_def prod.case
    by (cases "\<exists>op \<in> set batch. \<not> pg_uuid_ok T (op_task_id op)") simp_all
  then obtain e s where "FlushBatch_tx T pick (te_now E) batch (db, ()) = (Inl e, s)" by blast
  from run_tx_logic_fails [where f = "FlushBatch_tx T pick (te_now E) batch", OF this, of E]
  obtain e' where "fst (run_tx E (FlushBatch_tx T pick (te_now E) batch) (db, ())) = Inl e'"
    "fst (snd (run_tx E (FlushBatch_tx T pick (te_now E) batch) (db, ()))) = db"
    by auto
  then show ?thesis
    by (cases "run_tx E (FlushBatch_tx T pick (te_now E) batch) (db, ())") (auto simp: FlushBatch_def)
qed

theorem bad_result_loses_batch_witness:
  "FlushBatch \<lparr>pg_uuid_ok = (\<lambda>s. s \<noteq> []), pg_json_ok = (\<lambda>s. hd s = CHR ''{'')\<rparr> hd (tx_ok 9)
     [sample_op ''b'' []  , sample_op ''a'' ''plain text''] one_task_db = one_task_db"
  by (rule bad_result_loses_batch [where op = "sample_op ''a'' ''plain text''" and r = "hd (db_tasks one_task_db)"])
    (simp_all add: sample_op_def op_json_def one_task_db_def find_task_def task_by_id_def)

end
