(* ===== verification/Redis_Manager.thy ===== *)
theory Redis_Manager
  imports Complete_Task
begin

text \<open>
  \<open>src/common/src/redis/RedisManager.cpp\<close>: the facade the components use. It turns every
  exception of the client into an empty answer, counts an existing consumer group as created, and
  runs a script by its hash, falling back to the text when the server has forgotten it.

  The commands of consumer groups and of script hosting are fields of two records; \<open>script_host\<close>
  states what the code relies on for scripts, extending \<open>redis_store\<close>.
\<close>

record 'r group_ops =
  g_xgroup_create :: "string \<Rightarrow> string \<Rightarrow> string \<Rightarrow> bool \<Rightarrow> ('r, redis_err, unit) sem"
  g_xreadgroup :: "string \<Rightarrow> string \<Rightarrow> string \<Rightarrow> int \<Rightarrow> int \<Rightarrow>
    ('r, redis_err, (string \<times> stream_entry list) list) sem"
  g_xack :: "string \<Rightarrow> string \<Rightarrow> string \<Rightarrow> ('r, redis_err, int) sem"
  g_xclaim :: "string \<Rightarrow> string \<Rightarrow> string \<Rightarrow> int \<Rightarrow> string list \<Rightarrow> ('r, redis_err, stream_entry list) sem"
  g_xpending :: "string \<Rightarrow> string \<Rightarrow> string \<Rightarrow> string \<Rightarrow> int \<Rightarrow> string option \<Rightarrow>
    ('r, redis_err, (string \<times> string \<times> int \<times> int) list) sem"

record 'r script_ops =
  so_load :: "string \<Rightarrow> ('r, redis_err, string) sem"
  so_evalsha :: "string \<Rightarrow> string list \<Rightarrow> string list \<Rightarrow> ('r, redis_err, int option) sem"
  so_eval :: "string \<Rightarrow> string list \<Rightarrow> string list \<Rightarrow> ('r, redis_err, int) sem"

record PendingEntry =
  pe_id :: string
  pe_consumer :: string
  pe_idle_time_ms :: int
  pe_delivery_count :: int

text \<open>Whether \<open>Initialize\<close> has created the client, and the cache of loaded scripts.\<close>

record RedisManager =
  rm_client :: bool
  rm_script_cache :: "string \<Rightarrow> string option"

text \<open>\<open>e.what()\<close>, and \<open>msg.find(p) != npos\<close>.\<close>

fun err_what :: "redis_err \<Rightarrow> string" where
  "err_what (RedisError m) = m"
| "err_what (StdException m) = m"

fun contains :: "string \<Rightarrow> string \<Rightarrow> bool" where
  "contains p [] = (p = [])"
| "contains p (c # s) = (take (length p) (c # s) = p \<or> contains p s)"

section \<open>Streams\<close>

definition XAdd ::
  "RedisManager \<Rightarrow> 'r redis_ops \<Rightarrow> string \<Rightarrow> fields \<Rightarrow> string \<Rightarrow> 'r \<Rightarrow> string option \<times> 'r" where
  "XAdd M R key field_values i r =
     (if \<not> rm_client M then (None, r)
      else case r_xadd R key i field_values r of
        (Inr x, r') \<Rightarrow> (Some x, r') | (Inl e, r') \<Rightarrow> (None, r'))"

definition XGroupCreate ::
  "RedisManager \<Rightarrow> 'r group_ops \<Rightarrow> string \<Rightarrow> string \<Rightarrow> string \<Rightarrow> bool \<Rightarrow> 'r \<Rightarrow> bool \<times> 'r" where
  "XGroupCreate M G key group_name i mkstream r =
     (if \<not> rm_client M then (False, r)
      else case g_xgroup_create G key group_name i mkstream r of
        (Inr _, r') \<Rightarrow> (True, r')
      | (Inl (RedisError msg), r') \<Rightarrow> (if contains ''BUSYGROUP'' msg then (True, r') else (False, r'))
      | (Inl (StdException msg), r') \<Rightarrow> (False, r'))"

definition XReadGroup ::
  "RedisManager \<Rightarrow> 'r group_ops \<Rightarrow> string \<Rightarrow> string \<Rightarrow> string \<Rightarrow> int \<Rightarrow> int \<Rightarrow> 'r \<Rightarrow>
   stream_entry list option \<times> 'r"
where
  "XReadGroup M G grp consumer key cnt block_ms r =
     (if \<not> rm_client M then (None, r)
      else case g_xreadgroup G grp consumer key cnt block_ms r of
        (Inr result, r') \<Rightarrow>
          (case result of [] \<Rightarrow> (Some [], r') | (_, entries) # _ \<Rightarrow> (Some entries, r'))
      | (Inl e, r') \<Rightarrow> (None, r'))"

definition XAck :: "RedisManager \<Rightarrow> 'r group_ops \<Rightarrow> string \<Rightarrow> string \<Rightarrow> string \<Rightarrow> 'r \<Rightarrow> int \<times> 'r" where
  "XAck M G key grp i r =
     (if \<not> rm_client M then (-1, r)
      else case g_xack G key grp i r of (Inr n, r') \<Rightarrow> (n, r') | (Inl e, r') \<Rightarrow> (-1, r'))"

definition XClaim ::
  "RedisManager \<Rightarrow> 'r group_ops \<Rightarrow> string \<Rightarrow> string \<Rightarrow> string \<Rightarrow> int \<Rightarrow> string list \<Rightarrow> 'r \<Rightarrow>
   stream_entry list option \<times> 'r"
where
  "XClaim M G key grp consumer min_idle_ms ids r =
     (if \<not> rm_client M \<or> ids = [] then (None, r)
      else case g_xclaim G key grp consumer min_idle_ms ids r of
        (Inr es, r') \<Rightarrow> (Some es, r') | (Inl e, r') \<Rightarrow> (None, r'))"

definition XPending ::
  "RedisManager \<Rightarrow> 'r group_ops \<Rightarrow> string \<Rightarrow> string \<Rightarrow> int \<Rightarrow> string \<Rightarrow> string \<Rightarrow> string \<Rightarrow> 'r \<Rightarrow>
   PendingEntry list option \<times> 'r"
where
  "XPending M G key grp cnt start_id end_id consumer r =
     (if \<not> rm_client M then (None, r)
      else case g_xpending G key grp start_id end_id cnt (if consumer = [] then None else Some consumer) r of
        (Inr details, r') \<Rightarrow>
          (Some (map (\<lambda>(i, c, idle, n). \<lparr>pe_id = i, pe_consumer = c, pe_idle_time_ms = idle,
                        pe_delivery_count = n\<rparr>) details), r')
      | (Inl e, r') \<Rightarrow> (None, r'))"

section \<open>Scripts\<close>

definition LoadScript ::
  "'r script_ops \<Rightarrow> string \<Rightarrow> (RedisManager \<times> 'r, redis_err, string) sem" where
  "LoadScript SC script_content = (\<lambda>(M, r).
     if \<not> rm_client M then (Inl (StdException ''Redis not initialized''), (M, r))
     else if script_content = [] then (Inl (StdException ''script_content cannot be empty''), (M, r))
     else case so_load SC script_content r of
       (Inl e, r') \<Rightarrow> (Inl e, (M, r'))
     | (Inr sha, r') \<Rightarrow>
         (Inr sha, (M\<lparr>rm_script_cache := (rm_script_cache M)(sha \<mapsto> script_content)\<rparr>, r')))"

definition EvalSha ::
  "RedisManager \<Rightarrow> 'r script_ops \<Rightarrow> string \<Rightarrow> string list \<Rightarrow> string list \<Rightarrow> 'r \<Rightarrow> int option \<times> 'r" where
  "EvalSha M SC sha keys args r =
     (if \<not> rm_client M then (None, r)
      else case so_evalsha SC sha keys args r of
        (Inr result, r') \<Rightarrow> (result, r')
      | (Inl (RedisError err_msg), r') \<Rightarrow>
          (if contains ''NOSCRIPT'' err_msg
           then (let script_content = (case rm_script_cache M sha of None \<Rightarrow> [] | Some s \<Rightarrow> s)
                 in if script_content \<noteq> []
                    then (case so_eval SC script_content keys args r' of
                            (Inr result, r'') \<Rightarrow> (Some result, r'')
                          | (Inl e, r'') \<Rightarrow> (None, r''))
                    else (None, r'))
           else (None, r'))
      | (Inl (StdException err_msg), r') \<Rightarrow> (None, r'))"

text \<open>\<open>ExecPipeline\<close>: a callback fills the pipeline, an exception of either step is an empty answer.\<close>

definition ExecPipeline ::
  "RedisManager \<Rightarrow> ('cmd list \<Rightarrow> ('r, redis_err, 'reply) sem) \<Rightarrow> (redis_err + 'cmd list) \<Rightarrow> 'r \<Rightarrow> 'reply option \<times> 'r"
where
  "ExecPipeline M run_pipe scope r =
     (if \<not> rm_client M then (None, r)
      else case scope of
        Inl e \<Rightarrow> (None, r)
      | Inr cmds \<Rightarrow>
          (case run_pipe cmds r of (Inr x, r') \<Rightarrow> (Some x, r') | (Inl e, r') \<Rightarrow> (None, r')))"

definition GetConnection :: "RedisManager \<Rightarrow> redis_err + unit" where
  "GetConnection M =
     (if rm_client M then Inr ()
      else Inl (StdException ''RedisManager is not initialized! Call Initialize() first.''))"

section \<open>Script hosting\<close>

text \<open>
  \<open>sha\<close> is the server's hash, \<open>hosted\<close> the hashes it knows at the moment; a server that was
  restarted or flushed knows none. Running the completion script is \<open>complete_task\<close>.
\<close>

locale script_host = redis_store R view up
  for R :: "'r redis_ops" and view :: "'r \<Rightarrow> keyspace" and up :: "'r \<Rightarrow> bool" +
  fixes SC :: "'r script_ops"
    and sha :: "string \<Rightarrow> string"
    and hosted :: "'r \<Rightarrow> string set"
    and script :: string
  assumes load: "up r \<Longrightarrow> \<exists>r'. so_load SC s r = (Inr (sha s), r') \<and> up r' \<and> view r' = view r"
    and hit: "up r \<Longrightarrow> sha script \<in> hosted r \<Longrightarrow>
      \<exists>r1. up r1 \<and> view r1 = view r \<and>
        so_evalsha SC (sha script) [k1, k2, k3, k4] [job] r =
          (case complete_task R k1 k2 k3 k4 job r1 of (Inr n, r') \<Rightarrow> (Inr (Some n), r') | (Inl e, r') \<Rightarrow> (Inl e, r'))"
    and miss: "up r \<Longrightarrow> sha script \<notin> hosted r \<Longrightarrow>
      \<exists>m r1. so_evalsha SC (sha script) keys args r = (Inl (RedisError m), r1) \<and>
        contains ''NOSCRIPT'' m \<and> up r1 \<and> view r1 = view r"
    and eval: "up r \<Longrightarrow>
      \<exists>r1. up r1 \<and> view r1 = view r \<and>
        so_eval SC script [k1, k2, k3, k4] [job] r = complete_task R k1 k2 k3 k4 job r1"
begin

text \<open>Whether or not the server still knows the script, \<open>EvalSha\<close> runs it once.\<close>

lemma EvalSha_runs:
  assumes "up r" "rm_client M" "rm_script_cache M (sha script) = Some script" "script \<noteq> []"
    and ok: "\<And>r1. up r1 \<Longrightarrow> view r1 = view r \<Longrightarrow> \<exists>n r'. complete_task R k1 k2 k3 k4 job r1 = (Inr n, r')"
  shows "\<exists>r1 n r'. up r1 \<and> view r1 = view r \<and> complete_task R k1 k2 k3 k4 job r1 = (Inr n, r') \<and>
     EvalSha M SC (sha script) [k1, k2, k3, k4] [job] r = (Some n, r')"
proof (cases "sha script \<in> hosted r")
  case True
  obtain r1 where r1: "up r1" "view r1 = view r"
    "so_evalsha SC (sha script) [k1, k2, k3, k4] [job] r =
       (case complete_task R k1 k2 k3 k4 job r1 of (Inr n, r') \<Rightarrow> (Inr (Some n), r') | (Inl e, r') \<Rightarrow> (Inl e, r'))"
    using hit [OF assms(1) True, of k1 k2 k3 k4 job] by blast
  obtain n r' where "complete_task R k1 k2 k3 k4 job r1 = (Inr n, r')" using ok [OF r1(1,2)] by blast
  with r1 assms(2) show ?thesis
    by (intro exI [of _ r1] exI [of _ n] exI [of _ r']) (simp add: EvalSha_def)
next
  case False
  obtain m r0 where r0: "so_evalsha SC (sha script) [k1, k2, k3, k4] [job] r = (Inl (RedisError m), r0)"
    "contains ''NOSCRIPT'' m" "up r0" "view r0 = view r"
    using miss [OF assms(1) False, of "[k1, k2, k3, k4]" "[job]"] by blast
  obtain r1 where r1: "up r1" "view r1 = view r"
    "so_eval SC script [k1, k2, k3, k4] [job] r0 = complete_task R k1 k2 k3 k4 job r1"
    using eval [OF r0(3), of k1 k2 k3 k4 job] r0(4) by auto
  obtain n r' where "complete_task R k1 k2 k3 k4 job r1 = (Inr n, r')" using ok [OF r1(1,2)] by blast
  with r0 r1 assms(2-4) show ?thesis
    by (intro exI [of _ r1] exI [of _ n] exI [of _ r']) (simp add: EvalSha_def Let_def)
qed

end

text \<open>
  The in-memory keyspace with something beside it that its commands leave alone: whether the script
  is known (the hash of a text is the text), or the state of a consumer group.
\<close>

type_synonym 'k beside = "mem_store \<times> 'k"
type_synonym host_store = "bool beside"

definition lift_op :: "(mem_store, redis_err, 'a) sem \<Rightarrow> ('k beside, redis_err, 'a) sem" where
  "lift_op f = (\<lambda>(m, k). case f m of (x, m') \<Rightarrow> (x, (m', k)))"

definition host_ops :: "'k beside redis_ops" where
  "host_ops =
     \<lparr>r_smembers = \<lambda>k. lift_op (ms_smembers k), r_sadd = \<lambda>k m. lift_op (ms_sadd k m),
      r_hincrby = \<lambda>k f d. lift_op (ms_hincrby k f d), r_hset = \<lambda>k f x. lift_op (ms_hset k f x),
      r_hdel = \<lambda>k f. lift_op (ms_hdel k f), r_hgetall = \<lambda>k. lift_op (ms_hgetall k),
      r_exists = \<lambda>k. lift_op (ms_exists k), r_del = \<lambda>k. lift_op (ms_del k),
      r_get = \<lambda>k. lift_op (ms_get k), r_set = \<lambda>k x t. lift_op (ms_set k x t),
      r_expire = \<lambda>k t. lift_op (ms_expire k t), r_xadd = \<lambda>k i fs. lift_op (ms_xadd k i fs)\<rparr>"

definition host_view :: "'k beside \<Rightarrow> keyspace" where "host_view h = ms_view (fst h)"
definition host_up :: "'k beside \<Rightarrow> bool" where "host_up h = ms_up (fst h)"
definition host_script :: string where "host_script = ''complete''"

definition host_run :: "'r redis_ops \<Rightarrow> string list \<Rightarrow> string list \<Rightarrow> ('r, redis_err, int) sem" where
  "host_run R keys args =
     (case (keys, args) of
        ([k1, k2, k3, k4], [job]) \<Rightarrow> complete_task R k1 k2 k3 k4 job
      | _ \<Rightarrow> sthrow (RedisError ''ERR wrong number of keys''))"

definition host_scripts :: "host_store script_ops" where
  "host_scripts =
     \<lparr>so_load = \<lambda>s (m, k). (Inr s, (m, k \<or> s = host_script)),
      so_evalsha = \<lambda>s keys args (m, k).
        (if s = host_script \<and> k
         then (case host_run host_ops keys args (m, k) of (Inr n, h) \<Rightarrow> (Inr (Some n), h) | (Inl e, h) \<Rightarrow> (Inl e, h))
         else (Inl (RedisError ''NOSCRIPT No matching script''), (m, k))),
      so_eval = \<lambda>s keys args (m, k). host_run host_ops keys args (m, True)\<rparr>"

lemma host_store: "redis_store host_ops host_view host_up"
proof
  fix r :: "'k beside"
  obtain m k' where r: "r = (m, k')" by (cases r)
  note d = host_ops_def host_view_def host_up_def lift_op_def r ref_ops_def
  fix k f x fs :: string and n dd ttl :: int and mm :: string and fss :: fields
  show "\<exists>xs r'. r_smembers host_ops k r = (Inr xs, r') \<and> host_up r' \<and> host_view r' = host_view r \<and>
      distinct xs \<and> List.set xs = set_at (host_view r) k" if "host_up r" "is_set (host_view r) k"
    using mem.smembers [of m k] that by (auto simp: d split: prod.splits)
  show "\<exists>n r'. r_sadd host_ops k mm r = (Inr n, r') \<and> host_up r' \<and>
      host_view r' = (host_view r)(k \<mapsto> RSet (insert mm (set_at (host_view r) k)))"
    if "host_up r" "is_set (host_view r) k"
    using mem.sadd [of m k mm] that by (auto simp: d split: prod.splits)
  show "\<exists>r'. r_hincrby host_ops k f dd r = (Inr (n + dd), r') \<and> host_up r' \<and>
      host_view r' = (host_view r)(k \<mapsto> RHash ((hash_at (host_view r) k)(f \<mapsto> int_str (n + dd))))"
    if "host_up r" "is_hash (host_view r) k" "hash_int (host_view r) k f n" "in_int64 (n + dd)"
    using mem.hincrby [of m k f n dd] that by (auto simp: d split: prod.splits)
  show "\<exists>n r'. r_hset host_ops k f x r = (Inr n, r') \<and> host_up r' \<and>
      host_view r' = (host_view r)(k \<mapsto> RHash ((hash_at (host_view r) k)(f \<mapsto> x)))"
    if "host_up r" "is_hash (host_view r) k"
    using mem.hset [of m k f x] that by (auto simp: d split: prod.splits)
  show "\<exists>n r'. r_hdel host_ops k f r = (Inr n, r') \<and> host_up r' \<and>
      host_view r' = (host_view r)(k := put_hash ((hash_at (host_view r) k)(f := None)))"
    if "host_up r" "is_hash (host_view r) k"
    using mem.hdel [of m k f] that by (auto simp: d split: prod.splits)
  show "\<exists>xs r'. r_hgetall host_ops k r = (Inr xs, r') \<and> host_up r' \<and> host_view r' = host_view r \<and>
      distinct (map fst xs) \<and> map_of xs = hash_at (host_view r) k"
    if "host_up r" "is_hash (host_view r) k"
    using mem.hgetall [of m k] that by (auto simp: d split: prod.splits)
  show "\<exists>r'. r_exists host_ops k r = (Inr (if host_view r k = None then 0 else 1), r') \<and>
      host_up r' \<and> host_view r' = host_view r" if "host_up r"
    using mem.exists [of m k] that by (auto simp: d split: prod.splits)
  show "\<exists>n r'. r_del host_ops k r = (Inr n, r') \<and> host_up r' \<and> host_view r' = (host_view r)(k := None)"
    if "host_up r" "k \<noteq> kTasks"
    using mem.del [of m k] that by (auto simp: d split: prod.splits)
  show "\<exists>r'. r_get host_ops k r = (Inr (if host_view r k = None then None else Some x), r') \<and>
      host_up r' \<and> host_view r' = host_view r"
    if "host_up r" "host_view r k = None \<or> host_view r k = Some (RStr x)"
    using mem.get [of m k x] that by (auto simp: d split: prod.splits)
  show "\<exists>r'. r_set host_ops k x ttl r = (Inr (), r') \<and> host_up r' \<and> host_view r' = (host_view r)(k \<mapsto> RStr x)"
    if "host_up r" "k \<noteq> kTasks"
    using mem.set [of m k x ttl] that by (auto simp: d split: prod.splits)
  show "\<exists>b r'. r_expire host_ops k ttl r = (Inr b, r') \<and> host_up r' \<and> host_view r' = host_view r"
    if "host_up r"
    using mem.expire [of m k ttl] that by (auto simp: d split: prod.splits)
  show "\<exists>i r'. r_xadd host_ops k ''*'' fss r = (Inr i, r') \<and> host_up r' \<and>
      host_view r' = (host_view r)(k \<mapsto> RStream (stream_at (host_view r) k @ [(i, fss)])) \<and>
      i \<notin> fst ` List.set (stream_at (host_view r) k)"
    if "host_up r" "is_stream (host_view r) k"
    using mem.xadd [of m k fss] that by (auto simp: d split: prod.splits)
qed

interpretation host: redis_store host_ops host_view host_up
  by (rule host_store)

lemma host_run_ok: "host_run R [k1, k2, k3, k4] [job] = complete_task R k1 k2 k3 k4 job"
  by (simp add: host_run_def)

interpretation hosted: script_host host_ops host_view host_up host_scripts "\<lambda>s. s"
  "\<lambda>h. if snd h then {host_script} else {}" host_script
proof
  fix r :: host_store and s job k1 k2 k3 k4 :: string and keys args :: "string list"
  obtain m k where r: "r = (m, k)" by (cases r)
  assume up: "host_up r"
  show "\<exists>r'. so_load host_scripts s r = (Inr s, r') \<and> host_up r' \<and> host_view r' = host_view r"
    using up by (simp add: host_scripts_def host_up_def host_view_def r)
  show "\<exists>r1. host_up r1 \<and> host_view r1 = host_view r \<and>
      so_evalsha host_scripts host_script [k1, k2, k3, k4] [job] r =
        (case complete_task host_ops k1 k2 k3 k4 job r1 of (Inr n, r') \<Rightarrow> (Inr (Some n), r') | (Inl e, r') \<Rightarrow> (Inl e, r'))"
    if "host_script \<in> (if snd r then {host_script} else {})"
    using up that by (intro exI [of _ r]) (simp add: host_scripts_def r host_run_ok split: if_splits)
  show "\<exists>m r1. so_evalsha host_scripts host_script keys args r = (Inl (RedisError m), r1) \<and>
      contains ''NOSCRIPT'' m \<and> host_up r1 \<and> host_view r1 = host_view r"
    if "host_script \<notin> (if snd r then {host_script} else {})"
    using up that by (intro exI [of _ "''NOSCRIPT No matching script''"] exI [of _ r])
      (simp add: host_scripts_def r split: if_splits)
  show "\<exists>r1. host_up r1 \<and> host_view r1 = host_view r \<and>
      so_eval host_scripts host_script [k1, k2, k3, k4] [job] r = complete_task host_ops k1 k2 k3 k4 job r1"
    using up by (intro exI [of _ "(m, True)"])
      (simp add: host_scripts_def r host_run_ok host_up_def host_view_def)
qed

text \<open>
  The script survives a flush of the server's script cache. Once \<open>LoadScript\<close> has
  succeeded, \<open>EvalSha\<close> runs the completion script exactly once on the keyspace as it is,
  whether or not the server still knows the hash, and returns the script's result.
\<close>

theorem evalsha_self_heals:
  assumes "script_host R view up SC sha hosted script" "script \<noteq> []" "up r" "rm_client M"
    and "LoadScript SC script (M, r) = (Inr h, (M', r0))"
    and "up r2" "\<And>r1. up r1 \<Longrightarrow> view r1 = view r2 \<Longrightarrow> \<exists>n r'. complete_task R k1 k2 k3 k4 job r1 = (Inr n, r')"
  shows "\<exists>r1 n r'. view r1 = view r2 \<and> complete_task R k1 k2 k3 k4 job r1 = (Inr n, r') \<and>
     EvalSha M' SC h [k1, k2, k3, k4] [job] r2 = (Some n, r')"
proof -
  have "h = sha script" "M' = M\<lparr>rm_script_cache := (rm_script_cache M)(sha script \<mapsto> script)\<rparr>"
    using script_host.load [OF assms(1) assms(3), of script] assms(2,4,5) by (auto simp: LoadScript_def)
  then have "rm_client M'" "rm_script_cache M' (sha script) = Some script" "h = sha script"
    using assms(4) by simp_all
  then show ?thesis
    using script_host.EvalSha_runs [OF assms(1) assms(6) _ _ assms(2) assms(7), of M'] by blast
qed

text \<open>The server forgets the script between loading it and running it.\<close>

theorem evalsha_self_heals_witness:
  "\<exists>n r'. EvalSha \<lparr>rm_client = True, rm_script_cache = [host_script \<mapsto> host_script]\<rparr> host_scripts host_script
     [Children ''t'', DependencyHash ''j'', kTasks, kErrors] [''j''] (ms_empty, False) = (Some n, r')"
proof -
  let ?M = "\<lparr>rm_client = True, rm_script_cache = (\<lambda>_. None)\<rparr>"
  have l: "LoadScript host_scripts host_script (?M, (ms_empty, False)) =
     (Inr host_script, (\<lparr>rm_client = True, rm_script_cache = [host_script \<mapsto> host_script]\<rparr>, (ms_empty, True)))"
    by (simp add: LoadScript_def host_scripts_def host_script_def)
  have e: "host_view (ms_empty, b) = (\<lambda>_. None)" for b
    by (simp add: host_view_def ms_view_def ms_empty_def fun_eq_iff)
  have c: "\<exists>n r'. complete_task host_ops (Children ''t'') (DependencyHash ''j'') kTasks kErrors ''j'' r1 = (Inr n, r')"
    if "host_up r1" "host_view r1 = host_view (ms_empty, False)" for r1
    using host.script_without_children [OF that(1), of "''t''"] that(2) by (metis e)
  have "\<exists>r1 n r'. host_view r1 = host_view (ms_empty, False) \<and>
      complete_task host_ops (Children ''t'') (DependencyHash ''j'') kTasks kErrors ''j'' r1 = (Inr n, r') \<and>
      EvalSha \<lparr>rm_client = True, rm_script_cache = [host_script \<mapsto> host_script]\<rparr> host_scripts host_script
        [Children ''t'', DependencyHash ''j'', kTasks, kErrors] [''j''] (ms_empty, False) = (Some n, r')"
    by (rule evalsha_self_heals [OF hosted.script_host_axioms _ _ _ l _ c])
      (simp_all add: host_script_def host_up_def)
  then show ?thesis by blast
qed

text \<open>
  An existing consumer group counts as created, and every other failure is reported: \<open>Start\<close>
  can be repeated, by any number of schedulers.
\<close>

theorem group_create_idempotent:
  "rm_client M \<Longrightarrow> fst (XGroupCreate M G key grp i mk r) \<longleftrightarrow>
     (\<exists>u. fst (g_xgroup_create G key grp i mk r) = Inr u) \<or>
     (\<exists>m. fst (g_xgroup_create G key grp i mk r) = Inl (RedisError m) \<and> contains ''BUSYGROUP'' m)"
  by (auto simp: XGroupCreate_def split: prod.split sum.split redis_err.split)

definition busy_group_ops :: "mem_store group_ops" where
  "busy_group_ops =
     \<lparr>g_xgroup_create = (\<lambda>_ _ _ _. sthrow (RedisError ''BUSYGROUP'')),
      g_xreadgroup = (\<lambda>_ _ _ _ _. sret []), g_xack = (\<lambda>_ _ _. sret 0), g_xclaim = (\<lambda>_ _ _ _ _. sret []),
      g_xpending = (\<lambda>_ _ _ _ _ _. sret [])\<rparr>"

theorem group_create_idempotent_witness:
  "fst (XGroupCreate \<lparr>rm_client = True, rm_script_cache = (\<lambda>_. None)\<rparr> busy_group_ops
     kTasks kGroupMain ''$'' True ms_empty)"
proof -
  have "g_xgroup_create busy_group_ops kTasks kGroupMain ''$'' True ms_empty = (Inl (RedisError ''BUSYGROUP''), ms_empty)"
    by (simp add: busy_group_ops_def)
  moreover have "contains ''BUSYGROUP'' ''BUSYGROUP''" by simp
  ultimately show ?thesis
    using group_create_idempotent [of "\<lparr>rm_client = True, rm_script_cache = (\<lambda>_. None)\<rparr>" busy_group_ops
        kTasks kGroupMain "''$''" True ms_empty]
    by (simp del: contains.simps)
qed

end
