(* ===== verification/Rpc_Types.thy ===== *)
theory Rpc_Types
  imports Dts_Prelude
begin

text \<open>
  The messages the services share (\<open>src/common/proto/dts/error/*.proto\<close>,
  \<open>dts/service/task_service.proto\<close>) and the status of a call.
\<close>

datatype SysErr =
  SYS_ERR_UNSPECIFIED | SYS_INVALID_PARAM | SYS_RATE_LIMITED | SYS_IDEMPOTENT | SYS_INTERNAL

datatype JobErr = JOB_ERR_UNSPECIFIED | JOB_NOT_FOUND | JOB_TIMEOUT

datatype grpc_status = GrpcOK | GrpcStatus string string

text \<open>The numbers the protocol gives the codes.\<close>

fun sys_code :: "SysErr \<Rightarrow> int" where
  "sys_code SYS_ERR_UNSPECIFIED = 0" | "sys_code SYS_INVALID_PARAM = 1"
| "sys_code SYS_RATE_LIMITED = 2" | "sys_code SYS_IDEMPOTENT = 3" | "sys_code SYS_INTERNAL = 4"

fun job_code :: "JobErr \<Rightarrow> int" where
  "job_code JOB_ERR_UNSPECIFIED = 0" | "job_code JOB_NOT_FOUND = 1" | "job_code JOB_TIMEOUT = 2"

text \<open>The \<open>oneof\<close> of an error, the common header, and the answer of \<open>SubmitDag\<close>.\<close>

datatype err_code = CodeSys SysErr | CodeJob JobErr | CodeNotSet

record rpc_error =
  re_code :: err_code
  re_msg :: string

record RpcRespHeader =
  rh_error :: "rpc_error option"
  rh_request_id :: string

record SubmitDagResponse =
  sr_header :: "RpcRespHeader option"
  sr_job_id :: string

definition new_header :: RpcRespHeader where
  "new_header = \<lparr>rh_error = None, rh_request_id = []\<rparr>"

definition new_SubmitDagResponse :: SubmitDagResponse where
  "new_SubmitDagResponse = \<lparr>sr_header = None, sr_job_id = []\<rparr>"

definition header_of :: "RpcRespHeader option \<Rightarrow> RpcRespHeader" where
  "header_of h = (case h of None \<Rightarrow> new_header | Some x \<Rightarrow> x)"

end
