(* ===== verification/Scheduler_Service.thy ===== *)
theory Scheduler_Service
  imports Dag_Run Task_Repository Db_Batcher Redis_Manager Rpc_Types
begin

text \<open>
  \<open>src/scheduler/src/scheduler_service_impl.cpp\<close>: the RPC handlers the workers call. The
  state is what the handlers reach: the worker table, the Redis manager with its server, the
  global hash of the completion script, and the batcher, whose \<open>bt_db\<close> is the database the
  repository writes too. The two pointers that may be null are the two flags. An \<open>Inl\<close> is the end of
  the process.
\<close>

record PbError =
  er_sys :: SysErr
  er_msg :: string

text \<open>The header of a response: not set, or set with or without an error.\<close>

type_synonym header = "PbError option option"

record 'r scheduler =
  sv_workers :: WorkerManager
  sv_has_repo :: bool
  sv_has_batcher :: bool
  sv_batcher :: batcher
  sv_rm :: RedisManager
  sv_redis :: 'r
  sv_sha :: string

record RegisterRequest =
  rg_worker_id :: string
  rg_address :: string

record UpdateTaskStatusRequest =
  us_task_id :: string
  us_final_state :: PbTaskState
  us_error_msg :: string
  us_result_json :: string
  us_job_id :: string
  us_retry_count :: "32 word"
  us_worker_id :: string

section \<open>Handlers\<close>

definition Register ::
  "int \<Rightarrow> RegisterRequest \<Rightarrow> 'r scheduler \<Rightarrow> (grpc_status \<times> header) \<times> 'r scheduler" where
  "Register now request s =
     (if rg_worker_id request = [] \<or> rg_address request = []
      then ((GrpcOK, Some (Some \<lparr>er_sys = SYS_INVALID_PARAM, er_msg = ''worker_id or address is empty''\<rparr>)), s)
      else ((GrpcOK, Some None),
            s\<lparr>sv_workers := HandleRegister now (rg_worker_id request) (rg_address request) (sv_workers s)\<rparr>))"

definition Heartbeat ::
  "int \<Rightarrow> HeartbeatRequest \<Rightarrow> 'r scheduler \<Rightarrow> (grpc_status \<times> header) \<times> 'r scheduler" where
  "Heartbeat now request s =
     (let (success, w) = HandleHeartbeat now request (sv_workers s); s' = s\<lparr>sv_workers := w\<rparr>
      in if \<not> success
         then ((GrpcOK, Some (Some \<lparr>er_sys = SYS_INVALID_PARAM,
                  er_msg = ''Worker not found. Please re-register.''\<rparr>)), s')
         else ((GrpcOK, Some None), s'))"

text \<open>
  \<open>LOG_FATAL\<close> writes the message and aborts the process, so the \<open>throw\<close> after it is never reached; no
  other path of a handler ends in anything but an answer.
\<close>

datatype handler_end = Aborted string

definition EnsureScriptLoaded ::
  "'r script_ops \<Rightarrow> string \<Rightarrow> ('r scheduler, handler_end, unit) sem" where
  "EnsureScriptLoaded SC kCompleteTaskScript s =
     (if sv_sha s = []
      then (case LoadScript SC kCompleteTaskScript (sv_rm s, sv_redis s) of
              (Inl e, (M, r)) \<Rightarrow>
                (Inl (Aborted (''Critical Error: Failed to load embedded Lua script: '' @ err_what e)), s\<lparr>sv_rm := M, sv_redis := r\<rparr>)
            | (Inr sha, (M, r)) \<Rightarrow> (Inr (), s\<lparr>sv_rm := M, sv_redis := r, sv_sha := sha\<rparr>))
      else (Inr (), s))"

definition status_op :: "UpdateTaskStatusRequest \<Rightarrow> TaskUpdateOp" where
  "status_op request =
     \<lparr>op_task_id = us_task_id request, op_state = us_final_state request,
      op_result_json = us_result_json request, op_error_msg = us_error_msg request,
      op_worker_id = us_worker_id request\<rparr>"

text \<open>The branch of a success: the script, then the write-behind update, whatever the script did.\<close>

definition report_success ::
  "'r script_ops \<Rightarrow> string \<Rightarrow> UpdateTaskStatusRequest \<Rightarrow> ('r scheduler, handler_end, grpc_status \<times> header) sem"
where
  "report_success SC kCompleteTaskScript request s =
     (case EnsureScriptLoaded SC kCompleteTaskScript s of
        (Inl e, s1) \<Rightarrow> (Inl e, s1)
      | (Inr _, s1) \<Rightarrow>
          (let (triggered_opt, r) =
                 EvalSha (sv_rm s1) SC (sv_sha s1)
                   [Children (us_task_id request), DependencyHash (us_job_id request), kTasks, kErrors]
                   [us_job_id request] (sv_redis s1);
               s2 = s1\<lparr>sv_redis := r\<rparr>;
               s3 = (if sv_has_batcher s2
                     then s2\<lparr>sv_batcher := snd (AddStatusUpdate (status_op request) (sv_batcher s2))\<rparr>
                     else s2)
           in (Inr (GrpcOK, Some None), s3)))"

text \<open>The branch of a failure: one transaction, and for a retry a second one and a stream entry.\<close>

definition report_failure ::
  "pg_types \<Rightarrow> json_lib \<Rightarrow> 'r redis_ops \<Rightarrow> tx_env \<Rightarrow> tx_env \<Rightarrow> UpdateTaskStatusRequest \<Rightarrow>
   ('r scheduler, handler_end, grpc_status \<times> header) sem"
where
  "report_failure T L R E1 E2 request s =
     (if \<not> sv_has_repo s then (Inr (GrpcStatus ''INTERNAL'' ''TaskRepo missing'', None), s)
      else
        (let (need_retry, db1) =
               HandleTaskFailure T E1 (us_task_id request) (us_error_msg request)
                 (sint (us_retry_count request)) (bt_db (sv_batcher s));
             s1 = s\<lparr>sv_batcher := (sv_batcher s)\<lparr>bt_db := db1\<rparr>\<rparr>
         in if need_retry
            then (let (retry_task_opt, db2) = GetTaskById T L E2 (us_task_id request) db1;
                      s2 = s1\<lparr>sv_batcher := (sv_batcher s1)\<lparr>bt_db := db2\<rparr>\<rparr>
                  in case retry_task_opt of
                       Some task \<Rightarrow>
                         (let (_, r) = XAdd (sv_rm s2) R kTasks (ToXAddArgs (t_task_id task) (t_job_id task))
                                         ''*'' (sv_redis s2)
                          in (Inr (GrpcOK, Some None), s2\<lparr>sv_redis := r\<rparr>))
                     | None \<Rightarrow> (Inr (GrpcOK, Some None), s2))
            else (Inr (GrpcOK, Some None), s1)))"

definition UpdateTaskStatus ::
  "pg_types \<Rightarrow> json_lib \<Rightarrow> 'r redis_ops \<Rightarrow> 'r script_ops \<Rightarrow> string \<Rightarrow> tx_env \<Rightarrow> tx_env \<Rightarrow>
   UpdateTaskStatusRequest \<Rightarrow> ('r scheduler, handler_end, grpc_status \<times> header) sem"
where
  "UpdateTaskStatus T L R SC kCompleteTaskScript E1 E2 request s =
     (if us_task_id request = [] then (Inr (GrpcOK, None), s)
      else if us_final_state request = StateToProto SUCCESS
      then report_success SC kCompleteTaskScript request s
      else report_failure T L R E1 E2 request s)"

section \<open>A success\<close>

text \<open>The global hash, once set, names the script the manager has cached.\<close>

definition script_ready :: "(string \<Rightarrow> string) \<Rightarrow> string \<Rightarrow> 'r scheduler \<Rightarrow> bool" where
  "script_ready sha script s \<longleftrightarrow> rm_client (sv_rm s) \<and>
     (sv_sha s \<noteq> [] \<longrightarrow> sv_sha s = sha script \<and> rm_script_cache (sv_rm s) (sha script) = Some script)"

context script_host
begin

lemma EnsureScriptLoaded_ready:
  assumes "up (sv_redis s)" "script_ready sha script s" "script \<noteq> []"
  shows "\<exists>s1. EnsureScriptLoaded SC script s = (Inr (), s1) \<and> up (sv_redis s1) \<and>
     view (sv_redis s1) = view (sv_redis s) \<and> script_ready sha script s1 \<and> sv_sha s1 = sha script \<and>
     rm_script_cache (sv_rm s1) (sha script) = Some script \<and>
     (\<exists>M r. s1 = s\<lparr>sv_rm := M, sv_redis := r, sv_sha := sha script\<rparr>)"
proof (cases "sv_sha s = []")
  case True
  obtain r' where r': "so_load SC script (sv_redis s) = (Inr (sha script), r')" "up r'" "view r' = view (sv_redis s)"
    using load [OF assms(1), of script] by blast
  let ?M = "(sv_rm s)\<lparr>rm_script_cache := (rm_script_cache (sv_rm s))(sha script \<mapsto> script)\<rparr>"
  have c: "rm_client (sv_rm s)" using assms(2) by (simp add: script_ready_def)
  have "EnsureScriptLoaded SC script s = (Inr (), s\<lparr>sv_rm := ?M, sv_redis := r', sv_sha := sha script\<rparr>)"
    using True r' assms(3) c by (simp add: EnsureScriptLoaded_def LoadScript_def)
  then show ?thesis
    using r'(2,3) c
    by (intro exI [of _ "s\<lparr>sv_rm := ?M, sv_redis := r', sv_sha := sha script\<rparr>"] conjI exI [of _ ?M] exI [of _ r'])
      (simp_all add: script_ready_def)
next
  case False
  then show ?thesis
    using assms by (intro exI [of _ s]) (auto simp: EnsureScriptLoaded_def script_ready_def
      intro!: exI [of _ "sv_rm s"] exI [of _ "sv_redis s"])
qed

text \<open>One success report: one run of the script, one update queued, nothing else.\<close>

lemma report_success_once:
  assumes "up (sv_redis s)" "script_ready sha script s" "script \<noteq> []" "sv_has_batcher s"
    and ok: "\<And>r1. up r1 \<Longrightarrow> view r1 = view (sv_redis s) \<Longrightarrow>
        \<exists>n r'. complete_one R (us_job_id q) (us_task_id q) r1 = (Inr n, r')"
  shows "\<exists>r1 n r' s'. up r1 \<and> view r1 = view (sv_redis s) \<and>
     complete_one R (us_job_id q) (us_task_id q) r1 = (Inr n, r') \<and>
     report_success SC script q s = (Inr (GrpcOK, Some None), s') \<and> sv_redis s' = r' \<and>
     sv_batcher s' = snd (AddStatusUpdate (status_op q) (sv_batcher s)) \<and>
     sv_workers s' = sv_workers s \<and> sv_has_batcher s' \<and> script_ready sha script s'"
proof -
  obtain s1 M r0 where s1: "EnsureScriptLoaded SC script s = (Inr (), s1)" "up (sv_redis s1)"
    "view (sv_redis s1) = view (sv_redis s)" "script_ready sha script s1" "sv_sha s1 = sha script"
    "rm_script_cache (sv_rm s1) (sha script) = Some script"
    "s1 = s\<lparr>sv_rm := M, sv_redis := r0, sv_sha := sha script\<rparr>"
    using EnsureScriptLoaded_ready [OF assms(1-3)] by blast
  let ?keys = "[Children (us_task_id q), DependencyHash (us_job_id q), kTasks, kErrors]"
  have c: "rm_client (sv_rm s1)" using s1(4) by (simp add: script_ready_def)
  have ok1: "\<exists>n r'. complete_task R (Children (us_task_id q)) (DependencyHash (us_job_id q)) kTasks kErrors
      (us_job_id q) r1 = (Inr n, r')" if "up r1" "view r1 = view (sv_redis s1)" for r1
    using ok [OF that(1)] that(2) s1(3) by (simp add: complete_one_def)
  obtain r1 n r' where r1: "up r1" "view r1 = view (sv_redis s1)"
    "complete_task R (Children (us_task_id q)) (DependencyHash (us_job_id q)) kTasks kErrors (us_job_id q) r1 = (Inr n, r')"
    "EvalSha (sv_rm s1) SC (sha script) ?keys [us_job_id q] (sv_redis s1) = (Some n, r')"
    using EvalSha_runs [OF s1(2) c s1(6) assms(3) ok1] by blast
  let ?s' = "s1\<lparr>sv_redis := r', sv_batcher := snd (AddStatusUpdate (status_op q) (sv_batcher s))\<rparr>"
  have "report_success SC script q s = (Inr (GrpcOK, Some None), ?s')"
    using s1(1,5) r1(4) assms(4) by (simp add: report_success_def s1(7))
  moreover have "script_ready sha script ?s'" using s1(4) by (auto simp: script_ready_def)
  ultimately show ?thesis
    using r1(1-3) s1(3) assms(4)
    by (intro exI [of _ r1] exI [of _ n] exI [of _ r'] exI [of _ ?s'] conjI)
      (simp_all add: complete_one_def s1(7))
qed

end

text \<open>Requests one after the other, until the process ends.\<close>

fun report_all ::
  "pg_types \<Rightarrow> json_lib \<Rightarrow> 'r redis_ops \<Rightarrow> 'r script_ops \<Rightarrow> string \<Rightarrow> tx_env \<Rightarrow>
   UpdateTaskStatusRequest list \<Rightarrow> 'r scheduler \<Rightarrow> (handler_end + grpc_status \<times> header) list \<times> 'r scheduler"
where
  "report_all T L R SC script E [] s = ([], s)"
| "report_all T L R SC script E (q # qs) s =
     (case UpdateTaskStatus T L R SC script E E q s of
        (Inl e, s1) \<Rightarrow> ([Inl e], s1)
      | (Inr x, s1) \<Rightarrow> (let (xs, s2) = report_all T L R SC script E qs s1 in (Inr x # xs, s2)))"

definition report_of :: "UpdateTaskStatusRequest \<Rightarrow> string \<times> string" where
  "report_of q = (us_job_id q, us_task_id q)"

definition success_report :: "UpdateTaskStatusRequest \<Rightarrow> bool" where
  "success_report q \<longleftrightarrow> us_task_id q \<noteq> [] \<and> us_final_state q = StateToProto SUCCESS"

lemma report_all_inv:
  assumes host: "script_host R view up SC sha hosted script" and "script \<noteq> []"
    and batch: "\<forall>a \<in> set batch. item_ok T a" "batch_apart batch"
    and "up (sv_redis s)" "\<forall>a \<in> set batch. dag_inv P a D (view (sv_redis s))"
    and "\<forall>q \<in> set qs. success_report q \<and> (\<exists>item \<in> set batch. us_job_id q = cx_job_id (bi_ctx item) \<and>
           us_task_id q \<in> set (item_ids item))"
    and "script_ready sha script s" "sv_has_batcher s"
    and "report_all T' L R SC script E qs s = (xs, s')"
  shows "(\<forall>a \<in> set batch. dag_inv P a (D \<union> us_task_id ` set qs) (view (sv_redis s'))) \<and>
     (\<forall>x \<in> set xs. x = Inr (GrpcOK, Some None)) \<and>
     errors_of (view (sv_redis s')) = errors_of (view (sv_redis s)) \<and>
     bt_added (sv_batcher s') = bt_added (sv_batcher s) @ map status_op qs"
  using assms(5-)
proof (induction qs arbitrary: s D xs)
  case (Cons q qs)
  note store = script_host.axioms(1) [OF host]
  obtain item where item: "item \<in> set batch" "us_job_id q = cx_job_id (bi_ctx item)" "us_task_id q \<in> set (item_ids item)"
    using Cons.prems(3) by auto
  note one = redis_store.complete_one_inv [OF store batch, where item = item and t = "us_task_id q" and P = P and D = D]
  have ok: "\<exists>n r'. complete_one R (us_job_id q) (us_task_id q) r1 = (Inr n, r')"
    if "up r1" "view r1 = view (sv_redis s)" for r1
    using one [of r1] that Cons.prems(2) item by (metis (no_types))
  obtain r1 n r' s1 where r1: "up r1" "view r1 = view (sv_redis s)"
    "complete_one R (us_job_id q) (us_task_id q) r1 = (Inr n, r')"
    "report_success SC script q s = (Inr (GrpcOK, Some None), s1)" "sv_redis s1 = r'"
    "sv_batcher s1 = snd (AddStatusUpdate (status_op q) (sv_batcher s))"
    "sv_has_batcher s1" "script_ready sha script s1"
    using script_host.report_success_once [OF host Cons.prems(1,4) assms(2) Cons.prems(5), of q] ok by blast
  have inv: "up r'" "\<forall>a \<in> set batch. dag_inv P a (insert (us_task_id q) D) (view r')"
    "errors_of (view r') = errors_of (view (sv_redis s))"
    using one [of r1] r1(1-3) Cons.prems(2) item by auto
  have u: "UpdateTaskStatus T' L R SC script E E q s = (Inr (GrpcOK, Some None), s1)"
    using Cons.prems(3) r1(4) by (simp add: UpdateTaskStatus_def success_report_def)
  obtain ys where ys: "report_all T' L R SC script E qs s1 = (ys, s')" "xs = Inr (GrpcOK, Some None) # ys"
    using Cons.prems(6) u by (auto split: prod.splits)
  have rest: "\<forall>q \<in> set qs. success_report q \<and> (\<exists>item \<in> set batch. us_job_id q = cx_job_id (bi_ctx item) \<and>
           us_task_id q \<in> set (item_ids item))"
    using Cons.prems(3) by simp
  have "up (sv_redis s1)" "\<forall>a \<in> set batch. dag_inv P a (insert (us_task_id q) D) (view (sv_redis s1))"
    using inv r1(5) by simp_all
  from Cons.IH [OF this rest r1(8,7) ys(1)] inv(3) r1(5,6) ys(2) show ?case
    by (simp add: AddStatusUpdate_def)
qed auto

section \<open>Properties\<close>

text \<open>
  C16. A job runs through the scheduler. Send a batch of well-formed requests to Redis and let
  workers report successes of its tasks in any order, with repetitions, through
  \<open>UpdateTaskStatus\<close>, on any server that obeys the command laws, even one that loses its script
  cache between calls: every call answers without an error, the task stream holds for each request
  exactly the tasks whose parents have all been reported, each once, and every report is handed to
  the database batcher, in order.
\<close>

theorem reports_drive_the_dag:
  assumes "script_host R view up SC sha hosted script" "script \<noteq> []"
    and "flow_ok T batch (view r)" "up r" "append_items P batch = Inr cmds" "sv_redis s = exec_cmds R cmds r"
    and "script_ready sha script s" "sv_has_batcher s"
    and "\<forall>q \<in> set qs. success_report q" "acts_of batch (map report_of qs)"
    and "report_all T' L R SC script E qs s = (xs, s')" "item \<in> set batch"
  shows "(\<forall>x \<in> set xs. x = Inr (GrpcOK, Some None)) \<and>
     distinct (job_tasks (cx_job_id (bi_ctx item)) (view (sv_redis s'))) \<and>
     set (job_tasks (cx_job_id (bi_ctx item)) (view (sv_redis s'))) =
       {c \<in> set (item_ids item). \<forall>p. (p, c) \<in> set (item_edges item) \<longrightarrow> p \<in> us_task_id ` set qs} \<and>
     bt_added (sv_batcher s') = bt_added (sv_batcher s) @ map status_op qs"
proof -
  note f = assms(3) [unfolded flow_ok_def]
  have c: "up (sv_redis s)" "\<forall>item \<in> set batch. dag_inv P item {} (view (sv_redis s))"
    using redis_store.exec_batch [OF script_host.axioms(1) [OF assms(1)], of batch T r P] f assms(4-6) by auto
  have q: "\<forall>q \<in> set qs. success_report q \<and> (\<exists>item \<in> set batch. us_job_id q = cx_job_id (bi_ctx item) \<and>
           us_task_id q \<in> set (item_ids item))"
    using assms(9,10) by (auto simp: acts_of_def report_of_def)
  have "\<forall>a \<in> set batch. item_ok T a" "batch_apart batch" using f by simp_all
  from report_all_inv [OF assms(1,2) this c q assms(7,8,11)] assms(12)
    dag_inv_released [of P item "us_task_id ` set qs" "view (sv_redis s')"]
  show ?thesis by simp
qed

definition sample_report :: "string \<Rightarrow> PbTaskState \<Rightarrow> UpdateTaskStatusRequest" where
  "sample_report i st =
     \<lparr>us_task_id = i, us_final_state = st, us_error_msg = ''boom'', us_result_json = [],
      us_job_id = sample_gen 0, us_retry_count = 0, us_worker_id = ''w''\<rparr>"

definition sample_scheduler :: "database \<Rightarrow> 'r \<Rightarrow> 'r scheduler" where
  "sample_scheduler db r =
     \<lparr>sv_workers = new_WorkerManager 30, sv_has_repo = True, sv_has_batcher = True,
      sv_batcher = new_batcher db, sv_rm = \<lparr>rm_client = True, rm_script_cache = (\<lambda>_. None)\<rparr>,
      sv_redis = r, sv_sha = []\<rparr>"

theorem reports_drive_the_dag_witness:
  "\<exists>cmds xs s'. append_items sample_codec sample_batch = Inr cmds \<and>
     report_all sample_types sample_json_lib host_ops host_scripts host_script (tx_ok 1)
       [sample_report (sample_gen 1) 2] (sample_scheduler sample_db (exec_cmds host_ops cmds (ms_empty, False))) = (xs, s') \<and>
     set (job_tasks (sample_gen 0) (host_view (sv_redis s'))) = {sample_gen 1, sample_gen 2}"
proof -
  have v: "host_view (ms_empty, False) = (\<lambda>_. None)" by (simp add: host_view_def ms_view_empty)
  have f: "flow_ok sample_types sample_batch (host_view (ms_empty, False))"
    using sample_flow_ok unfolding v ms_view_empty .
  have u: "host_up (ms_empty, False)" by (simp add: host_up_def)
  obtain cmds where c: "append_items sample_codec sample_batch = Inr cmds"
    using redis_store.exec_batch [OF host_store, of sample_batch sample_types "(ms_empty, False)" sample_codec] f u
    unfolding flow_ok_def by blast
  let ?s = "sample_scheduler sample_db (exec_cmds host_ops cmds (ms_empty, False))"
  let ?qs = "[sample_report (sample_gen 1) 2]"
  obtain xs s' where r: "report_all sample_types sample_json_lib host_ops host_scripts host_script (tx_ok 1) ?qs ?s = (xs, s')"
    by (cases "report_all sample_types sample_json_lib host_ops host_scripts host_script (tx_ok 1) ?qs ?s")
  have g: "sample_gen 1 \<noteq> []" by (simp add: sample_gen_def)
  have p: "\<forall>q \<in> set ?qs. success_report q"
    using g by (simp add: success_report_def sample_report_def StateToProto_def SUCCESS_def)
  have a: "acts_of sample_batch (map report_of ?qs)"
    using sample_acts by (simp add: report_of_def sample_report_def)
  have "set (job_tasks (cx_job_id (bi_ctx sample_item)) (host_view (sv_redis s'))) =
      {c \<in> set (item_ids sample_item). \<forall>p. (p, c) \<in> set (item_edges sample_item) \<longrightarrow> p \<in> us_task_id ` set ?qs}"
    using reports_drive_the_dag [OF hosted.script_host_axioms _ f u c _ _ _ p a r sample_item_facts(1)]
    by (simp add: sample_scheduler_def script_ready_def host_script_def)
  then have "set (job_tasks (sample_gen 0) (host_view (sv_redis s'))) = {sample_gen 1, sample_gen 2}"
    by (auto simp: sample_item_facts sample_report_def)
  with c r show ?thesis by blast
qed

section \<open>A failure\<close>

definition sv_db :: "'r scheduler \<Rightarrow> database" where "sv_db s = bt_db (sv_batcher s)"

text \<open>The row can be read back into a task: its counts fit and its parameters parse.\<close>

definition row_readable :: "json_lib \<Rightarrow> task_row \<Rightarrow> bool" where
  "row_readable L r \<longleftrightarrow> 0 \<le> tr_retry_count r \<and> (\<exists>t. row_to_task L r = Inr t)"

lemma row_to_task_ids:
  "row_to_task L r = Inr t \<Longrightarrow> t_task_id t = tr_task_id r \<and> t_job_id t = tr_job_id r"
  by (simp add: row_to_task_def split: sum.splits) auto

lemma row_readable_retry:
  assumes "row_readable L r" "tr_retry_count r < tr_max_retry r"
  shows "row_readable L (retry_row e r)"
proof -
  obtain t where t: "row_to_task L r = Inr t" and n: "0 \<le> tr_retry_count r"
    using assms(1) by (auto simp: row_readable_def)
  obtain a b d f where p: "as_uint32 (tr_priority r) = Inr a" "as_uint32 (tr_max_retry r) = Inr b"
    "as_uint32 (tr_timeout_ms r) = Inr d" "parse_row_params L r = Inr f"
    using t by (simp add: row_to_task_def split: sum.splits)
  have "tr_max_retry r < 2 ^ 32" using p(2) by (simp add: as_uint32_def split: if_splits)
  with n assms(2) have c: "as_uint32 (tr_retry_count r + 1) = Inr (word_of_int (tr_retry_count r + 1))"
    by (simp add: as_uint32_def)
  have "parse_row_params L (retry_row e r) = Inr f"
    using p(4) by (simp add: parse_row_params_def retry_row_def)
  with p(1-3) c have "\<exists>t. row_to_task L (retry_row e r) = Inr t"
    by (simp add: row_to_task_def retry_row_def)
  with n show ?thesis by (simp add: row_readable_def) (simp add: retry_row_def)
qed

lemma row_readable_fail:
  assumes "row_readable L r"
  shows "row_readable L (fail_row now e r)"
proof -
  obtain t where t: "row_to_task L r = Inr t" and n: "0 \<le> tr_retry_count r"
    using assms by (auto simp: row_readable_def)
  obtain a b c d f where p: "as_uint32 (tr_priority r) = Inr a" "as_uint32 (tr_max_retry r) = Inr b"
    "as_uint32 (tr_retry_count r) = Inr c" "as_uint32 (tr_timeout_ms r) = Inr d" "parse_row_params L r = Inr f"
    using t by (simp add: row_to_task_def split: sum.splits)
  have "parse_row_params L (fail_row now e r) = Inr f"
    using p(5) by (simp add: parse_row_params_def fail_row_def)
  with p(1-4) have "\<exists>t. row_to_task L (fail_row now e r) = Inr t"
    by (simp add: row_to_task_def fail_row_def)
  with n show ?thesis by (simp add: row_readable_def) (simp add: fail_row_def)
qed

context redis_store
begin

text \<open>One failure report: the row, and for a retry one entry on the task stream.\<close>

lemma report_failure_step:
  assumes "up (sv_redis s)" "is_stream (view (sv_redis s)) kTasks" "rm_client (sv_rm s)" "sv_has_repo s"
    and "pg_uuid_ok T (us_task_id q)" "find_task (sv_db s) (us_task_id q) = Some r" "row_readable L r"
  shows "\<exists>s'. report_failure T L R (tx_ok now) (tx_ok now2) q s = (Inr (GrpcOK, Some None), s') \<and>
     up (sv_redis s') \<and> sv_rm s' = sv_rm s \<and> sv_has_repo s' = sv_has_repo s \<and>
     (if tr_retry_count r < tr_max_retry r
      then sv_db s' = upd_tasks (task_by_id (us_task_id q)) (retry_row (us_error_msg q)) (sv_db s) \<and>
           (\<exists>i. view (sv_redis s') = (view (sv_redis s))(kTasks \<mapsto>
              RStream (stream_at (view (sv_redis s)) kTasks @ [(i, ToXAddArgs (us_task_id q) (tr_job_id r))])))
      else sv_db s' = upd_tasks (task_by_id (us_task_id q)) (fail_row now (us_error_msg q)) (sv_db s) \<and>
           sv_redis s' = sv_redis s)"
proof (cases "tr_retry_count r < tr_max_retry r")
  case True
  let ?i = "us_task_id q" and ?row = "retry_row (us_error_msg q) r"
  let ?db = "upd_tasks (task_by_id ?i) (retry_row (us_error_msg q)) (sv_db s)"
  obtain t where t: "row_to_task L ?row = Inr t"
    using row_readable_retry [OF assms(7) True] by (auto simp: row_readable_def)
  have ids: "t_task_id t = ?i" "t_job_id t = tr_job_id r"
    using row_to_task_ids [OF t] find_task_Some [OF assms(6)] by simp_all
  have "find_task ?db ?i = Some ?row" using assms(6) by (simp add: find_task_self)
  then have g: "GetTaskById T L (tx_ok now2) ?i ?db = (Some t, ?db)"
    using assms(5) t by (simp add: GetTaskById_def GetTaskById_tx_def)
  obtain x r' where x: "r_xadd R kTasks ''*'' (ToXAddArgs ?i (tr_job_id r)) (sv_redis s) = (Inr x, r')" "up r'"
    "view r' = (view (sv_redis s))(kTasks \<mapsto>
       RStream (stream_at (view (sv_redis s)) kTasks @ [(x, ToXAddArgs ?i (tr_job_id r))]))"
    using xadd [OF assms(1,2), of "ToXAddArgs ?i (tr_job_id r)"] by blast
  have h: "HandleTaskFailure T (tx_ok now) ?i (us_error_msg q) k (sv_db s) = (True, ?db)" for k
    using fail_step [OF assms(5,6)] True by simp
  let ?s' = "s\<lparr>sv_batcher := (sv_batcher s)\<lparr>bt_db := ?db\<rparr>, sv_redis := r'\<rparr>"
  have "report_failure T L R (tx_ok now) (tx_ok now2) q s = (Inr (GrpcOK, Some None), ?s')"
    using assms(3,4) h g x(1) by (simp add: report_failure_def sv_db_def XAdd_def ids Let_def)
  with x(2,3) True show ?thesis
    by (intro exI [of _ ?s']) (simp add: sv_db_def, blast)
next
  case False
  let ?db = "upd_tasks (task_by_id (us_task_id q)) (fail_row now (us_error_msg q)) (sv_db s)"
  let ?s' = "s\<lparr>sv_batcher := (sv_batcher s)\<lparr>bt_db := ?db\<rparr>\<rparr>"
  have h: "HandleTaskFailure T (tx_ok now) (us_task_id q) (us_error_msg q) k (sv_db s) = (False, ?db)" for k
    using fail_step [OF assms(5,6)] False by simp
  have "report_failure T L R (tx_ok now) (tx_ok now2) q s = (Inr (GrpcOK, Some None), ?s')"
    using assms(4) h by (simp add: report_failure_def sv_db_def Let_def)
  with False assms(1) show ?thesis by (intro exI [of _ ?s']) (simp add: sv_db_def)
qed

end

definition failure_report :: "string \<Rightarrow> UpdateTaskStatusRequest \<Rightarrow> bool" where
  "failure_report i q \<longleftrightarrow> us_task_id q = i \<and> us_final_state q \<noteq> StateToProto SUCCESS"

text \<open>
  What \<open>l\<close> failure reports leave behind when the first \<open>n\<close> of them are answered with a
  retry: the entries added, the row, and nothing else in Redis.
\<close>

definition requeued ::
  "('r \<Rightarrow> keyspace) \<Rightarrow> string \<Rightarrow> task_row \<Rightarrow> nat \<Rightarrow> nat \<Rightarrow> 'r scheduler \<Rightarrow> 'r scheduler \<Rightarrow> bool" where
  "requeued view i r n l s s' \<longleftrightarrow>
     (\<exists>new. stream_at (view (sv_redis s')) kTasks = stream_at (view (sv_redis s)) kTasks @ new \<and>
        map snd new = replicate n (ToXAddArgs i (tr_job_id r))) \<and>
     (\<exists>r'. find_task (sv_db s') i = Some r' \<and> tr_retry_count r' = tr_retry_count r + int n \<and>
        tr_state r' = (if l = 0 then tr_state r else if n = l then ST_PENDING else ST_FAILED)) \<and>
     (\<forall>k. k \<noteq> kTasks \<longrightarrow> view (sv_redis s') k = view (sv_redis s) k)"

lemma requeued_retry:
  assumes "view (sv_redis s1) = (view (sv_redis s))(kTasks \<mapsto>
      RStream (stream_at (view (sv_redis s)) kTasks @ [(x, ToXAddArgs i (tr_job_id r))]))"
    and "requeued view i (retry_row e r) n l s1 s'" "n \<le> l"
  shows "requeued view i r (Suc n) (Suc l) s s'"
proof -
  obtain new where new: "stream_at (view (sv_redis s')) kTasks = stream_at (view (sv_redis s1)) kTasks @ new"
    "map snd new = replicate n (ToXAddArgs i (tr_job_id r))"
    using assms(2) by (auto simp: requeued_def)
  have "stream_at (view (sv_redis s')) kTasks = stream_at (view (sv_redis s)) kTasks @
      ((x, ToXAddArgs i (tr_job_id r)) # new)"
    using new(1) by (simp add: assms(1))
  moreover have "map snd ((x, ToXAddArgs i (tr_job_id r)) # new) = replicate (Suc n) (ToXAddArgs i (tr_job_id r))"
    using new(2) by simp
  moreover have "\<exists>r'. find_task (sv_db s') i = Some r' \<and> tr_retry_count r' = tr_retry_count r + int (Suc n) \<and>
      tr_state r' = (if Suc n = Suc l then ST_PENDING else ST_FAILED)"
    using assms(2,3) unfolding requeued_def by (auto simp: retry_row_def split: if_splits)
  moreover have "\<forall>k. k \<noteq> kTasks \<longrightarrow> view (sv_redis s') k = view (sv_redis s) k"
    using assms(2) by (simp add: requeued_def assms(1))
  ultimately show ?thesis unfolding requeued_def by auto
qed

lemma requeued_fail:
  "sv_redis s1 = sv_redis s \<Longrightarrow> requeued view i (fail_row now e r) 0 l s1 s' \<Longrightarrow>
   requeued view i r 0 (Suc l) s s'"
  by (auto simp: requeued_def fail_row_def split: if_splits)

lemma failure_reports_requeued:
  assumes "redis_store R view up" "pg_uuid_ok T i" "i \<noteq> []"
    and "up (sv_redis s)" "is_stream (view (sv_redis s)) kTasks" "rm_client (sv_rm s)" "sv_has_repo s"
    and "find_task (sv_db s) i = Some r" "row_readable L r" "tr_retry_count r \<le> tr_max_retry r"
    and "\<forall>q \<in> set qs. failure_report i q"
    and "report_all T L R SC script (tx_ok now) qs s = (xs, s')"
  shows "(\<forall>x \<in> set xs. x = Inr (GrpcOK, Some None)) \<and>
     requeued view i r (min (length qs) (nat (tr_max_retry r - tr_retry_count r))) (length qs) s s'"
  using assms(4-)
proof (induction qs arbitrary: s r xs)
  case (Cons q qs)
  have q: "us_task_id q = i" "us_final_state q \<noteq> StateToProto SUCCESS" "\<forall>q \<in> set qs. failure_report i q"
    using Cons.prems(8) by (simp_all add: failure_report_def)
  obtain s1 where s1: "report_failure T L R (tx_ok now) (tx_ok now) q s = (Inr (GrpcOK, Some None), s1)"
    "up (sv_redis s1)" "sv_rm s1 = sv_rm s" "sv_has_repo s1 = sv_has_repo s"
    and step: "if tr_retry_count r < tr_max_retry r
      then sv_db s1 = upd_tasks (task_by_id i) (retry_row (us_error_msg q)) (sv_db s) \<and>
           (\<exists>x. view (sv_redis s1) = (view (sv_redis s))(kTasks \<mapsto>
              RStream (stream_at (view (sv_redis s)) kTasks @ [(x, ToXAddArgs i (tr_job_id r))])))
      else sv_db s1 = upd_tasks (task_by_id i) (fail_row now (us_error_msg q)) (sv_db s) \<and>
           sv_redis s1 = sv_redis s"
    using redis_store.report_failure_step [OF assms(1) Cons.prems(1-4), of T q r L now now]
      assms(2) Cons.prems(5,6) unfolding q(1) by blast
  have "UpdateTaskStatus T L R SC script (tx_ok now) (tx_ok now) q s = (Inr (GrpcOK, Some None), s1)"
    using s1(1) q assms(3) by (simp add: UpdateTaskStatus_def)
  then obtain ys where ys: "report_all T L R SC script (tx_ok now) qs s1 = (ys, s')"
    "xs = Inr (GrpcOK, Some None) # ys"
    using Cons.prems(9) by (auto split: prod.splits)
  have h: "rm_client (sv_rm s1)" "sv_has_repo s1" using s1(3,4) Cons.prems(3,4) by simp_all
  show ?case
  proof (cases "tr_retry_count r < tr_max_retry r")
    case True
    let ?r = "retry_row (us_error_msg q) r"
    obtain x where x: "view (sv_redis s1) = (view (sv_redis s))(kTasks \<mapsto>
        RStream (stream_at (view (sv_redis s)) kTasks @ [(x, ToXAddArgs i (tr_job_id r))]))"
      and f: "find_task (sv_db s1) i = Some ?r"
      using step True Cons.prems(5) by (auto simp: find_task_self)
    have c: "tr_retry_count ?r \<le> tr_max_retry ?r"
      "nat (tr_max_retry r - tr_retry_count r) = Suc (nat (tr_max_retry ?r - tr_retry_count ?r))"
      using True by (simp_all add: retry_row_def)
    have "is_stream (view (sv_redis s1)) kTasks" by (simp add: x)
    note IH = Cons.IH [OF s1(2) this h f row_readable_retry [OF Cons.prems(6) True] c(1) q(3) ys(1)]
    from requeued_retry [of view s1, OF x IH [THEN conjunct2]] IH c(2) ys(2) show ?thesis by simp
  next
    case False
    let ?r = "fail_row now (us_error_msg q) r"
    have same: "sv_redis s1 = sv_redis s" and f: "find_task (sv_db s1) i = Some ?r"
      using step False Cons.prems(5) by (auto simp: find_task_self)
    have c: "tr_retry_count ?r \<le> tr_max_retry ?r" "nat (tr_max_retry ?r - tr_retry_count ?r) = 0"
      "nat (tr_max_retry r - tr_retry_count r) = 0"
      using Cons.prems(7) False by (simp_all add: fail_row_def)
    note IH = Cons.IH [OF _ _ h f row_readable_fail [OF Cons.prems(6)] c(1) q(3) ys(1), unfolded same c(2),
        OF Cons.prems(1,2)]
    have "requeued view i ?r 0 (length qs) s1 s'" using IH by simp
    from requeued_fail [OF same this] IH c(3) ys(2) show ?thesis by simp
  qed
qed (auto simp: requeued_def)

text \<open>
  C18. A failing task is put back on the stream boundedly often. Let a task be reported failed any
  number of times through \<open>UpdateTaskStatus\<close>: every call answers without an error, the task stream
  gets one entry for the task per report until \<open>max_retry - retry_count\<close> are spent and none
  after that, the row counts the retries and ends \<open>FAILED\<close> when the reports exceed them, and no
  other key of Redis changes: a failed task releases none of its children.
\<close>

theorem failing_task_requeued_boundedly:
  assumes "redis_store R view up" "pg_uuid_ok T i" "i \<noteq> []"
    and "up (sv_redis s)" "is_stream (view (sv_redis s)) kTasks" "rm_client (sv_rm s)" "sv_has_repo s"
    and "find_task (sv_db s) i = Some r" "row_readable L r" "tr_retry_count r \<le> tr_max_retry r"
    and "\<forall>q \<in> set qs. failure_report i q"
    and "report_all T L R SC script (tx_ok now) qs s = (xs, s')"
    and "n = min (length qs) (nat (tr_max_retry r - tr_retry_count r))"
  shows "(\<forall>x \<in> set xs. x = Inr (GrpcOK, Some None)) \<and>
     (\<exists>new. stream_at (view (sv_redis s')) kTasks = stream_at (view (sv_redis s)) kTasks @ new \<and>
        map snd new = replicate n (ToXAddArgs i (tr_job_id r))) \<and>
     (\<exists>r'. find_task (sv_db s') i = Some r' \<and> tr_retry_count r' = tr_retry_count r + int n \<and>
        (qs \<noteq> [] \<longrightarrow> tr_state r' = (if n = length qs then ST_PENDING else ST_FAILED))) \<and>
     (\<forall>k. k \<noteq> kTasks \<longrightarrow> view (sv_redis s') k = view (sv_redis s) k)"
  using failure_reports_requeued [OF assms(1-12)] unfolding assms(13) requeued_def by auto

abbreviation failing_state :: "host_store scheduler" where
  "failing_state \<equiv> sample_scheduler sample_db (ms_empty, False)"

lemma failing_state_facts:
  "host_up (sv_redis failing_state)" "is_stream (host_view (sv_redis failing_state)) kTasks"
  "rm_client (sv_rm failing_state)" "sv_has_repo failing_state"
  "find_task (sv_db failing_state) ''a'' = Some (sample_row ''a'' ST_PENDING 1)"
  "find_task (sv_db failing_state) ''c'' = Some (sample_row ''c'' ST_SUCCESS 0)"
  "stream_at (host_view (sv_redis failing_state)) kTasks = []"
  by (simp_all add: sample_scheduler_def host_up_def host_view_def ms_view_empty sv_db_def new_batcher_def
      is_stream_def stream_at_def)

lemma sample_row_readable: "n \<in> {0, 1} \<Longrightarrow> row_readable L (sample_row i st n)"
  by (auto simp: row_readable_def row_to_task_def sample_row_def as_uint32_def parse_row_params_def)

theorem failing_task_requeued_boundedly_witness:
  "\<exists>s' xs new. report_all sample_types sample_json_lib host_ops host_scripts host_script (tx_ok 1)
     [sample_report ''a'' 3, sample_report ''a'' 3] failing_state = (xs, s') \<and>
     stream_at (host_view (sv_redis s')) kTasks = new \<and> map snd new = [ToXAddArgs ''a'' ''j''] \<and>
     map_option tr_state (find_task (sv_db s') ''a'') = Some ST_FAILED"
proof -
  let ?qs = "[sample_report ''a'' 3, sample_report ''a'' 3]"
  obtain xs s' where r: "report_all sample_types sample_json_lib host_ops host_scripts host_script (tx_ok 1) ?qs failing_state = (xs, s')"
    by (cases "report_all sample_types sample_json_lib host_ops host_scripts host_script (tx_ok 1) ?qs failing_state")
  have q: "\<forall>q \<in> set ?qs. failure_report ''a'' q"
    by (simp add: failure_report_def sample_report_def StateToProto_def SUCCESS_def)
  have rd: "row_readable sample_json_lib (sample_row ''a'' ST_PENDING 1)" by (rule sample_row_readable) simp
  have u: "pg_uuid_ok sample_types ''a''" "''a'' \<noteq> []" by simp_all
  have le: "tr_retry_count (sample_row ''a'' ST_PENDING 1) \<le> tr_max_retry (sample_row ''a'' ST_PENDING 1)"
    by (simp add: sample_row_def)
  have n: "1 = min (length ?qs) (nat (tr_max_retry (sample_row ''a'' ST_PENDING 1) - tr_retry_count (sample_row ''a'' ST_PENDING 1)))"
    by (simp add: sample_row_def)
  from failing_task_requeued_boundedly [OF host_store u failing_state_facts(1-5) rd le q r n]
    failing_state_facts(7) r
  show ?thesis by (auto simp: sample_row_def)
qed

text \<open>
  A late report of failure undoes a success. Nothing in the branch of failures looks at the
  state of the row: a task that has succeeded and has retries left becomes \<open>PENDING\<close> again, loses
  its worker and finish time, and is put on the stream to run once more.
\<close>

theorem late_failure_undoes_success:
  assumes "redis_store R view up" "pg_uuid_ok T i" "i \<noteq> []"
    and "up (sv_redis s)" "is_stream (view (sv_redis s)) kTasks" "rm_client (sv_rm s)" "sv_has_repo s"
    and "find_task (sv_db s) i = Some r" "row_readable L r" "tr_retry_count r < tr_max_retry r"
    and "tr_state r = ST_SUCCESS" "failure_report i q"
  shows "\<exists>s' r' x. UpdateTaskStatus T L R SC script (tx_ok now) (tx_ok now) q s = (Inr (GrpcOK, Some None), s') \<and>
     find_task (sv_db s') i = Some r' \<and> tr_state r' = ST_PENDING \<and> tr_finish_ts r' = None \<and>
     stream_at (view (sv_redis s')) kTasks =
       stream_at (view (sv_redis s)) kTasks @ [(x, ToXAddArgs i (tr_job_id r))]"
proof -
  have q: "us_task_id q = i" "us_final_state q \<noteq> StateToProto SUCCESS" using assms(12) by (simp_all add: failure_report_def)
  obtain s' x where s': "report_failure T L R (tx_ok now) (tx_ok now) q s = (Inr (GrpcOK, Some None), s')"
    "sv_db s' = upd_tasks (task_by_id i) (retry_row (us_error_msg q)) (sv_db s)"
    "view (sv_redis s') = (view (sv_redis s))(kTasks \<mapsto>
       RStream (stream_at (view (sv_redis s)) kTasks @ [(x, ToXAddArgs i (tr_job_id r))]))"
    using redis_store.report_failure_step [OF assms(1,4-7), of T q r L now now] assms(2,8,9,10) q(1) by auto
  have "find_task (sv_db s') i = Some (retry_row (us_error_msg q) r)"
    unfolding s'(2) using assms(8) by (simp add: find_task_self)
  with s'(1,3) q assms(3) show ?thesis
    by (intro exI [of _ s'] exI [of _ "retry_row (us_error_msg q) r"] exI [of _ x])
      (simp add: UpdateTaskStatus_def retry_row_def)
qed

theorem late_failure_undoes_success_witness:
  "\<exists>s' r'. UpdateTaskStatus sample_types sample_json_lib host_ops host_scripts host_script (tx_ok 1) (tx_ok 1)
       (sample_report ''c'' 3) failing_state = (Inr (GrpcOK, Some None), s') \<and>
     find_task (sv_db s') ''c'' = Some r' \<and> tr_state r' = ST_PENDING"
proof -
  have q: "failure_report ''c'' (sample_report ''c'' 3)"
    by (simp add: failure_report_def sample_report_def StateToProto_def SUCCESS_def)
  have rd: "row_readable sample_json_lib (sample_row ''c'' ST_SUCCESS 0)" by (rule sample_row_readable) simp
  have u: "pg_uuid_ok sample_types ''c''" "''c'' \<noteq> []" by simp_all
  have r: "tr_retry_count (sample_row ''c'' ST_SUCCESS 0) < tr_max_retry (sample_row ''c'' ST_SUCCESS 0)"
    "tr_state (sample_row ''c'' ST_SUCCESS 0) = ST_SUCCESS"
    by (simp_all add: sample_row_def)
  from late_failure_undoes_success [OF host_store u failing_state_facts(1-4,6) rd r q, of host_scripts host_script 1]
  show ?thesis by blast
qed

text \<open>
  A success whose script run is lost is recorded all the same. When the server fails the script
  call, \<open>UpdateTaskStatus\<close> still answers without an error and queues the update that makes the task
  \<open>SUCCESS\<close>; the keyspace is whatever the failed call left, so the children are not released, and
  the worker has no reason to report again.
\<close>

theorem success_recorded_although_script_failed:
  assumes "rm_client (sv_rm s)" "sv_sha s \<noteq> []" "sv_has_batcher s" "success_report q"
    and "so_evalsha SC (sv_sha s) [Children (us_task_id q), DependencyHash (us_job_id q), kTasks, kErrors]
           [us_job_id q] (sv_redis s) = (Inl (StdException m), r')"
  shows "\<exists>s'. UpdateTaskStatus T L R SC script E1 E2 q s = (Inr (GrpcOK, Some None), s') \<and>
     sv_redis s' = r' \<and> bt_queue (sv_batcher s') = bt_queue (sv_batcher s) @ [status_op q]"
  using assms by (simp add: UpdateTaskStatus_def report_success_def EnsureScriptLoaded_def EvalSha_def
      success_report_def AddStatusUpdate_def)

definition dead_scripts :: "host_store script_ops" where
  "dead_scripts =
     \<lparr>so_load = \<lambda>s. sthrow (StdException ''closed''), so_evalsha = \<lambda>s k a. sthrow (StdException ''closed''),
      so_eval = \<lambda>s k a. sthrow (StdException ''closed'')\<rparr>"

theorem success_recorded_although_script_failed_witness:
  "\<exists>s'. UpdateTaskStatus sample_types sample_json_lib host_ops dead_scripts host_script (tx_ok 1) (tx_ok 1)
       (sample_report ''a'' 2) (failing_state\<lparr>sv_sha := host_script\<rparr>) = (Inr (GrpcOK, Some None), s') \<and>
     sv_redis s' = (ms_empty, False) \<and> map op_task_id (bt_queue (sv_batcher s')) = [''a'']"
proof -
  have q: "success_report (sample_report ''a'' 2)"
    by (simp add: success_report_def sample_report_def StateToProto_def SUCCESS_def)
  have "\<exists>s'. UpdateTaskStatus sample_types sample_json_lib host_ops dead_scripts host_script (tx_ok 1) (tx_ok 1)
       (sample_report ''a'' 2) (failing_state\<lparr>sv_sha := host_script\<rparr>) = (Inr (GrpcOK, Some None), s') \<and>
     sv_redis s' = (ms_empty, False) \<and>
     bt_queue (sv_batcher s') = bt_queue (sv_batcher (failing_state\<lparr>sv_sha := host_script\<rparr>)) @ [status_op (sample_report ''a'' 2)]"
    by (rule success_recorded_although_script_failed [where m = "''closed''", OF _ _ _ q])
      (simp_all add: sample_scheduler_def host_script_def dead_scripts_def)
  then show ?thesis by (auto simp: sample_scheduler_def new_batcher_def status_op_def sample_report_def)
qed

end
