(* ===== verification/Job_Query.thy ===== *)
theory Job_Query
  imports Redis_Manager Database_Pool Task_Types Rpc_Types
begin

text \<open>
  \<open>src/api-server/src/job_query_handler.cpp\<close>: the state of a job, aggregated from its tasks. The
  handler asks Redis first and the database for what Redis does not have. The columns the table
  \<open>task\<close> has are an argument: the statement for the details names one that \<open>init.sql\<close> does not
  create.
\<close>

section \<open>Messages\<close>

datatype JobState = JOB_UNKNOWN | JOB_PENDING | JOB_RUNNING | JOB_SUCCESS | JOB_FAILED
datatype query_err = QueryDb db_err | QueryRedis redis_err

record TaskRuntimeDetail =
  td_task_id :: string
  td_state :: PbTaskState
  td_worker_id :: string
  td_error_message :: string
  td_retry_count :: int
  td_result_payload :: string

record GetJobStatusRequest =
  gq_job_id :: string
  gq_include_tasks :: bool

record GetJobStatusResponse =
  gr_error :: "(JobErr \<times> string) option"
  gr_job_id :: string
  gr_state :: JobState
  gr_total_tasks :: nat
  gr_finished_tasks :: nat
  gr_task_details :: "TaskRuntimeDetail list"

definition new_detail :: "string \<Rightarrow> TaskRuntimeDetail" where
  "new_detail i =
     \<lparr>td_task_id = i, td_state = 0, td_worker_id = [], td_error_message = [], td_retry_count = 0,
      td_result_payload = []\<rparr>"

definition new_response :: "string \<Rightarrow> GetJobStatusResponse" where
  "new_response job_id =
     \<lparr>gr_error = None, gr_job_id = job_id, gr_state = JOB_UNKNOWN, gr_total_tasks = 0,
      gr_finished_tasks = 0, gr_task_details = []\<rparr>"

definition SetJobError :: "JobErr \<Rightarrow> string \<Rightarrow> GetJobStatusResponse \<Rightarrow> GetJobStatusResponse" where
  "SetJobError code msg resp = resp\<lparr>gr_error := Some (code, msg)\<rparr>"

section \<open>Reading Redis\<close>

text \<open>\<open>std::from_chars\<close> into an \<open>int\<close>: a value out of range is an error too.\<close>

definition SafeStringToInt :: "string \<Rightarrow> int \<Rightarrow> int" where
  "SafeStringToInt sv default_val =
     (if sv = [] then default_val
      else case read_int sv of
        Some n \<Rightarrow> if in_integer n then n else default_val
      | None \<Rightarrow> default_val)"

definition GetTaskIdsFromRedis ::
  "RedisManager \<Rightarrow> 'r redis_ops \<Rightarrow> string \<Rightarrow> 'r \<Rightarrow> (bool \<times> string list) \<times> 'r" where
  "GetTaskIdsFromRedis M R job_id r =
     (case GetConnection M of
        Inl e \<Rightarrow> ((False, []), r)
      | Inr _ \<Rightarrow>
          (case r_smembers R (JobTasks job_id) r of
             (Inl e, r') \<Rightarrow> ((False, []), r')
           | (Inr ids, r') \<Rightarrow> ((ids \<noteq> [], ids), r')))"

text \<open>The pipeline of reads: \<open>lost\<close> is the error of the connection; a reply may be an error itself.\<close>

fun hgetall_all :: "'r redis_ops \<Rightarrow> string list \<Rightarrow> 'r \<Rightarrow> (redis_err + fields) list \<times> 'r" where
  "hgetall_all R [] r = ([], r)"
| "hgetall_all R (k # ks) r =
     (let (x, r1) = r_hgetall R k r; (xs, r2) = hgetall_all R ks r1 in (x # xs, r2))"

definition hgetall_pipe ::
  "'r redis_ops \<Rightarrow> redis_err option \<Rightarrow> string list \<Rightarrow> ('r, redis_err, (redis_err + fields) list) sem" where
  "hgetall_pipe R lost cmds r =
     (case lost of Some e \<Rightarrow> (Inl e, r) | None \<Rightarrow> (let (xs, r') = hgetall_all R cmds r in (Inr xs, r')))"

definition detail_of_hash :: "bool \<Rightarrow> string \<Rightarrow> fields \<Rightarrow> TaskRuntimeDetail" where
  "detail_of_hash need_payload i h =
     (let d0 = new_detail i;
          d1 = (case map_of h ''state'' of
                  Some x \<Rightarrow> d0\<lparr>td_state := word_of_int (SafeStringToInt x 0)\<rparr> | None \<Rightarrow> d0);
          d2 = (case map_of h ''worker_id'' of Some x \<Rightarrow> d1\<lparr>td_worker_id := x\<rparr> | None \<Rightarrow> d1);
          d3 = (case map_of h ''error'' of Some x \<Rightarrow> d2\<lparr>td_error_message := x\<rparr> | None \<Rightarrow> d2);
          d4 = (case map_of h ''retries'' of
                  Some x \<Rightarrow> d3\<lparr>td_retry_count := SafeStringToInt x 0\<rparr> | None \<Rightarrow> d3)
      in if need_payload
         then (case map_of h ''result'' of Some x \<Rightarrow> d4\<lparr>td_result_payload := x\<rparr> | None \<Rightarrow> d4)
         else d4)"

text \<open>The loop over the replies: the details found and the ids missed.\<close>

fun read_replies ::
  "bool \<Rightarrow> (string \<times> (redis_err + fields)) list \<Rightarrow> GetJobStatusResponse \<Rightarrow> string list \<Rightarrow>
   (redis_err + string list) \<times> GetJobStatusResponse"
where
  "read_replies need_payload [] resp missed = (Inr missed, resp)"
| "read_replies need_payload ((i, reply) # replies) resp missed =
     (case reply of
        Inl e \<Rightarrow> (Inl e, resp)
      | Inr h \<Rightarrow>
          (if h = [] then read_replies need_payload replies resp (missed @ [i])
           else read_replies need_payload replies
             (resp\<lparr>gr_task_details := gr_task_details resp @ [detail_of_hash need_payload i h]\<rparr>) missed))"

section \<open>Reading the database\<close>

definition ids_of_job_tx :: "pg_types \<Rightarrow> string \<Rightarrow> (database \<times> string list, db_err, unit) sem" where
  "ids_of_job_tx T job_id = (\<lambda>(db, out).
     if \<not> pg_uuid_ok T job_id then (Inl (StdExn ''invalid input syntax for type uuid''), (db, out))
     else (Inr (), (db, out @ map tr_task_id (filter (\<lambda>r. tr_job_id r = job_id) (db_tasks db)))))"

definition GetTaskIdsFromDB ::
  "pg_types \<Rightarrow> tx_env \<Rightarrow> string \<Rightarrow> database \<Rightarrow> (db_err + unit) \<times> database \<times> string list" where
  "GetTaskIdsFromDB T E job_id db = run_tx E (ids_of_job_tx T job_id) (db, [])"

definition task_columns :: "string list" where
  "task_columns =
     [''task_id'', ''job_id'', ''natural_id'', ''func_name'', ''func_params'', ''required'', ''shard'',
      ''state'', ''priority'', ''retry_count'', ''max_retry'', ''timeout_ms'', ''pending_dependencies'',
      ''error_msg'', ''submit_ts'', ''start_ts'', ''finish_ts'', ''client_id'', ''result'', ''worker_id'']"

definition detail_columns :: "string list" where
  "detail_columns =
     [''task_id'', ''state'', ''worker_id'', ''error_msg'', ''result_payload'', ''retry_count'']"

definition detail_of_row :: "(task_row \<Rightarrow> string option) \<Rightarrow> bool \<Rightarrow> task_row \<Rightarrow> TaskRuntimeDetail" where
  "detail_of_row payload need_payload row =
     (let d0 = (new_detail (tr_task_id row))\<lparr>td_state := word_of_int (tr_state row)\<rparr>;
          d1 = (case tr_worker_id row of Some x \<Rightarrow> d0\<lparr>td_worker_id := x\<rparr> | None \<Rightarrow> d0);
          d2 = (case tr_error_msg row of Some x \<Rightarrow> d1\<lparr>td_error_message := x\<rparr> | None \<Rightarrow> d1);
          d3 = d2\<lparr>td_retry_count := tr_retry_count row\<rparr>
      in if need_payload
         then (case payload row of Some x \<Rightarrow> d3\<lparr>td_result_payload := x\<rparr> | None \<Rightarrow> d3)
         else d3)"

text \<open>
  The statement for the missed tasks. \<open>cols\<close> are the columns of the table, \<open>payload\<close> what the
  column \<open>result_payload\<close> holds where there is one.
\<close>

definition details_tx ::
  "pg_types \<Rightarrow> string list \<Rightarrow> (task_row \<Rightarrow> string option) \<Rightarrow> bool \<Rightarrow> string list \<Rightarrow>
   (database \<times> GetJobStatusResponse, db_err, unit) sem"
where
  "details_tx T cols payload need_payload missed = (\<lambda>(db, resp).
     if \<not> set detail_columns \<subseteq> set cols then (Inl (StdExn ''column does not exist''), (db, resp))
     else if \<exists>i \<in> set missed. \<not> pg_uuid_ok T i
     then (Inl (StdExn ''invalid input syntax for type uuid''), (db, resp))
     else (Inr (), (db, resp\<lparr>gr_task_details := gr_task_details resp @
             map (detail_of_row payload need_payload)
               (filter (\<lambda>r. tr_task_id r \<in> set missed) (db_tasks db))\<rparr>)))"

definition FetchTaskDetails ::
  "pg_types \<Rightarrow> string list \<Rightarrow> (task_row \<Rightarrow> string option) \<Rightarrow> RedisManager \<Rightarrow> 'r redis_ops \<Rightarrow>
   redis_err option \<Rightarrow> tx_env \<Rightarrow> string list \<Rightarrow> bool \<Rightarrow> GetJobStatusResponse \<Rightarrow> database \<times> 'r \<Rightarrow>
   (redis_err + GetJobStatusResponse) \<times> database \<times> 'r"
where
  "FetchTaskDetails T cols payload M R lost E task_ids need_payload resp = (\<lambda>(db, r).
     let (pipe_results, r') = ExecPipeline M (hgetall_pipe R lost) (Inr (map TaskRuntime task_ids)) r;
         (missed, resp1) = (case pipe_results of
             None \<Rightarrow> (Inr task_ids, resp)
           | Some replies \<Rightarrow> read_replies need_payload (zip task_ids replies) resp [])
     in case missed of
          Inl e \<Rightarrow> (Inl e, (db, r'))
        | Inr missed_task_ids \<Rightarrow>
            (if missed_task_ids = [] then (Inr resp1, (db, r'))
             else case run_tx E (details_tx T cols payload need_payload missed_task_ids) (db, resp1) of
               (Inl e, (db', resp2)) \<Rightarrow> (Inr resp2, (db', r'))
             | (Inr _, (db', resp2)) \<Rightarrow> (Inr resp2, (db', r'))))"

section \<open>The handler\<close>

fun count_states :: "TaskRuntimeDetail list \<Rightarrow> nat \<times> nat \<times> nat \<times> nat" where
  "count_states [] = (0, 0, 0, 0)"
| "count_states (task # tasks) =
     (let (success_cnt, failed_cnt, running_cnt, pending_cnt) = count_states tasks
      in if td_state task = StateToProto SUCCESS then (success_cnt + 1, failed_cnt, running_cnt, pending_cnt)
         else if td_state task = StateToProto FAILED \<or> td_state task = StateToProto TIMEOUT \<or>
                 td_state task = StateToProto CANCELLED
         then (success_cnt, failed_cnt + 1, running_cnt, pending_cnt)
         else if td_state task = StateToProto RUNNING
         then (success_cnt, failed_cnt, running_cnt + 1, pending_cnt)
         else (success_cnt, failed_cnt, running_cnt, pending_cnt + 1))"

definition aggregate :: "nat \<Rightarrow> GetJobStatusResponse \<Rightarrow> GetJobStatusResponse" where
  "aggregate n resp =
     (let (success_cnt, failed_cnt, running_cnt, pending_cnt) = count_states (gr_task_details resp)
      in resp\<lparr>gr_finished_tasks := success_cnt + failed_cnt,
              gr_state := (if failed_cnt > 0 then JOB_FAILED
                           else if running_cnt > 0 then JOB_RUNNING
                           else if success_cnt = n then JOB_SUCCESS
                           else if pending_cnt = n then JOB_PENDING
                           else JOB_RUNNING)\<rparr>)"

text \<open>\<open>Handle\<close>; the two transactions it may run have the environments \<open>E1\<close> and \<open>E2\<close>.\<close>

definition Handle ::
  "pg_types \<Rightarrow> string list \<Rightarrow> (task_row \<Rightarrow> string option) \<Rightarrow> RedisManager \<Rightarrow> 'r redis_ops \<Rightarrow>
   redis_err option \<Rightarrow> tx_env \<Rightarrow> tx_env \<Rightarrow> GetJobStatusRequest \<Rightarrow> database \<times> 'r \<Rightarrow>
   (query_err + GetJobStatusResponse) \<times> database \<times> 'r"
where
  "Handle T cols payload M R lost E1 E2 req = (\<lambda>(db, r).
     let job_id = gq_job_id req; resp = new_response job_id;
         ((hit_in_redis, ids0), r1) = GetTaskIdsFromRedis M R job_id r;
         (x, db1, ids1) = (if \<not> hit_in_redis \<or> ids0 = [] then GetTaskIdsFromDB T E1 job_id db else (Inr (), db, []));
         task_ids = ids0 @ ids1
     in case x of
          Inl e \<Rightarrow> (Inl (QueryDb e), (db1, r1))
        | Inr _ \<Rightarrow>
            (if task_ids = []
             then (Inr (SetJobError JOB_NOT_FOUND (''Job not found: '' @ job_id) resp), (db1, r1))
             else case FetchTaskDetails T cols payload M R lost E2 task_ids (gq_include_tasks req)
                         (resp\<lparr>gr_total_tasks := length task_ids\<rparr>) (db1, r1) of
               (Inl e, s) \<Rightarrow> (Inl (QueryRedis e), s)
             | (Inr resp', s) \<Rightarrow> (Inr (aggregate (length task_ids) resp'), s)))"

section \<open>Lemmas\<close>

definition succeeded :: "PbTaskState \<Rightarrow> bool" where
  "succeeded x \<longleftrightarrow> x = StateToProto SUCCESS"
definition failed :: "PbTaskState \<Rightarrow> bool" where
  "failed x \<longleftrightarrow> x = StateToProto FAILED \<or> x = StateToProto TIMEOUT \<or> x = StateToProto CANCELLED"
definition running :: "PbTaskState \<Rightarrow> bool" where
  "running x \<longleftrightarrow> x = StateToProto RUNNING"

lemmas state_class_defs = succeeded_def failed_def running_def StateToProto_def task_state_defs

lemma count_states_filter:
  "count_states ds =
     (length (filter (\<lambda>d. succeeded (td_state d)) ds), length (filter (\<lambda>d. failed (td_state d)) ds),
      length (filter (\<lambda>d. running (td_state d)) ds),
      length (filter (\<lambda>d. \<not> succeeded (td_state d) \<and> \<not> failed (td_state d) \<and> \<not> running (td_state d)) ds))"
  by (induction ds) (auto simp: Let_def state_class_defs)

lemma all_filter_iff: "length (filter P xs) = length xs \<longleftrightarrow> (\<forall>x \<in> set xs. P x)"
  by (metis filter_id_conv length_filter_less less_irrefl)

text \<open>What the aggregation says when all tasks of the job are listed.\<close>

lemma aggregate_complete:
  assumes "length (gr_task_details resp) = n" "n > 0"
  shows "gr_state (aggregate n resp) =
      (if \<exists>d \<in> set (gr_task_details resp). failed (td_state d) then JOB_FAILED
       else if \<exists>d \<in> set (gr_task_details resp). running (td_state d) then JOB_RUNNING
       else if \<forall>d \<in> set (gr_task_details resp). succeeded (td_state d) then JOB_SUCCESS
       else if \<forall>d \<in> set (gr_task_details resp). \<not> succeeded (td_state d) then JOB_PENDING
       else JOB_RUNNING)"
proof -
  let ?ds = "gr_task_details resp"
  have e: "(length (filter P ?ds) > 0) = (\<exists>d \<in> set ?ds. P d)" for P
    by (simp add: filter_empty_conv)
  have a: "(length (filter P ?ds) = n) = (\<forall>d \<in> set ?ds. P d)" for P
    using all_filter_iff [of P ?ds] assms(1) by simp
  let ?none = "\<lambda>d. \<not> succeeded (td_state d) \<and> \<not> failed (td_state d) \<and> \<not> running (td_state d)"
  have p: "(\<forall>d \<in> set ?ds. ?none d) = (\<forall>d \<in> set ?ds. \<not> succeeded (td_state d))"
    if "\<not> (\<exists>d \<in> set ?ds. failed (td_state d))" "\<not> (\<exists>d \<in> set ?ds. running (td_state d))"
    using that by blast
  have upd: "gr_state (resp\<lparr>gr_finished_tasks := k, gr_state := b\<rparr>) = b" for k b by simp
  have main: "gr_state (aggregate n resp) =
      (if \<exists>d \<in> set ?ds. failed (td_state d) then JOB_FAILED
       else if \<exists>d \<in> set ?ds. running (td_state d) then JOB_RUNNING
       else if \<forall>d \<in> set ?ds. succeeded (td_state d) then JOB_SUCCESS
       else if \<forall>d \<in> set ?ds. ?none d then JOB_PENDING else JOB_RUNNING)"
    unfolding aggregate_def count_states_filter Let_def prod.case e a by (rule upd)
  show ?thesis
    by (cases "\<exists>d \<in> set ?ds. failed (td_state d)"; cases "\<exists>d \<in> set ?ds. running (td_state d)")
      (simp_all only: main p if_True if_False simp_thms)
qed

lemma small_word_eq:
  assumes "in_smallint a" "in_smallint b"
  shows "(word_of_int a :: 32 word) = word_of_int b \<longleftrightarrow> a = b"
proof -
  have "sint (word_of_int c :: 32 word) = c" if "in_smallint c" for c
    using that by (simp add: in_smallint_def sint_sbintrunc' signed_take_bit_int_eq_self)
  then show ?thesis using assms by metis
qed

lemma detail_of_row_state [simp]: "td_state (detail_of_row f b r) = word_of_int (tr_state r)"
  by (simp add: detail_of_row_def Let_def new_detail_def split: option.split)

lemma read_replies_empty:
  "read_replies b (zip ids (replicate (length ids) (Inr []))) resp missed = (Inr (missed @ ids), resp)"
  by (induction ids arbitrary: missed) simp_all

context redis_store
begin

lemma GetTaskIdsFromRedis_miss:
  assumes "up r" "view r (JobTasks job_id) = None" "rm_client M"
  shows "\<exists>r'. GetTaskIdsFromRedis M R job_id r = ((False, []), r') \<and> up r' \<and> view r' = view r"
proof -
  have "is_set (view r) (JobTasks job_id)" "set_at (view r) (JobTasks job_id) = {}"
    using assms(2) by (simp_all add: is_set_def set_at_def)
  then obtain xs r' where "r_smembers R (JobTasks job_id) r = (Inr xs, r')" "up r'" "view r' = view r" "xs = []"
    using smembers [OF assms(1), of "JobTasks job_id"] by auto
  then show ?thesis using assms(3) by (simp add: GetTaskIdsFromRedis_def GetConnection_def)
qed

lemma hgetall_all_miss:
  assumes "up r" "\<forall>k \<in> set ks. view r k = None"
  shows "\<exists>r'. hgetall_all R ks r = (replicate (length ks) (Inr []), r') \<and> up r' \<and> view r' = view r"
  using assms
proof (induction ks arbitrary: r)
  case (Cons k ks)
  have "is_hash (view r) k" "hash_at (view r) k = (\<lambda>_. None)"
    using Cons.prems(2) by (simp_all add: is_hash_def hash_at_def fun_eq_iff)
  then obtain xs r1 where r1: "r_hgetall R k r = (Inr xs, r1)" "up r1" "view r1 = view r" "xs = []"
    using hgetall [OF Cons.prems(1), of k] by (metis map_of_eq_empty_iff)
  moreover obtain r' where "hgetall_all R ks r1 = (replicate (length ks) (Inr []), r')" "up r'" "view r' = view r1"
    using Cons.IH [of r1] r1 Cons.prems(2) by auto
  ultimately show ?case by simp
qed simp

lemma FetchTaskDetails_miss:
  assumes "up r" "\<forall>i \<in> set ids. view r (TaskRuntime i) = None" "ids \<noteq> []"
  shows "\<exists>r'. up r' \<and> view r' = view r \<and> FetchTaskDetails T cols payload M R None E ids b resp (db, r) =
     (Inr (snd (snd (run_tx E (details_tx T cols payload b ids) (db, resp)))),
      fst (snd (run_tx E (details_tx T cols payload b ids) (db, resp))), r')"
proof (cases "rm_client M")
  case True
  obtain r' where r': "hgetall_all R (map TaskRuntime ids) r = (replicate (length ids) (Inr []), r')" "up r'" "view r' = view r"
    using hgetall_all_miss [OF assms(1), of "map TaskRuntime ids"] assms(2) by auto
  then show ?thesis
    using True assms(3) read_replies_empty [of b ids resp "[]"]
    by (intro exI [of _ r'])
      (simp add: FetchTaskDetails_def ExecPipeline_def hgetall_pipe_def split: prod.split sum.split)
next
  case False
  then show ?thesis
    using assms(1,3) by (intro exI [of _ r])
      (simp add: FetchTaskDetails_def ExecPipeline_def split: prod.split sum.split)
qed

text \<open>A job Redis knows nothing about: the answer comes from the database alone.\<close>

lemma Handle_from_db:
  assumes "up r" "view r (JobTasks job_id) = None" "\<And>i. view r (TaskRuntime i) = None" "rm_client M"
    and "pg_uuid_ok T job_id" "ids = map tr_task_id (filter (\<lambda>r. tr_job_id r = job_id) (db_tasks db))"
    and "req = \<lparr>gq_job_id = job_id, gq_include_tasks = b\<rparr>"
  shows "\<exists>r'. Handle T cols payload M R None (tx_ok n1) (tx_ok n2) req (db, r) =
     (Inr (if ids = [] then SetJobError JOB_NOT_FOUND (''Job not found: '' @ job_id) (new_response job_id)
           else aggregate (length ids) (snd (snd (run_tx (tx_ok n2) (details_tx T cols payload b ids)
                  (db, (new_response job_id)\<lparr>gr_total_tasks := length ids\<rparr>))))), db, r')"
proof -
  obtain r1 where r1: "GetTaskIdsFromRedis M R job_id r = ((False, []), r1)" "up r1" "view r1 = view r"
    using GetTaskIdsFromRedis_miss [OF assms(1,2,4)] by blast
  have db: "GetTaskIdsFromDB T (tx_ok n1) job_id db = (Inr (), db, ids)"
    using assms(5) by (simp add: GetTaskIdsFromDB_def ids_of_job_tx_def assms(6))
  show ?thesis
  proof (cases "ids = []")
    case True
    then show ?thesis using r1(1) db by (simp add: Handle_def assms(7))
  next
    case False
    let ?resp = "(new_response job_id)\<lparr>gr_total_tasks := length ids\<rparr>"
    let ?tx = "run_tx (tx_ok n2) (details_tx T cols payload b ids) (db, ?resp)"
    obtain r' where r': "FetchTaskDetails T cols payload M R None (tx_ok n2) ids b ?resp (db, r1) =
        (Inr (snd (snd ?tx)), fst (snd ?tx), r')"
      using FetchTaskDetails_miss [OF r1(2), of ids T cols payload M "tx_ok n2" b ?resp db] assms(3) False r1(3) by auto
    have "fst (snd ?tx) = db" by (simp add: details_tx_def)
    with r' r1(1) db False show ?thesis
      by (intro exI [of _ r']) (simp add: Handle_def assms(7) del: run_tx_ok)
  qed
qed

end

text \<open>The state of a job by the states of its rows.\<close>

definition job_state_of :: "int list \<Rightarrow> JobState" where
  "job_state_of xs =
     (if \<exists>x \<in> set xs. x \<in> {3, 4, 5} then JOB_FAILED
      else if 1 \<in> set xs then JOB_RUNNING
      else if \<forall>x \<in> set xs. x = 2 then JOB_SUCCESS
      else if 2 \<notin> set xs then JOB_PENDING
      else JOB_RUNNING)"

text \<open>The details of the rows of a job, and the state they aggregate to.\<close>

lemma detail_states:
  assumes "\<forall>row \<in> set rows. in_smallint (tr_state row)" "ds = map (detail_of_row payload b) rows"
  shows "(\<exists>d \<in> set ds. failed (td_state d)) = (\<exists>x \<in> set (map tr_state rows). x \<in> {3, 4, 5})"
    and "(\<exists>d \<in> set ds. running (td_state d)) = (1 \<in> set (map tr_state rows))"
    and "(\<forall>d \<in> set ds. succeeded (td_state d)) = (\<forall>x \<in> set (map tr_state rows). x = 2)"
    and "(\<forall>d \<in> set ds. \<not> succeeded (td_state d)) = (2 \<notin> set (map tr_state rows))"
proof -
  have st: "(word_of_int (tr_state row) :: PbTaskState) = word_of_int k \<longleftrightarrow> tr_state row = k"
    if "row \<in> set rows" "in_smallint k" for row k
    using small_word_eq [OF _ that(2)] assms(1) that(1) by blast
  have cls: "failed (word_of_int (tr_state row)) \<longleftrightarrow> tr_state row \<in> {3, 4, 5}"
    "running (word_of_int (tr_state row)) \<longleftrightarrow> tr_state row = 1"
    "succeeded (word_of_int (tr_state row)) \<longleftrightarrow> tr_state row = 2" if "row \<in> set rows" for row
    using st [OF that, of 1] st [OF that, of 2] st [OF that, of 3] st [OF that, of 4] st [OF that, of 5]
    by (simp_all add: state_class_defs in_smallint_def)
  then show "(\<exists>d \<in> set ds. failed (td_state d)) = (\<exists>x \<in> set (map tr_state rows). x \<in> {3, 4, 5})"
    "(\<exists>d \<in> set ds. running (td_state d)) = (1 \<in> set (map tr_state rows))"
    "(\<forall>d \<in> set ds. succeeded (td_state d)) = (\<forall>x \<in> set (map tr_state rows). x = 2)"
    "(\<forall>d \<in> set ds. \<not> succeeded (td_state d)) = (2 \<notin> set (map tr_state rows))"
    unfolding assms(2) by (auto simp: image_iff)
qed

lemma aggregate_rows:
  assumes "\<forall>row \<in> set rows. in_smallint (tr_state row)" "rows \<noteq> []"
    and "gr_task_details resp = map (detail_of_row payload b) rows"
  shows "gr_state (aggregate (length rows) resp) = job_state_of (map tr_state rows)"
  unfolding job_state_of_def detail_states [OF assms(1,3), symmetric]
  by (rule aggregate_complete) (use assms(2,3) in simp_all)

lemma aggregate_keeps:
  "gr_error (aggregate n x) = gr_error x \<and> gr_total_tasks (aggregate n x) = gr_total_tasks x \<and>
   gr_task_details (aggregate n x) = gr_task_details x"
  by (simp add: aggregate_def split: prod.split)

lemma detail_ids: "map td_task_id (map (detail_of_row payload b) rows) = map tr_task_id rows"
  by (simp add: detail_of_row_def Let_def new_detail_def split: option.split)

lemma details_of_job:
  assumes "set detail_columns \<subseteq> set cols" "db_ok db"
    and "rows = filter (\<lambda>row. tr_job_id row = job_id) (db_tasks db)"
    and "\<forall>row \<in> set rows. pg_uuid_ok T (tr_task_id row)" "gr_task_details resp = []"
  shows "snd (snd (run_tx (tx_ok n) (details_tx T cols payload b (map tr_task_id rows)) (db, resp))) =
     resp\<lparr>gr_task_details := map (detail_of_row payload b) rows\<rparr>"
proof -
  have d: "distinct (map tr_task_id (db_tasks db))" using assms(2) by (simp add: db_ok_def)
  have mem: "tr_task_id row \<in> set (map tr_task_id rows) \<longleftrightarrow> tr_job_id row = job_id"
    if "row \<in> set (db_tasks db)" for row
    using d that assms(3) by (auto simp: distinct_map inj_on_def)
  have "filter (\<lambda>row. tr_task_id row \<in> set (map tr_task_id rows)) (db_tasks db) = rows"
    unfolding assms(3) by (rule filter_cong) (use mem assms(3) in auto)
  then show ?thesis using assms(1,4,5) by (simp add: details_tx_def)
qed

section \<open>Properties\<close>


text \<open>
  With the schema as it is, a job never finishes for its client. \<open>init.sql\<close> gives the table
  \<open>task\<close> no column \<open>result_payload\<close>, so the statement for the details fails, its exception is only
  logged, and a job whose tasks Redis does not list is \<open>JOB_RUNNING\<close> with no finished task and no
  details, whatever the states of its rows.
\<close>

theorem job_query_never_finishes:
  assumes "redis_store R view up" "up r" "view r (JobTasks job_id) = None" "\<And>i. view r (TaskRuntime i) = None"
    and "rm_client M" "pg_uuid_ok T job_id"
    and "rows = filter (\<lambda>row. tr_job_id row = job_id) (db_tasks db)" "rows \<noteq> []"
    and "req = \<lparr>gq_job_id = job_id, gq_include_tasks = b\<rparr>"
  shows "\<exists>resp r'. Handle T task_columns payload M R None (tx_ok n1) (tx_ok n2) req (db, r) = (Inr resp, db, r') \<and>
     gr_error resp = None \<and> gr_state resp = JOB_RUNNING \<and> gr_total_tasks resp = length rows \<and>
     gr_finished_tasks resp = 0 \<and> gr_task_details resp = []"
proof -
  let ?ids = "map tr_task_id rows"
  let ?resp0 = "(new_response job_id)\<lparr>gr_total_tasks := length ?ids\<rparr>"
  have "\<not> set detail_columns \<subseteq> set task_columns" by (simp add: detail_columns_def task_columns_def)
  then have tx: "snd (snd (run_tx (tx_ok n2) (details_tx T task_columns payload b ?ids) (db, ?resp0))) = ?resp0"
    by (simp add: details_tx_def)
  obtain r' where "Handle T task_columns payload M R None (tx_ok n1) (tx_ok n2) req (db, r) =
     (Inr (aggregate (length ?ids) ?resp0), db, r')"
    using redis_store.Handle_from_db [OF assms(1-6) _ assms(9), of ?ids db task_columns payload n1 n2] assms(7,8)
    unfolding tx by auto
  then show ?thesis
    using assms(8) by (intro exI [of _ "aggregate (length ?ids) ?resp0"] exI [of _ r'])
      (simp add: aggregate_def new_response_def)
qed

definition query_db :: database where
  "query_db = \<lparr>db_jobs = [\<lparr>j_job_id = ''j'', j_idempotency_key = ''k'', j_state = 0\<rparr>], db_tasks =
     [\<lparr>tr_task_id = ''a'', tr_job_id = ''j'', tr_natural_id = ''x'', tr_func_name = ''f'',
       tr_func_params = None, tr_state = 2, tr_priority = 0, tr_retry_count = 0, tr_max_retry = 0,
       tr_timeout_ms = 0, tr_pending_dependencies = 0, tr_error_msg = None, tr_submit_ts = None,
       tr_start_ts = None, tr_finish_ts = None, tr_result = None, tr_worker_id = None\<rparr>], db_edges = []\<rparr>"

lemma query_premises:
  "ms_up ms_empty" "ms_view ms_empty (JobTasks ''j'') = None" "\<And>i. ms_view ms_empty (TaskRuntime i) = None"
  "rm_client \<lparr>rm_client = True, rm_script_cache = (\<lambda>_. None)\<rparr>"
  by (simp_all add: ms_view_def ms_empty_def ms_up_def)


theorem job_query_never_finishes_witness:
  "\<exists>resp r'. Handle sample_types task_columns tr_result \<lparr>rm_client = True, rm_script_cache = (\<lambda>_. None)\<rparr> ref_ops
     None (tx_ok 1) (tx_ok 2) \<lparr>gq_job_id = ''j'', gq_include_tasks = True\<rparr> (query_db, ms_empty) = (Inr resp, query_db, r') \<and>
     gr_state resp = JOB_RUNNING"
proof -
  have j: "pg_uuid_ok sample_types ''j''" by simp
  have ne: "filter (\<lambda>row. tr_job_id row = ''j'') (db_tasks query_db) \<noteq> []" by (simp add: query_db_def)
  show ?thesis
    using job_query_never_finishes [OF mem.redis_store_axioms query_premises j refl ne refl, of tr_result 1 2 True] by blast
qed

end
