(* ===== verification/Submit_Threads.thy ===== *)
theory Submit_Threads
  imports Submit_Batch Work_Queue
begin

text \<open>
  The threads of \<open>src/api-server/src/task_submitter.cpp\<close>: the constructor starts
  \<open>CONSUMER_THREAD_NUM\<close> flushers, \<open>SubmitDagAsync\<close> appends to the pending queue, a flusher that
  comes out of its timed wait swaps the whole queue out and processes it, the destructor clears
  \<open>running_\<close> and joins. The wait ends at any time (by its predicate, the timeout or a spurious
  wake-up), so a step out of it is always possible; \<open>running_\<close> is read outside the lock by the
  loop condition and inside it after the wait.
\<close>

section \<open>The submitter\<close>

definition CONSUMER_THREAD_NUM :: nat where "CONSUMER_THREAD_NUM = 8"

datatype flusher = AtLoop | InWait | Processing "BatchItem list" | Stopped

text \<open>\<open>sb_accepted\<close> and \<open>sb_swapped\<close> record the items accepted and those the flushers took.\<close>

record 'r submitter =
  sb_submit :: SubmitState
  sb_running :: bool
  sb_threads :: "flusher list"
  sb_world :: "database \<times> 'r"
  sb_accepted :: "BatchItem list"
  sb_swapped :: "BatchItem list"

text \<open>The constructor; without a database pool it throws.\<close>

definition new_submitter :: "bool \<Rightarrow> database \<times> 'r \<Rightarrow> string + 'r submitter" where
  "new_submitter has_pool w =
     (if \<not> has_pool then Inl ''TaskSubmitter initialized with null DBPool''
      else Inr \<lparr>sb_submit = \<lparr>ss_pending_queue = [], ss_next_id = 0\<rparr>, sb_running = True,
             sb_threads = replicate CONSUMER_THREAD_NUM AtLoop, sb_world = w,
             sb_accepted = [], sb_swapped = []\<rparr>)"

definition submit_request ::
  "(nat \<Rightarrow> string) \<Rightarrow> PbSubmitDagRequest \<Rightarrow> 'r submitter \<Rightarrow> (string + string \<times> bool) \<times> 'r submitter"
where
  "submit_request gen q s =
     (case SubmitDagAsync gen q (sb_submit s) of
        (Inl e, st) \<Rightarrow> (Inl e, s\<lparr>sb_submit := st\<rparr>)
      | (Inr x, st) \<Rightarrow>
          (Inr x, s\<lparr>sb_submit := st, sb_accepted := sb_accepted s @ [last (ss_pending_queue st)]\<rparr>))"

definition set_flusher :: "nat \<Rightarrow> flusher \<Rightarrow> 'r submitter \<Rightarrow> 'r submitter" where
  "set_flusher i f s = s\<lparr>sb_threads := (sb_threads s)[i := f]\<rparr>"

text \<open>The condition of the loop of \<open>FlusherLoop\<close>.\<close>

definition FlusherLoop_test :: "nat \<Rightarrow> 'r submitter \<Rightarrow> 'r submitter" where
  "FlusherLoop_test i s = set_flusher i (if sb_running s then InWait else Stopped) s"

text \<open>What follows the wait, under the lock.\<close>

definition FlusherLoop_take :: "nat \<Rightarrow> 'r submitter \<Rightarrow> 'r submitter" where
  "FlusherLoop_take i s =
     (let queue = ss_pending_queue (sb_submit s)
      in if \<not> sb_running s \<and> queue = [] then set_flusher i Stopped s
      else if queue = [] then set_flusher i AtLoop s
      else set_flusher i (Processing queue)
        (s\<lparr>sb_submit := (sb_submit s)\<lparr>ss_pending_queue := []\<rparr>, sb_swapped := sb_swapped s @ queue\<rparr>))"

definition FlusherLoop_process ::
  "pg_types \<Rightarrow> pb_codec \<Rightarrow> 'r redis_ops \<Rightarrow> batch_env \<Rightarrow> nat \<Rightarrow> BatchItem list \<Rightarrow> 'r submitter \<Rightarrow> 'r submitter"
where
  "FlusherLoop_process T P R E i batch s =
     set_flusher i AtLoop (s\<lparr>sb_world := snd (ProcessBatch T P R E batch (sb_world s))\<rparr>)"

definition stop_submitter :: "'r submitter \<Rightarrow> 'r submitter" where
  "stop_submitter s = s\<lparr>sb_running := False\<rparr>"

definition flusher_at :: "nat \<Rightarrow> flusher \<Rightarrow> 'r submitter \<Rightarrow> bool" where
  "flusher_at i f s \<longleftrightarrow> i < length (sb_threads s) \<and> sb_threads s ! i = f"

text \<open>The environment of each batch (commit outcome, lost connection) is arbitrary.\<close>

inductive submitter_step ::
  "pg_types \<Rightarrow> pb_codec \<Rightarrow> 'r redis_ops \<Rightarrow> (nat \<Rightarrow> string) \<Rightarrow> 'r submitter \<Rightarrow> 'r submitter \<Rightarrow> bool"
  for T P R gen
where
  submit: "submitter_step T P R gen s (snd (submit_request gen q s))"
| test: "flusher_at i AtLoop s \<Longrightarrow> submitter_step T P R gen s (FlusherLoop_test i s)"
| take_queue: "flusher_at i InWait s \<Longrightarrow> submitter_step T P R gen s (FlusherLoop_take i s)"
| process: "flusher_at i (Processing batch) s \<Longrightarrow>
    submitter_step T P R gen s (FlusherLoop_process T P R E i batch s)"
| stop: "submitter_step T P R gen s (stop_submitter s)"

lemmas submitter_defs = submit_request_def FlusherLoop_test_def FlusherLoop_take_def
  FlusherLoop_process_def stop_submitter_def set_flusher_def Let_def

definition fresh_submitter :: "database \<times> 'r \<Rightarrow> 'r submitter" where
  "fresh_submitter w = (case new_submitter True w of Inr s \<Rightarrow> s)"

lemma SubmitDagAsync_queue:
  "SubmitDagAsync gen q st = (x, st') \<Longrightarrow>
   (case x of Inl e \<Rightarrow> ss_pending_queue st' = ss_pending_queue st
    | Inr y \<Rightarrow> (\<exists>item. ss_pending_queue st' = ss_pending_queue st @ [item]) \<and>
        length (ss_pending_queue st') \<le> MAX_QUEUE_SIZE)"
  by (auto simp: SubmitDagAsync_def Let_def split: prod.splits if_splits)

lemma submit_request_cases:
  "(\<exists>item. sb_accepted (snd (submit_request gen q s)) = sb_accepted s @ [item] \<and>
      ss_pending_queue (sb_submit (snd (submit_request gen q s))) = ss_pending_queue (sb_submit s) @ [item] \<and>
      length (ss_pending_queue (sb_submit s)) < MAX_QUEUE_SIZE) \<or>
   (sb_accepted (snd (submit_request gen q s)) = sb_accepted s \<and>
      ss_pending_queue (sb_submit (snd (submit_request gen q s))) = ss_pending_queue (sb_submit s))"
  using SubmitDagAsync_queue [of gen q "sb_submit s"]
  by (cases "SubmitDagAsync gen q (sb_submit s)") (auto simp: submit_request_def split: sum.splits)

lemma submit_request_same:
  "sb_swapped (snd (submit_request gen q s)) = sb_swapped s"
  "sb_threads (snd (submit_request gen q s)) = sb_threads s"
  "sb_running (snd (submit_request gen q s)) = sb_running s"
  by (auto simp: submit_request_def split: prod.splits sum.splits)

lemma submitter_step_handoff:
  "submitter_step T P R gen s s' \<Longrightarrow>
   \<exists>xs. sb_accepted s' = sb_accepted s @ xs \<and> (\<exists>ys. sb_swapped s' = sb_swapped s @ ys) \<and>
     (sb_accepted s = sb_swapped s @ ss_pending_queue (sb_submit s) \<longrightarrow>
      sb_accepted s' = sb_swapped s' @ ss_pending_queue (sb_submit s'))"
proof (induction rule: submitter_step.induct)
  case (submit s q)
  then show ?case using submit_request_cases [of gen q s] by (auto simp: submit_request_same)
qed (auto simp: submitter_defs)

interpretation submitter: handoff "submitter_step T P R gen" "fresh_submitter w" sb_accepted sb_swapped
    "\<lambda>s. ss_pending_queue (sb_submit s)"
  by unfold_locales (simp add: fresh_submitter_def new_submitter_def, rule submitter_step_handoff)

lemma queue_bounded:
  "(submitter_step T P R gen)\<^sup>*\<^sup>* (fresh_submitter w) s \<Longrightarrow> length (ss_pending_queue (sb_submit s)) \<le> MAX_QUEUE_SIZE"
proof (induction rule: rtranclp_induct)
  case (step y z)
  from step.hyps(2) step.IH show ?case
  proof (induction rule: submitter_step.induct)
    case (submit s q)
    then show ?case using submit_request_cases [of gen q s] by auto
  qed (auto simp: submitter_defs)
qed (simp add: fresh_submitter_def new_submitter_def)

text \<open>A flusher in its wait leaves it only by taking all that waits.\<close>

definition waiter_or_taken :: "BatchItem list \<Rightarrow> 'r submitter \<Rightarrow> bool" where
  "waiter_or_taken xs s \<longleftrightarrow> InWait \<in> set (sb_threads s) \<or> (\<exists>ys. sb_swapped s = xs @ ys)"

lemma waiter_or_taken_step:
  assumes "submitter_step T P R gen s s'" and eq: "sb_accepted s = sb_swapped s @ ss_pending_queue (sb_submit s)"
    and pre: "\<exists>zs. sb_accepted s = xs @ zs" and w: "waiter_or_taken xs s"
  shows "waiter_or_taken xs s'"
proof -
  have keep: "InWait \<in> set ((sb_threads s)[i := f])"
    if "InWait \<in> set (sb_threads s)" "flusher_at i g s" "g \<noteq> InWait" for i f g
  proof -
    from that(1) obtain j where j: "j < length (sb_threads s)" "sb_threads s ! j = InWait" by (auto simp: in_set_conv_nth)
    then have "i \<noteq> j" using that by (auto simp: flusher_at_def)
    with j have "(sb_threads s)[i := f] ! j = InWait" "j < length ((sb_threads s)[i := f])" by simp_all
    then show ?thesis by (metis nth_mem)
  qed
  from assms(1) show ?thesis
  proof cases
    case (submit q)
    with w show ?thesis by (simp add: waiter_or_taken_def submit_request_same)
  next
    case (test i)
    with w keep [OF _ test(2)] show ?thesis by (auto simp: waiter_or_taken_def submitter_defs)
  next
    case (take_queue i)
    with eq pre show ?thesis by (auto simp: waiter_or_taken_def submitter_defs)
  next
    case (process i batch E)
    with w keep [OF _ process(2)] show ?thesis by (auto simp: waiter_or_taken_def submitter_defs)
  next
    case stop
    with w show ?thesis by (simp add: waiter_or_taken_def submitter_defs)
  qed
qed

lemma waiter_or_taken_run:
  assumes "(submitter_step T P R gen)\<^sup>*\<^sup>* (fresh_submitter w) s" and "InWait \<in> set (sb_threads s)"
    and "(submitter_step T P R gen)\<^sup>*\<^sup>* s s'"
  shows "waiter_or_taken (sb_accepted s) s'"
  using assms(3)
proof (induction rule: rtranclp_induct)
  case base
  show ?case using assms(2) by (simp add: waiter_or_taken_def)
next
  case (step y z)
  have "(submitter_step T P R gen)\<^sup>*\<^sup>* (fresh_submitter w) y" using assms(1) step.hyps(1) by simp
  from submitter.fifo [OF this] have eq: "sb_accepted y = sb_swapped y @ ss_pending_queue (sb_submit y)" .
  show ?case
    by (rule waiter_or_taken_step [OF step.hyps(2) eq _ step.IH])
      (use submitter.monotone [OF step.hyps(1)] in blast)
qed

text \<open>Flushers that are about to test the loop condition stop one after the other.\<close>

lemma flushers_stop:
  "\<forall>f \<in> set (sb_threads s). f = AtLoop \<Longrightarrow> sb_running s = False \<Longrightarrow> n \<le> length (sb_threads s) \<Longrightarrow>
   (submitter_step T P R gen)\<^sup>*\<^sup>* s (s\<lparr>sb_threads := replicate n Stopped @ drop n (sb_threads s)\<rparr>)"
proof (induction n)
  case (Suc n)
  let ?s = "s\<lparr>sb_threads := replicate n Stopped @ drop n (sb_threads s)\<rparr>"
  have n: "n < length (sb_threads s)" "sb_threads s ! n = AtLoop" using Suc.prems by auto
  then have "flusher_at n AtLoop ?s" by (simp add: flusher_at_def nth_append)
  then have "submitter_step T P R gen ?s (FlusherLoop_test n ?s)" by (rule submitter_step.test)
  moreover have "FlusherLoop_test n ?s = s\<lparr>sb_threads := replicate (Suc n) Stopped @ drop (Suc n) (sb_threads s)\<rparr>"
    using Suc.prems(2) n(1) by (simp add: submitter_defs list_update_append replicate_append_same
        Cons_nth_drop_Suc [symmetric])
  ultimately show ?case using Suc by (simp add: rtranclp.rtrancl_into_rtrancl)
qed simp

section \<open>Properties\<close>

text \<open>
  Requests reach the flushers once and in order. In every reachable state the items accepted
  are, in order, those the flushers have swapped out followed by the pending queue, and the queue
  never exceeds \<open>MAX_QUEUE_SIZE\<close>, whatever the number of concurrent submissions.
\<close>

theorem accepted_items_flushed_in_order:
  assumes "(submitter_step T P R gen)\<^sup>*\<^sup>* (fresh_submitter w) s"
  shows "sb_accepted s = sb_swapped s @ ss_pending_queue (sb_submit s) \<and>
    length (ss_pending_queue (sb_submit s)) \<le> MAX_QUEUE_SIZE"
  using submitter.fifo [OF assms] queue_bounded [OF assms] by simp

text \<open>
  A shutdown drains the queue when a flusher waits. If some flusher is in its wait when the
  destructor clears \<open>running_\<close>, then by the time all flushers have returned every item accepted so
  far has been taken by one of them.
\<close>

theorem shutdown_drains_when_a_flusher_waits:
  assumes "(submitter_step T P R gen)\<^sup>*\<^sup>* (fresh_submitter w) s" and "InWait \<in> set (sb_threads s)"
    and "(submitter_step T P R gen)\<^sup>*\<^sup>* (stop_submitter s) s'" and "\<forall>f \<in> set (sb_threads s'). f = Stopped"
  shows "\<exists>ys. sb_swapped s' = sb_accepted s @ ys"
proof -
  have "(submitter_step T P R gen)\<^sup>*\<^sup>* s s'"
    using submitter_step.stop [of T P R gen s] assms(3) by (rule converse_rtranclp_into_rtranclp)
  from waiter_or_taken_run [OF assms(1,2) this] assms(4) show ?thesis by (auto simp: waiter_or_taken_def)
qed

text \<open>
  C31. Without one it does not. The loop condition of \<open>FlusherLoop\<close> looks at \<open>running_\<close> only, so if
  the destructor runs while every flusher is processing a batch or about to test it, the
  destructor returns with the items accepted meanwhile still in the queue: their clients were
  given a job id, and no row of them is ever written.
\<close>

theorem shutdown_loses_queued_items:
  assumes "(submitter_step T P R gen)\<^sup>*\<^sup>* (fresh_submitter w) s" and "\<forall>f \<in> set (sb_threads s). f = AtLoop"
    and "ss_pending_queue (sb_submit s) \<noteq> []"
  shows "\<exists>s'. (submitter_step T P R gen)\<^sup>*\<^sup>* (stop_submitter s) s' \<and> (\<forall>f \<in> set (sb_threads s'). f = Stopped) \<and>
    ss_pending_queue (sb_submit s') = ss_pending_queue (sb_submit s) \<and> sb_world s' = sb_world s"
proof -
  from flushers_stop [of "stop_submitter s" "length (sb_threads s)" T P R gen] assms(2)
  have "(submitter_step T P R gen)\<^sup>*\<^sup>* (stop_submitter s)
      ((stop_submitter s)\<lparr>sb_threads := replicate (length (sb_threads s)) Stopped\<rparr>)"
    by (simp add: stop_submitter_def)
  then show ?thesis by (intro exI conjI, assumption) (simp_all add: stop_submitter_def)
qed

section \<open>Witnesses\<close>

abbreviation demo_step :: "mem_store submitter \<Rightarrow> mem_store submitter \<Rightarrow> bool" where
  "demo_step \<equiv> submitter_step sample_types sample_codec ref_ops sample_gen"

definition demo_fresh :: "mem_store submitter" where
  "demo_fresh = fresh_submitter (empty_db, ms_empty)"

definition demo_loaded :: "mem_store submitter" where
  "demo_loaded = snd (submit_request sample_gen (sample_req ''k'') demo_fresh)"

definition demo_waiting :: "mem_store submitter" where
  "demo_waiting = FlusherLoop_test 0 demo_loaded"

lemmas demo_submit_defs = demo_waiting_def demo_loaded_def demo_fresh_def fresh_submitter_def new_submitter_def
  submitter_defs SubmitDagAsync_def MAX_QUEUE_SIZE_def CONSUMER_THREAD_NUM_def

lemma demo_loaded_reachable: "demo_step\<^sup>*\<^sup>* demo_fresh demo_loaded"
  unfolding demo_loaded_def by (rule r_into_rtranclp, rule submitter_step.submit)

lemma demo_waiting_reachable: "demo_step\<^sup>*\<^sup>* demo_fresh demo_waiting"
proof -
  have "demo_step demo_loaded demo_waiting"
    unfolding demo_waiting_def
    by (rule submitter_step.test) (simp add: demo_submit_defs flusher_at_def split: prod.split)
  with demo_loaded_reachable show ?thesis by (rule rtranclp.rtrancl_into_rtrancl)
qed

lemma demo_loaded_state:
  "sb_threads demo_loaded = replicate 8 AtLoop" "length (ss_pending_queue (sb_submit demo_loaded)) = 1"
  by (simp_all add: demo_submit_defs split: prod.split)

theorem accepted_items_flushed_in_order_witness:
  "sb_accepted demo_loaded = ss_pending_queue (sb_submit demo_loaded)"
  using accepted_items_flushed_in_order [OF demo_loaded_reachable [unfolded demo_fresh_def]]
  by (simp add: demo_submit_defs split: prod.splits)

theorem shutdown_loses_queued_items_witness:
  "\<exists>s'. demo_step\<^sup>*\<^sup>* (stop_submitter demo_loaded) s' \<and> (\<forall>f \<in> set (sb_threads s'). f = Stopped) \<and>
     length (ss_pending_queue (sb_submit s')) = 1"
proof -
  have "\<forall>f \<in> set (sb_threads demo_loaded). f = AtLoop" and "ss_pending_queue (sb_submit demo_loaded) \<noteq> []"
    using demo_loaded_state by auto
  from shutdown_loses_queued_items [OF demo_loaded_reachable [unfolded demo_fresh_def] this] show ?thesis
    using demo_loaded_state(2) by metis
qed

lemma eight_flushers: "replicate 8 f = [f, f, f, f, f, f, f, f]"
  by (simp add: numeral_eq_Suc)

definition demo_taken :: "mem_store submitter" where
  "demo_taken = FlusherLoop_take 0 (stop_submitter demo_waiting)"

definition demo_processed :: "mem_store submitter" where
  "demo_processed = FlusherLoop_process sample_types sample_codec ref_ops \<lparr>be_tx = tx_ok 5, be_lost = None\<rparr> 0
     (sb_swapped demo_taken) demo_taken"

lemma demo_processed_state:
  "sb_threads demo_processed = replicate 8 AtLoop" "sb_running demo_processed = False"
  "demo_step\<^sup>*\<^sup>* (stop_submitter demo_waiting) demo_processed"
proof -
  have "demo_step (stop_submitter demo_waiting) demo_taken"
    unfolding demo_taken_def
    by (rule submitter_step.take_queue) (simp add: demo_submit_defs flusher_at_def split: prod.split)
  moreover have "demo_step demo_taken demo_processed"
    unfolding demo_processed_def
    by (rule submitter_step.process) (simp add: demo_taken_def demo_submit_defs flusher_at_def split: prod.split)
  ultimately show "demo_step\<^sup>*\<^sup>* (stop_submitter demo_waiting) demo_processed" by simp
qed (simp_all add: demo_processed_def demo_taken_def demo_submit_defs eight_flushers split: prod.split)

theorem shutdown_drains_when_a_flusher_waits_witness:
  "\<exists>s' ys. demo_step\<^sup>*\<^sup>* (stop_submitter demo_waiting) s' \<and> (\<forall>f \<in> set (sb_threads s'). f = Stopped) \<and>
     sb_swapped s' = sb_accepted demo_waiting @ ys"
proof -
  have "\<forall>f \<in> set (sb_threads demo_processed). f = AtLoop" using demo_processed_state(1) by simp
  from flushers_stop [OF this demo_processed_state(2), of 8 sample_types sample_codec ref_ops sample_gen]
  have "demo_step\<^sup>*\<^sup>* demo_processed (demo_processed\<lparr>sb_threads := replicate 8 Stopped\<rparr>)"
    using demo_processed_state(1) by simp
  then have "demo_step\<^sup>*\<^sup>* (stop_submitter demo_waiting) (demo_processed\<lparr>sb_threads := replicate 8 Stopped\<rparr>)"
    using demo_processed_state(3) by (rule rtranclp_trans [rotated])
  then obtain s' where s': "demo_step\<^sup>*\<^sup>* (stop_submitter demo_waiting) s'" "sb_threads s' = replicate 8 Stopped"
    by (rule that) simp
  have w: "InWait \<in> set (sb_threads demo_waiting)" by (simp add: demo_submit_defs eight_flushers split: prod.split)
  from shutdown_drains_when_a_flusher_waits [OF demo_waiting_reachable [unfolded demo_fresh_def] w s'(1)] s'
  show ?thesis by auto
qed

end
