(* ===== verification/Api_Server.thy ===== *)
theory Api_Server
  imports Submit_Threads Rpc_Types
begin

text \<open>
  The asynchronous server of \<open>src/api-server/include/api_server.hpp\<close> and
  \<open>src/api-server/src/api_server.cpp\<close>, with the handler \<open>src/api-server/src/main.cpp\<close> installs
  for \<open>SubmitDag\<close>. A call context owns exactly one operation of a completion queue at a time: it
  waits for a call (\<open>CREATE\<close>) or for its response to be sent (\<open>FINISH\<close>), and the queue hands it
  back once per operation.
\<close>

section \<open>Call contexts\<close>

datatype CallStatus = CREATE | FINISH

record ('q, 'a) call_context =
  cc_status :: CallStatus
  cc_request :: 'q
  cc_response :: 'a

definition AsyncCallContext :: "'q \<Rightarrow> 'a \<Rightarrow> ('q, 'a) call_context" where
  "AsyncCallContext q a = \<lparr>cc_status = CREATE, cc_request = q, cc_response = a\<rparr>"

text \<open>
  \<open>Proceed\<close>: the contexts that exist afterwards (itself unless it deleted itself, and the one it
  registered for the next call), the responses it sent, and the state of the handler.
\<close>

definition Proceed ::
  "('q \<Rightarrow> 'a \<Rightarrow> 's \<Rightarrow> 'a \<times> 's) \<Rightarrow> 'q \<Rightarrow> 'a \<Rightarrow> bool \<Rightarrow> ('q, 'a) call_context \<Rightarrow> 's \<Rightarrow>
   (('q, 'a) call_context list \<times> ('q \<times> 'a) list) \<times> 's" where
  "Proceed pf q0 a0 ok c s =
     (if \<not> ok then (([], []), s)
      else (case cc_status c of
              CREATE \<Rightarrow>
                (let (resp, s') = pf (cc_request c) (cc_response c) s
                 in (([c\<lparr>cc_status := FINISH, cc_response := resp\<rparr>, AsyncCallContext q0 a0],
                      [(cc_request c, resp)]), s'))
            | FINISH \<Rightarrow> (([], []), s)))"

section \<open>The server\<close>

text \<open>\<open>as_calls\<close> and \<open>as_sent\<close> record the calls that arrived and the responses handed to gRPC.\<close>

record ('q, 'a, 's) server =
  as_contexts :: "('q, 'a) call_context list"
  as_shutdown :: bool
  as_state :: 's
  as_calls :: "'q list"
  as_sent :: "('q \<times> 'a) list"

text \<open>\<open>Run\<close> creates \<open>concurrency_factor\<close> contexts; without a submit handler it does not start.\<close>

definition Run_server ::
  "'q \<Rightarrow> 'a \<Rightarrow> bool \<Rightarrow> nat \<Rightarrow> 's \<Rightarrow> ('q, 'a, 's) server option" where
  "Run_server q0 a0 has_submit concurrency_factor s =
     (if \<not> has_submit then None
      else Some \<lparr>as_contexts = replicate concurrency_factor (AsyncCallContext q0 a0),
             as_shutdown = False, as_state = s, as_calls = [], as_sent = []\<rparr>)"

text \<open>The queue hands the context between \<open>pre\<close> and \<open>post\<close> back.\<close>

definition drive ::
  "('q \<Rightarrow> 'a \<Rightarrow> 's \<Rightarrow> 'a \<times> 's) \<Rightarrow> 'q \<Rightarrow> 'a \<Rightarrow> bool \<Rightarrow> ('q, 'a) call_context list \<Rightarrow> ('q, 'a) call_context \<Rightarrow>
   ('q, 'a) call_context list \<Rightarrow> ('q, 'a, 's) server \<Rightarrow> ('q, 'a, 's) server" where
  "drive pf q0 a0 ok pre c post S =
     (let ((cs, sent), s') = Proceed pf q0 a0 ok c (as_state S)
      in S\<lparr>as_contexts := pre @ cs @ post, as_state := s', as_sent := as_sent S @ sent\<rparr>)"

text \<open>
  A call arrives at a context, a response has been sent (or the client is gone), and after
  \<open>Shutdown\<close> the contexts that still wait come back with \<open>ok\<close> false.
\<close>

inductive server_step ::
  "('q \<Rightarrow> 'a \<Rightarrow> 's \<Rightarrow> 'a \<times> 's) \<Rightarrow> 'q \<Rightarrow> 'a \<Rightarrow> ('q, 'a, 's) server \<Rightarrow> ('q, 'a, 's) server \<Rightarrow> bool"
  for pf q0 a0 where
  call: "as_contexts S = pre @ c # post \<Longrightarrow> cc_status c = CREATE \<Longrightarrow> \<not> as_shutdown S \<Longrightarrow>
    server_step pf q0 a0 S
      ((drive pf q0 a0 True pre (c\<lparr>cc_request := q\<rparr>) post S)\<lparr>as_calls := as_calls S @ [q]\<rparr>)"
| sent: "as_contexts S = pre @ c # post \<Longrightarrow> cc_status c = FINISH \<Longrightarrow>
    server_step pf q0 a0 S (drive pf q0 a0 ok pre c post S)"
| shutdown: "server_step pf q0 a0 S (S\<lparr>as_shutdown := True\<rparr>)"
| cancelled: "as_contexts S = pre @ c # post \<Longrightarrow> cc_status c = CREATE \<Longrightarrow> as_shutdown S \<Longrightarrow>
    server_step pf q0 a0 S (drive pf q0 a0 False pre c post S)"

definition listening :: "('q, 'a, 's) server \<Rightarrow> nat" where
  "listening S = length (filter (\<lambda>c. cc_status c = CREATE) (as_contexts S))"

section \<open>Executing a handler\<close>

datatype handler_throw = ThrowStd string | ThrowOther

text \<open>\<open>FillSysError\<close> on the header of a response; \<open>now\<close> is what \<open>std::time\<close> returns.\<close>

definition FillSysError :: "int \<Rightarrow> SysErr \<Rightarrow> string \<Rightarrow> RpcRespHeader option \<Rightarrow> RpcRespHeader option" where
  "FillSysError now code msg h =
     (let header = (header_of h)\<lparr>rh_error := Some \<lparr>re_code = CodeSys code, re_msg = msg\<rparr>\<rparr>
      in Some (if rh_request_id header = []
               then header\<lparr>rh_request_id := ''gen-'' @ int_str now\<rparr> else header))"

text \<open>
  \<open>SafeExecute\<close>: the handler changes the response in place, so what it wrote before it threw
  stays. \<open>upd\<close> updates the header of the kind of response at hand.
\<close>

definition SafeExecute ::
  "((RpcRespHeader option \<Rightarrow> RpcRespHeader option) \<Rightarrow> 'a \<Rightarrow> 'a) \<Rightarrow> int \<Rightarrow>
   ('q \<Rightarrow> 'a \<times> 's \<Rightarrow> (handler_throw + unit) \<times> 'a \<times> 's) option \<Rightarrow> 'q \<Rightarrow> 'a \<Rightarrow> 's \<Rightarrow> 'a \<times> 's" where
  "SafeExecute upd now handler request response s =
     (case handler of
        None \<Rightarrow> (upd (FillSysError now SYS_INTERNAL ''API handler not registered on server'') response, s)
      | Some h \<Rightarrow>
          (case h request (response, s) of
             (Inr _, r) \<Rightarrow> r
           | (Inl (ThrowStd what), (resp, s')) \<Rightarrow> (upd (FillSysError now SYS_INTERNAL what) resp, s')
           | (Inl ThrowOther, (resp, s')) \<Rightarrow>
               (upd (FillSysError now SYS_INTERNAL ''Unknown server error'') resp, s')))"

definition upd_sr_header ::
  "(RpcRespHeader option \<Rightarrow> RpcRespHeader option) \<Rightarrow> SubmitDagResponse \<Rightarrow> SubmitDagResponse" where
  "upd_sr_header f r = r\<lparr>sr_header := f (sr_header r)\<rparr>"

text \<open>The handler \<open>main\<close> installs for \<open>SubmitDag\<close>: it catches what the submitter throws itself.\<close>

definition submit_handler ::
  "(nat \<Rightarrow> string) \<Rightarrow> PbSubmitDagRequest \<Rightarrow> SubmitDagResponse \<times> 'r submitter \<Rightarrow>
   (handler_throw + unit) \<times> SubmitDagResponse \<times> 'r submitter" where
  "submit_handler gen req_pb = (\<lambda>(resp_pb, s).
     case submit_request gen req_pb s of
       (Inr (job_id, notify), s') \<Rightarrow> (Inr (), resp_pb\<lparr>sr_job_id := job_id\<rparr>, s')
     | (Inl what, s') \<Rightarrow>
         (Inr (), resp_pb\<lparr>sr_header := Some ((header_of (sr_header resp_pb))\<lparr>rh_error :=
            Some \<lparr>re_code = CodeSys SYS_INTERNAL, re_msg = what\<rparr>\<rparr>)\<rparr>, s'))"

definition OnSubmitDag ::
  "int \<Rightarrow> (nat \<Rightarrow> string) \<Rightarrow> PbSubmitDagRequest \<Rightarrow> SubmitDagResponse \<Rightarrow> 'r submitter \<Rightarrow>
   SubmitDagResponse \<times> 'r submitter" where
  "OnSubmitDag now gen = SafeExecute upd_sr_header now (Some (submit_handler gen))"

section \<open>Lemmas\<close>

lemma drive_call:
  "cc_status c = CREATE \<Longrightarrow>
   \<exists>resp s'. pf (cc_request c) (cc_response c) (as_state S) = (resp, s') \<and>
     drive pf q0 a0 True pre c post S =
       S\<lparr>as_contexts := pre @ [c\<lparr>cc_status := FINISH, cc_response := resp\<rparr>, AsyncCallContext q0 a0] @ post,
         as_state := s', as_sent := as_sent S @ [(cc_request c, resp)]\<rparr>"
  by (cases "pf (cc_request c) (cc_response c) (as_state S)") (simp add: drive_def Proceed_def)

lemma drive_delete:
  "\<not> ok \<or> cc_status c = FINISH \<Longrightarrow> drive pf q0 a0 ok pre c post S = S\<lparr>as_contexts := pre @ post\<rparr>"
  by (auto simp: drive_def Proceed_def)

definition server_ok :: "nat \<Rightarrow> ('q, 'a, 's) server \<Rightarrow> bool" where
  "server_ok n S \<longleftrightarrow> map fst (as_sent S) = as_calls S \<and> (\<not> as_shutdown S \<longrightarrow> listening S = n)"

lemma server_ok_step: "server_step pf q0 a0 S S' \<Longrightarrow> server_ok n S \<Longrightarrow> server_ok n S'"
proof (induction rule: server_step.induct)
  case (call S pre c post q)
  obtain resp s' where d: "drive pf q0 a0 True pre (c\<lparr>cc_request := q\<rparr>) post S =
       S\<lparr>as_contexts := pre @ [c\<lparr>cc_request := q, cc_status := FINISH, cc_response := resp\<rparr>, AsyncCallContext q0 a0] @ post,
         as_state := s', as_sent := as_sent S @ [(q, resp)]\<rparr>"
    using drive_call [of "c\<lparr>cc_request := q\<rparr>" pf S q0 a0 pre post] call(2) by auto
  show ?case using call unfolding d by (simp add: server_ok_def listening_def AsyncCallContext_def)
next
  case (sent S pre c post ok)
  then show ?case by (simp add: drive_delete server_ok_def listening_def)
next
  case (cancelled S pre c post)
  then show ?case by (simp add: drive_delete server_ok_def)
qed (simp add: server_ok_def)

lemma server_ok_Run: "Run_server q0 a0 h n s = Some S \<Longrightarrow> server_ok n S"
  by (auto simp: Run_server_def server_ok_def listening_def AsyncCallContext_def split: if_splits)

lemma server_reachable_ok:
  "(server_step pf q0 a0)\<^sup>*\<^sup>* S0 S \<Longrightarrow> server_ok n S0 \<Longrightarrow> server_ok n S"
  by (induction rule: rtranclp_induct) (auto intro: server_ok_step)

section \<open>Properties\<close>

text \<open>
  C25. Every call is answered, and the server keeps listening. Whatever the order in which calls
  arrive, responses are sent and clients vanish, each call that arrived has been given exactly one
  response, in the order of arrival, and until the shutdown as many contexts wait for a call as
  were created at the start.
\<close>

theorem server_answers_and_listens:
  assumes "Run_server q0 a0 True n s = Some S0" and "(server_step pf q0 a0)\<^sup>*\<^sup>* S0 S"
  shows "map fst (as_sent S) = as_calls S \<and> (\<not> as_shutdown S \<longrightarrow> listening S = n)"
  using server_reachable_ok [OF assms(2) server_ok_Run [OF assms(1)]] by (simp add: server_ok_def)

text \<open>
  What the client of \<open>SubmitDag\<close> is told. The response carries a job id and no error exactly
  when the item was put at the end of the pending queue, which is when the queue had room;
  otherwise it carries the code SYS_INTERNAL (not SYS_RATE_LIMITED) with the text of the
  exception, no job id, and the queue is as before.
\<close>

theorem submit_rpc_outcome:
  assumes "OnSubmitDag now gen q new_SubmitDagResponse s = (resp, s')"
  shows "if length (ss_pending_queue (sb_submit s)) < MAX_QUEUE_SIZE
    then sr_header resp = None \<and> sr_job_id resp = gen (ss_next_id (sb_submit s)) \<and>
      (\<exists>item. ss_pending_queue (sb_submit s') = ss_pending_queue (sb_submit s) @ [item] \<and>
         sb_accepted s' = sb_accepted s @ [item] \<and> bi_req item = q \<and> cx_job_id (bi_ctx item) = sr_job_id resp)
    else sr_job_id resp = [] \<and> ss_pending_queue (sb_submit s') = ss_pending_queue (sb_submit s) \<and>
      sb_accepted s' = sb_accepted s \<and>
      sr_header resp = Some \<lparr>rh_error = Some \<lparr>re_code = CodeSys SYS_INTERNAL,
        re_msg = ''Server is busy, queue full''\<rparr>, rh_request_id = []\<rparr>"
  using assms
  by (auto simp: OnSubmitDag_def SafeExecute_def submit_handler_def submit_request_def SubmitDagAsync_def
      Let_def new_SubmitDagResponse_def header_of_def new_header_def queue_full_def new_BatchItem_def
      split: prod.splits if_splits)

text \<open>A server of two contexts whose handler answers with the request.\<close>

definition demo_server :: "(nat, nat, unit) server" where
  "demo_server = \<lparr>as_contexts = replicate 2 (AsyncCallContext 0 0), as_shutdown = False, as_state = (),
     as_calls = [], as_sent = []\<rparr>"

definition demo_called :: "(nat, nat, unit) server" where
  "demo_called = (drive (\<lambda>q a s. (q, s)) 0 0 True [] ((AsyncCallContext 0 0)\<lparr>cc_request := 5\<rparr>)
     [AsyncCallContext 0 0] demo_server)\<lparr>as_calls := [5]\<rparr>"

theorem server_answers_and_listens_witness:
  "map fst (as_sent demo_called) = [5] \<and> listening demo_called = 2"
proof -
  have "server_step (\<lambda>q a s. (q, s)) 0 0 demo_server demo_called"
    using server_step.call [of demo_server "[]" "AsyncCallContext 0 0" "[AsyncCallContext 0 0]" "\<lambda>q a s. (q, s)" 0 0 5]
    by (simp add: demo_called_def demo_server_def numeral_eq_Suc AsyncCallContext_def)
  then have r: "(server_step (\<lambda>q a s. (q, s)) 0 0)\<^sup>*\<^sup>* demo_server demo_called" by simp
  have "Run_server 0 0 True 2 () = Some demo_server" by (simp add: Run_server_def demo_server_def)
  from server_answers_and_listens [OF this r] show ?thesis
    by (simp add: demo_called_def demo_server_def drive_def Proceed_def AsyncCallContext_def)
qed

theorem submit_rpc_outcome_witness:
  "sr_job_id (fst (OnSubmitDag 7 sample_gen (sample_req ''k'') new_SubmitDagResponse demo_fresh)) = sample_gen 0"
proof -
  obtain resp s' where r: "OnSubmitDag 7 sample_gen (sample_req ''k'') new_SubmitDagResponse demo_fresh = (resp, s')"
    by (meson surj_pair)
  from submit_rpc_outcome [OF r] show ?thesis unfolding r
    by (simp add: demo_fresh_def fresh_submitter_def new_submitter_def MAX_QUEUE_SIZE_def)
qed

end
