(* ===== verification/Status_Rpc.thy ===== *)
theory Status_Rpc
  imports Job_Query Api_Server
begin

text \<open>
  \<open>GetJobStatus\<close> as the client sees it: \<open>OnGetJobStatus\<close> of \<open>src/api-server/src/api_server.cpp\<close> with the
  handler \<open>src/api-server/src/main.cpp\<close> installs, composed with the query handler; and, with the
  submission, what a client that polls for its job is told before and after its batch is stored.
\<close>

section \<open>The call\<close>

text \<open>The header of a response: \<open>SetJobError\<close> writes the code and the message into it.\<close>

definition status_header :: "GetJobStatusResponse \<Rightarrow> RpcRespHeader option" where
  "status_header resp =
     map_option (\<lambda>(code, msg). \<lparr>rh_error = Some \<lparr>re_code = CodeJob code, re_msg = msg\<rparr>, rh_request_id = []\<rparr>)
       (gr_error resp)"

fun query_what :: "query_err \<Rightarrow> string" where
  "query_what (QueryDb (BrokenConnection m)) = m"
| "query_what (QueryDb (StdExn m)) = m"
| "query_what (QueryRedis (RedisError m)) = m"
| "query_what (QueryRedis (StdException m)) = m"

text \<open>What the response holds when the handler throws: the id, and when it was reading the details
  also the number of tasks and the details read so far.\<close>

definition partial_response ::
  "pg_types \<Rightarrow> RedisManager \<Rightarrow> 'r redis_ops \<Rightarrow> redis_err option \<Rightarrow> tx_env \<Rightarrow> GetJobStatusRequest \<Rightarrow> query_err \<Rightarrow>
   database \<times> 'r \<Rightarrow> GetJobStatusResponse"
where
  "partial_response T M R lost E1 req e = (\<lambda>(db, r).
     case e of
       QueryDb _ \<Rightarrow> new_response (gq_job_id req)
     | QueryRedis _ \<Rightarrow>
         (let ((hit, ids0), r1) = GetTaskIdsFromRedis M R (gq_job_id req) r;
              (_, _, ids1) = (if \<not> hit \<or> ids0 = [] then GetTaskIdsFromDB T E1 (gq_job_id req) db else (Inr (), db, []));
              ids = ids0 @ ids1; resp = (new_response (gq_job_id req))\<lparr>gr_total_tasks := length ids\<rparr>
          in case fst (ExecPipeline M (hgetall_pipe R lost) (Inr (map TaskRuntime ids)) r1) of
               None \<Rightarrow> resp
             | Some replies \<Rightarrow> snd (read_replies (gq_include_tasks req) (zip ids replies) resp [])))"

text \<open>The handler of \<open>main\<close>; the response is its header and its body.\<close>

type_synonym status_response = "RpcRespHeader option \<times> GetJobStatusResponse"

definition query_handler ::
  "pg_types \<Rightarrow> string list \<Rightarrow> (task_row \<Rightarrow> string option) \<Rightarrow> RedisManager \<Rightarrow> 'r redis_ops \<Rightarrow> redis_err option \<Rightarrow>
   tx_env \<Rightarrow> tx_env \<Rightarrow> GetJobStatusRequest \<Rightarrow> status_response \<times> database \<times> 'r \<Rightarrow>
   (handler_throw + unit) \<times> status_response \<times> database \<times> 'r" where
  "query_handler T cols payload M R lost E1 E2 req = (\<lambda>((h, body), s).
     case Handle T cols payload M R lost E1 E2 req s of
       (Inr resp, s') \<Rightarrow> (Inr (), (status_header resp, resp), s')
     | (Inl e, s') \<Rightarrow> (Inl (ThrowStd (query_what e)), (h, partial_response T M R lost E1 req e s), s'))"

definition upd_status_header ::
  "(RpcRespHeader option \<Rightarrow> RpcRespHeader option) \<Rightarrow> status_response \<Rightarrow> status_response" where
  "upd_status_header f = (\<lambda>(h, body). (f h, body))"

definition OnGetJobStatus ::
  "int \<Rightarrow> pg_types \<Rightarrow> string list \<Rightarrow> (task_row \<Rightarrow> string option) \<Rightarrow> RedisManager \<Rightarrow> 'r redis_ops \<Rightarrow> redis_err option \<Rightarrow>
   tx_env \<Rightarrow> tx_env \<Rightarrow> GetJobStatusRequest \<Rightarrow> database \<times> 'r \<Rightarrow> status_response \<times> database \<times> 'r" where
  "OnGetJobStatus now T cols payload M R lost E1 E2 req =
     SafeExecute upd_status_header now (Some (query_handler T cols payload M R lost E1 E2)) req
       (None, new_response [])"

section \<open>Lemmas\<close>

lemma OnGetJobStatus_returns:
  "Handle T cols payload M R lost E1 E2 req s = (Inr resp, s') \<Longrightarrow>
   OnGetJobStatus now T cols payload M R lost E1 E2 req s = ((status_header resp, resp), s')"
  by (simp add: OnGetJobStatus_def SafeExecute_def query_handler_def)

lemma OnGetJobStatus_throws:
  "Handle T cols payload M R lost E1 E2 req (db, r) = (Inl e, s') \<Longrightarrow>
   OnGetJobStatus now T cols payload M R lost E1 E2 req (db, r) =
     ((Some \<lparr>rh_error = Some \<lparr>re_code = CodeSys SYS_INTERNAL, re_msg = query_what e\<rparr>, rh_request_id = ''gen-'' @ int_str now\<rparr>,
       partial_response T M R lost E1 req e (db, r)), s')"
  by (simp add: OnGetJobStatus_def SafeExecute_def query_handler_def upd_status_header_def FillSysError_def
      header_of_def new_header_def)

text \<open>The rows of one job of a stored batch.\<close>

lemma rows_of_job:
  assumes "distinct (map (\<lambda>i. cx_job_id (bi_ctx i)) batch)" "item \<in> set batch"
  shows "filter (\<lambda>row. tr_job_id row = cx_job_id (bi_ctx item)) (concat (map (item_rows now) batch)) = item_rows now item"
proof -
  have one: "filter (\<lambda>row. tr_job_id row = j) (item_rows now i) = (if j = cx_job_id (bi_ctx i) then item_rows now i else [])"
    for i j
    by (auto simp: item_rows_def task_row_of_def filter_empty_conv intro!: filter_True)
  have none: "j \<notin> (\<lambda>i. cx_job_id (bi_ctx i)) ` set b \<Longrightarrow> filter (\<lambda>row. tr_job_id row = j) (concat (map (item_rows now) b)) = []"
    for b j
    by (induction b) (auto simp: one)
  from assms show ?thesis
  proof (induction batch)
    case (Cons a batch)
    show ?case
    proof (cases "item = a")
      case True
      with Cons.prems(1) show ?thesis by (simp add: one none)
    next
      case False
      with Cons.prems have "item \<in> set batch" "cx_job_id (bi_ctx item) \<noteq> cx_job_id (bi_ctx a)"
        by (auto dest: image_eqI [of _ "\<lambda>i. cx_job_id (bi_ctx i)", OF sym])
      with Cons show ?thesis by (simp add: one)
    qed
  qed simp
qed

lemma stored_rows:
  assumes "batch_ok T db batch" "db_ok db" "item \<in> set batch"
  shows "filter (\<lambda>row. tr_job_id row = cx_job_id (bi_ctx item)) (db_tasks (store_batch now batch db)) = item_rows now item"
    and "filter (\<lambda>row. tr_job_id row = cx_job_id (bi_ctx item)) (db_tasks db) = []"
proof -
  have new: "cx_job_id (bi_ctx item) \<notin> j_job_id ` set (db_jobs db)" and d: "distinct (map (\<lambda>i. cx_job_id (bi_ctx i)) batch)"
    using assms(1,3) by (auto simp: batch_ok_def)
  then show none: "filter (\<lambda>row. tr_job_id row = cx_job_id (bi_ctx item)) (db_tasks db) = []"
    using assms(2) by (force simp: db_ok_def filter_empty_conv)
  then show "filter (\<lambda>row. tr_job_id row = cx_job_id (bi_ctx item)) (db_tasks (store_batch now batch db)) = item_rows now item"
    using rows_of_job [OF d assms(3)] by (simp add: store_batch_def)
qed

context redis_store
begin

text \<open>The answer for a job that Redis knows nothing about, with the schema as it is.\<close>

lemma status_of_rows:
  assumes "up r" "view r (JobTasks job_id) = None" "\<And>i. view r (TaskRuntime i) = None" "rm_client M"
    and "pg_uuid_ok T job_id" "rows = filter (\<lambda>row. tr_job_id row = job_id) (db_tasks db)"
  shows "\<exists>resp r'. OnGetJobStatus now T task_columns payload M R None (tx_ok n1) (tx_ok n2)
       \<lparr>gq_job_id = job_id, gq_include_tasks = b\<rparr> (db, r) = ((status_header resp, resp), db, r') \<and>
     (if rows = [] then gr_error resp = Some (JOB_NOT_FOUND, ''Job not found: '' @ job_id)
      else gr_error resp = None \<and> gr_state resp = JOB_RUNNING \<and> gr_total_tasks resp = length rows \<and>
        gr_finished_tasks resp = 0 \<and> gr_task_details resp = [])"
proof -
  let ?ids = "map tr_task_id rows"
  let ?resp0 = "(new_response job_id)\<lparr>gr_total_tasks := length ?ids\<rparr>"
  have "\<not> set detail_columns \<subseteq> set task_columns" by (simp add: detail_columns_def task_columns_def)
  then have tx: "snd (snd (run_tx (tx_ok n2) (details_tx T task_columns payload b ?ids) (db, ?resp0))) = ?resp0"
    by (simp add: details_tx_def)
  obtain r' where h: "Handle T task_columns payload M R None (tx_ok n1) (tx_ok n2) \<lparr>gq_job_id = job_id, gq_include_tasks = b\<rparr> (db, r) =
     (Inr (if ?ids = [] then SetJobError JOB_NOT_FOUND (''Job not found: '' @ job_id) (new_response job_id)
           else aggregate (length ?ids) ?resp0), db, r')"
    using Handle_from_db [OF assms(1-5) _ refl, of ?ids db task_columns payload n1 n2 b] assms(6)
    unfolding tx by auto
  from OnGetJobStatus_returns [OF h] show ?thesis
    by (intro exI [of _ "if ?ids = [] then SetJobError JOB_NOT_FOUND (''Job not found: '' @ job_id) (new_response job_id)
           else aggregate (length ?ids) ?resp0"] exI [of _ r'])
      (simp add: SetJobError_def aggregate_def new_response_def)
qed

text \<open>An id that is no uuid is an internal error of the server, not an unknown job.\<close>

lemma malformed_id_is_internal_error:
  assumes "up r" "view r (JobTasks job_id) = None" "rm_client M" "\<not> pg_uuid_ok T job_id"
  shows "\<exists>r' m. OnGetJobStatus now T cols payload M R lost (tx_ok n1) E2 \<lparr>gq_job_id = job_id, gq_include_tasks = b\<rparr> (db, r) =
     ((Some \<lparr>rh_error = Some \<lparr>re_code = CodeSys SYS_INTERNAL, re_msg = m\<rparr>, rh_request_id = ''gen-'' @ int_str now\<rparr>,
       new_response job_id), db, r')"
proof -
  let ?req = "\<lparr>gq_job_id = job_id, gq_include_tasks = b\<rparr>"
  obtain r1 where r1: "GetTaskIdsFromRedis M R job_id r = ((False, []), r1)"
    using GetTaskIdsFromRedis_miss [OF assms(1-3)] by blast
  have "GetTaskIdsFromDB T (tx_ok n1) job_id db = (Inl (StdExn ''invalid input syntax for type uuid''), db, [])"
    using assms(4) by (simp add: GetTaskIdsFromDB_def ids_of_job_tx_def tx_ok_def run_tx_def)
  with r1 have "Handle T cols payload M R lost (tx_ok n1) E2 ?req (db, r) =
      (Inl (QueryDb (StdExn ''invalid input syntax for type uuid'')), db, r1)"
    by (simp add: Handle_def)
  from OnGetJobStatus_throws [OF this] show ?thesis
    by (intro exI [of _ r1] exI [of _ "''invalid input syntax for type uuid''"]) (simp add: partial_response_def)
qed

end

section \<open>Properties\<close>



end
