(* ===== verification/Dag_Builder.thy ===== *)
theory Dag_Builder
  imports Task_Types
begin

text \<open>
  \<open>src/client/src/dag_builder.cpp\<close>: the client's builder of requests. \<open>std::map\<close> is an
  association list sorted by key, the colours of the depth-first search (0 not visited, 1 on the
  stack, 2 done) are a function that is 0 where the map has no entry yet, which is what
  \<open>visited[v]\<close> reads. The recursion is bounded by fuel; the number of tasks is enough of it.
  The texts of the exceptions that are Chinese in the code are given in English.
\<close>

datatype builder_err = InvalidArgument string | RuntimeError string | JsonError string

record DagBuilder =
  dgb_idempotency_key :: string
  dgb_tasks_map :: "(string, Task) omap"
  dgb_task_edges :: "TaskEdge list"

definition new_DagBuilder :: "string \<Rightarrow> builder_err + DagBuilder" where
  "new_DagBuilder idempotency_key =
     (if idempotency_key = [] then Inl (InvalidArgument ''idempotency_key is empty'')
      else Inr \<lparr>dgb_idempotency_key = idempotency_key, dgb_tasks_map = [], dgb_task_edges = []\<rparr>)"

definition AddTask :: "string \<Rightarrow> string \<Rightarrow> json \<Rightarrow> DagBuilder \<Rightarrow> builder_err + DagBuilder" where
  "AddTask natural_id func_name func_params b =
     (if map_of (dgb_tasks_map b) natural_id \<noteq> None
      then Inl (RuntimeError (''duplicate natural_id: '' @ natural_id))
      else Inr (b\<lparr>dgb_tasks_map := omap_put natural_id
             (default_Task\<lparr>t_natural_id := natural_id, t_func_name := func_name,
                t_func_params := func_params\<rparr>) (dgb_tasks_map b)\<rparr>))"

definition AddDependency :: "string \<Rightarrow> string \<Rightarrow> DagBuilder \<Rightarrow> builder_err + DagBuilder" where
  "AddDependency parent child b =
     (if parent = child then Inl (RuntimeError (''self dependency: '' @ parent))
      else if map_of (dgb_tasks_map b) parent = None
      then Inl (RuntimeError (''no parent: '' @ parent))
      else if map_of (dgb_tasks_map b) child = None
      then Inl (RuntimeError (''no child: '' @ child))
      else Inr (b\<lparr>dgb_task_edges := dgb_task_edges b @
             [\<lparr>parent_natural_id = parent, child_natural_id = child\<rparr>]\<rparr>))"

section \<open>The cycle check\<close>

text \<open>\<open>adj[parent].push_back(child)\<close> over the edges, read at a node.\<close>

definition adj_of :: "TaskEdge list \<Rightarrow> string \<Rightarrow> string list" where
  "adj_of edges u = map child_natural_id (filter (\<lambda>e. parent_natural_id e = u) edges)"

type_synonym visited = "string \<Rightarrow> nat"

text \<open>
  The search from a node and its loop over the neighbours; \<open>None\<close> says that the fuel ran out.
  The result is whether a cycle was found, and the colours.
\<close>

fun HasCycleDFS :: "(string \<Rightarrow> string list) \<Rightarrow> nat \<Rightarrow> string \<Rightarrow> visited \<Rightarrow> (bool \<times> visited) option"
  and neighbours :: "(string \<Rightarrow> string list) \<Rightarrow> nat \<Rightarrow> string list \<Rightarrow> visited \<Rightarrow> (bool \<times> visited) option"
where
  "HasCycleDFS adj 0 u visited = None"
| "HasCycleDFS adj (Suc fuel) u visited =
     (case neighbours adj fuel (adj u) (visited(u := 1)) of
        None \<Rightarrow> None
      | Some (True, visited') \<Rightarrow> Some (True, visited')
      | Some (False, visited') \<Rightarrow> Some (False, visited'(u := 2)))"
| "neighbours adj fuel [] visited = Some (False, visited)"
| "neighbours adj fuel (v # vs) visited =
     (if visited v = 1 then Some (True, visited)
      else if visited v = 0
      then (case HasCycleDFS adj fuel v visited of
              None \<Rightarrow> None
            | Some (True, visited') \<Rightarrow> Some (True, visited')
            | Some (False, visited') \<Rightarrow> neighbours adj fuel vs visited')
      else neighbours adj fuel vs visited)"

text \<open>The loop over the tasks; the node a cycle was found from, if any.\<close>

fun validate_from :: "(string \<Rightarrow> string list) \<Rightarrow> nat \<Rightarrow> string list \<Rightarrow> visited \<Rightarrow> string option option" where
  "validate_from adj fuel [] visited = Some None"
| "validate_from adj fuel (start_node # nodes) visited =
     (if visited start_node = 0
      then (case HasCycleDFS adj fuel start_node visited of
              None \<Rightarrow> None
            | Some (True, visited') \<Rightarrow> Some (Some start_node)
            | Some (False, visited') \<Rightarrow> validate_from adj fuel nodes visited')
      else validate_from adj fuel nodes visited)"

definition cycle_message :: "string \<Rightarrow> string" where
  "cycle_message start_node =
     ''DAG Validation Failed: Cycle detected involving task '' @ [CHR 0x27] @ start_node @ [CHR 0x27]"

definition ValidateCycle :: "nat \<Rightarrow> DagBuilder \<Rightarrow> (builder_err + unit) option" where
  "ValidateCycle fuel b =
     (case validate_from (adj_of (dgb_task_edges b)) fuel (map fst (dgb_tasks_map b)) (\<lambda>_. 0) of
        None \<Rightarrow> None
      | Some None \<Rightarrow> Some (Inr ())
      | Some (Some start_node) \<Rightarrow>
          Some (Inl (RuntimeError (cycle_message start_node))))"

text \<open>The tasks converted in the order of the map; a throwing conversion throws.\<close>

fun tasks_to_proto :: "json_lib \<Rightarrow> (string, Task) omap \<Rightarrow> builder_err + PbTask list" where
  "tasks_to_proto L [] = Inr []"
| "tasks_to_proto L ((i, task) # tasks) =
     (case TaskToProto L task of
        Inl e \<Rightarrow> Inl (JsonError e)
      | Inr p \<Rightarrow> (case tasks_to_proto L tasks of Inl e \<Rightarrow> Inl e | Inr ps \<Rightarrow> Inr (p # ps)))"

definition BuildProto :: "json_lib \<Rightarrow> nat \<Rightarrow> DagBuilder \<Rightarrow> (builder_err + PbSubmitDagRequest) option" where
  "BuildProto L fuel b =
     (case ValidateCycle fuel b of
        None \<Rightarrow> None
      | Some (Inl e) \<Rightarrow> Some (Inl e)
      | Some (Inr _) \<Rightarrow>
          (case tasks_to_proto L (dgb_tasks_map b) of
             Inl e \<Rightarrow> Some (Inl e)
           | Inr ps \<Rightarrow>
               Some (Inr \<lparr>pr_idempotency_key = dgb_idempotency_key b, pr_tasks = ps,
                          pr_edges = dgb_task_edges b, pr_client_id = []\<rparr>)))"

section \<open>Correctness of the search\<close>

definition graph :: "(string \<Rightarrow> string list) \<Rightarrow> (string \<times> string) set" where
  "graph adj = {(u, v). v \<in> set (adj u)}"

text \<open>Finished nodes have finished successors and lie on no cycle.\<close>

definition done_ok :: "(string \<Rightarrow> string list) \<Rightarrow> visited \<Rightarrow> bool" where
  "done_ok adj c \<longleftrightarrow> (\<forall>u v. c u = 2 \<longrightarrow> (u, v) \<in> graph adj \<longrightarrow> c v = 2) \<and>
     (\<forall>u. c u = 2 \<longrightarrow> (u, u) \<notin> (graph adj)\<^sup>+)"

text \<open>Every node on the stack reaches the node the search is at.\<close>

definition stack_reaches :: "(string \<Rightarrow> string list) \<Rightarrow> visited \<Rightarrow> string \<Rightarrow> bool" where
  "stack_reaches adj c u \<longleftrightarrow> (\<forall>g. c g = 1 \<longrightarrow> (g, u) \<in> (graph adj)\<^sup>*)"

text \<open>What a search may do to the colours: finish nodes that were not visited.\<close>

definition only_finishes :: "visited \<Rightarrow> visited \<Rightarrow> bool" where
  "only_finishes c c' \<longleftrightarrow> (\<forall>x. c' x = c x \<or> c x = 0 \<and> c' x = 2)"

lemma only_finishes_trans: "only_finishes a b \<Longrightarrow> only_finishes b c \<Longrightarrow> only_finishes a c"
  unfolding only_finishes_def by (metis zero_neq_numeral)

lemma only_finishes_done: "only_finishes c c' \<Longrightarrow> c v = 2 \<Longrightarrow> c' v = 2"
  unfolding only_finishes_def by (metis zero_neq_numeral)

lemma done_closed: "(x, y) \<in> (graph adj)\<^sup>* \<Longrightarrow> done_ok adj c \<Longrightarrow> c x = 2 \<Longrightarrow> c y = 2"
  by (induction rule: rtrancl_induct) (auto simp: done_ok_def)

lemma done_ok_finish:
  assumes "done_ok adj c" "c u \<noteq> 2" "\<forall>v \<in> set (adj u). c v = 2"
  shows "done_ok adj (c(u := 2))"
proof -
  have "(u, u) \<notin> (graph adj)\<^sup>+"
  proof
    assume "(u, u) \<in> (graph adj)\<^sup>+"
    then obtain v where v: "(u, v) \<in> graph adj" "(v, u) \<in> (graph adj)\<^sup>*" by (auto dest: tranclD)
    then have "c v = 2" using assms(3) by (simp add: graph_def)
    from done_closed [OF v(2) assms(1) this] assms(2) show False by simp
  qed
  then show ?thesis
    using assms unfolding done_ok_def by (auto simp: graph_def)
qed

definition search_ok :: "(string \<Rightarrow> string list) \<Rightarrow> string list \<Rightarrow> visited \<Rightarrow> bool \<times> visited \<Rightarrow> bool" where
  "search_ok adj vs c = (\<lambda>(found, c').
     if found then (\<exists>x. (x, x) \<in> (graph adj)\<^sup>+)
     else (\<forall>v \<in> set vs. c' v = 2) \<and> done_ok adj c' \<and> only_finishes c c')"

lemma finish_node:
  assumes "search_ok adj (adj u) (c(u := 1)) (False, c')" "c u = 0"
  shows "search_ok adj [u] c (False, c'(u := 2))"
proof -
  have o: "only_finishes (c(u := 1)) c'" and d: "done_ok adj c'" "\<forall>v \<in> set (adj u). c' v = 2"
    using assms(1) by (auto simp: search_ok_def)
  have "c' u = 1" using o by (auto simp: only_finishes_def split: if_splits dest: spec [of _ u])
  with d have "done_ok adj (c'(u := 2))" by (intro done_ok_finish) simp_all
  moreover have "only_finishes c (c'(u := 2))"
    using o assms(2) unfolding only_finishes_def by (metis fun_upd_apply)
  ultimately show ?thesis by (simp add: search_ok_def)
qed

text \<open>One neighbour: an open one closes a cycle; a new one is searched, and when that search finds
nothing the rest of the neighbours are.\<close>

lemma open_neighbour:
  assumes "c v = 1" "(p, v) \<in> graph adj" "stack_reaches adj c p"
  shows "search_ok adj vs c (True, c')"
proof -
  have "(v, p) \<in> (graph adj)\<^sup>*" using assms by (simp add: stack_reaches_def)
  with assms(2) have "(p, p) \<in> (graph adj)\<^sup>+" by (meson rtrancl_into_trancl2)
  then show ?thesis by (auto simp: search_ok_def)
qed

lemma searched_neighbour:
  assumes first: "search_ok adj [v] c (b, c1)" and "c v = 0" "stack_reaches adj c p" "\<forall>x. c x \<le> 2"
    and res: "if b then res = (True, c1) else neighbours adj fuel vs c1 = Some res"
    and IH: "\<lbrakk>\<not> b; stack_reaches adj c1 p; \<forall>x. c1 x \<le> 2; done_ok adj c1\<rbrakk> \<Longrightarrow> search_ok adj vs c1 res"
  shows "search_ok adj (v # vs) c res"
proof (cases b)
  case True
  then show ?thesis using first res by (auto simp: search_ok_def)
next
  case False
  have o: "only_finishes c c1" "done_ok adj c1" "c1 v = 2" using first False by (auto simp: search_ok_def)
  have g: "c1 x = 1 \<Longrightarrow> c x = 1" "c1 x \<le> 2" for x
    using o(1) assms(4) unfolding only_finishes_def by (metis numeral_eq_one_iff semiring_norm(85), metis order_refl)
  have "stack_reaches adj c1 p" using assms(3) g(1) by (simp add: stack_reaches_def)
  then have "search_ok adj vs c1 res" using IH False g(2) o(2) by blast
  then show ?thesis
    using o(3) only_finishes_trans [OF o(1)] only_finishes_done [of c1]
    by (cases res) (auto simp: search_ok_def split: if_splits)
qed

lemma search_correct:
  "HasCycleDFS adj fuel u c = Some res \<Longrightarrow> c u = 0 \<Longrightarrow> stack_reaches adj c u \<Longrightarrow> \<forall>x. c x \<le> 2 \<Longrightarrow>
     done_ok adj c \<Longrightarrow> search_ok adj [u] c res"
  "neighbours adj fuel vs c = Some res \<Longrightarrow> set vs \<subseteq> set (adj p) \<Longrightarrow> stack_reaches adj c p \<Longrightarrow>
     \<forall>x. c x \<le> 2 \<Longrightarrow> done_ok adj c \<Longrightarrow> search_ok adj vs c res"
proof (induction adj fuel u c and adj fuel vs c arbitrary: res and res p rule: HasCycleDFS_neighbours.induct)
  case (2 adj fuel u c)
  obtain b c' where n: "neighbours adj fuel (adj u) (c(u := 1)) = Some (b, c')"
    using 2(2) by (auto split: option.splits)
  have "stack_reaches adj (c(u := 1)) u" using 2(4) by (simp add: stack_reaches_def)
  moreover have "\<forall>x. (c(u := 1)) x \<le> 2" using 2(5) by simp
  moreover have "done_ok adj (c(u := 1))" using 2(3,6) unfolding done_ok_def by auto
  ultimately have s: "search_ok adj (adj u) (c(u := 1)) (b, c')" using 2(1) [OF n] by blast
  show ?case
  proof (cases b)
    case True
    then show ?thesis using 2(2) n s by (auto simp: search_ok_def)
  next
    case False
    then show ?thesis using 2(2,3) n s finish_node [of adj u c c'] by simp
  qed
next
  case (4 adj fuel v vs c)
  have pv: "(p, v) \<in> graph adj" "set vs \<subseteq> set (adj p)" using 4(5) by (auto simp: graph_def)
  consider "c v = 1" | "c v = 0" | "c v = 2" using 4(7) [THEN spec, of v] by linarith
  then show ?case
  proof cases
    case 1
    then have "res = (True, c)" using 4(4) by simp
    then show ?thesis using open_neighbour [OF 1 pv(1) 4(6)] by simp
  next
    case 2
    then have nv: "c v \<noteq> 1" by simp
    obtain b c1 where d: "HasCycleDFS adj fuel v c = Some (b, c1)"
      using 4(4) 2 by (auto split: option.splits)
    have "stack_reaches adj c v" using 4(6) pv(1) unfolding stack_reaches_def by (meson rtrancl.rtrancl_into_rtrancl)
    then have s: "search_ok adj [v] c (b, c1)" using 4(1) [OF _ 2 d] 2 4(7,8) by simp
    have r: "if b then res = (True, c1) else neighbours adj fuel vs c1 = Some res"
      using 4(4) 2 d by (auto split: if_splits)
    show ?thesis
      by (rule searched_neighbour [OF s 2 4(6,7) r]) (use 4(2) [OF nv 2 d refl] r pv(2) in auto)
  next
    case 3
    then have "search_ok adj vs c res" using 4(3) [of res p] 4(4-8) pv(2) by simp
    then show ?thesis using 3 only_finishes_done [of c]
      by (cases res) (auto simp: search_ok_def split: if_splits)
  qed
qed (auto simp: search_ok_def only_finishes_def)

section \<open>The search ends\<close>

text \<open>A visited node stays visited, whatever the search finds.\<close>

lemma search_keeps_visited:
  "HasCycleDFS adj fuel u c = Some (b, c') \<Longrightarrow> c x \<noteq> 0 \<Longrightarrow> c' x \<noteq> 0"
  "neighbours adj fuel vs c = Some (b, c') \<Longrightarrow> c x \<noteq> 0 \<Longrightarrow> c' x \<noteq> 0"
proof (induction adj fuel u c and adj fuel vs c arbitrary: b c' and b c' rule: HasCycleDFS_neighbours.induct)
  case (2 adj fuel u c)
  then show ?case by (fastforce split: option.splits prod.splits bool.splits if_splits)
next
  case (4 adj fuel v vs c)
  then show ?case by (fastforce split: option.splits prod.splits bool.splits if_splits)
qed auto

definition unvisited :: "string set \<Rightarrow> visited \<Rightarrow> nat" where
  "unvisited N c = card {x \<in> N. c x = 0}"

lemma unvisited_mono:
  "finite N \<Longrightarrow> (\<And>x. c x \<noteq> 0 \<Longrightarrow> c' x \<noteq> 0) \<Longrightarrow> unvisited N c' \<le> unvisited N c"
  unfolding unvisited_def by (intro card_mono subsetI) (simp, metis (mono_tags, lifting) mem_Collect_eq)

lemma unvisited_visit:
  assumes "finite N" "u \<in> N" "c u = 0"
  shows "unvisited N c = Suc (unvisited N (c(u := 1)))"
proof -
  have "{x \<in> N. c x = 0} = insert u {x \<in> N. (c(u := 1)) x = 0}" using assms by auto
  then show ?thesis using assms(1) by (simp add: unvisited_def)
qed

lemma search_ends:
  "finite N \<Longrightarrow> (\<And>x. set (adj x) \<subseteq> N) \<Longrightarrow> u \<in> N \<Longrightarrow> c u = 0 \<Longrightarrow> unvisited N c \<le> fuel \<Longrightarrow>
     HasCycleDFS adj fuel u c \<noteq> None"
  "finite N \<Longrightarrow> (\<And>x. set (adj x) \<subseteq> N) \<Longrightarrow> set vs \<subseteq> N \<Longrightarrow> unvisited N c \<le> fuel \<Longrightarrow>
     neighbours adj fuel vs c \<noteq> None"
proof (induction adj fuel u c and adj fuel vs c rule: HasCycleDFS_neighbours.induct)
  case (1 adj u c)
  then show ?case using unvisited_visit [of N u c] by simp
next
  case (2 adj fuel u c)
  have "unvisited N (c(u := 1)) \<le> fuel" using unvisited_visit [of N u c] 2(2,4-6) by simp
  then have "neighbours adj fuel (adj u) (c(u := 1)) \<noteq> None" using 2(1) [OF 2(2,3,3)] by blast
  then show ?case by (auto split: prod.split bool.split)
next
  case (4 adj fuel v vs c)
  have rest: "neighbours adj fuel vs c' \<noteq> None"
    if "HasCycleDFS adj fuel v c = Some (False, c')" "c v = 0" "c v \<noteq> 1" for c'
  proof -
    have "unvisited N c' \<le> unvisited N c"
      using search_keeps_visited(1) [OF that(1)] 4(4) by (intro unvisited_mono) auto
    then show ?thesis using 4(2) [OF that(3,2,1) refl] 4(4-7) that(1) by auto
  qed
  show ?case
  proof (cases "c v = 0")
    case True
    then have "HasCycleDFS adj fuel v c \<noteq> None" using 4(1) 4(4-7) by simp
    then obtain b c' where "HasCycleDFS adj fuel v c = Some (b, c')" by fast
    with True rest show ?thesis by (cases b) auto
  next
    case False
    then show ?thesis using 4(3) 4(4-7) by (cases "c v = 1") auto
  qed
qed auto

text \<open>The loop over the tasks decides whether the part of the graph they reach is acyclic.\<close>

lemma validate_from_correct:
  assumes "finite N" "\<And>x. set (adj x) \<subseteq> N"
  shows "set nodes \<subseteq> N \<Longrightarrow> unvisited N c \<le> fuel \<Longrightarrow> done_ok adj c \<Longrightarrow> \<forall>x. c x \<in> {0, 2} \<Longrightarrow>
    (\<exists>u \<in> set nodes. validate_from adj fuel nodes c = Some (Some u) \<and> (\<exists>x. (x, x) \<in> (graph adj)\<^sup>+)) \<or>
    validate_from adj fuel nodes c = Some None \<and> (\<forall>u \<in> set nodes. (u, u) \<notin> (graph adj)\<^sup>+)"
proof (induction nodes arbitrary: c)
  case (Cons u nodes)
  show ?case
  proof (cases "c u = 0")
    case True
    obtain b c' where d: "HasCycleDFS adj fuel u c = Some (b, c')"
      using search_ends(1) [of N adj u c fuel, OF assms] Cons.prems True by fastforce
    have "stack_reaches adj c u" "\<forall>x. c x \<le> 2"
      using Cons.prems(4) by (auto simp: stack_reaches_def) (metis One_nat_def numeral_eq_one_iff semiring_norm(85) zero_neq_one, metis le_numeral_extra(3) nle_le zero_le)
    from search_correct(1) [OF d True this Cons.prems(3)] have s: "search_ok adj [u] c (b, c')" .
    show ?thesis
    proof (cases b)
      case True
      then show ?thesis using s d \<open>c u = 0\<close> by (auto simp: search_ok_def)
    next
      case False
      have o: "done_ok adj c'" "only_finishes c c'" "c' u = 2" using s False by (simp_all add: search_ok_def)
      have "unvisited N c' \<le> fuel"
        using unvisited_mono [OF assms(1), of c c'] search_keeps_visited(1) [OF d] Cons.prems(2) by (meson le_trans)
      moreover have "\<forall>x. c' x \<in> {0, 2}" using o(2) Cons.prems(4) unfolding only_finishes_def by (metis insertI1 insertI2)
      moreover have "(u, u) \<notin> (graph adj)\<^sup>+" using o(1,3) by (simp add: done_ok_def)
      ultimately show ?thesis using Cons.IH [of c'] Cons.prems(1) o(1) d False \<open>c u = 0\<close> by auto
    qed
  next
    case False
    then have "c u = 2" using Cons.prems(4) by (metis insertE singletonD)
    then have "(u, u) \<notin> (graph adj)\<^sup>+" using Cons.prems(3) by (simp add: done_ok_def)
    with False show ?thesis using Cons.IH [of c] Cons.prems by auto
  qed
qed simp

section \<open>Building\<close>

text \<open>A builder as its operations leave it: the edges join different tasks of the map.\<close>

definition builder_ok :: "DagBuilder \<Rightarrow> bool" where
  "builder_ok b \<longleftrightarrow> dgb_idempotency_key b \<noteq> [] \<and> omap_ok (dgb_tasks_map b) \<and>
     (\<forall>i t. map_of (dgb_tasks_map b) i = Some t \<longrightarrow> t_natural_id t = i) \<and>
     (\<forall>e \<in> set (dgb_task_edges b). parent_natural_id e \<noteq> child_natural_id e \<and>
        parent_natural_id e \<in> fst ` set (dgb_tasks_map b) \<and> child_natural_id e \<in> fst ` set (dgb_tasks_map b))"

lemma builder_ok_new: "new_DagBuilder k = Inr b \<Longrightarrow> builder_ok b"
  by (auto simp: new_DagBuilder_def builder_ok_def split: if_splits)

lemma builder_ok_AddTask: "builder_ok b \<Longrightarrow> AddTask i f p b = Inr b' \<Longrightarrow> builder_ok b'"
  by (auto simp: builder_ok_def AddTask_def split: if_splits)

lemma builder_ok_AddDependency: "builder_ok b \<Longrightarrow> AddDependency pa ch b = Inr b' \<Longrightarrow> builder_ok b'"
  unfolding builder_ok_def AddDependency_def map_of_eq_None_iff
  by (simp split: if_splits) (drule sym, simp)

text \<open>The calls of a client; one that throws leaves the builder as it was.\<close>

datatype builder_call = CallAddTask string string json | CallAddDependency string string

fun builder_step :: "builder_call \<Rightarrow> DagBuilder \<Rightarrow> DagBuilder" where
  "builder_step (CallAddTask i f p) b = (case AddTask i f p b of Inl e \<Rightarrow> b | Inr b' \<Rightarrow> b')"
| "builder_step (CallAddDependency pa ch) b = (case AddDependency pa ch b of Inl e \<Rightarrow> b | Inr b' \<Rightarrow> b')"

lemma builder_ok_run: "builder_ok b \<Longrightarrow> builder_ok (fold builder_step calls b)"
proof (induction calls arbitrary: b)
  case (Cons call calls)
  have "builder_ok (builder_step call b)"
  proof (cases call)
    case (CallAddTask i f p)
    then show ?thesis using Cons.prems builder_ok_AddTask [of b i f p] by (cases "AddTask i f p b") simp_all
  next
    case (CallAddDependency pa ch)
    then show ?thesis using Cons.prems builder_ok_AddDependency [of b pa ch] by (cases "AddDependency pa ch b") simp_all
  qed
  with Cons.IH show ?case by simp
qed simp

definition edges_of :: "TaskEdge list \<Rightarrow> (string \<times> string) set" where
  "edges_of es = (\<lambda>e. (parent_natural_id e, child_natural_id e)) ` set es"

lemma graph_adj_of: "graph (adj_of es) = edges_of es"
  by (auto simp: graph_def adj_of_def edges_of_def)

lemma builder_nodes:
  assumes "builder_ok b"
  shows "finite (fst ` set (dgb_tasks_map b))" "set (adj_of (dgb_task_edges b) u) \<subseteq> fst ` set (dgb_tasks_map b)"
    "unvisited (fst ` set (dgb_tasks_map b)) (\<lambda>_. 0) = length (dgb_tasks_map b)"
proof -
  have "distinct (map fst (dgb_tasks_map b))" using assms by (simp add: builder_ok_def omap_ok_def)
  then have "card (set (map fst (dgb_tasks_map b))) = length (map fst (dgb_tasks_map b))" by (rule distinct_card)
  then show "unvisited (fst ` set (dgb_tasks_map b)) (\<lambda>_. 0) = length (dgb_tasks_map b)"
    by (simp add: unvisited_def)
qed (use assms in \<open>auto simp: builder_ok_def adj_of_def\<close>)

lemma acyclic_if_nodes:
  assumes "builder_ok b" "\<forall>u \<in> fst ` set (dgb_tasks_map b). (u, u) \<notin> (edges_of (dgb_task_edges b))\<^sup>+"
  shows "acyclic (edges_of (dgb_task_edges b))"
  unfolding acyclic_def
proof (intro allI notI)
  fix x assume x: "(x, x) \<in> (edges_of (dgb_task_edges b))\<^sup>+"
  then obtain y where "(x, y) \<in> edges_of (dgb_task_edges b)" by (meson tranclD)
  then have "x \<in> fst ` set (dgb_tasks_map b)" using assms(1) by (auto simp: edges_of_def builder_ok_def)
  with x assms(2) show False by blast
qed

lemma validate_decides:
  assumes ok: "builder_ok b" and "fuel = length (dgb_tasks_map b)"
  shows "if acyclic (edges_of (dgb_task_edges b)) then ValidateCycle fuel b = Some (Inr ())
         else \<exists>u \<in> fst ` set (dgb_tasks_map b).
           ValidateCycle fuel b = Some (Inl (RuntimeError (cycle_message u)))"
proof -
  let ?N = "fst ` set (dgb_tasks_map b)" and ?adj = "adj_of (dgb_task_edges b)"
  let ?v = "validate_from ?adj fuel (map fst (dgb_tasks_map b)) (\<lambda>_. 0)"
  have d: "done_ok ?adj (\<lambda>_. 0)" by (simp add: done_ok_def)
  have "(\<exists>u \<in> set (map fst (dgb_tasks_map b)). ?v = Some (Some u) \<and> (\<exists>x. (x, x) \<in> (graph ?adj)\<^sup>+)) \<or>
      ?v = Some None \<and> (\<forall>u \<in> set (map fst (dgb_tasks_map b)). (u, u) \<notin> (graph ?adj)\<^sup>+)"
    by (rule validate_from_correct [OF builder_nodes(1,2) [OF ok] _ _ d])
      (simp_all add: builder_nodes(3) [OF ok] assms(2))
  then have "(\<exists>u \<in> ?N. ?v = Some (Some u) \<and> \<not> acyclic (edges_of (dgb_task_edges b))) \<or>
      ?v = Some None \<and> acyclic (edges_of (dgb_task_edges b))"
    unfolding graph_adj_of set_map using acyclic_if_nodes [OF ok] unfolding acyclic_def by blast
  then show ?thesis by (auto simp: ValidateCycle_def intro: rev_bexI)
qed

section \<open>Properties\<close>

text \<open>
  C27. The cycle check is exact and ends. For every builder the client's calls can produce, with one
  unit of fuel per task, \<open>ValidateCycle\<close> returns; it throws, naming a task of the builder, exactly
  when the dependencies have a cycle.
\<close>

theorem validate_cycle_decides:
  assumes "new_DagBuilder k = Inr b0" "b = fold builder_step calls b0"
    and "fuel = length (dgb_tasks_map b)"
  shows "if acyclic (edges_of (dgb_task_edges b)) then ValidateCycle fuel b = Some (Inr ())
         else \<exists>u \<in> fst ` set (dgb_tasks_map b).
           ValidateCycle fuel b = Some (Inl (RuntimeError (cycle_message u)))"
  by (rule validate_decides [OF _ assms(3)]) (use builder_ok_run [OF builder_ok_new [OF assms(1)]] assms(2) in simp)

text \<open>
  C28. What the client sends is well formed. A request built by any sequence of calls has an
  idempotency key, tasks with different natural ids, and edges that join different tasks of the
  request and form no cycle.
\<close>

theorem built_request_well_formed:
  assumes "new_DagBuilder k = Inr b0" "b = fold builder_step calls b0"
    and "BuildProto L (length (dgb_tasks_map b)) b = Some (Inr q)"
  shows "pr_idempotency_key q \<noteq> [] \<and> distinct (map p_natural_id (pr_tasks q)) \<and>
    acyclic (edges_of (pr_edges q)) \<and>
    (\<forall>e \<in> set (pr_edges q). parent_natural_id e \<noteq> child_natural_id e \<and>
       parent_natural_id e \<in> p_natural_id ` set (pr_tasks q) \<and> child_natural_id e \<in> p_natural_id ` set (pr_tasks q))"
proof -
  have ok: "builder_ok b" using builder_ok_run [OF builder_ok_new [OF assms(1)]] assms(2) by simp
  have keys: "tasks_to_proto L ts = Inr ps \<Longrightarrow> \<forall>(i, t) \<in> set ts. t_natural_id t = i \<Longrightarrow> map p_natural_id ps = map fst ts"
    for ts ps
    by (induction ts arbitrary: ps) (auto simp: TaskToProto_def split: sum.splits)
  obtain ps where ps: "ValidateCycle (length (dgb_tasks_map b)) b = Some (Inr ())" "tasks_to_proto L (dgb_tasks_map b) = Inr ps"
    "q = \<lparr>pr_idempotency_key = dgb_idempotency_key b, pr_tasks = ps, pr_edges = dgb_task_edges b, pr_client_id = []\<rparr>"
    using assms(3) by (auto simp: BuildProto_def split: option.splits sum.splits)
  have d: "distinct (map fst (dgb_tasks_map b))" using ok by (simp add: builder_ok_def omap_ok_def)
  then have "\<forall>(i, t) \<in> set (dgb_tasks_map b). t_natural_id t = i" using ok by (auto simp: builder_ok_def)
  from keys [OF ps(2) this] have m: "map p_natural_id ps = map fst (dgb_tasks_map b)" .
  then have "p_natural_id ` set ps = fst ` set (dgb_tasks_map b)" by (metis set_map)
  moreover have "acyclic (edges_of (dgb_task_edges b))"
    using validate_decides [OF ok refl] ps(1) by (auto split: if_splits)
  ultimately show ?thesis using ok m d by (simp add: ps(3) builder_ok_def)
qed

definition diamond :: "builder_call list" where
  "diamond = [CallAddTask ''a'' ''f'' JNull, CallAddTask ''b'' ''f'' JNull, CallAddDependency ''a'' ''b'']"

definition empty_builder :: DagBuilder where
  "empty_builder = \<lparr>dgb_idempotency_key = ''k'', dgb_tasks_map = [], dgb_task_edges = []\<rparr>"

theorem validate_cycle_decides_witness:
  "\<exists>b u. b = fold builder_step (diamond @ [CallAddDependency ''b'' ''a'']) empty_builder \<and>
     ValidateCycle 2 b = Some (Inl (RuntimeError (cycle_message u)))"
proof -
  let ?b = "fold builder_step (diamond @ [CallAddDependency ''b'' ''a'']) empty_builder"
  have n: "new_DagBuilder ''k'' = Inr empty_builder" by (simp add: new_DagBuilder_def empty_builder_def)
  have e: "dgb_task_edges ?b = [\<lparr>parent_natural_id = ''a'', child_natural_id = ''b''\<rparr>, \<lparr>parent_natural_id = ''b'', child_natural_id = ''a''\<rparr>]"
    and l: "2 = length (dgb_tasks_map ?b)"
    by (simp_all add: diamond_def empty_builder_def AddTask_def AddDependency_def)
  have "(''a'', ''a'') \<in> (edges_of (dgb_task_edges ?b))\<^sup>+"
    unfolding e edges_of_def by (rule trancl_into_trancl [of _ "''b''"]) auto
  then have "\<not> acyclic (edges_of (dgb_task_edges ?b))" by (auto simp: acyclic_def)
  with validate_cycle_decides [OF n refl l] show ?thesis by auto
qed

theorem built_request_well_formed_witness:
  "\<exists>q. BuildProto sample_json_lib 2 (fold builder_step diamond empty_builder) = Some (Inr q) \<and> acyclic (edges_of (pr_edges q))"
proof -
  let ?b = "fold builder_step diamond empty_builder"
  have n: "new_DagBuilder ''k'' = Inr empty_builder" by (simp add: new_DagBuilder_def empty_builder_def)
  have l: "length (dgb_tasks_map ?b) = 2"
    by (simp add: diamond_def empty_builder_def AddTask_def AddDependency_def)
  have "case BuildProto sample_json_lib 2 ?b of Some (Inr q) \<Rightarrow> True | _ \<Rightarrow> False" by code_simp
  then obtain q where q: "BuildProto sample_json_lib 2 ?b = Some (Inr q)"
    by (auto split: option.splits sum.splits)
  from built_request_well_formed [OF n refl, of sample_json_lib diamond q] q l show ?thesis by auto
qed

end
