(* ===== verification/Grpc_Client.thy ===== *)
theory Grpc_Client
  imports Rpc_Types
begin

text \<open>
  \<open>src/client/src/grpc_client.cpp\<close>, \<open>src/client/include/async_tags.hpp\<close> and
  \<open>src/common/include/coroutines/dts_coroutine.h\<close>: the three ways a client submits a request. gRPC
  is not under \<open>src\<close>; of it the model uses that a unary call ends in a status and a response, and
  that each operation a tag starts is handed back once by the completion queue. Status codes are
  kept as texts.
\<close>

section \<open>Exceptions\<close>

text \<open>The two classes called \<open>GrpcError\<close>, of \<open>dts\<close> and of \<open>dts::common\<close>, are not related.\<close>

datatype client_exn =
    DtsGrpcError string string
  | CommonGrpcError string string
  | RejectedError string

definition quoted :: "string \<Rightarrow> string" where
  "quoted s = [CHR 0x22] @ s @ [CHR 0x22]"

text \<open>\<open>FormatMessage\<close> of a status without details, and \<open>what()\<close>.\<close>

definition FormatMessage :: "string \<Rightarrow> string \<Rightarrow> string" where
  "FormatMessage code msg =
     ''gRPC Error: '' @ ''Code='' @ code @ '' ('' @ code @ '') '' @ ''| Msg='' @ quoted msg"

fun client_what :: "client_exn \<Rightarrow> string" where
  "client_what (DtsGrpcError code msg) = msg"
| "client_what (CommonGrpcError code msg) = FormatMessage code msg"
| "client_what (RejectedError msg) = msg"

definition response_error :: "SubmitDagResponse \<Rightarrow> rpc_error option" where
  "response_error resp = rh_error (header_of (sr_header resp))"

section \<open>The synchronous call\<close>

definition submit_dag_sync ::
  "bool \<Rightarrow> grpc_status \<Rightarrow> SubmitDagResponse \<Rightarrow> client_exn + SubmitDagResponse" where
  "submit_dag_sync has_stub st resp =
     (if \<not> has_stub then Inl (DtsGrpcError ''14'' ''channel not created / connection refused'')
      else (case st of
              GrpcStatus code msg \<Rightarrow> Inl (DtsGrpcError code msg)
            | GrpcOK \<Rightarrow>
                (case response_error resp of
                   Some err \<Rightarrow> Inl (RejectedError (''Server rejected DAG: '' @ re_msg err))
                 | None \<Rightarrow> Inr resp)))"

section \<open>The coroutine\<close>

text \<open>
  \<open>GrpcAwaiter\<close>: \<open>aw_resumed\<close> counts the resumptions of the coroutine, \<open>aw_started\<close> the calls
  started.
\<close>

record awaiter =
  aw_status :: grpc_status
  aw_response :: SubmitDagResponse
  aw_started :: nat
  aw_resumed :: nat

definition GrpcAwaiter :: awaiter where
  "GrpcAwaiter = \<lparr>aw_status = GrpcOK, aw_response = new_SubmitDagResponse, aw_started = 0, aw_resumed = 0\<rparr>"

definition await_ready :: bool where "await_ready = False"

text \<open>\<open>await_suspend\<close>: without a reader the coroutine is resumed at once with an error.\<close>

definition await_suspend :: "bool \<Rightarrow> awaiter \<Rightarrow> awaiter" where
  "await_suspend has_reader a =
     (if \<not> has_reader
      then a\<lparr>aw_status := GrpcStatus ''14'' ''Failed to init RPC'', aw_resumed := aw_resumed a + 1\<rparr>
      else a\<lparr>aw_started := aw_started a + 1\<rparr>)"

text \<open>The queue hands the tag back: gRPC has written the answer, \<open>Proceed\<close> resumes.\<close>

definition awaiter_Proceed :: "bool \<Rightarrow> grpc_status \<Rightarrow> SubmitDagResponse \<Rightarrow> awaiter \<Rightarrow> awaiter" where
  "awaiter_Proceed ok st resp a =
     (let a1 = a\<lparr>aw_status := st, aw_response := resp\<rparr>;
          a2 = (if \<not> ok \<and> aw_status a1 = GrpcOK
                then a1\<lparr>aw_status := GrpcStatus ''13'' ''CompletionQueue Shutdown''\<rparr> else a1)
      in a2\<lparr>aw_resumed := aw_resumed a2 + 1\<rparr>)"

definition await_resume :: "awaiter \<Rightarrow> client_exn + SubmitDagResponse" where
  "await_resume a =
     (case aw_status a of
        GrpcStatus code msg \<Rightarrow> Inl (CommonGrpcError code msg)
      | GrpcOK \<Rightarrow>
          (case response_error (aw_response a) of
             Some err \<Rightarrow> Inl (RejectedError (''Server Rejected: '' @ re_msg err))
           | None \<Rightarrow> Inr (aw_response a)))"

text \<open>
  \<open>co_await client->submit_dag_co(req)\<close>: with a reader, the event the completion queue delivers
  (if it ever does) decides; \<open>None\<close> is a coroutine that stays suspended.
\<close>

definition co_submit ::
  "bool \<Rightarrow> (bool \<times> grpc_status \<times> SubmitDagResponse) option \<Rightarrow> (client_exn + SubmitDagResponse) option" where
  "co_submit has_reader event =
     (let a = await_suspend has_reader GrpcAwaiter
      in if 0 < aw_resumed a then Some (await_resume a)
         else (case event of None \<Rightarrow> None
               | Some (ok, st, resp) \<Rightarrow> Some (await_resume (awaiter_Proceed ok st resp a))))"

section \<open>The tag of the asynchronous call\<close>

datatype tag_step = kLaunch | kFinish

text \<open>\<open>tg_finishes\<close> counts the calls of \<open>reader->Finish\<close>; a promise is a value that is set once.\<close>

record submit_tag =
  tg_step :: tag_step
  tg_response :: SubmitDagResponse
  tg_status :: grpc_status
  tg_promise :: "(client_exn + SubmitDagResponse) option"
  tg_has_callback :: bool
  tg_callbacks :: "(SubmitDagResponse \<times> grpc_status) list"
  tg_once :: bool
  tg_deleted :: bool
  tg_finishes :: nat

definition AsyncDagSubmitTag :: "bool \<Rightarrow> submit_tag" where
  "AsyncDagSubmitTag has_callback =
     \<lparr>tg_step = kLaunch, tg_response = new_SubmitDagResponse, tg_status = GrpcOK, tg_promise = None,
      tg_has_callback = has_callback, tg_callbacks = [], tg_once = False, tg_deleted = False,
      tg_finishes = 0\<rparr>"

definition call_back :: "SubmitDagResponse \<Rightarrow> grpc_status \<Rightarrow> submit_tag \<Rightarrow> submit_tag" where
  "call_back resp st t =
     (if tg_has_callback t then t\<lparr>tg_callbacks := tg_callbacks t @ [(resp, st)]\<rparr> else t)"

definition SetResult :: "submit_tag \<Rightarrow> submit_tag" where
  "SetResult t0 =
     (if tg_once t0 then t0
      else let t = t0\<lparr>tg_once := True\<rparr> in
        (case tg_status t of
           GrpcOK \<Rightarrow>
             (case response_error (tg_response t) of
                Some err_obj \<Rightarrow>
                  (let msg = ''BizError: '' @ re_msg err_obj;
                       t1 = t\<lparr>tg_status := GrpcStatus ''9'' msg, tg_promise := Some (Inl (DtsGrpcError ''9'' msg))\<rparr>
                   in call_back (tg_response t1) (tg_status t1) t1)
              | None \<Rightarrow> call_back (tg_response t) (tg_status t) (t\<lparr>tg_promise := Some (Inr (tg_response t))\<rparr>))
         | GrpcStatus code msg \<Rightarrow>
             call_back new_SubmitDagResponse (tg_status t)
               (t\<lparr>tg_promise := Some (Inl (DtsGrpcError code msg))\<rparr>)))"

definition ProceedImpl :: "bool \<Rightarrow> submit_tag \<Rightarrow> submit_tag" where
  "ProceedImpl ok t =
     (case tg_step t of
        kLaunch \<Rightarrow>
          if \<not> ok
          then (SetResult (t\<lparr>tg_status := GrpcStatus ''13'' ''Failed to start RPC call''\<rparr>))\<lparr>tg_deleted := True\<rparr>
          else t\<lparr>tg_step := kFinish, tg_finishes := tg_finishes t + 1\<rparr>
      | kFinish \<Rightarrow>
          (SetResult (if \<not> ok
                      then t\<lparr>tg_status := GrpcStatus ''13'' ''RPC finished with !ok (CQ shutdown?)''\<rparr>
                      else t))\<lparr>tg_deleted := True\<rparr>)"

text \<open>\<open>submit_dag_async\<close>: what the future gets at once, or the tag whose \<open>Finish\<close> is under way.\<close>

definition submit_dag_async :: "bool \<Rightarrow> bool \<Rightarrow> submit_tag" where
  "submit_dag_async has_stub has_callback =
     (let tag = AsyncDagSubmitTag has_callback
      in if \<not> has_stub
         then (call_back new_SubmitDagResponse (GrpcStatus ''14'' ''stub_ null'')
                (tag\<lparr>tg_promise := Some (Inl (DtsGrpcError ''14'' ''stub_ is null''))\<rparr>))\<lparr>tg_deleted := True\<rparr>
         else tag\<lparr>tg_finishes := tg_finishes tag + 1\<rparr>)"

text \<open>An event of the queue for the tag; the answer has been written into it.\<close>

definition tag_event :: "bool \<times> grpc_status \<times> SubmitDagResponse \<Rightarrow> submit_tag \<Rightarrow> submit_tag" where
  "tag_event = (\<lambda>(ok, st, resp) t.
     if tg_deleted t then t else ProceedImpl ok (t\<lparr>tg_status := st, tg_response := resp\<rparr>))"

section \<open>The polling thread\<close>

datatype next_status = GotEvent nat bool | QueueShutdown | QueueTimeout

text \<open>\<open>CompleteRpc\<close>: before each poll the value of \<open>shutdown_\<close>; the events handed to their tags.\<close>

fun CompleteRpc :: "(bool \<times> next_status) list \<Rightarrow> (nat \<times> bool) list" where
  "CompleteRpc [] = []"
| "CompleteRpc ((shutdown_flag, st) # polls) =
     (if shutdown_flag then []
      else (case st of
              GotEvent tag ok \<Rightarrow> (tag, ok) # CompleteRpc polls
            | QueueShutdown \<Rightarrow> []
            | QueueTimeout \<Rightarrow> CompleteRpc polls))"

lemma CompleteRpc_stops: "\<forall>(b, st) \<in> set polls. b \<Longrightarrow> CompleteRpc polls = []"
  by (cases polls) auto

section \<open>Lemmas\<close>

definition tag_ok :: "submit_tag \<Rightarrow> bool" where
  "tag_ok t \<longleftrightarrow> (tg_deleted t \<longleftrightarrow> tg_promise t \<noteq> None) \<and>
     length (tg_callbacks t) = (if tg_deleted t \<and> tg_has_callback t then 1 else 0) \<and>
     (\<not> tg_deleted t \<longrightarrow> \<not> tg_once t)"

lemma SetResult_sets:
  "\<not> tg_once t \<Longrightarrow> tg_promise (SetResult t) \<noteq> None \<and>
   length (tg_callbacks (SetResult t)) = length (tg_callbacks t) + (if tg_has_callback t then 1 else 0) \<and>
   tg_has_callback (SetResult t) = tg_has_callback t"
  by (auto simp: SetResult_def call_back_def Let_def split: grpc_status.split option.split)

lemma tag_ok_SetResult:
  assumes "\<not> tg_once t" "tg_callbacks t = []"
  shows "tag_ok ((SetResult t)\<lparr>tg_deleted := True\<rparr>)"
  using SetResult_sets [OF assms(1)] assms(2) by (simp add: tag_ok_def)

lemma tag_ok_event: "tag_ok t \<Longrightarrow> tag_ok (tag_event e t)"
proof -
  assume ok: "tag_ok t"
  obtain b st resp where e: "e = (b, st, resp)" by (cases e) auto
  show ?thesis
  proof (cases "tg_deleted t")
    case False
    with ok have o: "\<not> tg_once t" "tg_callbacks t = []" "tg_promise t = None" by (auto simp: tag_ok_def)
    let ?t = "t\<lparr>tg_status := st, tg_response := resp\<rparr>"
    have s: "tag_ok ((SetResult (?t\<lparr>tg_status := x\<rparr>))\<lparr>tg_deleted := True\<rparr>)" for x
      by (rule tag_ok_SetResult) (simp_all add: o)
    have s0: "tag_ok ((SetResult ?t)\<lparr>tg_deleted := True\<rparr>)"
      by (rule tag_ok_SetResult) (simp_all add: o)
    have launch: "tag_ok (?t\<lparr>tg_step := kFinish, tg_finishes := tg_finishes ?t + 1\<rparr>)"
      using o False by (simp add: tag_ok_def)
    show ?thesis
      using s0 s [of "GrpcStatus ''13'' ''Failed to start RPC call''"]
        s [of "GrpcStatus ''13'' ''RPC finished with !ok (CQ shutdown?)''"] launch False
      by (cases "tg_step t") (simp_all add: e tag_event_def ProceedImpl_def)
  qed (use ok in \<open>simp add: e tag_event_def\<close>)
qed

lemma tag_ok_new: "tag_ok (submit_dag_async has_stub has_callback)"
  by (simp add: tag_ok_def submit_dag_async_def AsyncDagSubmitTag_def call_back_def Let_def)

lemma tag_ok_fold: "tag_ok t \<Longrightarrow> tag_ok (fold tag_event events t)"
  by (induction events arbitrary: t) (simp_all add: tag_ok_event)

lemma tag_event_callback: "tg_has_callback (tag_event e t) = tg_has_callback t"
proof -
  obtain b st resp where e: "e = (b, st, resp)" by (cases e) auto
  have "tg_has_callback (SetResult t) = tg_has_callback t" for t
    by (auto simp: SetResult_def call_back_def Let_def split: grpc_status.split option.split)
  then show ?thesis by (auto simp: e tag_event_def ProceedImpl_def split: tag_step.split)
qed

lemma fold_tag_callback: "tg_has_callback (fold tag_event events t) = tg_has_callback t"
  by (induction events arbitrary: t) (simp_all add: tag_event_callback)

section \<open>Properties\<close>


text \<open>
  The asynchronous call answers at most once. Whatever events the queue delivers, the promise
  is set exactly when the tag deletes itself, the callback (if there is one) is called exactly once
  then, and no event after that changes anything.
\<close>

theorem async_result_set_once:
  assumes t_def: "t = fold tag_event events (submit_dag_async has_stub has_callback)"
  shows "(tg_deleted t \<longleftrightarrow> tg_promise t \<noteq> None) \<and>
    length (tg_callbacks t) = (if tg_deleted t \<and> has_callback then 1 else 0) \<and>
    (tg_deleted t \<longrightarrow> fold tag_event later t = t)"
proof -
  have ok: "tag_ok t" unfolding t_def by (rule tag_ok_fold [OF tag_ok_new])
  have cb: "tg_has_callback t = has_callback"
    unfolding t_def fold_tag_callback
    by (simp add: submit_dag_async_def AsyncDagSubmitTag_def call_back_def Let_def)
  have "tg_deleted u \<Longrightarrow> fold tag_event later u = u" for u
    by (induction later) (auto simp: tag_event_def)
  then show ?thesis using ok cb by (simp add: tag_ok_def)
qed

text \<open>
  The asynchronous call never delivers a success by itself. \<open>submit_dag_async\<close> starts the
  \<open>Finish\<close> operation with the tag still in its first state; when the answer comes the tag takes it
  for the start of the call, starts \<open>Finish\<close> a second time and leaves the promise unset, whatever
  the server answered.
\<close>

theorem async_call_finishes_twice:
  "let t = tag_event (True, st, resp) (submit_dag_async True has_callback)
   in tg_finishes t = 2 \<and> tg_promise t = None \<and> tg_callbacks t = [] \<and> \<not> tg_deleted t"
  by (simp add: submit_dag_async_def AsyncDagSubmitTag_def tag_event_def ProceedImpl_def Let_def)

theorem async_result_set_once_witness:
  "length (tg_callbacks (fold tag_event [(False, GrpcOK, new_SubmitDagResponse), (True, GrpcOK, new_SubmitDagResponse)]
     (submit_dag_async True True))) = 1"
proof -
  let ?t = "fold tag_event [(False, GrpcOK, new_SubmitDagResponse), (True, GrpcOK, new_SubmitDagResponse)]
     (submit_dag_async True True)"
  have "tg_deleted ?t"
    by (simp add: submit_dag_async_def AsyncDagSubmitTag_def tag_event_def ProceedImpl_def Let_def
        SetResult_def call_back_def)
  then show ?thesis
    using async_result_set_once [of ?t, OF refl]
    by simp
qed

end
