(* ===== verification/Api_Web.thy ===== *)
theory Api_Web
  imports Dag_Builder Grpc_Client Api_Server
begin

text \<open>
  \<open>src/api-web/src/api_web.cpp\<close>: the HTTP front. A body is parsed, turned into a request with the
  modelled builder, sent with the modelled coroutine, and the answer or the exception becomes a
  status and a JSON body. The texts of the library's exceptions (\<open>V\<close>) and the conversion of a
  \<open>double\<close> to an integer (\<open>D2I\<close>) are parameters; the Chinese prefixes of the messages are given in
  English.
\<close>

section \<open>Exceptions and JSON access\<close>

datatype web_exn =
    JsonExn string
  | InvalidArgExn string
  | DtsGrpcExn string
  | RuntimeExn string
  | OtherExn string

definition web_bind :: "web_exn + 'a \<Rightarrow> ('a \<Rightarrow> web_exn + 'b) \<Rightarrow> web_exn + 'b" where
  "web_bind m f = (case m of Inl e \<Rightarrow> Inl e | Inr x \<Rightarrow> f x)"

lemma web_bind_simps [simp]: "web_bind (Inl e) f = Inl e" "web_bind (Inr x) f = f x"
  by (simp_all add: web_bind_def)

record web_lib =
  wl_json :: json_lib
  wl_what :: "json \<Rightarrow> string \<Rightarrow> string"
  wl_d2i :: "double \<Rightarrow> int"

definition json_at :: "web_lib \<Rightarrow> json \<Rightarrow> string \<Rightarrow> web_exn + json" where
  "json_at WL j key =
     (case j of
        JObject kvs \<Rightarrow>
          (case map_of kvs key of Some x \<Rightarrow> Inr x | None \<Rightarrow> Inl (JsonExn (wl_what WL j key)))
      | _ \<Rightarrow> Inl (JsonExn (wl_what WL j key)))"

definition get_string :: "web_lib \<Rightarrow> json \<Rightarrow> web_exn + string" where
  "get_string WL j = (case j of JString s \<Rightarrow> Inr s | _ \<Rightarrow> Inl (JsonExn (wl_what WL j ''string'')))"

text \<open>\<open>value(key, default)\<close> with a JSON default; a number is read as the type of the default.\<close>

definition json_or :: "web_lib \<Rightarrow> json \<Rightarrow> string \<Rightarrow> json \<Rightarrow> web_exn + json" where
  "json_or WL j key default_value =
     (case j of
        JObject kvs \<Rightarrow> (case map_of kvs key of Some x \<Rightarrow> Inr x | None \<Rightarrow> Inr default_value)
      | _ \<Rightarrow> Inl (JsonExn (wl_what WL j key)))"

text \<open>Numbers: the generic conversion takes booleans, those to \<open>double\<close> and \<open>uint64_t\<close> do not.\<close>

definition get_int :: "web_lib \<Rightarrow> json \<Rightarrow> web_exn + int" where
  "get_int WL j =
     (case j of JInt i \<Rightarrow> Inr i | JFloat d \<Rightarrow> Inr (wl_d2i WL d) | JBool b \<Rightarrow> Inr (if b then 1 else 0)
      | _ \<Rightarrow> Inl (JsonExn (wl_what WL j ''number'')))"

definition get_uint64 :: "web_lib \<Rightarrow> json \<Rightarrow> web_exn + int" where
  "get_uint64 WL j =
     (case j of JInt i \<Rightarrow> Inr i | JFloat d \<Rightarrow> Inr (wl_d2i WL d)
      | _ \<Rightarrow> Inl (JsonExn (wl_what WL j ''number'')))"

definition get_double :: "web_lib \<Rightarrow> json \<Rightarrow> web_exn + double" where
  "get_double WL j =
     (case j of JInt i \<Rightarrow> Inr (jl_i2d (wl_json WL) i) | JFloat d \<Rightarrow> Inr d
      | _ \<Rightarrow> Inl (JsonExn (wl_what WL j ''number'')))"

definition value_int :: "web_lib \<Rightarrow> json \<Rightarrow> string \<Rightarrow> int \<Rightarrow> web_exn + 32 word" where
  "value_int WL j key default_value =
     web_bind (json_or WL j key (JInt default_value)) (\<lambda>x.
     web_bind (get_int WL x) (\<lambda>i. Inr (word_of_int i)))"

text \<open>The members of a JSON value in a range-based loop.\<close>

definition json_elements :: "json \<Rightarrow> json list" where
  "json_elements j =
     (case j of JArray xs \<Rightarrow> xs | JObject kvs \<Rightarrow> map snd kvs | JNull \<Rightarrow> [] | _ \<Rightarrow> [j])"

section \<open>From a body to a request\<close>

definition get_Resource :: "web_lib \<Rightarrow> json \<Rightarrow> web_exn + Resource" where
  "get_Resource WL j =
     web_bind (json_at WL j ''cpu_core'') (\<lambda>x. web_bind (get_double WL x) (\<lambda>cpu.
     web_bind (json_at WL j ''mem_mb'') (\<lambda>y. web_bind (get_uint64 WL y) (\<lambda>mem.
       Inr \<lparr>cpu_core = cpu, mem_mb = word_of_int mem\<rparr>))))"

definition get_Shard :: "web_lib \<Rightarrow> json \<Rightarrow> web_exn + Shard" where
  "get_Shard WL j =
     web_bind (json_at WL j ''shard_id'') (\<lambda>x. web_bind (get_int WL x) (\<lambda>i.
     web_bind (json_at WL j ''total_shards'') (\<lambda>y. web_bind (get_int WL y) (\<lambda>n.
       Inr \<lparr>shard_id = word_of_int i, total_shards = word_of_int n\<rparr>))))"

definition contains_key :: "json \<Rightarrow> string \<Rightarrow> bool" where
  "contains_key j key = (case j of JObject kvs \<Rightarrow> map_of kvs key \<noteq> None | _ \<Rightarrow> False)"

definition ParseJsonToTask :: "web_lib \<Rightarrow> json \<Rightarrow> Task \<Rightarrow> web_exn + Task" where
  "ParseJsonToTask WL j_task task =
     web_bind (value_int WL j_task ''priority'' 0) (\<lambda>pr.
     web_bind (value_int WL j_task ''timeout_ms'' 30000) (\<lambda>to.
     web_bind (value_int WL j_task ''max_retry'' 3) (\<lambda>mr.
     web_bind (if contains_key j_task ''required''
               then web_bind (json_at WL j_task ''required'') (get_Resource WL)
               else Inr (t_required task)) (\<lambda>req.
     web_bind (if contains_key j_task ''shard''
               then web_bind (json_at WL j_task ''shard'') (get_Shard WL)
               else Inr (t_shard task)) (\<lambda>sh.
       Inr (task\<lparr>t_priority := pr, t_timeout_ms := to, t_max_retry := mr, t_required := req,
                 t_shard := sh\<rparr>))))))"

text \<open>The classes of the builder's exceptions.\<close>

fun of_builder :: "builder_err + 'a \<Rightarrow> web_exn + 'a" where
  "of_builder (Inr x) = Inr x"
| "of_builder (Inl (InvalidArgument m)) = Inl (InvalidArgExn m)"
| "of_builder (Inl (RuntimeError m)) = Inl (RuntimeExn m)"
| "of_builder (Inl (JsonError m)) = Inl (JsonExn m)"

text \<open>One iteration over the tasks: \<open>AddTask\<close> returns a reference that is then filled in.\<close>

definition add_task :: "web_lib \<Rightarrow> json \<Rightarrow> DagBuilder \<Rightarrow> web_exn + DagBuilder" where
  "add_task WL j_task b =
     web_bind (web_bind (json_at WL j_task ''natural_id'') (get_string WL)) (\<lambda>natural_id.
     web_bind (web_bind (json_at WL j_task ''func_name'') (get_string WL)) (\<lambda>func_name.
     web_bind (json_or WL j_task ''func_params'' JNull) (\<lambda>func_params.
     web_bind (of_builder (AddTask natural_id func_name func_params b)) (\<lambda>b1.
     web_bind (ParseJsonToTask WL j_task (the (map_of (dgb_tasks_map b1) natural_id))) (\<lambda>task.
       Inr (b1\<lparr>dgb_tasks_map := omap_put natural_id task (dgb_tasks_map b1)\<rparr>))))))"

definition add_edge :: "web_lib \<Rightarrow> json \<Rightarrow> DagBuilder \<Rightarrow> web_exn + DagBuilder" where
  "add_edge WL j_edge b =
     web_bind (web_bind (json_at WL j_edge ''parent'') (get_string WL)) (\<lambda>parent.
     web_bind (web_bind (json_at WL j_edge ''child'') (get_string WL)) (\<lambda>child.
       of_builder (AddDependency parent child b)))"

fun web_for :: "('a \<Rightarrow> 'b \<Rightarrow> web_exn + 'b) \<Rightarrow> 'a list \<Rightarrow> 'b \<Rightarrow> web_exn + 'b" where
  "web_for f [] b = Inr b"
| "web_for f (x # xs) b = web_bind (f x b) (web_for f xs)"

definition build_request :: "web_lib \<Rightarrow> string \<Rightarrow> web_exn + PbSubmitDagRequest" where
  "build_request WL body =
     web_bind (case jl_parse (wl_json WL) body of Inl e \<Rightarrow> Inl (JsonExn e) | Inr j \<Rightarrow> Inr j) (\<lambda>j_body.
     web_bind (web_bind (json_at WL j_body ''idempotency_key'') (get_string WL)) (\<lambda>idempotency_key.
     web_bind (json_at WL j_body ''tasks'') (\<lambda>j_tasks.
     web_bind (json_or WL j_body ''edges'' (JArray [])) (\<lambda>j_edges.
     web_bind (of_builder (new_DagBuilder idempotency_key)) (\<lambda>b0.
     web_bind (web_for (add_task WL) (json_elements j_tasks) b0) (\<lambda>b1.
     web_bind (web_for (add_edge WL) (json_elements j_edges) b1) (\<lambda>b2.
       case BuildProto (wl_json WL) (length (dgb_tasks_map b2)) b2 of
         None \<Rightarrow> Inl (OtherExn ''fuel'')
       | Some r \<Rightarrow> of_builder r)))))))"

section \<open>The answer\<close>

record http_response =
  hr_status :: nat
  hr_body :: string

text \<open>\<open>SetJsonError\<close>; when the message cannot be printed its exception leaves the handler.\<close>

definition SetJsonError :: "web_lib \<Rightarrow> string \<Rightarrow> nat \<Rightarrow> string + http_response" where
  "SetJsonError WL error_msg status_code =
     (case jl_dump (wl_json WL) (JObject [(''error'', JString error_msg)]) of
        Inl e \<Rightarrow> Inl e
      | Inr s \<Rightarrow> Inr \<lparr>hr_status = status_code, hr_body = s\<rparr>)"

text \<open>The \<open>catch\<close> clauses, in order.\<close>

fun web_catch :: "web_lib \<Rightarrow> web_exn \<Rightarrow> string + http_response" where
  "web_catch WL (JsonExn what) = SetJsonError WL (''invalid JSON or missing field: '' @ what) 400"
| "web_catch WL (InvalidArgExn what) = SetJsonError WL (''invalid DAG: '' @ what) 400"
| "web_catch WL (DtsGrpcExn what) = SetJsonError WL (''DAG construction or submission failed: '' @ what) 400"
| "web_catch WL (RuntimeExn what) = SetJsonError WL (''gRPC transport error: '' @ what) 503"
| "web_catch WL (OtherExn what) = SetJsonError WL (''unknown internal error: '' @ what) 500"

text \<open>What the bridge rethrows: the class \<open>dts::common::GrpcError\<close> is caught as a runtime error.\<close>

fun web_of_client :: "client_exn \<Rightarrow> web_exn" where
  "web_of_client (DtsGrpcError code msg) = DtsGrpcExn msg"
| "web_of_client (CommonGrpcError code msg) = RuntimeExn (FormatMessage code msg)"
| "web_of_client (RejectedError msg) = RuntimeExn msg"

definition response_json :: "SubmitDagResponse \<Rightarrow> json" where
  "response_json pb_resp =
     (let (error_code, msg) =
        (case response_error pb_resp of
           Some err \<Rightarrow>
             ((case re_code err of
                 CodeSys c \<Rightarrow> sys_code c
               | CodeJob c \<Rightarrow> 10000 + job_code c
               | CodeNotSet \<Rightarrow> sys_code SYS_INTERNAL), re_msg err)
         | None \<Rightarrow> (0, ''Success''))
      in JObject [(''header'', JObject [(''code'', JInt error_code), (''msg'', JString msg)]),
           (''job_id'', JString (sr_job_id pb_resp))])"

text \<open>
  \<open>handle_dag_submit\<close>. \<open>submit\<close> sends the request and gives the outcome of the coroutine; \<open>None\<close> is
  a coroutine that is never resumed, and the thread that waits for its promise never answers.
\<close>

definition handle_dag_submit ::
  "web_lib \<Rightarrow> (PbSubmitDagRequest \<Rightarrow> 's \<Rightarrow> (client_exn + SubmitDagResponse) option \<times> 's) \<Rightarrow>
   string \<Rightarrow> 's \<Rightarrow> (string + http_response) option \<times> 's" where
  "handle_dag_submit WL submit body s =
     (case build_request WL body of
        Inl e \<Rightarrow> (Some (web_catch WL e), s)
      | Inr pb_req \<Rightarrow>
          (case submit pb_req s of
             (None, s') \<Rightarrow> (None, s')
           | (Some (Inl x), s') \<Rightarrow> (Some (web_catch WL (web_of_client x)), s')
           | (Some (Inr pb_resp), s') \<Rightarrow>
               (case jl_dump (wl_json WL) (response_json pb_resp) of
                  Inl e \<Rightarrow> (Some (web_catch WL (JsonExn e)), s')
                | Inr txt \<Rightarrow> (Some (Inr \<lparr>hr_status = 200, hr_body = txt\<rparr>), s'))))"

section \<open>Plain bodies\<close>

text \<open>The body of a request with tasks (name and function) and edges, and nothing optional.\<close>

definition task_json :: "string \<times> string \<Rightarrow> json" where
  "task_json = (\<lambda>(n, f). JObject [(''func_name'', JString f), (''natural_id'', JString n)])"

definition edge_json :: "string \<times> string \<Rightarrow> json" where
  "edge_json = (\<lambda>(p, c). JObject [(''child'', JString c), (''parent'', JString p)])"

definition dag_json :: "string \<Rightarrow> (string \<times> string) list \<Rightarrow> (string \<times> string) list \<Rightarrow> json" where
  "dag_json key ts es =
     JObject [(''edges'', JArray (map edge_json es)), (''idempotency_key'', JString key),
       (''tasks'', JArray (map task_json ts))]"

definition keys_of :: "DagBuilder \<Rightarrow> string set" where
  "keys_of b = fst ` set (dgb_tasks_map b)"

lemma map_of_keys_of: "map_of (dgb_tasks_map b) n = None \<longleftrightarrow> n \<notin> keys_of b"
  by (simp add: keys_of_def map_of_eq_None_iff)

lemma builder_ok_fill:
  "builder_ok b \<Longrightarrow> n \<in> keys_of b \<Longrightarrow> t_natural_id t = n \<Longrightarrow>
   builder_ok (b\<lparr>dgb_tasks_map := omap_put n t (dgb_tasks_map b)\<rparr>)"
  unfolding builder_ok_def keys_of_def by auto

lemma add_task_plain:
  "n \<notin> keys_of b \<Longrightarrow> builder_ok b \<Longrightarrow>
   \<exists>b'. add_task WL (task_json (n, f)) b = Inr b' \<and> builder_ok b' \<and> keys_of b' = insert n (keys_of b) \<and>
     dgb_task_edges b' = dgb_task_edges b \<and> dgb_idempotency_key b' = dgb_idempotency_key b"
proof -
  assume n: "n \<notin> keys_of b" and ok: "builder_ok b"
  obtain b1 where b1: "AddTask n f JNull b = Inr b1" using n by (simp add: AddTask_def map_of_keys_of)
  have ok1: "builder_ok b1" by (rule builder_ok_AddTask [OF ok b1])
  have eq: "b1 = b\<lparr>dgb_tasks_map := omap_put n (default_Task\<lparr>t_natural_id := n, t_func_name := f, t_func_params := JNull\<rparr>) (dgb_tasks_map b)\<rparr>"
    using b1 by (simp add: AddTask_def split: if_splits)
  have k1: "keys_of b1 = insert n (keys_of b)" "dgb_task_edges b1 = dgb_task_edges b"
    "dgb_idempotency_key b1 = dgb_idempotency_key b"
    "\<exists>t. map_of (dgb_tasks_map b1) n = Some t \<and> t_natural_id t = n"
    by (simp_all add: eq keys_of_def)
  then obtain t where t: "map_of (dgb_tasks_map b1) n = Some t" "t_natural_id t = n" by blast
  obtain t' where t': "ParseJsonToTask WL (task_json (n, f)) t = Inr t'" "t_natural_id t' = n"
    using t(2) by (simp add: ParseJsonToTask_def task_json_def value_int_def json_or_def get_int_def contains_key_def)
  have "add_task WL (task_json (n, f)) b = Inr (b1\<lparr>dgb_tasks_map := omap_put n t' (dgb_tasks_map b1)\<rparr>)"
    using b1 t(1) t'(1) by (simp add: add_task_def task_json_def json_at_def get_string_def json_or_def)
  with builder_ok_fill [OF ok1 _ t'(2)] k1(1-3) show ?thesis by (auto simp: keys_of_def)
qed

lemma add_task_duplicate:
  "n \<in> keys_of b \<Longrightarrow> \<exists>m. add_task WL (task_json (n, f)) b = Inl (RuntimeExn m)"
  using map_of_keys_of [of b n]
  by (auto simp: add_task_def task_json_def json_at_def get_string_def json_or_def AddTask_def)

lemma add_tasks_plain:
  "builder_ok b \<Longrightarrow> distinct (map fst ts) \<Longrightarrow> fst ` set ts \<inter> keys_of b = {} \<Longrightarrow>
   \<exists>b'. web_for (add_task WL) (map task_json ts) b = Inr b' \<and> builder_ok b' \<and>
     keys_of b' = keys_of b \<union> fst ` set ts \<and> dgb_task_edges b' = dgb_task_edges b \<and>
     dgb_idempotency_key b' = dgb_idempotency_key b"
proof (induction ts arbitrary: b)
  case (Cons t ts)
  obtain n f where t: "t = (n, f)" by (cases t)
  obtain b1 where b1: "add_task WL (task_json (n, f)) b = Inr b1" "builder_ok b1" "keys_of b1 = insert n (keys_of b)"
      "dgb_task_edges b1 = dgb_task_edges b" "dgb_idempotency_key b1 = dgb_idempotency_key b"
    using add_task_plain [of n b WL f] Cons.prems t by auto
  with Cons.IH [of b1] Cons.prems t show ?case by fastforce
qed simp

lemma add_tasks_duplicate:
  "builder_ok b \<Longrightarrow> \<not> (distinct (map fst ts) \<and> fst ` set ts \<inter> keys_of b = {}) \<Longrightarrow>
   \<exists>m. web_for (add_task WL) (map task_json ts) b = Inl (RuntimeExn m)"
proof (induction ts arbitrary: b)
  case (Cons t ts)
  obtain n f where t: "t = (n, f)" by (cases t)
  show ?case
  proof (cases "n \<in> keys_of b")
    case True
    then show ?thesis using add_task_duplicate [of n b WL f] t by auto
  next
    case False
    obtain b1 where b1: "add_task WL (task_json (n, f)) b = Inr b1" "builder_ok b1" "keys_of b1 = insert n (keys_of b)"
      using add_task_plain [OF False Cons.prems(1)] by blast
    then have "\<not> (distinct (map fst ts) \<and> fst ` set ts \<inter> keys_of b1 = {})" using Cons.prems(2) False t by auto
    with Cons.IH [OF b1(2)] b1(1) t show ?thesis by auto
  qed
qed simp

definition edge_ok :: "DagBuilder \<Rightarrow> string \<times> string \<Rightarrow> bool" where
  "edge_ok b e \<longleftrightarrow> fst e \<noteq> snd e \<and> fst e \<in> keys_of b \<and> snd e \<in> keys_of b"

lemma add_edge_plain:
  "add_edge WL (edge_json (p, c)) b = of_builder (AddDependency p c b)"
  by (simp add: add_edge_def edge_json_def json_at_def get_string_def)

lemma AddDependency_iff:
  fixes b :: DagBuilder
  shows "(case AddDependency p c b of
      Inr b' \<Rightarrow> edge_ok b (p, c) \<and> b' = b\<lparr>dgb_task_edges := dgb_task_edges b @ [\<lparr>parent_natural_id = p, child_natural_id = c\<rparr>]\<rparr>
    | Inl e \<Rightarrow> \<not> edge_ok b (p, c) \<and> (\<exists>m. e = RuntimeError m))"
  by (simp add: AddDependency_def edge_ok_def map_of_keys_of)

lemma add_edges_plain:
  "builder_ok b \<Longrightarrow>
   (case web_for (add_edge WL) (map edge_json es) b of
      Inr b' \<Rightarrow> (\<forall>e \<in> set es. edge_ok b e) \<and> builder_ok b' \<and> dgb_tasks_map b' = dgb_tasks_map b \<and>
        dgb_idempotency_key b' = dgb_idempotency_key b \<and> edges_of (dgb_task_edges b') = edges_of (dgb_task_edges b) \<union> set es
    | Inl x \<Rightarrow> \<not> (\<forall>e \<in> set es. edge_ok b e) \<and> (\<exists>m. x = RuntimeExn m))"
proof (induction es arbitrary: b)
  case (Cons e es)
  obtain p c where e: "e = (p, c)" by (cases e)
  show ?case
  proof (cases "AddDependency p c b")
    case (Inl x)
    with AddDependency_iff [of b p c] e show ?thesis by (auto simp: add_edge_plain)
  next
    case (Inr b1)
    have ok1: "builder_ok b1" by (rule builder_ok_AddDependency [OF Cons.prems Inr])
    have b1: "edge_ok b (p, c)" "dgb_tasks_map b1 = dgb_tasks_map b" "dgb_idempotency_key b1 = dgb_idempotency_key b"
      "edges_of (dgb_task_edges b1) = insert (p, c) (edges_of (dgb_task_edges b))"
      using AddDependency_iff [of b p c] Inr by (auto simp: edges_of_def)
    then have "edge_ok b1 = edge_ok b" by (auto simp: edge_ok_def keys_of_def)
    with Cons.IH [OF ok1] b1 Inr e show ?thesis by (auto simp: add_edge_plain split: sum.splits)
  qed
qed simp

section \<open>The request of a plain body\<close>

definition valid_dag :: "(string \<times> string) list \<Rightarrow> (string \<times> string) list \<Rightarrow> bool" where
  "valid_dag ts es \<longleftrightarrow> distinct (map fst ts) \<and>
     (\<forall>(p, c) \<in> set es. p \<noteq> c \<and> p \<in> fst ` set ts \<and> c \<in> fst ` set ts) \<and> acyclic (set es)"

lemma tasks_to_proto_total:
  "(\<And>j. \<exists>s. jl_dump L j = Inr s) \<Longrightarrow> \<exists>ps. tasks_to_proto L ts = Inr ps"
proof (induction ts)
  case (Cons t ts)
  obtain s where "jl_dump L (t_func_params (snd t)) = Inr s" using Cons.prems by blast
  then have "\<exists>p. TaskToProto L (snd t) = Inr p" by (simp add: TaskToProto_def)
  with Cons show ?case by (cases t) auto
qed simp

lemma BuildProto_decides:
  assumes "builder_ok b" "\<And>j. \<exists>s. jl_dump L j = Inr s"
  shows "if acyclic (edges_of (dgb_task_edges b))
    then \<exists>ps. BuildProto L (length (dgb_tasks_map b)) b = Some (Inr \<lparr>pr_idempotency_key = dgb_idempotency_key b,
      pr_tasks = ps, pr_edges = dgb_task_edges b, pr_client_id = []\<rparr>)
    else \<exists>m. BuildProto L (length (dgb_tasks_map b)) b = Some (Inl (RuntimeError m))"
  using validate_decides [OF assms(1) refl] tasks_to_proto_total [OF assms(2), of "dgb_tasks_map b"]
  by (auto simp: BuildProto_def split: if_splits)

lemma build_request_plain:
  assumes "jl_parse (wl_json WL) body = Inr (dag_json key ts es)" "key \<noteq> []"
    and "\<And>j. \<exists>s. jl_dump (wl_json WL) j = Inr s"
  shows "if valid_dag ts es
    then \<exists>q. build_request WL body = Inr q \<and> pr_idempotency_key q = key \<and> edges_of (pr_edges q) = set es
    else \<exists>m. build_request WL body = Inl (RuntimeExn m)"
proof -
  obtain b0 where b0: "new_DagBuilder key = Inr b0" "dgb_tasks_map b0 = []" "dgb_task_edges b0 = []" "dgb_idempotency_key b0 = key"
    using assms(2) that [of "\<lparr>dgb_idempotency_key = key, dgb_tasks_map = [], dgb_task_edges = []\<rparr>"]
    by (simp add: new_DagBuilder_def)
  have ok0: "builder_ok b0" by (rule builder_ok_new [OF b0(1)])
  let ?t = "web_for (add_task WL) (map task_json ts) b0"
  have start: "build_request WL body = web_bind ?t (\<lambda>b1. web_bind (web_for (add_edge WL) (map edge_json es) b1) (\<lambda>b2.
       case BuildProto (wl_json WL) (length (dgb_tasks_map b2)) b2 of
         None \<Rightarrow> Inl (OtherExn ''fuel'') | Some r \<Rightarrow> of_builder r))"
    using assms(1) b0(1)
    by (simp add: build_request_def dag_json_def json_at_def json_or_def get_string_def json_elements_def)
  show ?thesis
  proof (cases "distinct (map fst ts)")
    case False
    then show ?thesis using add_tasks_duplicate [OF ok0, of ts WL] by (auto simp: start valid_dag_def)
  next
    case True
    obtain b1 where b1: "?t = Inr b1" "builder_ok b1" "keys_of b1 = fst ` set ts" "dgb_task_edges b1 = []" "dgb_idempotency_key b1 = key"
      using add_tasks_plain [OF ok0 True, of WL] b0 by (auto simp: keys_of_def)
    have eo: "(\<forall>e \<in> set es. edge_ok b1 e) \<longleftrightarrow> (\<forall>(p, c) \<in> set es. p \<noteq> c \<and> p \<in> fst ` set ts \<and> c \<in> fst ` set ts)"
      unfolding edge_ok_def b1(3) by (simp add: case_prod_unfold)
    note es = add_edges_plain [OF b1(2), of es WL]
    show ?thesis
    proof (cases "web_for (add_edge WL) (map edge_json es) b1")
      case (Inl x)
      with es eo b1(1) show ?thesis by (auto simp: start valid_dag_def)
    next
      case (Inr b2)
      with es b1(4,5) have b2: "\<forall>e \<in> set es. edge_ok b1 e" "builder_ok b2" "edges_of (dgb_task_edges b2) = set es" "dgb_idempotency_key b2 = key"
        by (auto simp: edges_of_def)
      have "valid_dag ts es \<longleftrightarrow> acyclic (set es)" using True eo b2(1) by (simp add: valid_dag_def)
      with BuildProto_decides [OF b2(2) assms(3)] b2(3,4) Inr b1(1) show ?thesis
        by (auto simp: start split: if_splits)
    qed
  qed
qed

section \<open>Properties\<close>

text \<open>The call to the server, delivered: the modelled handler answers, the event resumes.\<close>

definition submit_delivered ::
  "int \<Rightarrow> (nat \<Rightarrow> string) \<Rightarrow> PbSubmitDagRequest \<Rightarrow> 'r submitter \<Rightarrow>
   (client_exn + SubmitDagResponse) option \<times> 'r submitter" where
  "submit_delivered now gen q s =
     (let (resp, s') = OnSubmitDag now gen q new_SubmitDagResponse s
      in (co_submit True (Some (True, GrpcOK, resp)), s'))"

lemma submit_delivered_cases:
  "if length (ss_pending_queue (sb_submit s)) < MAX_QUEUE_SIZE
   then \<exists>resp item. fst (submit_delivered now gen q s) = Some (Inr resp) \<and>
     ss_pending_queue (sb_submit (snd (submit_delivered now gen q s))) = ss_pending_queue (sb_submit s) @ [item] \<and>
     bi_req item = q \<and> cx_job_id (bi_ctx item) = sr_job_id resp
   else fst (submit_delivered now gen q s) = Some (Inl (RejectedError ''Server Rejected: Server is busy, queue full'')) \<and>
     ss_pending_queue (sb_submit (snd (submit_delivered now gen q s))) = ss_pending_queue (sb_submit s)"
  by (auto simp: submit_delivered_def OnSubmitDag_def SafeExecute_def submit_handler_def submit_request_def
      SubmitDagAsync_def Let_def new_SubmitDagResponse_def header_of_def new_header_def queue_full_def
      new_BatchItem_def co_submit_def await_suspend_def GrpcAwaiter_def awaiter_Proceed_def await_resume_def
      response_error_def split: prod.splits if_splits)


text \<open>
  The status of a failure. Whatever the answer of the server, a call that fails in the
  transport or is rejected by the server is answered with 503; the branch of the handler that maps
  the server's error codes into a response with status 200 is never reached, because the coroutine
  has thrown before; and a coroutine whose event never comes leaves the client without an answer.
\<close>

theorem http_status_of_failures:
  assumes "build_request WL body = Inr q" and "\<And>j. \<exists>x. jl_dump (wl_json WL) j = Inr x"
    and "submit q s = (co_submit has_reader event, s')"
  shows "case event of
      None \<Rightarrow> has_reader \<longrightarrow> fst (handle_dag_submit WL submit body s) = None
    | Some (ok, st, resp) \<Rightarrow>
        (\<exists>r. fst (handle_dag_submit WL submit body s) = Some (Inr r) \<and>
           (if has_reader \<and> ok \<and> st = GrpcOK \<and> response_error resp = None
            then hr_status r = 200 \<and> jl_dump (wl_json WL) (response_json resp) = Inr (hr_body r)
            else hr_status r = 503))"
proof -
  have shown: "\<exists>r. web_catch WL (RuntimeExn m) = Inr r \<and> hr_status r = 503" for m
    using assms(2) [of "JObject [(''error'', JString (''gRPC transport error: '' @ m))]"]
    by (auto simp: SetJsonError_def)
  have fail: "\<exists>r. fst (handle_dag_submit WL submit body s) = Some (Inr r) \<and> hr_status r = 503"
    if "co_submit has_reader event = Some (Inl x)" "\<And>c m. x \<noteq> DtsGrpcError c m" for x
    using that shown assms(1,3) by (cases x) (auto simp: handle_dag_submit_def)
  show ?thesis
  proof (cases event)
    case None
    with assms(1,3) show ?thesis
      by (simp add: handle_dag_submit_def co_submit_def await_suspend_def GrpcAwaiter_def)
  next
    case (Some e)
    obtain ok st resp where e: "e = (ok, st, resp)" by (cases e) auto
    obtain out_text where out_text: "jl_dump (wl_json WL) (response_json resp) = Inr out_text" using assms(2) by blast
    show ?thesis
    proof (cases "has_reader \<and> ok \<and> st = GrpcOK \<and> response_error resp = None")
      case True
      with Some e out_text assms(1,3) show ?thesis
        by (simp add: handle_dag_submit_def co_submit_def await_suspend_def GrpcAwaiter_def awaiter_Proceed_def await_resume_def)
    next
      case False
      then have "\<exists>x. co_submit has_reader event = Some (Inl x) \<and> (\<forall>c m. x \<noteq> DtsGrpcError c m)"
        using Some e
        by (auto simp: co_submit_def await_suspend_def GrpcAwaiter_def awaiter_Proceed_def await_resume_def Let_def
            split: grpc_status.split option.split)
      with fail Some e False show ?thesis by auto
    qed
  qed
qed

text \<open>A library that parses every body to the same two tasks and prints every value.\<close>

definition demo_web :: web_lib where
  "demo_web =
     \<lparr>wl_json = \<lparr>jl_dump = (\<lambda>_. Inr ''{}''),
        jl_parse = (\<lambda>_. Inr (dag_json ''k'' [(''a'', ''f''), (''b'', ''f'')] [(''a'', ''b'')])), jl_i2d = word_of_int\<rparr>,
      wl_what = (\<lambda>_ _. []), wl_d2i = (\<lambda>_. 0)\<rparr>"

lemma demo_web_facts:
  "jl_parse (wl_json demo_web) body = Inr (dag_json ''k'' [(''a'', ''f''), (''b'', ''f'')] [(''a'', ''b'')])"
  "\<And>j. \<exists>s. jl_dump (wl_json demo_web) j = Inr s"
  "valid_dag [(''a'', ''f''), (''b'', ''f'')] [(''a'', ''b'')]"
  by (simp_all add: demo_web_def valid_dag_def acyclic_insert) (simp add: acyclic_def)


theorem http_status_of_failures_witness:
  "\<exists>r. fst (handle_dag_submit demo_web
     (\<lambda>q s. (co_submit True (Some (True, GrpcStatus ''14'' ''refused'', new_SubmitDagResponse)), s)) [] ()) = Some (Inr r) \<and>
     hr_status r = 503"
proof -
  obtain q where "build_request demo_web [] = Inr q"
    using build_request_plain [OF demo_web_facts(1) _ demo_web_facts(2)] demo_web_facts(3) by auto
  from http_status_of_failures [OF this demo_web_facts(2), where s = "()" and s' = "()" and has_reader = True
      and event = "Some (True, GrpcStatus ''14'' ''refused'', new_SubmitDagResponse)"
      and submit = "\<lambda>q s. (co_submit True (Some (True, GrpcStatus ''14'' ''refused'', new_SubmitDagResponse)), s)", OF refl]
  show ?thesis by simp
qed

end
