(* ===== verification/Pipelines.thy ===== *)
theory Pipelines
  imports Dag_Flow
begin

text \<open>
  The pipelines of \<open>AppendDagToPipeline\<close> command by command. \<open>pipe.exec()\<close> sends a pipeline that is no
  transaction (there is no \<open>MULTI\<close>): the server runs the commands of one pipeline in order, and commands
  of other clients may come between any two of them. A pipeline on its way is a list of commands
  still to run; this theory states what each command may be and in which order they come.
\<close>

section \<open>Entries by their fields\<close>

text \<open>The id an entry names, by its fields alone.\<close>

lemma parse_fields_id:
  "parse_fields fs (p\<lparr>sp_stream_id := x\<rparr>) b =
     (let (q, c) = parse_fields fs p b in (q\<lparr>sp_stream_id := x\<rparr>, c))"
proof (induction fs p b rule: parse_fields.induct)
  case (2 f v fs p b)
  have c: "(p\<lparr>sp_stream_id := x\<rparr>)\<lparr>sp_task_id := v\<rparr> = (p\<lparr>sp_task_id := v\<rparr>)\<lparr>sp_stream_id := x\<rparr>"
    "(p\<lparr>sp_stream_id := x\<rparr>)\<lparr>sp_job_id := v\<rparr> = (p\<lparr>sp_job_id := v\<rparr>)\<lparr>sp_stream_id := x\<rparr>" by simp_all
  show ?case by (simp add: c 2)
qed simp

lemma entry_task_fields: "entry_task e = entry_task ([], snd e)"
  using parse_fields_id [where fs = "snd e" and p = "\<lparr>sp_task_id = [], sp_job_id = [], sp_stream_id = []\<rparr>" and x = "fst e" and b = False]
  by (simp add: entry_task_def ParseStreamEntry_def Let_def split: prod.splits)

lemma entry_task_simps_build [simp]:
  "entry_task (i, ready_fields j t) = Some t" "entry_task (i, BuildXAddFieldsFromProto q t j) = Some t"
  by (simp_all add: ready_fields_def BuildXAddFieldsFromProto_def entry_task_def ParseStreamEntry_script
      ParseStreamEntry_ToXAddArgs [unfolded ToXAddArgs_def])

section \<open>What a command does\<close>

text \<open>
  A command \<open>links\<close> a parent to a child, stores the metadata of a task, or gives a task its place: a count
  of parents to wait for, or an entry of the stream.
\<close>

definition links :: "redis_cmd \<Rightarrow> string \<Rightarrow> string \<Rightarrow> bool" where
  "links x p c \<longleftrightarrow> x = CSAdd (Children p) c"

definition sets_meta :: "redis_cmd \<Rightarrow> string \<Rightarrow> bool" where
  "sets_meta x t \<longleftrightarrow> (case x of CSet k s n \<Rightarrow> k = TaskMeta t | _ \<Rightarrow> False)"

definition places :: "redis_cmd \<Rightarrow> string \<Rightarrow> bool" where
  "places x t \<longleftrightarrow> (case x of CHSet k f s \<Rightarrow> f = t | CXAdd k i fs \<Rightarrow> entry_task ([], fs) = Some t | _ \<Rightarrow> False)"

lemmas cmd_kinds = links_def sets_meta_def places_def

definition parents_left :: "BatchItem \<Rightarrow> string set \<Rightarrow> string \<Rightarrow> nat" where
  "parents_left item D c = remaining (set (item_edges item)) D c"

definition meta_of :: "pb_codec \<Rightarrow> BatchItem \<Rightarrow> string \<Rightarrow> string \<Rightarrow> bool" where
  "meta_of P item t x \<longleftrightarrow>
     (\<exists>q \<in> set (pr_tasks (bi_req item)). t = uuid_of item (p_natural_id q) \<and> x = pb_serialize P (internal_task (bi_ctx item) q t))"

definition cmd_of :: "pb_codec \<Rightarrow> BatchItem \<Rightarrow> redis_cmd \<Rightarrow> bool" where
  "cmd_of P item x \<longleftrightarrow>
     (case x of
        CSAdd k c \<Rightarrow> \<exists>p. k = Children p \<and> (p, c) \<in> set (item_edges item)
      | CExpire k n \<Rightarrow> True
      | CSet k s n \<Rightarrow> \<exists>t. k = TaskMeta t \<and> meta_of P item t s
      | CHSet k c s \<Rightarrow> k = DependencyHash (cx_job_id (bi_ctx item)) \<and> c \<in> set (item_ids item) \<and>
          s = int_str (int (parents_left item {} c)) \<and> 0 < parents_left item {} c
      | CXAdd k i fs \<Rightarrow> k = kTasks \<and> i = ''*'' \<and>
          (\<exists>c \<in> set (item_ids item). entry_task ([], fs) = Some c \<and> parents_left item {} c = 0))"

text \<open>
  The order: the children sets of a request come before any of its tasks gets a place, and the metadata of
  a task before its place; nothing is done twice.
\<close>

definition in_order :: "BatchItem list \<Rightarrow> redis_cmd \<Rightarrow> redis_cmd \<Rightarrow> bool" where
  "in_order items x y \<longleftrightarrow>
     (\<forall>t. (sets_meta x t \<longrightarrow> \<not> sets_meta y t) \<and>
        (places x t \<longrightarrow> \<not> places y t \<and> \<not> sets_meta y t \<and>
           (\<forall>a \<in> set items. \<forall>p c. t \<in> set (item_ids a) \<longrightarrow> p \<in> set (item_ids a) \<longrightarrow> \<not> links y p c)))"

lemma meta_of_id: "meta_of P item t s \<Longrightarrow> t \<in> set (item_ids item)"
  by (auto simp: meta_of_def item_ids_def natural_ids_def)

lemma cmd_of_ids:
  assumes "cmd_of P item x" "item_ok T item"
  shows "sets_meta x t \<Longrightarrow> t \<in> set (item_ids item)" "places x t \<Longrightarrow> t \<in> set (item_ids item)"
    "links x p c \<Longrightarrow> (p, c) \<in> set (item_edges item) \<and> p \<in> set (item_ids item) \<and> c \<in> set (item_ids item)"
  using assms(1) item_edges_sub [OF assms(2)]
  by (auto simp: cmd_of_def cmd_kinds meta_of_id split: redis_cmd.splits)

section \<open>The pipeline of one request\<close>

lemma append_edges_cmds:
  assumes "append_edges ctx es seen = Inr cmds"
  shows "(\<forall>x \<in> set cmds. (\<exists>k n. x = CExpire k n) \<or>
      (\<exists>e \<in> set es. \<exists>p c. at_uuid ctx (parent_natural_id e) = Inr p \<and> at_uuid ctx (child_natural_id e) = Inr c \<and> links x p c)) \<and>
    (\<forall>e \<in> set es. \<exists>p c. at_uuid ctx (parent_natural_id e) = Inr p \<and> at_uuid ctx (child_natural_id e) = Inr c \<and>
      (\<exists>x \<in> set cmds. links x p c))"
  using assms
proof (induction ctx es seen arbitrary: cmds rule: append_edges.induct)
  case (2 ctx e es seen)
  obtain p c where pc: "at_uuid ctx (parent_natural_id e) = Inr p" "at_uuid ctx (child_natural_id e) = Inr c"
    using "2.prems"(1) by (auto split: sum.splits)
  let ?seen = "if p \<in> set seen then seen else p # seen"
  obtain cmds' where c': "append_edges ctx es ?seen = Inr cmds'"
    and cmds: "cmds = CSAdd (Children p) c # (if p \<in> set seen then [] else [CExpire (Children p) TTL]) @ cmds'"
    using "2.prems"(1) pc by (auto simp: Let_def split: sum.splits)
  show ?case using "2.IH" [OF refl pc refl refl c'] pc unfolding cmds
    by (auto simp: links_def split: if_splits)
qed simp

definition task_cmds_ok :: "pb_codec \<Rightarrow> BatchItem \<Rightarrow> PbTask list \<Rightarrow> redis_cmd list \<Rightarrow> bool" where
  "task_cmds_ok P item ts cmds \<longleftrightarrow>
     (\<forall>x \<in> set cmds. cmd_of P item x \<and> (\<forall>p c. \<not> links x p c) \<and>
        (\<forall>u. sets_meta x u \<or> places x u \<longrightarrow> u \<in> (\<lambda>t. uuid_of item (p_natural_id t)) ` set ts)) \<and>
     (\<forall>t \<in> set ts. \<exists>x \<in> set cmds. sets_meta x (uuid_of item (p_natural_id t))) \<and>
     (\<forall>t \<in> set ts. \<exists>x \<in> set cmds. places x (uuid_of item (p_natural_id t))) \<and>
     sorted_wrt (\<lambda>x y. \<forall>t. (sets_meta x t \<longrightarrow> \<not> sets_meta y t) \<and> (places x t \<longrightarrow> \<not> places y t \<and> \<not> sets_meta y t)) cmds"

lemma append_tasks_cmds:
  assumes "append_tasks P (bi_ctx item) (dep_count (pr_edges (bi_req item))) ts = Inr cmds" "item_ok T item"
    and "set ts \<subseteq> set (pr_tasks (bi_req item))" "distinct (map (\<lambda>t. uuid_of item (p_natural_id t)) ts)"
  shows "task_cmds_ok P item ts cmds"
  using assms(1,3,4)
proof (induction ts arbitrary: cmds)
  case (Cons t ts)
  let ?u = "uuid_of item (p_natural_id t)" and ?n = "dep_count (pr_edges (bi_req item)) (p_natural_id t)"
  have t: "t \<in> set (pr_tasks (bi_req item))" using Cons.prems(2) by simp
  then have id: "p_natural_id t \<in> set (natural_ids (bi_req item))" by (simp add: natural_ids_def)
  note at = at_uuid_ok [OF assms(2) id]
  obtain cmds' where c': "append_tasks P (bi_ctx item) (dep_count (pr_edges (bi_req item))) ts = Inr cmds'"
    and cmds: "cmds = CSet (TaskMeta ?u) (pb_serialize P (internal_task (bi_ctx item) t ?u)) TTL #
        (if ?n > 0 then CHSet (DependencyHash (cx_job_id (bi_ctx item))) ?u (int_str ?n)
         else CXAdd kTasks ''*'' (BuildXAddFieldsFromProto t ?u (cx_job_id (bi_ctx item)))) # cmds'"
    using Cons.prems(1) at by (auto simp: Let_def split: sum.splits)
  have IH: "task_cmds_ok P item ts cmds'" using Cons.IH [OF c'] Cons.prems(2,3) by simp
  have mem: "?u \<in> set (item_ids item)" using id by (simp add: item_ids_def)
  have n: "?n = int (parents_left item {} ?u)" using dep_count_remaining [OF assms(2) t] by (simp add: parents_left_def)
  have m: "meta_of P item ?u (pb_serialize P (internal_task (bi_ctx item) t ?u))"
    unfolding meta_of_def using t by (intro bexI [of _ t]) simp_all
  have new: "?u \<notin> (\<lambda>t. uuid_of item (p_natural_id t)) ` set ts" using Cons.prems(3) by simp
  let ?x = "CSet (TaskMeta ?u) (pb_serialize P (internal_task (bi_ctx item) t ?u)) TTL"
  let ?y = "if ?n > 0 then CHSet (DependencyHash (cx_job_id (bi_ctx item))) ?u (int_str ?n)
         else CXAdd kTasks ''*'' (BuildXAddFieldsFromProto t ?u (cx_job_id (bi_ctx item)))"
  have x: "cmd_of P item ?x" "sets_meta ?x v \<longleftrightarrow> v = ?u" "\<not> places ?x v" "\<not> links ?x p c" for v p c
    using m by (auto simp: cmd_of_def cmd_kinds)
  have y: "cmd_of P item ?y" "\<not> sets_meta ?y v" "places ?y v \<longleftrightarrow> v = ?u" "\<not> links ?y p c" for v p c
    using mem n by (auto simp: cmd_of_def cmd_kinds)
  show ?case
    using IH new unfolding cmds task_cmds_ok_def sorted_wrt.simps list.set
    by (simp add: x y) blast
qed (simp add: task_cmds_ok_def)

definition pipe_ok :: "pb_codec \<Rightarrow> BatchItem list \<Rightarrow> redis_cmd list \<Rightarrow> bool" where
  "pipe_ok P items cmds \<longleftrightarrow> (\<forall>x \<in> set cmds. \<exists>a \<in> set items. cmd_of P a x) \<and> sorted_wrt (in_order items) cmds"

definition pipe_complete :: "BatchItem list \<Rightarrow> redis_cmd list \<Rightarrow> bool" where
  "pipe_complete items cmds \<longleftrightarrow>
     (\<forall>a \<in> set items. (\<forall>c \<in> set (item_ids a). (\<exists>x \<in> set cmds. sets_meta x c) \<and> (\<exists>x \<in> set cmds. places x c)) \<and>
        (\<forall>(p, c) \<in> set (item_edges a). \<exists>x \<in> set cmds. links x p c))"

lemma item_pipe:
  assumes "AppendDagToPipeline P (bi_req item) (bi_ctx item) = Inr cmds" "item_ok T item"
  shows "pipe_ok P [item] cmds \<and> pipe_complete [item] cmds"
proof -
  let ?ctx = "bi_ctx item" and ?es = "pr_edges (bi_req item)" and ?ts = "pr_tasks (bi_req item)"
  have job: "cx_job_id ?ctx \<noteq> []" using assms(2) by (simp add: item_ok_def)
  then obtain c1 c2 c3 where c: "append_edges ?ctx ?es [] = Inr c1" "append_tasks P ?ctx (dep_count ?es) ?ts = Inr c2"
    "cmds = c1 @ c2 @ c3" "\<forall>x \<in> set c3. \<exists>k n. x = CExpire k n" "sorted_wrt (in_order [item]) c3"
    using assms(1) by (auto simp: AppendDagToPipeline_def split: sum.splits if_splits)
  have at: "at_uuid ?ctx (parent_natural_id e) = Inr (uuid_of item (parent_natural_id e))"
    "at_uuid ?ctx (child_natural_id e) = Inr (uuid_of item (child_natural_id e))" if "e \<in> set ?es" for e
    using at_uuid_ok [OF assms(2)] assms(2) that by (auto simp: item_ok_def req_ok_def)
  have e: "\<forall>x \<in> set c1. (\<exists>k n. x = CExpire k n) \<or> (\<exists>(p, c) \<in> set (item_edges item). links x p c)"
    "\<forall>(p, c) \<in> set (item_edges item). \<exists>x \<in> set c1. links x p c"
    using append_edges_cmds [OF c(1)] at by (fastforce simp: item_edges_def)+
  have "distinct (map (\<lambda>t. uuid_of item (p_natural_id t)) ?ts)"
    using assms(2) by (simp add: item_ok_def item_ids_def natural_ids_def comp_def)
  from append_tasks_cmds [OF c(2) assms(2) subset_refl this] have t: "task_cmds_ok P item ?ts c2" .
  have mem: "\<forall>x \<in> set cmds. cmd_of P item x"
    using e(1) t c(4) unfolding c(3) by (auto simp: task_cmds_ok_def cmd_of_def links_def)
  have e0: "\<not> sets_meta x v" "\<not> places x v" if "x \<in> set c1 \<or> x \<in> set c3" for x v
    using that e(1) c(4) by (auto simp: cmd_kinds)
  have l0: "\<not> links y p c" if "y \<in> set c2 \<or> y \<in> set c3" for y p c
    using that t c(4) by (auto simp: task_cmds_ok_def links_def)
  have "sorted_wrt (in_order [item]) c1"
    by (rule sorted_wrt_mono_rel [of _ "\<lambda>_ _. True"]) (auto simp: in_order_def e0 sorted_wrt_iff_nth_less)
  moreover have "sorted_wrt (in_order [item]) c2"
    by (rule sorted_wrt_mono_rel [of _ "\<lambda>x y. \<forall>t. (sets_meta x t \<longrightarrow> \<not> sets_meta y t) \<and> (places x t \<longrightarrow> \<not> places y t \<and> \<not> sets_meta y t)"])
      (use t in \<open>auto simp: in_order_def task_cmds_ok_def l0\<close>)
  ultimately have "sorted_wrt (in_order [item]) cmds"
    using c(5) unfolding c(3) by (simp add: sorted_wrt_append in_order_def e0 l0 ball_Un)
  moreover have "pipe_complete [item] cmds"
    using e(2) t unfolding c(3) pipe_complete_def
    by (auto simp: task_cmds_ok_def item_ids_def natural_ids_def)
  ultimately show ?thesis using mem by (simp add: pipe_ok_def)
qed

section \<open>The pipeline of a batch\<close>

lemma in_order_apart:
  assumes "cmd_of P a x" "cmd_of P b y" "apart a b" "item_ok T a" "item_ok T b"
    and "\<forall>d \<in> set items. \<forall>e \<in> set items. d \<noteq> e \<longrightarrow> apart d e" "a \<in> set items" "b \<in> set items"
  shows "in_order items x y"
proof -
  have "t \<notin> set (item_ids b)" if "t \<in> set (item_ids a)" for t using assms(3) that by (auto simp: apart_def)
  moreover have "p \<notin> set (item_ids d)" if "t \<in> set (item_ids a)" "d \<in> set items" "t \<in> set (item_ids d)" "p \<in> set (item_ids b)" for t d p
  proof -
    have "d = a" using assms(6,7) that(1-3) by (force simp: apart_def)
    with assms(3) that(4) show ?thesis by (auto simp: apart_def)
  qed
  ultimately show ?thesis
    using cmd_of_ids [OF assms(1,4)] cmd_of_ids [OF assms(2,5)] unfolding in_order_def by meson
qed

lemma in_order_super:
  assumes "in_order batch x y" "cmd_of P a x" "item_ok T a" "a \<in> set batch" "\<forall>d \<in> set items. d \<noteq> a \<longrightarrow> apart d a"
  shows "in_order items x y"
proof -
  have "d = a" if "places x t" "d \<in> set items" "t \<in> set (item_ids d)" for t d
    using cmd_of_ids(2) [OF assms(2,3) that(1)] assms(5) that(2,3) by (auto simp: apart_def)
  with assms(1,4) show ?thesis unfolding in_order_def by metis
qed

lemma batch_pipe_in:
  assumes "append_items P batch = Inr cmds" "\<forall>a \<in> set batch. item_ok T a" "set batch \<subseteq> set items" "distinct batch"
    and "\<forall>d \<in> set items. \<forall>e \<in> set items. d \<noteq> e \<longrightarrow> apart d e"
  shows "(\<forall>x \<in> set cmds. \<exists>a \<in> set batch. cmd_of P a x) \<and> sorted_wrt (in_order items) cmds \<and> pipe_complete batch cmds"
  using assms(1-4)
proof (induction batch arbitrary: cmds)
  case (Cons a batch)
  then obtain c1 c2 where c: "AppendDagToPipeline P (bi_req a) (bi_ctx a) = Inr c1" "append_items P batch = Inr c2" "cmds = c1 @ c2"
    by (auto split: sum.splits)
  have a: "item_ok T a" "a \<in> set items" "a \<notin> set batch" using Cons.prems(2-4) by auto
  have 1: "\<forall>x \<in> set c1. cmd_of P a x" "sorted_wrt (in_order [a]) c1" "pipe_complete [a] c1"
    using item_pipe [OF c(1) a(1)] by (auto simp: pipe_ok_def)
  have 2: "\<forall>x \<in> set c2. \<exists>b \<in> set batch. cmd_of P b x" "sorted_wrt (in_order items) c2" "pipe_complete batch c2"
    using Cons.IH [OF c(2)] Cons.prems(2-4) by auto
  have "sorted_wrt (in_order items) c1"
    by (rule sorted_wrt_mono_rel [OF _ 1(2)]) (use in_order_super [of "[a]" _ _ P a] 1(1) a assms(5) in auto)
  moreover have "in_order items x y" if x: "x \<in> set c1" and y: "y \<in> set c2" for x y
  proof -
    obtain b where b: "b \<in> set batch" "cmd_of P b y" using 2(1) y by blast
    then have ib: "item_ok T b" "b \<in> set items" "a \<noteq> b" using Cons.prems(2,3) a(3) by auto
    then have "apart a b" using a(2) assms(5) by blast
    with ib(1,2) in_order_apart [of P a x b y] 1(1) x b a assms(5) show ?thesis by blast
  qed
  moreover have "pipe_complete (a # batch) cmds"
    using 1(3) 2(3) unfolding c(3) pipe_complete_def by (fastforce simp: split_beta)
  ultimately show ?case using 1(1) 2 unfolding c(3) by (auto simp: sorted_wrt_append)
qed (simp add: pipe_complete_def)

lemma batch_apart_distinct: "batch_apart items \<Longrightarrow> distinct items"
  by (auto simp: batch_apart_def distinct_map)

lemma batch_pipe:
  assumes "append_items P batch = Inr cmds" "\<forall>a \<in> set batch. item_ok T a" "batch_apart batch"
  shows "pipe_ok P batch cmds" "pipe_complete batch cmds"
  using batch_pipe_in [OF assms(1,2) subset_refl batch_apart_distinct [OF assms(3)]] batch_apart_mem [OF assms(3)]
  by (auto simp: pipe_ok_def)

section \<open>The pipelines on their way\<close>

text \<open>A batch and the commands of its pipeline that have not run yet.\<close>

type_synonym pipe = "BatchItem list \<times> redis_cmd list"

definition pending :: "pipe list \<Rightarrow> redis_cmd set" where
  "pending pipes = (\<Union>p \<in> set pipes. set (snd p))"

definition pipes_ok :: "pb_codec \<Rightarrow> BatchItem list \<Rightarrow> pipe list \<Rightarrow> bool" where
  "pipes_ok P items pipes \<longleftrightarrow> concat (map fst pipes) = items \<and> (\<forall>p \<in> set pipes. pipe_ok P (fst p) (snd p))"

lemma pending_head: "pending (ps @ (b, x # cs) # qs) = insert x (pending (ps @ (b, cs) # qs))"
  by (auto simp: pending_def)

lemma pending_snoc [simp]: "pending [] = {}" "pending (ps @ [(b, cs)]) = pending ps \<union> set cs"
  by (auto simp: pending_def)

lemma pipes_ok_snoc: "pipes_ok P items ps \<Longrightarrow> pipe_ok P b cs \<Longrightarrow> pipes_ok P (items @ b) (ps @ [(b, cs)])"
  by (auto simp: pipes_ok_def)

lemma pipes_ok_head: "pipes_ok P items (ps @ (b, x # cs) # qs) \<Longrightarrow> pipes_ok P items (ps @ (b, cs) # qs)"
  by (auto simp: pipes_ok_def pipe_ok_def)

lemma pending_cmd:
  assumes "pipes_ok P items pipes" "x \<in> pending pipes"
  shows "\<exists>a \<in> set items. cmd_of P a x"
  using assms by (fastforce simp: pipes_ok_def pending_def pipe_ok_def)

text \<open>Whatever is still to run comes after the first command of any pipeline.\<close>

lemma head_first:
  assumes ok: "pipes_ok P items (ps @ (b, x # cs) # qs)" and items: "\<forall>a \<in> set items. item_ok T a" "batch_apart items"
    and y: "y \<in> pending (ps @ (b, cs) # qs)"
  shows "in_order items x y"
proof -
  have ap: "\<forall>d \<in> set items. \<forall>e \<in> set items. d \<noteq> e \<longrightarrow> apart d e" using batch_apart_mem [OF items(2)] by blast
  have d: "distinct (concat (map fst ps) @ b @ concat (map fst qs))" and i: "items = concat (map fst ps) @ b @ concat (map fst qs)"
    using batch_apart_distinct [OF items(2)] ok by (simp_all add: pipes_ok_def)
  obtain a where a: "a \<in> set b" "cmd_of P a x" using ok by (auto simp: pipes_ok_def pipe_ok_def)
  then have a': "a \<in> set items" "item_ok T a" using i items(1) by auto
  consider "y \<in> set cs" | p where "p \<in> set ps \<union> set qs" "y \<in> set (snd p)" using y by (auto simp: pending_def)
  then show ?thesis
  proof cases
    case 1
    then have "in_order b x y" using ok by (auto simp: pipes_ok_def pipe_ok_def)
    from in_order_super [OF this a(2) a'(2) a(1)] ap a'(1) show ?thesis by blast
  next
    case 2
    have "pipe_ok P (fst p) (snd p)" using ok 2(1) by (auto simp: pipes_ok_def)
    then obtain e where e: "e \<in> set (fst p)" "cmd_of P e y" using 2(2) by (auto simp: pipe_ok_def)
    then have ie: "e \<in> set items" "e \<noteq> a" using 2(1) a(1) d i by auto
    from in_order_apart [OF a(2) e(2) ap [rule_format, OF a'(1) ie(1) ie(2) [symmetric]] a'(2) bspec [OF items(1) ie(1)] ap a'(1) ie(1)] show ?thesis .
  qed
qed

end
