(* ===== verification/Job_Keys.thy ===== *)
theory Job_Keys
  imports Pipelines Complete_Task
begin

text \<open>
  What the keys of Redis mean while pipelines are on their way, completions come between their commands
  and keys expire. \<open>keys_ok\<close> holds at all times: a count is never below the number of parents that are not
  done unless it has become negative, and every entry of the stream names a task whose parents are done.
  \<open>exact_ok\<close> says where the counts are right: in a job none of whose tasks was reported before its counts
  were laid out, and whose keys have not expired.
\<close>

section \<open>The keys of all jobs\<close>

definition jobs_of :: "BatchItem list \<Rightarrow> string set" where
  "jobs_of items = (\<lambda>a. cx_job_id (bi_ctx a)) ` set items"

definition ids_of :: "BatchItem list \<Rightarrow> string set" where
  "ids_of items = (\<Union>a \<in> set items. set (item_ids a))"

abbreviation counts_of :: "BatchItem \<Rightarrow> string" where
  "counts_of a \<equiv> DependencyHash (cx_job_id (bi_ctx a))"

text \<open>A task is released when it belongs to a request and its parents are done.\<close>

definition released :: "BatchItem list \<Rightarrow> string list \<Rightarrow> string \<Rightarrow> bool" where
  "released items dn t \<longleftrightarrow>
     (\<exists>item \<in> set items. t \<in> set (item_ids item) \<and> (\<forall>p. (p, t) \<in> set (item_edges item) \<longrightarrow> p \<in> set dn))"

text \<open>The tasks the stream names.\<close>

definition emitted :: "keyspace \<Rightarrow> string set" where
  "emitted v = {t. \<exists>e \<in> set (stream_at v kTasks). entry_task e = Some t}"

definition others_absent :: "BatchItem list \<Rightarrow> keyspace \<Rightarrow> bool" where
  "others_absent items v \<longleftrightarrow> (\<forall>j. j \<notin> jobs_of items \<longrightarrow> v (DependencyHash j) = None) \<and>
     (\<forall>p. p \<notin> ids_of items \<longrightarrow> v (Children p) = None \<and> v (TaskMeta p) = None)"

definition requests_ok :: "pg_types \<Rightarrow> pb_codec \<Rightarrow> BatchItem list \<Rightarrow> pipe list \<Rightarrow> bool" where
  "requests_ok T P items pipes \<longleftrightarrow> (\<forall>a \<in> set items. item_ok T a) \<and> batch_apart items \<and> pipes_ok P items pipes"

definition streams_ok :: "BatchItem list \<Rightarrow> string list \<Rightarrow> keyspace \<Rightarrow> bool" where
  "streams_ok items dn v \<longleftrightarrow> is_stream v kTasks \<and> is_stream v kErrors \<and> set dn \<subseteq> emitted v \<and>
     (\<forall>e \<in> set (stream_at v kTasks). \<exists>t. entry_task e = Some t \<and> released items dn t)"

definition count_ok :: "BatchItem \<Rightarrow> string set \<Rightarrow> string \<Rightarrow> int \<Rightarrow> bool" where
  "count_ok a D c n \<longleftrightarrow> (n < 0 \<or> int (parents_left a D c) \<le> n) \<and>
     int (parents_left a D c) - int (parents_left a {} c) \<le> n \<and> n \<le> int (parents_left a {} c)"

definition hash_ok :: "BatchItem \<Rightarrow> string set \<Rightarrow> keyspace \<Rightarrow> bool" where
  "hash_ok a D v \<longleftrightarrow> is_hash v (counts_of a) \<and>
     (\<forall>c. hash_at v (counts_of a) c = None \<or> (\<exists>n. hash_at v (counts_of a) c = Some (int_str n) \<and> count_ok a D c n))"

definition set_ok :: "BatchItem \<Rightarrow> string set \<Rightarrow> keyspace \<Rightarrow> bool" where
  "set_ok a D v \<longleftrightarrow> (\<forall>p \<in> set (item_ids a). is_set v (Children p) \<and>
     set_at v (Children p) \<subseteq> children (set (item_edges a)) p \<and> (p \<in> D \<longrightarrow> set_at v (Children p) = {}))"

definition meta_ok :: "pb_codec \<Rightarrow> BatchItem \<Rightarrow> redis_cmd set \<Rightarrow> string set \<Rightarrow> keyspace \<Rightarrow> bool" where
  "meta_ok P a Y ex v \<longleftrightarrow> (\<forall>t \<in> set (item_ids a).
     (v (TaskMeta t) = None \<or> (\<exists>x. v (TaskMeta t) = Some (RStr x) \<and> meta_of P a t x)) \<and>
     (v (TaskMeta t) \<noteq> None \<or> TaskMeta t \<in> ex \<or> (\<exists>y \<in> Y. sets_meta y t)) \<and>
     (\<forall>y \<in> Y. sets_meta y t \<longrightarrow> v (TaskMeta t) = None \<and> t \<notin> emitted v \<and> (\<exists>z \<in> Y. places z t)))"

definition links_first :: "BatchItem \<Rightarrow> redis_cmd set \<Rightarrow> keyspace \<Rightarrow> bool" where
  "links_first a Y v \<longleftrightarrow> (\<forall>t \<in> set (item_ids a) \<inter> emitted v. \<forall>p \<in> set (item_ids a). \<forall>c. \<forall>y \<in> Y. \<not> links y p c)"

definition job_ok :: "pb_codec \<Rightarrow> BatchItem \<Rightarrow> string set \<Rightarrow> redis_cmd set \<Rightarrow> string set \<Rightarrow> keyspace \<Rightarrow> bool" where
  "job_ok P a D Y ex v \<longleftrightarrow> hash_ok a D v \<and> set_ok a D v \<and> meta_ok P a Y ex v \<and> links_first a Y v"

definition keys_ok ::
  "pg_types \<Rightarrow> pb_codec \<Rightarrow> BatchItem list \<Rightarrow> pipe list \<Rightarrow> string list \<Rightarrow> string set \<Rightarrow> keyspace \<Rightarrow> bool" where
  "keys_ok T P items pipes dn ex v \<longleftrightarrow>
     requests_ok T P items pipes \<and> others_absent items v \<and> streams_ok items dn v \<and>
     (\<forall>a \<in> set items. job_ok P a (set dn) (pending pipes) ex v)"

text \<open>Where the counts are right.\<close>

definition counts_pending :: "redis_cmd set \<Rightarrow> string \<Rightarrow> bool" where
  "counts_pending Y job \<longleftrightarrow> (\<exists>y \<in> Y. case y of CHSet k f s \<Rightarrow> k = DependencyHash job | _ \<Rightarrow> False)"

lemma counts_pending_iff: "counts_pending Y job \<longleftrightarrow> (\<exists>f s. CHSet (DependencyHash job) f s \<in> Y)"
proof
  assume "counts_pending Y job"
  then obtain y where "y \<in> Y" "case y of CHSet k f s \<Rightarrow> k = DependencyHash job | _ \<Rightarrow> False"
    unfolding counts_pending_def by blast
  then show "\<exists>f s. CHSet (DependencyHash job) f s \<in> Y" by (cases y) auto
next
  assume "\<exists>f s. CHSet (DependencyHash job) f s \<in> Y"
  then obtain f s where "CHSet (DependencyHash job) f s \<in> Y" by blast
  then show "counts_pending Y job"
    unfolding counts_pending_def by (intro bexI [of _ "CHSet (DependencyHash job) f s"]) simp_all
qed

definition unexpired :: "BatchItem \<Rightarrow> string set \<Rightarrow> string \<Rightarrow> bool" where
  "unexpired a ex c \<longleftrightarrow> counts_of a \<notin> ex \<and> TaskMeta c \<notin> ex \<and> (\<forall>p. (p, c) \<in> set (item_edges a) \<longrightarrow> Children p \<notin> ex)"

definition place_exact :: "BatchItem \<Rightarrow> string set \<Rightarrow> redis_cmd set \<Rightarrow> keyspace \<Rightarrow> string \<Rightarrow> bool" where
  "place_exact a D Y v c \<longleftrightarrow> (\<exists>y \<in> Y. places y c) \<or>
     (if parents_left a D c = 0 then c \<in> emitted v
      else hash_at v (counts_of a) c = Some (int_str (int (parents_left a D c))))"

definition links_exact :: "BatchItem \<Rightarrow> string set \<Rightarrow> redis_cmd set \<Rightarrow> keyspace \<Rightarrow> string \<Rightarrow> bool" where
  "links_exact a D Y v c \<longleftrightarrow> (\<forall>p. (p, c) \<in> set (item_edges a) \<longrightarrow> p \<notin> D \<longrightarrow>
     c \<in> set_at v (Children p) \<or> (\<exists>y \<in> Y. links y p c))"

definition exact_ok ::
  "BatchItem list \<Rightarrow> redis_cmd set \<Rightarrow> string set \<Rightarrow> string set \<Rightarrow> string set \<Rightarrow> keyspace \<Rightarrow> bool" where
  "exact_ok items Y D ex early v \<longleftrightarrow> (\<forall>a \<in> set items. cx_job_id (bi_ctx a) \<notin> early \<longrightarrow>
     (counts_pending Y (cx_job_id (bi_ctx a)) \<longrightarrow> D \<inter> set (item_ids a) = {}) \<and>
     (\<forall>c \<in> set (item_ids a). unexpired a ex c \<longrightarrow> place_exact a D Y v c \<and> links_exact a D Y v c))"

lemmas job_parts = hash_ok_def set_ok_def meta_ok_def links_first_def

lemma released_mono: "released items dn t \<Longrightarrow> set dn \<subseteq> set dn' \<Longrightarrow> set items \<subseteq> set items' \<Longrightarrow> released items' dn' t"
  unfolding released_def by blast

lemma parents_left_0: "parents_left a D c = 0 \<longleftrightarrow> (\<forall>p. (p, c) \<in> set (item_edges a) \<longrightarrow> p \<in> D)"
  by (simp add: parents_left_def remaining_0_iff)

lemma parents_left_le: "parents_left a D c \<le> parents_left a {} c"
proof -
  have "finite {p. (p, c) \<in> set (item_edges a)}" using finite_parents [of "set (item_edges a)" c "\<lambda>_. True"] by simp
  then show ?thesis unfolding parents_left_def remaining_def by (intro card_mono) auto
qed

lemma emitted_stream: "stream_at v' kTasks = stream_at v kTasks \<Longrightarrow> emitted v' = emitted v"
  by (simp add: emitted_def)

lemma emitted_add:
  "v' = v(kTasks \<mapsto> RStream (stream_at v kTasks @ [(i, fs)])) \<Longrightarrow> entry_task ([], fs) = Some t \<Longrightarrow> emitted v' = insert t (emitted v)"
  using entry_task_fields [of "(i, fs)"] by (auto simp: emitted_def)

lemma emitted_ids: "streams_ok items dn v \<Longrightarrow> emitted v \<subseteq> ids_of items"
  by (fastforce simp: streams_ok_def emitted_def released_def ids_of_def)

lemma keys_ok_empty: "keys_ok T P [] [] [] ex (\<lambda>_. None)"
  by (simp add: keys_ok_def requests_ok_def pipes_ok_def batch_apart_def others_absent_def streams_ok_def is_stream_def stream_at_def)

lemma exact_ok_empty: "exact_ok [] Y D ex early v"
  by (simp add: exact_ok_def)

lemma item_same: "requests_ok T P items pipes \<Longrightarrow> a \<in> set items \<Longrightarrow> b \<in> set items \<Longrightarrow> a = b \<or> apart a b"
  using batch_apart_mem by (auto simp: requests_ok_def)

section \<open>A request more\<close>

lemma touches_batch:
  assumes "pipe_ok P batch cmds" "\<forall>a \<in> set batch. item_ok T a" "y \<in> set cmds"
  shows "sets_meta y t \<Longrightarrow> t \<in> ids_of batch" "places y t \<Longrightarrow> t \<in> ids_of batch" "links y p c \<Longrightarrow> p \<in> ids_of batch"
    "y = CHSet (DependencyHash j) f s \<Longrightarrow> j \<in> jobs_of batch"
proof -
  obtain a where a: "a \<in> set batch" "cmd_of P a y" "item_ok T a" using assms by (auto simp: pipe_ok_def)
  show "sets_meta y t \<Longrightarrow> t \<in> ids_of batch" "places y t \<Longrightarrow> t \<in> ids_of batch" "links y p c \<Longrightarrow> p \<in> ids_of batch"
    using cmd_of_ids [OF a(2,3)] a(1) unfolding ids_of_def by blast+
  show "y = CHSet (DependencyHash j) f s \<Longrightarrow> j \<in> jobs_of batch" using a(1,2) by (auto simp: cmd_of_def jobs_of_def)
qed

lemma batch_new:
  assumes "batch_apart (items @ batch)"
  shows "ids_of items \<inter> ids_of batch = {}" "jobs_of items \<inter> jobs_of batch = {}"
  using assms by (auto simp: batch_apart_def ids_of_def jobs_of_def)

lemma meta_ok_Un:
  "meta_ok P a Y ex v \<Longrightarrow> \<forall>y \<in> Y'. \<forall>t \<in> set (item_ids a). \<not> sets_meta y t \<Longrightarrow> meta_ok P a (Y \<union> Y') ex v"
  unfolding meta_ok_def by blast

lemma links_first_Un:
  "links_first a Y v \<Longrightarrow> \<forall>y \<in> Y'. \<forall>p \<in> set (item_ids a). \<forall>c. \<not> links y p c \<Longrightarrow> links_first a (Y \<union> Y') v"
  unfolding links_first_def by blast

lemma keys_ok_submit:
  assumes ok: "keys_ok T P items pipes dn ex v"
    and b: "\<forall>a \<in> set batch. item_ok T a" "batch_apart (items @ batch)" "append_items P batch = Inr cmds"
  shows "keys_ok T P (items @ batch) (pipes @ [(batch, cmds)]) dn ex v"
proof -
  have ap: "batch_apart batch" using b(2) by (auto simp: batch_apart_def)
  note pipe = batch_pipe [OF b(3,1) ap] and new = batch_new [OF b(2)]
  note tb = touches_batch [OF pipe(1) b(1)]
  have r: "requests_ok T P (items @ batch) (pipes @ [(batch, cmds)])"
    using ok b(1,2) pipes_ok_snoc [OF _ pipe(1)] by (auto simp: keys_ok_def requests_ok_def)
  have s: "streams_ok items dn v" and o: "others_absent items v" using ok by (simp_all add: keys_ok_def)
  have sub: "emitted v \<subseteq> ids_of items" by (rule emitted_ids [OF s])
  have dn: "set dn \<subseteq> ids_of items" using s sub by (auto simp: streams_ok_def)
  have "streams_ok (items @ batch) dn v"
    using s released_mono [of items dn _ dn "items @ batch"] by (fastforce simp: streams_ok_def)
  moreover have "others_absent (items @ batch) v" using o by (auto simp: others_absent_def jobs_of_def ids_of_def)
  moreover have "job_ok P a (set dn) (pending pipes \<union> set cmds) ex v" if a: "a \<in> set items" for a
  proof -
    have ids: "set (item_ids a) \<inter> ids_of batch = {}" using a new(1) by (auto simp: ids_of_def)
    have j: "job_ok P a (set dn) (pending pipes) ex v" using ok a by (simp add: keys_ok_def)
    have "meta_ok P a (pending pipes \<union> set cmds) ex v"
      by (rule meta_ok_Un) (use j tb(1) ids in \<open>auto simp: job_ok_def\<close>)
    moreover have "links_first a (pending pipes \<union> set cmds) v"
      by (rule links_first_Un) (use j tb(3) ids in \<open>auto simp: job_ok_def\<close>)
    ultimately show ?thesis using j by (simp add: job_ok_def)
  qed
  moreover have "job_ok P a (set dn) (pending pipes \<union> set cmds) ex v" if a: "a \<in> set batch" for a
  proof -
    have ids: "set (item_ids a) \<inter> ids_of items = {}" "cx_job_id (bi_ctx a) \<notin> jobs_of items"
      using a new by (auto simp: ids_of_def jobs_of_def)
    have none: "v (counts_of a) = None" "p \<in> set (item_ids a) \<Longrightarrow> v (Children p) = None \<and> v (TaskMeta p) = None" for p
      using o ids by (auto simp: others_absent_def)
    have "hash_ok a (set dn) v" using none(1) by (simp add: hash_ok_def is_hash_def hash_at_def)
    moreover have "set_ok a (set dn) v" using none(2) by (simp add: set_ok_def is_set_def set_at_def)
    moreover have "meta_ok P a (pending pipes \<union> set cmds) ex v"
      using none(2) pipe(2) a ids sub unfolding meta_ok_def pipe_complete_def by blast
    moreover have "links_first a (pending pipes \<union> set cmds) v" using ids sub by (auto simp: links_first_def)
    ultimately show ?thesis by (simp add: job_ok_def)
  qed
  ultimately show ?thesis using r by (auto simp: keys_ok_def)
qed

lemma exact_ok_submit:
  assumes ok: "keys_ok T P items pipes dn ex v" "exact_ok items (pending pipes) (set dn) ex early v"
    and b: "\<forall>a \<in> set batch. item_ok T a" "batch_apart (items @ batch)" "append_items P batch = Inr cmds"
  shows "exact_ok (items @ batch) (pending (pipes @ [(batch, cmds)])) (set dn) ex early v"
proof -
  have ap: "batch_apart batch" using b(2) by (auto simp: batch_apart_def)
  note pipe = batch_pipe [OF b(3,1) ap] and new = batch_new [OF b(2)]
  note tb = touches_batch [OF pipe(1) b(1)]
  have dn: "set dn \<subseteq> ids_of items" using ok(1) emitted_ids [of items dn v] by (auto simp: keys_ok_def streams_ok_def)
  have "(counts_pending (pending pipes \<union> set cmds) (cx_job_id (bi_ctx a)) \<longrightarrow> set dn \<inter> set (item_ids a) = {}) \<and>
     (\<forall>c \<in> set (item_ids a). unexpired a ex c \<longrightarrow> place_exact a (set dn) (pending pipes \<union> set cmds) v c \<and>
        links_exact a (set dn) (pending pipes \<union> set cmds) v c)"
    if a: "a \<in> set items" "cx_job_id (bi_ctx a) \<notin> early" for a
  proof -
    have "cx_job_id (bi_ctx a) \<notin> jobs_of batch" using a new(2) by (auto simp: jobs_of_def)
    then have "counts_pending (pending pipes \<union> set cmds) (cx_job_id (bi_ctx a)) = counts_pending (pending pipes) (cx_job_id (bi_ctx a))"
      using tb(4) unfolding counts_pending_iff by blast
    with ok(2) a show ?thesis unfolding exact_ok_def place_exact_def links_exact_def by (metis (no_types, lifting) Un_iff)
  qed
  moreover have "set dn \<inter> set (item_ids a) = {} \<and>
     (\<forall>c \<in> set (item_ids a). place_exact a (set dn) (pending pipes \<union> set cmds) v c \<and>
        links_exact a (set dn) (pending pipes \<union> set cmds) v c)"
    if a: "a \<in> set batch" for a
  proof -
    have "set dn \<inter> set (item_ids a) = {}" using a new(1) dn by (auto simp: ids_of_def)
    moreover have "\<exists>y \<in> set cmds. places y c" if "c \<in> set (item_ids a)" for c
      using pipe(2) a that by (auto simp: pipe_complete_def)
    moreover have "\<exists>y \<in> set cmds. links y p c" if "(p, c) \<in> set (item_edges a)" for p c
      using pipe(2) a that by (fastforce simp: pipe_complete_def)
    ultimately show ?thesis unfolding place_exact_def links_exact_def by blast
  qed
  ultimately show ?thesis by (auto simp: exact_ok_def)
qed

section \<open>A command of a pipeline\<close>

lemma hash_ok_cong: "v' (counts_of a) = v (counts_of a) \<Longrightarrow> hash_ok a D v \<Longrightarrow> hash_ok a D v'"
  by (simp add: hash_ok_def is_hash_def hash_at_def)

lemma set_ok_cong: "\<forall>p \<in> set (item_ids a). v' (Children p) = v (Children p) \<Longrightarrow> set_ok a D v \<Longrightarrow> set_ok a D v'"
  by (simp add: set_ok_def is_set_def set_at_def)

lemma links_first_less: "links_first a Y v \<Longrightarrow> Y' \<subseteq> Y \<Longrightarrow> emitted v' \<subseteq> emitted v \<Longrightarrow> links_first a Y' v'"
  unfolding links_first_def by blast

lemma streams_ok_cong:
  "stream_at v' kTasks = stream_at v kTasks \<Longrightarrow> is_stream v' kTasks \<Longrightarrow> is_stream v' kErrors \<Longrightarrow>
   streams_ok items dn v \<Longrightarrow> streams_ok items dn v'"
  by (simp add: streams_ok_def emitted_def)

lemma others_absent_upd:
  "others_absent items v \<Longrightarrow> k \<in> DependencyHash ` jobs_of items \<union> Children ` ids_of items \<union> TaskMeta ` ids_of items \<union> {kTasks, kErrors} \<or> x = None \<Longrightarrow>
   others_absent items (v(k := x))"
  by (auto simp: others_absent_def)

text \<open>The first command of a pipeline, what it belongs to, and the commands after it.\<close>

lemma head_facts:
  assumes "keys_ok T P items (ps @ (b, x # cs) # qs) dn ex v"
  obtains a Y where "a \<in> set items" "cmd_of P a x" "item_ok T a" "Y = pending (ps @ (b, cs) # qs)"
    "pending (ps @ (b, x # cs) # qs) = insert x Y" "\<forall>y \<in> Y. in_order items x y"
    "requests_ok T P items (ps @ (b, cs) # qs)" "others_absent items v" "streams_ok items dn v"
    "\<forall>a \<in> set items. job_ok P a (set dn) (insert x Y) ex v"
proof -
  let ?Y = "pending (ps @ (b, cs) # qs)"
  have r: "requests_ok T P items (ps @ (b, x # cs) # qs)" using assms by (simp add: keys_ok_def)
  then have p: "pipes_ok P items (ps @ (b, x # cs) # qs)" "\<forall>a \<in> set items. item_ok T a" "batch_apart items"
    by (simp_all add: requests_ok_def)
  obtain a where a: "a \<in> set items" "cmd_of P a x" using pending_cmd [OF p(1), of x] by (auto simp: pending_head)
  show thesis
    by (rule that [OF a _ refl pending_head])
      (use assms a p head_first [OF p] pipes_ok_head [OF p(1)] in \<open>auto simp: keys_ok_def requests_ok_def pending_head\<close>)
qed

text \<open>A command that links no parent, stores no metadata and places no task may be left out.\<close>

lemma job_ok_idle:
  assumes "job_ok P a D (insert x Y) ex v" "\<And>t. \<not> sets_meta x t" "\<And>t. \<not> places x t"
  shows "job_ok P a D Y ex v"
  using assms unfolding job_ok_def meta_ok_def links_first_def by blast

lemma keys_ok_expire_cmd:
  assumes "keys_ok T P items (ps @ (b, CExpire k n # cs) # qs) dn ex v"
  shows "keys_ok T P items (ps @ (b, cs) # qs) dn ex v"
proof -
  obtain a Y where h: "Y = pending (ps @ (b, cs) # qs)" "requests_ok T P items (ps @ (b, cs) # qs)" "others_absent items v"
    "streams_ok items dn v" "\<forall>a \<in> set items. job_ok P a (set dn) (insert (CExpire k n) Y) ex v"
    by (rule head_facts [OF assms])
  then show ?thesis using job_ok_idle [where x = "CExpire k n"] by (auto simp: keys_ok_def sets_meta_def places_def)
qed

lemma keys_ok_sadd_cmd:
  assumes "keys_ok T P items (ps @ (b, CSAdd (Children p) c # cs) # qs) dn ex v"
    and v': "v' = v(Children p \<mapsto> RSet (insert c (set_at v (Children p))))"
  shows "keys_ok T P items (ps @ (b, cs) # qs) dn ex v'"
proof -
  let ?x = "CSAdd (Children p) c"
  obtain a Y where h: "a \<in> set items" "cmd_of P a ?x" "item_ok T a" "Y = pending (ps @ (b, cs) # qs)"
    "requests_ok T P items (ps @ (b, cs) # qs)" "others_absent items v" "streams_ok items dn v"
    "\<forall>a \<in> set items. job_ok P a (set dn) (insert ?x Y) ex v"
    by (rule head_facts [OF assms(1)])
  have l: "links ?x p c" by (simp add: links_def)
  note e = cmd_of_ids(3) [OF h(2,3) l]
  have "p \<notin> set dn"
  proof
    assume "p \<in> set dn"
    then have "p \<in> emitted v" using h(7) by (auto simp: streams_ok_def)
    with h(1,8) e l show False by (auto simp: job_ok_def links_first_def)
  qed
  have em: "emitted v' = emitted v" by (rule emitted_stream) (simp add: v')
  have "job_ok P d (set dn) Y ex v'" if d: "d \<in> set items" for d
  proof -
    have j: "job_ok P d (set dn) Y ex v"
      using job_ok_idle [where x = ?x] h(8) d by (auto simp: sets_meta_def places_def)
    have "set_ok d (set dn) v'"
      unfolding set_ok_def
    proof
      fix q assume q: "q \<in> set (item_ids d)"
      show "is_set v' (Children q) \<and> set_at v' (Children q) \<subseteq> children (set (item_edges d)) q \<and>
         (q \<in> set dn \<longrightarrow> set_at v' (Children q) = {})"
      proof (cases "q = p")
        case True
        then have "d = a" using item_same [OF h(5) d h(1)] e q by (auto simp: apart_def)
        with True e q j \<open>p \<notin> set dn\<close> show ?thesis by (auto simp: job_ok_def set_ok_def v' children_def)
      next
        case False
        with j q show ?thesis by (simp add: job_ok_def set_ok_def v')
      qed
    qed
    moreover have "hash_ok d (set dn) v'" using j by (intro hash_ok_cong [of v' d v]) (simp_all add: v' job_ok_def)
    moreover have "meta_ok P d Y ex v'" using j by (simp add: job_ok_def meta_ok_def em) (simp add: v')
    ultimately show ?thesis using j em by (simp add: job_ok_def links_first_def)
  qed
  moreover have "others_absent items v'"
    unfolding v' by (rule others_absent_upd [OF h(6)]) (use e h(1) in \<open>auto simp: ids_of_def\<close>)
  moreover have "streams_ok items dn v'"
    by (rule streams_ok_cong [OF _ _ _ h(7)]) (use h(7) in \<open>simp_all add: v' streams_ok_def\<close>)
  ultimately show ?thesis using h(4,5) by (simp add: keys_ok_def)
qed

lemma keys_ok_set_cmd:
  assumes "keys_ok T P items (ps @ (b, CSet (TaskMeta t) s n # cs) # qs) dn ex v" and v': "v' = v(TaskMeta t \<mapsto> RStr s)"
  shows "keys_ok T P items (ps @ (b, cs) # qs) dn ex v'"
proof -
  let ?x = "CSet (TaskMeta t) s n"
  obtain a Y where h: "a \<in> set items" "cmd_of P a ?x" "item_ok T a" "Y = pending (ps @ (b, cs) # qs)"
    "\<forall>y \<in> Y. in_order items ?x y" "requests_ok T P items (ps @ (b, cs) # qs)" "others_absent items v" "streams_ok items dn v"
    "\<forall>a \<in> set items. job_ok P a (set dn) (insert ?x Y) ex v"
    by (rule head_facts [OF assms(1)])
  have x: "sets_meta ?x u \<longleftrightarrow> u = t" "\<not> places ?x u" "\<not> links ?x p c" for u p c by (auto simp: cmd_kinds)
  have m: "meta_of P a t s" using h(2) by (simp add: cmd_of_def)
  then have t: "t \<in> set (item_ids a)" by (rule meta_of_id)
  have no: "\<not> sets_meta y t" if "y \<in> Y" for y using h(5) that x(1) unfolding in_order_def by blast
  have em: "emitted v' = emitted v" by (rule emitted_stream) (simp add: v')
  have "job_ok P d (set dn) Y ex v'" if d: "d \<in> set items" for d
  proof -
    have j: "job_ok P d (set dn) (insert ?x Y) ex v" using h(9) d by blast
    have "meta_ok P d Y ex v'"
      unfolding meta_ok_def
    proof
      fix u assume u: "u \<in> set (item_ids d)"
      show "(v' (TaskMeta u) = None \<or> (\<exists>x. v' (TaskMeta u) = Some (RStr x) \<and> meta_of P d u x)) \<and>
         (v' (TaskMeta u) \<noteq> None \<or> TaskMeta u \<in> ex \<or> (\<exists>y \<in> Y. sets_meta y u)) \<and>
         (\<forall>y \<in> Y. sets_meta y u \<longrightarrow> v' (TaskMeta u) = None \<and> u \<notin> emitted v' \<and> (\<exists>z \<in> Y. places z u))"
      proof (cases "u = t")
        case True
        then have "d = a" using item_same [OF h(6) d h(1)] t u by (auto simp: apart_def)
        with True m no show ?thesis by (simp add: v')
      next
        case False
        then have "v' (TaskMeta u) = v (TaskMeta u)" by (simp add: v')
        with False j u show ?thesis unfolding job_ok_def meta_ok_def by (auto simp: x em)
      qed
    qed
    moreover have "hash_ok d (set dn) v'" using j by (intro hash_ok_cong [of v' d v]) (simp_all add: v' job_ok_def)
    moreover have "set_ok d (set dn) v'" using j by (intro set_ok_cong [of d v' v]) (simp_all add: v' job_ok_def)
    moreover have "links_first d Y v'"
      using j em links_first_less [of d "insert ?x Y" v Y v'] unfolding job_ok_def by blast
    ultimately show ?thesis by (simp add: job_ok_def)
  qed
  moreover have "others_absent items v'"
    unfolding v' by (rule others_absent_upd [OF h(7)]) (use t h(1) in \<open>auto simp: ids_of_def\<close>)
  moreover have "streams_ok items dn v'"
    by (rule streams_ok_cong [OF _ _ _ h(8)]) (use h(8) in \<open>simp_all add: v' streams_ok_def\<close>)
  ultimately show ?thesis using h(4,6) by (simp add: keys_ok_def)
qed

text \<open>A command that places a task: no command after it stores its metadata.\<close>

lemma meta_ok_placed:
  assumes "meta_ok P d (insert x Y) ex v" "\<And>u. \<not> sets_meta x u" "\<forall>y \<in> Y. in_order items x y"
    and "\<And>u. v' (TaskMeta u) = v (TaskMeta u)" "emitted v' \<subseteq> emitted v \<union> {u. places x u}"
  shows "meta_ok P d Y ex v'"
  using assms unfolding meta_ok_def in_order_def by simp blast

lemma keys_ok_hset_cmd:
  assumes "keys_ok T P items (ps @ (b, CHSet k c s # cs) # qs) dn ex v"
    and v': "v' = v(k \<mapsto> RHash ((hash_at v k)(c \<mapsto> s)))"
  shows "keys_ok T P items (ps @ (b, cs) # qs) dn ex v'"
proof -
  let ?x = "CHSet k c s"
  obtain a Y where h: "a \<in> set items" "cmd_of P a ?x" "item_ok T a" "Y = pending (ps @ (b, cs) # qs)"
    "\<forall>y \<in> Y. in_order items ?x y" "requests_ok T P items (ps @ (b, cs) # qs)" "others_absent items v" "streams_ok items dn v"
    "\<forall>a \<in> set items. job_ok P a (set dn) (insert ?x Y) ex v"
    by (rule head_facts [OF assms(1)])
  have k: "k = counts_of a" and c: "s = int_str (int (parents_left a {} c))"
    using h(2) by (simp_all add: cmd_of_def)
  have em: "emitted v' = emitted v" by (rule emitted_stream) (simp add: v' k)
  have "job_ok P d (set dn) Y ex v'" if d: "d \<in> set items" for d
  proof -
    have j: "job_ok P d (set dn) (insert ?x Y) ex v" using h(9) d by blast
    have "meta_ok P d Y ex v'"
      by (rule meta_ok_placed [where x = ?x and items = items])
        (use j h(5) em in \<open>auto simp: job_ok_def sets_meta_def v' k\<close>)
    moreover have "hash_ok d (set dn) v'"
    proof (cases "d = a")
      case True
      then have "hash_at v' (counts_of d) f = (if f = c then Some s else hash_at v (counts_of d) f)" for f by (simp add: v' k)
      with True j show ?thesis
        using parents_left_le [of a "set dn" c] by (simp add: job_ok_def hash_ok_def v' k) (simp add: count_ok_def c)
    next
      case False
      then have "counts_of d \<noteq> k" using item_same [OF h(6) d h(1)] by (auto simp: k apart_def)
      then show ?thesis using j by (intro hash_ok_cong [of v' d v]) (simp_all add: v' job_ok_def)
    qed
    moreover have "set_ok d (set dn) v'" using j by (intro set_ok_cong [of d v' v]) (simp_all add: v' k job_ok_def)
    moreover have "links_first d Y v'"
      using j em links_first_less [of d "insert ?x Y" v Y v'] unfolding job_ok_def by blast
    ultimately show ?thesis by (simp add: job_ok_def)
  qed
  moreover have "others_absent items v'"
    unfolding v' by (rule others_absent_upd [OF h(7)]) (use h(1) in \<open>auto simp: k jobs_of_def\<close>)
  moreover have "streams_ok items dn v'"
    by (rule streams_ok_cong [OF _ _ _ h(8)]) (use h(8) in \<open>simp_all add: v' k streams_ok_def\<close>)
  ultimately show ?thesis using h(4,6) by (simp add: keys_ok_def)
qed

text \<open>One more entry on the stream.\<close>

lemma streams_ok_add:
  assumes "streams_ok items dn v" "v' = v(kTasks \<mapsto> RStream (stream_at v kTasks @ [(i, fs)]))"
    and "entry_task ([], fs) = Some t" "released items dn t"
  shows "streams_ok items dn v'"
proof -
  have "emitted v' = insert t (emitted v)" by (rule emitted_add [OF assms(2,3)])
  moreover have "entry_task (i, fs) = Some t" using entry_task_fields [of "(i, fs)"] assms(3) by simp
  ultimately show ?thesis using assms(1,4) by (auto simp: streams_ok_def assms(2))
qed

lemma keys_ok_xadd_cmd:
  assumes "keys_ok T P items (ps @ (b, CXAdd k i0 fs # cs) # qs) dn ex v"
    and v': "v' = v(k \<mapsto> RStream (stream_at v k @ [(i, fs)]))"
  shows "keys_ok T P items (ps @ (b, cs) # qs) dn ex v'"
proof -
  let ?x = "CXAdd k i0 fs"
  obtain a Y where h: "a \<in> set items" "cmd_of P a ?x" "item_ok T a" "Y = pending (ps @ (b, cs) # qs)"
    "\<forall>y \<in> Y. in_order items ?x y" "requests_ok T P items (ps @ (b, cs) # qs)" "others_absent items v" "streams_ok items dn v"
    "\<forall>a \<in> set items. job_ok P a (set dn) (insert ?x Y) ex v"
    by (rule head_facts [OF assms(1)])
  obtain t where k: "k = kTasks" and t: "t \<in> set (item_ids a)" "entry_task ([], fs) = Some t" "parents_left a {} t = 0"
    using h(2) by (auto simp: cmd_of_def)
  have x: "places ?x u \<longleftrightarrow> u = t" "\<not> sets_meta ?x u" for u using t(2) by (auto simp: cmd_kinds)
  have v: "v' = v(kTasks \<mapsto> RStream (stream_at v kTasks @ [(i, fs)]))" by (simp add: v' k)
  have em: "emitted v' = insert t (emitted v)" by (rule emitted_add [OF v t(2)])
  have "job_ok P d (set dn) Y ex v'" if d: "d \<in> set items" for d
  proof -
    have j: "job_ok P d (set dn) (insert ?x Y) ex v" using h(9) d by blast
    have "meta_ok P d Y ex v'"
      by (rule meta_ok_placed [where x = ?x and items = items]) (use j h(5) em x in \<open>auto simp: job_ok_def v\<close>)
    moreover have "hash_ok d (set dn) v'" using j by (intro hash_ok_cong [of v' d v]) (simp_all add: v job_ok_def)
    moreover have "set_ok d (set dn) v'" using j by (intro set_ok_cong [of d v' v]) (simp_all add: v job_ok_def)
    moreover have "links_first d Y v'"
      unfolding links_first_def
    proof (intro ballI allI)
      fix u p c y assume u: "u \<in> set (item_ids d) \<inter> emitted v'" "p \<in> set (item_ids d)" "y \<in> Y"
      show "\<not> links y p c"
      proof (cases "u = t")
        case True
        then show ?thesis using h(5) u x(1) [of t] d unfolding in_order_def by blast
      next
        case False
        then show ?thesis using j u em unfolding job_ok_def links_first_def by blast
      qed
    qed
    ultimately show ?thesis by (simp add: job_ok_def)
  qed
  moreover have "others_absent items v'" unfolding v by (rule others_absent_upd [OF h(7)]) simp
  moreover have "streams_ok items dn v'"
    by (rule streams_ok_add [OF h(8) v t(2)]) (use t(1,3) h(1) in \<open>auto simp: released_def parents_left_0\<close>)
  ultimately show ?thesis using h(4,6) by (simp add: keys_ok_def)
qed

text \<open>The counts that are right stay right.\<close>

lemma exact_ok_head:
  assumes ok: "exact_ok items (insert x Y) D ex early v"
    and placed: "\<And>d c. d \<in> set items \<Longrightarrow> c \<in> set (item_ids d) \<Longrightarrow> places x c \<Longrightarrow>
       (counts_pending (insert x Y) (cx_job_id (bi_ctx d)) \<longrightarrow> D \<inter> set (item_ids d) = {}) \<Longrightarrow>
       (if parents_left d D c = 0 then c \<in> emitted v' else hash_at v' (counts_of d) c = Some (int_str (int (parents_left d D c))))"
    and "emitted v \<subseteq> emitted v'"
    and other: "\<And>d c. d \<in> set items \<Longrightarrow> c \<in> set (item_ids d) \<Longrightarrow> \<not> places x c \<Longrightarrow>
       hash_at v' (counts_of d) c = hash_at v (counts_of d) c"
    and sets: "\<And>p c. links x p c \<Longrightarrow> c \<in> set_at v' (Children p)" "\<And>p. set_at v (Children p) \<subseteq> set_at v' (Children p)"
  shows "exact_ok items Y D ex early v'"
  unfolding exact_ok_def
proof (intro ballI impI conjI)
  fix d assume d: "d \<in> set items" "cx_job_id (bi_ctx d) \<notin> early"
  have cp: "counts_pending (insert x Y) (cx_job_id (bi_ctx d)) \<longrightarrow> D \<inter> set (item_ids d) = {}"
    using ok d by (auto simp: exact_ok_def)
  then show "D \<inter> set (item_ids d) = {}" if "counts_pending Y (cx_job_id (bi_ctx d))"
    using that by (auto simp: counts_pending_iff)
  fix c assume c: "c \<in> set (item_ids d)" "unexpired d ex c"
  then have old: "place_exact d D (insert x Y) v c" "links_exact d D (insert x Y) v c" using ok d by (auto simp: exact_ok_def)
  show "links_exact d D Y v' c" using old(2) sets unfolding links_exact_def by blast
  show "place_exact d D Y v' c"
  proof (cases "places x c")
    case True
    then show ?thesis using placed [OF d(1) c(1) True cp] by (simp add: place_exact_def)
  next
    case False
    with old(1) assms(3) other [OF d(1) c(1) False] show ?thesis by (auto simp: place_exact_def split: if_splits)
  qed
qed

lemma exact_ok_expire_cmd:
  "exact_ok items (insert (CExpire k n) Y) D ex early v \<Longrightarrow> exact_ok items Y D ex early v"
  by (rule exact_ok_head) (auto simp: cmd_kinds)

lemma exact_ok_sadd_cmd:
  assumes "exact_ok items (insert (CSAdd (Children p) c) Y) D ex early v"
    and v': "v' = v(Children p \<mapsto> RSet (insert c (set_at v (Children p))))"
  shows "exact_ok items Y D ex early v'"
proof (rule exact_ok_head [OF assms(1)])
  show "set_at v (Children q) \<subseteq> set_at v' (Children q)" for q by (cases "q = p") (auto simp: v')
  have "emitted v' = emitted v" by (rule emitted_stream) (simp add: v')
  then show "emitted v \<subseteq> emitted v'" by simp
qed (auto simp: cmd_kinds v')

lemma exact_ok_set_cmd:
  assumes "exact_ok items (insert (CSet (TaskMeta t) s n) Y) D ex early v" and v': "v' = v(TaskMeta t \<mapsto> RStr s)"
  shows "exact_ok items Y D ex early v'"
proof (rule exact_ok_head [OF assms(1)])
  have "emitted v' = emitted v" by (rule emitted_stream) (simp add: v')
  then show "emitted v \<subseteq> emitted v'" by simp
qed (auto simp: cmd_kinds v')

lemma parents_left_none: "item_ok T a \<Longrightarrow> D \<inter> set (item_ids a) = {} \<Longrightarrow> parents_left a D c = parents_left a {} c"
  unfolding parents_left_def remaining_def using item_edges_sub [of T a] by (intro arg_cong [where f = card]) auto

lemma exact_ok_hset_cmd:
  assumes ok: "exact_ok items (insert (CHSet k c s) Y) D ex early v" and v': "v' = v(k \<mapsto> RHash ((hash_at v k)(c \<mapsto> s)))"
    and a: "a \<in> set items" "cmd_of P a (CHSet k c s)" and items: "\<forall>a \<in> set items. item_ok T a" "batch_apart items"
  shows "exact_ok items Y D ex early v'"
proof -
  have k: "k = counts_of a" and c: "c \<in> set (item_ids a)" "s = int_str (int (parents_left a {} c))" "0 < parents_left a {} c"
    using a(2) by (simp_all add: cmd_of_def)
  have mine: "d = a" if "d \<in> set items" "c \<in> set (item_ids d)" for d
    using batch_apart_mem [OF items(2) that(1) a(1)] that(2) c(1) by (auto simp: apart_def)
  show ?thesis
  proof (rule exact_ok_head [OF ok])
    fix d u
    assume d: "d \<in> set items" "u \<in> set (item_ids d)" "places (CHSet k c s) u"
      and p: "counts_pending (insert (CHSet k c s) Y) (cx_job_id (bi_ctx d)) \<longrightarrow> D \<inter> set (item_ids d) = {}"
    have "u = c" "d = a" using d mine [OF d(1)] by (auto simp: places_def)
    moreover have "counts_pending (insert (CHSet k c s) Y) (cx_job_id (bi_ctx a))" by (auto simp: counts_pending_iff k)
    ultimately show "if parents_left d D u = 0 then u \<in> emitted v'
        else hash_at v' (counts_of d) u = Some (int_str (int (parents_left d D u)))"
      using p parents_left_none [of T a D c] items(1) a(1) c by (simp add: v' k)
  next
    fix d u assume "d \<in> set items" "u \<in> set (item_ids d)" "\<not> places (CHSet k c s) u"
    then show "hash_at v' (counts_of d) u = hash_at v (counts_of d) u"
      by (cases "counts_of d = k") (auto simp: v' places_def)
  next
    have "emitted v' = emitted v" by (rule emitted_stream) (simp add: v' k)
    then show "emitted v \<subseteq> emitted v'" by simp
  qed (auto simp: links_def v' k)
qed

lemma exact_ok_xadd_cmd:
  assumes ok: "exact_ok items (insert (CXAdd k i0 fs) Y) D ex early v" and v': "v' = v(k \<mapsto> RStream (stream_at v k @ [(i, fs)]))"
    and a: "a \<in> set items" "cmd_of P a (CXAdd k i0 fs)" and items: "batch_apart items"
  shows "exact_ok items Y D ex early v'"
proof -
  obtain t where k: "k = kTasks" and t: "t \<in> set (item_ids a)" "entry_task ([], fs) = Some t" "parents_left a {} t = 0"
    using a(2) by (auto simp: cmd_of_def)
  have em: "emitted v' = insert t (emitted v)" by (rule emitted_add [OF _ t(2)]) (simp add: v' k)
  have mine: "d = a" if "d \<in> set items" "t \<in> set (item_ids d)" for d
    using batch_apart_mem [OF items that(1) a(1)] that(2) t(1) by (auto simp: apart_def)
  show ?thesis
  proof (rule exact_ok_head [OF ok])
    fix d u assume d: "d \<in> set items" "u \<in> set (item_ids d)" "places (CXAdd k i0 fs) u"
    then have "u = t" "d = a" using mine [OF d(1)] t(2) by (auto simp: places_def)
    with t(3) parents_left_le [of a D t] em show "if parents_left d D u = 0 then u \<in> emitted v'
        else hash_at v' (counts_of d) u = Some (int_str (int (parents_left d D u)))" by simp
  next
    show "emitted v \<subseteq> emitted v'" using em by blast
  qed (auto simp: links_def v' k)
qed

section \<open>A key that expires\<close>

definition may_expire :: "string \<Rightarrow> bool" where
  "may_expire k \<longleftrightarrow> k \<in> range TaskMeta \<union> range Children \<union> range DependencyHash"

lemma may_expire_streams: "may_expire k \<Longrightarrow> k \<noteq> kTasks \<and> k \<noteq> kErrors"
  by (auto simp: may_expire_def)

lemma keys_ok_expired:
  assumes ok: "keys_ok T P items pipes dn ex v" and k: "may_expire k"
  shows "keys_ok T P items pipes dn (insert k ex) (v(k := None))"
proof -
  let ?v = "v(k := None)"
  note ks = may_expire_streams [OF k]
  have em: "emitted ?v = emitted v" by (rule emitted_stream) (use ks in simp)
  have "job_ok P a (set dn) (pending pipes) (insert k ex) ?v" if a: "a \<in> set items" for a
  proof -
    have j: "job_ok P a (set dn) (pending pipes) ex v" using ok a by (simp add: keys_ok_def)
    have "hash_ok a (set dn) ?v"
      using j by (cases "counts_of a = k") (auto simp: job_ok_def hash_ok_def is_hash_def hash_at_def)
    moreover have "set_ok a (set dn) ?v"
      unfolding set_ok_def
    proof
      fix p assume p: "p \<in> set (item_ids a)"
      show "is_set ?v (Children p) \<and> set_at ?v (Children p) \<subseteq> children (set (item_edges a)) p \<and>
         (p \<in> set dn \<longrightarrow> set_at ?v (Children p) = {})"
        using j p by (cases "Children p = k") (auto simp: job_ok_def set_ok_def)
    qed
    moreover have "meta_ok P a (pending pipes) (insert k ex) ?v"
      using j em unfolding job_ok_def meta_ok_def by auto
    ultimately show ?thesis using j em by (simp add: job_ok_def links_first_def)
  qed
  moreover have "others_absent items ?v" using ok by (auto simp: keys_ok_def others_absent_def)
  moreover have "streams_ok items dn ?v"
    by (rule streams_ok_cong [of ?v v]) (use ok ks in \<open>auto simp: keys_ok_def streams_ok_def is_stream_def\<close>)
  ultimately show ?thesis using ok by (simp add: keys_ok_def)
qed

lemma exact_ok_expired:
  assumes ok: "exact_ok items Y D ex early v" and k: "may_expire k"
  shows "exact_ok items Y D (insert k ex) early (v(k := None))"
proof -
  let ?v = "v(k := None)"
  have em: "emitted ?v = emitted v" by (rule emitted_stream) (use may_expire_streams [OF k] in simp)
  have same: "j \<noteq> k \<Longrightarrow> set_at ?v j = set_at v j \<and> hash_at ?v j = hash_at v j" for j by (simp add: set_at_def hash_at_def)
  have "place_exact a D Y ?v c \<and> links_exact a D Y ?v c"
    if "place_exact a D Y v c" "links_exact a D Y v c" "unexpired a (insert k ex) c" for a c
  proof
    have "counts_of a \<noteq> k" using that(3) by (auto simp: unexpired_def)
    with same em that(1) show "place_exact a D Y ?v c" unfolding place_exact_def by metis
    show "links_exact a D Y ?v c"
      unfolding links_exact_def
    proof (intro allI impI)
      fix p assume p: "(p, c) \<in> set (item_edges a)" "p \<notin> D"
      then have "Children p \<noteq> k" using that(3) by (auto simp: unexpired_def)
      with same p that(2) show "c \<in> set_at ?v (Children p) \<or> (\<exists>y \<in> Y. links y p c)" unfolding links_exact_def by metis
    qed
  qed
  moreover have "unexpired a ex c" if "unexpired a (insert k ex) c" for a c using that by (auto simp: unexpired_def)
  ultimately show ?thesis using ok unfolding exact_ok_def by blast
qed

section \<open>A retry\<close>

lemma job_ok_again:
  assumes "job_ok P a D Y ex v" "v' = v(kTasks \<mapsto> x)" "emitted v' = emitted v"
  shows "job_ok P a D Y ex v'"
proof -
  have "hash_ok a D v'" using assms(1) by (intro hash_ok_cong [of v' a v]) (simp_all add: assms(2) job_ok_def)
  moreover have "set_ok a D v'" using assms(1) by (intro set_ok_cong [of a v' v]) (simp_all add: assms(2) job_ok_def)
  moreover have "meta_ok P a Y ex v'" using assms(1) by (simp add: job_ok_def meta_ok_def assms(3)) (simp add: assms(2))
  ultimately show ?thesis using assms(1,3) by (simp add: job_ok_def links_first_def)
qed

lemma keys_ok_again:
  assumes ok: "keys_ok T P items pipes dn ex v" and t: "entry_task ([], fs) = Some t" "t \<in> emitted v"
    and v': "v' = v(kTasks \<mapsto> RStream (stream_at v kTasks @ [(i, fs)]))"
  shows "keys_ok T P items pipes dn ex v'"
proof -
  have em: "emitted v' = emitted v" using emitted_add [OF v' t(1)] t(2) by auto
  have "released items dn t" using ok t(2) by (auto simp: keys_ok_def streams_ok_def emitted_def)
  then have "streams_ok items dn v'" using streams_ok_add [OF _ v' t(1)] ok by (simp add: keys_ok_def)
  moreover have "others_absent items v'" unfolding v' by (rule others_absent_upd) (use ok in \<open>simp_all add: keys_ok_def\<close>)
  moreover have "job_ok P a (set dn) (pending pipes) ex v'" if "a \<in> set items" for a
    by (rule job_ok_again [OF _ v' em]) (use ok that in \<open>simp add: keys_ok_def\<close>)
  ultimately show ?thesis using ok by (simp add: keys_ok_def)
qed

lemma exact_ok_again:
  assumes "exact_ok items Y D ex early v" "entry_task ([], fs) = Some t" "t \<in> emitted v"
    and v': "v' = v(kTasks \<mapsto> RStream (stream_at v kTasks @ [(i, fs)]))"
  shows "exact_ok items Y D ex early v'"
proof -
  have "emitted v' = emitted v" using emitted_add [OF v' assms(2)] assms(3) by auto
  then have "place_exact a D Y v' c = place_exact a D Y v c" "links_exact a D Y v' c = links_exact a D Y v c" for a c
    by (simp_all add: place_exact_def links_exact_def) (simp_all add: v')
  then show ?thesis using assms(1) by (simp add: exact_ok_def)
qed

end
