(* ===== verification/Key_Invariant.thy ===== *)
theory Key_Invariant
  imports Job_Keys Dag_Run
begin

text \<open>
  What a completion does to the keys of \<open>Job_Keys\<close>, and the invariant of the keys as a whole: every
  command of a pipeline, every run of the completion script, every retry and every key that expires keeps
  it. \<open>orphan\<close> describes a task that no step will ever put on the stream.
\<close>

section \<open>A task that is done\<close>

lemma left_insert:
  "(t, c) \<in> set (item_edges a) \<Longrightarrow> t \<notin> D \<Longrightarrow> parents_left a D c = Suc (parents_left a (insert t D) c)"
  "(t, c) \<notin> set (item_edges a) \<or> t \<in> D \<Longrightarrow> parents_left a (insert t D) c = parents_left a D c"
  by (simp_all add: parents_left_def remaining_insert_child remaining_insert_other)

lemma left_insert_le: "parents_left a (insert t D) c \<le> parents_left a D c"
  by (cases "(t, c) \<in> set (item_edges a) \<and> t \<notin> D") (use left_insert [of t c a D] in auto)

lemma count_ok_insert: "count_ok a D c n \<Longrightarrow> count_ok a (insert t D) c n"
  using left_insert_le [of a t D c] by (auto simp: count_ok_def)

lemma hash_ok_insert: "hash_ok a D v \<Longrightarrow> hash_ok a (insert t D) v"
  using count_ok_insert unfolding hash_ok_def by meson

lemma streams_ok_insert: "streams_ok items dn v \<Longrightarrow> t \<in> emitted v \<Longrightarrow> streams_ok items (dn @ [t]) v"
  using released_mono [of items dn _ "dn @ [t]" items] by (fastforce simp: streams_ok_def)

text \<open>A task without children in the store.\<close>

lemma keys_ok_no_children:
  assumes ok: "keys_ok T P items pipes dn ex v" and t: "t \<in> emitted v" "set_at v (Children t) = {}"
  shows "keys_ok T P items pipes (dn @ [t]) ex v"
proof -
  have "job_ok P a (insert t (set dn)) (pending pipes) ex v" if "a \<in> set items" for a
    using ok that hash_ok_insert t(2) by (auto simp: keys_ok_def job_ok_def set_ok_def)
  then show ?thesis using ok streams_ok_insert [OF _ t(1)] by (simp add: keys_ok_def)
qed

definition early_after :: "BatchItem \<Rightarrow> redis_cmd set \<Rightarrow> string set \<Rightarrow> string set" where
  "early_after a Y early =
     (if counts_pending Y (cx_job_id (bi_ctx a)) then insert (cx_job_id (bi_ctx a)) early else early)"

text \<open>What a completion must do to the exact counts of its own job; of other jobs it changes nothing.\<close>

lemma exact_ok_done:
  assumes ok: "exact_ok items Y D ex early v" and a: "a \<in> set items" "t \<in> set (item_ids a)" "t \<in> emitted v"
    and items: "\<forall>a \<in> set items. item_ok T a" "batch_apart items" "\<forall>y \<in> Y. \<exists>a \<in> set items. cmd_of P a y" "links_first a Y v"
    and em: "emitted v \<subseteq> emitted v'"
    and sets: "\<And>p. p \<noteq> t \<Longrightarrow> v' (Children p) = v (Children p)"
    and hash: "\<And>d c. d \<in> set items \<Longrightarrow> (d \<noteq> a \<or> c \<notin> set_at v (Children t)) \<Longrightarrow> hash_at v' (counts_of d) c = hash_at v (counts_of d) c"
    and sub: "set_at v (Children t) \<subseteq> children (set (item_edges a)) t" "t \<in> D \<Longrightarrow> set_at v (Children t) = {}"
    and counted: "\<And>c. c \<in> set_at v (Children t) \<Longrightarrow> unexpired a ex c \<Longrightarrow> \<forall>y \<in> Y. \<not> places y c \<Longrightarrow>
       hash_at v (counts_of a) c = Some (int_str (int (parents_left a D c))) \<Longrightarrow>
       (if parents_left a (insert t D) c = 0 then c \<in> emitted v'
        else hash_at v' (counts_of a) c = Some (int_str (int (parents_left a (insert t D) c))))"
  shows "exact_ok items Y (insert t D) ex (early_after a Y early) v'"
  unfolding exact_ok_def
proof (intro ballI impI conjI)
  fix d assume d: "d \<in> set items" "cx_job_id (bi_ctx d) \<notin> early_after a Y early"
  have same: "d = a" if "cx_job_id (bi_ctx d) = cx_job_id (bi_ctx a) \<or> t \<in> set (item_ids d)"
    using batch_apart_mem [OF items(2) d(1) a(1)] that a(2) by (auto simp: apart_def)
  have early: "cx_job_id (bi_ctx d) \<notin> early" using d(2) by (auto simp: early_after_def split: if_splits)
  have none: "\<not> counts_pending Y (cx_job_id (bi_ctx a))" if "d = a" using d(2) that by (auto simp: early_after_def)
  show "insert t D \<inter> set (item_ids d) = {}" if c: "counts_pending Y (cx_job_id (bi_ctx d))"
  proof -
    have "d \<noteq> a" using none c by auto
    then have "t \<notin> set (item_ids d)" using same by blast
    with ok d(1) early c show ?thesis by (auto simp: exact_ok_def)
  qed
  fix c assume c: "c \<in> set (item_ids d)" "unexpired d ex c"
  then have old: "place_exact d D Y v c" "links_exact d D Y v c" using ok d(1) early by (auto simp: exact_ok_def)
  show "links_exact d (insert t D) Y v' c"
    using old(2) sets unfolding links_exact_def set_at_def by (metis insertCI)
  show "place_exact d (insert t D) Y v' c"
  proof (cases "(t, c) \<in> set (item_edges d) \<and> t \<notin> D")
    case False
    then have l: "parents_left d (insert t D) c = parents_left d D c" using left_insert(2) by blast
    have "d \<noteq> a \<or> c \<notin> set_at v (Children t)" using False sub by (auto simp: children_def)
    from hash [OF d(1) this] old(1) em show ?thesis by (auto simp: place_exact_def l split: if_splits)
  next
    case True
    have "t \<in> set (item_ids d)" using True item_edges_sub [of T d] items(1) d(1) by auto
    then have da: "d = a" using same by blast
    have left: "parents_left a D c = Suc (parents_left a (insert t D) c)" using left_insert(1) True da by blast
    have "\<not> links y t c" if "y \<in> Y" for y using items(4) a(2,3) that by (auto simp: links_first_def)
    then have mem: "c \<in> set_at v (Children t)" using old(2) True by (auto simp: links_exact_def)
    have np: "\<not> places y c" if y: "y \<in> Y" for y
    proof
      assume pl: "places y c"
      obtain b where b: "b \<in> set items" "cmd_of P b y" using items(3) y by blast
      then have "c \<in> set (item_ids b)" using cmd_of_ids(2) pl items(1) by blast
      then have "b = a" using batch_apart_mem [OF items(2) b(1) a(1)] c(1) da by (auto simp: apart_def)
      moreover have "0 < parents_left a {} c" using left parents_left_le [of a D c] by simp
      ultimately obtain s where "y = CHSet (counts_of a) c s" using b(2) pl
        by (cases y) (auto simp: cmd_of_def places_def)
      then show False using none da y by (auto simp: counts_pending_iff)
    qed
    moreover have "hash_at v (counts_of a) c = Some (int_str (int (parents_left a D c)))"
      using old(1) np left da by (auto simp: place_exact_def)
    ultimately show ?thesis using counted [OF mem] c(2) da by (auto simp: place_exact_def)
  qed
qed

text \<open>The children of a task, counted down.\<close>

definition counted :: "BatchItem \<Rightarrow> string set \<Rightarrow> keyspace \<Rightarrow> (string \<Rightarrow> int) \<Rightarrow> bool" where
  "counted a D v n \<longleftrightarrow> (\<forall>c. hash_at v (counts_of a) c = None \<and> n c = 0 \<or>
     hash_at v (counts_of a) c = Some (int_str (n c)) \<and> count_ok a D c (n c))"

lemma hash_ok_counted: "hash_ok a D v \<Longrightarrow> \<exists>n. counted a D v n"
  unfolding hash_ok_def counted_def by (rule choice) metis

lemma counted_int64:
  assumes "counted a D v n" "item_ok T a"
  shows "hash_int v (counts_of a) c (n c) \<and> in_int64 (n c - 1)"
proof -
  have "int (parents_left a {} c) \<le> 2147483647" using remaining_bound [OF assms(2), of "{}" c] by (simp add: parents_left_def)
  then have "- 2147483647 \<le> n c \<and> n c \<le> 2147483647"
    using assms(1) [unfolded counted_def, rule_format, of c] unfolding count_ok_def by linarith
  then have "in_int64 (n c - 1)" by (simp add: in_int64_def)
  with assms(1) show ?thesis by (auto simp: counted_def hash_int_def)
qed

lemma count_ok_down:
  assumes "counted a D v n" "(t, c) \<in> set (item_edges a)" "t \<notin> D"
  shows "count_ok a (insert t D) c (n c - 1)"
proof -
  have "parents_left a D c = Suc (parents_left a (insert t D) c)" by (rule left_insert(1) [OF assms(2,3)])
  moreover have "parents_left a D c \<le> parents_left a {} c" by (rule parents_left_le)
  ultimately show ?thesis using assms(1) [unfolded counted_def, rule_format, of c] by (auto simp: count_ok_def)
qed

lemma ready_released:
  assumes "counted a D v n" "(t, c) \<in> set (item_edges a)" "t \<notin> D" "ready_child v n c"
  shows "parents_left a (insert t D) c = 0"
proof -
  have "parents_left a D c = Suc (parents_left a (insert t D) c)" by (rule left_insert(1) [OF assms(2,3)])
  then show ?thesis using assms(1) [unfolded counted_def, rule_format, of c] assms(4) by (auto simp: count_ok_def ready_child_def)
qed

text \<open>More entries on the stream, by their fields.\<close>

lemma emitted_fields: "emitted v = {t. \<exists>fs \<in> set (map snd (stream_at v kTasks)). entry_task ([], fs) = Some t}"
proof -
  have "entry_task e = Some t \<longleftrightarrow> entry_task ([], snd e) = Some t" for e t using entry_task_fields [of e] by simp
  then show ?thesis unfolding emitted_def by auto
qed

lemma emitted_append:
  "map snd (stream_at v' kTasks) = map snd (stream_at v kTasks) @ new \<Longrightarrow>
   emitted v' = emitted v \<union> {t. \<exists>fs \<in> set new. entry_task ([], fs) = Some t}"
  unfolding emitted_fields by (auto simp: image_iff)

lemma streams_ok_append:
  assumes "streams_ok items dn v" "is_stream v' kTasks" "is_stream v' kErrors"
    and new: "map snd (stream_at v' kTasks) = map snd (stream_at v kTasks) @ new"
    and "\<forall>fs \<in> set new. \<exists>t. entry_task ([], fs) = Some t \<and> released items dn t"
  shows "streams_ok items dn v'"
proof -
  have "\<exists>t. entry_task e = Some t \<and> released items dn t" if "e \<in> set (stream_at v' kTasks)" for e
  proof -
    have "snd e \<in> set (map snd (stream_at v kTasks) @ new)" using that unfolding new [symmetric] by simp
    then consider d where "d \<in> set (stream_at v kTasks)" "snd d = snd e" | "snd e \<in> set new" by auto
    then show ?thesis
    proof cases
      case 1
      then have "entry_task e = entry_task d" using entry_task_fields [of d] entry_task_fields [of e] by simp
      with 1(1) assms(1) show ?thesis by (auto simp: streams_ok_def)
    qed (use assms(5) entry_task_fields [of e] in simp)
  qed
  with assms(1-3) emitted_append [OF new] show ?thesis by (auto simp: streams_ok_def)
qed

lemma keys_ok_children:
  assumes ok: "keys_ok T P items pipes dn ex v" and a: "a \<in> set items" "t \<in> set (item_ids a)" "t \<in> emitted v" "t \<notin> set dn"
    and n: "counted a (set dn) v n" and cs: "set cs \<subseteq> children (set (item_edges a)) t"
    and cd: "children_done (cx_job_id (bi_ctx a)) n cs v v1" and v': "v' = v1(Children t := None)"
  shows "keys_ok T P items pipes (dn @ [t]) ex v'"
    and "emitted v' = emitted v \<union> {c \<in> set cs. ready_child v n c}"
proof -
  let ?D = "insert t (set dn)" and ?Y = "pending pipes"
  have r: "requests_ok T P items pipes" and o: "others_absent items v" and s: "streams_ok items dn v"
    and j: "\<forall>d \<in> set items. job_ok P d (set dn) ?Y ex v"
    using ok by (simp_all add: keys_ok_def)
  have edge: "(t, c) \<in> set (item_edges a)" if "c \<in> set cs" for c using cs that by (auto simp: children_def)
  have fields: "map snd (stream_at v' kTasks) =
      map snd (stream_at v kTasks) @ map (ready_fields (cx_job_id (bi_ctx a))) (filter (ready_child v n) cs)"
    using cd by (simp add: children_done_def v')
  show em: "emitted v' = emitted v \<union> {c \<in> set cs. ready_child v n c}"
    unfolding emitted_append [OF fields] by auto
  have other: "v' k = v k" if "k \<notin> {counts_of a, kTasks, kErrors, Children t}" for k
    using cd that by (simp add: children_done_def v')
  have ready: "released items (dn @ [t]) c" if "c \<in> set cs" "ready_child v n c" for c
  proof -
    have "parents_left a ?D c = 0" by (rule ready_released [OF n edge [OF that(1)] a(4) that(2)])
    moreover have "c \<in> set (item_ids a)" using edge [OF that(1)] item_edges_sub [of T a] r a(1) by (auto simp: requests_ok_def)
    ultimately show ?thesis unfolding released_def using a(1) by (intro bexI [of _ a]) (auto simp: parents_left_0)
  qed
  have "streams_ok items (dn @ [t]) v'"
    by (rule streams_ok_append [OF streams_ok_insert [OF s a(3)] _ _ fields])
      (use cd ready in \<open>auto simp: children_done_def dag_keys_ok_def v'\<close>)
  moreover have "others_absent items v'"
    unfolding others_absent_def
  proof (intro conjI allI impI)
    show "v' (DependencyHash i) = None" if "i \<notin> jobs_of items" for i
      using that a(1) o other [of "DependencyHash i"] by (auto simp: jobs_of_def others_absent_def)
    show "v' (Children p) = None" "v' (TaskMeta p) = None" if "p \<notin> ids_of items" for p
      using that a(1,2) o other [of "Children p"] other [of "TaskMeta p"] by (auto simp: ids_of_def others_absent_def)
  qed
  moreover have "job_ok P d ?D ?Y ex v'" if d: "d \<in> set items" for d
  proof -
    have jd: "job_ok P d (set dn) ?Y ex v" using j d by blast
    have same: "d = a \<or> apart d a" by (rule item_same [OF r d a(1)])
    have "hash_ok d ?D v'"
    proof (cases "d = a")
      case True
      have h: "hash_at v' (counts_of a) f = (if f \<in> set cs then if ready_child v n f then None else Some (int_str (n f - 1))
          else hash_at v (counts_of a) f)" for f
        using cd by (simp add: children_done_def v')
      have "hash_at v' (counts_of a) f = None \<or> (\<exists>m. hash_at v' (counts_of a) f = Some (int_str m) \<and> count_ok a ?D f m)" for f
        using count_ok_down [OF n edge a(4)] count_ok_insert [of a "set dn" f _ t] n unfolding h counted_def by auto
      moreover have "is_hash v' (counts_of a)" using cd by (simp add: children_done_def dag_keys_ok_def v')
      ultimately show ?thesis using True by (simp add: hash_ok_def)
    next
      case False
      then have "counts_of d \<noteq> counts_of a" using same by (auto simp: apart_def)
      then have "v' (counts_of d) = v (counts_of d)" by (intro other) simp
      then have "hash_ok d (set dn) v'" using jd by (intro hash_ok_cong [of v' d v]) (simp_all add: job_ok_def)
      then show ?thesis by (rule hash_ok_insert)
    qed
    moreover have "set_ok d ?D v'"
      unfolding set_ok_def
    proof
      fix p assume p: "p \<in> set (item_ids d)"
      show "is_set v' (Children p) \<and> set_at v' (Children p) \<subseteq> children (set (item_edges d)) p \<and>
         (p \<in> ?D \<longrightarrow> set_at v' (Children p) = {})"
      proof (cases "p = t")
        case False
        then have "v' (Children p) = v (Children p)" by (intro other) simp
        with jd p False show ?thesis by (simp add: job_ok_def set_ok_def is_set_def set_at_def)
      qed (simp add: v')
    qed
    moreover have "meta_ok P d ?Y ex v'"
    proof -
      have "v' (TaskMeta u) = v (TaskMeta u)" for u by (intro other) simp
      moreover have "v (TaskMeta u) \<noteq> None" if "u \<in> emitted v'" "u \<notin> emitted v" for u
        using that em by (auto simp: ready_child_def)
      ultimately show ?thesis using jd unfolding job_ok_def meta_ok_def by metis
    qed
    moreover have "links_first d ?Y v'"
    proof (cases "d = a")
      case True
      then show ?thesis using jd a(2,3) unfolding job_ok_def links_first_def by blast
    next
      case False
      have "set (item_ids d) \<inter> emitted v' = set (item_ids d) \<inter> emitted v"
        using em edge False same item_edges_sub [of T a] r a(1) by (auto simp: requests_ok_def apart_def)
      then show ?thesis using jd by (simp add: job_ok_def links_first_def)
    qed
    ultimately show ?thesis by (simp add: job_ok_def)
  qed
  ultimately show "keys_ok T P items pipes (dn @ [t]) ex v'" using r by (simp add: keys_ok_def)
qed

lemma exact_ok_children:
  assumes ok: "keys_ok T P items pipes dn ex v" "exact_ok items (pending pipes) (set dn) ex early v"
    and a: "a \<in> set items" "t \<in> set (item_ids a)" "t \<in> emitted v" "t \<notin> set dn"
    and n: "counted a (set dn) v n" and cs: "set cs = set_at v (Children t)"
    and cd: "children_done (cx_job_id (bi_ctx a)) n cs v v1" and v': "v' = v1(Children t := None)"
  shows "exact_ok items (pending pipes) (set (dn @ [t])) ex (early_after a (pending pipes) early) v'"
proof -
  let ?Y = "pending pipes"
  have r: "requests_ok T P items pipes" and j: "job_ok P a (set dn) ?Y ex v" using ok(1) a(1) by (simp_all add: keys_ok_def)
  have sub: "set_at v (Children t) \<subseteq> children (set (item_edges a)) t" using j a(2) by (simp add: job_ok_def set_ok_def)
  note em = keys_ok_children(2) [OF ok(1) a n _ cd v'] and edges = sub [folded cs]
  have h: "hash_at v' (counts_of d) f = (if d = a \<and> f \<in> set cs then if ready_child v n f then None else Some (int_str (n f - 1))
      else hash_at v (counts_of d) f)" if "d \<in> set items" for d f
  proof (cases "d = a")
    case False
    then have "counts_of d \<noteq> counts_of a" using item_same [OF r that a(1)] by (auto simp: apart_def)
    then have "v' (counts_of d) = v (counts_of d)" using cd by (simp add: children_done_def v')
    with False show ?thesis by (simp add: hash_at_def)
  qed (use cd in \<open>simp add: children_done_def v'\<close>)
  have "exact_ok items ?Y (insert t (set dn)) ex (early_after a ?Y early) v'"
  proof (rule exact_ok_done [where T = T, OF ok(2) a(1-3)])
    show "\<forall>y \<in> ?Y. \<exists>a \<in> set items. cmd_of P a y" using pending_cmd r by (auto simp: requests_ok_def)
    show "links_first a ?Y v" using j by (simp add: job_ok_def)
    show "emitted v \<subseteq> emitted v'" using em edges by simp
    show "v' (Children p) = v (Children p)" if "p \<noteq> t" for p using cd that by (simp add: children_done_def v')
    show "hash_at v' (counts_of d) c = hash_at v (counts_of d) c" if "d \<in> set items" "d \<noteq> a \<or> c \<notin> set_at v (Children t)" for d c
      using h [OF that(1)] that(2) cs by auto
    show "if parents_left a (insert t (set dn)) c = 0 then c \<in> emitted v'
        else hash_at v' (counts_of a) c = Some (int_str (int (parents_left a (insert t (set dn)) c)))"
      if c: "c \<in> set_at v (Children t)" "unexpired a ex c" "\<forall>y \<in> ?Y. \<not> places y c"
        "hash_at v (counts_of a) c = Some (int_str (int (parents_left a (set dn) c)))" for c
    proof -
      have e: "(t, c) \<in> set (item_edges a)" using sub c(1) by (auto simp: children_def)
      have left: "parents_left a (set dn) c = Suc (parents_left a (insert t (set dn)) c)" by (rule left_insert(1) [OF e a(4)])
      have nc: "n c = int (parents_left a (set dn) c)" using n [unfolded counted_def, rule_format, of c] c(4) by auto
      have "c \<in> set (item_ids a)" using e item_edges_sub [of T a] r a(1) by (auto simp: requests_ok_def)
      moreover have "TaskMeta c \<notin> ex" using c(2) by (simp add: unexpired_def)
      ultimately have "v (TaskMeta c) \<noteq> None" using j c(3) unfolding job_ok_def meta_ok_def by meson
      then have "ready_child v n c \<longleftrightarrow> parents_left a (insert t (set dn)) c = 0" using nc left by (auto simp: ready_child_def)
      then show ?thesis using h [OF a(1), of c] em edges c(1) cs nc left by auto
    qed
  qed (use r sub a(4) in \<open>simp_all add: requests_ok_def\<close>)
  then show ?thesis by simp
qed

lemma exact_ok_no_children:
  assumes ok: "keys_ok T P items pipes dn ex v" "exact_ok items (pending pipes) (set dn) ex early v"
    and a: "a \<in> set items" "t \<in> set (item_ids a)" "t \<in> emitted v" and none: "set_at v (Children t) = {}"
  shows "exact_ok items (pending pipes) (set (dn @ [t])) ex (early_after a (pending pipes) early) v"
proof -
  have r: "requests_ok T P items pipes" and j: "job_ok P a (set dn) (pending pipes) ex v" using ok(1) a(1) by (simp_all add: keys_ok_def)
  have "exact_ok items (pending pipes) (insert t (set dn)) ex (early_after a (pending pipes) early) v"
    by (rule exact_ok_done [where T = T and P = P, OF ok(2) a]) (use r j none pending_cmd in \<open>auto simp: requests_ok_def job_ok_def\<close>)
  then show ?thesis by simp
qed

section \<open>The invariant of the keys, and a child that is lost\<close>

definition keys_inv ::
  "pg_types \<Rightarrow> pb_codec \<Rightarrow> BatchItem list \<Rightarrow> pipe list \<Rightarrow> string list \<Rightarrow> string list \<Rightarrow> string list \<Rightarrow> keyspace \<Rightarrow> bool" where
  "keys_inv T P items pipes dn ex early v \<longleftrightarrow>
     keys_ok T P items pipes dn (set ex) v \<and> exact_ok items (pending pipes) (set dn) (set ex) (set early) v"

text \<open>No children set has the task, no command will link or place it, and the stream does not name it.\<close>

definition orphan :: "string \<Rightarrow> redis_cmd set \<Rightarrow> keyspace \<Rightarrow> bool" where
  "orphan c Y v \<longleftrightarrow> c \<notin> emitted v \<and> (\<forall>p. c \<notin> set_at v (Children p)) \<and> (\<forall>y \<in> Y. \<not> places y c \<and> (\<forall>p. \<not> links y p c))"

lemma keys_inv_empty: "keys_inv T P [] [] [] [] [] (\<lambda>_. None)"
  by (simp add: keys_inv_def keys_ok_empty exact_ok_empty)

lemma keys_inv_submit:
  assumes "keys_inv T P items pipes dn ex early v"
    and "\<forall>a \<in> set batch. item_ok T a" "batch_apart (items @ batch)" "append_items P batch = Inr cmds"
  shows "keys_inv T P (items @ batch) (pipes @ [(batch, cmds)]) dn ex early v"
  using assms(1) keys_ok_submit [OF _ assms(2-4)] exact_ok_submit [OF _ _ assms(2-4)] by (simp add: keys_inv_def)

lemma orphan_submit:
  assumes "orphan c (pending pipes) v" "c \<in> ids_of items"
    and "\<forall>a \<in> set batch. item_ok T a" "batch_apart (items @ batch)" "append_items P batch = Inr cmds"
  shows "orphan c (pending (pipes @ [(batch, cmds)])) v"
proof -
  have "batch_apart batch" using assms(4) by (auto simp: batch_apart_def)
  then have ok: "pipe_ok P batch cmds" using batch_pipe(1) assms(3,5) by blast
  have "\<not> places y c \<and> (\<forall>p. \<not> links y p c)" if y: "y \<in> set cmds" for y
  proof -
    obtain a where a: "a \<in> set batch" "cmd_of P a y" "item_ok T a" using ok assms(3) y by (auto simp: pipe_ok_def)
    have "c \<notin> set (item_ids a)" using assms(2) batch_new(1) [OF assms(4)] a(1) by (auto simp: ids_of_def)
    with cmd_of_ids [OF a(2,3)] show ?thesis by blast
  qed
  with assms(1) show ?thesis by (auto simp: orphan_def)
qed

lemma orphan_again:
  assumes "orphan c Y v" "entry_task ([], fs) = Some t" "t \<in> emitted v"
    and v': "v' = v(kTasks \<mapsto> RStream (stream_at v kTasks @ [(i, fs)]))"
  shows "orphan c Y v'"
proof -
  have "emitted v' = insert t (emitted v)" by (rule emitted_add [OF v' assms(2)])
  moreover have "set_at v' (Children p) = set_at v (Children p)" for p unfolding v' by simp
  ultimately show ?thesis using assms(1,3) by (auto simp: orphan_def)
qed

lemma keys_inv_again:
  assumes "keys_inv T P items pipes dn ex early v" "entry_task ([], fs) = Some t" "t \<in> emitted v"
    and "v' = v(kTasks \<mapsto> RStream (stream_at v kTasks @ [(i, fs)]))"
  shows "keys_inv T P items pipes dn ex early v'"
  using assms(1) keys_ok_again [OF _ assms(2-4)] exact_ok_again [OF _ assms(2-4)] by (simp add: keys_inv_def)

lemma keys_inv_expired:
  "keys_inv T P items pipes dn ex early v \<Longrightarrow> may_expire k \<Longrightarrow> keys_inv T P items pipes dn (ex @ [k]) early (v(k := None))"
  by (simp add: keys_inv_def keys_ok_expired exact_ok_expired)

lemma orphan_expired:
  assumes "orphan c Y v" "may_expire k"
  shows "orphan c Y (v(k := None))"
proof -
  have "emitted (v(k := None)) = emitted v" by (rule emitted_stream) (use may_expire_streams [OF assms(2)] in simp)
  moreover have "set_at (v(k := None)) (Children p) \<subseteq> set_at v (Children p)" for p by (auto simp: set_at_def)
  ultimately show ?thesis using assms(1) by (auto simp: orphan_def)
qed

text \<open>A success that is processed while counts of its job are still to be laid out comes too early.\<close>

definition early_report :: "redis_cmd set \<Rightarrow> string \<Rightarrow> string list \<Rightarrow> string list" where
  "early_report Y job early = (if counts_pending Y job then early @ [job] else early)"

context redis_store
begin

lemma script_empty_set:
  assumes "up r" "is_set (view r) (Children t)" "set_at (view r) (Children t) = {}"
  shows "\<exists>r'. complete_task R (Children t) k2 k3 k4 job_id r = (Inr 0, r') \<and> up r' \<and> view r' = view r"
proof -
  obtain r1 where "r_smembers R (Children t) r = (Inr [], r1)" "up r1" "view r1 = view r"
    using smembers [OF assms(1,2)] assms(3) by (metis set_empty)
  then show ?thesis by (simp add: complete_task_def)
qed

lemma exec_keeps:
  assumes inv: "keys_inv T P items (ps @ (b, x # cs) # qs) dn ex early (view r)" and "up r"
  shows "up (exec_cmd R x r)" "keys_inv T P items (ps @ (b, cs) # qs) dn ex early (view (exec_cmd R x r))"
    and "emitted (view r) \<subseteq> emitted (view (exec_cmd R x r))"
    and "orphan c (pending (ps @ (b, x # cs) # qs)) (view r) \<Longrightarrow> orphan c (pending (ps @ (b, cs) # qs)) (view (exec_cmd R x r))"
proof -
  have ok: "keys_ok T P items (ps @ (b, x # cs) # qs) dn (List.set ex) (view r)"
    and ex: "exact_ok items (insert x (pending (ps @ (b, cs) # qs))) (List.set dn) (List.set ex) (List.set early) (view r)"
    using inv by (simp_all add: keys_inv_def pending_head)
  obtain a Y where h: "a \<in> List.set items" "cmd_of P a x" "item_ok T a" "requests_ok T P items (ps @ (b, cs) # qs)"
    "streams_ok items dn (view r)" "\<forall>a \<in> List.set items. job_ok P a (List.set dn) (insert x Y) (List.set ex) (view r)"
    by (rule head_facts [OF ok])
  then have ja: "job_ok P a (List.set dn) (insert x Y) (List.set ex) (view r)" and
    items: "\<forall>a \<in> List.set items. item_ok T a" "batch_apart items" by (simp_all add: requests_ok_def)
  have "up (exec_cmd R x r) \<and> keys_inv T P items (ps @ (b, cs) # qs) dn ex early (view (exec_cmd R x r)) \<and>
     emitted (view r) \<subseteq> emitted (view (exec_cmd R x r)) \<and>
     emitted (view (exec_cmd R x r)) \<subseteq> emitted (view r) \<union> {t. places x t} \<and>
     (\<forall>p. set_at (view (exec_cmd R x r)) (Children p) \<subseteq> set_at (view r) (Children p) \<union> {c. links x p c})"
    (is "?up \<and> ?inv \<and> ?old \<and> ?em \<and> ?sets")
  proof (cases x)
    case (CSAdd k m)
    obtain p where p: "k = Children p" "(p, m) \<in> List.set (item_edges a)" using h(2) by (auto simp: cmd_of_def CSAdd)
    then have "is_set (view r) k" using item_edges_sub [OF h(3)] ja by (auto simp: job_ok_def set_ok_def)
    note e = exec_sadd [OF assms(2) this, of m]
    have em: "emitted (view (exec_cmd R x r)) = emitted (view r)" by (rule emitted_stream) (use e in \<open>simp add: CSAdd p\<close>)
    have "set_at (view (exec_cmd R x r)) (Children q) \<subseteq> set_at (view r) (Children q) \<union> {c. links x q c}" for q
      using e by (cases "q = p") (auto simp: CSAdd p links_def)
    moreover have ?inv
      using keys_ok_sadd_cmd [OF ok [unfolded CSAdd p]] exact_ok_sadd_cmd [OF ex [unfolded CSAdd p]] e
      by (simp add: keys_inv_def CSAdd p)
    ultimately show ?thesis using e em by (simp add: CSAdd)
  next
    case (CExpire k n)
    note e = exec_expire [OF assms(2), of k n]
    have ?inv
      using keys_ok_expire_cmd [OF ok [unfolded CExpire]] exact_ok_expire_cmd [OF ex [unfolded CExpire]] e
      by (simp add: keys_inv_def CExpire)
    then show ?thesis using e by (simp add: CExpire)
  next
    case (CSet k s n)
    obtain t where t: "k = TaskMeta t" using h(2) by (auto simp: cmd_of_def CSet)
    have e: "up (exec_cmd R x r) \<and> view (exec_cmd R x r) = (view r)(k \<mapsto> RStr s)"
      using exec_set [OF assms(2), of k s n] t by (auto simp: CSet)
    have em: "emitted (view (exec_cmd R x r)) = emitted (view r)" by (rule emitted_stream) (use e in \<open>simp add: t\<close>)
    have ?inv
      using keys_ok_set_cmd [OF ok [unfolded CSet t]] exact_ok_set_cmd [OF ex [unfolded CSet t]] e
      by (simp add: keys_inv_def t)
    then show ?thesis using e em by (simp add: t)
  next
    case (CHSet k f s)
    have k: "k = counts_of a" using h(2) by (simp add: cmd_of_def CHSet)
    then have "is_hash (view r) k" using ja by (simp add: job_ok_def hash_ok_def)
    note e = exec_hset [OF assms(2) this, of f s]
    have em: "emitted (view (exec_cmd R x r)) = emitted (view r)" by (rule emitted_stream) (use e in \<open>simp add: CHSet k\<close>)
    have ?inv
      using keys_ok_hset_cmd [OF ok [unfolded CHSet]] exact_ok_hset_cmd [OF ex [unfolded CHSet] _ h(1) h(2) [unfolded CHSet] items] e
      by (simp add: keys_inv_def CHSet)
    then show ?thesis using e em by (simp add: CHSet k)
  next
    case (CXAdd k i fs)
    obtain t where k: "k = kTasks" "i = ''*''" and t: "entry_task ([], fs) = Some t" using h(2) by (auto simp: cmd_of_def CXAdd)
    then have "is_stream (view r) k" using h(5) by (simp add: streams_ok_def)
    then obtain j where e: "up (exec_cmd R x r)" "view (exec_cmd R x r) = (view r)(k \<mapsto> RStream (stream_at (view r) k @ [(j, fs)]))"
      using exec_xadd [OF assms(2), of k fs] by (auto simp: CXAdd k)
    have em: "emitted (view (exec_cmd R x r)) = insert t (emitted (view r))"
      by (rule emitted_add [OF _ t]) (use e k in simp)
    have ?inv
      using keys_ok_xadd_cmd [OF ok [unfolded CXAdd] e(2)] exact_ok_xadd_cmd [OF ex [unfolded CXAdd] e(2) h(1) h(2) [unfolded CXAdd] items(2)]
      by (simp add: keys_inv_def)
    then show ?thesis using e em t by (auto simp: k) (auto simp: CXAdd places_def)
  qed
  then show "up (exec_cmd R x r)" "keys_inv T P items (ps @ (b, cs) # qs) dn ex early (view (exec_cmd R x r))"
    "emitted (view r) \<subseteq> emitted (view (exec_cmd R x r))"
    "orphan c (pending (ps @ (b, x # cs) # qs)) (view r) \<Longrightarrow> orphan c (pending (ps @ (b, cs) # qs)) (view (exec_cmd R x r))"
    unfolding orphan_def pending_head by blast+
qed

lemma complete_keeps:
  assumes inv: "keys_inv T P items pipes dn ex early (view r)" and "up r"
    and a: "a \<in> List.set items" "t \<in> List.set (item_ids a)" "t \<in> emitted (view r)"
  shows "\<exists>n r'. complete_one R (cx_job_id (bi_ctx a)) t r = (Inr n, r') \<and> up r' \<and>
     keys_inv T P items pipes (dn @ [t]) ex (early_report (pending pipes) (cx_job_id (bi_ctx a)) early) (view r') \<and>
     emitted (view r) \<subseteq> emitted (view r') \<and>
     (\<forall>c Y. orphan c Y (view r) \<longrightarrow> orphan c Y (view r'))"
proof -
  let ?job = "cx_job_id (bi_ctx a)" and ?S = "set_at (view r) (Children t)"
  have ok: "keys_ok T P items pipes dn (List.set ex) (view r)"
    and ex: "exact_ok items (pending pipes) (List.set dn) (List.set ex) (List.set early) (view r)"
    using inv by (simp_all add: keys_inv_def)
  have j: "job_ok P a (List.set dn) (pending pipes) (List.set ex) (view r)" and s: "streams_ok items dn (view r)"
    and it: "item_ok T a" using ok a(1) by (simp_all add: keys_ok_def requests_ok_def)
  have early: "List.set (early_report (pending pipes) ?job early) = early_after a (pending pipes) (List.set early)"
    by (auto simp: early_report_def early_after_def)
  have S: "is_set (view r) (Children t)" "?S \<subseteq> children (List.set (item_edges a)) t" "t \<in> List.set dn \<Longrightarrow> ?S = {}"
    using j a(2) by (auto simp: job_ok_def set_ok_def)
  show ?thesis
  proof (cases "?S = {}")
    case True
    obtain r' where r': "complete_one R ?job t r = (Inr 0, r')" "up r'" "view r' = view r"
      using script_empty_set [OF assms(2) S(1) True] unfolding complete_one_def by blast
    have "keys_inv T P items pipes (dn @ [t]) ex (early_report (pending pipes) ?job early) (view r)"
      using keys_ok_no_children [OF ok a(3) True] exact_ok_no_children [OF ok ex a True] by (simp add: keys_inv_def early)
    with r' show ?thesis by auto
  next
    case False
    then have nd: "t \<notin> List.set dn" using S(3) by blast
    have keys: "dag_keys_ok ?job (view r)" using j s by (simp add: dag_keys_ok_def job_ok_def hash_ok_def streams_ok_def)
    obtain n where n: "counted a (List.set dn) (view r) n" using hash_ok_counted j unfolding job_ok_def by blast
    have "view r (Children t) = Some (RSet ?S)"
      using S(1) False by (auto simp: is_set_def set_at_def split: option.splits rval.splits)
    from script_with_children [OF assms(2) keys this False, of n] counted_int64 [OF n it] obtain cs r' v1 where r':
      "complete_one R ?job t r = (Inr (int (length (filter (ready_child (view r) n) cs))), r')" "up r'"
      "List.set cs = ?S" "children_done ?job n cs (view r) v1" "view r' = v1(Children t := None)"
      unfolding complete_one_def by blast
    have sub: "List.set cs \<subseteq> children (List.set (item_edges a)) t" using S(2) r'(3) by simp
    note k = keys_ok_children [OF ok a nd n sub r'(4,5)]
    have "keys_inv T P items pipes (dn @ [t]) ex (early_report (pending pipes) ?job early) (view r')"
      using k(1) exact_ok_children [OF ok ex a nd n r'(3-5)] by (simp add: keys_inv_def early)
    moreover have "orphan c Y (view r')" if o: "orphan c Y (view r)" for c Y
    proof -
      have "set_at (view r') (Children p) \<subseteq> set_at (view r) (Children p)" for p
        using r'(4) by (cases "p = t") (auto simp: r'(5) children_done_def set_at_def)
      with o k(2) r'(3) show ?thesis unfolding orphan_def by blast
    qed
    ultimately show ?thesis using r'(1,2) k(2) by blast
  qed
qed

end

end
