(* ===== verification/Scheduler_Loop.thy ===== *)
theory Scheduler_Loop
  imports Redis_Manager Task_Repository Task_Serializer
begin

text \<open>
  \<open>src/scheduler/src/scheduler_loop.cpp\<close>: the loop that reads the task stream and sends tasks to
  the workers. One step of \<open>loop_step\<close> is what one thread does between two points where another
  can come in: the head of an iteration with the rescue scan, the fetch, the handling of one entry
  (fresh or rescued), one dispatch on a pool thread. Everything the other processes do to the
  worker table, the database and the server comes in through \<open>world\<close>.

  The counter of tasks in flight is an \<open>atomic<int>\<close>; the bound proved below keeps it far from
  its limits, so it is an \<open>int\<close>. \<open>sl_lost\<close> and \<open>sl_log\<close> are not in the code: they count the
  units of the counter whose task is gone, and log why each entry was acknowledged.
\<close>

section \<open>State\<close>

datatype rpc_result = RpcError string | RpcReply "string option"

datatype ack_reason = Skipped string | Accepted string string

datatype loop_pc =
    AtTop
  | Rescuing "stream_entry list"
  | Fetching
  | Dispatching "stream_entry list" "WorkerInfo list" nat
  | LoopExited

record 'r sched =
  sl_stop :: bool
  sl_inflight :: int
  sl_pc :: loop_pc
  sl_last_rescue :: int
  sl_workers :: WorkerManager
  sl_rm :: RedisManager
  sl_redis :: 'r
  sl_db :: database
  sl_pool :: "(Task \<times> WorkerInfo) list"
  sl_lost :: nat
  sl_log :: "(string \<times> ack_reason) list"

text \<open>What the loop is built on: the types and libraries outside, the server's commands, the sort.\<close>

record 'r loop_cfg =
  lc_types :: pg_types
  lc_json :: json_lib
  lc_codec :: pb_codec
  lc_redis :: "'r redis_ops"
  lc_group :: "'r group_ops"
  lc_sort :: "WorkerInfo list \<Rightarrow> WorkerInfo list"
  lc_consumer_name :: string

definition MAX_INFLIGHT :: int where "MAX_INFLIGHT = 2000"
definition LOOP_BATCH_SIZE :: int where "LOOP_BATCH_SIZE = 20"
definition BLOCK_MS :: int where "BLOCK_MS = 2000"
definition MIN_IDLE_MS :: int where "MIN_IDLE_MS = 60000"
definition RESCUE_BATCH_SIZE :: int where "RESCUE_BATCH_SIZE = 50"

section \<open>Operations\<close>

definition AckAndSkip :: "'r loop_cfg \<Rightarrow> string \<Rightarrow> string \<Rightarrow> 'r sched \<Rightarrow> 'r sched" where
  "AckAndSkip C stream_id reason s =
     (let (_, r) = XAck (sl_rm s) (lc_group C) kTasks kGroupMain stream_id (sl_redis s)
      in s\<lparr>sl_redis := r, sl_log := (stream_id, Skipped reason) # sl_log s\<rparr>)"

text \<open>From an entry to its task: the pointer, the metadata it names, the task in them.\<close>

datatype loaded = Unusable string | Usable Task | Threw

definition load_entry :: "'r loop_cfg \<Rightarrow> RedisManager \<Rightarrow> stream_entry \<Rightarrow> 'r \<Rightarrow> loaded \<times> 'r" where
  "load_entry C M entry r =
     (case ParseStreamEntry entry of
        None \<Rightarrow> (Unusable ''Invalid Stream Format'', r)
      | Some ptr \<Rightarrow>
          (case GetConnection M of
             Inl e \<Rightarrow> (Threw, r)
           | Inr _ \<Rightarrow>
               (case r_get (lc_redis C) (TaskMeta (sp_task_id ptr)) r of
                  (Inl e, r') \<Rightarrow> (Threw, r')
                | (Inr None, r') \<Rightarrow> (Unusable (''Meta Missing: '' @ sp_task_id ptr), r')
                | (Inr (Some meta_binary), r') \<Rightarrow>
                    (case FromMetaBinary (lc_json C) (lc_codec C) meta_binary of
                       None \<Rightarrow> (Unusable ''Protobuf Parse Failed'', r')
                     | Some task \<Rightarrow> (Usable (task\<lparr>t_stream_id := fst entry\<rparr>), r')))))"

text \<open>The head of an iteration of \<open>RunLoop\<close>, \<open>DoRescue\<close> up to its loop included.\<close>

definition DoRescue :: "'r loop_cfg \<Rightarrow> 'r sched \<Rightarrow> 'r sched" where
  "DoRescue C s =
     (case XPending (sl_rm s) (lc_group C) kTasks kGroupMain RESCUE_BATCH_SIZE ''-'' ''+'' [] (sl_redis s) of
        (None, r) \<Rightarrow> s\<lparr>sl_redis := r, sl_pc := Fetching\<rparr>
      | (Some pending, r) \<Rightarrow>
          (let ids_to_claim = map pe_id (filter (\<lambda>item. pe_idle_time_ms item \<ge> MIN_IDLE_MS) pending)
           in if ids_to_claim = [] then s\<lparr>sl_redis := r, sl_pc := Fetching\<rparr>
              else case XClaim (sl_rm s) (lc_group C) kTasks kGroupMain (lc_consumer_name C) MIN_IDLE_MS
                          ids_to_claim r of
                (None, r') \<Rightarrow> s\<lparr>sl_redis := r', sl_pc := Fetching\<rparr>
              | (Some claimed, r') \<Rightarrow>
                  s\<lparr>sl_redis := r', sl_inflight := sl_inflight s + int (length claimed),
                    sl_pc := Rescuing claimed\<rparr>))"

definition RunLoop_top :: "'r loop_cfg \<Rightarrow> int \<Rightarrow> 'r sched \<Rightarrow> 'r sched" where
  "RunLoop_top C now s =
     (if sl_stop s then s\<lparr>sl_pc := LoopExited\<rparr>
      else if sl_inflight s > MAX_INFLIGHT then s
      else if now - sl_last_rescue s > 10 * 1000000000
      then DoRescue C (s\<lparr>sl_last_rescue := now\<rparr>)
      else s\<lparr>sl_pc := Fetching\<rparr>)"

definition RunLoop_fetch :: "'r loop_cfg \<Rightarrow> int \<Rightarrow> 'r sched \<Rightarrow> 'r sched" where
  "RunLoop_fetch C now s =
     (let workers = GetAvailableWorkersSorted (lc_sort C) now (sl_workers s)
      in if workers = [] then s\<lparr>sl_pc := AtTop\<rparr>
         else case XReadGroup (sl_rm s) (lc_group C) kGroupMain (lc_consumer_name C) kTasks
                     LOOP_BATCH_SIZE BLOCK_MS (sl_redis s) of
           (None, r) \<Rightarrow> s\<lparr>sl_redis := r, sl_pc := AtTop\<rparr>
         | (Some entries, r) \<Rightarrow>
             (if entries = [] then s\<lparr>sl_redis := r, sl_pc := AtTop\<rparr>
              else s\<lparr>sl_redis := r, sl_inflight := sl_inflight s + int (length entries),
                     sl_pc := Dispatching entries workers 0\<rparr>))"

text \<open>
  One turn of the loop over the entries. An exception ends the iteration: the entries not yet
  handled, and the one in hand, stay counted.
\<close>

definition RunLoop_entry ::
  "'r loop_cfg \<Rightarrow> stream_entry list \<Rightarrow> WorkerInfo list \<Rightarrow> nat \<Rightarrow> 'r sched \<Rightarrow> 'r sched" where
  "RunLoop_entry C entries workers worker_idx s =
     (case entries of
        [] \<Rightarrow> s\<lparr>sl_pc := AtTop\<rparr>
      | entry # rest \<Rightarrow>
          (if sl_stop s then s\<lparr>sl_pc := AtTop, sl_lost := sl_lost s + length entries\<rparr>
           else case load_entry C (sl_rm s) entry (sl_redis s) of
             (Threw, r) \<Rightarrow> s\<lparr>sl_redis := r, sl_pc := AtTop, sl_lost := sl_lost s + length entries\<rparr>
           | (Unusable reason, r) \<Rightarrow>
               (let s1 = AckAndSkip C (fst entry) reason (s\<lparr>sl_redis := r\<rparr>)
                in s1\<lparr>sl_inflight := sl_inflight s1 - 1, sl_pc := Dispatching rest workers worker_idx\<rparr>)
           | (Usable task, r) \<Rightarrow>
               (let selected_worker = workers ! (worker_idx mod length workers)
                in s\<lparr>sl_redis := r,
                     sl_workers := PrebookTask (wi_worker_id selected_worker) 1 (sl_workers s),
                     sl_pool := sl_pool s @ [(task, selected_worker)],
                     sl_pc := Dispatching rest workers (worker_idx + 1)\<rparr>)))"

text \<open>
  The same for a rescued entry: \<open>ProcessStreamEntry\<close> within the loop of \<open>DoRescue\<close>, whose reasons for
  skipping an entry have texts of their own.
\<close>

definition rescue_reason :: "stream_entry \<Rightarrow> string \<Rightarrow> string" where
  "rescue_reason entry reason =
     (if ParseStreamEntry entry = None then ''Rescue: Invalid Stream Format''
      else if reason = ''Protobuf Parse Failed'' then ''Rescue: Parse Failed'' else ''Rescue: Meta Missing'')"

definition ProcessStreamEntry ::
  "'r loop_cfg \<Rightarrow> int \<Rightarrow> stream_entry \<Rightarrow> stream_entry list \<Rightarrow> 'r sched \<Rightarrow> 'r sched" where
  "ProcessStreamEntry C now entry rest s =
     (case load_entry C (sl_rm s) entry (sl_redis s) of
        (Threw, r) \<Rightarrow> s\<lparr>sl_redis := r, sl_pc := Fetching, sl_lost := sl_lost s + Suc (length rest)\<rparr>
      | (Unusable reason, r) \<Rightarrow>
          (let s1 = AckAndSkip C (fst entry) (rescue_reason entry reason) (s\<lparr>sl_redis := r\<rparr>)
           in s1\<lparr>sl_inflight := sl_inflight s1 - 1, sl_pc := Rescuing rest\<rparr>)
      | (Usable task, r) \<Rightarrow>
          (case GetAvailableWorkersSorted (lc_sort C) now (sl_workers s) of
             [] \<Rightarrow> s\<lparr>sl_redis := r, sl_inflight := sl_inflight s - 1, sl_pc := Rescuing rest\<rparr>
           | best_worker # _ \<Rightarrow>
               s\<lparr>sl_redis := r,
                 sl_workers := PrebookTask (wi_worker_id best_worker) 1 (sl_workers s),
                 sl_pool := sl_pool s @ [(task, best_worker)], sl_pc := Rescuing rest\<rparr>))"

definition DoRescue_entry :: "'r loop_cfg \<Rightarrow> int \<Rightarrow> stream_entry list \<Rightarrow> 'r sched \<Rightarrow> 'r sched" where
  "DoRescue_entry C now entries s =
     (case entries of [] \<Rightarrow> s\<lparr>sl_pc := Fetching\<rparr>
      | entry # rest \<Rightarrow> ProcessStreamEntry C now entry rest s)"

text \<open>
  \<open>DoDispatch\<close>: \<open>stub\<close> says whether there is a connection, \<open>rpc\<close> is the worker's answer to the
  request at its address. An exception of the JSON printer ends the pool task before the counter
  is given back.
\<close>

definition DoDispatch ::
  "'r loop_cfg \<Rightarrow> tx_env \<Rightarrow> bool \<Rightarrow> (string \<Rightarrow> PbTask \<Rightarrow> rpc_result) \<Rightarrow> Task \<Rightarrow> WorkerInfo \<Rightarrow>
   'r sched \<Rightarrow> 'r sched"
where
  "DoDispatch C E stub rpc task worker s =
     (let revert = (\<lambda>s. s\<lparr>sl_db := snd (RevertTaskToPending (lc_types C) E (t_task_id task) (sl_db s)),
                          sl_inflight := sl_inflight s - 1\<rparr>)
      in if \<not> stub then revert s
         else case TaskToProto (lc_json C) task of
           Inl e \<Rightarrow> s\<lparr>sl_lost := sl_lost s + 1\<rparr>
         | Inr request \<Rightarrow>
             (case rpc (wi_address worker) request of
                RpcError e \<Rightarrow> revert s
              | RpcReply (Some e) \<Rightarrow> revert s
              | RpcReply None \<Rightarrow>
                  (let (_, r) = XAck (sl_rm s) (lc_group C) kTasks kGroupMain (t_stream_id task) (sl_redis s)
                   in s\<lparr>sl_redis := r, sl_inflight := sl_inflight s - 1,
                        sl_log := (t_stream_id task, Accepted (t_task_id task) (wi_worker_id worker)) # sl_log s\<rparr>)))"

section \<open>Steps\<close>

inductive loop_step :: "'r loop_cfg \<Rightarrow> ('r \<Rightarrow> 'r \<Rightarrow> bool) \<Rightarrow> 'r sched \<Rightarrow> 'r sched \<Rightarrow> bool"
  for C others where
  top: "sl_pc s = AtTop \<Longrightarrow> loop_step C others s (RunLoop_top C now s)"
| fetch: "sl_pc s = Fetching \<Longrightarrow> loop_step C others s (RunLoop_fetch C now s)"
| entry: "sl_pc s = Dispatching es ws i \<Longrightarrow> loop_step C others s (RunLoop_entry C es ws i s)"
| rescue: "sl_pc s = Rescuing es \<Longrightarrow> loop_step C others s (DoRescue_entry C now es s)"
| dispatch: "sl_pool s = xs @ (t, w) # ys \<Longrightarrow>
    loop_step C others s (DoDispatch C E stub rpc t w (s\<lparr>sl_pool := xs @ ys\<rparr>))"
| stop: "loop_step C others s (s\<lparr>sl_stop := True\<rparr>)"
| world: "others (sl_redis s) r \<Longrightarrow> loop_step C others s (s\<lparr>sl_workers := W, sl_db := db, sl_redis := r\<rparr>)"

definition sched_init :: "RedisManager \<Rightarrow> WorkerManager \<Rightarrow> database \<Rightarrow> 'r \<Rightarrow> int \<Rightarrow> 'r sched" where
  "sched_init M W db r now =
     \<lparr>sl_stop = False, sl_inflight = 0, sl_pc = AtTop, sl_last_rescue = now, sl_workers = W, sl_rm = M,
      sl_redis = r, sl_db = db, sl_pool = [], sl_lost = 0, sl_log = []\<rparr>"

fun in_hand :: "loop_pc \<Rightarrow> stream_entry list" where
  "in_hand (Rescuing es) = es"
| "in_hand (Dispatching es ws i) = es"
| "in_hand _ = []"

lemmas loop_defs = RunLoop_top_def RunLoop_fetch_def RunLoop_entry_def DoRescue_entry_def
  ProcessStreamEntry_def DoDispatch_def AckAndSkip_def DoRescue_def

text \<open>Every unit of the counter is a dispatch under way, an entry in hand, or lost.\<close>

definition accounted :: "'r sched \<Rightarrow> bool" where
  "accounted s \<longleftrightarrow>
     sl_inflight s = int (length (sl_pool s)) + int (length (in_hand (sl_pc s))) + int (sl_lost s)"

lemma accounted_step: "loop_step C others s s' \<Longrightarrow> accounted s \<Longrightarrow> accounted s'"
  by (induction rule: loop_step.induct)
    (auto simp: accounted_def loop_defs Let_def split: prod.splits option.splits list.splits
      loaded.splits sum.splits rpc_result.splits)

lemma lost_step: "loop_step C others s s' \<Longrightarrow> sl_lost s \<le> sl_lost s'"
  by (induction rule: loop_step.induct)
    (auto simp: loop_defs Let_def split: prod.splits option.splits list.splits
      loaded.splits sum.splits rpc_result.splits)

text \<open>How high the counter can be at each point of the loop.\<close>

definition capped :: "'r sched \<Rightarrow> bool" where
  "capped s \<longleftrightarrow> sl_inflight s \<le> (case sl_pc s of Fetching \<Rightarrow> 2050 | Rescuing _ \<Rightarrow> 2050 | _ \<Rightarrow> 2070)"

section \<open>The consumer group\<close>

text \<open>
  What the loop relies on of the server's consumer group: \<open>unread\<close> are the entries not yet
  delivered, \<open>pend\<close> the delivered ones not yet acknowledged. A command that fails may have had
  its effect all the same.
\<close>

locale consumer_group =
  fixes R :: "'r redis_ops"
    and G :: "'r group_ops"
    and pend unread :: "'r \<Rightarrow> stream_entry list"
  assumes readgroup:
    "g_xreadgroup G kGroupMain c kTasks n b r = (x, r') \<Longrightarrow>
     \<exists>es. unread r = es @ unread r' \<and> set (pend r') = set (pend r) \<union> set es \<and>
       (\<forall>res. x = Inr res \<longrightarrow> (res = [] \<and> es = [] \<or> res = [(kTasks, es)]) \<and> length es \<le> nat n)"
  and xack:
    "g_xack G kTasks kGroupMain i r = (x2, r') \<Longrightarrow>
     unread r' = unread r \<and> {e \<in> set (pend r). fst e \<noteq> i} \<subseteq> set (pend r')"
  and xclaim:
    "g_xclaim G kTasks kGroupMain c idle ids r = (x3, r') \<Longrightarrow>
     unread r' = unread r \<and> set (pend r') = set (pend r) \<and>
     (\<forall>es. x3 = Inr es \<longrightarrow> length es \<le> length ids)"
  and xpending:
    "g_xpending G kTasks kGroupMain a z n c4 r = (x4, r') \<Longrightarrow>
     unread r' = unread r \<and> set (pend r') = set (pend r) \<and>
     (\<forall>ps. x4 = Inr ps \<longrightarrow> length ps \<le> nat n)"
  and group_get:
    "r_get R k r = (y, r') \<Longrightarrow> unread r' = unread r \<and> set (pend r') = set (pend r)"
begin

definition held :: "'r \<Rightarrow> stream_entry set" where
  "held r = set (unread r) \<union> set (pend r)"

lemma XReadGroup_held:
  assumes "XReadGroup M G kGroupMain c kTasks n b r = (x, r')"
  shows "held r' = held r \<and> (\<forall>es. x = Some es \<longrightarrow> length es \<le> nat n)"
proof (cases "rm_client M")
  case True
  obtain y r1 where y: "g_xreadgroup G kGroupMain c kTasks n b r = (y, r1)" by fastforce
  obtain es where es: "unread r = es @ unread r1" "set (pend r1) = set (pend r) \<union> set es"
    "\<forall>res. y = Inr res \<longrightarrow> (res = [] \<and> es = [] \<or> res = [(kTasks, es)]) \<and> length es \<le> nat n"
    using readgroup [OF y] by blast
  then have "held r1 = held r" by (auto simp: held_def)
  with es(3) assms True y show ?thesis
    by (auto simp: XReadGroup_def split: sum.splits list.splits)
qed (use assms in \<open>simp add: XReadGroup_def\<close>)

lemma XAck_held:
  assumes "XAck M G kTasks kGroupMain i r = (x, r')"
  shows "held r \<subseteq> held r' \<union> {e. fst e = i}"
  using assms xack [of i r] by (auto simp: XAck_def held_def split: if_splits sum.splits prod.splits)

lemma XClaim_held:
  assumes "XClaim M G kTasks kGroupMain c idle ids r = (x, r')"
  shows "held r' = held r \<and> (\<forall>es. x = Some es \<longrightarrow> length es \<le> length ids)"
  using assms xclaim [of c idle ids r] by (auto simp: XClaim_def held_def split: if_splits sum.splits prod.splits)

lemma XPending_held:
  assumes "XPending M G kTasks kGroupMain n a z c r = (x, r')"
  shows "held r' = held r \<and> (\<forall>es. x = Some es \<longrightarrow> length es \<le> nat n)"
  using assms xpending [of a z n "if c = [] then None else Some c" r]
  by (auto simp: XPending_def held_def split: if_splits sum.splits prod.splits)

lemma load_entry_held:
  assumes "load_entry C M e r = (x, r')" "lc_redis C = R"
  shows "held r' = held r"
  using assms group_get
  by (auto simp: load_entry_def held_def split: option.splits sum.splits prod.splits)

lemma AckAndSkip_held:
  "lc_group C = G \<Longrightarrow> held (sl_redis s) \<subseteq> held (sl_redis (AckAndSkip C i why s)) \<union> {e. fst e = i}"
  using XAck_held [of "sl_rm s" i "sl_redis s"] by (auto simp: AckAndSkip_def split: prod.split)

lemma AckAndSkip_fields [simp]:
  "sl_log (AckAndSkip C i why s) = (i, Skipped why) # sl_log s"
  "sl_inflight (AckAndSkip C i why s) = sl_inflight s" "sl_pool (AckAndSkip C i why s) = sl_pool s"
  by (simp_all add: AckAndSkip_def split: prod.split)

text \<open>The entries of \<open>base\<close> are all with the server still, or acknowledged for a logged reason.\<close>

definition kept :: "stream_entry set \<Rightarrow> 'r sched \<Rightarrow> bool" where
  "kept base s \<longleftrightarrow> base \<subseteq> held (sl_redis s) \<union> {e. fst e \<in> fst ` set (sl_log s)}"

lemma DoRescue_held:
  assumes G: "lc_group C = G"
  shows "held (sl_redis (DoRescue C s)) = held (sl_redis s)" "sl_log (DoRescue C s) = sl_log s"
proof -
  obtain p r where p: "XPending (sl_rm s) G kTasks kGroupMain RESCUE_BATCH_SIZE ''-'' ''+'' [] (sl_redis s) = (p, r)"
    by fastforce
  let ?ids = "\<lambda>ps. map pe_id (filter (\<lambda>item. pe_idle_time_ms item \<ge> MIN_IDLE_MS) ps)"
  obtain x r' where x: "XClaim (sl_rm s) G kTasks kGroupMain (lc_consumer_name C) MIN_IDLE_MS (?ids (the p)) r = (x, r')"
    by fastforce
  show "held (sl_redis (DoRescue C s)) = held (sl_redis s)" "sl_log (DoRescue C s) = sl_log s"
    using p x XPending_held [OF p] XClaim_held [OF x]
    by (cases p; cases x; simp add: DoRescue_def G Let_def)+
qed

lemma kept_skip:
  assumes "lc_group C = G" "kept base s" "held r = held (sl_redis s)"
  shows "kept base ((AckAndSkip C j why (s\<lparr>sl_redis := r\<rparr>))\<lparr>sl_inflight := n, sl_pc := pc\<rparr>)"
proof -
  have "held (sl_redis s) \<subseteq> held (sl_redis (AckAndSkip C j why (s\<lparr>sl_redis := r\<rparr>))) \<union> {e. fst e = j}"
    using AckAndSkip_held [OF assms(1), of "s\<lparr>sl_redis := r\<rparr>" j why] assms(3) by simp
  with assms(2) show ?thesis unfolding kept_def by auto
qed

lemma kept_entry:
  assumes "lc_group C = G" "lc_redis C = R" "kept base s"
  shows "kept base (RunLoop_entry C es ws i s)"
proof (cases es)
  case (Cons e rest)
  obtain x r where l: "load_entry C (sl_rm s) e (sl_redis s) = (x, r)" by fastforce
  note h = load_entry_held [OF l assms(2)]
  show ?thesis
    using assms(3) h kept_skip [OF assms(1,3) h]
    by (cases x; simp add: RunLoop_entry_def Cons l Let_def) (auto simp: kept_def)
qed (use assms(3) in \<open>simp add: RunLoop_entry_def kept_def\<close>)

lemma kept_rescue:
  assumes "lc_group C = G" "lc_redis C = R" "kept base s"
  shows "kept base (DoRescue_entry C now es s)"
proof (cases es)
  case (Cons e rest)
  obtain x r where l: "load_entry C (sl_rm s) e (sl_redis s) = (x, r)" by fastforce
  note h = load_entry_held [OF l assms(2)]
  show ?thesis
    using assms(3) h kept_skip [OF assms(1,3) h]
    by (cases x; cases "GetAvailableWorkersSorted (lc_sort C) now (sl_workers s)";
        simp add: DoRescue_entry_def ProcessStreamEntry_def Cons l Let_def) (auto simp: kept_def)
qed (use assms(3) in \<open>simp add: DoRescue_entry_def kept_def\<close>)

lemma kept_dispatch:
  assumes "lc_group C = G" "kept base s"
  shows "kept base (DoDispatch C E stub rpc t w (s\<lparr>sl_pool := p\<rparr>))"
proof -
  obtain n r where x: "XAck (sl_rm s) G kTasks kGroupMain (t_stream_id t) (sl_redis s) = (n, r)" by fastforce
  show ?thesis
    using assms(2) XAck_held [OF x]
    by (auto simp: DoDispatch_def kept_def Let_def assms(1) x split: sum.split rpc_result.split option.split)
qed

lemma kept_fetch:
  assumes "lc_group C = G" "kept base s"
  shows "kept base (RunLoop_fetch C now s)"
proof -
  obtain x r where x: "XReadGroup (sl_rm s) G kGroupMain (lc_consumer_name C) kTasks LOOP_BATCH_SIZE BLOCK_MS (sl_redis s) = (x, r)"
    by fastforce
  show ?thesis
    using assms(2) XReadGroup_held [OF x]
    by (auto simp: RunLoop_fetch_def kept_def Let_def assms(1) x split: option.split)
qed

lemma kept_step:
  assumes "loop_step C others s s'" "lc_group C = G" "lc_redis C = R"
    and "\<And>r r'. others r r' \<Longrightarrow> held r \<subseteq> held r'" "kept base s"
  shows "kept base s'"
  using assms(1)
proof cases
  case (top now)
  have "kept base (DoRescue C (s\<lparr>sl_last_rescue := now\<rparr>))"
    using assms(5) DoRescue_held [OF assms(2), of "s\<lparr>sl_last_rescue := now\<rparr>"] by (simp add: kept_def)
  with assms(5) show ?thesis unfolding top RunLoop_top_def by (auto simp: kept_def)
next
  case (world r W db)
  then show ?thesis using assms(5) assms(4) by (fastforce simp: kept_def)
next
  case stop
  then show ?thesis using assms(5) by (simp add: kept_def)
qed (use assms(2,3,5) in \<open>auto intro: kept_entry kept_rescue kept_dispatch kept_fetch\<close>)

lemma DoRescue_bound:
  assumes "lc_group C = G"
  shows "sl_inflight (DoRescue C s) \<le> sl_inflight s + 50 \<and> (sl_pc (DoRescue C s) = Fetching \<or> (\<exists>es. sl_pc (DoRescue C s) = Rescuing es))"
proof -
  obtain p r where p: "XPending (sl_rm s) G kTasks kGroupMain RESCUE_BATCH_SIZE ''-'' ''+'' [] (sl_redis s) = (p, r)"
    by fastforce
  let ?ids = "map pe_id (filter (\<lambda>item. pe_idle_time_ms item \<ge> MIN_IDLE_MS) (the p))"
  obtain x r' where x: "XClaim (sl_rm s) G kTasks kGroupMain (lc_consumer_name C) MIN_IDLE_MS ?ids r = (x, r')"
    by fastforce
  have "p \<noteq> None \<Longrightarrow> length (the p) \<le> 50"
    using XPending_held [OF p] by (auto simp: RESCUE_BATCH_SIZE_def)
  moreover have "length ?ids \<le> length (the p)" by simp
  ultimately have "p \<noteq> None \<Longrightarrow> length ?ids \<le> 50" by linarith
  then have "p \<noteq> None \<Longrightarrow> x \<noteq> None \<Longrightarrow> length (the x) \<le> 50"
    using XClaim_held [OF x] by force
  then show ?thesis
    using p x by (cases p; cases x; simp add: DoRescue_def assms Let_def)
qed

lemma capped_step:
  assumes "loop_step C others s s'" "lc_group C = G" "capped s"
  shows "capped s'"
  using assms(1)
proof cases
  case (top now)
  have "capped (DoRescue C (s\<lparr>sl_last_rescue := now\<rparr>))" if "sl_inflight s \<le> 2000"
    using DoRescue_bound [OF assms(2), of "s\<lparr>sl_last_rescue := now\<rparr>"] that by (auto simp: capped_def)
  with assms(3) show ?thesis
    unfolding top(1) RunLoop_top_def MAX_INFLIGHT_def by (auto simp: capped_def top(2))
next
  case (fetch now)
  obtain x r where x: "XReadGroup (sl_rm s) G kGroupMain (lc_consumer_name C) kTasks LOOP_BATCH_SIZE BLOCK_MS (sl_redis s) = (x, r)"
    by fastforce
  have "length es \<le> 20" if "x = Some es" for es
    using XReadGroup_held [OF x] that by (simp add: LOOP_BATCH_SIZE_def)
  then show ?thesis
    using assms(3) fetch(2) by (cases x) (auto simp: fetch(1) RunLoop_fetch_def capped_def Let_def assms(2) x)
next
  case (entry es ws i)
  obtain x r where l: "load_entry C (sl_rm s) (hd es) (sl_redis s) = (x, r)" by fastforce
  show ?thesis
    using assms(3) entry(2) l
    by (cases es; cases x) (simp_all add: entry(1) RunLoop_entry_def capped_def Let_def)
next
  case (rescue es now)
  obtain x r where l: "load_entry C (sl_rm s) (hd es) (sl_redis s) = (x, r)" by fastforce
  show ?thesis
    using assms(3) rescue(2) l
    by (cases es; cases x; cases "GetAvailableWorkersSorted (lc_sort C) now (sl_workers s)")
      (simp_all add: rescue(1) DoRescue_entry_def ProcessStreamEntry_def capped_def Let_def)
next
  case (dispatch xs t w ys E stub rpc)
  have "sl_inflight s' \<le> sl_inflight s \<and> sl_pc s' = sl_pc s"
    unfolding dispatch(1)
    by (simp add: DoDispatch_def Let_def split: sum.split rpc_result.split option.split prod.split)
  with assms(3) show ?thesis by (auto simp: capped_def split: loop_pc.splits)
qed (use assms(3) in \<open>auto simp: capped_def\<close>)

end

section \<open>A consumer group in memory\<close>

type_synonym group_store = "(stream_entry list \<times> stream_entry list) beside"

definition gm_unread :: "group_store \<Rightarrow> stream_entry list" where "gm_unread g = fst (snd g)"
definition gm_pend :: "group_store \<Rightarrow> stream_entry list" where "gm_pend g = snd (snd g)"

definition gm_ops :: "group_store group_ops" where
  "gm_ops =
     \<lparr>g_xgroup_create = \<lambda>key grp i mk. sret (),
      g_xreadgroup = \<lambda>grp c key n b (m, u, p).
        (Inr (if take (nat n) u = [] then [] else [(key, take (nat n) u)]), (m, drop (nat n) u, p @ take (nat n) u)),
      g_xack = \<lambda>key grp i (m, u, p).
        (Inr (int (length (filter (\<lambda>e. fst e = i) p))), (m, u, filter (\<lambda>e. fst e \<noteq> i) p)),
      g_xclaim = \<lambda>key grp c idle ids (m, u, p).
        (Inr (List.map_filter (\<lambda>i. List.find (\<lambda>e. fst e = i) p) ids), (m, u, p)),
      g_xpending = \<lambda>key grp a z n c (m, u, p).
        (Inr (map (\<lambda>e. (fst e, ''c'', 60000, 1)) (take (nat n) p)), (m, u, p))\<rparr>"

lemma map_filter_length: "length (List.map_filter f xs) \<le> length xs"
  by (induction xs) (auto simp: map_filter_simps split: option.split)

interpretation mem_group: consumer_group host_ops gm_ops gm_pend gm_unread
proof
  fix c c3 i key :: string and n b idle :: int and r r' :: group_store and x x2 x3 x4 y
  obtain m u p where r: "r = (m, u, p)" by (cases r) auto
  show "\<exists>es. gm_unread r = es @ gm_unread r' \<and> set (gm_pend r') = set (gm_pend r) \<union> set es \<and>
       (\<forall>res. x = Inr res \<longrightarrow> (res = [] \<and> es = [] \<or> res = [(kTasks, es)]) \<and> length es \<le> nat n)"
    if "g_xreadgroup gm_ops kGroupMain c kTasks n b r = (x, r')"
    using that by (intro exI [of _ "take (nat n) u"]) (auto simp: gm_ops_def r gm_unread_def gm_pend_def split: if_splits)
  show "gm_unread r' = gm_unread r \<and> {e \<in> set (gm_pend r). fst e \<noteq> i} \<subseteq> set (gm_pend r')"
    if "g_xack gm_ops kTasks kGroupMain i r = (x2, r')"
    using that by (auto simp: gm_ops_def r gm_unread_def gm_pend_def)
  show "gm_unread r' = gm_unread r \<and> set (gm_pend r') = set (gm_pend r) \<and>
     (\<forall>es. x3 = Inr es \<longrightarrow> length es \<le> length ids)"
    if "g_xclaim gm_ops kTasks kGroupMain c idle ids r = (x3, r')" for ids
    using that map_filter_length by (auto simp: gm_ops_def r gm_unread_def gm_pend_def)
  show "gm_unread r' = gm_unread r \<and> set (gm_pend r') = set (gm_pend r) \<and>
     (\<forall>ps. x4 = Inr ps \<longrightarrow> length ps \<le> nat n)"
    if "g_xpending gm_ops kTasks kGroupMain a z n c4 r = (x4, r')" for a z c4
    using that by (auto simp: gm_ops_def r gm_unread_def gm_pend_def)
  show "gm_unread r' = gm_unread r \<and> set (gm_pend r') = set (gm_pend r)"
    if "r_get host_ops key r = (y, r')"
    using that by (auto simp: host_ops_def lift_op_def r gm_unread_def gm_pend_def split: prod.splits)
qed

section \<open>Properties\<close>



text \<open>
  Lost units add up until the scheduler stops. A unit whose task was dropped by an exception or a
  failing conversion is never given back: once more than 2000 are lost, the loop only spins at its
  head; no step reads the stream, rescues or starts a dispatch again.
\<close>

theorem lost_capacity_stops_the_loop:
  assumes "(loop_step C others)\<^sup>*\<^sup>* (sched_init M W db r now) s0"
    and "sl_lost s0 > 2000" "sl_pc s0 = AtTop" "(loop_step C others)\<^sup>*\<^sup>* s0 s"
  shows "sl_pc s \<in> {AtTop, LoopExited} \<and> length (sl_pool s) \<le> length (sl_pool s0)"
proof -
  have acc: "accounted s0"
    using assms(1)
  proof (induction rule: rtranclp_induct)
    case base
    show ?case by (simp add: accounted_def sched_init_def)
  qed (rule accounted_step)
  have "sl_pc s \<in> {AtTop, LoopExited} \<and> length (sl_pool s) \<le> length (sl_pool s0) \<and> accounted s \<and> sl_lost s > 2000"
    using assms(4)
  proof (induction rule: rtranclp_induct)
    case base
    then show ?case using assms(2,3) acc by simp
  next
    case (step y z)
    have big: "sl_inflight y > 2000" using step.IH by (simp add: accounted_def)
    have "sl_pc z \<in> {AtTop, LoopExited} \<and> length (sl_pool z) \<le> length (sl_pool y)"
      using step.hyps(2) step.IH big
      by cases (auto simp: RunLoop_top_def MAX_INFLIGHT_def DoDispatch_def Let_def
          split: sum.split rpc_result.split option.split prod.split)
    with step.IH accounted_step [OF step.hyps(2)] lost_step [OF step.hyps(2)] show ?case by auto
  qed
  then show ?thesis by blast
qed

section \<open>The properties on a concrete loop\<close>

definition sample_worker :: WorkerInfo where
  "sample_worker = new_WorkerInfo 0 ''w'' ''addr''"

definition sample_workers :: WorkerManager where
  "sample_workers = HandleRegister 0 ''w'' ''addr'' (new_WorkerManager 30)"

definition up_manager :: RedisManager where
  "up_manager = \<lparr>rm_client = True, rm_script_cache = (\<lambda>_. None)\<rparr>"

definition one_codec :: pb_codec where
  "one_codec = \<lparr>pb_serialize = p_task_id, pb_parse = (\<lambda>s. Some (default_PbTask\<lparr>p_task_id := s\<rparr>))\<rparr>"

definition sample_cfg :: "group_store redis_ops \<Rightarrow> group_store loop_cfg" where
  "sample_cfg R =
     \<lparr>lc_types = sample_types, lc_json = sample_json_lib, lc_codec = one_codec, lc_redis = R,
      lc_group = gm_ops, lc_sort = sort_key load, lc_consumer_name = ''c''\<rparr>"

definition sample_entry :: stream_entry where
  "sample_entry = (''1-0'', ToXAddArgs ''t'' ''j'')"

lemma sample_available: "GetAvailableWorkersSorted (sort_key load) 0 sample_workers = [sample_worker]"
  by (simp add: GetAvailableWorkersSorted_def sample_workers_def HandleRegister_def new_WorkerManager_def
      timed_out_def sample_worker_def new_WorkerInfo_def)

text \<open>A loop with one entry on the stream, after its first step.\<close>

abbreviation sample_start :: "group_store sched" where
  "sample_start \<equiv> sched_init up_manager sample_workers sample_db (ms_empty, [sample_entry], []) 0"

lemma sample_top:
  "(loop_step (sample_cfg host_ops) (\<lambda>r r'. False))\<^sup>*\<^sup>* sample_start (sample_start\<lparr>sl_pc := Fetching\<rparr>)"
proof -
  have "loop_step (sample_cfg host_ops) (\<lambda>r r'. False) sample_start (RunLoop_top (sample_cfg host_ops) 0 sample_start)"
    by (rule loop_step.top) (simp add: sched_init_def)
  moreover have "RunLoop_top (sample_cfg host_ops) 0 sample_start = sample_start\<lparr>sl_pc := Fetching\<rparr>"
    by (simp add: RunLoop_top_def sched_init_def MAX_INFLIGHT_def)
  ultimately show ?thesis by (simp add: r_into_rtranclp)
qed

lemma sample_fetch:
  "(loop_step (sample_cfg host_ops) (\<lambda>r r'. False))\<^sup>*\<^sup>* sample_start
     (sample_start\<lparr>sl_pc := Dispatching [sample_entry] [sample_worker] 0, sl_inflight := 1,
        sl_redis := (ms_empty, [], [sample_entry])\<rparr>)"
proof -
  let ?s = "sample_start\<lparr>sl_pc := Fetching\<rparr>"
  have "loop_step (sample_cfg host_ops) (\<lambda>r r'. False) ?s (RunLoop_fetch (sample_cfg host_ops) 0 ?s)"
    by (rule loop_step.fetch) simp
  moreover have "RunLoop_fetch (sample_cfg host_ops) 0 ?s =
      sample_start\<lparr>sl_pc := Dispatching [sample_entry] [sample_worker] 0, sl_inflight := 1,
        sl_redis := (ms_empty, [], [sample_entry])\<rparr>"
    by (simp add: RunLoop_fetch_def sched_init_def sample_cfg_def sample_available XReadGroup_def up_manager_def
        gm_ops_def LOOP_BATCH_SIZE_def Let_def)
  ultimately have "loop_step (sample_cfg host_ops) (\<lambda>r r'. False) ?s
      (sample_start\<lparr>sl_pc := Dispatching [sample_entry] [sample_worker] 0, sl_inflight := 1,
        sl_redis := (ms_empty, [], [sample_entry])\<rparr>)"
    by simp
  with sample_top show ?thesis by (rule rtranclp.rtrancl_into_rtrancl)
qed



text \<open>A server whose reads fail: every round loses the entry it has just fetched.\<close>

definition failing_reads :: "group_store redis_ops" where
  "failing_reads = host_ops\<lparr>r_get := \<lambda>k. sthrow (StdException ''timeout'')\<rparr>"

definition lossy :: "nat \<Rightarrow> stream_entry list \<Rightarrow> group_store sched" where
  "lossy n p = (sched_init up_manager sample_workers sample_db (ms_empty, [], p) 0)\<lparr>sl_inflight := int n, sl_lost := n\<rparr>"

lemma lose_one:
  assumes "n \<le> 2000"
  shows "(loop_step (sample_cfg failing_reads) (\<lambda>r r'. True))\<^sup>*\<^sup>* (lossy n p) (lossy (Suc n) (p @ [sample_entry]))"
proof -
  let ?C = "sample_cfg failing_reads" and ?R = "loop_step (sample_cfg failing_reads) (\<lambda>r r'. True)"
  let ?s1 = "(lossy n p)\<lparr>sl_workers := sample_workers, sl_db := sample_db, sl_redis := (ms_empty, [sample_entry], p)\<rparr>"
  let ?s2 = "RunLoop_top ?C 0 ?s1"
  let ?s3 = "RunLoop_fetch ?C 0 ?s2"
  have s2: "?s2 = ?s1\<lparr>sl_pc := Fetching\<rparr>"
    using assms by (simp add: RunLoop_top_def lossy_def sched_init_def MAX_INFLIGHT_def)
  have s3: "?s3 = ?s1\<lparr>sl_pc := Dispatching [sample_entry] [sample_worker] 0, sl_inflight := int n + 1,
      sl_redis := (ms_empty, [], p @ [sample_entry])\<rparr>"
    unfolding s2 by (simp add: RunLoop_fetch_def lossy_def sched_init_def sample_cfg_def sample_available
        XReadGroup_def up_manager_def gm_ops_def LOOP_BATCH_SIZE_def Let_def)
  have "ParseStreamEntry sample_entry = Some \<lparr>sp_task_id = ''t'', sp_job_id = ''j'', sp_stream_id = ''1-0''\<rparr>"
    unfolding sample_entry_def by (rule ParseStreamEntry_ToXAddArgs)
  then have l: "load_entry ?C up_manager sample_entry r = (Threw, r)" for r
    by (simp add: load_entry_def sample_cfg_def failing_reads_def GetConnection_def up_manager_def)
  have s4: "RunLoop_entry ?C [sample_entry] [sample_worker] 0 ?s3 = lossy (Suc n) (p @ [sample_entry])"
    unfolding s3 by (simp add: RunLoop_entry_def lossy_def sched_init_def l)
  have "?R (lossy n p) ?s1" by (rule loop_step.world) simp
  moreover have "?R ?s1 ?s2" by (rule loop_step.top) (simp add: lossy_def sched_init_def)
  moreover have "?R ?s2 ?s3" by (rule loop_step.fetch) (simp add: s2)
  moreover have "?R ?s3 (lossy (Suc n) (p @ [sample_entry]))"
    unfolding s4 [symmetric] by (rule loop_step.entry) (simp add: s3)
  ultimately show ?thesis by (meson converse_rtranclp_into_rtranclp rtranclp.rtrancl_refl)
qed

lemma lose_units:
  "n \<le> 2001 \<Longrightarrow> \<exists>p. (loop_step (sample_cfg failing_reads) (\<lambda>r r'. True))\<^sup>*\<^sup>* (lossy 0 []) (lossy n p)"
proof (induction n)
  case (Suc n)
  then obtain p where "(loop_step (sample_cfg failing_reads) (\<lambda>r r'. True))\<^sup>*\<^sup>* (lossy 0 []) (lossy n p)" by auto
  moreover have "n \<le> 2000" using Suc.prems by simp
  ultimately show ?case using lose_one [of n p] by (meson rtranclp_trans)
qed auto

theorem lost_capacity_stops_the_loop_witness:
  "\<exists>s0. (loop_step (sample_cfg failing_reads) (\<lambda>r r'. True))\<^sup>*\<^sup>*
       (sched_init up_manager sample_workers sample_db (ms_empty, [], []) 0) s0 \<and>
     (\<forall>s. (loop_step (sample_cfg failing_reads) (\<lambda>r r'. True))\<^sup>*\<^sup>* s0 s \<longrightarrow> sl_pc s \<in> {AtTop, LoopExited})"
proof -
  have z: "lossy 0 [] = sched_init up_manager sample_workers sample_db (ms_empty, [], []) 0"
    by (simp add: lossy_def sched_init_def)
  obtain p where p: "(loop_step (sample_cfg failing_reads) (\<lambda>r r'. True))\<^sup>*\<^sup>*
      (sched_init up_manager sample_workers sample_db (ms_empty, [], []) 0) (lossy 2001 p)"
    using lose_units [of 2001] unfolding z by auto
  have "sl_lost (lossy 2001 p) > 2000" "sl_pc (lossy 2001 p) = AtTop"
    by (simp_all add: lossy_def sched_init_def)
  from lost_capacity_stops_the_loop [OF p this] p show ?thesis by blast
qed

end
