(* ===== verification/Loop_Dispatch.thy ===== *)
theory Loop_Dispatch
  imports Scheduler_Loop
begin

text \<open>
  More of \<open>scheduler_loop.cpp\<close>: what one batch of entries becomes when nothing goes wrong, what a
  rescue scan does, and the cache of channels to the workers, which many pool threads use at once.
\<close>

section \<open>A batch without exceptions\<close>

text \<open>The loop over the entries of a batch, by itself.\<close>

fun run_batch :: "'r loop_cfg \<Rightarrow> stream_entry list \<Rightarrow> WorkerInfo list \<Rightarrow> nat \<Rightarrow> 'r sched \<Rightarrow> 'r sched" where
  "run_batch C [] ws i s = RunLoop_entry C [] ws i s"
| "run_batch C (e # es) ws i s =
     (let s1 = RunLoop_entry C (e # es) ws i s
      in case sl_pc s1 of Dispatching _ _ j \<Rightarrow> run_batch C es ws j s1 | _ \<Rightarrow> s1)"

fun run_rescue :: "'r loop_cfg \<Rightarrow> int \<Rightarrow> stream_entry list \<Rightarrow> 'r sched \<Rightarrow> 'r sched" where
  "run_rescue C now [] s = DoRescue_entry C now [] s"
| "run_rescue C now (e # es) s =
     (let s1 = DoRescue_entry C now (e # es) s
      in case sl_pc s1 of Rescuing _ \<Rightarrow> run_rescue C now es s1 | _ \<Rightarrow> s1)"

text \<open>The task an entry stands for, by what the keyspace holds.\<close>

definition stored_task :: "'r loop_cfg \<Rightarrow> keyspace \<Rightarrow> stream_entry \<Rightarrow> Task option" where
  "stored_task C v e =
     (case ParseStreamEntry e of None \<Rightarrow> None
      | Some ptr \<Rightarrow>
          (case v (TaskMeta (sp_task_id ptr)) of
             Some (RStr bin) \<Rightarrow>
               map_option (\<lambda>t. t\<lparr>t_stream_id := fst e\<rparr>) (FromMetaBinary (lc_json C) (lc_codec C) bin)
           | _ \<Rightarrow> None))"

text \<open>Some worker has not timed out; booking does not change that.\<close>

definition some_live :: "int \<Rightarrow> WorkerManager \<Rightarrow> bool" where
  "some_live now W \<longleftrightarrow> wm_ok W \<and> (\<exists>i w. map_of (wm_workers W) i = Some w \<and> \<not> timed_out W now w)"

lemma some_live_Prebook:
  assumes "some_live now W"
  shows "some_live now (PrebookTask i n W)"
proof -
  obtain j w where w: "map_of (wm_workers W) j = Some w" "\<not> timed_out W now w" and ok: "wm_ok W"
    using assms by (auto simp: some_live_def)
  have "\<exists>w'. map_of (wm_workers (PrebookTask i n W)) j = Some w' \<and> \<not> timed_out (PrebookTask i n W) now w'"
    using w by (cases "j = i") (auto simp: PrebookTask_def timed_out_def split: option.split)
  with wm_ok_PrebookTask [OF ok] show ?thesis unfolding some_live_def by blast
qed

lemma some_live_available:
  assumes "sorts_by load srt" "some_live now W"
  shows "GetAvailableWorkersSorted srt now W \<noteq> []"
proof -
  obtain i w where "map_of (wm_workers W) i = Some w" "\<not> timed_out W now w"
    using assms(2) by (auto simp: some_live_def)
  then have "w \<in> set (copy_available W now (wm_workers W))"
    by (force simp: copy_available_filter dest: map_of_SomeD)
  then show ?thesis
    by (auto simp: GetAvailableWorkersSorted_def sorts_by.srt_eq_Nil_iff [OF assms(1)])
qed

context redis_store
begin

lemma load_entry_stored:
  assumes "stored_task C (view r) e = Some t" "up r" "lc_redis C = R" "rm_client M"
  shows "\<exists>r'. load_entry C M e r = (Usable t, r') \<and> up r' \<and> view r' = view r"
proof -
  obtain ptr where p: "ParseStreamEntry e = Some ptr"
    using assms(1) by (auto simp: stored_task_def split: option.splits)
  obtain bin where b: "view r (TaskMeta (sp_task_id ptr)) = Some (RStr bin)"
    using assms(1) p by (auto simp: stored_task_def split: option.splits rval.splits)
  obtain t0 where t: "FromMetaBinary (lc_json C) (lc_codec C) bin = Some t0" "t = t0\<lparr>t_stream_id := fst e\<rparr>"
    using assms(1) p b by (auto simp: stored_task_def)
  obtain r' where "r_get R (TaskMeta (sp_task_id ptr)) r = (Inr (Some bin), r')" "up r'" "view r' = view r"
    using get [OF assms(2), of "TaskMeta (sp_task_id ptr)" bin] b by auto
  with p t assms(3,4) show ?thesis by (simp add: load_entry_def GetConnection_def)
qed

lemma run_batch_stored:
  assumes "\<forall>e \<in> set es. stored_task C v e \<noteq> None" "view (sl_redis s) = v" "up (sl_redis s)"
    and "lc_redis C = R" "rm_client (sl_rm s)" "\<not> sl_stop s"
  shows "\<exists>r'. up r' \<and> view r' = v \<and> run_batch C es ws i s =
     s\<lparr>sl_redis := r', sl_pc := AtTop,
       sl_pool := sl_pool s @ map (\<lambda>(k, e). (the (stored_task C v e), ws ! (k mod length ws))) (zip [i..<i + length es] es),
       sl_workers := fold (\<lambda>k. PrebookTask (wi_worker_id (ws ! (k mod length ws))) 1) [i..<i + length es] (sl_workers s)\<rparr>"
  using assms
proof (induction es arbitrary: i s)
  case Nil
  then show ?case by (intro exI [of _ "sl_redis s"]) (simp add: RunLoop_entry_def)
next
  case (Cons e es)
  obtain t where t: "stored_task C v e = Some t" using Cons.prems(1) by auto
  obtain r1 where r1: "load_entry C (sl_rm s) e (sl_redis s) = (Usable t, r1)" "up r1" "view r1 = v"
    using load_entry_stored [of C "sl_redis s" e t] t Cons.prems by auto
  let ?w = "ws ! (i mod length ws)"
  let ?s1 = "s\<lparr>sl_redis := r1, sl_workers := PrebookTask (wi_worker_id ?w) 1 (sl_workers s),
      sl_pool := sl_pool s @ [(t, ?w)], sl_pc := Dispatching es ws (i + 1)\<rparr>"
  have e: "RunLoop_entry C (e # es) ws i s = ?s1"
    using r1(1) Cons.prems(6) by (simp add: RunLoop_entry_def Let_def)
  obtain r' where "up r'" "view r' = v" "run_batch C es ws (Suc i) ?s1 =
     ?s1\<lparr>sl_redis := r', sl_pc := AtTop,
       sl_pool := sl_pool ?s1 @ map (\<lambda>(k, e). (the (stored_task C v e), ws ! (k mod length ws))) (zip [Suc i..<Suc i + length es] es),
       sl_workers := fold (\<lambda>k. PrebookTask (wi_worker_id (ws ! (k mod length ws))) 1) [Suc i..<Suc i + length es] (sl_workers ?s1)\<rparr>"
    using Cons.IH [of ?s1 "Suc i"] r1(2,3) Cons.prems by auto
  moreover have "[i..<i + length (e # es)] = i # [Suc i..<Suc i + length es]"
    using upt_conv_Cons [of i "i + Suc (length es)"] by (simp del: upt_Suc)
  ultimately show ?case
    using e t by (intro exI [of _ r']) (simp add: Let_def)
qed

lemma run_rescue_stored:
  assumes "\<forall>e \<in> set es. stored_task C v e \<noteq> None" "view (sl_redis s) = v" "up (sl_redis s)"
    and "lc_redis C = R" "rm_client (sl_rm s)" "sorts_by load (lc_sort C)" "some_live now (sl_workers s)"
  shows "\<exists>s'. run_rescue C now es s = s' \<and> sl_pc s' = Fetching \<and> sl_inflight s' = sl_inflight s \<and>
     sl_log s' = sl_log s \<and> map fst (sl_pool s') = map fst (sl_pool s) @ map (\<lambda>e. the (stored_task C v e)) es"
  using assms
proof (induction es arbitrary: s)
  case Nil
  then show ?case by (simp add: DoRescue_entry_def)
next
  case (Cons e es)
  obtain t where t: "stored_task C v e = Some t" using Cons.prems(1) by auto
  obtain r1 where r1: "load_entry C (sl_rm s) e (sl_redis s) = (Usable t, r1)" "up r1" "view r1 = v"
    using load_entry_stored [of C "sl_redis s" e t] t Cons.prems by auto
  obtain w ws where w: "GetAvailableWorkersSorted (lc_sort C) now (sl_workers s) = w # ws"
    using some_live_available [OF Cons.prems(6,7)] by (meson list.exhaust)
  let ?s1 = "s\<lparr>sl_redis := r1, sl_workers := PrebookTask (wi_worker_id w) 1 (sl_workers s),
      sl_pool := sl_pool s @ [(t, w)], sl_pc := Rescuing es\<rparr>"
  have e: "DoRescue_entry C now (e # es) s = ?s1"
    using r1(1) w by (simp add: DoRescue_entry_def ProcessStreamEntry_def)
  have "some_live now (sl_workers ?s1)" using some_live_Prebook Cons.prems(7) by simp
  with Cons.IH [of ?s1] r1(2,3) Cons.prems have "\<exists>s'. run_rescue C now es ?s1 = s' \<and> sl_pc s' = Fetching \<and>
     sl_inflight s' = sl_inflight ?s1 \<and> sl_log s' = sl_log ?s1 \<and>
     map fst (sl_pool s') = map fst (sl_pool ?s1) @ map (\<lambda>e. the (stored_task C v e)) es"
    by simp
  with e t show ?case by (simp add: Let_def)
qed

end

lemma round_robin_count:
  "j < m \<Longrightarrow> length (filter (\<lambda>k. k mod m = j) [0..<n]) = n div m + (if j < n mod m then 1 else 0)"
proof (induction n)
  case (Suc n)
  then show ?case by (auto simp: mod_Suc div_Suc)
qed simp

lemma round_robin_share:
  assumes "distinct ws" "j < length ws"
  shows "length (filter (\<lambda>p. snd p = ws ! j) (map (\<lambda>(k, e). (f e, ws ! (k mod length ws))) (zip [0..<length es] es))) =
     length es div length ws + (if j < length es mod length ws then 1 else 0)"
proof -
  let ?m = "length ws"
  have "0 < ?m" using assms(2) by linarith
  then have w: "ws ! (k mod ?m) = ws ! j \<longleftrightarrow> k mod ?m = j" for k
    using assms by (simp add: nth_eq_iff_index_eq)
  have "length (filter (\<lambda>p. snd p = ws ! j) (map (\<lambda>(k, e). (f e, ws ! (k mod ?m))) (zip ks es))) =
      length (filter (\<lambda>k. k mod ?m = j) ks)" if "length ks = length es" for ks :: "nat list"
    using that
  proof (induction ks arbitrary: es)
    case (Cons k ks)
    then obtain e es' where "es = e # es'" by (cases es) auto
    with Cons show ?case by (simp add: w)
  qed simp
  from this [of "[0..<length es]"] round_robin_count [OF assms(2)] show ?thesis by simp
qed

section \<open>Properties of batches\<close>

text \<open>
  A batch is spread evenly. When every entry of a batch names a stored task and the loop is not
  stopped, the loop over the batch hands every task to the pool, in order, with the entry's stream
  id in it for the acknowledgement, and of \<open>m\<close> workers each gets \<open>n div m\<close> tasks of the \<open>n\<close>,
  the first \<open>n mod m\<close> (the least loaded) one more; nothing is acknowledged yet.
\<close>

theorem batch_spread_evenly:
  assumes "redis_store R view up" "lc_redis C = R" "up (sl_redis s)" "rm_client (sl_rm s)" "\<not> sl_stop s"
    and "\<forall>e \<in> set es. stored_task C (view (sl_redis s)) e \<noteq> None"
    and "distinct ws" "s' = run_batch C es ws 0 s"
  shows "\<exists>new. sl_pool s' = sl_pool s @ new \<and>
     map fst new = map (\<lambda>e. the (stored_task C (view (sl_redis s)) e)) es \<and>
     (\<forall>j < length ws. length (filter (\<lambda>p. snd p = ws ! j) new) =
        length es div length ws + (if j < length es mod length ws then 1 else 0)) \<and>
     sl_pc s' = AtTop \<and> sl_inflight s' = sl_inflight s \<and> sl_log s' = sl_log s"
proof -
  let ?new = "map (\<lambda>(k, e). (the (stored_task C (view (sl_redis s)) e), ws ! (k mod length ws))) (zip [0..<length es] es)"
  obtain r' where r': "s' = s\<lparr>sl_redis := r', sl_pc := AtTop, sl_pool := sl_pool s @ ?new,
       sl_workers := fold (\<lambda>k. PrebookTask (wi_worker_id (ws ! (k mod length ws))) 1) [0..<length es] (sl_workers s)\<rparr>"
    using redis_store.run_batch_stored [OF assms(1,6) refl assms(3,2,4,5), where i = 0 and ws = ws] assms(8) by auto
  have "map fst ?new = map (\<lambda>e. the (stored_task C (view (sl_redis s)) e)) (map snd (zip [0..<length es] es))"
    by (simp only: map_map) (rule map_cong, auto)
  then have m: "map fst ?new = map (\<lambda>e. the (stored_task C (view (sl_redis s)) e)) es" by simp
  show ?thesis
    unfolding r' using m round_robin_share [OF assms(7), of _ "\<lambda>e. the (stored_task C (view (sl_redis s)) e)" es]
    by (intro exI [of _ ?new] conjI) simp_all
qed

text \<open>
  Entries nobody acknowledged are taken over. When the scan is due, the pending list shows
  entries idle for at least a minute and the server grants the claim, every claimed entry that
  names a stored task is dispatched again by this scheduler, provided some worker is alive.
\<close>

theorem stale_entries_redispatched:
  assumes "redis_store R view up" "lc_redis C = R" "rm_client (sl_rm s)" "\<not> sl_stop s" "sl_inflight s \<le> 2000"
    and "sorts_by load (lc_sort C)" "some_live now (sl_workers s)" "now - sl_last_rescue s > 10000000000"
    and "XPending (sl_rm s) (lc_group C) kTasks kGroupMain 50 ''-'' ''+'' [] (sl_redis s) = (Some pending, r1)"
    and "ids = map pe_id (filter (\<lambda>item. pe_idle_time_ms item \<ge> 60000) pending)" "ids \<noteq> []"
    and "XClaim (sl_rm s) (lc_group C) kTasks kGroupMain (lc_consumer_name C) 60000 ids r1 = (Some claimed, r2)"
    and "up r2" "\<forall>e \<in> set claimed. stored_task C (view r2) e \<noteq> None"
    and "s' = run_rescue C now claimed (RunLoop_top C now s)"
  shows "map fst (sl_pool s') = map fst (sl_pool s) @ map (\<lambda>e. the (stored_task C (view r2) e)) claimed \<and>
     sl_inflight s' = sl_inflight s + int (length claimed) \<and> sl_pc s' = Fetching \<and> sl_log s' = sl_log s"
proof -
  let ?s = "s\<lparr>sl_last_rescue := now, sl_redis := r2, sl_inflight := sl_inflight s + int (length claimed),
      sl_pc := Rescuing claimed\<rparr>"
  have "RunLoop_top C now s = ?s"
    using assms(4,5,8,9,11,12) unfolding assms(10)
    by (simp add: RunLoop_top_def DoRescue_def MAX_INFLIGHT_def MIN_IDLE_MS_def RESCUE_BATCH_SIZE_def Let_def)
  with redis_store.run_rescue_stored [OF assms(1), of claimed C "view r2" ?s now] assms(2,3,6,7,13,14,15)
  show ?thesis by simp
qed

text \<open>
  A dispatch that the worker did not take leaves the entry to be rescued: no connection, a failed
  call and a refusal each put the row back to \<open>PENDING\<close>, give the unit of the counter back and
  leave the stream alone, so that the entry stays pending; an accepted task is acknowledged, and
  its row is not touched.
\<close>

theorem refused_dispatch_stays_pending:
  assumes "s' = DoDispatch C (tx_ok now) stub rpc t w s" "TaskToProto (lc_json C) t = Inr q"
    and "pg_uuid_ok (lc_types C) (t_task_id t)" "find_task (sl_db s) (t_task_id t) = Some r"
  shows "sl_inflight s' = sl_inflight s - 1 \<and>
     (if stub \<and> rpc (wi_address w) q = RpcReply None
      then (t_stream_id t, Accepted (t_task_id t) (wi_worker_id w)) \<in> set (sl_log s') \<and> sl_db s' = sl_db s
      else sl_redis s' = sl_redis s \<and> sl_log s' = sl_log s \<and>
        find_task (sl_db s') (t_task_id t) = Some (r\<lparr>tr_state := ST_PENDING, tr_worker_id := None, tr_start_ts := None\<rparr>))"
proof -
  have f: "find_task (snd (RevertTaskToPending (lc_types C) (tx_ok now) (t_task_id t) (sl_db s))) (t_task_id t) =
      Some (r\<lparr>tr_state := ST_PENDING, tr_worker_id := None, tr_start_ts := None\<rparr>)"
    using assms(3,4) find_task_self [OF assms(4), of pending_row]
    by (simp add: RevertTaskToPending_ok pending_row_def)
  show ?thesis
    unfolding assms(1) DoDispatch_def Let_def
    using f assms(2) by (simp split: rpc_result.split option.split prod.split)
qed

text \<open>A server that holds the metadata of one task, and a loop on it.\<close>

definition meta_store :: mem_store where
  "meta_store = \<lparr>ms_keys = [TaskMeta ''t'' \<mapsto> KStr ''t''], ms_next = 0\<rparr>"

abbreviation meta_side :: "stream_entry list \<times> stream_entry list" where
  "meta_side \<equiv> ([], [sample_entry])"

abbreviation meta_redis :: group_store where
  "meta_redis \<equiv> (meta_store, meta_side)"

definition meta_sched :: "group_store sched" where
  "meta_sched = sched_init up_manager sample_workers sample_db (meta_store, [], [sample_entry]) 0"

lemma meta_view: "host_view (meta_store, x) (TaskMeta ''t'') = Some (RStr ''t'')"
  by (simp add: host_view_def ms_view_def meta_store_def)

lemma meta_up: "host_up (meta_store, x)"
  by (simp add: host_up_def ms_up_def meta_store_def)

lemma meta_stored:
  "\<exists>t. stored_task (sample_cfg host_ops) (host_view (meta_store, x)) sample_entry = Some t \<and> t_task_id t = ''t''"
proof -
  have "ParseStreamEntry sample_entry = Some \<lparr>sp_task_id = ''t'', sp_job_id = ''j'', sp_stream_id = ''1-0''\<rparr>"
    unfolding sample_entry_def by (rule ParseStreamEntry_ToXAddArgs)
  then show ?thesis
    by (simp add: stored_task_def meta_view sample_cfg_def FromMetaBinary_def one_codec_def TaskFromProto_def)
qed

theorem batch_spread_evenly_witness:
  "\<exists>new. sl_pool (run_batch (sample_cfg host_ops) [sample_entry, sample_entry, sample_entry]
       [sample_worker, sample_worker\<lparr>wi_worker_id := ''v''\<rparr>] 0 meta_sched) = new \<and>
     length (filter (\<lambda>p. snd p = sample_worker) new) = 2"
proof -
  let ?ws = "[sample_worker, sample_worker\<lparr>wi_worker_id := ''v''\<rparr>]"
  have d: "distinct ?ws" by (simp add: sample_worker_def new_WorkerInfo_def)
  have "sl_redis meta_sched = meta_redis" by (simp add: meta_sched_def sched_init_def)
  then have st: "\<forall>e \<in> set [sample_entry, sample_entry, sample_entry].
      stored_task (sample_cfg host_ops) (host_view (sl_redis meta_sched)) e \<noteq> None" and u: "host_up (sl_redis meta_sched)"
    using meta_stored [of meta_side] meta_up by auto
  have m: "lc_redis (sample_cfg host_ops) = host_ops" "rm_client (sl_rm meta_sched)" "\<not> sl_stop meta_sched"
    "sl_pool meta_sched = []"
    by (simp_all add: sample_cfg_def meta_sched_def sched_init_def up_manager_def)
  obtain new where new: "sl_pool (run_batch (sample_cfg host_ops) [sample_entry, sample_entry, sample_entry] ?ws 0 meta_sched) = new"
    "\<forall>j < length ?ws. length (filter (\<lambda>p. snd p = ?ws ! j) new) =
        length [sample_entry, sample_entry, sample_entry] div length ?ws +
        (if j < length [sample_entry, sample_entry, sample_entry] mod length ?ws then 1 else 0)"
    using batch_spread_evenly [OF host_store m(1) u m(2,3) st d refl] m(4) by auto
  have "Suc (Suc (Suc 0)) div Suc (Suc 0) = 1" "Suc (Suc (Suc 0)) mod Suc (Suc 0) = 1" by code_simp+
  with new(2) [THEN spec, of 0] have "length (filter (\<lambda>p. snd p = sample_worker) new) = 2" by simp
  with new(1) show ?thesis by blast
qed

theorem stale_entries_redispatched_witness:
  "map (t_task_id \<circ> fst) (sl_pool (run_rescue (sample_cfg host_ops) 10000000001 [sample_entry]
     (RunLoop_top (sample_cfg host_ops) 10000000001 meta_sched))) = [''t'']"
proof -
  have r: "sl_redis meta_sched = meta_redis" by (simp add: meta_sched_def sched_init_def)
  have m: "lc_redis (sample_cfg host_ops) = host_ops" "rm_client (sl_rm meta_sched)" "\<not> sl_stop meta_sched"
    "sl_inflight meta_sched \<le> 2000" "10000000001 - sl_last_rescue meta_sched > 10000000000"
    "sl_pool meta_sched = []"
    by (simp_all add: sample_cfg_def meta_sched_def sched_init_def up_manager_def)
  have srt: "sorts_by load (lc_sort (sample_cfg host_ops))"
    using load_sort.sorts_by_axioms by (simp add: sample_cfg_def)
  have live: "some_live 10000000001 (sl_workers meta_sched)"
    using wm_ok_HandleRegister [OF wm_ok_new, of 0 "''w''" "''addr''" 30]
    by (simp add: some_live_def meta_sched_def sched_init_def sample_workers_def)
      (simp add: HandleRegister_def new_WorkerManager_def timed_out_def new_WorkerInfo_def)
  have p: "XPending (sl_rm meta_sched) (lc_group (sample_cfg host_ops)) kTasks kGroupMain 50 ''-'' ''+'' [] (sl_redis meta_sched) =
      (Some [\<lparr>pe_id = ''1-0'', pe_consumer = ''c'', pe_idle_time_ms = 60000, pe_delivery_count = 1\<rparr>], meta_redis)"
    using m(2) by (simp add: XPending_def r sample_cfg_def gm_ops_def sample_entry_def)
  have c: "XClaim (sl_rm meta_sched) (lc_group (sample_cfg host_ops)) kTasks kGroupMain (lc_consumer_name (sample_cfg host_ops))
      60000 [''1-0''] meta_redis = (Some [sample_entry], meta_redis)"
    using m(2) by (simp add: XClaim_def sample_cfg_def gm_ops_def sample_entry_def map_filter_simps)
  have st: "\<forall>e \<in> set [sample_entry]. stored_task (sample_cfg host_ops) (host_view meta_redis) e \<noteq> None"
    using meta_stored [of meta_side] by auto
  have i: "[''1-0''] = map pe_id (filter (\<lambda>item. pe_idle_time_ms item \<ge> 60000)
      [\<lparr>pe_id = ''1-0'', pe_consumer = ''c'', pe_idle_time_ms = 60000, pe_delivery_count = 1\<rparr>])" "[''1-0''] \<noteq> []"
    by simp_all
  have "map fst (sl_pool (run_rescue (sample_cfg host_ops) 10000000001 [sample_entry] (RunLoop_top (sample_cfg host_ops) 10000000001 meta_sched))) =
      map fst (sl_pool meta_sched) @ map (\<lambda>e. the (stored_task (sample_cfg host_ops) (host_view meta_redis) e)) [sample_entry]"
    using stale_entries_redispatched [OF host_store m(1-4) srt live m(5) p i c meta_up st refl] by simp
  then show ?thesis using meta_stored [of meta_side] m(6) by (auto simp flip: map_map)
qed

theorem refused_dispatch_stays_pending_witness:
  "find_task (sl_db (DoDispatch (sample_cfg host_ops) (tx_ok 1) True (\<lambda>_ _. RpcReply (Some ''busy''))
     (default_Task\<lparr>t_task_id := ''b''\<rparr>) sample_worker meta_sched)) ''b'' = Some (sample_row ''b'' ST_PENDING 0)"
proof -
  let ?t = "default_Task\<lparr>t_task_id := ''b''\<rparr>" and ?rpc = "\<lambda>_ _. RpcReply (Some ''busy'')"
  obtain q where q: "TaskToProto (lc_json (sample_cfg host_ops)) ?t = Inr q"
    by (simp add: TaskToProto_def sample_cfg_def sample_json_lib_def)
  have "find_task (sl_db meta_sched) (t_task_id ?t) = Some (sample_row ''b'' ST_RUNNING 0)"
    "pg_uuid_ok (lc_types (sample_cfg host_ops)) (t_task_id ?t)"
    by (simp_all add: meta_sched_def sched_init_def sample_cfg_def)
  from refused_dispatch_stays_pending [OF refl q this(2,1), of 1 True ?rpc sample_worker]
  show ?thesis by (simp add: sample_row_def)
qed

section \<open>The cache of channels\<close>

text \<open>
  \<open>GetWorkerStub\<close>: two critical sections with the creation of a channel between them. Channels
  are numbered as they are created; \<open>gs_making\<close> are the threads between the sections, and
  \<open>gs_given\<close> records which channel each finished call uses.
\<close>

record stub_cache =
  gs_cache :: "string \<Rightarrow> nat option"
  gs_next :: nat
  gs_making :: "(string \<times> nat) list"
  gs_given :: "(string \<times> nat) list"

definition GetWorkerStub_lookup :: "string \<Rightarrow> stub_cache \<Rightarrow> stub_cache" where
  "GetWorkerStub_lookup address s =
     (case gs_cache s address of
        Some channel \<Rightarrow> s\<lparr>gs_given := (address, channel) # gs_given s\<rparr>
      | None \<Rightarrow> s\<lparr>gs_making := gs_making s @ [(address, gs_next s)], gs_next := gs_next s + 1\<rparr>)"

definition GetWorkerStub_insert :: "string \<Rightarrow> nat \<Rightarrow> stub_cache \<Rightarrow> stub_cache" where
  "GetWorkerStub_insert address new_channel s =
     (case gs_cache s address of
        Some channel \<Rightarrow> s\<lparr>gs_given := (address, channel) # gs_given s\<rparr>
      | None \<Rightarrow> s\<lparr>gs_cache := (gs_cache s)(address \<mapsto> new_channel),
                  gs_given := (address, new_channel) # gs_given s\<rparr>)"

inductive stub_step :: "stub_cache \<Rightarrow> stub_cache \<Rightarrow> bool" where
  lookup: "stub_step s (GetWorkerStub_lookup address s)"
| insert: "gs_making s = xs @ (address, c) # ys \<Longrightarrow>
    stub_step s (GetWorkerStub_insert address c (s\<lparr>gs_making := xs @ ys\<rparr>))"

definition empty_stubs :: stub_cache where
  "empty_stubs = \<lparr>gs_cache = (\<lambda>_. None), gs_next = 0, gs_making = [], gs_given = []\<rparr>"

text \<open>
  One channel per worker. However many pool threads ask for the same worker at once, all calls
  that have finished use the one channel that is in the cache, although several may have been
  created, and no address shares a channel with another.
\<close>

theorem one_channel_per_worker:
  assumes "stub_step\<^sup>*\<^sup>* empty_stubs s"
  shows "(\<forall>(address, channel) \<in> set (gs_given s). gs_cache s address = Some channel) \<and>
     (\<forall>a b c. gs_cache s a = Some c \<longrightarrow> gs_cache s b = Some c \<longrightarrow> a = b)"
proof -
  let ?inv = "\<lambda>s. (\<forall>(a, c) \<in> set (gs_given s). gs_cache s a = Some c) \<and>
     (\<forall>a b c. gs_cache s a = Some c \<longrightarrow> gs_cache s b = Some c \<longrightarrow> a = b) \<and>
     (\<forall>a c. gs_cache s a = Some c \<longrightarrow> c < gs_next s \<and> c \<notin> snd ` set (gs_making s)) \<and>
     distinct (map snd (gs_making s)) \<and> (\<forall>(a, c) \<in> set (gs_making s). c < gs_next s)"
  have "?inv s"
    using assms
  proof (induction rule: rtranclp_induct)
    case base
    show ?case by (simp add: empty_stubs_def)
  next
    case (step y z)
    from step.hyps(2) show ?case
    proof cases
      case (lookup address)
      then show ?thesis using step.IH
        by (cases "gs_cache y address") (force simp: GetWorkerStub_lookup_def)+
    next
      case (insert xs address c ys)
      show ?thesis
      proof (cases "gs_cache y address")
        case None
        then have new: "gs_cache y a \<noteq> Some c" for a using step.IH insert(2) by auto
        have gv: "(address, d) \<notin> set (gs_given y)" for d using step.IH None by fastforce
        then show ?thesis using step.IH new None insert(2) unfolding insert(1)
          by (auto simp: GetWorkerStub_insert_def)
      next
        case (Some d)
        then show ?thesis using step.IH insert(2) unfolding insert(1)
          by (auto simp: GetWorkerStub_insert_def)
      qed
    qed
  qed
  then show ?thesis by blast
qed

theorem one_channel_per_worker_witness:
  "\<exists>s. stub_step\<^sup>*\<^sup>* empty_stubs s \<and> gs_given s = [(''w'', 1), (''w'', 1)] \<and> gs_cache s ''w'' = Some 1"
proof -
  let ?s1 = "GetWorkerStub_lookup ''w'' empty_stubs"
  let ?s2 = "GetWorkerStub_lookup ''w'' ?s1"
  let ?s3 = "GetWorkerStub_insert ''w'' 1 (?s2\<lparr>gs_making := [(''w'', 0)] @ []\<rparr>)"
  let ?s4 = "GetWorkerStub_insert ''w'' 0 (?s3\<lparr>gs_making := [] @ []\<rparr>)"
  note d = GetWorkerStub_lookup_def GetWorkerStub_insert_def empty_stubs_def
  have "stub_step empty_stubs ?s1" "stub_step ?s1 ?s2" by (rule stub_step.lookup)+
  moreover have "stub_step ?s2 ?s3" by (rule stub_step.insert) (simp add: d)
  moreover have "stub_step ?s3 ?s4" by (rule stub_step.insert) (simp add: d)
  ultimately have r: "stub_step\<^sup>*\<^sup>* empty_stubs ?s4"
    by (meson converse_rtranclp_into_rtranclp rtranclp.rtrancl_refl)
  have g: "gs_given ?s4 = [(''w'', 1), (''w'', 1)]" by (simp add: d)
  have "gs_cache ?s4 ''w'' = Some 1" using one_channel_per_worker [OF r] g by simp
  with r g show ?thesis by blast
qed

end
