(* ===== verification/Task_Stream.thy ===== *)
theory Task_Stream
  imports Key_Invariant Loop_Dispatch Scheduler_Service
begin

text \<open>
  The task stream between its producers (the layout of a request, the completion script, the
  retries) and its consumer, the loop of the scheduler: a server that hosts the script and a
  consumer group, what each operation of the producers puts on the stream, and that every task the
  loop has in its hands was loaded from an entry of the stream.
\<close>

section \<open>A server with the script and the consumer group\<close>

text \<open>
  \<open>opn\<close> are the entries of the group that were not delivered yet, or were delivered and not
  acknowledged. An entry of the stream is one of them, or it is one of \<open>X\<close>; the entries \<open>Y\<close> are still there.
\<close>

definition tracked ::
  "('r \<Rightarrow> keyspace) \<Rightarrow> ('r \<Rightarrow> stream_entry set) \<Rightarrow> stream_entry set \<Rightarrow> stream_entry set \<Rightarrow> 'r \<Rightarrow> bool" where
  "tracked view opn X Y r \<longleftrightarrow>
     Y \<subseteq> set (stream_at (view r) kTasks) \<and> set (stream_at (view r) kTasks) \<subseteq> X \<union> opn r"

definition still_open :: "('r \<Rightarrow> keyspace) \<Rightarrow> ('r \<Rightarrow> stream_entry set) \<Rightarrow> 'r \<Rightarrow> 'r \<Rightarrow> bool" where
  "still_open view opn r r' \<longleftrightarrow> set (stream_at (view r) kTasks) \<inter> opn r \<subseteq> opn r'"

text \<open>
  The laws: commands and script add entries as undelivered ones and remove none; reading and
  claiming hand out entries of the stream and acknowledge none; stream ids are unique.
\<close>

locale task_stream = script_host R view up SC sha hosted script
  for R :: "'r redis_ops" and view :: "'r \<Rightarrow> keyspace" and up :: "'r \<Rightarrow> bool"
    and SC :: "'r script_ops" and sha :: "string \<Rightarrow> string" and hosted :: "'r \<Rightarrow> string set" and script :: string +
  fixes G :: "'r group_ops" and opn :: "'r \<Rightarrow> stream_entry set"
  assumes commands_tracked: "script_host R view (\<lambda>r. up r \<and> tracked view opn X Y r) SC sha hosted script"
  and ids_distinct: "up r \<Longrightarrow> distinct (map fst (stream_at (view r) kTasks))"
  and read_entries:
    "up r \<Longrightarrow> g_xreadgroup G kGroupMain c kTasks n b r = (x, r') \<Longrightarrow>
     up r' \<and> view r' = view r \<and> still_open view opn r r' \<and>
     (\<forall>res k es. x = Inr res \<longrightarrow> (k, es) \<in> List.set res \<longrightarrow> List.set es \<subseteq> List.set (stream_at (view r) kTasks))"
  and claimed_entries:
    "up r \<Longrightarrow> g_xclaim G kTasks kGroupMain c idle ids r = (y, r') \<Longrightarrow>
     up r' \<and> view r' = view r \<and> still_open view opn r r' \<and>
     (\<forall>es. y = Inr es \<longrightarrow> List.set es \<subseteq> List.set (stream_at (view r) kTasks))"
  and ack_keeps:
    "up r \<Longrightarrow> g_xack G kTasks kGroupMain i r = (z, r') \<Longrightarrow>
     up r' \<and> view r' = view r \<and> {e \<in> opn r. fst e \<noteq> i} \<subseteq> opn r'"
  and pending_keeps:
    "up r \<Longrightarrow> g_xpending G kTasks kGroupMain a e n c4 r = (p, r') \<Longrightarrow>
     up r' \<and> view r' = view r \<and> still_open view opn r r'"
begin

lemma still_open_refl: "still_open view opn r r"
  by (simp add: still_open_def)

lemma still_open_trans:
  "still_open view opn r r1 \<Longrightarrow> view r1 = view r \<Longrightarrow> still_open view opn r1 r2 \<Longrightarrow> still_open view opn r r2"
  by (auto simp: still_open_def)

lemma XReadGroup_entries:
  assumes "up r" "XReadGroup M G kGroupMain c kTasks n b r = (x, r')"
  shows "up r' \<and> view r' = view r \<and> still_open view opn r r' \<and>
    (\<forall>es. x = Some es \<longrightarrow> List.set es \<subseteq> List.set (stream_at (view r) kTasks))"
proof (cases "rm_client M")
  case True
  obtain y r1 where y: "g_xreadgroup G kGroupMain c kTasks n b r = (y, r1)" by fastforce
  from assms(2) True y read_entries [OF assms(1) y] show ?thesis
    by (auto simp: XReadGroup_def split: sum.splits list.splits)
qed (use assms still_open_refl in \<open>simp add: XReadGroup_def\<close>)

lemma XClaim_entries:
  assumes "up r" "XClaim M G kTasks kGroupMain c idle ids r = (x, r')"
  shows "up r' \<and> view r' = view r \<and> still_open view opn r r' \<and>
    (\<forall>es. x = Some es \<longrightarrow> List.set es \<subseteq> List.set (stream_at (view r) kTasks))"
  using assms claimed_entries [OF assms(1), of c idle ids] still_open_refl
  by (auto simp: XClaim_def split: if_splits sum.splits prod.splits)

lemma XAck_keeps:
  "up r \<Longrightarrow> XAck M G kTasks kGroupMain i r = (x, r') \<Longrightarrow>
   up r' \<and> view r' = view r \<and> {e \<in> opn r. fst e \<noteq> i} \<subseteq> opn r'"
  using ack_keeps [of r i] by (auto simp: XAck_def split: if_splits sum.splits prod.splits)

lemma XPending_keeps:
  "up r \<Longrightarrow> XPending M G kTasks kGroupMain n a z c r = (x, r') \<Longrightarrow>
   up r' \<and> view r' = view r \<and> still_open view opn r r'"
  using pending_keeps [of r a z n "if c = [] then None else Some c"] still_open_refl
  by (auto simp: XPending_def split: if_splits sum.splits prod.splits)

end

section \<open>The consumer\<close>

text \<open>Every key that may hold a task holds a string, if anything.\<close>

definition metas_readable :: "keyspace \<Rightarrow> bool" where
  "metas_readable v \<longleftrightarrow> (\<forall>i. v (TaskMeta i) = None \<or> (\<exists>x. v (TaskMeta i) = Some (RStr x)))"

text \<open>What a step of the loop leaves: entries in hand from the stream, dispatches from entries in hand.\<close>

definition loop_moves :: "'r loop_cfg \<Rightarrow> keyspace \<Rightarrow> 'r sched \<Rightarrow> 'r sched \<Rightarrow> bool" where
  "loop_moves C v l l' \<longleftrightarrow> sl_rm l' = sl_rm l \<and>
     set (in_hand (sl_pc l')) \<subseteq> set (in_hand (sl_pc l)) \<union> set (stream_at v kTasks) \<and>
     (\<forall>x \<in> set (sl_pool l'). x \<in> set (sl_pool l) \<or>
        (\<exists>e \<in> set (in_hand (sl_pc l)). stored_task C v e = Some (fst x)))"

text \<open>Entries stay open, except that one whose task cannot be loaded may be acknowledged and skipped.\<close>

definition kept_open :: "'r loop_cfg \<Rightarrow> ('r \<Rightarrow> keyspace) \<Rightarrow> ('r \<Rightarrow> stream_entry set) \<Rightarrow> 'r \<Rightarrow> 'r \<Rightarrow> bool" where
  "kept_open C view opn r r' \<longleftrightarrow>
     (\<forall>e \<in> set (stream_at (view r) kTasks) \<inter> opn r. stored_task C (view r) e \<noteq> None \<longrightarrow> e \<in> opn r')"

definition loop_keeps ::
  "'r loop_cfg \<Rightarrow> ('r \<Rightarrow> keyspace) \<Rightarrow> ('r \<Rightarrow> bool) \<Rightarrow> ('r \<Rightarrow> stream_entry set) \<Rightarrow> 'r sched \<Rightarrow> 'r sched \<Rightarrow> bool" where
  "loop_keeps C view up opn l l' \<longleftrightarrow>
     up (sl_redis l') \<and> view (sl_redis l') = view (sl_redis l) \<and> kept_open C view opn (sl_redis l) (sl_redis l') \<and>
     loop_moves C (view (sl_redis l)) l l'"

definition loaded_as :: "'r loop_cfg \<Rightarrow> keyspace \<Rightarrow> stream_entry \<Rightarrow> loaded \<Rightarrow> bool" where
  "loaded_as C v e x \<longleftrightarrow>
     (case x of Threw \<Rightarrow> True | Usable t \<Rightarrow> stored_task C v e = Some t | Unusable _ \<Rightarrow> stored_task C v e = None)"

context redis_store
begin

lemma load_entry_loads:
  assumes "up r" "metas_readable (view r)" "load_entry C M e r = (x, r')" "lc_redis C = R"
  shows "up r' \<and> view r' = view r \<and> loaded_as C (view r) e x"
proof (cases "ParseStreamEntry e")
  case (Some ptr)
  obtain y where "view r (TaskMeta (sp_task_id ptr)) = None \<or> view r (TaskMeta (sp_task_id ptr)) = Some (RStr y)"
    using assms(2) by (auto simp: metas_readable_def)
  from get [OF assms(1) this] obtain r1 where
    "r_get R (TaskMeta (sp_task_id ptr)) r = (Inr (if view r (TaskMeta (sp_task_id ptr)) = None then None else Some y), r1)"
    "up r1" "view r1 = view r" by blast
  with Some assms \<open>_ \<or> _\<close> show ?thesis
    by (auto simp: load_entry_def GetConnection_def stored_task_def loaded_as_def split: if_splits option.splits)
qed (use assms in \<open>auto simp: load_entry_def loaded_as_def stored_task_def\<close>)

end

context task_stream
begin

lemma still_kept: "still_open view opn r r' \<Longrightarrow> kept_open C view opn r r'"
  by (auto simp: still_open_def kept_open_def)

lemma load_entry_keeps:
  assumes "up r" "metas_readable (view r)" "load_entry C M e r = (x, r')" "lc_redis C = R"
  shows "up r' \<and> view r' = view r \<and> still_open view opn r r' \<and> loaded_as C (view r) e x"
proof -
  let ?X = "List.set (stream_at (view r) kTasks) - opn r"
  note store = script_host.axioms(1) [OF commands_tracked [of ?X "{}"]]
  have "up r \<and> tracked view opn ?X {} r" using assms(1) by (auto simp: tracked_def)
  from redis_store.load_entry_loads [OF store this assms(2-4)] show ?thesis
    by (auto simp: tracked_def still_open_def)
qed

text \<open>Skipping an entry of the stream acknowledges no other entry.\<close>

lemma skip_keeps:
  assumes r: "up r" "view r = view r0" "still_open view opn r0 r" and e: "e \<in> List.set (stream_at (view r0) kTasks)" "stored_task C (view r0) e = None"
    and x: "XAck M G kTasks kGroupMain (fst e) r = (n, r')"
  shows "up r' \<and> view r' = view r0 \<and> kept_open C view opn r0 r'"
proof -
  note k = XAck_keeps [OF r(1) x]
  have "d \<in> opn r'" if d: "d \<in> List.set (stream_at (view r0) kTasks)" "d \<in> opn r0" "stored_task C (view r0) d \<noteq> None" for d
  proof -
    have "d \<noteq> e" using d(3) e(2) by auto
    then have "fst d \<noteq> fst e"
      using ids_distinct [OF r(1)] d(1) e(1) r(2) by (auto simp: distinct_map inj_on_def)
    then show ?thesis using k r(3) d(1,2) by (auto simp: still_open_def)
  qed
  with k r(2) show ?thesis by (auto simp: kept_open_def)
qed

lemma DoRescue_keeps:
  assumes "up (sl_redis l)" "lc_group C = G"
  shows "loop_keeps C view up opn l (DoRescue C l)"
proof -
  obtain p r where p: "XPending (sl_rm l) G kTasks kGroupMain RESCUE_BATCH_SIZE ''-'' ''+'' [] (sl_redis l) = (p, r)"
    by fastforce
  let ?ids = "map pe_id (filter (\<lambda>item. pe_idle_time_ms item \<ge> MIN_IDLE_MS) (the p))"
  obtain x r' where x: "XClaim (sl_rm l) G kTasks kGroupMain (lc_consumer_name C) MIN_IDLE_MS ?ids r = (x, r')"
    by fastforce
  note 1 = XPending_keeps [OF assms(1) p]
  note 2 = XClaim_entries [OF 1 [THEN conjunct1] x]
  have "still_open view opn (sl_redis l) r'" using 1 2 still_open_trans by blast
  with p x 1 2 show ?thesis
    by (cases p; cases x; auto simp: DoRescue_def assms(2) Let_def loop_moves_def loop_keeps_def still_kept)
qed

lemma RunLoop_top_keeps:
  assumes "up (sl_redis l)" "lc_group C = G"
  shows "loop_keeps C view up opn l (RunLoop_top C now l)"
  using assms(1) DoRescue_keeps [OF _ assms(2), of "l\<lparr>sl_last_rescue := now\<rparr>"] still_kept [OF still_open_refl]
  by (auto simp: RunLoop_top_def loop_moves_def loop_keeps_def)

lemma RunLoop_fetch_keeps:
  assumes "up (sl_redis l)" "lc_group C = G"
  shows "loop_keeps C view up opn l (RunLoop_fetch C now l)"
proof -
  obtain x r where x: "XReadGroup (sl_rm l) G kGroupMain (lc_consumer_name C) kTasks LOOP_BATCH_SIZE BLOCK_MS (sl_redis l) = (x, r)"
    by fastforce
  show ?thesis
    using XReadGroup_entries [OF assms(1) x] assms x still_kept [OF still_open_refl]
    by (auto simp: RunLoop_fetch_def Let_def loop_moves_def loop_keeps_def still_kept split: option.split)
qed

lemma RunLoop_entry_keeps:
  assumes "up (sl_redis l)" "metas_readable (view (sl_redis l))" "lc_redis C = R" "lc_group C = G"
    and "sl_pc l = Dispatching es ws i" "List.set (in_hand (sl_pc l)) \<subseteq> List.set (stream_at (view (sl_redis l)) kTasks)"
  shows "loop_keeps C view up opn l (RunLoop_entry C es ws i l)"
proof (cases es)
  case (Cons e rest)
  obtain x r where l: "load_entry C (sl_rm l) e (sl_redis l) = (x, r)" by fastforce
  obtain n r' where a: "XAck (sl_rm l) G kTasks kGroupMain (fst e) r = (n, r')" by fastforce
  have "e \<in> List.set (stream_at (view (sl_redis l)) kTasks)" using assms(5,6) Cons by simp
  note load = load_entry_keeps [OF assms(1,2) l assms(3)] and skip = skip_keeps [where ?r0.0 = "sl_redis l", OF _ _ _ this _ a]
  have w: "loop_moves C (view (sl_redis l)) l (RunLoop_entry C es ws i l)"
    using load assms(5) Cons l by (cases x) (auto simp: RunLoop_entry_def AckAndSkip_def loop_moves_def loaded_as_def Let_def split: prod.split)
  show ?thesis
  proof (cases x)
    case (Unusable reason)
    then show ?thesis using w load skip l a assms(1,4) Cons still_kept [OF still_open_refl]
      by (auto simp: loop_keeps_def RunLoop_entry_def AckAndSkip_def loaded_as_def Let_def)
  qed (use w load l assms(1) Cons still_kept [OF still_open_refl] in
    \<open>auto simp: loop_keeps_def RunLoop_entry_def still_kept Let_def\<close>)
qed (use assms still_kept [OF still_open_refl] in \<open>simp add: RunLoop_entry_def loop_moves_def loop_keeps_def\<close>)

lemma DoRescue_entry_keeps:
  assumes "up (sl_redis l)" "metas_readable (view (sl_redis l))" "lc_redis C = R" "lc_group C = G"
    and "sl_pc l = Rescuing es" "List.set (in_hand (sl_pc l)) \<subseteq> List.set (stream_at (view (sl_redis l)) kTasks)"
  shows "loop_keeps C view up opn l (DoRescue_entry C now es l)"
proof (cases es)
  case (Cons e rest)
  obtain x r where l: "load_entry C (sl_rm l) e (sl_redis l) = (x, r)" by fastforce
  obtain n r' where a: "XAck (sl_rm l) G kTasks kGroupMain (fst e) r = (n, r')" by fastforce
  have "e \<in> List.set (stream_at (view (sl_redis l)) kTasks)" using assms(5,6) Cons by simp
  note load = load_entry_keeps [OF assms(1,2) l assms(3)] and skip = skip_keeps [where ?r0.0 = "sl_redis l", OF _ _ _ this _ a]
  have w: "loop_moves C (view (sl_redis l)) l (DoRescue_entry C now es l)"
    using load assms(5) Cons l
    by (cases x; cases "GetAvailableWorkersSorted (lc_sort C) now (sl_workers l)")
      (auto simp: DoRescue_entry_def ProcessStreamEntry_def AckAndSkip_def loop_moves_def loaded_as_def Let_def split: prod.split)
  show ?thesis
  proof (cases x)
    case (Unusable reason)
    then show ?thesis using w load skip l a assms(1,4) Cons
      by (auto simp: loop_keeps_def DoRescue_entry_def ProcessStreamEntry_def AckAndSkip_def loaded_as_def Let_def)
  qed (use w load l assms(1) Cons in
    \<open>auto simp: loop_keeps_def DoRescue_entry_def ProcessStreamEntry_def still_kept split: list.split\<close>)
qed (use assms still_kept [OF still_open_refl] in \<open>simp add: DoRescue_entry_def loop_moves_def loop_keeps_def\<close>)

text \<open>A dispatch acknowledges its entry when the worker has accepted the task, and no other.\<close>

lemma DoDispatch_keeps:
  assumes "up (sl_redis l)" "lc_group C = G" "set p \<subseteq> set (sl_pool l)"
    and "l' = DoDispatch C E stub answers t w (l\<lparr>sl_pool := p\<rparr>)"
  shows "up (sl_redis l')" "view (sl_redis l') = view (sl_redis l)" "loop_moves C (view (sl_redis l)) l l'"
    and "{e \<in> opn (sl_redis l). fst e \<noteq> t_stream_id t} \<subseteq> opn (sl_redis l')"
    and "\<forall>a q. answers a q \<noteq> RpcReply None \<Longrightarrow> sl_redis l' = sl_redis l"
    and "set (sl_pool l') = set p" "sl_pc l' = sl_pc l"
proof -
  obtain n r where x: "XAck (sl_rm l) G kTasks kGroupMain (t_stream_id t) (sl_redis l) = (n, r)" by fastforce
  note k = XAck_keeps [OF assms(1) x]
  have r: "sl_redis l' = sl_redis l \<or> sl_redis l' = r"
    unfolding assms(4) by (auto simp: DoDispatch_def assms(2) x Let_def split: sum.split rpc_result.split option.split)
  show "up (sl_redis l')" "view (sl_redis l') = view (sl_redis l)"
    "{e \<in> opn (sl_redis l). fst e \<noteq> t_stream_id t} \<subseteq> opn (sl_redis l')"
    using r assms(1) k by auto
  show p: "set (sl_pool l') = set p" and pc: "sl_pc l' = sl_pc l"
    unfolding assms(4) by (auto simp: DoDispatch_def Let_def split: prod.split sum.split rpc_result.split option.split)
  have "sl_rm l' = sl_rm l"
    unfolding assms(4) by (auto simp: DoDispatch_def Let_def split: prod.split sum.split rpc_result.split option.split)
  with p pc assms(3) show "loop_moves C (view (sl_redis l)) l l'" by (auto simp: loop_moves_def)
  show "sl_redis l' = sl_redis l" if "\<forall>a q. answers a q \<noteq> RpcReply None"
    unfolding assms(4) using that by (auto simp: DoDispatch_def Let_def split: prod.split sum.split rpc_result.split option.split)
qed

end

section \<open>The tasks the loop loads\<close>

text \<open>Entries of the stream that may be in hand: they name a task for which \<open>Q\<close> holds.\<close>

definition entry_ok :: "(string \<Rightarrow> bool) \<Rightarrow> stream_entry \<Rightarrow> bool" where
  "entry_ok Q e \<longleftrightarrow> (\<exists>i. entry_task e = Some i \<and> Q i)"

text \<open>What the loop loads from such an entry: a task of a request, as the client gave it.\<close>

definition handed_out :: "json_lib \<Rightarrow> BatchItem list \<Rightarrow> (string \<Rightarrow> bool) \<Rightarrow> Task \<Rightarrow> bool" where
  "handed_out L items Q t \<longleftrightarrow>
     (\<exists>item \<in> set items. \<exists>q \<in> set (pr_tasks (bi_req item)). \<exists>i.
        t = (TaskFromProto L (internal_task (bi_ctx item) q (uuid_of item (p_natural_id q))))\<lparr>t_stream_id := i\<rparr> \<and>
        Q (uuid_of item (p_natural_id q)))"

text \<open>The codec reads back the messages the layout stores; no message with an id is the empty string.\<close>

definition codec_ok :: "pb_codec \<Rightarrow> bool" where
  "codec_ok P \<longleftrightarrow>
     (\<forall>ctx q i. pb_parse P (pb_serialize P (internal_task ctx q i)) = Some (internal_task ctx q i) \<and>
        (i \<noteq> [] \<longrightarrow> pb_serialize P (internal_task ctx q i) \<noteq> []))"

lemma entry_ok_mono: "entry_ok Q e \<Longrightarrow> Q \<le> Q' \<Longrightarrow> entry_ok Q' e"
  by (auto simp: entry_ok_def)

lemma handed_out_mono: "handed_out L items Q t \<Longrightarrow> Q \<le> Q' \<Longrightarrow> set items \<subseteq> set items' \<Longrightarrow> handed_out L items' Q' t"
  unfolding handed_out_def by blast

text \<open>The tasks the stream names, all released.\<close>

definition due :: "BatchItem list \<Rightarrow> string list \<Rightarrow> keyspace \<Rightarrow> string \<Rightarrow> bool" where
  "due items dn v i \<longleftrightarrow> i \<in> emitted v \<and> released items dn i"

lemma due_mono: "set items \<subseteq> set items' \<Longrightarrow> set dn \<subseteq> set dn' \<Longrightarrow> emitted v \<subseteq> emitted v' \<Longrightarrow> due items dn v \<le> due items' dn' v'"
  using released_mono [of items dn _ dn' items'] by (auto simp: due_def)

lemma keys_ok_readable: "keys_ok T P items pipes dn ex v \<Longrightarrow> metas_readable v"
  unfolding metas_readable_def
proof
  fix i assume ok: "keys_ok T P items pipes dn ex v"
  show "v (TaskMeta i) = None \<or> (\<exists>x. v (TaskMeta i) = Some (RStr x))"
  proof (cases "i \<in> ids_of items")
    case True
    with ok show ?thesis by (auto simp: keys_ok_def ids_of_def job_ok_def meta_ok_def)
  qed (use ok in \<open>simp add: keys_ok_def others_absent_def\<close>)
qed

lemma keys_ok_stream: "keys_ok T P items pipes dn ex v \<Longrightarrow> e \<in> set (stream_at v kTasks) \<Longrightarrow> entry_ok (due items dn v) e"
  by (fastforce simp: keys_ok_def streams_ok_def entry_ok_def due_def emitted_def)

text \<open>The task of an entry can be loaded unless its metadata have expired, and it is what the client gave.\<close>

lemma due_stored:
  assumes ok: "keys_ok T P items pipes dn ex v" and "codec_ok P" "lc_codec C = P" "\<not> pg_uuid_ok T []"
    and e: "entry_task e = Some i" "due items dn v i"
  shows "stored_task C v e = None \<Longrightarrow> TaskMeta i \<in> ex"
    and "stored_task C v e = Some t \<Longrightarrow> handed_out (lc_json C) items (due items dn v) t \<and> t_task_id t = i \<and> t_stream_id t = fst e"
proof -
  obtain ptr where p: "ParseStreamEntry e = Some ptr" "sp_task_id ptr = i" using e(1) by (auto simp: entry_task_def)
  obtain a where a: "a \<in> set items" "i \<in> set (item_ids a)" using e(2) by (auto simp: due_def released_def)
  then have j: "job_ok P a (set dn) (pending pipes) ex v" and it: "item_ok T a"
    using ok by (simp_all add: keys_ok_def requests_ok_def)
  then have "i \<noteq> []" using assms(4) a(2) by (auto simp: item_ok_def)
  have m: "v (TaskMeta i) = None \<or> (\<exists>x. v (TaskMeta i) = Some (RStr x) \<and> meta_of P a i x)"
    "v (TaskMeta i) \<noteq> None \<or> TaskMeta i \<in> ex"
    using j a(2) e(2) unfolding job_ok_def meta_ok_def due_def by blast+
  have load: "\<exists>q \<in> set (pr_tasks (bi_req a)). i = uuid_of a (p_natural_id q) \<and>
      stored_task C v e = Some ((TaskFromProto (lc_json C) (internal_task (bi_ctx a) q i))\<lparr>t_stream_id := fst e\<rparr>)"
    if some: "v (TaskMeta i) \<noteq> None"
  proof -
    obtain x q where "v (TaskMeta i) = Some (RStr x)" "q \<in> set (pr_tasks (bi_req a))" "i = uuid_of a (p_natural_id q)"
      "x = pb_serialize P (internal_task (bi_ctx a) q i)"
      using m(1) some by (auto simp: meta_of_def)
    then show ?thesis using assms(2,3) p \<open>i \<noteq> []\<close>
      by (intro bexI [of _ q]) (simp_all add: stored_task_def FromMetaBinary_def codec_ok_def)
  qed
  show "stored_task C v e = None \<Longrightarrow> TaskMeta i \<in> ex" using m(2) load by auto
  assume t: "stored_task C v e = Some t"
  have "v (TaskMeta i) \<noteq> None" using t p by (auto simp: stored_task_def split: option.splits)
  from load [OF this] obtain q where q: "q \<in> set (pr_tasks (bi_req a))" "i = uuid_of a (p_natural_id q)"
    "t = (TaskFromProto (lc_json C) (internal_task (bi_ctx a) q i))\<lparr>t_stream_id := fst e\<rparr>"
    using t by auto
  then have "handed_out (lc_json C) items (due items dn v) t"
    unfolding handed_out_def using a(1) e(2) by (intro bexI [of _ a] bexI [of _ q] exI [of _ "fst e"]) auto
  moreover have "t_task_id t = i" "t_stream_id t = fst e" by (simp_all add: q(3) TaskFromProto_def internal_task_def)
  ultimately show "handed_out (lc_json C) items (due items dn v) t \<and> t_task_id t = i \<and> t_stream_id t = fst e" by blast
qed

section \<open>A server\<close>

text \<open>
  The in-memory keyspace with, beside it, whether the script is known and the consumer group: the
  entries not delivered yet, and those delivered and not acknowledged.
\<close>

type_synonym stream_server = "(bool \<times> stream_entry list \<times> stream_entry list) beside"

definition server_xadd :: "string \<Rightarrow> string \<Rightarrow> fields \<Rightarrow> (stream_server, redis_err, string) sem" where
  "server_xadd k i fs = (\<lambda>(m, kn, u, p).
     case ms_xadd k i fs m of
       (Inr x, m') \<Rightarrow> (Inr x, (m', kn, (if k = kTasks then u @ [(x, fs)] else u), p))
     | (Inl e, m') \<Rightarrow> (Inl e, (m', kn, u, p)))"

definition server_ops :: "stream_server redis_ops" where
  "server_ops = host_ops\<lparr>r_xadd := server_xadd\<rparr>"

definition server_scripts :: "stream_server script_ops" where
  "server_scripts =
     \<lparr>so_load = \<lambda>s (m, kn, g). (Inr s, (m, kn \<or> s = host_script, g)),
      so_evalsha = \<lambda>s keys args (m, kn, g).
        (if s = host_script \<and> kn
         then (case host_run server_ops keys args (m, kn, g) of (Inr n, h) \<Rightarrow> (Inr (Some n), h) | (Inl e, h) \<Rightarrow> (Inl e, h))
         else (Inl (RedisError ''NOSCRIPT No matching script''), (m, kn, g))),
      so_eval = \<lambda>s keys args (m, kn, g). host_run server_ops keys args (m, True, g)\<rparr>"

definition server_group :: "stream_server group_ops" where
  "server_group =
     \<lparr>g_xgroup_create = \<lambda>key grp i mk. sret (),
      g_xreadgroup = \<lambda>grp c key n b (m, kn, u, p).
        (Inr (if take (nat n) u = [] then [] else [(key, take (nat n) u)]),
         (m, kn, drop (nat n) u, p @ take (nat n) u)),
      g_xack = \<lambda>key grp i (m, kn, u, p).
        (Inr (int (length (filter (\<lambda>e. fst e = i) p))), (m, kn, u, filter (\<lambda>e. fst e \<noteq> i) p)),
      g_xclaim = \<lambda>key grp c idle ids (m, kn, u, p).
        (Inr (filter (\<lambda>e. fst e \<in> set ids) p), (m, kn, u, p)),
      g_xpending = \<lambda>key grp a z n c (m, kn, u, p).
        (Inr (map (\<lambda>e. (fst e, ''c'', 60000, 1)) (take (nat n) p)), (m, kn, u, p))\<rparr>"

definition server_open :: "stream_server \<Rightarrow> stream_entry set" where
  "server_open r = (case snd r of (kn, u, p) \<Rightarrow> set u \<union> set p)"

definition server_up :: "stream_server \<Rightarrow> bool" where
  "server_up r \<longleftrightarrow> host_up r \<and> server_open r \<subseteq> set (stream_at (host_view r) kTasks)"

text \<open>All commands but \<open>XADD\<close> leave the group alone.\<close>

lemma host_op_side:
  "r_smembers host_ops k r = (x1, r') \<Longrightarrow> snd r' = snd r" "r_sadd host_ops k m r = (x2, r') \<Longrightarrow> snd r' = snd r"
  "r_hincrby host_ops k f d r = (x2, r') \<Longrightarrow> snd r' = snd r" "r_hset host_ops k f y r = (x2, r') \<Longrightarrow> snd r' = snd r"
  "r_hdel host_ops k f r = (x2, r') \<Longrightarrow> snd r' = snd r" "r_hgetall host_ops k r = (x3, r') \<Longrightarrow> snd r' = snd r"
  "r_exists host_ops k r = (x2, r') \<Longrightarrow> snd r' = snd r" "r_del host_ops k r = (x2, r') \<Longrightarrow> snd r' = snd r"
  "r_get host_ops k r = (x4, r') \<Longrightarrow> snd r' = snd r" "r_set host_ops k y d r = (x5, r') \<Longrightarrow> snd r' = snd r"
  "r_expire host_ops k d r = (x6, r') \<Longrightarrow> snd r' = snd r"
  by (auto simp: host_ops_def lift_op_def split: prod.splits)

lemma stream_kind:
  "is_set v k \<Longrightarrow> stream_at (v(k \<mapsto> RSet s)) kTasks = stream_at v kTasks"
  "is_hash v k \<Longrightarrow> stream_at (v(k \<mapsto> RHash h)) kTasks = stream_at v kTasks"
  "is_hash v k \<Longrightarrow> stream_at (v(k := put_hash g)) kTasks = stream_at v kTasks"
  by (auto simp: stream_at_def is_set_def is_hash_def put_hash_def split: option.splits rval.splits)

lemma server_xadd_law:
  assumes "host_up r" "is_stream (host_view r) k"
  shows "\<exists>i r'. server_xadd k ''*'' fs r = (Inr i, r') \<and> host_up r' \<and>
     host_view r' = (host_view r)(k \<mapsto> RStream (stream_at (host_view r) k @ [(i, fs)])) \<and>
     i \<notin> fst ` set (stream_at (host_view r) k) \<and>
     server_open r' = (if k = kTasks then insert (i, fs) (server_open r) else server_open r)"
proof -
  obtain m kn u p where r: "r = (m, kn, u, p)" by (cases r)
  from mem.xadd [of m k fs] assms obtain i m' where "ms_xadd k ''*'' fs m = (Inr i, m')" "ms_up m'"
    "ms_view m' = (ms_view m)(k \<mapsto> RStream (stream_at (ms_view m) k @ [(i, fs)]))" "i \<notin> fst ` set (stream_at (ms_view m) k)"
    by (auto simp: r host_up_def host_view_def ref_ops_def)
  then show ?thesis by (simp add: r server_xadd_def host_up_def host_view_def server_open_def)
qed

lemma server_open_side: "snd r' = snd r \<Longrightarrow> server_open r' = server_open r"
  by (simp add: server_open_def)

text \<open>Whatever survives one more entry that is undelivered, survives every command.\<close>

lemma server_store:
  assumes "\<And>S U e. Q S U \<Longrightarrow> Q (insert e S) (insert e U)"
  shows "redis_store server_ops host_view (\<lambda>r. host_up r \<and> Q (set (stream_at (host_view r) kTasks)) (server_open r))"
proof (unfold_locales, goal_cases)
  case (1 r k)
  then show ?case using host.smembers [of r k] host_op_side(1) [THEN server_open_side] by (fastforce simp: server_ops_def)
next
  case (2 r k m)
  then show ?case using host.sadd [of r k m] host_op_side(2) [THEN server_open_side] by (fastforce simp: server_ops_def stream_kind)
next
  case (3 r k f n d)
  then show ?case using host.hincrby [of r k f n d] host_op_side(3) [THEN server_open_side]
    by (fastforce simp: server_ops_def stream_kind)
next
  case (4 r k f x)
  then show ?case using host.hset [of r k f x] host_op_side(4) [THEN server_open_side] by (fastforce simp: server_ops_def stream_kind)
next
  case (5 r k f)
  then show ?case using host.hdel [of r k f] host_op_side(5) [THEN server_open_side] by (fastforce simp: server_ops_def stream_kind)
next
  case (6 r k)
  then show ?case using host.hgetall [of r k] host_op_side(6) [THEN server_open_side] by (fastforce simp: server_ops_def)
next
  case (7 r k)
  then show ?case using host.exists [of r k] host_op_side(7) [THEN server_open_side] by (fastforce simp: server_ops_def)
next
  case (8 r k)
  then show ?case using host.del [of r k] host_op_side(8) [THEN server_open_side]
    by (fastforce simp: server_ops_def stream_at_def)
next
  case (9 r k x)
  then show ?case using host.get [of r k x] host_op_side(9) [THEN server_open_side] by (fastforce simp: server_ops_def)
next
  case (10 r k x ttl)
  then show ?case using host.set [of r k x ttl] host_op_side(10) [THEN server_open_side]
    by (fastforce simp: server_ops_def stream_at_def)
next
  case (11 r k ttl)
  then show ?case using host.expire [of r k ttl] host_op_side(11) [THEN server_open_side] by (fastforce simp: server_ops_def)
next
  case (12 r k fs)
  from server_xadd_law [of r k fs] 12 obtain i r' where "server_xadd k ''*'' fs r = (Inr i, r')" "host_up r'"
    "host_view r' = (host_view r)(k \<mapsto> RStream (stream_at (host_view r) k @ [(i, fs)]))"
    "i \<notin> fst ` set (stream_at (host_view r) k)"
    "server_open r' = (if k = kTasks then insert (i, fs) (server_open r) else server_open r)"
    by blast
  moreover from this have "stream_at (host_view r') kTasks =
      (if k = kTasks then stream_at (host_view r) kTasks @ [(i, fs)] else stream_at (host_view r) kTasks)"
    by (simp add: stream_at_def)
  ultimately show ?case using 12 assms by (simp add: server_ops_def)
qed

lemma server_host:
  assumes "\<And>S U e. Q S U \<Longrightarrow> Q (insert e S) (insert e U)"
  shows "script_host server_ops host_view (\<lambda>r. host_up r \<and> Q (set (stream_at (host_view r) kTasks)) (server_open r))
    server_scripts (\<lambda>s. s) (\<lambda>h. if fst (snd h) then {host_script} else {}) host_script"
proof (intro script_host.intro server_store script_host_axioms.intro, goal_cases)
  case (2 r s)
  obtain m kn g where "r = (m, kn, g)" by (cases r)
  then show ?case using 2 by (simp add: server_scripts_def host_up_def host_view_def server_open_def)
next
  case (3 r k1 k2 k3 k4 job)
  obtain m kn g where "r = (m, kn, g)" by (cases r)
  then show ?case using 3 by (intro exI [of _ r]) (simp add: server_scripts_def host_run_ok split: if_splits)
next
  case (4 r keys args)
  obtain m kn g where "r = (m, kn, g)" by (cases r)
  then show ?case using 4
    by (intro exI [of _ "''NOSCRIPT No matching script''"] exI [of _ r]) (simp add: server_scripts_def split: if_splits)
next
  case (5 r k1 k2 k3 k4 job)
  obtain m kn g where "r = (m, kn, g)" by (cases r)
  moreover have "so_eval server_scripts host_script [k1, k2, k3, k4] [job] (m, kn, g) =
      complete_task server_ops k1 k2 k3 k4 job (m, True, g)"
    by (simp add: server_scripts_def host_run_ok)
  ultimately show ?case using 5
    by (intro exI [of _ "(m, True, g)"]) (simp add: host_up_def host_view_def server_open_def)
qed (use assms in blast)

interpretation server: task_stream server_ops host_view server_up server_scripts "\<lambda>s. s"
  "\<lambda>h. if fst (snd h) then {host_script} else {}" host_script server_group server_open
proof (intro task_stream.intro task_stream_axioms.intro, goal_cases)
  case 1
  show ?case using server_host [of "\<lambda>S U. U \<subseteq> S"] by (auto simp: server_up_def [abs_def])
next
  case (2 X Y)
  have "script_host server_ops host_view
      (\<lambda>r. host_up r \<and> (\<lambda>S U. U \<subseteq> S \<and> Y \<subseteq> S \<and> S \<subseteq> X \<union> U) (set (stream_at (host_view r) kTasks)) (server_open r))
      server_scripts (\<lambda>s. s) (\<lambda>h. if fst (snd h) then {host_script} else {}) host_script"
    by (rule server_host) blast
  then show ?case by (simp add: server_up_def [abs_def] tracked_def [abs_def] conj_ac)
next
  case (3 r)
  then have "ms_keys (fst r) kTasks = Some (KStream es) \<Longrightarrow> distinct (map fst es)" for es
    by (force simp: server_up_def host_up_def ms_up_def)
  then show ?case by (auto simp: host_view_def ms_view_def stream_at_def elim!: kval_abs.elims split: option.splits rval.splits)
next
  case (4 r c n b x r')
  obtain m kn u p where r: "r = (m, kn, u, p)" by (cases r)
  have u: "set (take (nat n) u) \<union> set (drop (nat n) u) = set u"
    by (metis append_take_drop_id set_append)
  then have t: "set (take (nat n) u) \<subseteq> set u" by blast
  have r': "r' = (m, kn, drop (nat n) u, p @ take (nat n) u)"
    and x: "x = Inr (if take (nat n) u = [] then [] else [(kTasks, take (nat n) u)])"
    using 4(2) by (simp_all add: server_group_def r)
  have "server_open r' = server_open r" using u by (auto simp: server_open_def r r')
  with 4(1) t show ?case
    by (auto simp: x server_up_def host_up_def host_view_def still_open_def server_open_def r r')
next
  case (5 r c idle ids y r')
  then show ?case
    by (cases r) (auto simp: server_group_def server_up_def host_up_def host_view_def server_open_def still_open_def)
next
  case (6 r i z r')
  then show ?case by (cases r) (auto simp: server_group_def server_up_def host_up_def host_view_def server_open_def)
next
  case (7 r a e n c4 p r')
  then show ?case
    by (cases r) (auto simp: server_group_def server_up_def host_up_def host_view_def server_open_def still_open_def)
qed

end
