(* ===== verification/Thread_Pool.thy ===== *)
theory Thread_Pool
  imports Work_Queue "HOL-Library.Multiset"
begin

text \<open>
  \<open>src/common/include/thread_pool.h\<close>: the fixed pool of threads that every service shares. The
  critical sections of a worker thread, of \<open>enqueue\<close> and of the destructor are the steps; a
  waiting thread is blocked on the condition variable until a notification (or a spurious
  wake-up), so that lost wake-ups are expressible. A task is a \<open>packaged_task\<close>: an exception of
  the user function goes to the future and never to the thread.
\<close>

section \<open>The pool\<close>

text \<open>
  A thread is about to test the predicate, blocked, has taken a task, has run it, or returned.
  \<open>th_req_id\<close> is its thread-local request id.
\<close>

datatype 'w thread_state =
    Checking
  | Blocked
  | Taken "'w \<times> string"
  | Ran
  | Returned

record 'w pool_thread =
  th_state :: "'w thread_state"
  th_req_id :: string

datatype dtor_state = Alive | Stopping | Joining | Destroyed

text \<open>
  \<open>tp_pending\<close> counts the \<open>notify_one\<close> calls that are due (after the lock is released);
  \<open>tp_accepted\<close>, \<open>tp_taken\<close> and \<open>tp_ran\<close> record the history: a task ran under a request id.
\<close>

record 'w pool =
  tp_workers :: "'w pool_thread list"
  tp_tasks :: "('w \<times> string) list"
  tp_stop :: bool
  queue_size_gauge :: int
  active_threads_gauge :: int
  tp_dtor :: dtor_state
  tp_pending :: nat
  tp_accepted :: "('w \<times> string) list"
  tp_taken :: "('w \<times> string) list"
  tp_ran :: "('w \<times> string) list"

definition ThreadPool :: "nat \<Rightarrow> 'w pool" where
  "ThreadPool threads =
     \<lparr>tp_workers = replicate threads \<lparr>th_state = Checking, th_req_id = []\<rparr>, tp_tasks = [],
      tp_stop = False, queue_size_gauge = 0, active_threads_gauge = 0, tp_dtor = Alive,
      tp_pending = 0, tp_accepted = [], tp_taken = [], tp_ran = []\<rparr>"

section \<open>The operations\<close>

text \<open>\<open>enqueue\<close> by a thread whose request id is \<open>ctx\<close>.\<close>

definition enqueue :: "'w \<Rightarrow> string \<Rightarrow> 'w pool \<Rightarrow> string + 'w pool" where
  "enqueue w ctx p =
     (if tp_stop p then Inl ''enqueue on stopped ThreadPool''
      else Inr (p\<lparr>tp_tasks := tp_tasks p @ [(w, ctx)], queue_size_gauge := queue_size_gauge p + 1,
             tp_pending := tp_pending p + 1, tp_accepted := tp_accepted p @ [(w, ctx)]\<rparr>))"

definition set_thread :: "nat \<Rightarrow> 'w pool_thread \<Rightarrow> 'w pool \<Rightarrow> 'w pool" where
  "set_thread i t p = p\<lparr>tp_workers := (tp_workers p)[i := t]\<rparr>"

text \<open>The critical section of a worker thread.\<close>

definition worker_check :: "nat \<Rightarrow> 'w pool \<Rightarrow> 'w pool" where
  "worker_check i p =
     (let t = tp_workers p ! i
      in if \<not> (tp_stop p \<or> tp_tasks p \<noteq> []) then set_thread i (t\<lparr>th_state := Blocked\<rparr>) p
      else if tp_stop p \<and> tp_tasks p = [] then set_thread i (t\<lparr>th_state := Returned\<rparr>) p
      else set_thread i (t\<lparr>th_state := Taken (hd (tp_tasks p))\<rparr>)
        (p\<lparr>tp_tasks := tl (tp_tasks p), queue_size_gauge := queue_size_gauge p - 1,
           tp_taken := tp_taken p @ [hd (tp_tasks p)]\<rparr>))"

text \<open>The task: the lambda that restores the request id, then the user function.\<close>

definition worker_run :: "nat \<Rightarrow> 'w \<times> string \<Rightarrow> 'w pool \<Rightarrow> 'w pool" where
  "worker_run i task p =
     (let t = (tp_workers p ! i)\<lparr>th_req_id := snd task\<rparr>
      in set_thread i (t\<lparr>th_state := Ran\<rparr>)
        (p\<lparr>active_threads_gauge := active_threads_gauge p + 1,
           tp_ran := tp_ran p @ [(fst task, th_req_id t)]\<rparr>))"

definition worker_finish :: "nat \<Rightarrow> 'w pool \<Rightarrow> 'w pool" where
  "worker_finish i p =
     set_thread i \<lparr>th_state = Checking, th_req_id = []\<rparr>
       (p\<lparr>active_threads_gauge := active_threads_gauge p - 1\<rparr>)"

definition wake :: "'w pool_thread \<Rightarrow> 'w pool_thread" where
  "wake t = (case th_state t of Blocked \<Rightarrow> t\<lparr>th_state := Checking\<rparr> | _ \<Rightarrow> t)"

text \<open>\<open>notify_one\<close> wakes a thread the implementation picks; with none blocked it does nothing.\<close>

definition notify_one :: "nat \<Rightarrow> 'w pool \<Rightarrow> 'w pool" where
  "notify_one i p =
     p\<lparr>tp_pending := tp_pending p - 1, tp_workers := (tp_workers p)[i := wake (tp_workers p ! i)]\<rparr>"

definition dtor_stop :: "'w pool \<Rightarrow> 'w pool" where
  "dtor_stop p = p\<lparr>tp_stop := True, tp_dtor := Stopping\<rparr>"

definition dtor_notify_all :: "'w pool \<Rightarrow> 'w pool" where
  "dtor_notify_all p = p\<lparr>tp_workers := map wake (tp_workers p), tp_dtor := Joining\<rparr>"

definition dtor_join :: "'w pool \<Rightarrow> 'w pool" where
  "dtor_join p = p\<lparr>tp_dtor := Destroyed\<rparr>"

definition thread_in :: "('w thread_state \<Rightarrow> bool) \<Rightarrow> nat \<Rightarrow> 'w pool \<Rightarrow> bool" where
  "thread_in P i p \<longleftrightarrow> i < length (tp_workers p) \<and> P (th_state (tp_workers p ! i))"

definition all_in :: "('w thread_state \<Rightarrow> bool) \<Rightarrow> 'w pool \<Rightarrow> bool" where
  "all_in P p \<longleftrightarrow> (\<forall>t \<in> set (tp_workers p). P (th_state t))"

text \<open>The steps of the worker threads, and those of everybody.\<close>

inductive work_step :: "'w pool \<Rightarrow> 'w pool \<Rightarrow> bool" where
  check: "thread_in (\<lambda>s. s = Checking) i p \<Longrightarrow> work_step p (worker_check i p)"
| run: "thread_in (\<lambda>s. s = Taken task) i p \<Longrightarrow> work_step p (worker_run i task p)"
| finish: "thread_in (\<lambda>s. s = Ran) i p \<Longrightarrow> work_step p (worker_finish i p)"

inductive pool_step :: "'w pool \<Rightarrow> 'w pool \<Rightarrow> bool" where
  work: "work_step p p' \<Longrightarrow> pool_step p p'"
| enqueue: "enqueue w ctx p = Inr p' \<Longrightarrow> pool_step p p'"
| notify: "0 < tp_pending p \<Longrightarrow>
    thread_in (\<lambda>s. s = Blocked) i p \<or> all_in (\<lambda>s. s \<noteq> Blocked) p \<Longrightarrow> pool_step p (notify_one i p)"
| spurious: "thread_in (\<lambda>s. s = Blocked) i p \<Longrightarrow>
    pool_step p (set_thread i (wake (tp_workers p ! i)) p)"
| stop: "tp_dtor p = Alive \<Longrightarrow> pool_step p (dtor_stop p)"
| notify_all: "tp_dtor p = Stopping \<Longrightarrow> pool_step p (dtor_notify_all p)"
| join: "tp_dtor p = Joining \<Longrightarrow> all_in (\<lambda>s. s = Returned) p \<Longrightarrow> pool_step p (dtor_join p)"

inductive_cases work_stepE: "work_step p p'"

lemmas pool_defs = enqueue_def worker_check_def worker_run_def worker_finish_def notify_one_def
  dtor_stop_def dtor_notify_all_def dtor_join_def set_thread_def Let_def

section \<open>What is handed over\<close>

lemma pool_step_handoff:
  "pool_step p p' \<Longrightarrow>
   \<exists>xs. tp_accepted p' = tp_accepted p @ xs \<and> (\<exists>ys. tp_taken p' = tp_taken p @ ys) \<and>
     (tp_accepted p = tp_taken p @ tp_tasks p \<longrightarrow> tp_accepted p' = tp_taken p' @ tp_tasks p')"
  by (induction rule: pool_step.induct) (auto simp: pool_defs elim!: work_stepE split: if_splits)

interpretation pool: handoff pool_step "ThreadPool n" tp_accepted tp_taken tp_tasks
  by unfold_locales (simp add: ThreadPool_def, rule pool_step_handoff)

section \<open>The invariant\<close>

text \<open>Sums over the threads follow an update of one of them.\<close>

definition thread_sum :: "('w thread_state \<Rightarrow> 'b :: comm_monoid_add) \<Rightarrow> 'w pool_thread list \<Rightarrow> 'b" where
  "thread_sum f ts = (\<Sum>t \<leftarrow> ts. f (th_state t))"

lemma thread_sum_update:
  "i < length ts \<Longrightarrow> thread_sum f (ts[i := t]) + f (th_state (ts ! i)) = thread_sum f ts + f (th_state t)"
proof (induction ts arbitrary: i)
  case (Cons x ts)
  show ?case
  proof (cases i)
    case (Suc j)
    with Cons.IH [of j] Cons.prems show ?thesis by (simp add: thread_sum_def add.assoc)
  qed (simp add: thread_sum_def add.commute add.left_commute)
qed simp

lemma thread_sum_wake [simp]:
  "f Blocked = f Checking \<Longrightarrow> thread_sum f (map wake ts) = thread_sum f ts"
proof -
  assume f: "f Blocked = f Checking"
  have "f (th_state (wake t)) = f (th_state t)" for t by (cases "th_state t") (simp_all add: wake_def f)
  then show ?thesis by (simp add: thread_sum_def comp_def)
qed

lemma wake_state: "th_state (wake t) = (if th_state t = Blocked then Checking else th_state t)"
  by (cases "th_state t") (simp_all add: wake_def)

lemma wake_req_id [simp]: "th_req_id (wake t) = th_req_id t"
  by (cases "th_state t") (simp_all add: wake_def)

fun is_ran :: "'w thread_state \<Rightarrow> int" where
  "is_ran Ran = 1" | "is_ran _ = 0"

fun held :: "'w thread_state \<Rightarrow> ('w \<times> string) multiset" where
  "held (Taken task) = {#task#}" | "held _ = {#}"

text \<open>The counts: gauges, and tasks that were taken and not run yet.\<close>

definition counts_ok :: "'w pool \<Rightarrow> bool" where
  "counts_ok p \<longleftrightarrow> queue_size_gauge p = int (length (tp_tasks p)) \<and>
     active_threads_gauge p = thread_sum is_ran (tp_workers p) \<and>
     mset (tp_taken p) = mset (tp_ran p) + thread_sum held (tp_workers p)"

text \<open>The life cycle: who may be blocked, who may have returned, and the request ids.\<close>

definition thread_ok :: "bool \<Rightarrow> dtor_state \<Rightarrow> bool \<Rightarrow> 'w pool_thread \<Rightarrow> bool" where
  "thread_ok stop d drained t \<longleftrightarrow>
     (th_state t = Returned \<longrightarrow> stop \<and> drained) \<and>
     (th_state t = Blocked \<longrightarrow> d \<in> {Alive, Stopping}) \<and>
     (th_state t \<noteq> Ran \<longrightarrow> th_req_id t = []) \<and>
     (d = Destroyed \<longrightarrow> th_state t = Returned)"

definition wakeable :: "'w pool \<Rightarrow> bool" where
  "wakeable p \<longleftrightarrow> (tp_tasks p \<noteq> [] \<and> tp_workers p \<noteq> [] \<longrightarrow>
     0 < tp_pending p \<or> (\<exists>t \<in> set (tp_workers p). th_state t \<noteq> Blocked))"

definition threads_ok :: "'w pool \<Rightarrow> bool" where
  "threads_ok p \<longleftrightarrow> (tp_stop p \<longleftrightarrow> tp_dtor p \<noteq> Alive) \<and>
     (\<forall>t \<in> set (tp_workers p). thread_ok (tp_stop p) (tp_dtor p) (tp_tasks p = []) t) \<and> wakeable p"

lemma all_updated:
  "\<forall>x \<in> set xs. P x \<Longrightarrow> (\<And>x. x \<in> set xs \<Longrightarrow> P x \<Longrightarrow> Q x) \<Longrightarrow> Q y \<Longrightarrow> \<forall>x \<in> set (xs[i := y]). Q x"
  using set_update_subset_insert [of xs i y] by blast

lemma threads_ok_update:
  assumes "threads_ok p" "i < length (tp_workers p)"
    and "tp_workers p' = (tp_workers p)[i := t]" "tp_stop p' = tp_stop p" "tp_dtor p' = tp_dtor p"
    and "tp_tasks p = [] \<Longrightarrow> tp_tasks p' = []"
    and "thread_ok (tp_stop p) (tp_dtor p) (tp_tasks p' = []) t"
    and "th_state t = Blocked \<Longrightarrow> tp_tasks p' = []"
  shows "threads_ok p'"
proof -
  have "\<forall>t \<in> set (tp_workers p'). thread_ok (tp_stop p') (tp_dtor p') (tp_tasks p' = []) t"
    unfolding assms(3-5)
    by (rule all_updated [where P = "thread_ok (tp_stop p) (tp_dtor p) (tp_tasks p = [])"])
      (use assms(1,6,7) in \<open>auto simp: threads_ok_def thread_ok_def\<close>)
  moreover have "wakeable p'"
    unfolding wakeable_def using assms(2,3,8) set_update_memI [OF assms(2), of t] by metis
  ultimately show ?thesis using assms(1,4,5) by (simp add: threads_ok_def)
qed

lemma threads_ok_at:
  assumes "threads_ok p" "thread_in P i p"
  shows "i < length (tp_workers p) \<and> P (th_state (tp_workers p ! i)) \<and>
    thread_ok (tp_stop p) (tp_dtor p) (tp_tasks p = []) (tp_workers p ! i) \<and>
    (tp_stop p \<longleftrightarrow> tp_dtor p \<noteq> Alive)"
  using assms unfolding threads_ok_def thread_in_def by (metis nth_mem)

lemma counts_ok_init: "counts_ok (ThreadPool n)"
  by (induction n) (simp_all add: counts_ok_def ThreadPool_def thread_sum_def)

lemma threads_ok_init: "threads_ok (ThreadPool n)"
  by (simp add: threads_ok_def ThreadPool_def thread_ok_def wakeable_def)

lemma counts_ok_set:
  assumes "i < length (tp_workers p)"
  shows "thread_sum is_ran ((tp_workers p)[i := t]) =
      thread_sum is_ran (tp_workers p) + is_ran (th_state t) - is_ran (th_state (tp_workers p ! i))"
    "thread_sum held ((tp_workers p)[i := t]) + held (th_state (tp_workers p ! i)) =
      thread_sum held (tp_workers p) + held (th_state t)"
  using thread_sum_update [OF assms, of is_ran t] thread_sum_update [OF assms, of held t] by simp_all

lemma counts_ok_work: "work_step p p' \<Longrightarrow> counts_ok p \<Longrightarrow> counts_ok p'"
proof (induction rule: work_step.induct)
  case (check i p)
  then show ?case using counts_ok_set [of i p]
    by (cases "tp_tasks p") (auto simp: counts_ok_def pool_defs thread_in_def)
next
  case (run task i p)
  then show ?case using counts_ok_set(1) [of i p] counts_ok_set(2) [of i p "(tp_workers p ! i)\<lparr>th_req_id := snd task, th_state := Ran\<rparr>"]
    by (auto simp: counts_ok_def pool_defs thread_in_def)
next
  case (finish i p)
  then show ?case using counts_ok_set [of i p] by (auto simp: counts_ok_def pool_defs thread_in_def)
qed

lemma counts_ok_step: "pool_step p p' \<Longrightarrow> counts_ok p \<Longrightarrow> counts_ok p'"
proof (induction rule: pool_step.induct)
  case (notify p i)
  show ?case
  proof (cases "i < length (tp_workers p)")
    case True
    with notify counts_ok_set [OF True, of "wake (tp_workers p ! i)"] show ?thesis
      by (cases "th_state (tp_workers p ! i)") (auto simp: counts_ok_def pool_defs wake_state)
  qed (use notify in \<open>simp add: counts_ok_def pool_defs list_update_beyond\<close>)
next
  case (spurious i p)
  with counts_ok_set [of i p "wake (tp_workers p ! i)"] show ?case
    by (auto simp: counts_ok_def pool_defs thread_in_def wake_state)
next
  case (work p p')
  then show ?case by (rule counts_ok_work)
qed (auto simp: counts_ok_def pool_defs split: if_splits)

lemma threads_ok_work: "work_step p p' \<Longrightarrow> threads_ok p \<Longrightarrow> threads_ok p'"
proof (induction rule: work_step.induct)
  case (check i p)
  note at = threads_ok_at [OF check(2,1)]
  consider "\<not> tp_stop p" "tp_tasks p = []" | "tp_stop p" "tp_tasks p = []" | "tp_tasks p \<noteq> []" by blast
  then show ?case
  proof cases
    case 1
    then show ?thesis
      by (intro threads_ok_update [OF check(2), of i _ "(tp_workers p ! i)\<lparr>th_state := Blocked\<rparr>"])
        (use at in \<open>auto simp: pool_defs thread_ok_def\<close>)
  next
    case 2
    then show ?thesis
      by (intro threads_ok_update [OF check(2), of i _ "(tp_workers p ! i)\<lparr>th_state := Returned\<rparr>"])
        (use at in \<open>auto simp: pool_defs thread_ok_def\<close>)
  next
    case 3
    then show ?thesis
      by (intro threads_ok_update [OF check(2), of i _ "(tp_workers p ! i)\<lparr>th_state := Taken (hd (tp_tasks p))\<rparr>"])
        (use at in \<open>auto simp: pool_defs thread_ok_def\<close>)
  qed
next
  case (run task i p)
  show ?case
    by (intro threads_ok_update [OF run(2), of i _ "(tp_workers p ! i)\<lparr>th_req_id := snd task, th_state := Ran\<rparr>"])
      (use threads_ok_at [OF run(2,1)] in \<open>auto simp: pool_defs thread_ok_def\<close>)
next
  case (finish i p)
  show ?case
    by (intro threads_ok_update [OF finish(2), of i _ "\<lparr>th_state = Checking, th_req_id = []\<rparr>"])
      (use threads_ok_at [OF finish(2,1)] in \<open>auto simp: pool_defs thread_ok_def\<close>)
qed

lemma threads_ok_wake:
  assumes "threads_ok p" "thread_in (\<lambda>s. s = Blocked) i p"
    and "tp_workers p' = (tp_workers p)[i := wake (tp_workers p ! i)]" "tp_stop p' = tp_stop p"
    "tp_dtor p' = tp_dtor p" "tp_tasks p' = tp_tasks p"
  shows "threads_ok p'"
  by (rule threads_ok_update [OF assms(1) _ assms(3-5)])
    (use threads_ok_at [OF assms(1,2)] assms(6) in \<open>auto simp: thread_ok_def wake_state\<close>)

lemma threads_ok_step: "pool_step p p' \<Longrightarrow> threads_ok p \<Longrightarrow> threads_ok p'"
proof (induction rule: pool_step.induct)
  case (work p p')
  then show ?case by (rule threads_ok_work)
next
  case (enqueue p w ctx p')
  then show ?case by (auto simp: pool_defs threads_ok_def thread_ok_def wakeable_def split: if_splits)
next
  case (notify p i)
  show ?case
  proof (cases "thread_in (\<lambda>s. s = Blocked) i p")
    case True
    show ?thesis by (rule threads_ok_wake [OF notify(3) True]) (simp_all add: pool_defs)
  next
    case False
    then have nb: "\<forall>t \<in> set (tp_workers p). th_state t \<noteq> Blocked" using notify(2) by (simp add: all_in_def)
    have "(tp_workers p)[i := wake (tp_workers p ! i)] = tp_workers p"
    proof (cases "i < length (tp_workers p)")
      case True
      then have "th_state (tp_workers p ! i) \<noteq> Blocked" using nb by simp
      then have "wake (tp_workers p ! i) = tp_workers p ! i" by (cases "th_state (tp_workers p ! i)") (simp_all add: wake_def)
      then show ?thesis by simp
    qed (simp add: list_update_beyond)
    with notify(3) nb show ?thesis
      by (cases "tp_workers p") (auto simp: pool_defs threads_ok_def wakeable_def)
  qed
next
  case (spurious i p)
  show ?case by (rule threads_ok_wake [OF spurious(2,1)]) (simp_all add: pool_defs)
next
  case (stop p)
  then show ?case by (auto simp: pool_defs threads_ok_def thread_ok_def wakeable_def)
next
  case (notify_all p)
  have "\<forall>t \<in> set (map wake (tp_workers p)). thread_ok True Joining (tp_tasks p = []) t"
    using notify_all by (auto simp: threads_ok_def thread_ok_def wake_state split: if_splits)
  moreover have "tp_workers p \<noteq> [] \<Longrightarrow> \<exists>t \<in> set (map wake (tp_workers p)). th_state t \<noteq> Blocked"
    by (cases "tp_workers p") (simp_all add: wake_state)
  ultimately show ?case using notify_all by (simp add: pool_defs threads_ok_def wakeable_def)
next
  case (join p)
  then show ?case by (auto simp: pool_defs threads_ok_def thread_ok_def wakeable_def all_in_def)
qed

lemma pool_reachable:
  "pool_step\<^sup>*\<^sup>* (ThreadPool n) p \<Longrightarrow> counts_ok p \<and> threads_ok p \<and> length (tp_workers p) = n"
proof (induction rule: rtranclp_induct)
  case (step y z)
  have "length (tp_workers z) = length (tp_workers y)"
    using step.hyps(2) by cases (auto simp: pool_defs elim!: work_stepE split: if_splits)
  then show ?case using step counts_ok_step threads_ok_step by auto
next
  case base
  show ?case by (intro conjI counts_ok_init threads_ok_init) (simp add: ThreadPool_def)
qed

section \<open>Joining\<close>

text \<open>What is left to do before a joined thread returns.\<close>

fun work_left :: "'w thread_state \<Rightarrow> nat" where
  "work_left Returned = 0" | "work_left Checking = 1" | "work_left Blocked = 1"
| "work_left Ran = 2" | "work_left (Taken task) = 3"

definition pool_left :: "'w pool \<Rightarrow> nat" where
  "pool_left p = 3 * length (tp_tasks p) + thread_sum work_left (tp_workers p)"

lemma work_left_sum: "thread_sum work_left ts \<le> 3 * length ts"
proof (induction ts)
  case (Cons t ts)
  have "work_left (th_state t) \<le> 3" by (cases "th_state t") simp_all
  with Cons show ?case by (simp add: thread_sum_def)
qed (simp add: thread_sum_def)

lemma pool_left_bound: "pool_left p \<le> 3 * (length (tp_tasks p) + length (tp_workers p))"
  using work_left_sum [of "tp_workers p"] by (simp add: pool_left_def)

lemma pool_left_set:
  "thread_in (\<lambda>s. s = st) i p \<Longrightarrow> thread_sum work_left ((tp_workers p)[i := t]) + work_left st =
     thread_sum work_left (tp_workers p) + work_left (th_state t)"
  using thread_sum_update [of i "tp_workers p" work_left t] by (auto simp: thread_in_def)

lemma pool_left_work: "work_step p p' \<Longrightarrow> tp_stop p \<Longrightarrow> pool_left p' < pool_left p \<and> tp_stop p'"
proof (induction rule: work_step.induct)
  case (check i p)
  let ?t = "tp_workers p ! i"
  show ?case using pool_left_set [OF check(1), of "?t\<lparr>th_state := Returned\<rparr>"]
      pool_left_set [OF check(1), of "?t\<lparr>th_state := Taken (hd (tp_tasks p))\<rparr>"] check(2)
    by (cases "tp_tasks p") (simp_all add: pool_left_def pool_defs)
next
  case (run task i p)
  let ?t = "tp_workers p ! i"
  show ?case using pool_left_set [OF run(1), of "?t\<lparr>th_req_id := snd task, th_state := Ran\<rparr>"] run(2)
    by (simp add: pool_left_def pool_defs)
next
  case (finish i p)
  show ?case using pool_left_set [OF finish(1), of "\<lparr>th_state = Checking, th_req_id = []\<rparr>"] finish(2)
    by (simp add: pool_left_def pool_defs)
qed

lemma can_step:
  assumes "i < length (tp_workers p)" "th_state (tp_workers p ! i) \<notin> {Blocked, Returned}"
  shows "\<exists>p'. work_step p p'"
proof (cases "th_state (tp_workers p ! i)")
  case Checking
  with assms(1) have "work_step p (worker_check i p)" by (intro work_step.check) (simp add: thread_in_def)
  then show ?thesis by blast
next
  case (Taken task)
  with assms(1) have "work_step p (worker_run i task p)" by (intro work_step.run) (simp add: thread_in_def)
  then show ?thesis by blast
next
  case Ran
  with assms(1) have "work_step p (worker_finish i p)" by (intro work_step.finish) (simp add: thread_in_def)
  then show ?thesis by blast
qed (use assms in simp_all)

lemma pool_left_path: "(work_step ^^ k) p p' \<Longrightarrow> tp_stop p \<Longrightarrow> k + pool_left p' \<le> pool_left p \<and> tp_stop p'"
  using relpow_measure [of work_step tp_stop pool_left k p p'] pool_left_work by blast

lemma not_stuck: "\<forall>t \<in> set (tp_workers p). th_state t \<noteq> Blocked \<Longrightarrow> \<not> all_in (\<lambda>s. s = Returned) p \<Longrightarrow> \<exists>p'. work_step p p'"
proof -
  assume nb: "\<forall>t \<in> set (tp_workers p). th_state t \<noteq> Blocked" and "\<not> all_in (\<lambda>s. s = Returned) p"
  then obtain i where i: "i < length (tp_workers p)" "th_state (tp_workers p ! i) \<noteq> Returned"
    by (auto simp: all_in_def in_set_conv_nth)
  with nb show ?thesis by (intro can_step [of i]) auto
qed

lemma work_steps_pool: "(work_step ^^ k) p p' \<Longrightarrow> pool_step\<^sup>*\<^sup>* p p'"
proof (induction k arbitrary: p')
  case (Suc k)
  then obtain q where "(work_step ^^ k) p q" "work_step q p'" by auto
  with Suc.IH [of q] show ?case by (meson pool_step.work rtranclp.rtrancl_into_rtrancl)
qed simp

section \<open>Properties\<close>

text \<open>
  C29. The pool's books are exact. In every reachable state the queue-size gauge is the number of
  waiting tasks, the active-threads gauge the number of threads that are running one, tasks leave
  the queue in the order of \<open>enqueue\<close>, and every task that left it runs exactly once under the
  request id of the thread that enqueued it.
\<close>

theorem pool_runs_each_task_once:
  fixes p :: "'w pool"
  assumes "pool_step\<^sup>*\<^sup>* (ThreadPool n) p"
  shows "queue_size_gauge p = int (length (tp_tasks p)) \<and>
    active_threads_gauge p = thread_sum is_ran (tp_workers p) \<and>
    tp_accepted p = tp_taken p @ tp_tasks p \<and>
    mset (tp_taken p) = mset (tp_ran p) + thread_sum held (tp_workers p)"
  using pool_reachable [OF assms] pool.fifo [OF assms] by (simp add: counts_ok_def)

text \<open>
  A waiting task is never forgotten. As long as the pool has threads and tasks wait, some thread
  can take a step or a notification is still due: no wake-up is lost although a thread is notified
  after the lock is released and only one is notified per task.
\<close>

theorem no_wakeup_lost:
  fixes p :: "'w pool"
  assumes "pool_step\<^sup>*\<^sup>* (ThreadPool n) p" and "0 < n" and "tp_tasks p \<noteq> []"
  shows "0 < tp_pending p \<or> (\<exists>p'. work_step p p')"
proof (rule disjCI)
  assume np: "\<not> (\<exists>p'. work_step p p')"
  have ok: "threads_ok p" "tp_workers p \<noteq> []" using pool_reachable [OF assms(1)] assms(2) by auto
  show "0 < tp_pending p"
  proof (rule ccontr)
    assume "\<not> 0 < tp_pending p"
    with ok assms(3) obtain t where t: "t \<in> set (tp_workers p)" "th_state t \<noteq> Blocked"
      by (auto simp: threads_ok_def wakeable_def)
    then have "th_state t \<noteq> Returned" using ok(1) assms(3) by (auto simp: threads_ok_def thread_ok_def)
    with t np show False using can_step [of _ p] by (auto simp: in_set_conv_nth)
  qed
qed

text \<open>
  C30. The destructor drains and returns. Once it has notified the threads, they can take at most
  three steps per waiting task and per thread, whatever they do they can go on until every one has
  returned, and then all that was ever accepted has run, nothing is left in the queue and both
  gauges are back at zero; nothing is accepted meanwhile.
\<close>

theorem destructor_drains:
  fixes p :: "'w pool"
  assumes "pool_step\<^sup>*\<^sup>* (ThreadPool n) p" and "0 < n" and "tp_dtor p = Joining" and "(work_step ^^ k) p p'"
  shows "k \<le> 3 * (length (tp_tasks p) + n) \<and> enqueue w ctx p' = Inl ''enqueue on stopped ThreadPool'' \<and>
    (\<not> (\<exists>p''. work_step p' p'') \<longrightarrow> all_in (\<lambda>s. s = Returned) p' \<and> tp_tasks p' = [] \<and> mset (tp_ran p') = mset (tp_accepted p) \<and>
       queue_size_gauge p' = 0 \<and> active_threads_gauge p' = 0)"
proof -
  note r = pool_reachable [OF assms(1)]
  have reach: "pool_step\<^sup>*\<^sup>* (ThreadPool n) p'" using assms(1) work_steps_pool [OF assms(4)] by simp
  note r' = pool_reachable [OF reach]
  have st: "tp_stop p" using r assms(3) by (simp add: threads_ok_def)
  note path = pool_left_path [OF assms(4) st]
  have same: "tp_dtor p' = Joining \<and> tp_accepted p' = tp_accepted p"
    using assms(4) assms(3)
  proof (induction k arbitrary: p')
    case (Suc k)
    then obtain q where "(work_step ^^ k) p q" "work_step q p'" by auto
    with Suc.IH [of q] Suc.prems(2) show ?case by (auto elim!: work_stepE simp: pool_defs)
  qed simp
  have "k \<le> 3 * (length (tp_tasks p) + n)" using path pool_left_bound [of p] r by simp
  moreover have "enqueue w ctx p' = Inl ''enqueue on stopped ThreadPool''" using path by (simp add: enqueue_def)
  moreover have "all_in (\<lambda>s. s = Returned) p' \<and> tp_tasks p' = [] \<and> mset (tp_ran p') = mset (tp_accepted p) \<and>
      queue_size_gauge p' = 0 \<and> active_threads_gauge p' = 0" if stuck: "\<not> (\<exists>p''. work_step p' p'')"
  proof -
    have "\<forall>t \<in> set (tp_workers p'). th_state t \<noteq> Blocked"
      using r' same by (auto simp: threads_ok_def thread_ok_def)
    then have all: "all_in (\<lambda>s. s = Returned) p'" using not_stuck [of p'] stuck by blast
    have e: "tp_tasks p' = []"
      using all r' assms(2) by (cases "tp_workers p'") (auto simp: threads_ok_def thread_ok_def all_in_def)
    have z: "\<forall>t \<in> set ts. th_state t = Returned \<Longrightarrow> thread_sum is_ran ts = 0 \<and> thread_sum held ts = {#}" for ts :: "'w pool_thread list"
      by (induction ts) (auto simp: thread_sum_def)
    have "mset (tp_ran p') = mset (tp_taken p')" and "queue_size_gauge p' = 0" "active_threads_gauge p' = 0"
      using r' z [of "tp_workers p'"] all e by (simp_all add: counts_ok_def all_in_def)
    then show ?thesis using all e pool.drained [OF reach e] same by simp
  qed
  ultimately show ?thesis by simp
qed

section \<open>Witnesses\<close>

text \<open>A pool of one thread with one task under the request id \<open>r\<close>, destroyed before it started.\<close>

definition demo_queued :: "nat pool" where
  "demo_queued =
     (ThreadPool 1)\<lparr>tp_tasks := [(7, ''r'')], queue_size_gauge := 1, tp_pending := 1,
       tp_accepted := [(7, ''r'')]\<rparr>"

definition demo_joining :: "nat pool" where
  "demo_joining = dtor_notify_all (dtor_stop demo_queued)"

definition demo_end :: "nat pool" where
  "demo_end = worker_check 0 (worker_finish 0 (worker_run 0 (7, ''r'') (worker_check 0 demo_joining)))"

lemmas demo_defs = demo_end_def demo_joining_def demo_queued_def ThreadPool_def pool_defs wake_def

lemma demo_queued_reachable: "pool_step\<^sup>*\<^sup>* (ThreadPool 1) demo_queued"
  by (rule r_into_rtranclp, rule pool_step.enqueue [of 7 "''r''"]) (simp_all add: demo_defs)

lemma demo_joining_reachable: "pool_step\<^sup>*\<^sup>* (ThreadPool 1) demo_joining"
proof -
  have "pool_step demo_queued (dtor_stop demo_queued)"
    by (rule pool_step.stop) (simp add: demo_defs)
  moreover have "pool_step (dtor_stop demo_queued) demo_joining"
    unfolding demo_joining_def by (rule pool_step.notify_all) (simp add: demo_defs)
  ultimately show ?thesis using demo_queued_reachable by (meson rtranclp.rtrancl_into_rtrancl)
qed

lemma demo_run: "(work_step ^^ 4) demo_joining demo_end"
proof -
  have "work_step demo_joining (worker_check 0 demo_joining)"
    by (rule work_step.check) (simp add: demo_defs thread_in_def)
  moreover have "work_step (worker_check 0 demo_joining) (worker_run 0 (7, ''r'') (worker_check 0 demo_joining))"
    by (rule work_step.run) (simp add: demo_defs thread_in_def)
  moreover have "work_step (worker_run 0 (7, ''r'') (worker_check 0 demo_joining))
      (worker_finish 0 (worker_run 0 (7, ''r'') (worker_check 0 demo_joining)))"
    by (rule work_step.finish) (simp add: demo_defs thread_in_def)
  moreover have "work_step (worker_finish 0 (worker_run 0 (7, ''r'') (worker_check 0 demo_joining))) demo_end"
    unfolding demo_end_def by (rule work_step.check) (simp add: demo_defs thread_in_def)
  ultimately show ?thesis by (auto simp: numeral_eq_Suc)
qed

theorem pool_runs_each_task_once_witness:
  "tp_accepted demo_queued = tp_taken demo_queued @ tp_tasks demo_queued \<and> queue_size_gauge demo_queued = 1"
  using pool_runs_each_task_once [OF demo_queued_reachable] by (simp add: demo_defs)

theorem no_wakeup_lost_witness:
  "0 < tp_pending demo_queued \<or> (\<exists>p'. work_step demo_queued p')"
  by (rule no_wakeup_lost [OF demo_queued_reachable]) (simp_all add: demo_defs)

theorem destructor_drains_witness:
  "(4 :: nat) \<le> 3 * (length (tp_tasks demo_joining) + 1) \<and> mset (tp_ran demo_end) = {#(7, ''r'')#} \<and>
   queue_size_gauge demo_end = 0"
proof -
  have "\<not> (\<exists>p''. work_step demo_end p'')"
    by (auto elim!: work_stepE simp: demo_defs thread_in_def)
  with destructor_drains [OF demo_joining_reachable _ _ demo_run] show ?thesis by (simp add: demo_defs)
qed

end
