(* ===== verification/Worker_Tasks.thy ===== *)
theory Worker_Tasks
  imports Task_Types
begin

text \<open>
  \<open>src/worker/src/task_registry.cpp\<close> and \<open>src/worker/src/tasks.cpp\<close>: the table of the functions
  a worker can run and the functions the program registers before \<open>main\<close>. The JSON library is the
  parameter of \<open>Task_Types\<close>; its \<open>value\<close> accessor throws when it is not applied to an object or
  when the member is not a string, with a message that is a parameter too. Sleeping and logging
  leave no trace.
\<close>

section \<open>Handlers and the registry\<close>

datatype handler_exn = StdException string | OtherException

type_synonym TaskHandler = "string \<Rightarrow> handler_exn + string"

type_synonym TaskRegistry = "string \<Rightarrow> TaskHandler option"

definition Register_task :: "string \<Rightarrow> TaskHandler \<Rightarrow> TaskRegistry \<Rightarrow> TaskRegistry" where
  "Register_task name handler r = r(name \<mapsto> handler)"

definition Get_task :: "string \<Rightarrow> TaskRegistry \<Rightarrow> TaskHandler option" where
  "Get_task name r = (case r name of Some h \<Rightarrow> Some h | None \<Rightarrow> None)"

section \<open>The registered functions\<close>

text \<open>\<open>params.value(key, text)\<close>, and the exceptions of the library as the handler's.\<close>

definition json_value ::
  "(json \<Rightarrow> string \<Rightarrow> string) \<Rightarrow> json \<Rightarrow> string \<Rightarrow> string \<Rightarrow> handler_exn + string" where
  "json_value V j key text =
     (case j of
        JObject kvs \<Rightarrow>
          (case map_of kvs key of
             None \<Rightarrow> Inr text
           | Some (JString s) \<Rightarrow> Inr s
           | Some _ \<Rightarrow> Inl (StdException (V j key)))
      | _ \<Rightarrow> Inl (StdException (V j key)))"

definition dump_result :: "json_lib \<Rightarrow> (string \<times> json) list \<Rightarrow> handler_exn + string" where
  "dump_result L kvs =
     (case jl_dump L (JObject (put_all kvs)) of Inl e \<Rightarrow> Inl (StdException e) | Inr s \<Rightarrow> Inr s)"

definition DownloadDataTask :: "json_lib \<Rightarrow> (json \<Rightarrow> string \<Rightarrow> string) \<Rightarrow> TaskHandler" where
  "DownloadDataTask L V params_str =
     (case jl_parse L params_str of
        Inl e \<Rightarrow> Inl (StdException e)
      | Inr params \<Rightarrow>
          if params = JNull then Inr ''{}''
          else (case json_value V params ''url'' ''unknown_url'' of
                  Inl e \<Rightarrow> Inl e
                | Inr url \<Rightarrow>
                    dump_result L [(''status'', JString ''success''), (''file_size'', JInt 1024)]))"

definition ProcessDataTask :: "json_lib \<Rightarrow> (json \<Rightarrow> string \<Rightarrow> string) \<Rightarrow> TaskHandler" where
  "ProcessDataTask L V params_str =
     (let params = (case jl_parse L params_str of Inl e \<Rightarrow> JObject [] | Inr p \<Rightarrow> p)
      in case json_value V params ''output'' ''unknown_source'' of
           Inl e \<Rightarrow> Inl e
         | Inr source \<Rightarrow>
             dump_result L [(''status'', JString ''processed''), (''rows'', JInt 10000),
               (''source'', JString source), (''output_file'', JString ''/tmp/processed_data.csv'')])"

definition UploadResultsTask :: "json_lib \<Rightarrow> TaskHandler" where
  "UploadResultsTask L params_str =
     dump_result L [(''status'', JString ''uploaded''), (''cloud_url'', JString ''s3://bucket/report_final.csv'')]"

definition EchoTask :: "json_lib \<Rightarrow> TaskHandler" where
  "EchoTask L params_str =
     dump_result L [(''status'', JString ''success''), (''raw_output'', JString (''Echo: '' @ params_str))]"

text \<open>The registrations that run before \<open>main\<close>, in the order of the file.\<close>

definition main_registry :: "json_lib \<Rightarrow> (json \<Rightarrow> string \<Rightarrow> string) \<Rightarrow> TaskRegistry" where
  "main_registry L V =
     Register_task ''upload_results'' (UploadResultsTask L)
       (Register_task ''process_data'' (ProcessDataTask L V)
         (Register_task ''echo'' (EchoTask L)
           (Register_task ''download_data'' (DownloadDataTask L V) Map.empty)))"

lemma Get_Register [simp]:
  "Get_task n (Register_task m h r) = (if n = m then Some h else Get_task n r)"
  by (simp add: Get_task_def Register_task_def)

lemma Get_empty [simp]: "Get_task n Map.empty = None"
  by (simp add: Get_task_def)

lemma json_value_not_object: "(\<And>kvs. j \<noteq> JObject kvs) \<Longrightarrow> json_value V j key text = Inl (StdException (V j key))"
  by (cases j) (auto simp: json_value_def)

text \<open>
  A client that gives no parameters sends the text \<open>null\<close>: the download function accepts it and the
  processing function throws, although it is the one that accepts a text that does not parse.
\<close>

lemma null_params_by_function:
  assumes "jl_parse L p = Inr JNull" and "jl_parse L q = Inl e" and "\<And>j. \<exists>s. jl_dump L j = Inr s"
  shows "DownloadDataTask L V p = Inr ''{}'' \<and> ProcessDataTask L V p = Inl (StdException (V JNull ''output'')) \<and>
    DownloadDataTask L V q = Inl (StdException e) \<and> (\<exists>s. ProcessDataTask L V q = Inr s)"
  using assms(1,2) assms(3)
  by (auto simp: DownloadDataTask_def ProcessDataTask_def Let_def json_value_def dump_result_def
      split: sum.split) (metis sum.distinct(1))

end
