(* ===== verification/Worker_Node.thy ===== *)
theory Worker_Node
  imports Scheduler_Service Thread_Pool Worker_Tasks
begin

text \<open>
  The worker process: \<open>src/worker/src/scheduler_client.cpp\<close>, \<open>worker_service.cpp\<close> and
  \<open>worker_node.cpp\<close>. The calls to the scheduler run its modelled handlers; what the network does
  to a call (deliver it, lose the request, lose the reply) is a value the environment chooses. The
  tasks run on the modelled thread pool.
\<close>

section \<open>The client of the scheduler\<close>

datatype net = Delivered | RequestLost string | ReplyLost string

text \<open>A unary call with a deadline: a lost message ends in a status that is not OK.\<close>

definition rpc ::
  "net \<Rightarrow> ('s \<Rightarrow> (grpc_status \<times> header) \<times> 's) \<Rightarrow> 's \<Rightarrow> (grpc_status \<times> header) \<times> 's" where
  "rpc N handler s =
     (case N of
        Delivered \<Rightarrow> handler s
      | RequestLost code \<Rightarrow> ((GrpcStatus code '''', None), s)
      | ReplyLost code \<Rightarrow> ((GrpcStatus code '''', None), snd (handler s)))"

definition CheckRpcStatus :: "grpc_status \<Rightarrow> header \<Rightarrow> bool" where
  "CheckRpcStatus status response_header =
     (if status \<noteq> GrpcOK then False
      else (case response_header of Some (Some err) \<Rightarrow> False | _ \<Rightarrow> True))"

definition RegisterWorker :: "net \<Rightarrow> int \<Rightarrow> string \<Rightarrow> string \<Rightarrow> 'r scheduler \<Rightarrow> bool \<times> 'r scheduler" where
  "RegisterWorker N now worker_id ip_address s =
     (let ((status, h), s') = rpc N (Register now \<lparr>rg_worker_id = worker_id, rg_address = ip_address\<rparr>) s
      in (CheckRpcStatus status h, s'))"

definition SendHeartbeat ::
  "net \<Rightarrow> int \<Rightarrow> string \<Rightarrow> 32 word \<Rightarrow> 32 word \<Rightarrow> 'r scheduler \<Rightarrow> bool \<times> 'r scheduler" where
  "SendHeartbeat N now worker_id running_task_count cpu_usage s =
     (let ((status, h), s') = rpc N (Heartbeat now \<lparr>hb_worker_id = worker_id,
             hb_running_task_count = running_task_count, hb_cpu_usage_percent = cpu_usage\<rparr>) s
      in (CheckRpcStatus status h, s'))"

text \<open>The request \<open>UpdateTaskStatus\<close> builds; \<open>retry_count\<close> keeps its default.\<close>

definition status_request ::
  "string \<Rightarrow> TaskState \<Rightarrow> string \<Rightarrow> string \<Rightarrow> string \<Rightarrow> string \<Rightarrow> UpdateTaskStatusRequest" where
  "status_request task_id state job_id error_msg result_json worker_id =
     \<lparr>us_task_id = task_id, us_final_state = StateToProto state, us_error_msg = error_msg,
      us_result_json = result_json, us_job_id = job_id, us_retry_count = 0, us_worker_id = worker_id\<rparr>"

text \<open>The call carries the thread's request id as metadata when it is not empty.\<close>

record status_call =
  sc_request :: UpdateTaskStatusRequest
  sc_metadata :: "string option"

definition UpdateTaskStatus_call ::
  "string \<Rightarrow> string \<Rightarrow> TaskState \<Rightarrow> string \<Rightarrow> string \<Rightarrow> string \<Rightarrow> string \<Rightarrow> status_call" where
  "UpdateTaskStatus_call t_req_id task_id state job_id error_msg result_json worker_id =
     \<lparr>sc_request = status_request task_id state job_id error_msg result_json worker_id,
      sc_metadata = (if t_req_id \<noteq> [] then Some t_req_id else None)\<rparr>"

text \<open>An exception that leaves the handler is a status that is not OK.\<close>

definition status_handler ::
  "('r scheduler, redis_err, grpc_status \<times> header) sem \<Rightarrow> 'r scheduler \<Rightarrow> (grpc_status \<times> header) \<times> 'r scheduler" where
  "status_handler handler s =
     (case handler s of (Inr answer, s') \<Rightarrow> (answer, s')
      | (Inl e, s') \<Rightarrow> ((GrpcStatus ''UNKNOWN'' '''', None), s'))"

definition UpdateTaskStatus_client ::
  "net \<Rightarrow> (UpdateTaskStatusRequest \<Rightarrow> ('r scheduler, redis_err, grpc_status \<times> header) sem) \<Rightarrow>
   status_call \<Rightarrow> 'r scheduler \<Rightarrow> bool \<times> 'r scheduler" where
  "UpdateTaskStatus_client N handler c s =
     (let ((status, h), s') = rpc N (status_handler (handler (sc_request c))) s
      in (CheckRpcStatus status h, s'))"

section \<open>The node\<close>

type_synonym closure = "Task \<times> TaskHandler"

text \<open>
  \<open>wn_client\<close> says whether the client still exists: the members are destroyed in the reverse of
  their declaration, the server and the service first, then the client, then the pool. The
  histories: tasks received, reports sent, and tasks that ran when the client was gone.
\<close>

record worker =
  wn_worker_id :: string
  wn_advertise_addr :: string
  wn_running :: bool
  wn_serving :: bool
  wn_client :: bool
  wn_registry :: TaskRegistry
  wn_pool :: "closure pool"
  wn_received :: "Task list"
  wn_sent :: "status_call list"
  wn_lost :: "Task list"

definition WorkerNode :: "nat \<Rightarrow> string \<Rightarrow> string \<Rightarrow> TaskRegistry \<Rightarrow> worker" where
  "WorkerNode cores worker_id advertise_addr reg =
     \<lparr>wn_worker_id = worker_id, wn_advertise_addr = advertise_addr, wn_running = False,
      wn_serving = False, wn_client = True, wn_registry = reg,
      wn_pool = ThreadPool (if cores > 0 then cores else 4),
      wn_received = [], wn_sent = [], wn_lost = []\<rparr>"

text \<open>
  \<open>Start\<close>: the server is built and listens, then the node registers; a registration that fails ends the
  process. (\<open>Worker_Main\<close> has these as steps of their own, with signals and calls in between.)
\<close>

definition Start :: "net \<Rightarrow> int \<Rightarrow> worker \<times> 'r scheduler \<Rightarrow> string + worker \<times> 'r scheduler" where
  "Start N now = (\<lambda>(W, s).
     if wn_running W then Inr (W, s)
     else (let W1 = W\<lparr>wn_running := True, wn_serving := True\<rparr>;
               (ok, s') = RegisterWorker N now (wn_worker_id W1) (wn_advertise_addr W1) s
           in if \<not> ok then Inl ''exit(1)'' else Inr (W1, s')))"

definition Stop_worker :: "worker \<Rightarrow> worker" where
  "Stop_worker W = (if \<not> wn_running W then W else W\<lparr>wn_running := False, wn_serving := False\<rparr>)"

text \<open>One round of \<open>HeartbeatLoop\<close>: the heartbeat at \<open>t1\<close>, a new registration at \<open>t2\<close> if it fails.\<close>

definition half_cpu :: "32 word" where "half_cpu = 0x3F000000"

definition HeartbeatLoop_round ::
  "net \<Rightarrow> net \<Rightarrow> int \<Rightarrow> int \<Rightarrow> worker \<Rightarrow> 'r scheduler \<Rightarrow> 'r scheduler" where
  "HeartbeatLoop_round N1 N2 t1 t2 W s =
     (if \<not> wn_running W then s
      else (let (hb_success, s1) = SendHeartbeat N1 t1 (wn_worker_id W) 0 half_cpu s
            in if \<not> hb_success
               then snd (RegisterWorker N2 t2 (wn_worker_id W) (wn_advertise_addr W) s1)
               else s1))"

section \<open>Receiving and running a task\<close>

definition send_report :: "status_call \<Rightarrow> worker \<Rightarrow> worker" where
  "send_report c W = W\<lparr>wn_sent := wn_sent W @ [c]\<rparr>"

definition not_registered :: string where
  "not_registered = ''Worker does not have this task function registered''"

text \<open>\<open>OnTaskReceived\<close> on a thread whose request id is \<open>ctx\<close>.\<close>

definition OnTaskReceived :: "string \<Rightarrow> Task \<Rightarrow> worker \<Rightarrow> worker" where
  "OnTaskReceived ctx task W =
     (case Get_task (t_func_name task) (wn_registry W) of
        None \<Rightarrow>
          send_report (UpdateTaskStatus_call ctx (t_task_id task) FAILED (t_job_id task)
            not_registered (wn_worker_id W) []) W
      | Some handler \<Rightarrow>
          (case enqueue (task, handler) ctx (wn_pool W) of
             Inl e \<Rightarrow>
               send_report (UpdateTaskStatus_call ctx (t_task_id task) FAILED (t_job_id task)
                 (''Enqueue failed: '' @ e) (wn_worker_id W) []) W
           | Inr p \<Rightarrow> W\<lparr>wn_pool := p\<rparr>))"

text \<open>The closure that runs on the pool: the report it ends with.\<close>

definition run_closure :: "json_lib \<Rightarrow> closure \<Rightarrow> status_call" where
  "run_closure L = (\<lambda>(task, handler).
     let (final_state, result_json_str, error_msg) =
       (case jl_dump L (t_func_params task) of
          Inl e \<Rightarrow> (FAILED, [], e)
        | Inr params_str \<Rightarrow>
            (case handler params_str of
               Inr r \<Rightarrow> (SUCCESS, r, [])
             | Inl (StdException e) \<Rightarrow> (FAILED, [], e)
             | Inl OtherException \<Rightarrow> (FAILED, [], ''Unknown exception'')))
     in UpdateTaskStatus_call (t_task_id task) (t_task_id task) final_state (t_job_id task)
          error_msg result_json_str [])"

text \<open>\<open>RunTask\<close>: the response's header, and the node afterwards.\<close>

record RunTaskResponse =
  rt_request_id :: string
  rt_error :: "PbError option"

definition trace_id :: "string \<Rightarrow> string option \<Rightarrow> string" where
  "trace_id rnd metadata = (case metadata of Some m \<Rightarrow> m | None \<Rightarrow> ''Worker-Gen-'' @ rnd)"

definition RunTask ::
  "json_lib \<Rightarrow> string \<Rightarrow> string option \<Rightarrow> PbTask option \<Rightarrow> worker \<Rightarrow> RunTaskResponse \<times> worker" where
  "RunTask L rnd metadata request W =
     (case request of
        None \<Rightarrow>
          (\<lparr>rt_request_id = [], rt_error = Some \<lparr>er_sys = SYS_INVALID_PARAM,
              er_msg = ''RunTaskRequest missing task field''\<rparr>\<rparr>, W)
      | Some pb_task \<Rightarrow>
          (let cpp_task = TaskFromProto L pb_task
           in (\<lparr>rt_request_id = p_task_id pb_task, rt_error = None\<rparr>,
               OnTaskReceived (trace_id rnd metadata) cpp_task
                 (W\<lparr>wn_received := wn_received W @ [cpp_task]\<rparr>))))"

text \<open>A thread of the pool runs the closure it has taken.\<close>

definition execute_closure :: "json_lib \<Rightarrow> nat \<Rightarrow> closure \<times> string \<Rightarrow> worker \<Rightarrow> worker" where
  "execute_closure L i x W =
     (let W1 = W\<lparr>wn_pool := worker_run i x (wn_pool W)\<rparr>
      in if wn_client W then send_report (run_closure L (fst x)) W1
         else W1\<lparr>wn_lost := wn_lost W1 @ [fst (fst x)]\<rparr>)"

definition on_pool :: "(closure pool \<Rightarrow> closure pool) \<Rightarrow> worker \<Rightarrow> worker" where
  "on_pool f W = W\<lparr>wn_pool := f (wn_pool W)\<rparr>"

text \<open>
  The steps of the process: the service takes a call, the pool's threads move, the destructor
  stops the server, destroys the client, then the pool.
\<close>

inductive worker_step :: "json_lib \<Rightarrow> worker \<Rightarrow> worker \<Rightarrow> bool" for L where
  run_task: "wn_serving W \<Longrightarrow> worker_step L W (snd (RunTask L rnd metadata request W))"
| check: "thread_in (\<lambda>s. s = Checking) i (wn_pool W) \<Longrightarrow> worker_step L W (on_pool (worker_check i) W)"
| exec: "thread_in (\<lambda>s. s = Taken x) i (wn_pool W) \<Longrightarrow> worker_step L W (execute_closure L i x W)"
| finish: "thread_in (\<lambda>s. s = Ran) i (wn_pool W) \<Longrightarrow> worker_step L W (on_pool (worker_finish i) W)"
| notify: "0 < tp_pending (wn_pool W) \<Longrightarrow>
    thread_in (\<lambda>s. s = Blocked) i (wn_pool W) \<or> all_in (\<lambda>s. s \<noteq> Blocked) (wn_pool W) \<Longrightarrow>
    worker_step L W (on_pool (notify_one i) W)"
| spurious: "thread_in (\<lambda>s. s = Blocked) i (wn_pool W) \<Longrightarrow>
    worker_step L W (on_pool (\<lambda>p. set_thread i (wake (tp_workers p ! i)) p) W)"
| start: "\<not> wn_running W \<Longrightarrow> wn_client W \<Longrightarrow>
    worker_step L W (W\<lparr>wn_running := True, wn_serving := True\<rparr>)"
| stop_node: "wn_running W \<Longrightarrow> worker_step L W (Stop_worker W)"
| destroy_client: "\<not> wn_serving W \<Longrightarrow> worker_step L W (W\<lparr>wn_client := False\<rparr>)"
| pool_stop: "\<not> wn_client W \<Longrightarrow> tp_dtor (wn_pool W) = Alive \<Longrightarrow> worker_step L W (on_pool dtor_stop W)"
| pool_notify_all: "tp_dtor (wn_pool W) = Stopping \<Longrightarrow> worker_step L W (on_pool dtor_notify_all W)"
| pool_join: "tp_dtor (wn_pool W) = Joining \<Longrightarrow> all_in (\<lambda>s. s = Returned) (wn_pool W) \<Longrightarrow>
    worker_step L W (on_pool dtor_join W)"

section \<open>One report for each task\<close>

definition task_in :: "closure \<times> string \<Rightarrow> string" where
  "task_in x = t_task_id (fst (fst x))"

definition ids_held :: "worker \<Rightarrow> string multiset" where
  "ids_held W = thread_sum (\<lambda>s. image_mset task_in (held s)) (tp_workers (wn_pool W))"

definition worker_ok :: "worker \<Rightarrow> bool" where
  "worker_ok W \<longleftrightarrow>
     mset (map t_task_id (wn_received W)) =
       mset (map (\<lambda>c. us_task_id (sc_request c)) (wn_sent W)) + mset (map t_task_id (wn_lost W)) +
       mset (map task_in (tp_tasks (wn_pool W))) + ids_held W \<and>
     (wn_client W \<longrightarrow> wn_lost W = []) \<and> (wn_serving W \<longrightarrow> wn_client W)"

lemma task_id_TaskFromProto [simp]: "t_task_id (TaskFromProto L pb) = p_task_id pb"
  by (simp add: TaskFromProto_def)

lemma run_closure_id [simp]: "us_task_id (sc_request (run_closure L c)) = t_task_id (fst c)"
  by (auto simp: run_closure_def UpdateTaskStatus_call_def status_request_def Let_def
      split: prod.splits sum.splits handler_exn.splits)

lemma ids_held_set:
  "thread_in (\<lambda>s. s = st) i p \<Longrightarrow>
   thread_sum (\<lambda>s. image_mset task_in (held s)) ((tp_workers p)[i := t]) + image_mset task_in (held st) =
   thread_sum (\<lambda>s. image_mset task_in (held s)) (tp_workers p) + image_mset task_in (held (th_state t))"
  using thread_sum_update [of i "tp_workers p" "\<lambda>s. image_mset task_in (held s)" t] by (auto simp: thread_in_def)

lemmas worker_ok_defs = worker_ok_def ids_held_def on_pool_def pool_defs

lemma worker_ok_on_pool:
  assumes "worker_ok W" and "tp_tasks (f (wn_pool W)) = tp_tasks (wn_pool W)"
    and "ids_held (on_pool f W) = ids_held W"
  shows "worker_ok (on_pool f W)"
  using assms by (simp add: worker_ok_def on_pool_def)

lemma worker_ok_RunTask:
  assumes "worker_ok W" "wn_serving W"
  shows "worker_ok (snd (RunTask L rnd metadata request W))"
proof (cases request)
  case None
  with assms show ?thesis by (simp add: RunTask_def)
next
  case (Some pb)
  with assms show ?thesis
    by (auto simp: RunTask_def OnTaskReceived_def send_report_def enqueue_def worker_ok_def ids_held_def
        UpdateTaskStatus_call_def status_request_def task_in_def Let_def split: option.split)
qed

lemma worker_ok_step: "worker_step L W W' \<Longrightarrow> worker_ok W \<Longrightarrow> worker_ok W'"
proof (induction rule: worker_step.induct)
  case (run_task W rnd metadata request)
  then show ?case by (simp add: worker_ok_RunTask)
next
  case (check i W)
  let ?t = "tp_workers (wn_pool W) ! i"
  show ?case
    using ids_held_set [OF check(1), of "?t\<lparr>th_state := Blocked\<rparr>"] ids_held_set [OF check(1), of "?t\<lparr>th_state := Returned\<rparr>"]
      ids_held_set [OF check(1), of "?t\<lparr>th_state := Taken (hd (tp_tasks (wn_pool W)))\<rparr>"] check(2)
    by (cases "tp_tasks (wn_pool W)") (simp_all add: worker_ok_defs add.assoc)
next
  case (exec x i W)
  let ?t = "tp_workers (wn_pool W) ! i"
  show ?case
    using ids_held_set [OF exec(1), of "?t\<lparr>th_req_id := snd x, th_state := Ran\<rparr>"] exec(2)
    by (auto simp: worker_ok_defs execute_closure_def send_report_def task_in_def)
next
  case (finish i W)
  show ?case
    using ids_held_set [OF finish(1), of "\<lparr>th_state = Checking, th_req_id = []\<rparr>"] finish(2)
    by (simp add: worker_ok_defs)
next
  case (notify W i)
  show ?case
  proof (cases "i < length (tp_workers (wn_pool W))")
    case True
    then have "thread_in (\<lambda>s. s = th_state (tp_workers (wn_pool W) ! i)) i (wn_pool W)" by (simp add: thread_in_def)
    from ids_held_set [OF this, of "wake (tp_workers (wn_pool W) ! i)"] notify(3) show ?thesis
      by (cases "th_state (tp_workers (wn_pool W) ! i)") (simp_all add: worker_ok_defs wake_state)
  qed (use notify in \<open>simp add: worker_ok_defs list_update_beyond\<close>)
next
  case (spurious i W)
  show ?case
    using ids_held_set [OF spurious(1), of "wake (tp_workers (wn_pool W) ! i)"] spurious
    by (simp add: worker_ok_defs wake_state thread_in_def)
next
  case (stop_node W)
  then show ?case by (simp add: worker_ok_def Stop_worker_def ids_held_def)
next
  case (pool_notify_all W)
  then show ?case by (simp add: worker_ok_defs)
qed (simp_all add: worker_ok_defs)

lemma worker_ok_init: "worker_ok (WorkerNode n i a reg)"
proof -
  have "thread_sum (\<lambda>s. image_mset task_in (held s)) (replicate m \<lparr>th_state = Checking, th_req_id = []\<rparr>) = {#}" for m
    by (induction m) (simp_all add: thread_sum_def)
  then show ?thesis by (simp add: worker_ok_def WorkerNode_def ids_held_def ThreadPool_def)
qed

lemma worker_reachable_ok: "(worker_step L)\<^sup>*\<^sup>* (WorkerNode n i a reg) W \<Longrightarrow> worker_ok W"
  by (induction rule: rtranclp_induct) (auto intro: worker_ok_init worker_ok_step)

text \<open>The node drives its pool by the pool's own steps.\<close>

lemma worker_step_pool: "worker_step L W W' \<Longrightarrow> pool_step\<^sup>*\<^sup>* (wn_pool W) (wn_pool W')"
proof (induction rule: worker_step.induct)
  case (run_task W rnd metadata request)
  show ?case
    by (auto simp: RunTask_def OnTaskReceived_def send_report_def Let_def split: option.split sum.split
        intro!: r_into_rtranclp [where r = pool_step] pool_step.enqueue)
next
  case (check i W)
  show ?case unfolding on_pool_def
    by (simp, rule r_into_rtranclp, rule pool_step.work, rule work_step.check [OF check])
next
  case (exec x i W)
  have "wn_pool (execute_closure L i x W) = worker_run i x (wn_pool W)"
    by (simp add: execute_closure_def send_report_def Let_def)
  then show ?case
    by (simp only:) (rule r_into_rtranclp, rule pool_step.work, rule work_step.run [OF exec])
next
  case (finish i W)
  show ?case unfolding on_pool_def
    by (simp, rule r_into_rtranclp, rule pool_step.work, rule work_step.finish [OF finish])
next
  case (notify W i)
  show ?case unfolding on_pool_def
    by (simp, rule r_into_rtranclp, rule pool_step.notify [OF notify])
next
  case (spurious i W)
  show ?case unfolding on_pool_def
    by (simp, rule r_into_rtranclp, rule pool_step.spurious [OF spurious])
next
  case (pool_stop W)
  show ?case unfolding on_pool_def
    by (simp, rule r_into_rtranclp, rule pool_step.stop [OF pool_stop(2)])
next
  case (pool_notify_all W)
  show ?case unfolding on_pool_def
    by (simp, rule r_into_rtranclp, rule pool_step.notify_all [OF pool_notify_all])
next
  case (pool_join W)
  show ?case unfolding on_pool_def
    by (simp, rule r_into_rtranclp, rule pool_step.join [OF pool_join])
qed (simp_all add: Stop_worker_def)

definition pool_threads :: "nat \<Rightarrow> nat" where
  "pool_threads cores = (if cores > 0 then cores else 4)"

lemma worker_pool_reachable:
  "(worker_step L)\<^sup>*\<^sup>* (WorkerNode cores i a reg) W \<Longrightarrow> pool_step\<^sup>*\<^sup>* (ThreadPool (pool_threads cores)) (wn_pool W)"
proof (induction rule: rtranclp_induct)
  case (step y z)
  then show ?case using worker_step_pool [of L y z] by (meson rtranclp_trans)
qed (simp add: WorkerNode_def pool_threads_def)

section \<open>Properties\<close>

text \<open>
  C32. Every task a worker receives is reported exactly once. In every reachable state the tasks
  received are those reported, those that wait in the pool's queue, those a thread holds, and those
  that ran after the client was destroyed; while the client exists there are none of the last kind.
\<close>

theorem worker_reports_each_task_once:
  assumes "(worker_step L)\<^sup>*\<^sup>* (WorkerNode cores i a reg) W"
  shows "mset (map t_task_id (wn_received W)) =
      mset (map (\<lambda>c. us_task_id (sc_request c)) (wn_sent W)) + mset (map t_task_id (wn_lost W)) +
      mset (map task_in (tp_tasks (wn_pool W))) + ids_held W \<and>
    (wn_client W \<longrightarrow> wn_lost W = [])"
  using worker_reachable_ok [OF assms] by (simp_all add: worker_ok_def)

text \<open>
  The report says what happened. The closure ends in exactly one report, whose state is SUCCESS
  with the handler's result when the parameters can be printed and the handler returns, and FAILED
  with the message of the exception otherwise; it names the task and the job, goes out under the
  task's id as request id, and never names the worker.
\<close>

theorem closure_reports_outcome:
  "\<exists>r. run_closure L (task, handler) = \<lparr>sc_request = r, sc_metadata = (if t_task_id task = [] then None else Some (t_task_id task))\<rparr> \<and>
     us_task_id r = t_task_id task \<and> us_job_id r = t_job_id task \<and> us_worker_id r = [] \<and> us_retry_count r = 0 \<and>
     (case jl_dump L (t_func_params task) of
        Inl e \<Rightarrow> us_final_state r = 3 \<and> us_error_msg r = e \<and> us_result_json r = []
      | Inr p \<Rightarrow>
          (case handler p of
             Inr v \<Rightarrow> us_final_state r = 2 \<and> us_error_msg r = [] \<and> us_result_json r = v
           | Inl (StdException e) \<Rightarrow> us_final_state r = 3 \<and> us_error_msg r = e \<and> us_result_json r = []
           | Inl OtherException \<Rightarrow> us_final_state r = 3 \<and> us_error_msg r = ''Unknown exception'' \<and> us_result_json r = []))"
  by (auto simp: run_closure_def UpdateTaskStatus_call_def status_request_def Let_def StateToProto_def
      task_state_defs split: sum.splits handler_exn.splits)

lemma register_known:
  assumes "wid \<noteq> []" "addr \<noteq> []"
  shows "\<exists>s' w. RegisterWorker Delivered t wid addr s = (True, s') \<and>
    map_of (wm_workers (sv_workers s')) wid = Some w \<and> wi_last_heartbeat_time w = t \<and>
    wi_running_task_count w = 0 \<and> wm_worker_timeout (sv_workers s') = wm_worker_timeout (sv_workers s)"
  using assms
  by (simp add: RegisterWorker_def rpc_def Register_def CheckRpcStatus_def HandleRegister_def
      new_WorkerInfo_def split: option.split)

lemma heartbeat_known:
  assumes "SendHeartbeat N t wid 0 c s = (True, s')"
  shows "\<exists>w. map_of (wm_workers (sv_workers s')) wid = Some w \<and> wi_last_heartbeat_time w = t \<and>
    wi_running_task_count w = 0 \<and> wm_worker_timeout (sv_workers s') = wm_worker_timeout (sv_workers s)"
  using assms
  by (auto simp: SendHeartbeat_def rpc_def Heartbeat_def CheckRpcStatus_def HandleHeartbeat_def Let_def
      split: net.splits option.splits if_splits)

lemma heartbeat_keeps_timeout:
  "wm_worker_timeout (sv_workers (snd (SendHeartbeat N t wid n c s))) = wm_worker_timeout (sv_workers s)"
  by (auto simp: SendHeartbeat_def rpc_def Heartbeat_def HandleHeartbeat_def Let_def
      split: net.split option.split)

lemma round_restores_worker:
  assumes "wn_running W" "wn_worker_id W \<noteq> []" "wn_advertise_addr W \<noteq> []"
  shows "\<exists>w. map_of (wm_workers (sv_workers (HeartbeatLoop_round N1 Delivered t1 t2 W s))) (wn_worker_id W) = Some w \<and>
    wi_last_heartbeat_time w \<in> {t1, t2} \<and> wi_running_task_count w = 0 \<and>
    wm_worker_timeout (sv_workers (HeartbeatLoop_round N1 Delivered t1 t2 W s)) = wm_worker_timeout (sv_workers s)"
proof (cases "SendHeartbeat N1 t1 (wn_worker_id W) 0 half_cpu s")
  case (Pair ok s1)
  show ?thesis
  proof (cases ok)
    case True
    with Pair assms(1) heartbeat_known [of N1 t1 "wn_worker_id W" half_cpu s s1] show ?thesis
      by (auto simp: HeartbeatLoop_round_def)
  next
    case False
    have "wm_worker_timeout (sv_workers s1) = wm_worker_timeout (sv_workers s)"
      using heartbeat_keeps_timeout [of N1 t1 "wn_worker_id W" 0 half_cpu s] Pair by simp
    with False Pair assms(1) register_known [OF assms(2,3), of t2 s1] show ?thesis
      by (auto simp: HeartbeatLoop_round_def)
  qed
qed

text \<open>
  A worker the scheduler has forgotten comes back. Whatever the state of the scheduler and
  whatever the network did to the heartbeat, if a new registration would be delivered then after
  one round of the loop of a running worker the scheduler knows it, heard of it in this round,
  counts no running task of it, and offers it for dispatch until the timeout has passed again.
\<close>

theorem forgotten_worker_comes_back:
  assumes "wn_running W" "wn_worker_id W \<noteq> []" "wn_advertise_addr W \<noteq> []"
    and "t1 \<le> t2" "now \<le> t1 + wm_worker_timeout (sv_workers s) * 1000000000"
    and "s' = HeartbeatLoop_round N1 Delivered t1 t2 W s"
  shows "\<exists>w \<in> set (copy_available (sv_workers s') now (wm_workers (sv_workers s'))).
    map_of (wm_workers (sv_workers s')) (wn_worker_id W) = Some w \<and>
    wi_last_heartbeat_time w \<in> {t1, t2} \<and> load w = 0"
proof -
  obtain w where w: "map_of (wm_workers (sv_workers s')) (wn_worker_id W) = Some w"
      "wi_last_heartbeat_time w \<in> {t1, t2}" "wi_running_task_count w = 0"
      "wm_worker_timeout (sv_workers s') = wm_worker_timeout (sv_workers s)"
    using round_restores_worker [OF assms(1-3), of N1 t1 t2 s] assms(6) by blast
  have "\<not> timed_out (sv_workers s') now w" using w(2,4) assms(4,5) by (auto simp: timed_out_def)
  then have "w \<in> set (copy_available (sv_workers s') now (wm_workers (sv_workers s')))"
    using map_of_SomeD [OF w(1)] by (force simp: copy_available_filter)
  with w(1-3) show ?thesis by (auto simp: load_def)
qed

text \<open>
  C33. The shutdown of a worker runs tasks on a client that is gone. The members are destroyed in
  the reverse of their declaration, so the client of the scheduler is destroyed before the pool,
  whose destructor waits for the tasks: from every reachable state in which a thread has taken a
  task and the node is being stopped, a run leads to a state where the task ran, and its report
  went to the destroyed client instead of the scheduler.
\<close>

theorem shutdown_reports_to_destroyed_client:
  assumes "(worker_step L)\<^sup>*\<^sup>* (WorkerNode cores i a reg) W" and "wn_running W" and "wn_client W"
    and "thread_in (\<lambda>s. s = Taken x) k (wn_pool W)"
  shows "\<exists>W'. (worker_step L)\<^sup>*\<^sup>* W W' \<and> wn_lost W' = [fst (fst x)] \<and> wn_sent W' = wn_sent W"
proof -
  let ?W1 = "Stop_worker W" let ?W2 = "?W1\<lparr>wn_client := False\<rparr>"
  have p: "wn_pool ?W1 = wn_pool W" "wn_pool ?W2 = wn_pool W" "\<not> wn_serving ?W1" "wn_sent ?W2 = wn_sent W"
    "wn_lost ?W2 = wn_lost W" using assms(2) by (simp_all add: Stop_worker_def)
  have "worker_step L W ?W1" by (rule worker_step.stop_node [OF assms(2)])
  moreover have "worker_step L ?W1 ?W2" by (rule worker_step.destroy_client [OF p(3)])
  moreover have "worker_step L ?W2 (execute_closure L k x ?W2)"
    by (rule worker_step.exec) (use assms(4) p(2) in simp)
  ultimately have "(worker_step L)\<^sup>*\<^sup>* W (execute_closure L k x ?W2)" by simp
  moreover have "wn_lost W = []" using worker_reachable_ok [OF assms(1)] assms(3) by (simp add: worker_ok_def)
  moreover have "wn_lost (execute_closure L k x ?W2) = wn_lost W @ [fst (fst x)]"
    "wn_sent (execute_closure L k x ?W2) = wn_sent W"
    using p by (simp_all add: execute_closure_def Let_def Stop_worker_def assms(2))
  ultimately show ?thesis by auto
qed

section \<open>Witnesses\<close>

text \<open>A node of one thread that has received one \<open>echo\<close> task and one unknown task.\<close>

definition demo_node :: worker where
  "demo_node = (WorkerNode 1 ''w1'' ''h:1'' (main_registry sample_json_lib (\<lambda>_ _. [])))
     \<lparr>wn_running := True, wn_serving := True\<rparr>"

definition demo_received :: worker where
  "demo_received = snd (RunTask sample_json_lib [] None
     (Some (default_PbTask\<lparr>p_task_id := ''t1'', p_func_name := ''echo''\<rparr>)) demo_node)"

definition demo_unknown :: worker where
  "demo_unknown = snd (RunTask sample_json_lib [] None
     (Some (default_PbTask\<lparr>p_task_id := ''t2'', p_func_name := ''nope''\<rparr>)) demo_received)"

definition demo_held :: worker where
  "demo_held = on_pool (worker_check 0) demo_unknown"

lemma demo_unknown_reachable:
  "(worker_step sample_json_lib)\<^sup>*\<^sup>* (WorkerNode 1 ''w1'' ''h:1'' (main_registry sample_json_lib (\<lambda>_ _. []))) demo_unknown"
proof -
  let ?W = "WorkerNode 1 ''w1'' ''h:1'' (main_registry sample_json_lib (\<lambda>_ _. []))"
  have "worker_step sample_json_lib ?W demo_node"
    unfolding demo_node_def by (rule worker_step.start) (simp_all add: WorkerNode_def)
  moreover have "worker_step sample_json_lib demo_node demo_received"
    unfolding demo_received_def by (rule worker_step.run_task) (simp add: demo_node_def)
  moreover have "wn_serving demo_received"
    by (simp add: demo_received_def RunTask_def OnTaskReceived_def send_report_def demo_node_def Let_def
        split: option.split sum.split)
  then have "worker_step sample_json_lib demo_received demo_unknown"
    unfolding demo_unknown_def by (rule worker_step.run_task)
  ultimately show ?thesis by simp
qed

lemmas demo_node_defs = demo_unknown_def demo_received_def demo_node_def RunTask_def OnTaskReceived_def
  send_report_def main_registry_def TaskFromProto_def default_PbTask_def WorkerNode_def ThreadPool_def
  pool_defs UpdateTaskStatus_call_def status_request_def

lemma demo_held_reachable:
  "(worker_step sample_json_lib)\<^sup>*\<^sup>* (WorkerNode 1 ''w1'' ''h:1'' (main_registry sample_json_lib (\<lambda>_ _. []))) demo_held"
proof -
  have "worker_step sample_json_lib demo_unknown demo_held"
    unfolding demo_held_def by (rule worker_step.check) (simp add: demo_node_defs thread_in_def)
  with demo_unknown_reachable show ?thesis by (rule rtranclp.rtrancl_into_rtrancl)
qed

theorem worker_reports_each_task_once_witness:
  "mset (map t_task_id (wn_received demo_unknown)) = {#''t1'', ''t2''#} \<and>
   map (\<lambda>c. us_task_id (sc_request c)) (wn_sent demo_unknown) = [''t2''] \<and> wn_lost demo_unknown = []"
  using worker_reports_each_task_once [OF demo_unknown_reachable] by (simp add: demo_node_defs)

theorem forgotten_worker_comes_back_witness:
  "\<exists>w. map_of (wm_workers (sv_workers (HeartbeatLoop_round (RequestLost ''14'') Delivered 1 2 demo_node
      (sample_scheduler empty_db ms_empty)))) ''w1'' = Some w \<and> load w = 0"
proof -
  have "wn_running demo_node" "wn_worker_id demo_node = ''w1''" "wn_advertise_addr demo_node = ''h:1''"
    by (simp_all add: demo_node_defs)
  from forgotten_worker_comes_back [OF this(1), of 1 2 1 "sample_scheduler empty_db ms_empty" _ "RequestLost ''14''", OF _ _ _ _ refl] this
  show ?thesis by (auto simp: sample_scheduler_def new_WorkerManager_def)
qed

theorem shutdown_reports_to_destroyed_client_witness:
  "\<exists>W' task. (worker_step sample_json_lib)\<^sup>*\<^sup>* demo_held W' \<and> wn_lost W' = [task] \<and> t_task_id task = ''t1''"
proof -
  obtain h ctx where t: "th_state (tp_workers (wn_pool demo_held) ! 0) = Taken ((hd (wn_received demo_held), h), ctx)"
      "t_task_id (hd (wn_received demo_held)) = ''t1''"
    by (simp add: demo_held_def on_pool_def demo_node_defs)
  have "wn_running demo_held" "wn_client demo_held" "length (tp_workers (wn_pool demo_held)) = 1"
    by (simp_all add: demo_held_def on_pool_def demo_node_defs)
  with shutdown_reports_to_destroyed_client [OF demo_held_reachable, of "((hd (wn_received demo_held), h), ctx)" 0] t
  show ?thesis by (fastforce simp: thread_in_def)
qed

end
