(* ===== verification/System_Steps.thy ===== *)
theory System_Steps
  imports Task_Stream Worker_Node
begin

text \<open>
  The whole system as one step relation: the commands of the pipelines arrive at Redis one by one, the loop
  of the scheduler reads the stream and dispatches to worker nodes, the nodes run the tasks and report, the
  handlers of the scheduler run the completion script or put the task on the stream again. Everything
  shares one Redis and one database. A message that was sent may arrive at any time, more than once or
  never, and its answer may be lost; the rest of a pipeline may never arrive; keys expire; nodes stop
  and lose what they hold; entries are rescued and dispatched twice.
\<close>

section \<open>The system\<close>

text \<open>
  The loop's record holds what the threads of the scheduler share: worker table, Redis manager, server
  and database. \<open>sy_items\<close> are the requests sent to Redis so far, \<open>sy_pipes\<close> their batches with the commands
  that have not arrived yet, and \<open>sy_calls\<close> the calls of \<open>RunTask\<close> that failed at the scheduler and may still
  arrive. The last three are a record of what happened, which no step reads: the tasks whose success a
  handler has processed, the jobs for which it did so while counts of theirs had not arrived, and the keys that expired.
\<close>

record 'r system =
  sy_items :: "BatchItem list"
  sy_loop :: "'r sched"
  sy_service :: "'r scheduler"
  sy_nodes :: "worker list"
  sy_calls :: "(string \<times> PbTask) list"
  sy_pipes :: "pipe list"
  sy_done :: "string list"
  sy_early :: "string list"
  sy_expired :: "string list"

definition on_loop :: "('r sched \<Rightarrow> 'r sched) \<Rightarrow> 'r system \<Rightarrow> 'r system" where
  "on_loop f s = s\<lparr>sy_loop := f (sy_loop s)\<rparr>"

text \<open>The handlers see the shared data, and write them.\<close>

definition service_of :: "'r system \<Rightarrow> 'r scheduler" where
  "service_of s = (sy_service s)
     \<lparr>sv_workers := sl_workers (sy_loop s), sv_rm := sl_rm (sy_loop s), sv_redis := sl_redis (sy_loop s),
      sv_batcher := (sv_batcher (sy_service s))\<lparr>bt_db := sl_db (sy_loop s)\<rparr>\<rparr>"

definition with_service :: "'r system \<Rightarrow> 'r scheduler \<Rightarrow> 'r system" where
  "with_service s v = s\<lparr>sy_service := v,
     sy_loop := (sy_loop s)\<lparr>sl_workers := sv_workers v, sl_rm := sv_rm v, sl_redis := sv_redis v,
       sl_db := bt_db (sv_batcher v)\<rparr>\<rparr>"

definition system_init :: "RedisManager \<Rightarrow> WorkerManager \<Rightarrow> database \<Rightarrow> 'r \<Rightarrow> int \<Rightarrow> 'r system" where
  "system_init M W db r now =
     \<lparr>sy_items = [], sy_loop = sched_init M W db r now,
      sy_service = \<lparr>sv_workers = W, sv_has_repo = True, sv_has_batcher = True, sv_batcher = new_batcher db,
        sv_rm = M, sv_redis = r, sv_sha = []\<rparr>,
      sy_nodes = [], sy_calls = [], sy_pipes = [], sy_done = [], sy_early = [], sy_expired = []\<rparr>"

text \<open>
  The steps. A batch is sent as one pipeline when it was committed. The server runs the commands of a
  pipeline in order, one at a time, with any other steps in between (\<open>pipe\<close>); a pipeline whose
  connection is lost is one that takes no more steps. A key that was given a time to live may be
  deleted at any moment (\<open>expire\<close>): there is no clock of the server here. A dispatch is delivered to the node that listens at the address, whose answer may be lost, or it fails
  and may arrive later.
  A node's own steps are those of \<open>worker_step\<close> that receive nothing. \<open>elsewhere\<close> is what others write:
  the flushes of the batcher and the API server in the database, and the patrol in the worker table (it
  puts nothing on the stream, by the theorem of \<open>Patrol\<close>).
\<close>

inductive system_step :: "'r loop_cfg \<Rightarrow> 'r script_ops \<Rightarrow> string \<Rightarrow> 'r system \<Rightarrow> 'r system \<Rightarrow> bool" for C SC script where
  submit: "\<forall>a \<in> set batch. item_ok (lc_types C) a \<Longrightarrow> batch_apart (sy_items s @ batch) \<Longrightarrow>
    append_items (lc_codec C) batch = Inr cmds \<Longrightarrow>
    system_step C SC script s (s\<lparr>sy_items := sy_items s @ batch, sy_pipes := sy_pipes s @ [(batch, cmds)]\<rparr>)"
| pipe: "sy_pipes s = ps @ (batch, cmd # cmds) # qs \<Longrightarrow>
    system_step C SC script s (on_loop (\<lambda>l. l\<lparr>sl_redis := exec_cmd (lc_redis C) cmd (sl_redis l)\<rparr>)
      (s\<lparr>sy_pipes := ps @ (batch, cmds) # qs\<rparr>))"
| expire: "may_expire k \<Longrightarrow> r_del (lc_redis C) k (sl_redis (sy_loop s)) = (n, r) \<Longrightarrow>
    system_step C SC script s (on_loop (\<lambda>l. l\<lparr>sl_redis := r\<rparr>) (s\<lparr>sy_expired := sy_expired s @ [k]\<rparr>))"
| top: "sl_pc (sy_loop s) = AtTop \<Longrightarrow> system_step C SC script s (on_loop (RunLoop_top C now) s)"
| fetch: "sl_pc (sy_loop s) = Fetching \<Longrightarrow> system_step C SC script s (on_loop (RunLoop_fetch C now) s)"
| entry: "sl_pc (sy_loop s) = Dispatching es ws i \<Longrightarrow> system_step C SC script s (on_loop (RunLoop_entry C es ws i) s)"
| rescue: "sl_pc (sy_loop s) = Rescuing es \<Longrightarrow> system_step C SC script s (on_loop (DoRescue_entry C now es) s)"
| stop: "system_step C SC script s (on_loop (\<lambda>l. l\<lparr>sl_stop := True\<rparr>) s)"
| dispatch_fails: "sl_pool (sy_loop s) = xs @ (t, w) # ys \<Longrightarrow>
    calls = (case TaskToProto (lc_json C) t of Inl _ \<Rightarrow> [] | Inr q \<Rightarrow> [(wi_address w, q)]) \<Longrightarrow>
    system_step C SC script s
      ((on_loop (\<lambda>l. DoDispatch C E stub (\<lambda>_ _. RpcError e) t w (l\<lparr>sl_pool := xs @ ys\<rparr>)) s)
        \<lparr>sy_calls := sy_calls s @ calls\<rparr>)"
| late: "(wn_advertise_addr (sy_nodes s ! k), q) \<in> set (sy_calls s) \<Longrightarrow> k < length (sy_nodes s) \<Longrightarrow>
    wn_serving (sy_nodes s ! k) \<Longrightarrow> RunTask (lc_json C) rnd None (Some q) (sy_nodes s ! k) = (answer, V) \<Longrightarrow>
    system_step C SC script s (s\<lparr>sy_nodes := (sy_nodes s)[k := V]\<rparr>)"
| dispatch: "sl_pool (sy_loop s) = xs @ (t, w) # ys \<Longrightarrow> TaskToProto (lc_json C) t = Inr q \<Longrightarrow>
    k < length (sy_nodes s) \<Longrightarrow> wn_serving (sy_nodes s ! k) \<Longrightarrow>
    wn_advertise_addr (sy_nodes s ! k) = wi_address w \<Longrightarrow>
    RunTask (lc_json C) rnd None (Some q) (sy_nodes s ! k) = (answer, V) \<Longrightarrow>
    reply = RpcError e \<or> reply = RpcReply (map_option er_msg (rt_error answer)) \<Longrightarrow>
    system_step C SC script s
      (on_loop (\<lambda>l. DoDispatch C E True (\<lambda>_ _. reply) t w (l\<lparr>sl_pool := xs @ ys\<rparr>))
        (s\<lparr>sy_nodes := (sy_nodes s)[k := V]\<rparr>))"
| boot: "system_step C SC script s (s\<lparr>sy_nodes := sy_nodes s @ [WorkerNode cores i a reg]\<rparr>)"
| node: "k < length (sy_nodes s) \<Longrightarrow> worker_step (lc_json C) (sy_nodes s ! k) V \<Longrightarrow>
    wn_received V = wn_received (sy_nodes s ! k) \<Longrightarrow>
    system_step C SC script s (s\<lparr>sy_nodes := (sy_nodes s)[k := V]\<rparr>)"
| register: "V \<in> set (sy_nodes s) \<Longrightarrow>
    RegisterWorker N now (wn_worker_id V) (wn_advertise_addr V) (service_of s) = (ok, v) \<Longrightarrow>
    system_step C SC script s (with_service s v)"
| heartbeat: "V \<in> set (sy_nodes s) \<Longrightarrow>
    system_step C SC script s (with_service s (HeartbeatLoop_round N1 N2 t1 t2 V (service_of s)))"
| report: "V \<in> set (sy_nodes s) \<Longrightarrow> c \<in> set (wn_sent V) \<Longrightarrow>
    UpdateTaskStatus (lc_types C) (lc_json C) (lc_redis C) SC script E1 E2 (sc_request c) (service_of s) = (x, v) \<Longrightarrow>
    system_step C SC script s ((with_service s v)
      \<lparr>sy_done := (if success_report (sc_request c) then sy_done s @ [us_task_id (sc_request c)] else sy_done s),
       sy_early := (if success_report (sc_request c)
         then early_report (pending (sy_pipes s)) (us_job_id (sc_request c)) (sy_early s) else sy_early s)\<rparr>)"
| elsewhere: "system_step C SC script s
    (s\<lparr>sy_loop := (sy_loop s)\<lparr>sl_workers := W, sl_db := db\<rparr>, sy_service := (sy_service s)\<lparr>sv_batcher := b\<rparr>\<rparr>)"

section \<open>The nodes\<close>

text \<open>A node has run a task and its function has returned.\<close>

definition succeeded :: "json_lib \<Rightarrow> worker \<Rightarrow> string \<Rightarrow> bool" where
  "succeeded L W i \<longleftrightarrow>
     (\<exists>t h ctx params out. ((t, h), ctx) \<in> set (tp_ran (wn_pool W)) \<and> t \<in> set (wn_received W) \<and> t_task_id t = i \<and>
        Get_task (t_func_name t) (wn_registry W) = Some h \<and> jl_dump L (t_func_params t) = Inr params \<and> h params = Inr out)"

definition closures :: "worker \<Rightarrow> (closure \<times> string) set" where
  "closures W = set (tp_tasks (wn_pool W)) \<union> {x. \<exists>t \<in> set (tp_workers (wn_pool W)). th_state t = Taken x}"

definition own_closure :: "worker \<Rightarrow> closure \<times> string \<Rightarrow> bool" where
  "own_closure W x \<longleftrightarrow> fst (fst x) \<in> set (wn_received W) \<and>
     Get_task (t_func_name (fst (fst x))) (wn_registry W) = Some (snd (fst x))"

definition honest :: "json_lib \<Rightarrow> worker \<Rightarrow> UpdateTaskStatusRequest \<Rightarrow> bool" where
  "honest L W q \<longleftrightarrow>
     (\<exists>t \<in> set (wn_received W). us_task_id q = t_task_id t \<and> us_job_id q = t_job_id t \<and>
        (us_final_state q = StateToProto SUCCESS \<longrightarrow> succeeded L W (t_task_id t)))"

definition node_ok :: "json_lib \<Rightarrow> worker \<Rightarrow> bool" where
  "node_ok L W \<longleftrightarrow> (\<forall>x \<in> closures W. own_closure W x) \<and> (\<forall>c \<in> set (wn_sent W). honest L W (sc_request c))"

text \<open>The history only grows.\<close>

definition node_grows :: "worker \<Rightarrow> worker \<Rightarrow> bool" where
  "node_grows W W' \<longleftrightarrow> set (wn_received W) \<subseteq> set (wn_received W') \<and> wn_registry W' = wn_registry W \<and>
     set (tp_ran (wn_pool W)) \<subseteq> set (tp_ran (wn_pool W'))"

lemma succeeded_grows:
  assumes "succeeded L W i" "node_grows W W'"
  shows "succeeded L W' i"
proof -
  obtain t h ctx params out where t: "((t, h), ctx) \<in> set (tp_ran (wn_pool W))" "t \<in> set (wn_received W)" "t_task_id t = i"
    "Get_task (t_func_name t) (wn_registry W) = Some h" "jl_dump L (t_func_params t) = Inr params" "h params = Inr out"
    using assms(1) unfolding succeeded_def by (elim exE conjE)
  with assms(2) show ?thesis
    unfolding succeeded_def node_grows_def
    by (intro exI [of _ t] exI [of _ h] exI [of _ ctx] exI [of _ params] exI [of _ out]) auto
qed

lemma honest_grows: "honest L W q \<Longrightarrow> node_grows W W' \<Longrightarrow> honest L W' q"
  unfolding honest_def using succeeded_grows [of L W _ W'] by (auto simp: node_grows_def)

lemma own_closure_grows: "own_closure W x \<Longrightarrow> node_grows W W' \<Longrightarrow> own_closure W' x"
  by (auto simp: own_closure_def node_grows_def)

lemma node_ok_grows:
  assumes "node_ok L W" "node_grows W W'" "\<forall>x \<in> closures W'. x \<in> closures W \<or> own_closure W' x"
    and "\<forall>c \<in> set (wn_sent W'). c \<in> set (wn_sent W) \<or> honest L W' (sc_request c)"
  shows "node_ok L W'"
  using assms honest_grows own_closure_grows unfolding node_ok_def by blast

lemma closures_set_thread:
  "closures (on_pool (set_thread i t) W) \<subseteq> closures W \<union> {x. th_state t = Taken x}"
  by (auto simp: closures_def on_pool_def set_thread_def dest!: subsetD [OF set_update_subset_insert])

lemma run_task_node:
  assumes "node_ok L W" "RunTask L rnd md request W = (answer, W')"
  shows "node_ok L W' \<and> node_grows W W' \<and> wn_received W' =
     wn_received W @ (case request of None \<Rightarrow> [] | Some q \<Rightarrow> [TaskFromProto L q])"
proof (cases request)
  case (Some q)
  let ?t = "TaskFromProto L q" and ?ctx = "trace_id rnd md"
  have g: "node_grows W W'" and rec: "wn_received W' = wn_received W @ [?t]"
    using assms(2) Some
    by (auto simp: RunTask_def OnTaskReceived_def send_report_def enqueue_def node_grows_def Let_def split: option.splits)
  have "\<forall>x \<in> closures W'. x \<in> closures W \<or> own_closure W' x"
    using assms(2) Some rec
    by (auto simp: RunTask_def OnTaskReceived_def send_report_def enqueue_def closures_def own_closure_def Let_def
        split: option.splits if_splits)
  moreover have "\<forall>c \<in> set (wn_sent W'). c \<in> set (wn_sent W) \<or> honest L W' (sc_request c)"
    using assms(2) Some rec
    by (auto simp: RunTask_def OnTaskReceived_def send_report_def enqueue_def honest_def Let_def
        UpdateTaskStatus_call_def status_request_def StateToProto_def task_state_defs split: option.splits if_splits)
  ultimately show ?thesis using node_ok_grows [OF assms(1) g] g rec Some by simp
qed (use assms in \<open>auto simp: RunTask_def node_grows_def\<close>)

text \<open>A step of the pool that runs nothing and adds no closure.\<close>

lemma node_ok_pool:
  assumes "node_ok L W" "closures (on_pool f W) \<subseteq> closures W" "tp_ran (f (wn_pool W)) = tp_ran (wn_pool W)"
  shows "node_ok L (on_pool f W) \<and> node_grows W (on_pool f W)"
proof -
  have g: "node_grows W (on_pool f W)" using assms(3) by (simp add: node_grows_def on_pool_def)
  have "wn_sent (on_pool f W) = wn_sent W" by (simp add: on_pool_def)
  with node_ok_grows [OF assms(1) g] assms(2) g show ?thesis by auto
qed

lemma check_closures:
  assumes "thread_in (\<lambda>s. s = Checking) i (wn_pool W)"
  shows "closures (on_pool (worker_check i) W) \<subseteq> closures W"
proof (cases "tp_tasks (wn_pool W)")
  case Nil
  then show ?thesis
    by (auto simp: worker_check_def closures_def on_pool_def set_thread_def Let_def
        dest!: subsetD [OF set_update_subset_insert])
next
  case (Cons x xs)
  then show ?thesis
    by (auto simp: worker_check_def closures_def on_pool_def set_thread_def Let_def
        dest!: subsetD [OF set_update_subset_insert])
qed

lemma run_closure_job [simp]: "us_job_id (sc_request (run_closure L c)) = t_job_id (fst c)"
  by (auto simp: run_closure_def UpdateTaskStatus_call_def status_request_def Let_def
      split: prod.splits sum.splits handler_exn.splits)

lemma exec_node:
  assumes "node_ok L W" "thread_in (\<lambda>s. s = Taken x) i (wn_pool W)"
  shows "node_ok L (execute_closure L i x W) \<and> node_grows W (execute_closure L i x W)"
proof -
  let ?W = "execute_closure L i x W"
  obtain t h ctx where x: "x = ((t, h), ctx)" by (metis surj_pair)
  have g: "node_grows W ?W"
    by (auto simp: node_grows_def execute_closure_def send_report_def worker_run_def set_thread_def Let_def)
  have "x \<in> closures W" using assms(2) by (auto simp: closures_def thread_in_def)
  then have own: "t \<in> set (wn_received W)" "Get_task (t_func_name t) (wn_registry W) = Some h"
    using assms(1) by (auto simp: node_ok_def own_closure_def x)
  have keep: "wn_received ?W = wn_received W" "wn_registry ?W = wn_registry W"
    "((t, h), ctx) \<in> set (tp_ran (wn_pool ?W))"
    by (simp_all add: execute_closure_def send_report_def worker_run_def set_thread_def Let_def x)
  have "closures ?W \<subseteq> closures W"
    by (auto simp: closures_def execute_closure_def send_report_def worker_run_def set_thread_def Let_def
        dest!: subsetD [OF set_update_subset_insert])
  moreover have "honest L ?W (sc_request (run_closure L (t, h)))"
  proof (cases "jl_dump L (t_func_params t)")
    case (Inl e)
    then show ?thesis using own keep
      by (auto simp: honest_def run_closure_def UpdateTaskStatus_call_def status_request_def StateToProto_def task_state_defs)
  next
    case (Inr params)
    show ?thesis
    proof (cases "h params")
      case (Inl e)
      then show ?thesis using own keep Inr
        by (cases e) (auto simp: honest_def run_closure_def UpdateTaskStatus_call_def status_request_def
            StateToProto_def task_state_defs)
    next
      case (Inr out)
      then have "succeeded L ?W (t_task_id t)"
        unfolding succeeded_def using own keep \<open>jl_dump L (t_func_params t) = Inr params\<close>
        by (intro exI [of _ t] exI [of _ h] exI [of _ ctx] exI [of _ params] exI [of _ out]) simp
      with own keep show ?thesis unfolding honest_def by (intro bexI [of _ t]) simp_all
    qed
  qed
  then have "\<forall>c \<in> set (wn_sent ?W). c \<in> set (wn_sent W) \<or> honest L ?W (sc_request c)"
    by (auto simp: execute_closure_def send_report_def Let_def x)
  ultimately show ?thesis using node_ok_grows [OF assms(1) g] g by blast
qed

lemma worker_step_node: "worker_step L W W' \<Longrightarrow> node_ok L W \<Longrightarrow> node_ok L W' \<and> node_grows W W'"
proof (induction rule: worker_step.induct)
  case (run_task W rnd metadata request)
  then show ?case using run_task_node [of L W rnd metadata request] by (metis prod.collapse)
next
  case (check i W)
  then show ?case
    by (intro node_ok_pool check_closures) (auto simp: worker_check_def set_thread_def Let_def)
next
  case (exec x i W)
  then show ?case by (simp add: exec_node)
next
  case (finish i W)
  then show ?case
    by (intro node_ok_pool)
      (auto simp: worker_finish_def closures_def on_pool_def set_thread_def dest!: subsetD [OF set_update_subset_insert])
next
  case (notify W i)
  then show ?case
    by (cases "i < length (tp_workers (wn_pool W))"; intro node_ok_pool)
      (auto simp: notify_one_def closures_def on_pool_def wake_state list_update_beyond
        dest!: subsetD [OF set_update_subset_insert] split: if_splits)
next
  case (spurious i W)
  then show ?case
    by (intro node_ok_pool)
      (auto simp: closures_def on_pool_def set_thread_def wake_state thread_in_def
        dest!: subsetD [OF set_update_subset_insert] split: if_splits)
next
  case (stop_node W)
  then show ?case
    by (auto simp: Stop_worker_def node_ok_def node_grows_def closures_def own_closure_def honest_def succeeded_def)
next
  case (start W)
  then show ?case by (auto simp: node_ok_def node_grows_def closures_def own_closure_def honest_def succeeded_def)
next
  case (destroy_client W)
  then show ?case by (auto simp: node_ok_def node_grows_def closures_def own_closure_def honest_def succeeded_def)
next
  case (pool_stop W)
  then show ?case by (intro node_ok_pool) (auto simp: dtor_stop_def closures_def on_pool_def)
next
  case (pool_notify_all W)
  then show ?case by (intro node_ok_pool) (auto simp: dtor_notify_all_def closures_def on_pool_def wake_state split: if_splits)
next
  case (pool_join W)
  then show ?case by (intro node_ok_pool) (auto simp: dtor_join_def closures_def on_pool_def)
qed

lemma WorkerNode_ok: "node_ok L (WorkerNode cores i a reg)"
  by (auto simp: node_ok_def closures_def WorkerNode_def ThreadPool_def)
end
