(* ===== verification/System_Invariant.thy ===== *)
theory System_Invariant
  imports System_Steps
begin

text \<open>
  The invariant of the whole system: what the keys of Redis mean (\<open>Key_Invariant\<close>), and that everything in
  the hands of the loop and the nodes is a released task of a request that the stream names (\<open>system_ok\<close>).
  The steps that write Redis, the loop and the handlers keep it.
\<close>

section \<open>The invariant\<close>

definition sent_out :: "json_lib \<Rightarrow> BatchItem list \<Rightarrow> (string \<Rightarrow> bool) \<Rightarrow> Task \<Rightarrow> bool" where
  "sent_out L items Q t \<longleftrightarrow>
     (\<exists>t1 q. handed_out L items Q t1 \<and> TaskToProto L t1 = Inr q \<and> t = TaskFromProto L q)"

definition loop_ok :: "json_lib \<Rightarrow> BatchItem list \<Rightarrow> (string \<Rightarrow> bool) \<Rightarrow> 'r sched \<Rightarrow> bool" where
  "loop_ok L items Q l \<longleftrightarrow>
     (\<forall>e \<in> set (in_hand (sl_pc l)). entry_ok Q e) \<and> (\<forall>x \<in> set (sl_pool l). handed_out L items Q (fst x))"

definition nodes_ok :: "json_lib \<Rightarrow> BatchItem list \<Rightarrow> (string \<Rightarrow> bool) \<Rightarrow> string list \<Rightarrow> worker list \<Rightarrow> bool" where
  "nodes_ok L items Q dn Vs \<longleftrightarrow>
     (\<forall>V \<in> set Vs. node_ok L V \<and> (\<forall>t \<in> set (wn_received V). sent_out L items Q t)) \<and>
     (\<forall>i \<in> set dn. \<exists>V \<in> set Vs. succeeded L V i)"

definition calls_ok :: "json_lib \<Rightarrow> BatchItem list \<Rightarrow> (string \<Rightarrow> bool) \<Rightarrow> (string \<times> PbTask) list \<Rightarrow> bool" where
  "calls_ok L items Q cs \<longleftrightarrow> (\<forall>x \<in> set cs. sent_out L items Q (TaskFromProto L (snd x)))"

text \<open>The keys, and that everything in flight is a task of a request that the stream names and that is released.\<close>

abbreviation due_in :: "('r \<Rightarrow> keyspace) \<Rightarrow> 'r system \<Rightarrow> string \<Rightarrow> bool" where
  "due_in view s \<equiv> due (sy_items s) (sy_done s) (view (sl_redis (sy_loop s)))"

definition keys_in :: "'r loop_cfg \<Rightarrow> ('r \<Rightarrow> keyspace) \<Rightarrow> 'r system \<Rightarrow> bool" where
  "keys_in C view s \<longleftrightarrow> keys_inv (lc_types C) (lc_codec C) (sy_items s) (sy_pipes s) (sy_done s) (sy_expired s) (sy_early s)
     (view (sl_redis (sy_loop s)))"

definition system_ok ::
  "'r loop_cfg \<Rightarrow> ('r \<Rightarrow> keyspace) \<Rightarrow> ('r \<Rightarrow> bool) \<Rightarrow> (string \<Rightarrow> string) \<Rightarrow> string \<Rightarrow> 'r system \<Rightarrow> bool" where
  "system_ok C view up sha script s \<longleftrightarrow>
     keys_in C view s \<and> up (sl_redis (sy_loop s)) \<and> script_ready sha script (service_of s) \<and> sv_has_batcher (sy_service s) \<and>
     loop_ok (lc_json C) (sy_items s) (due_in view s) (sy_loop s) \<and>
     nodes_ok (lc_json C) (sy_items s) (due_in view s) (sy_done s) (sy_nodes s) \<and>
     calls_ok (lc_json C) (sy_items s) (due_in view s) (sy_calls s)"

lemma sent_out_mono: "sent_out L items Q t \<Longrightarrow> Q \<le> Q' \<Longrightarrow> set items \<subseteq> set items' \<Longrightarrow> sent_out L items' Q' t"
  unfolding sent_out_def using handed_out_mono by blast

lemma calls_ok_mono: "calls_ok L items Q cs \<Longrightarrow> Q \<le> Q' \<Longrightarrow> set items \<subseteq> set items' \<Longrightarrow> calls_ok L items' Q' cs"
  unfolding calls_ok_def using sent_out_mono by blast

lemma loop_ok_mono:
  "loop_ok L items Q l \<Longrightarrow> Q \<le> Q' \<Longrightarrow> set items \<subseteq> set items' \<Longrightarrow> in_hand (sl_pc l') = in_hand (sl_pc l) \<Longrightarrow>
   sl_pool l' = sl_pool l \<Longrightarrow> loop_ok L items' Q' l'"
  unfolding loop_ok_def using entry_ok_mono handed_out_mono by (metis (no_types, lifting))

lemma nodes_ok_mono:
  assumes "nodes_ok L items Q dn Vs" "Q \<le> Q'" "set items \<subseteq> set items'"
    and "\<forall>i \<in> set dn'. i \<in> set dn \<or> (\<exists>V \<in> set Vs. succeeded L V i)"
  shows "nodes_ok L items' Q' dn' Vs"
  using assms unfolding nodes_ok_def using sent_out_mono by (metis (no_types, lifting))

lemma nodes_ok_set:
  assumes "nodes_ok L items Q dn Vs" "k < length Vs" "node_ok L V" "node_grows (Vs ! k) V"
    and "\<forall>t \<in> set (wn_received V). t \<in> set (wn_received (Vs ! k)) \<or> sent_out L items Q t"
  shows "nodes_ok L items Q dn (Vs[k := V])"
proof -
  have k: "Vs ! k \<in> set Vs" using assms(2) by simp
  have "node_ok L X \<and> (\<forall>t \<in> set (wn_received X). sent_out L items Q t)" if "X \<in> set (Vs[k := V])" for X
    using subsetD [OF set_update_subset_insert that] assms(1,3,5) k by (auto simp: nodes_ok_def)
  moreover have "\<exists>X \<in> set (Vs[k := V]). succeeded L X i" if i: "i \<in> set dn" for i
  proof -
    obtain X where X: "X \<in> set Vs" "succeeded L X i" using assms(1) i by (auto simp: nodes_ok_def)
    then obtain j where j: "j < length Vs" "Vs ! j = X" by (auto simp: in_set_conv_nth)
    have "succeeded L (Vs[k := V] ! j) i" using X j succeeded_grows [OF _ assms(4), of L i] by (cases "j = k") auto
    moreover have "Vs[k := V] ! j \<in> set (Vs[k := V])" using j(1) by simp
    ultimately show ?thesis by blast
  qed
  ultimately show ?thesis by (simp add: nodes_ok_def)
qed

text \<open>What every task a node has received is.\<close>

lemma sent_out_task:
  assumes "sent_out L items Q t"
  shows "\<exists>item \<in> set items. \<exists>q \<in> set (pr_tasks (bi_req item)). t_task_id t = uuid_of item (p_natural_id q) \<and>
     t_job_id t = cx_job_id (bi_ctx item) \<and> t_func_name t = p_func_name q \<and>
     (\<exists>d. jl_dump L (parse_params L (p_func_params q)) = Inr d \<and> t_func_params t = parse_params L d) \<and>
     Q (t_task_id t)"
proof -
  obtain t1 q1 item q i where t: "TaskToProto L t1 = Inr q1" "t = TaskFromProto L q1" "item \<in> set items"
    "q \<in> set (pr_tasks (bi_req item))" "Q (uuid_of item (p_natural_id q))"
    "t1 = (TaskFromProto L (internal_task (bi_ctx item) q (uuid_of item (p_natural_id q))))\<lparr>t_stream_id := i\<rparr>"
    using assms unfolding sent_out_def handed_out_def by blast
  obtain d where d: "jl_dump L (parse_params L (p_func_params q)) = Inr d"
    using t(1,6) by (auto simp: TaskToProto_def TaskFromProto_def internal_task_def split: sum.splits)
  have "t_task_id t = uuid_of item (p_natural_id q)" "t_job_id t = cx_job_id (bi_ctx item)"
    "t_func_name t = p_func_name q" "t_func_params t = parse_params L d"
    using t(1,2,6) d by (auto simp: TaskToProto_def TaskFromProto_def internal_task_def split: sum.splits)
  with t(3-5) d show ?thesis by (intro bexI [of _ item] bexI [of _ q]) simp_all
qed

lemma sent_out_id:
  assumes "sent_out L items Q t"
  shows "\<exists>item \<in> set items. t_job_id t = cx_job_id (bi_ctx item) \<and> t_task_id t \<in> set (item_ids item)"
  using sent_out_task [OF assms] by (auto simp: item_ids_def natural_ids_def)

section \<open>The steps keep it\<close>

lemma service_of_with [simp]: "service_of (with_service s v) = v"
  by (simp add: service_of_def with_service_def)

lemma service_fields [simp]:
  "sv_redis (service_of s) = sl_redis (sy_loop s)" "sv_rm (service_of s) = sl_rm (sy_loop s)"
  "sv_sha (service_of s) = sv_sha (sy_service s)" "sv_has_batcher (service_of s) = sv_has_batcher (sy_service s)"
  by (simp_all add: service_of_def)

lemma script_ready_cong:
  "script_ready sha script v \<Longrightarrow> sv_rm v' = sv_rm v \<Longrightarrow> sv_sha v' = sv_sha v \<Longrightarrow> script_ready sha script v'"
  by (auto simp: script_ready_def)

text \<open>The loop moves, and perhaps a node receives a task.\<close>

lemma system_ok_loop:
  assumes "system_ok C view up sha script s" "codec_ok (lc_codec C)" "\<not> pg_uuid_ok (lc_types C) []"
    and "up (sl_redis l)" "view (sl_redis l) = view (sl_redis (sy_loop s))"
    and "loop_moves C (view (sl_redis (sy_loop s))) (sy_loop s) l"
    and "nodes_ok (lc_json C) (sy_items s) (due_in view s) (sy_done s) Vs"
  shows "system_ok C view up sha script (s\<lparr>sy_loop := l, sy_nodes := Vs\<rparr>)"
proof -
  let ?v = "view (sl_redis (sy_loop s))" and ?Q = "due_in view s"
  note ok = assms(1) [unfolded system_ok_def]
  have keys: "keys_ok (lc_types C) (lc_codec C) (sy_items s) (sy_pipes s) (sy_done s) (set (sy_expired s)) ?v"
    using ok by (simp add: keys_in_def keys_inv_def)
  have hand: "\<forall>e \<in> set (in_hand (sl_pc (sy_loop s))). entry_ok ?Q e" using ok by (simp add: loop_ok_def)
  have "handed_out (lc_json C) (sy_items s) ?Q t"
    if e: "e \<in> set (in_hand (sl_pc (sy_loop s)))" "stored_task C ?v e = Some t" for e t
  proof -
    obtain i where "entry_task e = Some i" "?Q i" using hand e(1) by (auto simp: entry_ok_def)
    from due_stored(2) [OF keys assms(2) refl assms(3) this e(2)] show ?thesis by simp
  qed
  then have "loop_ok (lc_json C) (sy_items s) ?Q l"
    using assms(6) ok keys_ok_stream [OF keys] hand unfolding loop_moves_def loop_ok_def by blast
  moreover have "script_ready sha script (service_of (s\<lparr>sy_loop := l, sy_nodes := Vs\<rparr>))"
    by (rule script_ready_cong [of _ _ "service_of s"]) (use ok assms(6) in \<open>simp_all add: loop_moves_def service_of_def\<close>)
  ultimately show ?thesis using ok assms(4,5,7) by (simp add: system_ok_def keys_in_def)
qed

text \<open>What an entry of the stream stands for: its task, unless the metadata have expired.\<close>

lemma system_ok_stored:
  assumes "system_ok C view up sha script s" "codec_ok (lc_codec C)" "\<not> pg_uuid_ok (lc_types C) []"
    and "e \<in> set (stream_at (view (sl_redis (sy_loop s))) kTasks)"
  shows "stored_task C (view (sl_redis (sy_loop s))) e = None \<Longrightarrow> \<exists>i. entry_task e = Some i \<and> TaskMeta i \<in> set (sy_expired s)"
    and "stored_task C (view (sl_redis (sy_loop s))) e = Some t \<Longrightarrow> entry_task e = Some (t_task_id t) \<and> t_stream_id t = fst e"
proof -
  have keys: "keys_ok (lc_types C) (lc_codec C) (sy_items s) (sy_pipes s) (sy_done s) (set (sy_expired s)) (view (sl_redis (sy_loop s)))"
    using assms(1) by (simp add: system_ok_def keys_in_def keys_inv_def)
  obtain i where i: "entry_task e = Some i" "due_in view s i" using keys_ok_stream [OF keys assms(4)] by (auto simp: entry_ok_def)
  note d = due_stored [OF keys assms(2) refl assms(3) i]
  show "stored_task C (view (sl_redis (sy_loop s))) e = None \<Longrightarrow> \<exists>i. entry_task e = Some i \<and> TaskMeta i \<in> set (sy_expired s)"
    using d(1) i(1) by blast
  show "stored_task C (view (sl_redis (sy_loop s))) e = Some t \<Longrightarrow> entry_task e = Some (t_task_id t) \<and> t_stream_id t = fst e"
    using d(2) i(1) by simp
qed

text \<open>The handlers of register and heartbeat write the worker table only.\<close>

definition same_but_workers :: "'r scheduler \<Rightarrow> 'r scheduler \<Rightarrow> bool" where
  "same_but_workers v v' \<longleftrightarrow> (\<exists>W. v' = v\<lparr>sv_workers := W\<rparr>)"

lemma same_but_workers_refl: "same_but_workers v v"
  unfolding same_but_workers_def by (rule exI [of _ "sv_workers v"]) simp

lemma same_but_workers_trans: "same_but_workers u v \<Longrightarrow> same_but_workers v w \<Longrightarrow> same_but_workers u w"
  by (auto simp: same_but_workers_def)

lemma rpc_same:
  assumes "\<And>v. same_but_workers v (snd (handler v))"
  shows "same_but_workers v (snd (rpc N handler v))"
  using assms by (simp add: rpc_def same_but_workers_refl split: net.split)

lemma RegisterWorker_same: "same_but_workers v (snd (RegisterWorker N now i a v))"
proof -
  have "same_but_workers v (snd (Register now q v))" for q v
    using same_but_workers_refl by (auto simp: Register_def same_but_workers_def)
  from rpc_same [OF this] show ?thesis by (simp add: RegisterWorker_def split_beta)
qed

lemma SendHeartbeat_same: "same_but_workers v (snd (SendHeartbeat N now i n c v))"
proof -
  have "same_but_workers v (snd (Heartbeat now q v))" for q v
    by (auto simp: Heartbeat_def same_but_workers_def split_beta Let_def)
  from rpc_same [OF this] show ?thesis by (simp add: SendHeartbeat_def split_beta)
qed

lemma HeartbeatLoop_same: "same_but_workers v (HeartbeatLoop_round N1 N2 t1 t2 W v)"
proof -
  obtain ok v1 where h: "SendHeartbeat N1 t1 (wn_worker_id W) 0 half_cpu v = (ok, v1)" by fastforce
  have 1: "same_but_workers v v1" using SendHeartbeat_same [of v N1 t1 "wn_worker_id W" 0 half_cpu] h by simp
  note 2 = same_but_workers_trans [OF 1 RegisterWorker_same]
  show ?thesis using h 1 2 by (simp add: HeartbeatLoop_round_def same_but_workers_refl)
qed

lemma system_ok_workers:
  assumes "system_ok C view up sha script s" "same_but_workers (service_of s) v"
  shows "system_ok C view up sha script (with_service s v)"
proof -
  obtain W where v: "v = (service_of s)\<lparr>sv_workers := W\<rparr>" using assms(2) by (auto simp: same_but_workers_def)
  have "script_ready sha script v"
    by (rule script_ready_cong [of _ _ "service_of s"]) (use assms(1) in \<open>simp_all add: system_ok_def v\<close>)
  moreover have "loop_ok (lc_json C) (sy_items s) (due_in view s) (sy_loop (with_service s v))"
    by (rule loop_ok_mono [of _ "sy_items s" "due_in view s" "sy_loop s"]) (use assms(1) in \<open>simp_all add: system_ok_def with_service_def\<close>)
  moreover have "sl_redis (sy_loop (with_service s v)) = sl_redis (sy_loop s)" "sv_has_batcher v = sv_has_batcher (sy_service s)"
    by (simp_all add: with_service_def v)
  ultimately show ?thesis using assms(1) by (simp add: system_ok_def keys_in_def) (simp add: with_service_def)
qed

text \<open>A retry puts at most the task itself on the stream.\<close>

lemma GetTaskById_tx_id:
  "GetTaskById_tx T L i (db, None) = (x, (db', Some t)) \<Longrightarrow> t_task_id t = i"
  using row_to_task_ids find_task_Some [of db i]
  by (fastforce simp: GetTaskById_tx_def split: if_splits option.splits sum.splits)

lemma GetTaskById_id:
  assumes "GetTaskById T L E i db = (Some t, db')"
  shows "t_task_id t = i"
proof -
  obtain x db1 o1 where g: "GetTaskById_tx T L i (db, None) = (x, (db1, o1))" by (metis surj_pair)
  have "o1 = Some t" using assms g by (auto simp: GetTaskById_def run_tx_def split: option.splits sum.splits if_splits)
  with g GetTaskById_tx_id show ?thesis by metis
qed

lemma report_failure_redis:
  assumes "report_failure T L R E1 E2 q v = (x, v')"
  shows "sv_rm v' = sv_rm v \<and> sv_sha v' = sv_sha v \<and> sv_has_batcher v' = sv_has_batcher v \<and>
    (sv_redis v' = sv_redis v \<or>
     (\<exists>j y. XAdd (sv_rm v) R kTasks (ToXAddArgs (us_task_id q) j) ''*'' (sv_redis v) = (y, sv_redis v')))"
proof (cases "sv_has_repo v")
  case True
  obtain n db1 where h: "HandleTaskFailure T E1 (us_task_id q) (us_error_msg q) (sint (us_retry_count q)) (bt_db (sv_batcher v)) = (n, db1)"
    by fastforce
  obtain to db2 where g: "GetTaskById T L E2 (us_task_id q) db1 = (to, db2)" by fastforce
  show ?thesis
  proof (cases "n \<and> to \<noteq> None")
    case True
    then obtain t where t: "to = Some t" "n" by blast
    have "t_task_id t = us_task_id q" using GetTaskById_id g t(1) by blast
    moreover obtain y r where "XAdd (sv_rm v) R kTasks (ToXAddArgs (us_task_id q) (t_job_id t)) ''*'' (sv_redis v) = (y, r)"
      by fastforce
    ultimately show ?thesis
      using assms \<open>sv_has_repo v\<close> h g t by (auto simp: report_failure_def Let_def)
  next
    case False
    then show ?thesis using assms \<open>sv_has_repo v\<close> h g by (auto simp: report_failure_def Let_def split: if_splits)
  qed
qed (use assms in \<open>auto simp: report_failure_def\<close>)

text \<open>A step that writes Redis and moves nothing else.\<close>

lemma system_ok_writer:
  assumes "system_ok C view up sha script s"
    and keys: "keys_in C view s'" "up (sl_redis (sy_loop s'))"
      "emitted (view (sl_redis (sy_loop s))) \<subseteq> emitted (view (sl_redis (sy_loop s')))"
    and v: "script_ready sha script (service_of s')" "sv_has_batcher (sy_service s')"
    and same: "sl_pc (sy_loop s') = sl_pc (sy_loop s)" "sl_pool (sy_loop s') = sl_pool (sy_loop s)"
      "sy_nodes s' = sy_nodes s" "sy_calls s' = sy_calls s"
    and more: "set (sy_items s) \<subseteq> set (sy_items s')" "set (sy_done s) \<subseteq> set (sy_done s')"
      "\<forall>i \<in> set (sy_done s'). i \<in> set (sy_done s) \<or> (\<exists>V \<in> set (sy_nodes s). succeeded (lc_json C) V i)"
  shows "system_ok C view up sha script s'"
proof -
  note ok = assms(1) [unfolded system_ok_def]
  have Q: "due_in view s \<le> due_in view s'" by (rule due_mono [OF more(1,2) keys(3)])
  have "loop_ok (lc_json C) (sy_items s') (due_in view s') (sy_loop s')"
    by (rule loop_ok_mono [OF _ Q more(1), of _ "sy_loop s"]) (use ok same in simp_all)
  moreover have "nodes_ok (lc_json C) (sy_items s') (due_in view s') (sy_done s') (sy_nodes s)"
    by (rule nodes_ok_mono [OF _ Q more(1), of _ "sy_done s"]) (use ok more(3) in simp_all)
  moreover have "calls_ok (lc_json C) (sy_items s') (due_in view s') (sy_calls s)"
    by (rule calls_ok_mono [OF _ Q more(1)]) (use ok in simp)
  ultimately show ?thesis using keys v same by (simp add: system_ok_def)
qed

context script_host
begin

lemma submit_keeps:
  assumes ok: "system_ok C view up sha script s"
    and b: "\<forall>a \<in> set batch. item_ok (lc_types C) a" "batch_apart (sy_items s @ batch)" "append_items (lc_codec C) batch = Inr cmds"
  shows "system_ok C view up sha script (s\<lparr>sy_items := sy_items s @ batch, sy_pipes := sy_pipes s @ [(batch, cmds)]\<rparr>)"
proof -
  have "keys_in C view (s\<lparr>sy_items := sy_items s @ batch, sy_pipes := sy_pipes s @ [(batch, cmds)]\<rparr>)"
    using ok keys_inv_submit [OF _ b] by (simp add: system_ok_def keys_in_def)
  from system_ok_writer [OF ok this] ok show ?thesis by (simp add: system_ok_def service_of_def)
qed

lemma pipe_keeps:
  assumes ok: "system_ok C view up sha script s" and "sy_pipes s = ps @ (batch, cmd # cmds) # qs" "lc_redis C = R"
  shows "system_ok C view up sha script (on_loop (\<lambda>l. l\<lparr>sl_redis := exec_cmd R cmd (sl_redis l)\<rparr>) (s\<lparr>sy_pipes := ps @ (batch, cmds) # qs\<rparr>))"
    (is "system_ok _ _ _ _ _ ?s")
proof -
  have "keys_inv (lc_types C) (lc_codec C) (sy_items s) (ps @ (batch, cmd # cmds) # qs) (sy_done s) (sy_expired s) (sy_early s)
      (view (sl_redis (sy_loop s)))" "up (sl_redis (sy_loop s))"
    using ok assms(2) by (simp_all add: system_ok_def keys_in_def)
  note e = exec_keeps [OF this]
  have "keys_in C view ?s" using e(2) by (simp add: keys_in_def on_loop_def)
  moreover have "script_ready sha script (service_of ?s)"
    by (rule script_ready_cong [of _ _ "service_of s"]) (use ok in \<open>simp_all add: system_ok_def on_loop_def\<close>)
  ultimately show ?thesis
    using system_ok_writer [OF ok, of ?s] ok e(1,3) by (simp add: system_ok_def on_loop_def)
qed

lemma expire_keeps:
  assumes ok: "system_ok C view up sha script s" and k: "may_expire k" "r_del R k (sl_redis (sy_loop s)) = (n, r)"
  shows "system_ok C view up sha script (on_loop (\<lambda>l. l\<lparr>sl_redis := r\<rparr>) (s\<lparr>sy_expired := sy_expired s @ [k]\<rparr>))"
    (is "system_ok _ _ _ _ _ ?s")
proof -
  have up: "up (sl_redis (sy_loop s))" using ok by (simp add: system_ok_def)
  have r: "up r" "view r = (view (sl_redis (sy_loop s)))(k := None)"
    using del [OF up, of k] may_expire_streams [OF k(1)] k(2) by auto
  then have "keys_in C view ?s"
    using ok keys_inv_expired [OF _ k(1)] by (simp add: system_ok_def keys_in_def on_loop_def)
  moreover have "script_ready sha script (service_of ?s)"
    by (rule script_ready_cong [of _ _ "service_of s"]) (use ok in \<open>simp_all add: system_ok_def on_loop_def\<close>)
  moreover have "emitted (view r) = emitted (view (sl_redis (sy_loop s)))"
    by (rule emitted_stream) (use may_expire_streams [OF k(1)] in \<open>simp add: r(2)\<close>)
  ultimately show ?thesis
    using system_ok_writer [OF ok, of ?s] ok r(1) by (simp add: system_ok_def on_loop_def)
qed

text \<open>A report of a node is about a task it has received.\<close>

lemma success_keys:
  assumes ok: "system_ok C view up sha script s" and "script \<noteq> []"
    and a: "a \<in> List.set (sy_items s)" "us_job_id q = cx_job_id (bi_ctx a)" "us_task_id q \<in> List.set (item_ids a)"
      "us_task_id q \<in> emitted (view (sl_redis (sy_loop s)))"
    and run: "report_success SC script q (service_of s) = (x, v)"
  shows "up (sv_redis v)" "emitted (view (sl_redis (sy_loop s))) \<subseteq> emitted (view (sv_redis v))"
    and "keys_inv (lc_types C) (lc_codec C) (sy_items s) (sy_pipes s) (sy_done s @ [us_task_id q]) (sy_expired s)
      (early_report (pending (sy_pipes s)) (us_job_id q) (sy_early s)) (view (sv_redis v))"
    and "sv_has_batcher v" "script_ready sha script v"
    and "\<forall>c Y. orphan c Y (view (sl_redis (sy_loop s))) \<longrightarrow> orphan c Y (view (sv_redis v))"
proof -
  let ?r = "sl_redis (sy_loop s)"
  note o = ok [unfolded system_ok_def]
  have fine: "\<exists>n r'. complete_one R (us_job_id q) (us_task_id q) r1 = (Inr n, r') \<and> up r' \<and>
      keys_inv (lc_types C) (lc_codec C) (sy_items s) (sy_pipes s) (sy_done s @ [us_task_id q]) (sy_expired s)
        (early_report (pending (sy_pipes s)) (us_job_id q) (sy_early s)) (view r') \<and>
      emitted (view ?r) \<subseteq> emitted (view r') \<and> (\<forall>c Y. orphan c Y (view ?r) \<longrightarrow> orphan c Y (view r'))"
    if "up r1" "view r1 = view ?r" for r1
    using complete_keeps [of _ _ "sy_items s" _ "sy_done s" _ _ r1, OF _ that(1) a(1,3)] o that(2) a(2,4) by (simp add: keys_in_def)
  have "\<exists>r1 n r' s'. up r1 \<and> view r1 = view (sv_redis (service_of s)) \<and>
     complete_one R (us_job_id q) (us_task_id q) r1 = (Inr n, r') \<and>
     report_success SC script q (service_of s) = (Inr (GrpcOK, Some None), s') \<and> sv_redis s' = r' \<and>
     sv_batcher s' = snd (AddStatusUpdate (status_op q) (sv_batcher (service_of s))) \<and>
     sv_workers s' = sv_workers (service_of s) \<and> sv_has_batcher s' \<and> script_ready sha script s'"
    by (rule report_success_once) (use o assms(2) fine in \<open>auto, blast\<close>)
  then obtain r1 n r' where r1: "up r1" "view r1 = view ?r" "complete_one R (us_job_id q) (us_task_id q) r1 = (Inr n, r')"
    "sv_redis v = r'" "sv_has_batcher v" "script_ready sha script v"
    using run by auto
  with fine [OF r1(1,2)] show "up (sv_redis v)" "emitted (view (sl_redis (sy_loop s))) \<subseteq> emitted (view (sv_redis v))"
    "keys_inv (lc_types C) (lc_codec C) (sy_items s) (sy_pipes s) (sy_done s @ [us_task_id q]) (sy_expired s)
      (early_report (pending (sy_pipes s)) (us_job_id q) (sy_early s)) (view (sv_redis v))"
    "sv_has_batcher v" "script_ready sha script v"
    "\<forall>c Y. orphan c Y (view (sl_redis (sy_loop s))) \<longrightarrow> orphan c Y (view (sv_redis v))" by auto
qed

lemma failure_keys:
  assumes ok: "system_ok C view up sha script s" and em: "us_task_id q \<in> emitted (view (sl_redis (sy_loop s)))"
    and run: "report_failure T L R E1 E2 q (service_of s) = (x, v)"
  shows "up (sv_redis v)" "emitted (view (sl_redis (sy_loop s))) \<subseteq> emitted (view (sv_redis v))"
    and "keys_inv (lc_types C) (lc_codec C) (sy_items s) (sy_pipes s) (sy_done s) (sy_expired s) (sy_early s) (view (sv_redis v))"
    and "sv_has_batcher v" "script_ready sha script v"
    and "\<forall>c Y. orphan c Y (view (sl_redis (sy_loop s))) \<longrightarrow> orphan c Y (view (sv_redis v))"
proof -
  let ?r = "sl_redis (sy_loop s)"
  note o = ok [unfolded system_ok_def]
  have inv: "keys_inv (lc_types C) (lc_codec C) (sy_items s) (sy_pipes s) (sy_done s) (sy_expired s) (sy_early s) (view ?r)"
    and up: "up ?r" using o by (simp_all add: keys_in_def)
  note f = report_failure_redis [OF run]
  show "sv_has_batcher v" using f o by simp
  show "script_ready sha script v"
    by (rule script_ready_cong [of _ _ "service_of s"]) (use o f in simp_all)
  have str: "is_stream (view ?r) kTasks" using inv by (simp add: keys_inv_def keys_ok_def streams_ok_def)
  have "up (sv_redis v) \<and> emitted (view ?r) \<subseteq> emitted (view (sv_redis v)) \<and>
    keys_inv (lc_types C) (lc_codec C) (sy_items s) (sy_pipes s) (sy_done s) (sy_expired s) (sy_early s) (view (sv_redis v)) \<and>
    (\<forall>c Y. orphan c Y (view ?r) \<longrightarrow> orphan c Y (view (sv_redis v)))"
  proof (cases "sv_redis v = ?r")
    case False
    then obtain j y where y: "XAdd (sl_rm (sy_loop s)) R kTasks (ToXAddArgs (us_task_id q) j) ''*'' ?r = (y, sv_redis v)"
      using f by auto
    obtain i r' where r': "r_xadd R kTasks ''*'' (ToXAddArgs (us_task_id q) j) ?r = (Inr i, r')" "up r'"
      "view r' = (view ?r)(kTasks \<mapsto> RStream (stream_at (view ?r) kTasks @ [(i, ToXAddArgs (us_task_id q) j)]))"
      using xadd [OF up str] by blast
    have "sv_redis v = r'" using y False r'(1) by (auto simp: XAdd_def split: if_splits)
    moreover have t: "entry_task ([], ToXAddArgs (us_task_id q) j) = Some (us_task_id q)" by simp
    moreover have "emitted (view r') = insert (us_task_id q) (emitted (view ?r))" by (rule emitted_add [OF r'(3) t])
    ultimately show ?thesis using keys_inv_again [OF inv t em r'(3)] orphan_again [OF _ t em r'(3)] r'(2) by blast
  qed (use inv up in simp)
  then show "up (sv_redis v)" "emitted (view ?r) \<subseteq> emitted (view (sv_redis v))"
    "keys_inv (lc_types C) (lc_codec C) (sy_items s) (sy_pipes s) (sy_done s) (sy_expired s) (sy_early s) (view (sv_redis v))"
    "\<forall>c Y. orphan c Y (view ?r) \<longrightarrow> orphan c Y (view (sv_redis v))" by blast+
qed

lemma report_keeps:
  assumes ok: "system_ok C view up sha script s" and "script \<noteq> []"
    and V: "V \<in> List.set (sy_nodes s)" "c \<in> List.set (wn_sent V)"
    and u: "UpdateTaskStatus T L R SC script E1 E2 (sc_request c) (service_of s) = (x, v)"
    and s': "s' = (with_service s v)
      \<lparr>sy_done := (if success_report (sc_request c) then sy_done s @ [us_task_id (sc_request c)] else sy_done s),
       sy_early := (if success_report (sc_request c)
         then early_report (pending (sy_pipes s)) (us_job_id (sc_request c)) (sy_early s) else sy_early s)\<rparr>"
  shows "system_ok C view up sha script s'"
    and "orphan d Y (view (sl_redis (sy_loop s))) \<Longrightarrow> orphan d Y (view (sl_redis (sy_loop s')))"
proof -
  let ?q = "sc_request c" and ?J = "lc_json C" and ?r = "sl_redis (sy_loop s)"
  note o = ok [unfolded system_ok_def]
  have "honest ?J V ?q" using o V by (auto simp: nodes_ok_def node_ok_def)
  then obtain t where t: "t \<in> List.set (wn_received V)" "us_task_id ?q = t_task_id t" "us_job_id ?q = t_job_id t"
    "us_final_state ?q = StateToProto SUCCESS \<longrightarrow> succeeded ?J V (t_task_id t)"
    unfolding honest_def by blast
  have sent: "sent_out ?J (sy_items s) (due_in view s) t" using o V(1) t(1) by (auto simp: nodes_ok_def)
  obtain a where a: "a \<in> List.set (sy_items s)" "us_job_id ?q = cx_job_id (bi_ctx a)" "us_task_id ?q \<in> List.set (item_ids a)"
    using sent_out_id [OF sent] t(2,3) by auto
  have em: "us_task_id ?q \<in> emitted (view ?r)" using sent_out_task [OF sent] t(2) by (auto simp: due_def)
  consider (empty) "us_task_id ?q = []" | (success) "success_report ?q"
    | (failure) "us_task_id ?q \<noteq> []" "us_final_state ?q \<noteq> StateToProto SUCCESS"
    by (auto simp: success_report_def)
  then have "system_ok C view up sha script s' \<and> (\<forall>d Y. orphan d Y (view ?r) \<longrightarrow> orphan d Y (view (sl_redis (sy_loop s'))))"
  proof cases
    case empty
    then have "v = service_of s" "\<not> success_report ?q" using u by (simp_all add: UpdateTaskStatus_def success_report_def)
    then show ?thesis
      using system_ok_writer [OF ok, of s'] o unfolding s' by (simp add: with_service_def keys_in_def service_of_def)
  next
    case success
    then have run: "report_success SC script ?q (service_of s) = (x, v)" and succ: "succeeded ?J V (us_task_id ?q)"
      using u t(2,4) by (simp_all add: UpdateTaskStatus_def success_report_def)
    note k = success_keys [OF ok assms(2) a em run]
    show ?thesis
      using system_ok_writer [OF ok, of s'] k success succ V(1) unfolding s' by (auto simp: with_service_def keys_in_def service_of_def)
  next
    case failure
    then have run: "report_failure T L R E1 E2 ?q (service_of s) = (x, v)" and no: "\<not> success_report ?q"
      using u by (simp_all add: UpdateTaskStatus_def success_report_def)
    note k = failure_keys [OF ok em run]
    show ?thesis
      using system_ok_writer [OF ok, of s'] k no unfolding s' by (simp add: with_service_def keys_in_def service_of_def)
  qed
  then show "system_ok C view up sha script s'"
    "orphan d Y (view (sl_redis (sy_loop s))) \<Longrightarrow> orphan d Y (view (sl_redis (sy_loop s')))" by blast+
qed

end

end
