(* ===== verification/System_Fate.thy ===== *)
theory System_Fate
  imports System_Invariant
begin

text \<open>
  Where the entries of the stream are: each is still open in the consumer group, or a worker has received
  its task, or the metadata of its task have expired (\<open>fate_ok\<close>). Every step keeps this and the invariant of
  \<open>System_Invariant\<close>, and no step brings back a task that is an \<open>orphan\<close>.
\<close>

section \<open>The entries of the stream\<close>

definition received_by :: "worker list \<Rightarrow> string \<Rightarrow> bool" where
  "received_by Vs i \<longleftrightarrow> (\<exists>V \<in> set Vs. \<exists>t \<in> set (wn_received V). t_task_id t = i)"

definition fate_ok :: "('r \<Rightarrow> keyspace) \<Rightarrow> ('r \<Rightarrow> stream_entry set) \<Rightarrow> 'r system \<Rightarrow> bool" where
  "fate_ok view opn s \<longleftrightarrow>
     (let S = set (stream_at (view (sl_redis (sy_loop s))) kTasks) in
      set (in_hand (sl_pc (sy_loop s))) \<subseteq> S \<and>
      (\<forall>x \<in> set (sl_pool (sy_loop s)). \<exists>e \<in> S. fst e = t_stream_id (fst x) \<and> entry_task e = Some (t_task_id (fst x))) \<and>
      (\<forall>e \<in> S. e \<in> opn (sl_redis (sy_loop s)) \<or>
         (\<exists>i. entry_task e = Some i \<and> (received_by (sy_nodes s) i \<or> TaskMeta i \<in> set (sy_expired s)))) \<and>
      (\<forall>V \<in> set (sy_nodes s). worker_ok V))"

lemma all_set_update: "\<forall>x \<in> set xs. P x \<Longrightarrow> P y \<Longrightarrow> \<forall>x \<in> set (xs[k := y]). P x"
  using set_update_subset_insert by fast

lemma received_by_set:
  assumes "received_by Vs i" "set (wn_received (Vs ! k)) \<subseteq> set (wn_received V)"
  shows "received_by (Vs[k := V]) i"
proof -
  obtain X t where X: "X \<in> set Vs" "t \<in> set (wn_received X)" "t_task_id t = i" using assms(1) by (auto simp: received_by_def)
  then obtain j where j: "j < length Vs" "Vs ! j = X" by (auto simp: in_set_conv_nth)
  have "t \<in> set (wn_received (Vs[k := V] ! j))" using X j assms(2) by (cases "j = k") auto
  moreover have "Vs[k := V] ! j \<in> set (Vs[k := V])" using j(1) by simp
  ultimately show ?thesis using X(3) unfolding received_by_def by blast
qed

lemma worker_ok_whereabouts:
  assumes "worker_ok V" "t \<in> set (wn_received V)"
  shows "(\<exists>c \<in> set (wn_sent V). us_task_id (sc_request c) = t_task_id t) \<or>
    (\<exists>x \<in> set (tp_tasks (wn_pool V)). task_in x = t_task_id t) \<or> t_task_id t \<in># ids_held V \<or>
    \<not> wn_client V \<and> (\<exists>u \<in> set (wn_lost V). t_task_id u = t_task_id t)"
proof -
  have "t_task_id t \<in># mset (map t_task_id (wn_received V))" using assms(2) by simp
  moreover have c: "wn_client V \<longrightarrow> wn_lost V = []" using assms(1) by (simp add: worker_ok_def)
  ultimately have "t_task_id t \<in># mset (map (\<lambda>c. us_task_id (sc_request c)) (wn_sent V)) + mset (map t_task_id (wn_lost V)) +
      mset (map task_in (tp_tasks (wn_pool V))) + ids_held V"
    using assms(1) unfolding worker_ok_def by (elim conjE) (simp only:)
  with c show ?thesis by (cases "wn_client V") (fastforce simp del: mset_map)+
qed

text \<open>Producers, and steps that leave the server alone.\<close>

lemma fate_ok_producer:
  assumes "fate_ok view opn s"
    and "tracked view opn (set (stream_at (view (sl_redis (sy_loop s))) kTasks) - opn (sl_redis (sy_loop s)))
      (set (stream_at (view (sl_redis (sy_loop s))) kTasks)) (sl_redis (sy_loop s'))"
    and "sl_pc (sy_loop s') = sl_pc (sy_loop s)" "sl_pool (sy_loop s') = sl_pool (sy_loop s)" "sy_nodes s' = sy_nodes s"
    and "set (sy_expired s) \<subseteq> set (sy_expired s')"
  shows "fate_ok view opn s'"
proof -
  let ?S = "set (stream_at (view (sl_redis (sy_loop s))) kTasks)" and ?S' = "set (stream_at (view (sl_redis (sy_loop s'))) kTasks)"
  have S: "?S \<subseteq> ?S'" "?S' \<subseteq> (?S - opn (sl_redis (sy_loop s))) \<union> opn (sl_redis (sy_loop s'))"
    using assms(2) by (simp_all add: tracked_def)
  have f: "set (in_hand (sl_pc (sy_loop s))) \<subseteq> ?S"
    "\<forall>x \<in> set (sl_pool (sy_loop s)). \<exists>e \<in> ?S. fst e = t_stream_id (fst x) \<and> entry_task e = Some (t_task_id (fst x))"
    "\<forall>e \<in> ?S. e \<in> opn (sl_redis (sy_loop s)) \<or>
       (\<exists>i. entry_task e = Some i \<and> (received_by (sy_nodes s) i \<or> TaskMeta i \<in> set (sy_expired s)))"
    "\<forall>V \<in> set (sy_nodes s). worker_ok V"
    using assms(1) by (simp_all add: fate_ok_def Let_def)
  have "e \<in> opn (sl_redis (sy_loop s')) \<or> (\<exists>i. entry_task e = Some i \<and> (received_by (sy_nodes s) i \<or> TaskMeta i \<in> set (sy_expired s')))"
    if "e \<in> ?S'" for e using that S(2) f(3) assms(6) by blast
  with S(1) f(1,2,4) assms(3-5) show ?thesis unfolding fate_ok_def Let_def by (simp, blast)
qed

lemma fate_ok_nodes:
  assumes "fate_ok view opn s" "sl_redis (sy_loop s') = sl_redis (sy_loop s)" "sl_pc (sy_loop s') = sl_pc (sy_loop s)"
    and "sl_pool (sy_loop s') = sl_pool (sy_loop s)" "\<forall>i. received_by (sy_nodes s) i \<longrightarrow> received_by (sy_nodes s') i"
    and "\<forall>V \<in> set (sy_nodes s'). worker_ok V" "sy_expired s' = sy_expired s"
  shows "fate_ok view opn s'"
  using assms unfolding fate_ok_def Let_def by (simp, blast)

text \<open>Both invariants.\<close>

definition all_ok ::
  "'r loop_cfg \<Rightarrow> ('r \<Rightarrow> keyspace) \<Rightarrow> ('r \<Rightarrow> bool) \<Rightarrow> ('r \<Rightarrow> stream_entry set) \<Rightarrow> (string \<Rightarrow> string) \<Rightarrow> string \<Rightarrow>
    'r system \<Rightarrow> bool" where
  "all_ok C view up opn sha script s \<longleftrightarrow> system_ok C view up sha script s \<and> fate_ok view opn s"

definition orphan_in :: "('r \<Rightarrow> keyspace) \<Rightarrow> string \<Rightarrow> 'r system \<Rightarrow> bool" where
  "orphan_in view c s \<longleftrightarrow> c \<in> ids_of (sy_items s) \<and> orphan c (pending (sy_pipes s)) (view (sl_redis (sy_loop s)))"

context task_stream
begin

lemma commands_from:
  assumes "up r"
  defines "S \<equiv> List.set (stream_at (view r) kTasks)"
  shows "script_host R view (\<lambda>r'. up r' \<and> tracked view opn (S - opn r) S r') SC sha hosted script"
    and "up r \<and> tracked view opn (S - opn r) S r"
  using assms commands_tracked by (auto simp: tracked_def)

lemma producer_keeps:
  assumes "all_ok C view up opn sha script s"
    and "\<And>up'. script_host R view up' SC sha hosted script \<Longrightarrow> system_ok C view up' sha script s \<Longrightarrow>
       system_ok C view up' sha script s'"
    and "sl_pc (sy_loop s') = sl_pc (sy_loop s)" "sl_pool (sy_loop s') = sl_pool (sy_loop s)" "sy_nodes s' = sy_nodes s"
    and "set (sy_expired s) \<subseteq> set (sy_expired s')"
  shows "all_ok C view up opn sha script s'"
proof -
  have ok: "system_ok C view up sha script s" and f: "fate_ok view opn s" using assms(1) by (simp_all add: all_ok_def)
  then have "up (sl_redis (sy_loop s))" by (simp add: system_ok_def)
  note h = commands_from [OF this]
  then have "system_ok C view (\<lambda>r'. up r' \<and> tracked view opn (List.set (stream_at (view (sl_redis (sy_loop s))) kTasks) -
      opn (sl_redis (sy_loop s))) (List.set (stream_at (view (sl_redis (sy_loop s))) kTasks)) r') sha script s"
    using ok by (simp add: system_ok_def)
  have "system_ok C view up sha script s'" by (rule assms(2) [OF script_host_axioms ok])
  moreover note assms(2) [OF h(1) \<open>system_ok C view (\<lambda>r'. _ r' \<and> _ r') sha script s\<close>]
  then have "fate_ok view opn s'" by (intro fate_ok_producer [OF f _ assms(3-6)]) (simp add: system_ok_def)
  ultimately show ?thesis by (simp add: all_ok_def)
qed

lemma on_loop_keeps:
  assumes ok: "all_ok C view up opn sha script s" and C: "codec_ok (lc_codec C)" "\<not> pg_uuid_ok (lc_types C) []"
    and l: "loop_keeps C view up opn (sy_loop s) (f (sy_loop s))"
  shows "all_ok C view up opn sha script (on_loop f s)"
proof -
  let ?l = "sy_loop s" and ?l' = "f (sy_loop s)"
  have o: "system_ok C view up sha script s" and f: "fate_ok view opn s" using ok by (simp_all add: all_ok_def)
  let ?S = "List.set (stream_at (view (sl_redis ?l)) kTasks)"
  have l': "up (sl_redis ?l')" "view (sl_redis ?l') = view (sl_redis ?l)" "kept_open C view opn (sl_redis ?l) (sl_redis ?l')"
    "loop_moves C (view (sl_redis ?l)) ?l ?l'"
    using l by (simp_all add: loop_keeps_def)
  have "system_ok C view up sha script (on_loop f s)"
    using system_ok_loop [OF o C l'(1,2,4), of "sy_nodes s"] o by (simp add: on_loop_def system_ok_def)
  moreover have "\<exists>e \<in> ?S. fst e = t_stream_id (fst x) \<and> entry_task e = Some (t_task_id (fst x))"
    if x: "x \<in> List.set (sl_pool ?l')" for x
  proof (cases "x \<in> List.set (sl_pool ?l)")
    case False
    then obtain e where e: "e \<in> List.set (in_hand (sl_pc ?l))" "stored_task C (view (sl_redis ?l)) e = Some (fst x)"
      using l'(4) x by (auto simp: loop_moves_def)
    have eS: "e \<in> ?S" using e(1) f by (auto simp: fate_ok_def Let_def)
    from system_ok_stored(2) [OF o C eS e(2)] eS show ?thesis by (intro bexI [of _ e]) simp_all
  qed (use f in \<open>simp add: fate_ok_def Let_def\<close>)
  moreover have "e \<in> opn (sl_redis ?l') \<or> (\<exists>i. entry_task e = Some i \<and> (received_by (sy_nodes s) i \<or> TaskMeta i \<in> List.set (sy_expired s)))"
    if e: "e \<in> ?S" for e
  proof (cases "stored_task C (view (sl_redis ?l)) e = None")
    case True
    then show ?thesis using system_ok_stored(1) [OF o C e] by blast
  next
    case False
    then have "e \<in> opn (sl_redis ?l) \<longrightarrow> e \<in> opn (sl_redis ?l')" using l'(3) e unfolding kept_open_def by blast
    with f e show ?thesis by (auto simp: fate_ok_def Let_def)
  qed
  ultimately have "fate_ok view opn (on_loop f s)"
    using f l'(2,4) unfolding fate_ok_def Let_def on_loop_def loop_moves_def by (simp, blast)
  with \<open>system_ok C view up sha script (on_loop f s)\<close> show ?thesis by (simp add: all_ok_def)
qed

lemma dispatch_system:
  assumes ok: "system_ok C view up sha script s" and "codec_ok (lc_codec C)" "\<not> pg_uuid_ok (lc_types C) []" "lc_group C = G"
    and p: "sl_pool (sy_loop s) = xs @ (t, w) # ys" and q: "TaskToProto (lc_json C) t = Inr q"
    and k: "k < length (sy_nodes s)" "RunTask (lc_json C) rnd None (Some q) (sy_nodes s ! k) = (answer, V)"
  shows "system_ok C view up sha script
    (s\<lparr>sy_loop := DoDispatch C E True answers t w ((sy_loop s)\<lparr>sl_pool := xs @ ys\<rparr>), sy_nodes := (sy_nodes s)[k := V]\<rparr>)"
proof -
  note o = ok [unfolded system_ok_def]
  let ?J = "lc_json C"
  have "sy_nodes s ! k \<in> List.set (sy_nodes s)" using k(1) by simp
  then have "node_ok ?J (sy_nodes s ! k)" using o by (auto simp: nodes_ok_def)
  note run = run_task_node [OF this k(2)]
  have "handed_out ?J (sy_items s) (due_in view s) t" using o p by (auto simp: loop_ok_def)
  then have "sent_out ?J (sy_items s) (due_in view s) (TaskFromProto ?J q)" using q by (auto simp: sent_out_def)
  with run have n: "nodes_ok ?J (sy_items s) (due_in view s) (sy_done s) ((sy_nodes s)[k := V])"
    by (intro nodes_ok_set) (use o k in auto)
  have "up (sl_redis (sy_loop s))" using o by simp
  moreover have "List.set (xs @ ys) \<subseteq> List.set (sl_pool (sy_loop s))" using p by auto
  ultimately show ?thesis
    using DoDispatch_keeps(1-3) [where E = E and stub = True and answers = answers and t = t and w = w, OF _ _ _ refl] assms(4)
    by (intro system_ok_loop [OF ok assms(2,3) _ _ _ n]) simp_all
qed

lemma dispatch_keeps:
  assumes ok: "all_ok C view up opn sha script s" and C: "codec_ok (lc_codec C)" "\<not> pg_uuid_ok (lc_types C) []" "lc_group C = G"
    and p: "sl_pool (sy_loop s) = xs @ (t, w) # ys" and q: "TaskToProto (lc_json C) t = Inr q"
    and k: "k < length (sy_nodes s)" "wn_serving (sy_nodes s ! k)"
      "RunTask (lc_json C) rnd None (Some q) (sy_nodes s ! k) = (answer, V)"
  shows "all_ok C view up opn sha script
    (on_loop (\<lambda>l. DoDispatch C E True answers t w (l\<lparr>sl_pool := xs @ ys\<rparr>)) (s\<lparr>sy_nodes := (sy_nodes s)[k := V]\<rparr>))"
proof -
  let ?l = "sy_loop s" and ?Vs = "(sy_nodes s)[k := V]"
  let ?l' = "DoDispatch C E True answers t w (?l\<lparr>sl_pool := xs @ ys\<rparr>)"
  let ?S = "List.set (stream_at (view (sl_redis ?l)) kTasks)"
  have o: "system_ok C view up sha script s" and f: "fate_ok view opn s" using ok by (simp_all add: all_ok_def)
  have up: "up (sl_redis ?l)" and sub: "List.set (xs @ ys) \<subseteq> List.set (sl_pool ?l)" using o p by (auto simp: system_ok_def)
  note d = DoDispatch_keeps [where E = E and stub = True and answers = answers and t = t and w = w, OF up C(3) sub refl]
  have mem: "sy_nodes s ! k \<in> List.set (sy_nodes s)" using k(1) by simp
  then have "node_ok (lc_json C) (sy_nodes s ! k)" using o by (auto simp: system_ok_def nodes_ok_def)
  from run_task_node [OF this k(3)] have rec: "wn_received V = wn_received (sy_nodes s ! k) @ [TaskFromProto (lc_json C) q]" by simp
  have rt: "p_task_id q = t_task_id t" using q by (auto simp: TaskToProto_def split: sum.splits)
  have mono: "received_by ?Vs i" if "received_by (sy_nodes s) i" for i
    by (rule received_by_set [OF that]) (auto simp: rec)
  have "V \<in> List.set ?Vs" using k(1) by (simp add: set_update_memI)
  then have new: "received_by ?Vs (t_task_id t)" using rec rt by (auto simp: received_by_def intro!: bexI [of _ V])
  obtain e0 where e0: "e0 \<in> ?S" "fst e0 = t_stream_id t" "entry_task e0 = Some (t_task_id t)"
    using f p by (auto simp: fate_ok_def Let_def)
  have "e \<in> opn (sl_redis ?l') \<or> (\<exists>i. entry_task e = Some i \<and> (received_by ?Vs i \<or> TaskMeta i \<in> List.set (sy_expired s)))"
    if e: "e \<in> ?S" for e
  proof (cases "fst e = t_stream_id t")
    case True
    then have "e = e0" using e e0(1,2) ids_distinct [OF up] by (auto simp: distinct_map inj_on_def)
    with e0(3) new show ?thesis by blast
  next
    case False
    then show ?thesis using f e d(4) mono by (auto simp: fate_ok_def Let_def)
  qed
  moreover have "worker_ok V" using worker_ok_RunTask [OF _ k(2), of "lc_json C" rnd None "Some q"] f mem k(3)
    by (auto simp: fate_ok_def Let_def)
  then have "\<forall>X \<in> List.set ?Vs. worker_ok X"
    using f by (intro all_set_update) (simp_all add: fate_ok_def Let_def)
  ultimately have "fate_ok view opn (s\<lparr>sy_loop := ?l', sy_nodes := ?Vs\<rparr>)"
    using f d(2,6,7) sub by (auto simp: fate_ok_def Let_def)
  with dispatch_system [where E = E and answers = answers, OF o C p q k(1,3)]
  have "all_ok C view up opn sha script (s\<lparr>sy_loop := ?l', sy_nodes := ?Vs\<rparr>)" by (simp add: all_ok_def)
  moreover have "s\<lparr>sy_loop := l, sy_nodes := Vs\<rparr> = s\<lparr>sy_nodes := Vs, sy_loop := l\<rparr>" for l Vs by simp
  ultimately show ?thesis by (simp only: on_loop_def) simp
qed

lemma rest_keeps:
  assumes "all_ok C view up opn sha script s" "system_ok C view up sha script s'"
    and "sl_redis (sy_loop s') = sl_redis (sy_loop s)" "sl_pc (sy_loop s') = sl_pc (sy_loop s)"
    and "sl_pool (sy_loop s') = sl_pool (sy_loop s)" "sy_nodes s' = sy_nodes s" "sy_expired s' = sy_expired s"
  shows "all_ok C view up opn sha script s'"
  using assms fate_ok_nodes [of view opn s s'] by (auto simp: all_ok_def fate_ok_def Let_def)

lemma boot_keeps:
  assumes ok: "all_ok C view up opn sha script s"
  shows "all_ok C view up opn sha script (s\<lparr>sy_nodes := sy_nodes s @ [WorkerNode cores i a reg]\<rparr>)"
proof -
  let ?W = "WorkerNode cores i a reg"
  have o: "system_ok C view up sha script s" and f: "fate_ok view opn s" using ok by (simp_all add: all_ok_def)
  have "wn_received ?W = []" by (simp add: WorkerNode_def)
  then have "nodes_ok (lc_json C) (sy_items s) (due_in view s) (sy_done s) (sy_nodes s @ [?W])"
    using o WorkerNode_ok by (auto simp: system_ok_def nodes_ok_def)
  then have "system_ok C view up sha script (s\<lparr>sy_nodes := sy_nodes s @ [?W]\<rparr>)"
    using o unfolding system_ok_def keys_in_def by (simp add: service_of_def)
  moreover have "fate_ok view opn (s\<lparr>sy_nodes := sy_nodes s @ [?W]\<rparr>)"
    by (rule fate_ok_nodes [OF f]) (use f worker_ok_init in \<open>auto simp: received_by_def fate_ok_def Let_def\<close>)
  ultimately show ?thesis by (simp add: all_ok_def)
qed

lemma node_keeps:
  assumes ok: "all_ok C view up opn sha script s"
    and k: "k < length (sy_nodes s)" "worker_step (lc_json C) (sy_nodes s ! k) V" "wn_received V = wn_received (sy_nodes s ! k)"
  shows "all_ok C view up opn sha script (s\<lparr>sy_nodes := (sy_nodes s)[k := V]\<rparr>)"
proof -
  have o: "system_ok C view up sha script s" and f: "fate_ok view opn s" using ok by (simp_all add: all_ok_def)
  have mem: "sy_nodes s ! k \<in> List.set (sy_nodes s)" using k(1) by simp
  then have "node_ok (lc_json C) (sy_nodes s ! k)" using o by (auto simp: system_ok_def nodes_ok_def)
  from worker_step_node [OF k(2) this] have "nodes_ok (lc_json C) (sy_items s) (due_in view s) (sy_done s) ((sy_nodes s)[k := V])"
    by (intro nodes_ok_set) (use o k in \<open>auto simp: system_ok_def\<close>)
  then have "system_ok C view up sha script (s\<lparr>sy_nodes := (sy_nodes s)[k := V]\<rparr>)"
    using o unfolding system_ok_def keys_in_def by (simp add: service_of_def)
  moreover have "worker_ok V" using worker_ok_step [OF k(2)] f mem by (auto simp: fate_ok_def Let_def)
  then have "\<forall>X \<in> List.set ((sy_nodes s)[k := V]). worker_ok X"
    using f by (intro all_set_update) (simp_all add: fate_ok_def Let_def)
  then have "fate_ok view opn (s\<lparr>sy_nodes := (sy_nodes s)[k := V]\<rparr>)"
    by (intro fate_ok_nodes [OF f]) (auto simp: k(3) intro: received_by_set)
  ultimately show ?thesis by (simp add: all_ok_def)
qed

lemma calls_keep:
  assumes "all_ok C view up opn sha script s" "calls_ok (lc_json C) (sy_items s) (due_in view s) cs"
  shows "all_ok C view up opn sha script (s\<lparr>sy_calls := cs\<rparr>)"
  using assms by (simp add: all_ok_def system_ok_def keys_in_def fate_ok_def service_of_def)

lemma dispatch_fails_keeps:
  assumes ok: "all_ok C view up opn sha script s" and C: "codec_ok (lc_codec C)" "\<not> pg_uuid_ok (lc_types C) []" "lc_group C = G"
    and p: "sl_pool (sy_loop s) = xs @ (t, w) # ys"
    and calls: "calls = (case TaskToProto (lc_json C) t of Inl _ \<Rightarrow> [] | Inr q \<Rightarrow> [(wi_address w, q)])"
  shows "all_ok C view up opn sha script
    ((on_loop (\<lambda>l. DoDispatch C E stub (\<lambda>_ _. RpcError e) t w (l\<lparr>sl_pool := xs @ ys\<rparr>)) s)\<lparr>sy_calls := sy_calls s @ calls\<rparr>)"
    (is "all_ok _ _ _ _ _ _ (?s'\<lparr>sy_calls := _\<rparr>)")
proof (rule calls_keep)
  have o: "system_ok C view up sha script s" using ok by (simp add: all_ok_def)
  have up: "up (sl_redis (sy_loop s))" "List.set (xs @ ys) \<subseteq> List.set (sl_pool (sy_loop s))"
    using o p by (auto simp: system_ok_def)
  note d = DoDispatch_keeps [where E = E and stub = stub and answers = "\<lambda>_ _. RpcError e" and t = t and w = w,
        OF up(1) C(3) up(2) refl]
  show "all_ok C view up opn sha script ?s'"
  proof (rule on_loop_keeps [OF ok C(1,2)])
    from d show "loop_keeps C view up opn (sy_loop s) (DoDispatch C E stub (\<lambda>_ _. RpcError e) t w ((sy_loop s)\<lparr>sl_pool := xs @ ys\<rparr>))"
      using still_kept [OF still_open_refl] by (simp add: loop_keeps_def)
  qed
  have "handed_out (lc_json C) (sy_items s) (due_in view s) t" using o p by (auto simp: system_ok_def loop_ok_def)
  then have "calls_ok (lc_json C) (sy_items s) (due_in view s) calls"
    by (cases "TaskToProto (lc_json C) t") (auto simp: calls calls_ok_def sent_out_def)
  then show "calls_ok (lc_json C) (sy_items ?s') (due_in view ?s') (sy_calls s @ calls)"
    using o d(2) by (auto simp: on_loop_def system_ok_def calls_ok_def)
qed

lemma late_keeps:
  assumes ok: "all_ok C view up opn sha script s"
    and k: "(a, q) \<in> List.set (sy_calls s)" "k < length (sy_nodes s)" "wn_serving (sy_nodes s ! k)"
      "RunTask (lc_json C) rnd None (Some q) (sy_nodes s ! k) = (answer, V)"
  shows "all_ok C view up opn sha script (s\<lparr>sy_nodes := (sy_nodes s)[k := V]\<rparr>)"
proof -
  have o: "system_ok C view up sha script s" and f: "fate_ok view opn s" using ok by (simp_all add: all_ok_def)
  have mem: "sy_nodes s ! k \<in> List.set (sy_nodes s)" using k(2) by simp
  then have "node_ok (lc_json C) (sy_nodes s ! k)" using o by (auto simp: system_ok_def nodes_ok_def)
  note run = run_task_node [OF this k(4)]
  have "sent_out (lc_json C) (sy_items s) (due_in view s) (TaskFromProto (lc_json C) q)"
    using o k(1) by (force simp: system_ok_def calls_ok_def)
  with run have "nodes_ok (lc_json C) (sy_items s) (due_in view s) (sy_done s) ((sy_nodes s)[k := V])"
    by (intro nodes_ok_set) (use o k in \<open>auto simp: system_ok_def\<close>)
  then have "system_ok C view up sha script (s\<lparr>sy_nodes := (sy_nodes s)[k := V]\<rparr>)"
    using o unfolding system_ok_def keys_in_def by (simp add: service_of_def)
  moreover have "worker_ok V" using worker_ok_RunTask [OF _ k(3), of "lc_json C" rnd None "Some q"] f mem k(4)
    by (auto simp: fate_ok_def Let_def)
  then have "\<forall>X \<in> List.set ((sy_nodes s)[k := V]). worker_ok X"
    using f by (intro all_set_update) (simp_all add: fate_ok_def Let_def)
  then have "fate_ok view opn (s\<lparr>sy_nodes := (sy_nodes s)[k := V]\<rparr>)"
    by (intro fate_ok_nodes [OF f]) (use run in \<open>auto intro: received_by_set\<close>)
  ultimately show ?thesis by (simp add: all_ok_def)
qed

lemma system_step_keeps:
  assumes "system_step C SC script s s'" and C: "lc_redis C = R" "lc_group C = G"
    and "script \<noteq> []" and co: "codec_ok (lc_codec C)" "\<not> pg_uuid_ok (lc_types C) []"
    and ok: "all_ok C view up opn sha script s"
  shows "all_ok C view up opn sha script s'"
proof -
  have o: "system_ok C view up sha script s" and f: "fate_ok view opn s" using ok by (simp_all add: all_ok_def)
  have up: "up (sl_redis (sy_loop s))" and meta: "metas_readable (view (sl_redis (sy_loop s)))"
    using o keys_ok_readable by (auto simp: system_ok_def keys_in_def keys_inv_def)
  have hand: "List.set (in_hand (sl_pc (sy_loop s))) \<subseteq> List.set (stream_at (view (sl_redis (sy_loop s))) kTasks)"
    using f by (simp add: fate_ok_def Let_def)
  note keeps = on_loop_keeps [OF ok co]
  show ?thesis
    using assms(1)
  proof cases
    case (submit batch cmds)
    have "system_ok C view up' sha script s'"
      if "script_host R view up' SC sha hosted script" "system_ok C view up' sha script s" for up'
      using script_host.submit_keeps [OF that submit(2-4)] submit(1) by simp
    from producer_keeps [OF ok this] submit(1) show ?thesis by simp
  next
    case (pipe ps batch cmd cmds qs)
    have "system_ok C view up' sha script s'"
      if "script_host R view up' SC sha hosted script" "system_ok C view up' sha script s" for up'
      using script_host.pipe_keeps [OF that pipe(2) C(1)] pipe(1) C(1) by simp
    from producer_keeps [OF ok this] pipe(1) show ?thesis by (simp add: on_loop_def)
  next
    case (expire k n r)
    have "system_ok C view up' sha script s'"
      if "script_host R view up' SC sha hosted script" "system_ok C view up' sha script s" for up'
      using script_host.expire_keeps [OF that expire(2)] expire(1,3) C(1) by simp
    from producer_keeps [OF ok this] expire(1) show ?thesis by (auto simp: on_loop_def)
  next
    case (top now)
    show ?thesis unfolding top(1) by (rule keeps [where f = "RunLoop_top C now", OF RunLoop_top_keeps [OF up C(2)]])
  next
    case (fetch now)
    show ?thesis unfolding fetch(1) by (rule keeps [where f = "RunLoop_fetch C now", OF RunLoop_fetch_keeps [OF up C(2)]])
  next
    case (entry es ws i)
    show ?thesis unfolding entry(1)
      by (rule keeps [where f = "RunLoop_entry C es ws i", OF RunLoop_entry_keeps [OF up meta C entry(2) hand]])
  next
    case (rescue es now)
    show ?thesis unfolding rescue(1)
      by (rule keeps [where f = "DoRescue_entry C now es", OF DoRescue_entry_keeps [OF up meta C rescue(2) hand]])
  next
    case stop
    show ?thesis unfolding stop
      by (rule keeps) (use up still_kept [OF still_open_refl] in \<open>simp add: loop_keeps_def loop_moves_def\<close>)
  next
    case (dispatch_fails xs t w ys calls E stub e)
    then show ?thesis using dispatch_fails_keeps [OF ok co C(2)] by simp
  next
    case (late k q rnd answer V)
    then show ?thesis using late_keeps [OF ok late(2)] by simp
  next
    case (dispatch xs t w ys q k rnd answer V reply e E)
    then show ?thesis using dispatch_keeps [OF ok co C(2)] by simp
  next
    case (boot cores i a reg)
    then show ?thesis using boot_keeps [OF ok] by simp
  next
    case (node k V)
    then show ?thesis using node_keeps [OF ok] by simp
  next
    case (register V N now b v)
    then have s': "s' = with_service s v" and same: "same_but_workers (service_of s) v"
      using RegisterWorker_same [of "service_of s" N now "wn_worker_id V" "wn_advertise_addr V"] by simp_all
    show ?thesis unfolding s'
      by (rule rest_keeps [OF ok system_ok_workers [OF o same]]) (use same in \<open>auto simp: same_but_workers_def with_service_def\<close>)
  next
    case (heartbeat V N1 N2 t1 t2)
    note same = HeartbeatLoop_same [of "service_of s" N1 N2 t1 t2 V]
    show ?thesis unfolding heartbeat(1)
      by (rule rest_keeps [OF ok system_ok_workers [OF o same]]) (use same in \<open>auto simp: same_but_workers_def with_service_def\<close>)
  next
    case (report V c E1 E2 x v)
    have "system_ok C view up' sha script s'"
      if "script_host R view up' SC sha hosted script" "system_ok C view up' sha script s" for up'
      by (rule script_host.report_keeps(1) [OF that assms(4) report(2,3) report(4) [unfolded C(1)] report(1)])
    from producer_keeps [OF ok this] report(1) show ?thesis by (simp add: with_service_def)
  next
    case (elsewhere W db b)
    have "system_ok C view up sha script s'"
      using o unfolding elsewhere system_ok_def keys_in_def by (auto simp: loop_ok_def script_ready_def service_of_def)
    from rest_keeps [OF ok this] show ?thesis unfolding elsewhere by simp
  qed
qed

text \<open>What no step puts on the stream, no worker ever receives.\<close>

lemma orphan_step:
  assumes "system_step C SC script s s'" and C: "lc_redis C = R" "lc_group C = G"
    and "script \<noteq> []" and co: "codec_ok (lc_codec C)" "\<not> pg_uuid_ok (lc_types C) []"
    and ok: "all_ok C view up opn sha script s" and c: "orphan_in view c s"
  shows "orphan_in view c s'"
proof -
  have o: "system_ok C view up sha script s" and f: "fate_ok view opn s" using ok by (simp_all add: all_ok_def)
  have up: "up (sl_redis (sy_loop s))" and keys: "keys_in C view s" using o by (simp_all add: system_ok_def)
  have meta: "metas_readable (view (sl_redis (sy_loop s)))"
    using keys keys_ok_readable by (auto simp: keys_in_def keys_inv_def)
  have hand: "List.set (in_hand (sl_pc (sy_loop s))) \<subseteq> List.set (stream_at (view (sl_redis (sy_loop s))) kTasks)"
    using f by (simp add: fate_ok_def Let_def)
  have o1: "c \<in> ids_of (sy_items s)" "orphan c (pending (sy_pipes s)) (view (sl_redis (sy_loop s)))"
    using c by (simp_all add: orphan_in_def)
  have loop: "orphan_in view c (on_loop f s)" if "loop_keeps C view up opn (sy_loop s) (f (sy_loop s))" for f
    using that o1 by (simp add: loop_keeps_def orphan_in_def on_loop_def)
  show ?thesis
    using assms(1)
  proof cases
    case (submit batch cmds)
    have "ids_of (sy_items s) \<subseteq> ids_of (sy_items s @ batch)" by (auto simp: ids_of_def)
    then show ?thesis
      using orphan_submit [OF o1(2,1) submit(2-4)] o1(1) unfolding submit(1) by (auto simp: orphan_in_def)
  next
    case (pipe ps batch cmd cmds qs)
    have "keys_inv (lc_types C) (lc_codec C) (sy_items s) (ps @ (batch, cmd # cmds) # qs) (sy_done s) (sy_expired s) (sy_early s)
        (view (sl_redis (sy_loop s)))"
      using keys pipe(2) by (simp add: keys_in_def)
    from exec_keeps(4) [OF this up] o1 pipe(2) show ?thesis unfolding pipe(1) by (simp add: orphan_in_def on_loop_def C)
  next
    case (expire k n r)
    have "view r = (view (sl_redis (sy_loop s)))(k := None)"
      using del [OF up, of k] may_expire_streams [OF expire(2)] expire(3) C(1) by auto
    with orphan_expired [OF o1(2) expire(2)] o1(1) show ?thesis unfolding expire(1) by (simp add: orphan_in_def on_loop_def)
  next
    case (top now)
    show ?thesis unfolding top(1) by (rule loop [where f = "RunLoop_top C now", OF RunLoop_top_keeps [OF up C(2)]])
  next
    case (fetch now)
    show ?thesis unfolding fetch(1) by (rule loop [where f = "RunLoop_fetch C now", OF RunLoop_fetch_keeps [OF up C(2)]])
  next
    case (entry es ws i)
    show ?thesis unfolding entry(1)
      by (rule loop [where f = "RunLoop_entry C es ws i", OF RunLoop_entry_keeps [OF up meta C entry(2) hand]])
  next
    case (rescue es now)
    show ?thesis unfolding rescue(1)
      by (rule loop [where f = "DoRescue_entry C now es", OF DoRescue_entry_keeps [OF up meta C rescue(2) hand]])
  next
    case (dispatch_fails xs t w ys calls E stub e)
    have "List.set (xs @ ys) \<subseteq> List.set (sl_pool (sy_loop s))" using dispatch_fails(2) by auto
    from DoDispatch_keeps(2) [OF up C(2) this refl] o1 show ?thesis
      unfolding dispatch_fails(1) by (simp add: orphan_in_def on_loop_def)
  next
    case (dispatch xs t w ys q k rnd answer V reply e E)
    have "List.set (xs @ ys) \<subseteq> List.set (sl_pool (sy_loop s))" using dispatch(2) by auto
    from DoDispatch_keeps(2) [OF up C(2) this refl] o1 show ?thesis
      unfolding dispatch(1) by (simp add: orphan_in_def on_loop_def)
  next
    case (register V N now b v)
    then have "same_but_workers (service_of s) v"
      using RegisterWorker_same [of "service_of s" N now "wn_worker_id V" "wn_advertise_addr V"] by simp
    then show ?thesis using o1 unfolding register(1) by (auto simp: same_but_workers_def with_service_def orphan_in_def)
  next
    case (heartbeat V N1 N2 t1 t2)
    show ?thesis
      using HeartbeatLoop_same [of "service_of s" N1 N2 t1 t2 V] o1 unfolding heartbeat(1)
      by (auto simp: same_but_workers_def with_service_def orphan_in_def)
  next
    case (report V q E1 E2 x v)
    from report_keeps(2) [OF o assms(4) report(2,3) report(4) [unfolded C(1)] report(1) o1(2)] o1(1)
    show ?thesis unfolding report(1) by (simp add: orphan_in_def with_service_def)
  qed (use o1 in \<open>simp_all add: orphan_in_def on_loop_def\<close>)
qed

lemma orphan_never_received:
  assumes "(system_step C SC script)\<^sup>*\<^sup>* s s'" "lc_redis C = R" "lc_group C = G"
    and "script \<noteq> []" "codec_ok (lc_codec C)" "\<not> pg_uuid_ok (lc_types C) []"
    and "all_ok C view up opn sha script s" "orphan_in view c s" "V \<in> List.set (sy_nodes s')" "t \<in> List.set (wn_received V)"
  shows "t_task_id t \<noteq> c"
proof -
  have "all_ok C view up opn sha script s' \<and> orphan_in view c s'"
    using assms(1)
  proof (induction rule: rtranclp_induct)
    case (step y z)
    then show ?case using system_step_keeps [OF step.hyps(2) assms(2-6)] orphan_step [OF step.hyps(2) assms(2-6)] by blast
  qed (use assms in simp)
  then have "sent_out (lc_json C) (sy_items s') (due_in view s') t" "c \<notin> emitted (view (sl_redis (sy_loop s')))"
    using assms(9,10) by (auto simp: all_ok_def system_ok_def nodes_ok_def orphan_in_def orphan_def)
  then show ?thesis using sent_out_task by (fastforce simp: due_def)
qed

lemma system_init_ok:
  assumes "up r" "\<forall>k. view r k = None" "rm_client M"
  shows "all_ok C view up opn sha script (system_init M W db r now)"
proof -
  have v: "view r = (\<lambda>_. None)" using assms(2) by (simp add: fun_eq_iff)
  then have "fate_ok view opn (system_init M W db r now)"
    by (simp add: fate_ok_def system_init_def sched_init_def stream_at_def)
  with assms(1,3) keys_inv_empty v show ?thesis
    by (simp add: all_ok_def system_ok_def keys_in_def system_init_def sched_init_def loop_ok_def nodes_ok_def calls_ok_def service_of_def
        script_ready_def)
qed

lemma system_reachable_ok:
  assumes "(system_step C SC script)\<^sup>*\<^sup>* (system_init M W db r now) s" "lc_redis C = R" "lc_group C = G"
    and "script \<noteq> []" "codec_ok (lc_codec C)" "\<not> pg_uuid_ok (lc_types C) []" "up r" "\<forall>k. view r k = None" "rm_client M"
  shows "all_ok C view up opn sha script s"
  using assms(1)
proof (induction rule: rtranclp_induct)
  case base
  show ?case by (rule system_init_ok [OF assms(7-9)])
next
  case (step y z)
  show ?case by (rule system_step_keeps [OF step.hyps(2) assms(2-6) step.IH])
qed

end

section \<open>Runs\<close>

text \<open>
  A system that was started on an empty Redis and has come to \<open>s\<close>: requests sent and laid out, the loop reading,
  rescuing and dispatching, nodes that come up, run, stop and lose their tasks, reports that
  arrive late, repeatedly or never, failures retried, other processes writing the database.
\<close>

definition runs_to :: "'r loop_cfg \<Rightarrow> 'r script_ops \<Rightarrow> string \<Rightarrow> ('r \<Rightarrow> keyspace) \<Rightarrow> ('r \<Rightarrow> bool) \<Rightarrow> 'r system \<Rightarrow> bool" where
  "runs_to C SC script view up s \<longleftrightarrow>
     (\<exists>M W db r now. up r \<and> (\<forall>k. view r k = None) \<and> rm_client M \<and>
        (system_step C SC script)\<^sup>*\<^sup>* (system_init M W db r now) s)"

lemma runs_to_ok:
  assumes "task_stream R view up SC sha hosted script G opn" "lc_redis C = R" "lc_group C = G"
    and "script \<noteq> []" "codec_ok (lc_codec C)" "\<not> pg_uuid_ok (lc_types C) []" "runs_to C SC script view up s"
  shows "all_ok C view up opn sha script s"
  using assms(7) task_stream.system_reachable_ok [OF assms(1) _ assms(2-6)] by (auto simp: runs_to_def)

end
