(* ===== verification/System_Run.thy ===== *)
theory System_Run
  imports System_Fate
begin

text \<open>
  Runs of the whole system of \<open>System_Steps\<close>, evaluated: moves that compute the next system, their
  soundness, and three runs of a request with two tasks: one in which all goes well, one in which the
  answer to a dispatch is lost, and one in which the first task is done before the second is laid out.
\<close>

section \<open>Moves\<close>

text \<open>A step with its choices made; \<open>None\<close> when it cannot be taken. The node and report are given by position.\<close>

datatype move =
  MPipe nat | MTop int | MFetch int | MEntry | MRescue int | MDispatch nat bool | MBoot string string TaskRegistry
  | MStart nat | MCheck nat | MExec nat | MFinish nat | MRegister nat | MReport nat nat

definition node_move :: "nat \<Rightarrow> (worker \<Rightarrow> worker) \<Rightarrow> 'r system \<Rightarrow> 'r system option" where
  "node_move k f s = Some (s\<lparr>sy_nodes := (sy_nodes s)[k := f (sy_nodes s ! k)]\<rparr>)"

definition pipe_move :: "'r loop_cfg \<Rightarrow> nat \<Rightarrow> 'r system \<Rightarrow> 'r system option" where
  "pipe_move C j s =
     (if j < length (sy_pipes s)
      then (case sy_pipes s ! j of
              (batch, []) \<Rightarrow> None
            | (batch, cmd # cmds) \<Rightarrow>
                Some (on_loop (\<lambda>l. l\<lparr>sl_redis := exec_cmd (lc_redis C) cmd (sl_redis l)\<rparr>)
                  (s\<lparr>sy_pipes := (sy_pipes s)[j := (batch, cmds)]\<rparr>)))
      else None)"

text \<open>Where the first thread of a node's pool is.\<close>

definition node_thread :: "nat \<Rightarrow> 'r system \<Rightarrow> closure thread_state option" where
  "node_thread k s =
     (if k < length (sy_nodes s) \<and> 0 < length (tp_workers (wn_pool (sy_nodes s ! k)))
      then Some (th_state (tp_workers (wn_pool (sy_nodes s ! k)) ! 0)) else None)"

definition dispatch_move :: "'r loop_cfg \<Rightarrow> nat \<Rightarrow> bool \<Rightarrow> 'r system \<Rightarrow> 'r system option" where
  "dispatch_move C k lost s =
     (case sl_pool (sy_loop s) of
        [] \<Rightarrow> None
      | (t, w) # ys \<Rightarrow>
          (case TaskToProto (lc_json C) t of
             Inl _ \<Rightarrow> None
           | Inr q \<Rightarrow>
               if k < length (sy_nodes s) \<and> wn_serving (sy_nodes s ! k) \<and> wn_advertise_addr (sy_nodes s ! k) = wi_address w
               then (case RunTask (lc_json C) [] None (Some q) (sy_nodes s ! k) of
                       (answer, V) \<Rightarrow>
                         Some (on_loop
                           (\<lambda>l. DoDispatch C (tx_ok 0) True
                              (\<lambda>_ _. if lost then RpcError ''Deadline Exceeded'' else RpcReply (map_option er_msg (rt_error answer)))
                              t w (l\<lparr>sl_pool := ys\<rparr>))
                           (s\<lparr>sy_nodes := (sy_nodes s)[k := V]\<rparr>)))
               else None))"

definition report_move :: "'r loop_cfg \<Rightarrow> 'r script_ops \<Rightarrow> string \<Rightarrow> nat \<Rightarrow> nat \<Rightarrow> 'r system \<Rightarrow> 'r system option" where
  "report_move C SC script k j s =
     (if k < length (sy_nodes s) \<and> j < length (wn_sent (sy_nodes s ! k))
      then (let q = sc_request (wn_sent (sy_nodes s ! k) ! j);
                v = snd (UpdateTaskStatus (lc_types C) (lc_json C) (lc_redis C) SC script (tx_ok 0) (tx_ok 0) q (service_of s))
            in Some ((with_service s v)
                 \<lparr>sy_done := (if success_report q then sy_done s @ [us_task_id q] else sy_done s),
                  sy_early := (if success_report q then early_report (pending (sy_pipes s)) (us_job_id q) (sy_early s)
                    else sy_early s)\<rparr>))
      else None)"

fun make_move :: "'r loop_cfg \<Rightarrow> 'r script_ops \<Rightarrow> string \<Rightarrow> move \<Rightarrow> 'r system \<Rightarrow> 'r system option" where
  "make_move C SC script (MPipe j) s = pipe_move C j s"
| "make_move C SC script (MTop now) s =
     (case sl_pc (sy_loop s) of AtTop \<Rightarrow> Some (on_loop (RunLoop_top C now) s) | _ \<Rightarrow> None)"
| "make_move C SC script (MFetch now) s =
     (case sl_pc (sy_loop s) of Fetching \<Rightarrow> Some (on_loop (RunLoop_fetch C now) s) | _ \<Rightarrow> None)"
| "make_move C SC script MEntry s =
     (case sl_pc (sy_loop s) of Dispatching es ws i \<Rightarrow> Some (on_loop (RunLoop_entry C es ws i) s) | _ \<Rightarrow> None)"
| "make_move C SC script (MRescue now) s =
     (case sl_pc (sy_loop s) of Rescuing es \<Rightarrow> Some (on_loop (DoRescue_entry C now es) s) | _ \<Rightarrow> None)"
| "make_move C SC script (MDispatch k lost) s = dispatch_move C k lost s"
| "make_move C SC script (MBoot i a reg) s = Some (s\<lparr>sy_nodes := sy_nodes s @ [WorkerNode 1 i a reg]\<rparr>)"
| "make_move C SC script (MStart k) s =
     (if k < length (sy_nodes s) \<and> \<not> wn_running (sy_nodes s ! k) \<and> wn_client (sy_nodes s ! k)
      then node_move k (\<lambda>W. W\<lparr>wn_running := True, wn_serving := True\<rparr>) s else None)"
| "make_move C SC script (MCheck k) s =
     (case node_thread k s of Some Checking \<Rightarrow> node_move k (on_pool (worker_check 0)) s | _ \<Rightarrow> None)"
| "make_move C SC script (MExec k) s =
     (case node_thread k s of Some (Taken x) \<Rightarrow> node_move k (execute_closure (lc_json C) 0 x) s | _ \<Rightarrow> None)"
| "make_move C SC script (MFinish k) s =
     (case node_thread k s of Some Ran \<Rightarrow> node_move k (on_pool (worker_finish 0)) s | _ \<Rightarrow> None)"
| "make_move C SC script (MRegister k) s =
     (if k < length (sy_nodes s)
      then Some (with_service s (snd (RegisterWorker Delivered 0 (wn_worker_id (sy_nodes s ! k))
             (wn_advertise_addr (sy_nodes s ! k)) (service_of s))))
      else None)"
| "make_move C SC script (MReport k j) s = report_move C SC script k j s"

fun run_moves :: "'r loop_cfg \<Rightarrow> 'r script_ops \<Rightarrow> string \<Rightarrow> move list \<Rightarrow> 'r system \<Rightarrow> 'r system option" where
  "run_moves C SC script [] s = Some s"
| "run_moves C SC script (m # ms) s =
     (case make_move C SC script m s of None \<Rightarrow> None | Some s' \<Rightarrow> run_moves C SC script ms s')"

lemma dispatch_move_sound:
  assumes "dispatch_move C k lost s = Some s'"
  shows "system_step C SC script s s'"
proof -
  obtain t w ys q answer V where d: "sl_pool (sy_loop s) = [] @ (t, w) # ys" "TaskToProto (lc_json C) t = Inr q"
    "k < length (sy_nodes s)" "wn_serving (sy_nodes s ! k)" "wn_advertise_addr (sy_nodes s ! k) = wi_address w"
    "RunTask (lc_json C) [] None (Some q) (sy_nodes s ! k) = (answer, V)"
    "s' = on_loop
       (\<lambda>l. DoDispatch C (tx_ok 0) True
          (\<lambda>_ _. if lost then RpcError ''Deadline Exceeded'' else RpcReply (map_option er_msg (rt_error answer)))
          t w (l\<lparr>sl_pool := [] @ ys\<rparr>))
       (s\<lparr>sy_nodes := (sy_nodes s)[k := V]\<rparr>)"
    using assms by (auto simp: dispatch_move_def split: list.splits prod.splits sum.splits if_splits)
  show ?thesis unfolding d(7) by (rule system_step.dispatch [where e = "''Deadline Exceeded''", OF d(1-6)]) simp
qed

lemma pipe_move_sound:
  assumes "pipe_move C j s = Some s'"
  shows "system_step C SC script s s'"
proof -
  obtain batch cmd cmds where j: "j < length (sy_pipes s)" "sy_pipes s ! j = (batch, cmd # cmds)"
    and s': "s' = on_loop (\<lambda>l. l\<lparr>sl_redis := exec_cmd (lc_redis C) cmd (sl_redis l)\<rparr>)
      (s\<lparr>sy_pipes := (sy_pipes s)[j := (batch, cmds)]\<rparr>)"
    using assms by (auto simp: pipe_move_def split: if_splits prod.splits list.splits)
  have "sy_pipes s = take j (sy_pipes s) @ (batch, cmd # cmds) # drop (Suc j) (sy_pipes s)"
    using id_take_nth_drop [OF j(1)] j(2) by simp
  from system_step.pipe [OF this] show ?thesis unfolding s' upd_conv_take_nth_drop [OF j(1)] .
qed

lemma node_move_sound:
  assumes "node_move k f s = Some s'" "k < length (sy_nodes s)" "worker_step (lc_json C) (sy_nodes s ! k) (f (sy_nodes s ! k))"
    and "wn_received (f (sy_nodes s ! k)) = wn_received (sy_nodes s ! k)"
  shows "system_step C SC script s s'"
  using assms by (auto simp: node_move_def intro: system_step.node)

lemma node_threadD:
  "node_thread k s = Some st \<Longrightarrow> k < length (sy_nodes s) \<and> thread_in (\<lambda>x. x = st) 0 (wn_pool (sy_nodes s ! k))"
  by (auto simp: node_thread_def thread_in_def split: if_splits)

lemma report_move_sound:
  assumes "report_move C SC script k j s = Some s'"
  shows "system_step C SC script s s'"
proof -
  let ?c = "wn_sent (sy_nodes s ! k) ! j"
  obtain x v where u: "UpdateTaskStatus (lc_types C) (lc_json C) (lc_redis C) SC script (tx_ok 0) (tx_ok 0) (sc_request ?c) (service_of s) = (x, v)"
    by fastforce
  have m: "sy_nodes s ! k \<in> set (sy_nodes s)" "?c \<in> set (wn_sent (sy_nodes s ! k))"
    and s': "s' = (with_service s v)
      \<lparr>sy_done := (if success_report (sc_request ?c) then sy_done s @ [us_task_id (sc_request ?c)] else sy_done s),
       sy_early := (if success_report (sc_request ?c)
         then early_report (pending (sy_pipes s)) (us_job_id (sc_request ?c)) (sy_early s) else sy_early s)\<rparr>"
    using assms u by (auto simp: report_move_def Let_def split: if_splits)
  show ?thesis unfolding s' by (rule system_step.report [OF m u])
qed

lemma register_sound:
  "V \<in> set (sy_nodes s) \<Longrightarrow>
   system_step C SC script s (with_service s (snd (RegisterWorker N now (wn_worker_id V) (wn_advertise_addr V) (service_of s))))"
  by (rule system_step.register [OF _ surjective_pairing])

lemma make_move_sound: "make_move C SC script m s = Some s' \<Longrightarrow> system_step C SC script s s'"
proof (cases m)
  case (MStart k)
  moreover assume "make_move C SC script m s = Some s'"
  ultimately show ?thesis by (auto split: if_splits intro!: node_move_sound worker_step.start)
next
  case (MCheck k)
  moreover assume "make_move C SC script m s = Some s'"
  ultimately show ?thesis
    by (auto split: option.splits thread_state.splits dest!: node_threadD intro!: node_move_sound worker_step.check simp: on_pool_def)
next
  case (MExec k)
  moreover assume "make_move C SC script m s = Some s'"
  ultimately show ?thesis
    by (auto split: option.splits thread_state.splits dest!: node_threadD intro!: node_move_sound worker_step.exec)
      (simp add: execute_closure_def send_report_def Let_def)
next
  case (MFinish k)
  moreover assume "make_move C SC script m s = Some s'"
  ultimately show ?thesis
    by (auto split: option.splits thread_state.splits dest!: node_threadD intro!: node_move_sound worker_step.finish simp: on_pool_def)
qed (auto split: loop_pc.splits if_splits intro: system_step.intros pipe_move_sound dispatch_move_sound report_move_sound register_sound)

lemma make_move_items: "make_move C SC script m s = Some s' \<Longrightarrow> sy_items s' = sy_items s"
  by (cases m) (auto simp: node_move_def pipe_move_def dispatch_move_def report_move_def on_loop_def with_service_def Let_def
      split: loop_pc.splits option.splits thread_state.splits list.splits prod.splits sum.splits if_splits)

lemma run_moves_sound: "run_moves C SC script ms s = Some s' \<Longrightarrow> (system_step C SC script)\<^sup>*\<^sup>* s s'"
  by (induction ms arbitrary: s) (auto split: option.splits intro: converse_rtranclp_into_rtranclp make_move_sound)

lemma run_moves_items: "run_moves C SC script ms s = Some s' \<Longrightarrow> sy_items s' = sy_items s"
  by (induction ms arbitrary: s) (auto split: option.splits dest: make_move_items)

section \<open>A codec\<close>

text \<open>A codec: each field with a mark before each character and a full stop at its end.\<close>

fun enc_str :: "string \<Rightarrow> string" where
  "enc_str [] = ''.''"
| "enc_str (c # cs) = CHR ''x'' # c # enc_str cs"

fun dec_str :: "string \<Rightarrow> string \<times> string" where
  "dec_str (a # b # s) = (if a = CHR ''x'' then (let (u, r) = dec_str s in (b # u, r)) else ([], b # s))"
| "dec_str s = ([], [])"

definition enc_word :: "32 word \<Rightarrow> string" where "enc_word w = enc_str (int_str (uint w))"
definition dec_word :: "string \<Rightarrow> 32 word" where "dec_word s = word_of_int (the (read_int s))"

definition demo_codec :: pb_codec where
  "demo_codec =
     \<lparr>pb_serialize = \<lambda>q. enc_str (p_task_id q) @ enc_str (p_job_id q) @ enc_str (p_natural_id q) @
        enc_str (p_func_name q) @ enc_str (p_func_params q) @ enc_word (p_priority q) @
        enc_word (p_max_retry q) @ enc_word (p_timeout_ms q),
      pb_parse = \<lambda>s.
        (let (a, s) = dec_str s; (b, s) = dec_str s; (c, s) = dec_str s; (d, s) = dec_str s; (e, s) = dec_str s;
             (f, s) = dec_str s; (g, s) = dec_str s; (h, s) = dec_str s
         in Some (default_PbTask\<lparr>p_task_id := a, p_job_id := b, p_natural_id := c, p_func_name := d,
              p_func_params := e, p_priority := dec_word f, p_max_retry := dec_word g, p_timeout_ms := dec_word h\<rparr>))\<rparr>"

lemma dec_enc [simp]: "dec_str (enc_str u @ r) = (u, r)"
proof (induction u)
  case Nil
  show ?case by (cases r) simp_all
qed simp

lemma dec_enc_end [simp]: "dec_str (enc_str u) = (u, [])"
  using dec_enc [of u "[]"] by simp

lemma enc_str_not_Nil [simp]: "enc_str u \<noteq> []"
  by (cases u) simp_all

lemma dec_word_enc [simp]: "dec_word (int_str (uint w)) = w"
  by (simp add: dec_word_def)

lemma demo_codec_ok: "codec_ok demo_codec"
  by (simp add: codec_ok_def demo_codec_def enc_word_def Let_def internal_task_def)

section \<open>Two runs\<close>

text \<open>One scheduler and one worker node with the functions of \<open>worker/main.cpp\<close>.\<close>

definition demo_cfg :: "stream_server loop_cfg" where
  "demo_cfg =
     \<lparr>lc_types = sample_types, lc_json = sample_json_lib, lc_codec = demo_codec, lc_redis = server_ops,
      lc_group = server_group, lc_sort = sort_key load, lc_consumer_name = ''c''\<rparr>"

definition demo_init :: "stream_server system" where
  "demo_init = system_init up_manager (new_WorkerManager 30) empty_db (ms_empty, False, [], []) 0"

definition demo_cmds :: "redis_cmd list" where
  "demo_cmds = projr (append_items demo_codec [sample_item])"

definition demo_sent :: "stream_server system" where
  "demo_sent =
     demo_init\<lparr>sy_items := sy_items demo_init @ [sample_item], sy_pipes := sy_pipes demo_init @ [([sample_item], demo_cmds)]\<rparr>"

text \<open>The pipeline arrives; the node comes up; a round of the loop; a task on the node; a round that rescues.\<close>

definition layout_moves :: "move list" where
  "layout_moves = replicate (length demo_cmds) (MPipe 0)"

definition node_up :: "move list" where
  "node_up = [MBoot ''w1'' ''h:1'' (main_registry sample_json_lib (\<lambda>_ _. [])), MStart 0, MRegister 0]"

definition fetch_round :: "move list" where
  "fetch_round = [MTop 0, MFetch 0, MEntry, MEntry]"

definition work_round :: "move list" where
  "work_round = [MCheck 0, MExec 0, MFinish 0]"

definition rescue_round :: "move list" where
  "rescue_round = [MTop 11000000000, MRescue 11000000000, MRescue 11000000000]"

abbreviation demo_run :: "move list \<Rightarrow> stream_server system option" where
  "demo_run ms \<equiv> run_moves demo_cfg server_scripts host_script ms demo_sent"

lemma demo_layout: "append_items demo_codec [sample_item] = Inr demo_cmds"
  by code_simp

definition good_moves :: "move list" where
  "good_moves = layout_moves @ node_up @ fetch_round @ [MDispatch 0 False] @ work_round @ [MReport 0 0] @ fetch_round @ [MDispatch 0 False]"

lemma good_run:
  "case demo_run good_moves of None \<Rightarrow> False
   | Some s \<Rightarrow> map t_task_id (wn_received (sy_nodes s ! 0)) = [sample_gen 1, sample_gen 2] \<and> sy_done s = [sample_gen 1] \<and>
      sy_early s = [] \<and> sy_expired s = [] \<and> length (sy_nodes s) = 1"
  by code_simp

definition lossy_moves :: "move list" where
  "lossy_moves = layout_moves @ node_up @ fetch_round @ [MDispatch 0 True] @ rescue_round @ [MDispatch 0 False] @ work_round @ work_round"

lemma lossy_run:
  "case demo_run lossy_moves of None \<Rightarrow> False
   | Some s \<Rightarrow> map t_task_id (wn_received (sy_nodes s ! 0)) = [sample_gen 1, sample_gen 1] \<and>
      map (\<lambda>x. t_task_id (fst (fst x))) (tp_ran (wn_pool (sy_nodes s ! 0))) = [sample_gen 1, sample_gen 1] \<and>
      length (sy_nodes s) = 1"
  by code_simp

text \<open>
  The race: the first task's entry has arrived and the second task's count has not when the first task
  is dispatched, run and reported; then the rest of the pipeline arrives.
\<close>

definition race_moves :: "move list" where
  "race_moves = [MPipe 0, MPipe 0, MPipe 0, MPipe 0] @ node_up @ fetch_round @ [MDispatch 0 False] @ work_round @
     [MReport 0 0] @ [MPipe 0, MPipe 0, MPipe 0]"

lemma race_run:
  "case demo_run race_moves of None \<Rightarrow> False
   | Some s \<Rightarrow> sy_done s = [sample_gen 1] \<and> sy_expired s = [] \<and> map snd (sy_pipes s) = [[]] \<and>
      map entry_task (stream_at (host_view (sl_redis (sy_loop s))) kTasks) = [Some (sample_gen 1)]"
  by code_simp

lemma demo_reaches:
  assumes "demo_run ms = Some s"
  shows "runs_to demo_cfg server_scripts host_script host_view server_up s" "sy_items s = [sample_item]"
proof -
  have item: "item_ok sample_types sample_item" using sample_flow_ok sample_item_facts(1) unfolding flow_ok_def by blast
  have "system_step demo_cfg server_scripts host_script demo_init demo_sent"
    unfolding demo_sent_def
  proof (rule system_step.submit)
    show "append_items (lc_codec demo_cfg) [sample_item] = Inr demo_cmds" using demo_layout by (simp only: demo_cfg_def loop_cfg.simps)
    show "batch_apart (sy_items demo_init @ [sample_item])"
      by (simp add: demo_init_def system_init_def batch_apart_def sample_item_facts)
    show "\<forall>a \<in> set [sample_item]. item_ok (lc_types demo_cfg) a" using item by (simp add: demo_cfg_def)
  qed
  then have "(system_step demo_cfg server_scripts host_script)\<^sup>*\<^sup>* demo_init s"
    using run_moves_sound [OF assms] by (rule converse_rtranclp_into_rtranclp)
  moreover have "host_view ((ms_empty, False, [], []) :: stream_server) k = None" for k
    by (simp add: host_view_def ms_view_def ms_empty_def)
  moreover have "server_up (ms_empty, False, [], [])"
    by (simp add: server_up_def host_up_def server_open_def)
  ultimately show "runs_to demo_cfg server_scripts host_script host_view server_up s"
    unfolding runs_to_def demo_init_def
    by (intro exI [of _ up_manager] exI [of _ "new_WorkerManager 30"] exI [of _ empty_db] exI [of _ "(ms_empty, False, [], [])"] exI [of _ 0])
      (simp add: up_manager_def)
  show "sy_items s = [sample_item]"
    using run_moves_items [OF assms] by (simp add: demo_sent_def demo_init_def system_init_def)
qed

lemma demo_cfg_fits:
  "lc_redis demo_cfg = server_ops" "lc_group demo_cfg = server_group" "codec_ok (lc_codec demo_cfg)"
  "\<not> pg_uuid_ok (lc_types demo_cfg) []" "host_script \<noteq> []"
  using demo_codec_ok by (simp_all add: demo_cfg_def host_script_def)

end
