(* ===== verification/End_To_End.thy ===== *)
theory End_To_End
  imports System_Run
begin

text \<open>The theorems on the whole system of \<open>System_Steps\<close>, with runs that show their hypotheses can hold.\<close>

text \<open>
  C1. Nothing runs before its parents have succeeded. However requests are laid out, entries read,
  rescued and dispatched, calls delivered late or again, nodes started, stopped and destroyed, reports
  delivered, repeated and lost, failures retried: every task a worker has received is a task of a submitted request,
  with the job, function and parameters the client gave, and each of its parents was run by
  some worker whose function returned.
\<close>

theorem nothing_runs_before_its_parents:
  assumes "task_stream R view up SC sha hosted script G opn" "lc_redis C = R" "lc_group C = G"
    and "script \<noteq> []" "codec_ok (lc_codec C)" "\<not> pg_uuid_ok (lc_types C) []"
    and "runs_to C SC script view up s" "V \<in> set (sy_nodes s)" "t \<in> set (wn_received V)"
  shows "\<exists>item \<in> set (sy_items s). \<exists>q \<in> set (pr_tasks (bi_req item)).
     t_task_id t = uuid_of item (p_natural_id q) \<and> t_job_id t = cx_job_id (bi_ctx item) \<and>
     t_func_name t = p_func_name q \<and>
     (\<exists>d. jl_dump (lc_json C) (parse_params (lc_json C) (p_func_params q)) = Inr d \<and>
        t_func_params t = parse_params (lc_json C) d) \<and>
     (\<forall>p. (p, t_task_id t) \<in> set (item_edges item) \<longrightarrow> (\<exists>V' \<in> set (sy_nodes s). succeeded (lc_json C) V' p))"
proof -
  have ok: "system_ok C view up sha script s" using runs_to_ok [OF assms(1-7)] by (simp add: all_ok_def)
  then have "sent_out (lc_json C) (sy_items s) (due_in view s) t"
    using assms(8,9) by (auto simp: system_ok_def nodes_ok_def)
  from sent_out_task [OF this] obtain item q where t: "item \<in> set (sy_items s)" "q \<in> set (pr_tasks (bi_req item))"
    "t_task_id t = uuid_of item (p_natural_id q)" "t_job_id t = cx_job_id (bi_ctx item)" "t_func_name t = p_func_name q"
    "\<exists>d. jl_dump (lc_json C) (parse_params (lc_json C) (p_func_params q)) = Inr d \<and> t_func_params t = parse_params (lc_json C) d"
    "released (sy_items s) (sy_done s) (t_task_id t)"
    unfolding due_def by blast
  have j: "batch_apart (sy_items s)"
    using ok by (auto simp: system_ok_def keys_in_def keys_inv_def keys_ok_def requests_ok_def)
  obtain item2 where i2: "item2 \<in> set (sy_items s)" "t_task_id t \<in> set (item_ids item2)"
    "\<forall>p. (p, t_task_id t) \<in> set (item_edges item2) \<longrightarrow> p \<in> set (sy_done s)"
    using t(7) by (auto simp: released_def)
  have "t_task_id t \<in> set (item_ids item)" using t(2,3) by (auto simp: item_ids_def natural_ids_def)
  then have "item2 = item" using batch_apart_mem [OF j i2(1) t(1)] i2(2) by (auto simp: apart_def)
  moreover have "\<forall>i \<in> set (sy_done s). \<exists>V' \<in> set (sy_nodes s). succeeded (lc_json C) V' i"
    using ok by (simp add: system_ok_def nodes_ok_def)
  ultimately show ?thesis using t(1-6) i2(3) by (intro bexI [of _ item] bexI [of _ q]) auto
qed

theorem nothing_runs_before_its_parents_witness:
  "\<exists>s V t. runs_to demo_cfg server_scripts host_script host_view server_up s \<and> V \<in> set (sy_nodes s) \<and>
     t \<in> set (wn_received V) \<and> t_task_id t = sample_gen 2 \<and>
     (\<exists>V' \<in> set (sy_nodes s). succeeded sample_json_lib V' (sample_gen 1))"
proof -
  obtain s where s: "demo_run good_moves = Some s" "map t_task_id (wn_received (sy_nodes s ! 0)) = [sample_gen 1, sample_gen 2]"
    "length (sy_nodes s) = 1"
    using good_run by (auto split: option.splits)
  let ?V = "sy_nodes s ! 0"
  have V: "?V \<in> set (sy_nodes s)" using s(3) by (intro nth_mem) simp
  have "sample_gen 2 \<in> t_task_id ` set (wn_received ?V)" using arg_cong [OF s(2), of set] by simp
  then obtain t where t: "t \<in> set (wn_received ?V)" "t_task_id t = sample_gen 2" by force
  note r = demo_reaches [OF s(1)]
  from nothing_runs_before_its_parents [OF server.task_stream_axioms demo_cfg_fits(1,2,5,3,4) r(1) V t(1)]
  have "\<exists>V' \<in> set (sy_nodes s). succeeded sample_json_lib V' (sample_gen 1)"
    by (auto simp: r(2) t(2) sample_item_facts demo_cfg_def)
  with r(1) V t show ?thesis by blast
qed

text \<open>A place that is still to come, of a task whose parents are done, is an entry, unless a success came too early.\<close>

lemma place_to_come:
  assumes ok: "keys_in C view s" and a: "a \<in> set (sy_items s)" "i \<in> set (item_ids a)" "cx_job_id (bi_ctx a) \<notin> set (sy_early s)"
    and parents: "\<forall>p. (p, i) \<in> set (item_edges a) \<longrightarrow> p \<in> set (sy_done s)"
    and y: "y \<in> pending (sy_pipes s)" "places y i"
  shows "\<exists>fs. y = CXAdd kTasks ''*'' fs \<and> entry_task ([], fs) = Some i"
proof -
  have r: "requests_ok (lc_types C) (lc_codec C) (sy_items s) (sy_pipes s)"
    and ex: "exact_ok (sy_items s) (pending (sy_pipes s)) (set (sy_done s)) (set (sy_expired s)) (set (sy_early s))
      (view (sl_redis (sy_loop s)))"
    using ok by (simp_all add: keys_in_def keys_inv_def keys_ok_def)
  obtain b where b: "b \<in> set (sy_items s)" "cmd_of (lc_codec C) b y"
    using pending_cmd [of "lc_codec C" "sy_items s" "sy_pipes s" y] r y(1) by (auto simp: requests_ok_def)
  then have "i \<in> set (item_ids b)" using cmd_of_ids(2) [OF b(2) _ y(2)] r by (auto simp: requests_ok_def)
  then have "b = a" using item_same [OF r b(1) a(1)] a(2) by (auto simp: apart_def)
  with b have c: "cmd_of (lc_codec C) a y" by simp
  show ?thesis
  proof (cases y)
    case (CHSet k f x)
    then have "counts_pending (pending (sy_pipes s)) (cx_job_id (bi_ctx a))" and "0 < parents_left a {} i"
      using c y by (auto simp: cmd_of_def places_def counts_pending_iff)
    moreover obtain p where p: "(p, i) \<in> set (item_edges a)" using parents_left_0 [of a "{}" i] calculation(2) by auto
    moreover have "p \<in> set (item_ids a)" using p item_edges_sub [of "lc_types C" a] r a(1) by (auto simp: requests_ok_def)
    moreover have "set (sy_done s) \<inter> set (item_ids a) = {}"
      using ex a(1,3) calculation(1) unfolding exact_ok_def by blast
    ultimately show ?thesis using parents by blast
  qed (use c y(2) in \<open>auto simp: cmd_of_def places_def\<close>)
qed



text \<open>
  C13. A layout that is overtaken loses a task. The pipeline of a request is no transaction: in a run in
  which no message is lost and no key expires, the entry of the first task arrives at Redis, the task is
  dispatched, run and reported, and only then the rest of the pipeline arrives. The completion script has
  counted down a count that was not there and has deleted the children set. Now the first task, the
  only parent of the second, is done and every command of the pipeline has arrived, and however the system
  goes on, no worker ever receives the second task.
\<close>

theorem overtaken_layout_loses_child:
  "\<exists>s. runs_to demo_cfg server_scripts host_script host_view server_up s \<and>
     sy_items s = [sample_item] \<and> set (item_edges sample_item) = {(sample_gen 1, sample_gen 2)} \<and>
     sy_done s = [sample_gen 1] \<and> map snd (sy_pipes s) = [[]] \<and> sy_expired s = [] \<and>
     (\<nexists>s' V t. (system_step demo_cfg server_scripts host_script)\<^sup>*\<^sup>* s s' \<and> V \<in> set (sy_nodes s') \<and>
        t \<in> set (wn_received V) \<and> t_task_id t = sample_gen 2)"
proof -
  obtain s where s: "demo_run race_moves = Some s" "sy_done s = [sample_gen 1]" "sy_expired s = []" "map snd (sy_pipes s) = [[]]"
    "map entry_task (stream_at (host_view (sl_redis (sy_loop s))) kTasks) = [Some (sample_gen 1)]"
    using race_run by (auto split: option.splits)
  note r = demo_reaches [OF s(1)]
  have ok: "all_ok demo_cfg host_view server_up server_open (\<lambda>s. s) host_script s"
    by (rule runs_to_ok [OF server.task_stream_axioms demo_cfg_fits(1,2,5,3,4) r(1)])
  let ?v = "host_view (sl_redis (sy_loop s))"
  have edges: "set (item_edges sample_item) = {(sample_gen 1, sample_gen 2)}" "set (item_ids sample_item) = {sample_gen 1, sample_gen 2}"
    by (auto simp: sample_item_facts)
  have keys: "job_ok demo_codec sample_item {sample_gen 1} (pending (sy_pipes s)) {} ?v" "others_absent [sample_item] ?v"
    using ok s(2,3) r(2) by (simp_all add: all_ok_def system_ok_def keys_in_def keys_inv_def keys_ok_def demo_cfg_def)
  have "sample_gen 2 \<notin> set_at ?v (Children p)" for p
  proof (cases "p \<in> set (item_ids sample_item)")
    case True
    with keys(1) edges show ?thesis by (auto simp: job_ok_def set_ok_def children_def)
  next
    case False
    with keys(2) show ?thesis by (auto simp: others_absent_def ids_of_def set_at_def)
  qed
  moreover have "sample_gen 2 \<notin> emitted ?v"
  proof -
    have "Some t \<in> set (map entry_task (stream_at ?v kTasks))" if "t \<in> emitted ?v" for t
      using that by (auto simp: emitted_def intro: rev_image_eqI)
    then have "t = sample_gen 1" if "t \<in> emitted ?v" for t using that unfolding s(5) by simp
    moreover have "sample_gen 2 \<noteq> sample_gen 1" by code_simp
    ultimately show ?thesis by blast
  qed
  moreover have "pending (sy_pipes s) = {}" using s(4) by (auto simp: pending_def map_eq_Cons_conv)
  ultimately have "orphan_in host_view (sample_gen 2) s"
    using edges(2) by (simp add: orphan_in_def orphan_def r(2) ids_of_def)
  from server.orphan_never_received [OF _ demo_cfg_fits(1,2,5,3,4) ok this]
  show ?thesis using r s(2-4) edges(1) by (intro exI [of _ s]) blast
qed


end
