(* ===== verification/Patrol.thy ===== *)
theory Patrol
  imports Worker_Manager Scheduler_Service
begin

text \<open>
  \<open>RunPatrolLoop\<close> of \<open>src/scheduler/src/main.cpp\<close>: every half minute the dead workers are pruned and
  the tasks they were running are put back. The other operations that write the table \<open>task\<close>
  (storing a batch, failures, reverts, the batcher's flush) are gathered in a step relation to say
  what the patrol finds.
\<close>

section \<open>The patrol\<close>

fun requeue_all :: "(string \<Rightarrow> tx_env) \<Rightarrow> string list \<Rightarrow> database \<Rightarrow> (string \<times> int) list \<times> database" where
  "requeue_all E [] db = ([], db)"
| "requeue_all E (worker_id # dead_workers) db =
     (let (recovered, db1) = RequeueOrphanedTasks (E worker_id) worker_id db;
          (rest, db2) = requeue_all E dead_workers db1
      in ((worker_id, recovered) # rest, db2))"

definition RunPatrolLoop_round ::
  "bool \<Rightarrow> int \<Rightarrow> (string \<Rightarrow> tx_env) \<Rightarrow> WorkerManager \<times> database \<Rightarrow>
   (string \<times> int) list \<times> WorkerManager \<times> database" where
  "RunPatrolLoop_round g_stop_patrol now E = (\<lambda>(m, db).
     if g_stop_patrol then ([], m, db)
     else (let (dead_workers, m') = PruneDeadWorkers now m;
               (log, db') = requeue_all E dead_workers db
           in (log, m', db')))"

section \<open>What the services write\<close>

text \<open>
  The writes of the program. The batcher's updates all come from \<open>report_success\<close>, which queues
  the request it was given for the state SUCCESS.
\<close>

inductive db_step ::
  "pg_types \<Rightarrow> pb_codec \<Rightarrow> json_lib \<Rightarrow> (TaskUpdateOp list \<Rightarrow> TaskUpdateOp) \<Rightarrow> database \<Rightarrow> database \<Rightarrow> bool"
  for T P L pick where
  batch: "ProcessBatch T P ref_ops E items (db, r) = (ok, db', r') \<Longrightarrow> db_step T P L pick db db'"
| failure: "db_step T P L pick db (snd (HandleTaskFailure T E i m n db))"
| revert: "db_step T P L pick db (snd (RevertTaskToPending T E i db))"
| requeue: "db_step T P L pick db (snd (RequeueOrphanedTasks E w db))"
| read: "db_step T P L pick db (snd (GetTaskById T L E i db))"
| flush: "\<forall>op \<in> set ops. op_state op = StateToProto SUCCESS \<Longrightarrow>
    db_step T P L pick db (FlushBatch T pick E ops db)"

definition no_running :: "database \<Rightarrow> bool" where
  "no_running db \<longleftrightarrow> (\<forall>r \<in> set (db_tasks db). tr_state r \<noteq> ST_RUNNING)"

lemma run_tx_keeps:
  assumes "I db" and "\<And>s. f (db, l) = (Inr (), s) \<Longrightarrow> I (fst s)"
  shows "I (fst (snd (run_tx E f (db, l))))"
  using assms by (auto simp: run_tx_def split: option.splits prod.splits sum.splits)

lemma no_running_upd:
  "no_running db \<Longrightarrow> (\<And>r. tr_state (f r) \<noteq> ST_RUNNING) \<Longrightarrow> no_running (upd_tasks p f db)"
  by (auto simp: no_running_def upd_tasks_def set_sql_update)

lemma not_running [simp]:
  "tr_state (retry_row e r) \<noteq> ST_RUNNING" "tr_state (fail_row now e r) \<noteq> ST_RUNNING"
  "tr_state (pending_row r) \<noteq> ST_RUNNING" "tr_state (task_row_of now ctx task uuid pending) \<noteq> ST_RUNNING"
  by (simp_all add: retry_row_def fail_row_def pending_row_def task_row_of_def st_defs)

lemma stream_items_not_running:
  "stream_items now batch = Inr (rows, b1) \<Longrightarrow> \<forall>r \<in> set rows. tr_state r \<noteq> ST_RUNNING"
proof (induction batch arbitrary: rows b1)
  case (Cons i batch)
  have ts: "stream_tasks now ctx deps ts = Inr (rs, es) \<Longrightarrow> \<forall>r \<in> set rs. tr_state r \<noteq> ST_RUNNING"
    for ctx deps ts rs es
    by (induction ts arbitrary: rs es) (auto simp: Let_def split: sum.splits prod.splits)
  from Cons.prems obtain r1 e1 r2 b2 where
    1: "stream_tasks now (bi_ctx i) (dep_count (pr_edges (bi_req i))) (pr_tasks (bi_req i)) = Inr (r1, e1)"
    and 2: "stream_items now batch = Inr (r2, b2)" and r: "rows = r1 @ r2"
    by (auto split: sum.splits prod.splits)
  show ?case using ts [OF 1] Cons.IH [OF 2] r by auto
qed simp

lemma inserts_not_running:
  "sfor (\<lambda>r. stmt (insert_task T r)) rows db = (Inr (), db') \<Longrightarrow> no_running db \<Longrightarrow>
   \<forall>r \<in> set rows. tr_state r \<noteq> ST_RUNNING \<Longrightarrow> no_running db'"
proof (induction rows arbitrary: db)
  case (Cons x rows)
  from Cons.prems(1) obtain db1 where db1: "stmt (insert_task T x) db = (Inr (), db1)"
    "sfor (\<lambda>r. stmt (insert_task T r)) rows db1 = (Inr (), db')"
    by (auto elim: sbind_eq_InrE)
  then have "db_tasks db1 = db_tasks db @ [x]"
    by (auto simp: stmt_def insert_task_def split: sum.splits if_splits)
  with Cons.prems(2,3) have "no_running db1" by (auto simp: no_running_def)
  with Cons.IH [OF db1(2)] Cons.prems(3) show ?case by simp
qed simp

lemma inserts_keep_tasks:
  "sfor (\<lambda>item. stmt (insert_job (job_row_of item))) items db = (Inr (), db1) \<Longrightarrow> db_tasks db1 = db_tasks db"
  "sfor (\<lambda>r. stmt (insert_edge r)) es db = (Inr (), db1) \<Longrightarrow> db_tasks db1 = db_tasks db"
proof -
  show "sfor (\<lambda>item. stmt (insert_job (job_row_of item))) items db = (Inr (), db1) \<Longrightarrow> db_tasks db1 = db_tasks db"
    by (rule sfor_inv [where I = "\<lambda>d. db_tasks d = db_tasks db"])
      (auto simp: stmt_def insert_job_def split: sum.splits if_splits)
  show "sfor (\<lambda>r. stmt (insert_edge r)) es db = (Inr (), db1) \<Longrightarrow> db_tasks db1 = db_tasks db"
    by (rule sfor_inv [where I = "\<lambda>d. db_tasks d = db_tasks db"])
      (auto simp: stmt_def insert_edge_def split: sum.splits if_splits)
qed

lemma flush_not_running:
  assumes "FlushDBBatch T now (db, items) = (Inr (), s)" "no_running db"
  shows "no_running (fst s)"
proof (cases "items = []")
  case True
  with assms show ?thesis by (auto simp: FlushDBBatch_def)
next
  case False
  from assms(1) False obtain db1 rows b1 db2 where
    1: "flush_jobs T items db = (Inr (), db1)" and 2: "stream_items now items = Inr (rows, b1)"
    and 3: "sfor (\<lambda>r. stmt (insert_task T r)) rows db1 = (Inr (), db2)"
    and 4: "fst s = db2 \<or> (\<exists>es. sfor (\<lambda>r. stmt (insert_edge r)) es db2 = (Inr (), fst s))"
    by (auto simp: FlushDBBatch_def split: prod.splits sum.splits if_splits) blast
  have "db_tasks db1 = db_tasks db" using 1 inserts_keep_tasks(1) [of items db db1]
    by (auto simp: flush_jobs_def split: if_splits)
  then have "no_running db1" using assms(2) by (simp add: no_running_def)
  from inserts_not_running [OF 3 this stream_items_not_running [OF 2]] have "no_running db2" .
  with 4 inserts_keep_tasks(2) show ?thesis by (auto simp: no_running_def)
qed

lemma ProcessBatch_not_running:
  "ProcessBatch T P R E items (db, r) = (ok, db', r') \<Longrightarrow> no_running db \<Longrightarrow> no_running db'"
proof -
  assume p: "ProcessBatch T P R E items (db, r) = (ok, db', r')" and n: "no_running db"
  show "no_running db'"
  proof (cases "items = []")
    case False
    have "no_running (fst (snd (run_tx (be_tx E) (FlushDBBatch T (te_now (be_tx E))) (db, items))))"
      by (rule run_tx_keeps [where I = no_running, OF n]) (rule flush_not_running [OF _ n])
    then show ?thesis using ProcessBatch_db [OF False, of T P R E db r] p by simp
  qed (use p n in \<open>simp add: ProcessBatch_def\<close>)
qed

lemma repository_not_running:
  assumes "no_running db"
  shows "no_running (snd (HandleTaskFailure T E i m n db))" "no_running (snd (RevertTaskToPending T E i db))"
    "no_running (snd (RequeueOrphanedTasks E w db))" "no_running (snd (GetTaskById T L E i db))"
proof -
  have "no_running (fst (snd (run_tx E (HandleTaskFailure_tx T (te_now E) i m) (db, False))))"
    by (rule run_tx_keeps [where I = no_running, OF assms])
      (auto simp: HandleTaskFailure_tx_def assms intro!: no_running_upd split: if_splits option.splits)
  then show "no_running (snd (HandleTaskFailure T E i m n db))"
    by (auto simp: HandleTaskFailure_def split: prod.splits sum.splits)
  have "no_running (fst (snd (run_tx E (RevertTaskToPending_tx T i) (db, ()))))"
    by (rule run_tx_keeps [where I = no_running, OF assms])
      (auto simp: RevertTaskToPending_tx_def assms intro!: no_running_upd split: if_splits)
  then show "no_running (snd (RevertTaskToPending T E i db))"
    by (auto simp: RevertTaskToPending_def split: prod.splits sum.splits)
  have "no_running (fst (snd (run_tx E (RequeueOrphanedTasks_tx w) (db, 0))))"
    by (rule run_tx_keeps [where I = no_running, OF assms])
      (auto simp: RequeueOrphanedTasks_tx_def assms intro!: no_running_upd)
  then show "no_running (snd (RequeueOrphanedTasks E w db))"
    by (auto simp: RequeueOrphanedTasks_def split: prod.splits)
  have "no_running (fst (snd (run_tx E (GetTaskById_tx T L i) (db, None))))"
    by (rule run_tx_keeps [where I = no_running, OF assms])
      (auto simp: GetTaskById_tx_def assms split: if_splits option.splits sum.splits)
  then show "no_running (snd (GetTaskById T L E i db))"
    by (auto simp: GetTaskById_def split: prod.splits sum.splits)
qed

lemma flush_batch_not_running:
  assumes "no_running db" "\<forall>op \<in> set ops. op_state op = StateToProto SUCCESS"
    and "\<And>xs. xs \<noteq> [] \<Longrightarrow> pick xs \<in> set xs"
  shows "no_running (FlushBatch T pick E ops db)"
proof -
  have one: "tr_state (apply_op now (pick (ops_for ops r)) r) \<noteq> ST_RUNNING" if "ops_for ops r \<noteq> []" for now r
    using assms(2) assms(3) [OF that]
    by (auto simp: apply_op_def ops_for_def StateToProto_def task_state_defs st_defs)
  have "no_running (fst (snd (run_tx E (FlushBatch_tx T pick (te_now E) ops) (db, ()))))"
    by (rule run_tx_keeps [where I = no_running, OF assms(1)])
      (use assms(1) one in \<open>auto simp: FlushBatch_tx_def no_running_def upd_tasks_def set_sql_update split: if_splits\<close>)
  then show ?thesis using assms(1) by (auto simp: FlushBatch_def split: prod.splits sum.splits)
qed

lemma db_step_not_running:
  "db_step T P L pick db db' \<Longrightarrow> (\<And>xs. xs \<noteq> [] \<Longrightarrow> pick xs \<in> set xs) \<Longrightarrow> no_running db \<Longrightarrow> no_running db'"
  by (induction rule: db_step.induct)
    (auto intro: ProcessBatch_not_running repository_not_running flush_batch_not_running)

lemma requeue_finds_nothing:
  "no_running db \<Longrightarrow> RequeueOrphanedTasks E w db = (0, db)"
proof -
  assume n: "no_running db"
  have "upd_tasks (orphaned w) pending_row db = db"
    using n by (simp add: upd_tasks_def no_running_def orphaned_def sql_update_id)
  moreover have "affected (orphaned w) (db_tasks db) = 0"
    using n by (auto simp: affected_def no_running_def orphaned_def filter_empty_conv)
  ultimately show ?thesis
    by (auto simp: RequeueOrphanedTasks_def run_tx_def RequeueOrphanedTasks_tx_def split: option.split prod.split)
qed

lemma requeue_all_nothing:
  "no_running db \<Longrightarrow> requeue_all E ws db = (map (\<lambda>w. (w, 0)) ws, db)"
  by (induction ws) (simp_all add: requeue_finds_nothing)

section \<open>Properties\<close>

text \<open>
  C24. The patrol recovers nothing. No operation the services run sets a task to RUNNING (the claim
  \<open>UpdateTaskToRunning\<close> is called nowhere), so in every database they can reach, a patrol round
  removes exactly the dead workers from the table and finds no task of theirs: it recovers 0 tasks
  for each and leaves the database as it is, although the entries of the tasks those workers had
  accepted are acknowledged and gone from the stream.
\<close>

theorem patrol_recovers_nothing:
  assumes "(db_step T P L pick)\<^sup>*\<^sup>* db0 db" and "no_running db0" and "\<And>xs. xs \<noteq> [] \<Longrightarrow> pick xs \<in> set xs"
    and "RunPatrolLoop_round False now E (m, db) = (log, m', db')"
  shows "db' = db \<and> (\<forall>(w, recovered) \<in> set log. recovered = 0) \<and>
    map fst log = map fst (filter (\<lambda>(i, w). timed_out m now w) (wm_workers m)) \<and>
    wm_workers m' = filter (\<lambda>(i, w). \<not> timed_out m now w) (wm_workers m)"
proof -
  have "no_running db"
    using assms(1) by (induction rule: rtranclp_induct) (use assms(2) db_step_not_running [OF _ assms(3)] in auto)
  with assms(4) show ?thesis
    by (auto simp: RunPatrolLoop_round_def PruneDeadWorkers_def prune_loop_filter requeue_all_nothing Let_def comp_def)
qed

theorem patrol_recovers_nothing_witness:
  "\<exists>m' db'. RunPatrolLoop_round False (100 * 1000000000) (\<lambda>_. tx_ok 0)
     (wm_run 60 [ORegister 0 ''w'' ''h''], snd (RevertTaskToPending sample_types (tx_ok 0) ''u'' empty_db)) =
     ([(''w'', 0)], m', db') \<and> wm_workers m' = []"
proof -
  let ?m = "wm_run 60 [ORegister 0 ''w'' ''h'']" and ?db = "snd (RevertTaskToPending sample_types (tx_ok 0) ''u'' empty_db)"
  obtain log m' db' where r: "RunPatrolLoop_round False (100 * 1000000000) (\<lambda>_. tx_ok 0) (?m, ?db) = (log, m', db')"
    by (meson prod_cases3)
  have s: "(db_step sample_types sample_codec sample_json_lib hd)\<^sup>*\<^sup>* empty_db ?db"
    by (rule r_into_rtranclp, rule db_step.revert)
  have n: "no_running empty_db" by (simp add: no_running_def empty_db_def)
  have m: "wm_workers ?m = [(''w'', new_WorkerInfo 0 ''w'' ''h'')]" "wm_worker_timeout ?m = 60"
    by (simp_all add: wm_run_def HandleRegister_def new_WorkerManager_def)
  have "timed_out ?m (100 * 1000000000) (new_WorkerInfo 0 ''w'' ''h'')"
    by (simp add: timed_out_def m(2) new_WorkerInfo_def)
  with patrol_recovers_nothing [OF s n _ r] m(1) have "log = [(''w'', 0)]" "wm_workers m' = []"
    by (auto simp: map_eq_Cons_conv)
  with r show ?thesis by blast
qed

end
