(* ===== verification/Startup.thy ===== *)
theory Startup
  imports Redis_Manager
begin

text \<open>
  What the processes do before they serve: \<open>RedisConfig\<close>
  (\<open>src/common/include/redis/RedisConfig.hpp\<close>), \<open>RedisManager::Initialize\<close> and \<open>InitWithRetry\<close>
  (\<open>src/common/include/utils/utils.hpp\<close>). The environment is a map, the construction of the Redis
  client and the ping are parameters.
\<close>

section \<open>Reading numbers\<close>

definition is_space :: "char \<Rightarrow> bool" where
  "is_space c \<longleftrightarrow> (of_char c :: nat) = 32 \<or> 9 \<le> (of_char c :: nat) \<and> (of_char c :: nat) \<le> 13"

text \<open>\<open>std::stoi\<close>: leading space, a sign, a prefix of digits; \<open>None\<close> for its two exceptions.\<close>

definition stoi :: "string \<Rightarrow> int option" where
  "stoi str =
     (let s = dropWhile is_space str;
          neg = (s \<noteq> [] \<and> hd s = CHR ''-'');
          signed = (s \<noteq> [] \<and> (hd s = CHR ''-'' \<or> hd s = CHR ''+''));
          r = read_digits (if signed then tl s else s) 0 0;
          v = (if neg then - int (fst r) else int (fst r))
      in if snd r = 0 then None
         else if - (2 ^ 31) \<le> v \<and> v < 2 ^ 31 then Some v else None)"

definition SafeStoi :: "string \<Rightarrow> int \<Rightarrow> int" where
  "SafeStoi str default_val = (case stoi str of Some v \<Rightarrow> v | None \<Rightarrow> default_val)"

section \<open>The configuration\<close>

record RedisConfig =
  cf_host :: string
  cf_port :: int
  cf_password :: string
  cf_pool_size :: int
  cf_socket_timeout_ms :: int
  cf_connect_timeout_ms :: int

definition default_RedisConfig :: RedisConfig where
  "default_RedisConfig =
     \<lparr>cf_host = ''127.0.0.1'', cf_port = 6379, cf_password = [], cf_pool_size = 5,
      cf_socket_timeout_ms = 5000, cf_connect_timeout_ms = 1000\<rparr>"

definition LoadFromEnv :: "(string \<Rightarrow> string option) \<Rightarrow> RedisConfig" where
  "LoadFromEnv env =
     (let c0 = default_RedisConfig;
          c1 = (case env ''REDIS_HOST'' of Some p \<Rightarrow> c0\<lparr>cf_host := p\<rparr> | None \<Rightarrow> c0);
          c2 = (case env ''REDIS_PORT'' of Some p \<Rightarrow> c1\<lparr>cf_port := SafeStoi p 6379\<rparr> | None \<Rightarrow> c1);
          c3 = (case env ''REDIS_PASSWORD'' of Some p \<Rightarrow> c2\<lparr>cf_password := p\<rparr> | None \<Rightarrow> c2)
      in (case env ''REDIS_POOL_SIZE'' of Some p \<Rightarrow> c3\<lparr>cf_pool_size := SafeStoi p 5\<rparr> | None \<Rightarrow> c3))"

section \<open>Initialising with retries\<close>

text \<open>
  The loop with \<open>k\<close> retries left. (\<open>LOG(FATAL)\<close> may end the process before the exception that
  follows it; either way the start has failed.)
\<close>

fun init_loop :: "(string \<Rightarrow> string) \<Rightarrow> ('s, string, unit) sem \<Rightarrow> nat \<Rightarrow> ('s, string, unit) sem" where
  "init_loop fail init_func 0 s =
     (case init_func s of (Inr u, s') \<Rightarrow> (Inr u, s') | (Inl e, s') \<Rightarrow> (Inl (fail e), s'))"
| "init_loop fail init_func (Suc k) s =
     (case init_func s of (Inr u, s') \<Rightarrow> (Inr u, s') | (Inl e, s') \<Rightarrow> init_loop fail init_func k s')"

definition InitWithRetry :: "string \<Rightarrow> ('s, string, unit) sem \<Rightarrow> nat \<Rightarrow> ('s, string, unit) sem" where
  "InitWithRetry name init_func max_retries =
     init_loop (\<lambda>e. ''['' @ name @ ''] init failed after '' @ int_str (int max_retries) @ '' retries: '' @ e)
       init_func max_retries"

section \<open>\<open>RedisManager::Initialize\<close>\<close>

text \<open>
  The state: \<open>_init_flag\<close>, the manager, and the world the client talks to. \<open>connect\<close> may throw
  before the client exists, \<open>ping\<close> after; \<open>call_once\<close> leaves the flag unset when the function throws.
\<close>

definition Initialize ::
  "(RedisConfig \<Rightarrow> ('w, string, unit) sem) \<Rightarrow> ('w, string, unit) sem \<Rightarrow> RedisConfig \<Rightarrow>
   (bool \<times> RedisManager \<times> 'w, string, unit) sem" where
  "Initialize connect ping config = (\<lambda>(init_flag, M, w).
     if init_flag then (Inr (), (init_flag, M, w))
     else (case connect config w of
             (Inl e, w1) \<Rightarrow> (Inl e, (False, M, w1))
           | (Inr _, w1) \<Rightarrow>
               (let M1 = M\<lparr>rm_client := True\<rparr>
                in case ping w1 of
                     (Inl e, w2) \<Rightarrow> (Inl e, (False, M1, w2))
                   | (Inr _, w2) \<Rightarrow> (Inr (), (True, M1, w2)))))"

section \<open>Lemmas\<close>

lemma not_space_digit: "digit_val c \<noteq> None \<Longrightarrow> \<not> is_space c \<and> c \<noteq> CHR ''-'' \<and> c \<noteq> CHR ''+''"
  by (auto simp: digit_val_def is_space_def split: if_splits)

lemma stoi_int_str:
  assumes "- (2 ^ 31) \<le> i" "i < 2 ^ 31"
  shows "stoi (int_str i) = Some i"
proof (cases "i < 0")
  case True
  have "\<not> is_space CHR ''-''" by (simp add: is_space_def)
  with True assms show ?thesis
    by (simp add: stoi_def int_str_def read_digits_nat_digits Let_def)
next
  case False
  obtain c cs where c: "nat_digits (nat i) = c # cs" by (cases "nat_digits (nat i)") simp_all
  have d: "digit_val c \<noteq> None" using nat_digits_digits [of "nat i"] c by simp
  note sp = not_space_digit [OF d]
  have r: "read_digits (c # cs) 0 0 = (nat i, Suc (length cs))"
    using read_digits_nat_digits [of "nat i" 0] c by simp
  have "int_str i = c # cs" "dropWhile is_space (c # cs) = c # cs"
    using False c sp by (simp_all add: int_str_def)
  then have "stoi (int_str i) = (if - (2 ^ 31) \<le> int (nat i) \<and> int (nat i) < 2 ^ 31 then Some (int (nat i)) else None)"
    using sp unfolding stoi_def Let_def by (simp only: list.sel r prod.sel simp_thms if_False) simp
  with False assms show ?thesis by simp
qed

lemma stoi_range: "stoi s = Some v \<Longrightarrow> - (2 ^ 31) \<le> v \<and> v < 2 ^ 31"
  by (auto simp: stoi_def Let_def split: if_splits)

lemma init_loop_first:
  assumes "\<And>n. init_func n = (out n, Suc n)"
  shows "case init_loop fail init_func k n of
      (Inr u, n') \<Rightarrow> (\<exists>i \<le> k. out (n + i) = Inr u \<and> (\<forall>j < i. \<exists>e. out (n + j) = Inl e) \<and> n' = n + i + 1)
    | (Inl m, n') \<Rightarrow> (\<forall>j \<le> k. \<exists>e. out (n + j) = Inl e) \<and> n' = n + k + 1 \<and> (\<exists>e. out (n + k) = Inl e \<and> m = fail e)"
proof (induction k arbitrary: n)
  case 0
  show ?case by (cases "out n") (simp_all add: assms)
next
  case (Suc k)
  show ?case
  proof (cases "out n")
    case (Inr u)
    then show ?thesis by (auto simp: assms intro: exI [of _ 0])
  next
    case (Inl e)
    then have step: "init_loop fail init_func (Suc k) n = init_loop fail init_func k (Suc n)" by (simp add: assms)
    note IH = Suc.IH [of "Suc n"]
    show ?thesis
    proof (cases "init_loop fail init_func k (Suc n)")
      case (Pair r n')
      show ?thesis
      proof (cases r)
        case (Inl m)
        with IH Pair have h: "\<forall>j \<le> k. \<exists>e. out (Suc n + j) = Inl e" "n' = Suc n + k + 1"
            "\<exists>e. out (Suc n + k) = Inl e \<and> m = fail e" by auto
        have "\<exists>e. out (n + j) = Inl e" if "j \<le> Suc k" for j
          using that h(1) \<open>out n = Inl e\<close> by (cases j) auto
        with h(2,3) Pair Inl show ?thesis unfolding step by simp
      next
        case (Inr u)
        with IH Pair obtain i where i: "i \<le> k" "out (Suc n + i) = Inr u" "\<forall>j < i. \<exists>e. out (Suc n + j) = Inl e" "n' = Suc n + i + 1"
          by auto
        have "\<exists>e. out (n + j) = Inl e" if "j < Suc i" for j
          using that i(3) \<open>out n = Inl e\<close> by (cases j) auto
        with i Pair Inr show ?thesis unfolding step by (auto intro!: exI [of _ "Suc i"])
      qed
    qed
  qed
qed

lemma init_loop_last:
  "init_loop fail init_func k s = (Inr u, s') \<Longrightarrow> \<exists>s1. init_func s1 = (Inr u, s')"
  by (induction k arbitrary: s) (auto split: prod.splits sum.splits)

lemma Initialize_ready:
  "Initialize connect ping config s1 = (Inr u, (fl, M, w)) \<Longrightarrow> (\<And>M w. s1 = (True, M, w) \<Longrightarrow> rm_client M) \<Longrightarrow>
   fl \<and> rm_client M"
  by (auto simp: Initialize_def Let_def split: prod.splits sum.splits if_splits)

definition init_ok :: "bool \<times> RedisManager \<times> 'w \<Rightarrow> bool" where
  "init_ok = (\<lambda>(fl, M, w). fl \<longrightarrow> rm_client M)"

lemma init_ok_Initialize: "init_ok s \<Longrightarrow> Initialize connect ping config s = (r, s') \<Longrightarrow> init_ok s'"
  by (auto simp: init_ok_def Initialize_def Let_def split: prod.splits sum.splits if_splits)

lemma init_loop_ready:
  "init_loop fail (Initialize connect ping config) k s = (Inr u, (fl, M, w)) \<Longrightarrow> init_ok s \<Longrightarrow> fl \<and> rm_client M"
proof (induction k arbitrary: s)
  case 0
  then show ?case using Initialize_ready [of connect ping config s u fl M w]
    by (auto simp: init_ok_def split: prod.splits sum.splits)
next
  case (Suc k)
  obtain r s1 where r: "Initialize connect ping config s = (r, s1)" by (meson surj_pair)
  have ok: "init_ok s1" by (rule init_ok_Initialize [OF Suc.prems(2) r])
  show ?case
  proof (cases r)
    case (Inl e)
    with Suc.IH [OF _ ok] Suc.prems(1) r show ?thesis by simp
  next
    case (Inr x)
    with Suc.prems r have "s1 = (fl, M, w)" by simp
    with Initialize_ready [of connect ping config s x fl M w] r Inr Suc.prems(2) show ?thesis
      by (auto simp: init_ok_def)
  qed
qed

section \<open>Properties\<close>

text \<open>
  The start makes at most \<open>max_retries + 1\<close> attempts and stops at the first that succeeds: it
  returns normally exactly when one of them succeeds, and otherwise throws with the text of the
  last failure.
\<close>

theorem init_attempts_bounded:
  assumes "\<And>n. init_func n = (out n, Suc n)" and "InitWithRetry name init_func max_retries 0 = (r, n)"
  shows "n \<le> max_retries + 1 \<and> (\<forall>j. Suc j < n \<longrightarrow> (\<exists>e. out j = Inl e)) \<and>
    (case r of
       Inr u \<Rightarrow> out (n - 1) = Inr u
     | Inl m \<Rightarrow> n = max_retries + 1 \<and> (\<exists>e. out max_retries = Inl e \<and>
         m = ''['' @ name @ ''] init failed after '' @ int_str (int max_retries) @ '' retries: '' @ e))"
proof -
  let ?fail = "\<lambda>e. ''['' @ name @ ''] init failed after '' @ int_str (int max_retries) @ '' retries: '' @ e"
  note first = init_loop_first [of init_func out max_retries 0 ?fail, OF assms(1)]
  from assms(2) have "init_loop ?fail init_func max_retries 0 = (r, n)" by (simp add: InitWithRetry_def)
  with first show ?thesis by (cases r) auto
qed

text \<open>
  Once the start has returned, Redis is usable. When \<open>InitWithRetry\<close> returns normally, the
  manager has a client, whatever failed before, and later calls of \<open>Initialize\<close> with any
  configuration do nothing.
\<close>

theorem redis_ready_after_start:
  assumes "InitWithRetry ''Redis'' (Initialize connect ping config) max_retries (False, M0, w0) = (Inr u, (fl, M, w))"
  shows "fl \<and> rm_client M \<and> Initialize connect ping config2 (fl, M, w) = (Inr (), (fl, M, w))"
  using init_loop_ready [OF assms [unfolded InitWithRetry_def]] by (simp add: init_ok_def Initialize_def)

text \<open>
  Numbers from the environment. A port or pool size that prints an \<open>int\<close> is read back exactly,
  a text that has no number or one out of range gives the default, and the value always fits an
  \<open>int\<close> (it need not be a port).
\<close>

theorem config_numbers_read_back:
  assumes "env ''REDIS_PORT'' = Some p"
  shows "(\<forall>i. - (2 ^ 31) \<le> i \<and> i < 2 ^ 31 \<and> p = int_str i \<longrightarrow> cf_port (LoadFromEnv env) = i) \<and>
    (stoi p = None \<longrightarrow> cf_port (LoadFromEnv env) = 6379) \<and>
    - (2 ^ 31) \<le> cf_port (LoadFromEnv env) \<and> cf_port (LoadFromEnv env) < 2 ^ 31"
proof -
  have "cf_port (LoadFromEnv env) = SafeStoi p 6379"
    using assms by (simp add: LoadFromEnv_def Let_def split: option.split)
  moreover have "- (2 ^ 31) \<le> SafeStoi p 6379 \<and> SafeStoi p 6379 < 2 ^ 31"
    using stoi_range [of p] by (auto simp: SafeStoi_def split: option.split)
  ultimately show ?thesis using stoi_int_str by (simp add: SafeStoi_def)
qed

theorem init_attempts_bounded_witness:
  "InitWithRetry ''Redis'' (\<lambda>n. (if n < 2 then Inl ''refused'' else Inr (), Suc n)) 30 0 = (Inr (), 3)"
proof -
  let ?init = "\<lambda>n :: nat. (if n < 2 then Inl ''refused'' else Inr (), Suc n)"
  obtain r n where r: "InitWithRetry ''Redis'' ?init 30 0 = (r, n)" by (meson surj_pair)
  note b = init_attempts_bounded [where out = "\<lambda>n. if n < 2 then Inl ''refused'' else Inr ()", OF refl r]
  have "n \<noteq> 31" using b by (auto dest!: spec [of _ 5])
  with b obtain u where "r = Inr u" "\<not> n - 1 < 2" by (cases r) (auto split: if_splits)
  moreover have "\<not> 3 < n" using b by (auto dest!: spec [of _ 2])
  ultimately show ?thesis using r by (simp add: numeral_eq_Suc)
qed

theorem redis_ready_after_start_witness:
  "\<exists>M w. InitWithRetry ''Redis'' (Initialize (\<lambda>c w. (Inr (), w)) (\<lambda>w. (Inr (), w)) (LoadFromEnv Map.empty)) 30
     (False, \<lparr>rm_client = False, rm_script_cache = (\<lambda>_. None)\<rparr>, ()) = (Inr (), (True, M, w)) \<and> rm_client M"
proof -
  have s: "InitWithRetry ''Redis'' (Initialize (\<lambda>c w. (Inr (), w)) (\<lambda>w. (Inr (), w)) (LoadFromEnv Map.empty)) 30
     (False, \<lparr>rm_client = False, rm_script_cache = (\<lambda>_. None)\<rparr>, ()) =
     (Inr (), (True, \<lparr>rm_client = True, rm_script_cache = (\<lambda>_. None)\<rparr>, ()))"
    by (simp add: InitWithRetry_def Initialize_def numeral_eq_Suc)
  from redis_ready_after_start [OF s] s show ?thesis by blast
qed

theorem config_numbers_read_back_witness:
  "cf_port (LoadFromEnv (Map.empty(''REDIS_PORT'' \<mapsto> int_str 7000))) = 7000"
  using config_numbers_read_back [of "Map.empty(''REDIS_PORT'' \<mapsto> int_str 7000)" "int_str 7000"] by simp

end
