(* ===== verification/Scheduler_Main.thy ===== *)
theory Scheduler_Main
  imports Loop_Dispatch Patrol Startup
begin

text \<open>
  The life of the scheduler process: \<open>src/scheduler/src/main.cpp\<close> with the construction, start and
  stop of \<open>SchedulerLoop\<close>. The threads of the process (main, the handlers of the gRPC server, the
  loop, its dispatch pool, the batcher, the patrol) interleave; what each of them does between two
  points where another can come in is one step.
\<close>

section \<open>Starting and stopping the loop\<close>

definition consumer_name :: "(string \<Rightarrow> string option) \<Rightarrow> int \<Rightarrow> string" where
  "consumer_name getenv now =
     (case getenv ''HOSTNAME'' of Some hostname \<Rightarrow> hostname | None \<Rightarrow> ''scheduler-'' @ int_str now)"

text \<open>The constructor: the name of the consumer and the number of threads of the dispatch pool.\<close>

definition SchedulerLoop ::
  "bool \<Rightarrow> bool \<Rightarrow> (string \<Rightarrow> string option) \<Rightarrow> int \<Rightarrow> string + string \<times> nat" where
  "SchedulerLoop has_task_repo has_worker_manager getenv now =
     (if \<not> has_task_repo \<or> \<not> has_worker_manager then Inl ''Invalid dependencies''
      else Inr (consumer_name getenv now, 20))"

text \<open>The result of \<open>Start\<close> is whether the thread was created.\<close>

definition Start_loop :: "'r group_ops \<Rightarrow> int \<Rightarrow> 'r sched \<Rightarrow> bool \<times> 'r sched" where
  "Start_loop G now s =
     (if sl_stop s then (False, s)
      else (let (_, r) = XGroupCreate (sl_rm s) G kTasks kGroupMain ''$'' True (sl_redis s)
            in (True, s\<lparr>sl_redis := r, sl_last_rescue := now\<rparr>)))"

text \<open>\<open>Stop\<close> up to the join: whether there is anything to join.\<close>

definition Stop_loop :: "'r sched \<Rightarrow> bool \<times> 'r sched" where
  "Stop_loop s = (if sl_stop s then (False, s) else (True, s\<lparr>sl_stop := True\<rparr>))"

section \<open>The process\<close>

text \<open>Where \<open>main\<close> is; \<open>Initializing\<close> is everything before \<open>BuildAndStart\<close>, and an exception up to
  \<open>Waiting\<close> aborts the process (\<open>LOG_FATAL\<close>). \<open>Destroying\<close> is the end of the scope of \<open>main\<close>: the
  members of the loop are destroyed in the reverse order of their declaration, the cache of channels
  and its mutex before the dispatch pool.\<close>

datatype main_pc =
    Initializing | Building | Starting_loop | Starting_patrol | Waiting | Stopping_patrol | Stopping_loop
  | Joining_loop | Stopping_batcher | Joining_batcher | Joining_patrol | Destroying | Destroying_pool
  | Returned | Aborted

datatype server_state = Unbuilt | Listening | Down
datatype patrol_pc = Patrol_none | Patrol_wait | Patrol_round | Patrol_exited

text \<open>\<open>pm_calls\<close> are the handlers under way. \<open>pm_stale\<close> counts the dispatches that used the cache
  of channels after its destruction.\<close>

record 'r scheduler_proc =
  pm_main :: main_pc
  pm_server :: server_state
  pm_calls :: nat
  pm_batcher :: batcher
  pm_loop :: "'r sched"
  pm_loop_thread :: bool
  pm_patrol :: patrol_pc
  pm_stop_patrol :: bool
  pm_cache :: bool
  pm_stale :: nat

definition scheduler_proc :: "batcher \<Rightarrow> 'r sched \<Rightarrow> 'r scheduler_proc" where
  "scheduler_proc b l =
     \<lparr>pm_main = Initializing, pm_server = Unbuilt, pm_calls = 0, pm_batcher = b, pm_loop = l,
      pm_loop_thread = False, pm_patrol = Patrol_none, pm_stop_patrol = False, pm_cache = True, pm_stale = 0\<rparr>"

definition HandleSignal :: "'r scheduler_proc \<Rightarrow> 'r scheduler_proc" where
  "HandleSignal p = (if pm_server p \<noteq> Unbuilt then p\<lparr>pm_server := Down\<rparr> else p)"

text \<open>
  The next statement of \<open>main\<close>; \<open>None\<close> is a wait. \<open>ok\<close> says whether the initialisation, and later
  the binding of the port, succeeded. \<open>Wait\<close> returns when the server was shut down and the handlers
  under way have returned; the patrol holds the mutex of the stop flag during a round; a thread is
  joined when it has returned.
\<close>

definition main_step :: "'r group_ops \<Rightarrow> int \<Rightarrow> bool \<Rightarrow> 'r scheduler_proc \<Rightarrow> 'r scheduler_proc option" where
  "main_step G now ok p =
     (case pm_main p of
        Initializing \<Rightarrow> Some (p\<lparr>pm_main := if ok then Building else Aborted\<rparr>)
      | Building \<Rightarrow> Some (if ok then p\<lparr>pm_server := Listening, pm_main := Starting_loop\<rparr> else p\<lparr>pm_main := Aborted\<rparr>)
      | Starting_loop \<Rightarrow>
          (let (started, l) = Start_loop G now (pm_loop p)
           in Some (p\<lparr>pm_loop := l, pm_loop_thread := started, pm_main := Starting_patrol\<rparr>))
      | Starting_patrol \<Rightarrow> Some (p\<lparr>pm_patrol := Patrol_wait, pm_main := Waiting\<rparr>)
      | Waiting \<Rightarrow> if pm_server p = Down \<and> pm_calls p = 0 then Some (p\<lparr>pm_main := Stopping_patrol\<rparr>) else None
      | Stopping_patrol \<Rightarrow>
          if pm_patrol p = Patrol_round then None
          else Some (p\<lparr>pm_stop_patrol := True, pm_main := Stopping_loop\<rparr>)
      | Stopping_loop \<Rightarrow>
          (let (join, l) = Stop_loop (pm_loop p)
           in Some (p\<lparr>pm_loop := l, pm_main := (if join then Joining_loop else Stopping_batcher)\<rparr>))
      | Joining_loop \<Rightarrow>
          if pm_loop_thread p \<and> sl_pc (pm_loop p) \<noteq> LoopExited then None
          else Some (p\<lparr>pm_main := Stopping_batcher\<rparr>)
      | Stopping_batcher \<Rightarrow>
          Some (if bt_stop (pm_batcher p) then p\<lparr>pm_main := Joining_patrol\<rparr>
                else p\<lparr>pm_batcher := Stop_batcher (pm_batcher p), pm_main := Joining_batcher\<rparr>)
      | Joining_batcher \<Rightarrow>
          if bt_thread (pm_batcher p) = Exited then Some (p\<lparr>pm_main := Joining_patrol\<rparr>) else None
      | Joining_patrol \<Rightarrow>
          if pm_patrol p = Patrol_none \<or> pm_patrol p = Patrol_exited then Some (p\<lparr>pm_main := Destroying\<rparr>) else None
      | Destroying \<Rightarrow> Some (p\<lparr>pm_cache := False, pm_main := Destroying_pool\<rparr>)
      | Destroying_pool \<Rightarrow> if sl_pool (pm_loop p) = [] then Some (p\<lparr>pm_main := Returned\<rparr>) else None
      | Returned \<Rightarrow> None
      | Aborted \<Rightarrow> None)"

text \<open>What comes from outside: signals, calls of the workers and what their handlers put into the
  batcher, and whatever others do to the shared data.\<close>

inductive outside_step :: "('r \<Rightarrow> 'r \<Rightarrow> bool) \<Rightarrow> 'r scheduler_proc \<Rightarrow> 'r scheduler_proc \<Rightarrow> bool" for others where
  signal: "outside_step others p (HandleSignal p)"
| call: "pm_server p = Listening \<Longrightarrow> outside_step others p (p\<lparr>pm_calls := Suc (pm_calls p)\<rparr>)"
| report: "0 < pm_calls p \<Longrightarrow>
    outside_step others p (p\<lparr>pm_batcher := snd (AddStatusUpdate op (pm_batcher p))\<rparr>)"
| handled: "0 < pm_calls p \<Longrightarrow> outside_step others p (p\<lparr>pm_calls := pm_calls p - 1\<rparr>)"
| world: "others (sl_redis (pm_loop p)) r \<Longrightarrow>
    outside_step others p (p\<lparr>pm_loop := (pm_loop p)\<lparr>sl_workers := W, sl_db := db, sl_redis := r\<rparr>\<rparr>)"

text \<open>What main and the threads do. An iteration of the batcher that finds neither work nor the stop
  changes nothing and is left out.\<close>

inductive work_step ::
  "'r loop_cfg \<Rightarrow> pg_types \<Rightarrow> (TaskUpdateOp list \<Rightarrow> TaskUpdateOp) \<Rightarrow> 'r scheduler_proc \<Rightarrow> 'r scheduler_proc \<Rightarrow> bool"
  for C T pick where
  main: "main_step (lc_group C) now ok p = Some p' \<Longrightarrow> work_step C T pick p p'"
| loop_top: "pm_loop_thread p \<Longrightarrow> sl_pc (pm_loop p) = AtTop \<Longrightarrow>
    work_step C T pick p (p\<lparr>pm_loop := RunLoop_top C now (pm_loop p)\<rparr>)"
| loop_fetch: "pm_loop_thread p \<Longrightarrow> sl_pc (pm_loop p) = Fetching \<Longrightarrow>
    work_step C T pick p (p\<lparr>pm_loop := RunLoop_fetch C now (pm_loop p)\<rparr>)"
| loop_entry: "pm_loop_thread p \<Longrightarrow> sl_pc (pm_loop p) = Dispatching es ws i \<Longrightarrow>
    work_step C T pick p (p\<lparr>pm_loop := RunLoop_entry C es ws i (pm_loop p)\<rparr>)"
| loop_rescue: "pm_loop_thread p \<Longrightarrow> sl_pc (pm_loop p) = Rescuing es \<Longrightarrow>
    work_step C T pick p (p\<lparr>pm_loop := DoRescue_entry C now es (pm_loop p)\<rparr>)"
| dispatch: "sl_pool (pm_loop p) = xs @ (t, w) # ys \<Longrightarrow>
    work_step C T pick p
      (p\<lparr>pm_loop := DoDispatch C E stub rpc t w ((pm_loop p)\<lparr>sl_pool := xs @ ys\<rparr>),
         pm_stale := (if pm_cache p then pm_stale p else Suc (pm_stale p))\<rparr>)"
| batch_iter: "bt_thread (pm_batcher p) = Looping \<Longrightarrow> bt_stop (pm_batcher p) \<or> bt_queue (pm_batcher p) \<noteq> [] \<Longrightarrow>
    work_step C T pick p (p\<lparr>pm_batcher := RunLoop_iter (pm_batcher p)\<rparr>)"
| batch_flush: "bt_thread (pm_batcher p) = Flushing batch \<Longrightarrow>
    work_step C T pick p (p\<lparr>pm_batcher := RunLoop_flush T pick E batch (pm_batcher p)\<rparr>)"
| patrol_due: "pm_patrol p = Patrol_wait \<Longrightarrow> \<not> pm_stop_patrol p \<Longrightarrow>
    work_step C T pick p (p\<lparr>pm_patrol := Patrol_round\<rparr>)"
| patrol_round: "pm_patrol p = Patrol_round \<Longrightarrow>
    RunPatrolLoop_round False now E2 (sl_workers (pm_loop p), sl_db (pm_loop p)) = (log, W, db) \<Longrightarrow>
    work_step C T pick p (p\<lparr>pm_patrol := Patrol_wait, pm_loop := (pm_loop p)\<lparr>sl_workers := W, sl_db := db\<rparr>\<rparr>)"
| patrol_stop: "pm_patrol p = Patrol_wait \<Longrightarrow> pm_stop_patrol p \<Longrightarrow>
    work_step C T pick p (p\<lparr>pm_patrol := Patrol_exited\<rparr>)"

definition scheduler_step ::
  "'r loop_cfg \<Rightarrow> pg_types \<Rightarrow> (TaskUpdateOp list \<Rightarrow> TaskUpdateOp) \<Rightarrow> ('r \<Rightarrow> 'r \<Rightarrow> bool) \<Rightarrow>
   'r scheduler_proc \<Rightarrow> 'r scheduler_proc \<Rightarrow> bool" where
  "scheduler_step C T pick others p p' \<longleftrightarrow>
     pm_main p \<noteq> Returned \<and> pm_main p \<noteq> Aborted \<and> (outside_step others p p' \<or> work_step C T pick p p')"

section \<open>The invariant\<close>

fun phase :: "main_pc \<Rightarrow> nat" where
  "phase Initializing = 0" | "phase Building = 1" | "phase Starting_loop = 2" | "phase Starting_patrol = 3"
| "phase Waiting = 4" | "phase Stopping_patrol = 5" | "phase Stopping_loop = 6" | "phase Joining_loop = 7"
| "phase Stopping_batcher = 8" | "phase Joining_batcher = 9" | "phase Joining_patrol = 10"
| "phase Destroying = 11" | "phase Destroying_pool = 12" | "phase Returned = 13" | "phase Aborted = 0"

text \<open>What each part is like at each phase of main.\<close>

definition server_fits :: "nat \<Rightarrow> server_state \<Rightarrow> nat \<Rightarrow> bool" where
  "server_fits n sv calls \<longleftrightarrow> (n \<ge> 5 \<longrightarrow> sv = Down \<and> calls = 0)"

definition loop_fits :: "nat \<Rightarrow> bool \<Rightarrow> 'r sched \<Rightarrow> bool" where
  "loop_fits n thread l \<longleftrightarrow>
     (sl_stop l \<longleftrightarrow> n \<ge> 7) \<and> (thread \<longleftrightarrow> n \<ge> 3) \<and> (n \<ge> 8 \<longrightarrow> sl_pc l = LoopExited)"

definition batcher_fits :: "nat \<Rightarrow> batcher \<Rightarrow> bool" where
  "batcher_fits n b \<longleftrightarrow>
     (bt_stop b \<longleftrightarrow> n \<ge> 9) \<and> (bt_thread b = Exited \<longrightarrow> bt_stop b \<and> bt_queue b = []) \<and>
     (n \<ge> 10 \<longrightarrow> bt_thread b = Exited) \<and> bt_added b = bt_moved b @ bt_queue b"

definition patrol_fits :: "nat \<Rightarrow> patrol_pc \<Rightarrow> bool \<Rightarrow> bool" where
  "patrol_fits n pt stop \<longleftrightarrow>
     (stop \<longleftrightarrow> n \<ge> 6) \<and> (pt = Patrol_none \<longleftrightarrow> n < 4) \<and> (n \<ge> 11 \<longrightarrow> pt = Patrol_exited)"

definition cache_fits :: "nat \<Rightarrow> bool \<Rightarrow> nat \<Rightarrow> bool" where
  "cache_fits n cache stale \<longleftrightarrow> (cache \<longleftrightarrow> n < 12) \<and> (n < 12 \<longrightarrow> stale = 0)"

definition proc_ok :: "'r scheduler_proc \<Rightarrow> bool" where
  "proc_ok p \<longleftrightarrow>
     (let n = phase (pm_main p)
      in server_fits n (pm_server p) (pm_calls p) \<and> loop_fits n (pm_loop_thread p) (pm_loop p) \<and>
         batcher_fits n (pm_batcher p) \<and> patrol_fits n (pm_patrol p) (pm_stop_patrol p) \<and>
         cache_fits n (pm_cache p) (pm_stale p))"

lemmas fits_defs = server_fits_def loop_fits_def batcher_fits_def patrol_fits_def cache_fits_def

lemma main_step_ok:
  assumes "main_step G now ok p = Some p'" "proc_ok p"
  shows "proc_ok p'"
proof -
  note fits = assms(2) [unfolded proc_ok_def Let_def]
  have sv: "server_fits (phase (pm_main p')) (pm_server p') (pm_calls p')"
    using assms(1) fits
    by (cases "pm_main p") (auto simp: main_step_def server_fits_def split: if_splits prod.splits)
  have lp: "loop_fits (phase (pm_main p')) (pm_loop_thread p') (pm_loop p')"
    using assms(1) fits
    by (cases "pm_main p") (auto simp: main_step_def loop_fits_def Start_loop_def Stop_loop_def split: if_splits prod.splits)
  have bt: "batcher_fits (phase (pm_main p')) (pm_batcher p')"
    using assms(1) fits
    by (cases "pm_main p") (auto simp: main_step_def batcher_fits_def Stop_batcher_def split: if_splits prod.splits)
  have pt: "patrol_fits (phase (pm_main p')) (pm_patrol p') (pm_stop_patrol p')"
    using assms(1) fits
    by (cases "pm_main p") (auto simp: main_step_def patrol_fits_def split: if_splits prod.splits)
  have ch: "cache_fits (phase (pm_main p')) (pm_cache p') (pm_stale p')"
    using assms(1) fits
    by (cases "pm_main p") (auto simp: main_step_def cache_fits_def split: if_splits prod.splits)
  from sv lp bt pt ch show ?thesis by (simp add: proc_ok_def Let_def)
qed

lemma outside_step_ok:
  assumes "outside_step others p p'" "proc_ok p"
  shows "proc_ok p'"
  using assms(1)
proof cases
  case signal
  then show ?thesis using assms(2)
    by (cases "pm_server p") (simp_all add: HandleSignal_def proc_ok_def server_fits_def Let_def)
next
  case call
  then show ?thesis using assms(2) by (simp add: proc_ok_def server_fits_def Let_def)
next
  case (report op)
  then show ?thesis using assms(2)
    by (simp add: proc_ok_def server_fits_def batcher_fits_def AddStatusUpdate_def Let_def) linarith
next
  case handled
  then show ?thesis using assms(2) by (simp add: proc_ok_def server_fits_def Let_def)
next
  case (world r W db)
  then show ?thesis using assms(2) by (simp add: proc_ok_def loop_fits_def Let_def)
qed

text \<open>The steps of the loop thread and of the pool leave the stop flag alone.\<close>

lemma loop_stop [simp]:
  "sl_stop (RunLoop_top C now l) = sl_stop l" "sl_stop (RunLoop_fetch C now l) = sl_stop l"
  "sl_stop (RunLoop_entry C es ws i l) = sl_stop l" "sl_stop (DoRescue_entry C now es l) = sl_stop l"
  "sl_stop (DoDispatch C E stub rpc t w l) = sl_stop l" "sl_pc (DoDispatch C E stub rpc t w l) = sl_pc l"
  by (simp_all add: loop_defs Let_def split: prod.split option.split list.split loaded.split sum.split rpc_result.split)

lemma work_step_ok:
  assumes "work_step C T pick p p'" "proc_ok p"
  shows "proc_ok p'"
  using assms(1)
proof cases
  case (main now ok)
  then show ?thesis by (rule main_step_ok [OF _ assms(2)])
next
  case (dispatch xs t w ys E stub rpc)
  then show ?thesis using assms(2) by (auto simp: proc_ok_def loop_fits_def cache_fits_def Let_def)
next
  case batch_iter
  then show ?thesis using assms(2) by (auto simp: proc_ok_def batcher_fits_def RunLoop_iter_def Let_def)
next
  case (batch_flush batch)
  then show ?thesis using assms(2) by (auto simp: proc_ok_def batcher_fits_def RunLoop_flush_def Let_def)
next
  case patrol_due
  then show ?thesis using assms(2) by (auto simp: proc_ok_def patrol_fits_def Let_def)
next
  case (patrol_round now E log W db)
  then show ?thesis using assms(2) by (auto simp: proc_ok_def patrol_fits_def loop_fits_def Let_def)
next
  case patrol_stop
  then show ?thesis using assms(2) by (auto simp: proc_ok_def patrol_fits_def Let_def)
qed (use assms(2) in \<open>auto simp: proc_ok_def loop_fits_def Let_def\<close>)

lemma proc_ok_start:
  assumes "bt_added b = [] \<and> bt_moved b = [] \<and> bt_queue b = [] \<and> \<not> bt_stop b \<and> bt_thread b = Looping"
    and "\<not> sl_stop l"
  shows "proc_ok (scheduler_proc b l)"
  using assms by (simp add: proc_ok_def fits_defs scheduler_proc_def)

lemma reach_proc_ok:
  "(scheduler_step C T pick others)\<^sup>*\<^sup>* (scheduler_proc (new_batcher db) (sched_init M W db' r now)) p \<Longrightarrow> proc_ok p"
proof (induction rule: rtranclp_induct)
  case base
  show ?case by (rule proc_ok_start) (simp_all add: new_batcher_def sched_init_def)
next
  case (step p p')
  then show ?case using outside_step_ok work_step_ok by (fastforce simp: scheduler_step_def)
qed

section \<open>The end\<close>

text \<open>What is left to do once the loop has been told to stop.\<close>

fun loop_left :: "loop_pc \<Rightarrow> nat" where
  "loop_left LoopExited = 0"
| "loop_left AtTop = 1"
| "loop_left (Dispatching es ws i) = 2"
| "loop_left Fetching = 3"
| "loop_left (Rescuing es) = 4 + 2 * length es"

fun batch_left :: "thread_state \<Rightarrow> nat \<Rightarrow> nat" where
  "batch_left Exited n = 0"
| "batch_left Looping n = 2 * n + 1"
| "batch_left (Flushing batch) n = 2 * n + 2"

fun patrol_left :: "patrol_pc \<Rightarrow> nat" where
  "patrol_left Patrol_wait = 1" | "patrol_left Patrol_round = 2" | "patrol_left pt = 0"

definition proc_left :: "'r scheduler_proc \<Rightarrow> nat" where
  "proc_left p =
     13 - phase (pm_main p) + loop_left (sl_pc (pm_loop p)) + length (sl_pool (pm_loop p)) +
     batch_left (bt_thread (pm_batcher p)) (length (bt_queue (pm_batcher p))) + patrol_left (pm_patrol p)"

definition stopping :: "'r scheduler_proc \<Rightarrow> bool" where
  "stopping p \<longleftrightarrow> proc_ok p \<and> sl_stop (pm_loop p)"

lemma loop_left_steps:
  assumes "sl_stop l"
  shows "sl_pc l = AtTop \<Longrightarrow> RunLoop_top C now l = l\<lparr>sl_pc := LoopExited\<rparr>"
    and "sl_pc l = Fetching \<Longrightarrow> loop_left (sl_pc (RunLoop_fetch C now l)) \<le> 2 \<and> sl_pool (RunLoop_fetch C now l) = sl_pool l"
    and "sl_pc (RunLoop_entry C es ws i l) = AtTop \<and> sl_pool (RunLoop_entry C es ws i l) = sl_pool l"
    and "loop_left (sl_pc (DoRescue_entry C now es l)) + length (sl_pool (DoRescue_entry C now es l))
       < 4 + 2 * length es + length (sl_pool l)"
    and "sl_pool (DoDispatch C E stub rpc t w l) = sl_pool l"
  using assms
  by (auto simp: loop_defs Let_def split: prod.split option.split list.split loaded.split sum.split rpc_result.split)

lemma batch_left_steps:
  "bt_thread b = Looping \<Longrightarrow> bt_stop b \<or> bt_queue b \<noteq> [] \<Longrightarrow>
     batch_left (bt_thread (RunLoop_iter b)) (length (bt_queue (RunLoop_iter b))) < 2 * length (bt_queue b) + 1"
  "batch_left (bt_thread (RunLoop_flush T pick E batch b)) (length (bt_queue (RunLoop_flush T pick E batch b)))
     = 2 * length (bt_queue b) + 1"
  by (cases "bt_queue b"; auto simp: RunLoop_iter_def kBatchSize_def Let_def) (simp add: RunLoop_flush_def)

text \<open>Each step of main or of a thread brings the end closer, and nothing from outside delays it.\<close>

lemma stopping_phase: "stopping p \<Longrightarrow> 7 \<le> phase (pm_main p)"
  by (auto simp: stopping_def proc_ok_def loop_fits_def Let_def)

lemma main_step_left:
  assumes "main_step G now ok p = Some p'" "stopping p"
  shows "proc_left p' < proc_left p \<and> sl_stop (pm_loop p')"
  using assms stopping_phase [OF assms(2)]
  by (cases "pm_main p") (auto simp: main_step_def proc_left_def stopping_def Stop_batcher_def Stop_loop_def split: if_splits)

lemma work_left:
  assumes "work_step C T pick p p'" "stopping p"
  shows "proc_left p' < proc_left p \<and> stopping p'"
proof -
  have ok: "proc_ok p'" using work_step_ok [OF assms(1)] assms(2) by (simp add: stopping_def)
  have st: "sl_stop (pm_loop p)" using assms(2) by (simp add: stopping_def)
  note left = loop_left_steps [OF st]
  from assms(1) have "proc_left p' < proc_left p \<and> sl_stop (pm_loop p')"
  proof cases
    case (main now ok)
    then show ?thesis by (rule main_step_left [OF _ assms(2)])
  next
    case (loop_top now)
    then show ?thesis using left(1) [OF loop_top(3), of C now] st by (simp add: proc_left_def)
  next
    case (loop_fetch now)
    then show ?thesis using left(2) [OF loop_fetch(3), of C now] st by (simp add: proc_left_def)
  next
    case (loop_entry es ws i)
    then show ?thesis using left(3) [of C es ws i] st by (simp add: proc_left_def)
  next
    case (loop_rescue es now)
    then show ?thesis using left(4) [of C now es] st by (simp add: proc_left_def)
  next
    case (dispatch xs t w ys E stub rpc)
    have "sl_stop ((pm_loop p)\<lparr>sl_pool := xs @ ys\<rparr>)" using st by simp
    note d = loop_left_steps(5) [OF this, of C E stub rpc t w]
    show ?thesis using dispatch d st by (simp add: proc_left_def)
  next
    case batch_iter
    then show ?thesis using batch_left_steps(1) [of "pm_batcher p"] st by (simp add: proc_left_def)
  next
    case (batch_flush batch E)
    then show ?thesis using batch_left_steps(2) [of T pick E batch "pm_batcher p"] st by (simp add: proc_left_def)
  next
    case patrol_due
    then show ?thesis using assms(2) stopping_phase [OF assms(2)]
      by (simp add: stopping_def proc_ok_def patrol_fits_def Let_def)
  next
    case (patrol_round now E log W db)
    then show ?thesis using st by (simp add: proc_left_def)
  next
    case patrol_stop
    then show ?thesis using st by (simp add: proc_left_def)
  qed
  with ok show ?thesis by (simp add: stopping_def)
qed

lemma outside_left:
  assumes "outside_step others p p'" "stopping p"
  shows "proc_left p' = proc_left p \<and> stopping p'"
proof -
  have ok: "proc_ok p'" using outside_step_ok [OF assms(1)] assms(2) by (simp add: stopping_def)
  have down: "pm_server p = Down" "pm_calls p = 0"
    using assms(2) stopping_phase [OF assms(2)] by (auto simp: stopping_def proc_ok_def server_fits_def Let_def)
  from assms(1) show ?thesis
  proof cases
    case signal
    then show ?thesis using assms(2) ok by (simp add: HandleSignal_def proc_left_def stopping_def)
  next
    case (world r W db)
    then show ?thesis using assms(2) ok by (simp add: proc_left_def stopping_def)
  qed (use down in simp_all)
qed

lemma outside_left_many:
  "(outside_step others)\<^sup>*\<^sup>* p p' \<Longrightarrow> stopping p \<Longrightarrow> proc_left p' = proc_left p \<and> stopping p'"
  by (induction rule: rtranclp_induct) (auto dest: outside_left)

lemma loop_can_step:
  assumes "pm_loop_thread p" "sl_pc (pm_loop p) \<noteq> LoopExited"
  shows "\<exists>p'. work_step C T pick p p'"
  using assms by (cases "sl_pc (pm_loop p)") (auto intro: loop_top loop_fetch loop_entry loop_rescue)

lemma batcher_can_step:
  assumes "bt_stop (pm_batcher p)" "bt_thread (pm_batcher p) \<noteq> Exited"
  shows "\<exists>p'. work_step C T pick p p'"
  using assms by (cases "bt_thread (pm_batcher p)") (auto intro: batch_iter batch_flush)

lemma patrol_can_step:
  assumes "pm_stop_patrol p" "pm_patrol p = Patrol_wait \<or> pm_patrol p = Patrol_round"
  shows "\<exists>p'. work_step C T pick p p'"
proof (cases "pm_patrol p = Patrol_wait")
  case True
  then show ?thesis using assms(1) by (auto intro: patrol_stop)
next
  case False
  obtain log W db where
    "RunPatrolLoop_round False 0 (\<lambda>_. tx_ok 0) (sl_workers (pm_loop p), sl_db (pm_loop p)) = (log, W, db)"
    by (metis prod_cases3)
  with False assms(2) show ?thesis by (blast intro: patrol_round)
qed

text \<open>Until main has returned, it can go on or the thread it waits for can.\<close>

lemma main_waits:
  assumes "main_step G now ok p = None" "7 \<le> phase (pm_main p)" "pm_main p \<noteq> Returned"
  shows "pm_main p = Joining_loop \<and> sl_pc (pm_loop p) \<noteq> LoopExited \<or>
     pm_main p = Joining_batcher \<and> bt_thread (pm_batcher p) \<noteq> Exited \<or>
     pm_main p = Joining_patrol \<and> (pm_patrol p = Patrol_wait \<or> pm_patrol p = Patrol_round) \<or>
     pm_main p = Destroying_pool \<and> sl_pool (pm_loop p) \<noteq> []"
proof -
  have pt: "pm_patrol p \<in> {Patrol_none, Patrol_wait, Patrol_round, Patrol_exited}" by (cases "pm_patrol p") auto
  show ?thesis using assms pt by (cases "pm_main p") (auto simp: main_step_def split: if_splits)
qed

lemma stopping_can_step:
  assumes "stopping p" "pm_main p \<noteq> Returned"
  shows "\<exists>p'. work_step C T pick p p'"
proof -
  have ok: "proc_ok p" and n: "7 \<le> phase (pm_main p)" using assms(1) stopping_phase by (auto simp: stopping_def)
  have go: "\<exists>p'. work_step C T pick p p'" if "main_step (lc_group C) 0 True p = Some q" for q
    using main [OF that] by blast
  consider "main_step (lc_group C) 0 True p \<noteq> None"
    | "pm_main p = Joining_loop" "sl_pc (pm_loop p) \<noteq> LoopExited"
    | "pm_main p = Joining_batcher" "bt_thread (pm_batcher p) \<noteq> Exited"
    | "pm_main p = Joining_patrol" "pm_patrol p = Patrol_wait \<or> pm_patrol p = Patrol_round"
    | "pm_main p = Destroying_pool" "sl_pool (pm_loop p) \<noteq> []"
    using main_waits [of "lc_group C" 0 True p] n assms(2) by blast
  then show ?thesis
  proof cases
    case 1
    then show ?thesis using go by auto
  next
    case 2
    then show ?thesis using ok by (intro loop_can_step) (auto simp: proc_ok_def loop_fits_def)
  next
    case 3
    then show ?thesis using ok by (intro batcher_can_step) (auto simp: proc_ok_def batcher_fits_def)
  next
    case 4
    then show ?thesis using ok by (intro patrol_can_step) (auto simp: proc_ok_def patrol_fits_def)
  next
    case 5
    then obtain t w ys where "sl_pool (pm_loop p) = [] @ (t, w) # ys"
      by (metis append_Nil list.exhaust surj_pair)
    then show ?thesis using dispatch by blast
  qed
qed

lemma proc_left_bound:
  assumes "stopping p"
  shows "proc_left p \<le> 14 + 2 * length (in_hand (sl_pc (pm_loop p))) + length (sl_pool (pm_loop p)) +
     2 * length (bt_queue (pm_batcher p))"
proof -
  have "loop_left (sl_pc (pm_loop p)) \<le> 4 + 2 * length (in_hand (sl_pc (pm_loop p)))"
    by (cases "sl_pc (pm_loop p)") auto
  moreover have "batch_left (bt_thread (pm_batcher p)) (length (bt_queue (pm_batcher p))) \<le>
      2 * length (bt_queue (pm_batcher p)) + 2"
    by (cases "bt_thread (pm_batcher p)") auto
  moreover have "patrol_left (pm_patrol p) \<le> 2" by (cases "pm_patrol p") auto
  moreover have "13 - phase (pm_main p) \<le> 6" using stopping_phase [OF assms] by simp
  ultimately show ?thesis
    unfolding proc_left_def by linarith
qed

lemma stopping_run:
  assumes "((\<lambda>p p'. \<exists>p1. (outside_step others)\<^sup>*\<^sup>* p p1 \<and> work_step C T pick p1 p') ^^ k) p q" "stopping p"
  shows "k + proc_left q \<le> proc_left p \<and> stopping q"
  using assms(1)
proof (induction k arbitrary: q)
  case 0
  then show ?case using assms(2) by simp
next
  case (Suc k)
  then obtain q1 q2 where q: "k + proc_left q1 \<le> proc_left p" "stopping q1" "(outside_step others)\<^sup>*\<^sup>* q1 q2"
    "work_step C T pick q2 q"
    by auto
  then show ?case using outside_left_many [OF q(3,2)] work_left [OF q(4)] by linarith
qed

section \<open>A run that ends with a dispatch under way\<close>

text \<open>Main waits, the loop has handed a task to the pool, nothing else goes on.\<close>

definition dispatch_queued :: "'r scheduler_proc \<Rightarrow> bool" where
  "dispatch_queued p \<longleftrightarrow> pm_main p = Waiting \<and> pm_server p = Listening \<and> pm_calls p = 0 \<and> pm_loop_thread p \<and>
     sl_pc (pm_loop p) = AtTop \<and> \<not> sl_stop (pm_loop p) \<and> sl_pool (pm_loop p) \<noteq> [] \<and>
     (\<exists>db. pm_batcher p = new_batcher db) \<and> pm_patrol p = Patrol_wait \<and> \<not> pm_stop_patrol p"

text \<open>One step of main, one step of a thread, as steps of the process.\<close>

lemma main_go:
  "main_step (lc_group C) now True p = Some p' \<Longrightarrow> scheduler_step C T pick others p p'"
  using work_step.main [of C now True p p'] by (auto simp: scheduler_step_def main_step_def)

lemma work_go:
  "work_step C T pick p p' \<Longrightarrow> 0 < phase (pm_main p) \<Longrightarrow> phase (pm_main p) < 13 \<Longrightarrow> scheduler_step C T pick others p p'"
  by (auto simp: scheduler_step_def)

lemma stop_joins_loop:
  assumes "dispatch_queued p"
  shows "\<exists>q. (scheduler_step C T pick others)\<^sup>*\<^sup>* p q \<and> pm_main q = Stopping_batcher \<and> sl_pool (pm_loop q) = sl_pool (pm_loop p) \<and>
     pm_batcher q = pm_batcher p \<and> pm_patrol q = Patrol_wait \<and> pm_stop_patrol q"
proof -
  let ?R = "scheduler_step C T pick others"
  note p = assms [unfolded dispatch_queued_def]
  let ?p1 = "p\<lparr>pm_server := Down\<rparr>"
  let ?p2 = "?p1\<lparr>pm_stop_patrol := True, pm_main := Stopping_loop\<rparr>"
  let ?p3 = "?p2\<lparr>pm_loop := (pm_loop p)\<lparr>sl_stop := True\<rparr>, pm_main := Joining_loop\<rparr>"
  let ?p4 = "?p3\<lparr>pm_loop := RunLoop_top C 0 (pm_loop ?p3)\<rparr>"
  have "?R p ?p1"
    using p outside_step.signal [of others p] by (simp add: scheduler_step_def HandleSignal_def)
  moreover have "?R ?p1 (?p1\<lparr>pm_main := Stopping_patrol\<rparr>)" by (rule main_go) (use p in \<open>simp add: main_step_def\<close>)
  moreover have "?R (?p1\<lparr>pm_main := Stopping_patrol\<rparr>) ?p2" by (rule main_go) (use p in \<open>simp add: main_step_def\<close>)
  moreover have "?R ?p2 ?p3" by (rule main_go) (use p in \<open>simp add: main_step_def Stop_loop_def\<close>)
  moreover have "?R ?p3 ?p4" by (rule work_go, rule loop_top) (use p in simp_all)
  moreover have "?R ?p4 (?p4\<lparr>pm_main := Stopping_batcher\<rparr>)"
    by (rule main_go) (simp add: main_step_def RunLoop_top_def)
  ultimately have "?R\<^sup>*\<^sup>* p (?p4\<lparr>pm_main := Stopping_batcher\<rparr>)"
    by (meson converse_rtranclp_into_rtranclp rtranclp.rtrancl_refl)
  then show ?thesis
    by (intro exI [of _ "?p4\<lparr>pm_main := Stopping_batcher\<rparr>"]) (use p in \<open>simp add: RunLoop_top_def\<close>)
qed

lemma end_destroys_cache:
  assumes "pm_main p = Stopping_batcher" "pm_batcher p = new_batcher db" "pm_patrol p = Patrol_wait" "pm_stop_patrol p"
  shows "\<exists>q. (scheduler_step C T pick others)\<^sup>*\<^sup>* p q \<and> pm_main q = Destroying_pool \<and>
     sl_pool (pm_loop q) = sl_pool (pm_loop p) \<and> \<not> pm_cache q"
proof -
  let ?R = "scheduler_step C T pick others"
  let ?p1 = "p\<lparr>pm_batcher := Stop_batcher (pm_batcher p), pm_main := Joining_batcher\<rparr>"
  let ?p2 = "?p1\<lparr>pm_batcher := RunLoop_iter (pm_batcher ?p1)\<rparr>"
  let ?p3 = "?p2\<lparr>pm_main := Joining_patrol\<rparr>"
  let ?p4 = "?p3\<lparr>pm_patrol := Patrol_exited\<rparr>"
  let ?p5 = "?p4\<lparr>pm_main := Destroying\<rparr>"
  let ?p6 = "?p5\<lparr>pm_cache := False, pm_main := Destroying_pool\<rparr>"
  note b = assms(2) new_batcher_def Stop_batcher_def
  have "?R p ?p1" by (rule main_go) (simp add: assms(1) main_step_def b)
  moreover have "?R ?p1 ?p2" by (rule work_go, rule batch_iter) (simp_all add: b)
  moreover have "?R ?p2 ?p3" by (rule main_go) (simp add: main_step_def RunLoop_iter_def b)
  moreover have "?R ?p3 ?p4" by (rule work_go, rule patrol_stop) (simp_all add: assms)
  moreover have "?R ?p4 ?p5" by (rule main_go) (simp add: main_step_def)
  moreover have "?R ?p5 ?p6" by (rule main_go) (simp add: main_step_def)
  ultimately have "?R\<^sup>*\<^sup>* p ?p6" by (meson converse_rtranclp_into_rtranclp rtranclp.rtrancl_refl)
  then show ?thesis by (intro exI [of _ ?p6]) simp
qed

lemma stop_leaves_dispatch:
  assumes "dispatch_queued p"
  shows "\<exists>q. (scheduler_step C T pick others)\<^sup>*\<^sup>* p q \<and> pm_main q = Destroying_pool \<and> 0 < pm_stale q"
proof -
  let ?R = "scheduler_step C T pick others"
  obtain db where db: "pm_batcher p = new_batcher db" using assms by (auto simp: dispatch_queued_def)
  obtain q1 where q1: "?R\<^sup>*\<^sup>* p q1" "pm_main q1 = Stopping_batcher" "sl_pool (pm_loop q1) = sl_pool (pm_loop p)"
    "pm_batcher q1 = new_batcher db" "pm_patrol q1 = Patrol_wait" "pm_stop_patrol q1"
    using stop_joins_loop [OF assms, of C T pick others] db by auto
  obtain q2 where q2: "?R\<^sup>*\<^sup>* q1 q2" "pm_main q2 = Destroying_pool" "sl_pool (pm_loop q2) = sl_pool (pm_loop p)" "\<not> pm_cache q2"
    using end_destroys_cache [OF q1(2,4-6)] q1(3) by metis
  obtain t w ys where "sl_pool (pm_loop q2) = [] @ (t, w) # ys"
    using assms q2(3) by (metis dispatch_queued_def append_Nil list.exhaust surj_pair)
  from work_step.dispatch [OF this, of C T pick] q2(4)
  obtain q3 where "work_step C T pick q2 q3" "0 < pm_stale q3" "pm_main q3 = Destroying_pool"
    using q2(2) by fastforce
  moreover from this(1) have "?R q2 q3" by (rule work_go) (simp_all add: q2(2))
  ultimately show ?thesis using q1(1) q2(1) by (meson rtranclp.rtrancl_into_rtrancl rtranclp_trans)
qed

text \<open>Such a state is reached from the start with one entry on the stream.\<close>

abbreviation first_proc :: "group_store scheduler_proc" where
  "first_proc \<equiv> scheduler_proc (new_batcher sample_db)
     (sched_init up_manager sample_workers sample_db (meta_store, [sample_entry], []) 0)"

lemma process_starts:
  "\<exists>p. (scheduler_step (sample_cfg host_ops) T pick others)\<^sup>*\<^sup>* first_proc p \<and> pm_main p = Waiting \<and>
     pm_server p = Listening \<and> pm_calls p = 0 \<and> pm_loop_thread p \<and> pm_loop p = pm_loop first_proc \<and>
     pm_batcher p = new_batcher sample_db \<and> pm_patrol p = Patrol_wait \<and> \<not> pm_stop_patrol p"
proof -
  let ?R = "scheduler_step (sample_cfg host_ops) T pick others"
  let ?p1 = "first_proc\<lparr>pm_main := Building\<rparr>"
  let ?p2 = "?p1\<lparr>pm_server := Listening, pm_main := Starting_loop\<rparr>"
  let ?p3 = "?p2\<lparr>pm_loop_thread := True, pm_main := Starting_patrol\<rparr>"
  let ?p4 = "?p3\<lparr>pm_patrol := Patrol_wait, pm_main := Waiting\<rparr>"
  have "?R first_proc ?p1" "?R ?p1 ?p2" "?R ?p2 ?p3" "?R ?p3 ?p4"
    by (rule main_go [where now = 0]; simp add: main_step_def scheduler_proc_def Start_loop_def XGroupCreate_def
        sched_init_def up_manager_def sample_cfg_def gm_ops_def)+
  then have "?R\<^sup>*\<^sup>* first_proc ?p4" by (meson converse_rtranclp_into_rtranclp rtranclp.rtrancl_refl)
  then show ?thesis by (intro exI [of _ ?p4]) (simp add: scheduler_proc_def)
qed

lemma sample_facts: "lc_redis (sample_cfg host_ops) = host_ops" "rm_client up_manager"
  by (simp_all add: sample_cfg_def up_manager_def)

lemma loop_dispatches:
  assumes "pm_main p = Waiting" "pm_loop_thread p" "pm_loop p = pm_loop first_proc"
  shows "\<exists>l. (scheduler_step (sample_cfg host_ops) T pick others)\<^sup>*\<^sup>* p (p\<lparr>pm_loop := l\<rparr>) \<and>
     sl_pc l = AtTop \<and> \<not> sl_stop l \<and> sl_pool l \<noteq> []"
proof -
  let ?C = "sample_cfg host_ops" and ?R = "scheduler_step (sample_cfg host_ops) T pick others"
  let ?l0 = "pm_loop first_proc"
  let ?l1 = "?l0\<lparr>sl_pc := Fetching\<rparr>"
  let ?l2 = "?l0\<lparr>sl_redis := meta_redis, sl_inflight := 1, sl_pc := Dispatching [sample_entry] [sample_worker] 0\<rparr>"
  have l1: "RunLoop_top ?C 0 ?l0 = ?l1"
    by (simp add: RunLoop_top_def scheduler_proc_def sched_init_def MAX_INFLIGHT_def)
  have l2: "RunLoop_fetch ?C 0 ?l1 = ?l2"
    by (simp add: RunLoop_fetch_def scheduler_proc_def sched_init_def sample_cfg_def sample_available
        XReadGroup_def up_manager_def gm_ops_def LOOP_BATCH_SIZE_def Let_def)
  obtain t where t: "stored_task ?C (host_view meta_redis) sample_entry = Some t"
    using meta_stored [of meta_side] by auto
  obtain r where r: "load_entry ?C up_manager sample_entry meta_redis = (Usable t, r)"
    using host.load_entry_stored [OF t meta_up, of up_manager] by (metis sample_facts)
  obtain l3 where l3: "RunLoop_entry ?C [sample_entry] [sample_worker] 0 ?l2 = l3" "sl_pc l3 = Dispatching [] [sample_worker] 1"
    "\<not> sl_stop l3" "sl_pool l3 = [(t, sample_worker)]"
    using r by (simp add: RunLoop_entry_def scheduler_proc_def sched_init_def Let_def)
  have go: "?R (p\<lparr>pm_loop := l\<rparr>) (p\<lparr>pm_loop := l'\<rparr>)" if "work_step ?C T pick (p\<lparr>pm_loop := l\<rparr>) (p\<lparr>pm_loop := l'\<rparr>)" for l l'
    by (rule work_go [OF that]) (simp_all add: assms(1))
  have th: "pm_loop_thread (p\<lparr>pm_loop := l\<rparr>)" for l using assms(2) by simp
  have "?R (p\<lparr>pm_loop := ?l0\<rparr>) (p\<lparr>pm_loop := ?l1\<rparr>)"
    using go [of ?l0 ?l1] loop_top [OF th [of ?l0], of ?C T pick 0] l1 by (simp add: scheduler_proc_def sched_init_def)
  moreover have "?R (p\<lparr>pm_loop := ?l1\<rparr>) (p\<lparr>pm_loop := ?l2\<rparr>)"
    using go [of ?l1 ?l2] loop_fetch [OF th [of ?l1], of ?C T pick 0] l2 by simp
  moreover have "?R (p\<lparr>pm_loop := ?l2\<rparr>) (p\<lparr>pm_loop := l3\<rparr>)"
    using go [of ?l2 l3] loop_entry [OF th [of ?l2], of "[sample_entry]" "[sample_worker]" 0 ?C T pick] l3(1) by simp
  moreover have "?R (p\<lparr>pm_loop := l3\<rparr>) (p\<lparr>pm_loop := l3\<lparr>sl_pc := AtTop\<rparr>\<rparr>)"
    using go [of l3 "l3\<lparr>sl_pc := AtTop\<rparr>"] loop_entry [OF th [of l3], of "[]" "[sample_worker]" 1 ?C T pick] l3(2)
    by (simp add: RunLoop_entry_def)
  ultimately have "?R\<^sup>*\<^sup>* (p\<lparr>pm_loop := ?l0\<rparr>) (p\<lparr>pm_loop := l3\<lparr>sl_pc := AtTop\<rparr>\<rparr>)"
    by (meson converse_rtranclp_into_rtranclp rtranclp.rtrancl_refl)
  moreover have "p\<lparr>pm_loop := ?l0\<rparr> = p" using assms(3) by (metis scheduler_proc.surjective scheduler_proc.update_convs(5))
  ultimately show ?thesis using l3 by (intro exI [of _ "l3\<lparr>sl_pc := AtTop\<rparr>"]) simp
qed

lemma sample_dispatch_queued:
  "\<exists>p. (scheduler_step (sample_cfg host_ops) T pick others)\<^sup>*\<^sup>* first_proc p \<and> dispatch_queued p"
proof -
  obtain p where p: "(scheduler_step (sample_cfg host_ops) T pick others)\<^sup>*\<^sup>* first_proc p" "pm_main p = Waiting"
     "pm_server p = Listening" "pm_calls p = 0" "pm_loop_thread p" "pm_loop p = pm_loop first_proc"
     "pm_batcher p = new_batcher sample_db" "pm_patrol p = Patrol_wait" "\<not> pm_stop_patrol p"
    using process_starts by blast
  obtain l where l: "(scheduler_step (sample_cfg host_ops) T pick others)\<^sup>*\<^sup>* p (p\<lparr>pm_loop := l\<rparr>)"
     "sl_pc l = AtTop" "\<not> sl_stop l" "sl_pool l \<noteq> []"
    using loop_dispatches [OF p(2,5,6)] by blast
  have "dispatch_queued (p\<lparr>pm_loop := l\<rparr>)" using p l by (auto simp: dispatch_queued_def)
  with l(1) p(1) show ?thesis by (meson rtranclp_trans)
qed

lemma stale_reached:
  "\<exists>p. (scheduler_step (sample_cfg host_ops) T pick others)\<^sup>*\<^sup>* first_proc p \<and> pm_main p = Destroying_pool \<and> 0 < pm_stale p"
proof -
  obtain p where p: "(scheduler_step (sample_cfg host_ops) T pick others)\<^sup>*\<^sup>* first_proc p" "dispatch_queued p"
    using sample_dispatch_queued by blast
  from stop_leaves_dispatch [OF p(2)] p(1) show ?thesis by (meson rtranclp_trans)
qed

section \<open>Properties\<close>

text \<open>
  C20. A shutdown loses no report. However the handlers, the loop, the patrol and the batcher
  interleave with main, and whenever the signal comes: when main is past its joins, every update
  that a handler had put into the batcher has been handed to a flush that has ended, no handler is
  under way, and the loop, the batcher and the patrol have returned.
\<close>

theorem shutdown_flushes_every_report:
  assumes "(scheduler_step C T pick others)\<^sup>*\<^sup>* (scheduler_proc (new_batcher db) (sched_init M W db' r now)) p"
    and "pm_main p \<in> {Destroying, Destroying_pool, Returned}"
  shows "bt_moved (pm_batcher p) = bt_added (pm_batcher p) \<and> bt_queue (pm_batcher p) = [] \<and>
     bt_thread (pm_batcher p) = Exited \<and> pm_calls p = 0 \<and> sl_pc (pm_loop p) = LoopExited \<and> pm_patrol p = Patrol_exited"
proof -
  have "proc_ok p" by (rule reach_proc_ok [OF assms(1)])
  moreover have "11 \<le> phase (pm_main p)" using assms(2) by auto
  ultimately show ?thesis by (auto simp: proc_ok_def fits_defs Let_def)
qed

text \<open>
  C21. The shutdown comes to its end. Once main has told the loop to stop, main and the threads it
  waits for take a bounded number of steps, whatever happens between them: fourteen, one for each
  dispatch under way, two for each entry in the hands of the rescue and for each update that waits.
  Until main has returned, one of them can always take a step.
\<close>

theorem shutdown_completes:
  assumes "(scheduler_step C T pick others)\<^sup>*\<^sup>* (scheduler_proc (new_batcher db) (sched_init M W db' r now)) p"
    and "sl_stop (pm_loop p)"
    and "((\<lambda>p p'. \<exists>p1. (outside_step others)\<^sup>*\<^sup>* p p1 \<and> work_step C T pick p1 p') ^^ k) p q"
  shows "k \<le> 14 + 2 * length (in_hand (sl_pc (pm_loop p))) + length (sl_pool (pm_loop p)) +
      2 * length (bt_queue (pm_batcher p)) \<and> (pm_main q = Returned \<or> (\<exists>q'. work_step C T pick q q'))"
proof -
  have "stopping p" using reach_proc_ok [OF assms(1)] assms(2) by (simp add: stopping_def)
  from stopping_run [OF assms(3) this] proc_left_bound [OF this] show ?thesis
    using stopping_can_step [of q C T pick] by auto
qed

text \<open>
  C36. A shutdown can use destroyed members. The loop is joined but its dispatch pool is not: the
  pool is the last member to be destroyed and its destructor runs what is queued, when the cache of
  channels and its mutex, which every dispatch locks first, are gone. One task on the stream and
  one signal suffice.
\<close>

theorem dispatch_after_destruction:
  "\<exists>p. (scheduler_step (sample_cfg host_ops) T pick others)\<^sup>*\<^sup>* first_proc p \<and> pm_main p = Destroying_pool \<and> 0 < pm_stale p"
  by (rule stale_reached)

theorem shutdown_flushes_every_report_witness:
  "\<exists>p. (scheduler_step (sample_cfg host_ops) sample_types hd (\<lambda>_ _. False))\<^sup>*\<^sup>* first_proc p \<and>
     pm_main p = Destroying_pool \<and> bt_moved (pm_batcher p) = bt_added (pm_batcher p) \<and> sl_pc (pm_loop p) = LoopExited"
proof -
  obtain p where p: "(scheduler_step (sample_cfg host_ops) sample_types hd (\<lambda>_ _. False))\<^sup>*\<^sup>* first_proc p"
    "pm_main p = Destroying_pool"
    using stale_reached by blast
  from shutdown_flushes_every_report [OF p(1)] p show ?thesis by auto
qed

theorem shutdown_completes_witness:
  "\<exists>p q. (scheduler_step (sample_cfg host_ops) sample_types hd (\<lambda>_ _. False))\<^sup>*\<^sup>* first_proc p \<and>
     work_step (sample_cfg host_ops) sample_types hd p q \<and>
     1 \<le> 14 + 2 * length (in_hand (sl_pc (pm_loop p))) + length (sl_pool (pm_loop p)) + 2 * length (bt_queue (pm_batcher p))"
proof -
  obtain p where p: "(scheduler_step (sample_cfg host_ops) sample_types hd (\<lambda>_ _. False))\<^sup>*\<^sup>* first_proc p"
    "pm_main p = Destroying_pool"
    using stale_reached by blast
  have stop: "sl_stop (pm_loop p)" using reach_proc_ok [OF p(1)] p(2) by (simp add: proc_ok_def loop_fits_def)
  have zero: "((\<lambda>p p'. \<exists>p1. (outside_step (\<lambda>_ _. False))\<^sup>*\<^sup>* p p1 \<and> work_step (sample_cfg host_ops) sample_types hd p1 p') ^^ 0) p p"
    by simp
  from shutdown_completes [OF p(1) stop zero] p(2)
  obtain q where q: "work_step (sample_cfg host_ops) sample_types hd p q" by auto
  have one: "((\<lambda>p p'. \<exists>p1. (outside_step (\<lambda>_ _. False))\<^sup>*\<^sup>* p p1 \<and> work_step (sample_cfg host_ops) sample_types hd p1 p') ^^ 1) p q"
    using q by auto
  from shutdown_completes [OF p(1) stop one] p(1) q show ?thesis by blast
qed

end
