(* ===== verification/Api_Lifecycle.thy ===== *)
theory Api_Lifecycle
  imports Api_Server
begin

text \<open>
  The life of the API server process: the signal handler and \<open>main\<close> of
  \<open>src/api-server/src/main.cpp\<close>, \<open>Run\<close> and \<open>Shutdown\<close> of \<open>src/api-server/src/api_server.cpp\<close>.
  A signal is handled on some thread of the process, which does nothing else meanwhile; thread 0 is
  main, thread \<open>i + 1\<close> drives queue \<open>i\<close>, the other numbers are the remaining threads. The process
  crashes on a null server, on a thread that joins itself, and when a thread that was not joined is
  destroyed.
\<close>

section \<open>Shutdown\<close>

datatype shut_pc = X_exchange | X_server | X_queues | X_join nat | X_done
datatype api_pc = A_init | A_created | A_built | A_loop | A_shut shut_pc | A_return | A_exited
datatype handler_pc = H_flag | H_shut shut_pc

text \<open>\<open>ap_threads\<close> says of each thread in \<open>cq_threads_\<close> whether it runs; the first \<open>ap_joined\<close> of
  them have been joined.\<close>

record api_proc =
  ap_main :: api_pc
  ap_handler :: "(nat \<times> handler_pc) option"
  ap_flag :: bool
  ap_shutdown :: bool
  ap_server :: bool
  ap_queues_down :: bool
  ap_threads :: "bool list"
  ap_joined :: nat
  ap_crashed :: bool

definition api_process :: api_proc where
  "api_process =
     \<lparr>ap_main = A_init, ap_handler = None, ap_flag = False, ap_shutdown = False, ap_server = False,
      ap_queues_down = False, ap_threads = [], ap_joined = 0, ap_crashed = False\<rparr>"

text \<open>One step of \<open>Shutdown\<close> on the thread \<open>me\<close>; \<open>None\<close> is a wait.\<close>

fun Shutdown_step :: "nat \<Rightarrow> shut_pc \<Rightarrow> api_proc \<Rightarrow> (shut_pc \<times> api_proc) option" where
  "Shutdown_step me X_exchange p =
     Some (if ap_shutdown p then (X_done, p) else (X_server, p\<lparr>ap_shutdown := True\<rparr>))"
| "Shutdown_step me X_server p = Some (X_queues, if ap_server p then p else p\<lparr>ap_crashed := True\<rparr>)"
| "Shutdown_step me X_queues p = Some (X_join 0, p\<lparr>ap_queues_down := True\<rparr>)"
| "Shutdown_step me (X_join k) p =
     (if k \<ge> length (ap_threads p) then Some (X_done, p)
      else if me = Suc k then Some (X_done, p\<lparr>ap_crashed := True\<rparr>)
      else if ap_threads p ! k then None
      else Some (X_join (Suc k), p\<lparr>ap_joined := Suc k\<rparr>))"
| "Shutdown_step me X_done p = None"

section \<open>The handler and main\<close>

definition signal_handler :: "nat \<Rightarrow> handler_pc \<Rightarrow> api_proc \<Rightarrow> api_proc option" where
  "signal_handler me c p =
     (case c of
        H_flag \<Rightarrow>
          Some (p\<lparr>ap_flag := True, ap_handler := (if ap_main p = A_init then None else Some (me, H_shut X_exchange))\<rparr>)
      | H_shut x \<Rightarrow>
          (if x = X_done then Some (p\<lparr>ap_handler := None\<rparr>)
           else map_option (\<lambda>(x', p'). p'\<lparr>ap_handler := Some (me, H_shut x')\<rparr>) (Shutdown_step me x p)))"

text \<open>\<open>Run\<close> builds the server and then, with \<open>cq_count\<close> queues, starts their threads. The last step
  is the destruction of \<open>g_server\<close>: \<open>~AsyncServer\<close> calls \<open>Shutdown\<close>, which was called before, and
  destroys the threads.\<close>

definition api_main_step :: "nat \<Rightarrow> api_proc \<Rightarrow> api_proc option" where
  "api_main_step cq_count p =
     (case ap_main p of
        A_init \<Rightarrow> Some (p\<lparr>ap_main := A_created\<rparr>)
      | A_created \<Rightarrow> Some (p\<lparr>ap_server := True, ap_main := A_built\<rparr>)
      | A_built \<Rightarrow> Some (p\<lparr>ap_threads := replicate cq_count True, ap_main := A_loop\<rparr>)
      | A_loop \<Rightarrow> if ap_flag p then Some (p\<lparr>ap_main := A_shut X_exchange\<rparr>) else None
      | A_shut x \<Rightarrow>
          (if x = X_done then Some (p\<lparr>ap_main := A_return\<rparr>)
           else map_option (\<lambda>(x', p'). p'\<lparr>ap_main := A_shut x'\<rparr>) (Shutdown_step 0 x p))
      | A_return \<Rightarrow>
          Some (if ap_joined p < length (ap_threads p) then p\<lparr>ap_crashed := True\<rparr> else p\<lparr>ap_main := A_exited\<rparr>)
      | A_exited \<Rightarrow> None)"

text \<open>\<open>may\<close> says when, and on which thread, a signal is handled. A thread whose queue was shut down
  drains it and returns.\<close>

inductive api_step :: "(api_pc \<Rightarrow> nat \<Rightarrow> bool) \<Rightarrow> nat \<Rightarrow> api_proc \<Rightarrow> api_proc \<Rightarrow> bool" for may n where
  signal: "\<not> ap_crashed p \<Longrightarrow> ap_main p \<noteq> A_exited \<Longrightarrow> ap_handler p = None \<Longrightarrow> may (ap_main p) t \<Longrightarrow>
    api_step may n p (p\<lparr>ap_handler := Some (t, H_flag)\<rparr>)"
| handler: "\<not> ap_crashed p \<Longrightarrow> ap_main p \<noteq> A_exited \<Longrightarrow> ap_handler p = Some (t, c) \<Longrightarrow> signal_handler t c p = Some p' \<Longrightarrow>
    api_step may n p p'"
| main: "\<not> ap_crashed p \<Longrightarrow> (\<forall>c. ap_handler p \<noteq> Some (0, c)) \<Longrightarrow> api_main_step n p = Some p' \<Longrightarrow> api_step may n p p'"
| queue: "\<not> ap_crashed p \<Longrightarrow> ap_main p \<noteq> A_exited \<Longrightarrow> i < length (ap_threads p) \<Longrightarrow> ap_threads p ! i \<Longrightarrow>
    ap_queues_down p \<Longrightarrow> (\<forall>c. ap_handler p \<noteq> Some (Suc i, c)) \<Longrightarrow>
    api_step may n p (p\<lparr>ap_threads := (ap_threads p)[i := False]\<rparr>)"

section \<open>The invariant when main handles the signals in its loop\<close>

definition joined_below :: "nat \<Rightarrow> api_proc \<Rightarrow> bool" where
  "joined_below k p \<longleftrightarrow> ap_joined p = k \<and> k \<le> length (ap_threads p) \<and> (\<forall>i < k. \<not> ap_threads p ! i)"

abbreviation all_joined :: "api_proc \<Rightarrow> bool" where
  "all_joined p \<equiv> joined_below (length (ap_threads p)) p"

text \<open>Between two calls of \<open>Shutdown\<close>, and at each point of one.\<close>

definition idle_ok :: "api_proc \<Rightarrow> bool" where
  "idle_ok p \<longleftrightarrow> (if ap_shutdown p then all_joined p else joined_below 0 p)"

fun shut_ok :: "shut_pc \<Rightarrow> api_proc \<Rightarrow> bool" where
  "shut_ok X_exchange p = idle_ok p"
| "shut_ok X_server p = (ap_shutdown p \<and> joined_below 0 p)"
| "shut_ok X_queues p = (ap_shutdown p \<and> joined_below 0 p)"
| "shut_ok (X_join k) p = (ap_shutdown p \<and> ap_queues_down p \<and> joined_below k p)"
| "shut_ok X_done p = (ap_shutdown p \<and> all_joined p)"

definition api_ok :: "api_proc \<Rightarrow> bool" where
  "api_ok p \<longleftrightarrow> \<not> ap_crashed p \<and>
     (case ap_handler p of
        Some (t, c) \<Rightarrow> t = 0 \<and> ap_main p = A_loop \<and> ap_server p \<and>
          (case c of H_flag \<Rightarrow> idle_ok p | H_shut x \<Rightarrow> ap_flag p \<and> shut_ok x p)
      | None \<Rightarrow>
          (case ap_main p of
             A_init \<Rightarrow> \<not> ap_shutdown p \<and> ap_threads p = [] \<and> ap_joined p = 0 \<and> \<not> ap_flag p
           | A_created \<Rightarrow> \<not> ap_shutdown p \<and> ap_threads p = [] \<and> ap_joined p = 0 \<and> \<not> ap_flag p
           | A_built \<Rightarrow> ap_server p \<and> \<not> ap_shutdown p \<and> ap_threads p = [] \<and> ap_joined p = 0 \<and> \<not> ap_flag p
           | A_loop \<Rightarrow> ap_server p \<and> idle_ok p
           | A_shut x \<Rightarrow> ap_server p \<and> ap_flag p \<and> shut_ok x p
           | A_return \<Rightarrow> all_joined p
           | A_exited \<Rightarrow> all_joined p))"

lemma Shutdown_step_ok:
  assumes "Shutdown_step 0 x p = Some (x', p')" "shut_ok x p" "ap_server p"
  shows "shut_ok x' p' \<and> ap_server p' \<and> ap_crashed p' = ap_crashed p \<and> ap_main p' = ap_main p \<and>
     ap_handler p' = ap_handler p \<and> ap_flag p' = ap_flag p"
  using assms
  by (cases x) (auto simp: joined_below_def idle_ok_def less_Suc_eq split: if_splits)

text \<open>A thread that returns leaves the joins as they are.\<close>

lemma joined_finish: "joined_below k p \<Longrightarrow> joined_below k (p\<lparr>ap_threads := (ap_threads p)[i := False]\<rparr>)"
  by (cases "i < length (ap_threads p)") (auto simp: joined_below_def nth_list_update)

lemma shut_finish: "shut_ok x p \<Longrightarrow> shut_ok x (p\<lparr>ap_threads := (ap_threads p)[i := False]\<rparr>)"
  using joined_finish by (cases x) (auto simp: idle_ok_def)

lemma api_step_ok:
  assumes "api_step (\<lambda>c t. c = A_loop \<and> t = 0) n p p'" "api_ok p"
  shows "api_ok p'"
  using assms(1)
proof cases
  case (signal t)
  then show ?thesis using assms(2) by (auto simp: api_ok_def idle_ok_def joined_below_def)
next
  case (handler t c)
  then have t: "t = 0" "ap_main p = A_loop" "ap_server p" using assms(2) by (auto simp: api_ok_def)
  show ?thesis
  proof (cases c)
    case H_flag
    then show ?thesis using handler assms(2) t
      by (auto simp: signal_handler_def api_ok_def idle_ok_def joined_below_def)
  next
    case (H_shut x)
    then have ok: "shut_ok x p" "ap_flag p" using handler assms(2) by (auto simp: api_ok_def)
    show ?thesis
    proof (cases "x = X_done")
      case True
      then show ?thesis using handler H_shut ok t assms(2)
        by (auto simp: signal_handler_def api_ok_def idle_ok_def joined_below_def)
    next
      case False
      then obtain x' p1 where x: "Shutdown_step 0 x p = Some (x', p1)" "p' = p1\<lparr>ap_handler := Some (0, H_shut x')\<rparr>"
        using handler H_shut t by (auto simp: signal_handler_def)
      have "shut_ok x' (p1\<lparr>ap_handler := h\<rparr>)" for h
        using Shutdown_step_ok [OF x(1) ok(1) t(3)] by (cases x') (auto simp: idle_ok_def joined_below_def)
      then show ?thesis using Shutdown_step_ok [OF x(1) ok(1) t(3)] x(2) t ok assms(2) by (simp add: api_ok_def)
    qed
  qed
next
  case main
  then have none: "ap_handler p = None" using assms(2) by (auto simp: api_ok_def split: option.splits)
  show ?thesis
  proof (cases "ap_main p")
    case (A_shut x)
    then have ok: "shut_ok x p" "ap_flag p" "ap_server p" using assms(2) none by (auto simp: api_ok_def)
    show ?thesis
    proof (cases "x = X_done")
      case True
      then show ?thesis using main A_shut ok none assms(2)
        by (auto simp: api_main_step_def api_ok_def joined_below_def)
    next
      case False
      then obtain x' p1 where x: "Shutdown_step 0 x p = Some (x', p1)" "p' = p1\<lparr>ap_main := A_shut x'\<rparr>"
        using main A_shut by (auto simp: api_main_step_def)
      have "shut_ok x' (p1\<lparr>ap_main := h\<rparr>)" for h
        using Shutdown_step_ok [OF x(1) ok(1) ok(3)] by (cases x') (auto simp: idle_ok_def joined_below_def)
      then show ?thesis using Shutdown_step_ok [OF x(1) ok(1,3)] x(2) ok none assms(2) by (simp add: api_ok_def)
    qed
  qed (use main none assms(2) in \<open>auto simp: api_main_step_def api_ok_def idle_ok_def joined_below_def split: if_splits\<close>)
next
  case (queue i)
  then show ?thesis using assms(2) joined_finish [of _ p i] shut_finish [of _ p i]
    by (auto simp: api_ok_def idle_ok_def split: option.splits api_pc.splits handler_pc.splits)
qed

lemma api_reach_ok:
  "(api_step (\<lambda>c t. c = A_loop \<and> t = 0) n)\<^sup>*\<^sup>* api_process p \<Longrightarrow> api_ok p"
proof (induction rule: rtranclp_induct)
  case base
  show ?case by (simp add: api_ok_def api_process_def)
qed (rule api_step_ok)

section \<open>The way to the exit\<close>

fun shut_left :: "shut_pc \<Rightarrow> nat" where
  "shut_left X_exchange = 5" | "shut_left X_server = 4" | "shut_left X_queues = 3" | "shut_left (X_join k) = 2"
| "shut_left X_done = 1"

fun handler_left :: "(nat \<times> handler_pc) option \<Rightarrow> nat" where
  "handler_left None = 0" | "handler_left (Some (t, H_flag)) = 6" | "handler_left (Some (t, H_shut x)) = shut_left x"

fun main_left :: "api_pc \<Rightarrow> nat" where
  "main_left (A_shut x) = 1 + shut_left x" | "main_left A_return = 1" | "main_left A_exited = 0" | "main_left c = 7"

lemma shut_left_bound: "shut_left x \<le> 5"
  by (cases x) auto

lemma main_left_bound: "main_left c \<le> 7"
proof (cases c)
  case (A_shut x)
  then show ?thesis using shut_left_bound [of x] by simp
qed auto

lemma handler_left_bound: "handler_left h \<le> 6"
proof (cases h rule: handler_left.cases)
  case (3 t x)
  then show ?thesis using shut_left_bound [of x] by simp
qed auto

definition api_left :: "api_proc \<Rightarrow> nat" where
  "api_left p = main_left (ap_main p) + handler_left (ap_handler p) + (length (ap_threads p) - ap_joined p) +
     length (filter (\<lambda>b. b) (ap_threads p))"

lemma running_finish:
  "i < length bs \<Longrightarrow> bs ! i \<Longrightarrow> length (filter (\<lambda>b. b) (bs[i := False])) < length (filter (\<lambda>b. b) bs)"
proof (induction bs arbitrary: i)
  case (Cons b bs)
  then show ?case by (cases i) auto
qed simp

lemma Shutdown_step_left:
  assumes "Shutdown_step 0 x p = Some (x', p')" "shut_ok x p"
  shows "shut_left x' + (length (ap_threads p') - ap_joined p') < shut_left x + (length (ap_threads p) - ap_joined p) \<and>
     ap_threads p' = ap_threads p"
  using assms by (cases x) (auto simp: joined_below_def split: if_splits)

text \<open>Once a signal was noticed, every step without further signals leads to the exit.\<close>

lemma flagged_step:
  assumes "api_step (\<lambda>_ _. False) n p p'" "api_ok p" "ap_flag p"
  shows "api_ok p' \<and> ap_flag p' \<and> api_left p' < api_left p"
proof -
  have "api_step (\<lambda>c t. c = A_loop \<and> t = 0) n p p'" using assms(1)
    by (cases rule: api_step.cases) (auto intro: handler main queue)
  then have ok: "api_ok p'" by (rule api_step_ok [OF _ assms(2)])
  from assms(1) have "ap_flag p' \<and> api_left p' < api_left p"
  proof cases
    case (handler t c)
    then have t: "t = 0" "ap_main p = A_loop" "ap_server p" using assms(2) by (auto simp: api_ok_def)
    show ?thesis
    proof (cases c)
      case H_flag
      then show ?thesis using handler t by (auto simp: signal_handler_def api_left_def)
    next
      case (H_shut x)
      then have "shut_ok x p" using handler assms(2) by (auto simp: api_ok_def)
      then show ?thesis
        using handler H_shut t assms(3) Shutdown_step_left [of x p] Shutdown_step_ok [of x p]
        by (cases "x = X_done") (force simp: signal_handler_def api_left_def)+
    qed
  next
    case main
    then have none: "ap_handler p = None" using assms(2) by (auto simp: api_ok_def split: option.splits)
    show ?thesis
    proof (cases "ap_main p")
      case (A_shut x)
      then have "shut_ok x p" "ap_server p" using assms(2) none by (auto simp: api_ok_def)
      then show ?thesis
        using main A_shut none assms(3) Shutdown_step_left [of x p] Shutdown_step_ok [of x p]
        by (cases "x = X_done") (force simp: api_main_step_def api_left_def)+
    qed (use main none assms(2,3) in \<open>auto simp: api_main_step_def api_ok_def api_left_def joined_below_def split: if_splits\<close>)
  next
    case (queue i)
    then show ?thesis using assms(3) running_finish [of i "ap_threads p"] by (simp add: api_left_def)
  qed simp
  with ok show ?thesis by blast
qed

lemma flagged_run:
  "((api_step (\<lambda>_ _. False) n) ^^ k) p q \<Longrightarrow> api_ok p \<Longrightarrow> ap_flag p \<Longrightarrow> k + api_left q \<le> api_left p \<and> api_ok q \<and> ap_flag q"
  using relpow_measure [of "api_step (\<lambda>_ _. False) n" "\<lambda>p. api_ok p \<and> ap_flag p" api_left k p q] flagged_step by blast

lemma Shutdown_waits:
  "Shutdown_step 0 x p = None \<Longrightarrow> x = X_done \<or> (\<exists>k. x = X_join k \<and> k < length (ap_threads p) \<and> ap_threads p ! k)"
  by (cases x) (auto split: if_splits)

lemma flagged_can_step:
  assumes "api_ok p" "ap_flag p" "ap_main p \<noteq> A_exited"
  shows "\<exists>p'. api_step (\<lambda>_ _. False) n p p'"
proof -
  have nc: "\<not> ap_crashed p" using assms(1) by (simp add: api_ok_def)
  have wait: "\<exists>p'. api_step (\<lambda>_ _. False) n p p'"
    if "Shutdown_step 0 x p = None" "x \<noteq> X_done" "shut_ok x p" "ap_handler p = None \<or> (\<exists>c. ap_handler p = Some (0, c))" for x
  proof -
    note wt = that
    obtain k where k: "x = X_join k" "k < length (ap_threads p)" "ap_threads p ! k" using Shutdown_waits wt(1,2) by blast
    have "ap_queues_down p" "\<forall>c. ap_handler p \<noteq> Some (Suc k, c)" using wt(3,4) k(1) by auto
    from queue [OF nc assms(3) k(2,3) this] show ?thesis by blast
  qed
  show ?thesis
  proof (cases "ap_handler p")
    case (Some tc)
    then obtain c where c: "ap_handler p = Some (0, c)" using assms(1) by (cases tc) (auto simp: api_ok_def)
    show ?thesis
    proof (cases "signal_handler 0 c p")
      case None
      then obtain x where "c = H_shut x" "x \<noteq> X_done" "Shutdown_step 0 x p = None"
        by (auto simp: signal_handler_def split: handler_pc.splits if_splits)
      then show ?thesis using wait c assms(1) by (auto simp: api_ok_def)
    next
      case (Some p')
      then show ?thesis using handler [OF nc assms(3) c] by blast
    qed
  next
    case None
    show ?thesis
    proof (cases "api_main_step n p")
      case Nm: None
      then obtain x where "ap_main p = A_shut x" "x \<noteq> X_done" "Shutdown_step 0 x p = None"
        using assms(2,3) by (auto simp: api_main_step_def split: api_pc.splits if_splits)
      then show ?thesis using wait None assms(1) by (auto simp: api_ok_def)
    next
      case (Some p')
      then show ?thesis using main [OF nc _ Some] None by auto
    qed
  qed
qed

section \<open>Runs\<close>

datatype api_act = Signal nat | Handle | Main | Queue nat

definition api_exec :: "(api_pc \<Rightarrow> nat \<Rightarrow> bool) \<Rightarrow> nat \<Rightarrow> api_act \<Rightarrow> api_proc \<Rightarrow> api_proc option" where
  "api_exec may n a p =
     (if ap_crashed p then None
      else case a of
        Signal t \<Rightarrow> if ap_main p \<noteq> A_exited \<and> ap_handler p = None \<and> may (ap_main p) t
                    then Some (p\<lparr>ap_handler := Some (t, H_flag)\<rparr>) else None
      | Handle \<Rightarrow> (case ap_handler p of None \<Rightarrow> None
                   | Some (t, c) \<Rightarrow> if ap_main p \<noteq> A_exited then signal_handler t c p else None)
      | Main \<Rightarrow> (case ap_handler p of Some (t, c) \<Rightarrow> if t = 0 then None else api_main_step n p
                 | None \<Rightarrow> api_main_step n p)
      | Queue i \<Rightarrow>
          if ap_main p \<noteq> A_exited \<and> i < length (ap_threads p) \<and> ap_threads p ! i \<and> ap_queues_down p \<and>
            (case ap_handler p of None \<Rightarrow> True | Some (t, c) \<Rightarrow> t \<noteq> Suc i)
          then Some (p\<lparr>ap_threads := (ap_threads p)[i := False]\<rparr>) else None)"

fun api_run :: "(api_pc \<Rightarrow> nat \<Rightarrow> bool) \<Rightarrow> nat \<Rightarrow> api_act list \<Rightarrow> api_proc \<Rightarrow> api_proc option" where
  "api_run may n [] p = Some p"
| "api_run may n (a # as) p = Option.bind (api_exec may n a p) (api_run may n as)"

lemma api_exec_step: "api_exec may n a p = Some p' \<Longrightarrow> api_step may n p p'"
  by (cases a) (auto simp: api_exec_def intro: signal handler main queue split: if_splits option.splits)

lemma api_run_reach: "api_run may n as p = Some p' \<Longrightarrow> (api_step may n)\<^sup>*\<^sup>* p p'"
proof (induction "as" arbitrary: p)
  case (Cons a as)
  then obtain p1 where "api_exec may n a p = Some p1" "api_run may n as p1 = Some p'"
    by (cases "api_exec may n a p") auto
  then show ?case using Cons.IH api_exec_step by (meson converse_rtranclp_into_rtranclp)
qed simp

abbreviation only :: "api_pc \<Rightarrow> nat \<Rightarrow> api_pc \<Rightarrow> nat \<Rightarrow> bool" where
  "only c t \<equiv> (\<lambda>c' t'. c' = c \<and> t' = t)"

lemma crash_reached:
  assumes "map_option ap_crashed (api_run may n as api_process) = Some True"
  shows "\<exists>p. (api_step may n)\<^sup>*\<^sup>* api_process p \<and> ap_crashed p"
  using assms api_run_reach by blast

lemma crashing_runs:
  "map_option ap_crashed (api_run (only A_created 0) 1 ([Main, Signal 0] @ replicate 3 Handle) api_process) = Some True"
  "map_option ap_crashed (api_run (only A_built 0) 1
     (replicate 2 Main @ [Signal 0] @ replicate 6 Handle @ replicate 5 Main) api_process) = Some True"
  "map_option ap_crashed (api_run (only A_loop 1) 1 (replicate 3 Main @ [Signal 1] @ replicate 5 Handle) api_process) = Some True"
  "map_option ap_crashed (api_run (only A_loop 2) 1
     (replicate 3 Main @ [Signal 2] @ replicate 2 Handle @ replicate 4 Main) api_process) = Some True"
  by code_simp+

definition clean_run :: "api_act list" where
  "clean_run = replicate 3 Main @ [Signal 0] @ replicate 4 Handle @ [Queue 0]"

lemma clean_run_flag:
  "map_option (\<lambda>p. (ap_flag p, ap_main p, ap_threads p)) (api_run (only A_loop 0) 1 clean_run api_process) =
     Some (True, A_loop, [False])"
  by code_simp

section \<open>Properties\<close>

text \<open>
  C37. A signal that main handles while it waits in its loop ends the server cleanly. The process
  never crashes; once the signal was noticed and no other follows, at most \<open>2 * n + 14\<close> steps remain
  for \<open>n\<close> queue threads, one of them is always possible until the process has exited, and by then
  every queue thread has returned and been joined.
\<close>

theorem signal_in_loop_exits_cleanly:
  assumes "(api_step (\<lambda>c t. c = A_loop \<and> t = 0) n)\<^sup>*\<^sup>* api_process p" "ap_flag p"
    and "((api_step (\<lambda>_ _. False) n) ^^ k) p q"
  shows "\<not> ap_crashed q \<and> k \<le> 2 * length (ap_threads p) + 14 \<and>
     (if ap_main q = A_exited then ap_joined q = length (ap_threads q) \<and> True \<notin> set (ap_threads q)
      else \<exists>q'. api_step (\<lambda>_ _. False) n q q')"
proof -
  have run: "k + api_left q \<le> api_left p" "api_ok q" "ap_flag q"
    using flagged_run [OF assms(3) api_reach_ok [OF assms(1)] assms(2)] by auto
  note main_left_bound [of "ap_main p"] handler_left_bound [of "ap_handler p"]
  moreover have "length (filter (\<lambda>b. b) (ap_threads p)) \<le> length (ap_threads p)" by simp
  ultimately have "api_left p \<le> 2 * length (ap_threads p) + 14" unfolding api_left_def by linarith
  moreover have "ap_joined q = length (ap_threads q) \<and> True \<notin> set (ap_threads q)" if "ap_main q = A_exited"
    using run(2) that by (auto simp: api_ok_def joined_below_def in_set_conv_nth split: option.splits)
  ultimately show ?thesis
    using run flagged_can_step [OF run(2,3), of n] by (auto simp: api_ok_def)
qed

theorem signal_in_loop_exits_cleanly_witness:
  "\<exists>p. (api_step (\<lambda>c t. c = A_loop \<and> t = 0) 1)\<^sup>*\<^sup>* api_process p \<and> ap_flag p \<and> ap_main p = A_loop \<and>
     (\<exists>q. api_step (\<lambda>_ _. False) 1 p q)"
proof -
  obtain p where p: "api_run (only A_loop 0) 1 clean_run api_process = Some p" "ap_flag p" "ap_main p = A_loop"
    using clean_run_flag by auto
  have "((api_step (\<lambda>_ _. False) 1) ^^ 0) p p" by simp
  from signal_in_loop_exits_cleanly [OF api_run_reach [OF p(1)] p(2) this] p(3) have "\<exists>q. api_step (\<lambda>_ _. False) 1 p q"
    by simp
  with api_run_reach [OF p(1)] p(2,3) show ?thesis by blast
qed

text \<open>
  A signal at another moment, or on another thread, can crash the server. Each of these can end
  in a crash: between the creation of the server object and \<open>Run\<close> (null server), in \<open>Run\<close> before
  the queue threads exist (they are never joined), on a queue thread (it joins itself), and on
  any other thread (main returns before the joins, since its own \<open>Shutdown\<close> returns at once).
\<close>

theorem signal_elsewhere_crashes:
  "(c, t) \<in> {(A_created, 0), (A_built, 0), (A_loop, 1), (A_loop, 2)} \<Longrightarrow>
   \<exists>p. (api_step (\<lambda>c' t'. c' = c \<and> t' = t) 1)\<^sup>*\<^sup>* api_process p \<and> ap_crashed p"
  using crashing_runs [THEN crash_reached] by auto

theorem signal_elsewhere_crashes_witness:
  "\<exists>p. (api_step (\<lambda>c' t'. c' = A_loop \<and> t' = 2) 1)\<^sup>*\<^sup>* api_process p \<and> ap_crashed p"
  using signal_elsewhere_crashes [of A_loop 2] by simp

end
