(* ===== verification/Worker_Main.thy ===== *)
theory Worker_Main
  imports Dts_Prelude
begin

text \<open>
  The life of the worker process: \<open>main\<close> and \<open>SignalHandler\<close> of \<open>src/worker/src/main.cpp\<close> with \<open>Start\<close>,
  \<open>Await\<close>, \<open>Stop\<close>, the heartbeat loop and the destructor of \<open>src/worker/src/worker_node.cpp\<close>. A signal
  is handled on some thread, which does nothing else meanwhile; thread 0 is main, thread 1 the
  heartbeat thread, the other numbers are the remaining threads. The process crashes when a thread
  joins itself and when the handle of a thread that was not joined is destroyed. What the service
  and the pool do in between is the subject of \<open>Worker_Node\<close>.
\<close>

section \<open>Stop\<close>

datatype stop_pc = S_test | S_clear | S_server | S_join | S_done
datatype heartbeat_pc = Hb_none | Hb_test | Hb_round | Hb_exited
datatype listen_state = L_unbuilt | L_listening | L_down

text \<open>\<open>M_new\<close>: the node exists and the handlers are installed; \<open>M_running\<close> to \<open>M_registered\<close> are the
  places in \<open>Start\<close>; \<open>M_stop\<close> is the destructor, which runs after main has returned.\<close>

datatype worker_pc = M_new | M_running | M_built | M_registered | M_await | M_stop stop_pc | M_exited | M_aborted

record worker_proc =
  wp_main :: worker_pc
  wp_handler :: "(nat \<times> stop_pc) option"
  wp_running :: bool
  wp_server :: listen_state
  wp_heartbeat :: heartbeat_pc
  wp_joined :: bool
  wp_crashed :: bool

definition worker_process :: worker_proc where
  "worker_process =
     \<lparr>wp_main = M_new, wp_handler = None, wp_running = False, wp_server = L_unbuilt, wp_heartbeat = Hb_none,
      wp_joined = False, wp_crashed = False\<rparr>"

text \<open>\<open>heartbeat_thread_.joinable()\<close>.\<close>

definition hb_joinable :: "worker_proc \<Rightarrow> bool" where
  "hb_joinable p \<longleftrightarrow> wp_heartbeat p \<noteq> Hb_none \<and> \<not> wp_joined p"

text \<open>One step of \<open>Stop\<close> on the thread \<open>me\<close>; \<open>None\<close> is a wait.\<close>

fun Stop_step :: "nat \<Rightarrow> stop_pc \<Rightarrow> worker_proc \<Rightarrow> (stop_pc \<times> worker_proc) option" where
  "Stop_step me S_test p = Some (if \<not> wp_running p then S_done else S_clear, p)"
| "Stop_step me S_clear p = Some (S_server, p\<lparr>wp_running := False\<rparr>)"
| "Stop_step me S_server p =
     Some (S_join, if wp_server p \<noteq> L_unbuilt then p\<lparr>wp_server := L_down\<rparr> else p)"
| "Stop_step me S_join p =
     (if \<not> hb_joinable p then Some (S_done, p)
      else if me = 1 then Some (S_done, p\<lparr>wp_crashed := True\<rparr>)
      else if wp_heartbeat p \<noteq> Hb_exited then None
      else Some (S_done, p\<lparr>wp_joined := True\<rparr>))"
| "Stop_step me S_done p = None"

section \<open>The handler, the heartbeat thread and main\<close>

definition SignalHandler :: "nat \<Rightarrow> stop_pc \<Rightarrow> worker_proc \<Rightarrow> worker_proc option" where
  "SignalHandler me x p =
     (if x = S_done then Some (p\<lparr>wp_handler := None\<rparr>)
      else map_option (\<lambda>(x', p'). p'\<lparr>wp_handler := Some (me, x')\<rparr>) (Stop_step me x p))"

definition heartbeat_step :: "worker_proc \<Rightarrow> worker_proc option" where
  "heartbeat_step p =
     (case wp_heartbeat p of
        Hb_test \<Rightarrow> Some (p\<lparr>wp_heartbeat := (if wp_running p then Hb_round else Hb_exited)\<rparr>)
      | Hb_round \<Rightarrow> Some (p\<lparr>wp_heartbeat := Hb_test\<rparr>)
      | _ \<Rightarrow> None)"

text \<open>\<open>ok\<close> is the result of the registration; when it fails the process aborts in \<open>LOG_FATAL\<close>. \<open>Await\<close>
  waits for the shutdown of the server.\<close>

definition worker_main_step :: "bool \<Rightarrow> worker_proc \<Rightarrow> worker_proc option" where
  "worker_main_step ok p =
     (case wp_main p of
        M_new \<Rightarrow> Some (if wp_running p then p\<lparr>wp_main := M_await\<rparr> else p\<lparr>wp_running := True, wp_main := M_running\<rparr>)
      | M_running \<Rightarrow> Some (p\<lparr>wp_server := L_listening, wp_main := M_built\<rparr>)
      | M_built \<Rightarrow> Some (p\<lparr>wp_main := if ok then M_registered else M_aborted\<rparr>)
      | M_registered \<Rightarrow> Some (p\<lparr>wp_heartbeat := Hb_test, wp_main := M_await\<rparr>)
      | M_await \<Rightarrow> if wp_server p = L_down then Some (p\<lparr>wp_main := M_stop S_test\<rparr>) else None
      | M_stop x \<Rightarrow>
          (if x = S_done then Some (if hb_joinable p then p\<lparr>wp_crashed := True\<rparr> else p\<lparr>wp_main := M_exited\<rparr>)
           else map_option (\<lambda>(x', p'). p'\<lparr>wp_main := M_stop x'\<rparr>) (Stop_step 0 x p))
      | M_exited \<Rightarrow> None
      | M_aborted \<Rightarrow> None)"

definition live :: "worker_proc \<Rightarrow> bool" where
  "live p \<longleftrightarrow> \<not> wp_crashed p \<and> wp_main p \<noteq> M_exited \<and> wp_main p \<noteq> M_aborted"

text \<open>\<open>may\<close> says when, and on which thread, a signal is handled.\<close>

inductive process_step :: "(worker_pc \<Rightarrow> nat \<Rightarrow> bool) \<Rightarrow> worker_proc \<Rightarrow> worker_proc \<Rightarrow> bool" for may where
  signal: "live p \<Longrightarrow> wp_handler p = None \<Longrightarrow> may (wp_main p) t \<Longrightarrow>
    (t = 1 \<Longrightarrow> wp_heartbeat p \<in> {Hb_test, Hb_round}) \<Longrightarrow> process_step may p (p\<lparr>wp_handler := Some (t, S_test)\<rparr>)"
| handler: "live p \<Longrightarrow> wp_handler p = Some (t, x) \<Longrightarrow> SignalHandler t x p = Some p' \<Longrightarrow> process_step may p p'"
| main: "live p \<Longrightarrow> (\<forall>x. wp_handler p \<noteq> Some (0, x)) \<Longrightarrow> worker_main_step ok p = Some p' \<Longrightarrow> process_step may p p'"
| heartbeat: "live p \<Longrightarrow> (\<forall>x. wp_handler p \<noteq> Some (1, x)) \<Longrightarrow> heartbeat_step p = Some p' \<Longrightarrow> process_step may p p'"

section \<open>Signals that main handles while it waits\<close>

definition up :: "worker_proc \<Rightarrow> bool" where
  "up p \<longleftrightarrow> wp_running p \<and> wp_server p = L_listening \<and> wp_heartbeat p \<in> {Hb_test, Hb_round} \<and> \<not> wp_joined p"

definition stopped :: "worker_proc \<Rightarrow> bool" where
  "stopped p \<longleftrightarrow> \<not> wp_running p \<and> wp_server p = L_down \<and> wp_heartbeat p = Hb_exited \<and> wp_joined p"

fun stop_ok :: "stop_pc \<Rightarrow> worker_proc \<Rightarrow> bool" where
  "stop_ok S_test p = (up p \<or> stopped p)"
| "stop_ok S_clear p = up p"
| "stop_ok S_server p = (\<not> wp_running p \<and> wp_server p = L_listening \<and> wp_heartbeat p \<noteq> Hb_none \<and> \<not> wp_joined p)"
| "stop_ok S_join p = (\<not> wp_running p \<and> wp_server p = L_down \<and> wp_heartbeat p \<noteq> Hb_none \<and> \<not> wp_joined p)"
| "stop_ok S_done p = stopped p"

definition starting :: "worker_proc \<Rightarrow> bool" where
  "starting p \<longleftrightarrow> wp_heartbeat p = Hb_none \<and> \<not> wp_joined p \<and> wp_handler p = None"

definition process_ok :: "worker_proc \<Rightarrow> bool" where
  "process_ok p \<longleftrightarrow> \<not> wp_crashed p \<and>
     (case wp_main p of
        M_new \<Rightarrow> starting p \<and> \<not> wp_running p \<and> wp_server p = L_unbuilt
      | M_running \<Rightarrow> starting p \<and> wp_running p \<and> wp_server p = L_unbuilt
      | M_built \<Rightarrow> starting p \<and> wp_running p \<and> wp_server p = L_listening
      | M_registered \<Rightarrow> starting p \<and> wp_running p \<and> wp_server p = L_listening
      | M_await \<Rightarrow> (case wp_handler p of None \<Rightarrow> up p \<or> stopped p | Some (t, x) \<Rightarrow> t = 0 \<and> stop_ok x p)
      | M_stop x \<Rightarrow> stopped p \<and> wp_handler p = None \<and> x \<in> {S_test, S_done}
      | M_exited \<Rightarrow> stopped p \<and> wp_handler p = None
      | M_aborted \<Rightarrow> True)"

lemmas proc_defs = process_ok_def up_def stopped_def starting_def live_def

lemma Stop_step_ok:
  assumes "Stop_step 0 x p = Some (x', p')" "stop_ok x p"
  shows "stop_ok x' p' \<and> wp_crashed p' = wp_crashed p \<and> wp_main p' = wp_main p \<and> wp_handler p' = wp_handler p"
  using assms by (cases x) (auto simp: up_def stopped_def hb_joinable_def split: if_splits)

lemma stop_ok_handler [simp]: "stop_ok x (p\<lparr>wp_handler := h\<rparr>) = stop_ok x p"
  by (cases x) (simp_all add: up_def stopped_def)

abbreviation in_await :: "worker_pc \<Rightarrow> nat \<Rightarrow> bool" where
  "in_await c t \<equiv> c = M_await \<and> t = 0"

lemma heartbeat_stop_ok: "heartbeat_step p = Some p' \<Longrightarrow> stop_ok x p \<Longrightarrow> stop_ok x p'"
  by (cases x) (auto simp: heartbeat_step_def up_def stopped_def split: heartbeat_pc.splits)

lemma process_step_ok:
  assumes "process_step in_await p p'" "process_ok p"
  shows "process_ok p'"
  using assms(1)
proof cases
  case (signal t)
  then show ?thesis using assms(2) by (auto simp: proc_defs)
next
  case (handler t x)
  then have t: "t = 0" "wp_main p = M_await" "stop_ok x p" using assms(2) by (auto simp: proc_defs split: worker_pc.splits)
  show ?thesis
  proof (cases "x = S_done")
    case True
    then show ?thesis using handler t assms(2) by (auto simp: SignalHandler_def proc_defs)
  next
    case False
    then obtain x' p1 where "Stop_step 0 x p = Some (x', p1)" "p' = p1\<lparr>wp_handler := Some (0, x')\<rparr>"
      using handler t by (auto simp: SignalHandler_def)
    then show ?thesis using Stop_step_ok [of x p x' p1] t assms(2) by (simp add: process_ok_def)
  qed
next
  case (main ok)
  then show ?thesis using assms(2)
    by (auto simp: worker_main_step_def proc_defs hb_joinable_def split: worker_pc.splits option.splits if_splits)
next
  case heartbeat
  have "wp_main p = M_await \<or> wp_heartbeat p = Hb_none \<or> wp_heartbeat p = Hb_exited"
    using assms(2) heartbeat(1) by (auto simp: proc_defs split: worker_pc.splits)
  moreover have keep: "wp_main p' = wp_main p \<and> wp_handler p' = wp_handler p \<and> wp_crashed p' = wp_crashed p"
    using heartbeat by (auto simp: heartbeat_step_def split: heartbeat_pc.splits)
  ultimately show ?thesis
    using heartbeat assms(2) heartbeat_stop_ok [OF heartbeat(3)] heartbeat_stop_ok [OF heartbeat(3), of S_test]
    by (auto simp: process_ok_def heartbeat_step_def split: option.splits)
qed

lemma process_reach_ok: "(process_step in_await)\<^sup>*\<^sup>* worker_process p \<Longrightarrow> process_ok p"
proof (induction rule: rtranclp_induct)
  case base
  show ?case by (simp add: proc_defs worker_process_def)
qed (rule process_step_ok)

section \<open>The way to the exit\<close>

fun stop_left :: "stop_pc \<Rightarrow> nat" where
  "stop_left S_test = 4" | "stop_left S_clear = 3" | "stop_left S_server = 2" | "stop_left S_join = 1" | "stop_left S_done = 0"

fun hb_left :: "heartbeat_pc \<Rightarrow> nat" where
  "hb_left Hb_round = 2" | "hb_left Hb_test = 1" | "hb_left _ = 0"

fun wmain_left :: "worker_pc \<Rightarrow> nat" where
  "wmain_left (M_stop x) = 1 + stop_left x" | "wmain_left M_await = 6" | "wmain_left _ = 0"

definition worker_left :: "worker_proc \<Rightarrow> nat" where
  "worker_left p = wmain_left (wp_main p) + hb_left (wp_heartbeat p) +
     (case wp_handler p of None \<Rightarrow> 0 | Some (t, x) \<Rightarrow> 1 + stop_left x)"

text \<open>Once \<open>running_\<close> was cleared.\<close>

definition ending :: "worker_proc \<Rightarrow> bool" where
  "ending p \<longleftrightarrow> process_ok p \<and> \<not> wp_running p \<and> wp_main p \<noteq> M_new \<and> wp_main p \<noteq> M_aborted"

lemma ending_step:
  assumes "process_step (\<lambda>_ _. False) p p'" "ending p"
  shows "ending p' \<and> worker_left p' < worker_left p"
proof -
  have "process_step in_await p p'" using assms(1) by (cases rule: process_step.cases) (auto intro: process_step.intros)
  then have ok: "process_ok p'" using assms(2) process_step_ok by (auto simp: ending_def)
  from assms(2) have e: "process_ok p" "\<not> wp_running p" "wp_main p = M_await \<or> (\<exists>x. wp_main p = M_stop x) \<or> wp_main p = M_exited"
    by (auto simp: ending_def proc_defs split: worker_pc.splits)
  from assms(1) have "\<not> wp_running p' \<and> wp_main p' \<noteq> M_new \<and> wp_main p' \<noteq> M_aborted \<and> worker_left p' < worker_left p"
  proof cases
    case (handler t x)
    then have t: "t = 0" "wp_main p = M_await" "stop_ok x p" using e by (auto simp: proc_defs)
    then show ?thesis using handler e(2)
      by (cases x) (auto simp: SignalHandler_def worker_left_def up_def split: if_splits)
  next
    case (main ok)
    then show ?thesis using e
      by (auto simp: worker_main_step_def worker_left_def proc_defs hb_joinable_def split: option.splits if_splits)
  next
    case heartbeat
    then show ?thesis using e(2,3)
      by (auto simp: heartbeat_step_def worker_left_def live_def split: heartbeat_pc.splits)
  qed simp
  with ok show ?thesis by (simp add: ending_def)
qed

lemma ending_can_step:
  assumes "ending p" "wp_main p \<noteq> M_exited"
  shows "\<exists>p'. process_step (\<lambda>_ _. False) p p'"
proof -
  from assms have e: "process_ok p" "\<not> wp_running p" "wp_main p = M_await \<or> (\<exists>x. wp_main p = M_stop x)" and l: "live p"
    by (auto simp: ending_def proc_defs split: worker_pc.splits)
  show ?thesis
  proof (cases "wp_handler p")
    case None
    then have "stopped p \<and> (wp_main p = M_await \<or> wp_main p = M_stop S_test \<or> wp_main p = M_stop S_done)"
      using e by (auto simp: proc_defs)
    then have "\<exists>p'. worker_main_step True p = Some p'"
      by (auto simp: worker_main_step_def stopped_def)
    then show ?thesis using main [OF l, of True] None by auto
  next
    case (Some tx)
    then obtain x where x: "wp_handler p = Some (0, x)" "stop_ok x p" "wp_main p = M_await"
      using e by (cases tx) (auto simp: proc_defs)
    show ?thesis
    proof (cases "SignalHandler 0 x p")
      case None
      then have "wp_heartbeat p = Hb_test \<or> wp_heartbeat p = Hb_round"
        using x(2) by (cases x; cases "wp_heartbeat p") (auto simp: SignalHandler_def hb_joinable_def split: if_splits)
      then have "\<exists>p'. heartbeat_step p = Some p'" by (auto simp: heartbeat_step_def)
      then show ?thesis using heartbeat [OF l] x(1) by auto
    next
      case (Some p')
      then show ?thesis using handler [OF l x(1)] by blast
    qed
  qed
qed

section \<open>Runs\<close>

datatype worker_act = Signal_on nat | Handle | Main_step | Heartbeat

definition worker_exec :: "(worker_pc \<Rightarrow> nat \<Rightarrow> bool) \<Rightarrow> worker_act \<Rightarrow> worker_proc \<Rightarrow> worker_proc option" where
  "worker_exec may a p =
     (if \<not> live p then None
      else (case a of
          Signal_on t \<Rightarrow>
            if wp_handler p = None \<and> may (wp_main p) t \<and> (t = 1 \<longrightarrow> wp_heartbeat p \<in> {Hb_test, Hb_round})
            then Some (p\<lparr>wp_handler := Some (t, S_test)\<rparr>) else None
        | Handle \<Rightarrow> (case wp_handler p of None \<Rightarrow> None | Some (t, x) \<Rightarrow> SignalHandler t x p)
        | Main_step \<Rightarrow> if map_option fst (wp_handler p) = Some 0 then None else worker_main_step True p
        | Heartbeat \<Rightarrow> if map_option fst (wp_handler p) = Some 1 then None else heartbeat_step p))"

fun worker_run :: "(worker_pc \<Rightarrow> nat \<Rightarrow> bool) \<Rightarrow> worker_act list \<Rightarrow> worker_proc \<Rightarrow> worker_proc option" where
  "worker_run may [] p = Some p"
| "worker_run may (a # as) p = Option.bind (worker_exec may a p) (worker_run may as)"

lemma worker_exec_step: "worker_exec may a p = Some p' \<Longrightarrow> process_step may p p'"
  by (cases a) (auto simp: worker_exec_def split: if_splits option.splits intro: process_step.intros)

lemma worker_run_reach: "worker_run may as p = Some p' \<Longrightarrow> (process_step may)\<^sup>*\<^sup>* p p'"
proof (induction as arbitrary: p)
  case (Cons a as)
  then obtain p1 where "worker_exec may a p = Some p1" "worker_run may as p1 = Some p'"
    by (auto simp: Option.bind_eq_Some_conv)
  with Cons.IH show ?case by (meson converse_rtranclp_into_rtranclp worker_exec_step)
qed simp

abbreviation only_at :: "worker_pc \<Rightarrow> nat \<Rightarrow> worker_pc \<Rightarrow> nat \<Rightarrow> bool" where
  "only_at c t \<equiv> \<lambda>c' t'. c' = c \<and> t' = t"

abbreviation start_up :: "nat \<Rightarrow> worker_act list" where
  "start_up k \<equiv> replicate k Main_step"

definition handled_run :: "nat \<Rightarrow> nat \<Rightarrow> nat \<Rightarrow> nat \<Rightarrow> worker_act list" where
  "handled_run before t handles rest = start_up before @ [Signal_on t] @ replicate handles Handle @ start_up rest"

lemma worker_crash_reached:
  "map_option wp_crashed (worker_run may as worker_process) = Some True \<Longrightarrow>
   \<exists>p. (process_step may)\<^sup>*\<^sup>* worker_process p \<and> wp_crashed p"
  using worker_run_reach by blast

lemma worker_crashing_runs:
  "map_option wp_crashed (worker_run (only_at M_built 0) (handled_run 2 0 5 5) worker_process) = Some True"
  "map_option wp_crashed (worker_run (only_at M_registered 0) (handled_run 3 0 5 4) worker_process) = Some True"
  "map_option wp_crashed (worker_run (only_at M_await 1) (handled_run 4 1 4 0) worker_process) = Some True"
  "map_option wp_crashed (worker_run (only_at M_await 2) (handled_run 4 2 3 3) worker_process) = Some True"
  by code_simp+

text \<open>A signal before the server was built.\<close>

definition deaf_run :: "worker_act list" where
  "deaf_run = handled_run 1 0 5 3 @ [Heartbeat]"

definition deaf :: "worker_proc \<Rightarrow> bool" where
  "deaf p \<longleftrightarrow> wp_main p = M_await \<and> wp_server p = L_listening \<and> wp_heartbeat p = Hb_exited \<and> \<not> wp_running p \<and>
     \<not> wp_crashed p \<and> (case wp_handler p of None \<Rightarrow> True | Some (t, x) \<Rightarrow> x \<in> {S_test, S_done})"

lemma deaf_reached: "map_option deaf (worker_run (only_at M_running 0) deaf_run worker_process) = Some True"
  by code_simp

lemma deaf_step: "process_step may p p' \<Longrightarrow> deaf p \<Longrightarrow> deaf p'"
  by (induction rule: process_step.induct)
    (auto simp: deaf_def SignalHandler_def worker_main_step_def heartbeat_step_def split: option.splits if_splits)

lemma deaf_for_ever: "(process_step may)\<^sup>*\<^sup>* p q \<Longrightarrow> deaf p \<Longrightarrow> deaf q"
  by (induction rule: rtranclp_induct) (auto dest: deaf_step)

definition clean_stop :: "worker_act list" where
  "clean_stop = handled_run 4 0 2 0"

lemma clean_stop_run:
  "map_option (\<lambda>p. (wp_main p, wp_running p)) (worker_run in_await clean_stop worker_process) = Some (M_await, False)"
  by code_simp

section \<open>Properties\<close>

text \<open>
  A signal that main handles while it waits ends the worker cleanly. The process never crashes;
  once \<open>running_\<close> was cleared and no other signal follows, at most 13 steps remain, one of them is
  always possible until the process has exited, and by then the server is down and the heartbeat
  thread has returned and been joined.
\<close>

theorem worker_signal_exits_cleanly:
  assumes "(process_step (\<lambda>c t. c = M_await \<and> t = 0))\<^sup>*\<^sup>* worker_process p" "wp_main p = M_await" "\<not> wp_running p"
    and "((process_step (\<lambda>_ _. False)) ^^ k) p q"
  shows "\<not> wp_crashed q \<and> k \<le> 13 \<and>
     (if wp_main q = M_exited then wp_server q = L_down \<and> wp_heartbeat q = Hb_exited \<and> wp_joined q
      else \<exists>q'. process_step (\<lambda>_ _. False) q q')"
proof -
  have e: "ending p" using process_reach_ok [OF assms(1)] assms(2,3) by (simp add: ending_def)
  have run: "k + worker_left q \<le> worker_left p" "ending q"
    using relpow_measure [of "process_step (\<lambda>_ _. False)" ending worker_left k p q] ending_step assms(4) e by blast+
  have "hb_left (wp_heartbeat p) \<le> 2" by (cases "wp_heartbeat p") auto
  moreover have "stop_left x \<le> 4" for x by (cases x) auto
  then have "(case wp_handler p of None \<Rightarrow> 0 | Some (t, x) \<Rightarrow> 1 + stop_left x) \<le> 5"
    by (auto split: option.split)
  ultimately have "worker_left p \<le> 13" using assms(2) by (simp add: worker_left_def)
  then show ?thesis using run ending_can_step [of q] by (auto simp: ending_def proc_defs)
qed

theorem worker_signal_exits_cleanly_witness:
  "\<exists>p q. (process_step (\<lambda>c t. c = M_await \<and> t = 0))\<^sup>*\<^sup>* worker_process p \<and> \<not> wp_running p \<and> process_step (\<lambda>_ _. False) p q"
proof -
  obtain p where p: "worker_run in_await clean_stop worker_process = Some p" "wp_main p = M_await" "\<not> wp_running p"
    using clean_stop_run by auto
  have "((process_step (\<lambda>_ _. False)) ^^ 0) p p" by simp
  from worker_signal_exits_cleanly [OF worker_run_reach [OF p(1)] p(2,3) this] p(2) worker_run_reach [OF p(1)] p(3)
  show ?thesis by auto
qed

text \<open>Handled in \<open>Start\<close> once the server listens, by the heartbeat thread or by any other thread, a signal
  can end in a crash: the heartbeat thread is started after the stop and never joined, joins itself,
  or is not joined yet when main returns.\<close>

theorem worker_signal_crashes:
  "(c, t) \<in> {(M_built, 0), (M_registered, 0), (M_await, 1), (M_await, 2)} \<Longrightarrow>
     \<exists>p. (process_step (\<lambda>c' t'. c' = c \<and> t' = t))\<^sup>*\<^sup>* worker_process p \<and> wp_crashed p"
  using worker_crashing_runs [THEN worker_crash_reached] by auto

text \<open>
  C39. A signal that main handles early in \<open>Start\<close>, between setting \<open>running_\<close> and building the server,
  makes the worker deaf: from then on, whatever happens, it listens and stays alive, sends no
  heartbeat, and no later signal, on whatever thread, ever stops it.
\<close>

theorem early_signal_deafens_worker:
  "\<exists>p. (process_step (\<lambda>c' t'. c' = M_running \<and> t' = 0))\<^sup>*\<^sup>* worker_process p \<and>
     (\<forall>q. (process_step (\<lambda>_ _. True))\<^sup>*\<^sup>* p q \<longrightarrow>
        wp_main q = M_await \<and> wp_server q = L_listening \<and> wp_heartbeat q = Hb_exited \<and> live q)"
proof -
  obtain p where p: "worker_run (only_at M_running 0) deaf_run worker_process = Some p" "deaf p" using deaf_reached by auto
  have "wp_main q = M_await \<and> wp_server q = L_listening \<and> wp_heartbeat q = Hb_exited \<and> live q"
    if "(process_step (\<lambda>_ _. True))\<^sup>*\<^sup>* p q" for q
    using deaf_for_ever [OF that p(2)] by (simp add: deaf_def live_def)
  with worker_run_reach [OF p(1)] show ?thesis by blast
qed

theorem early_signal_deafens_worker_witness:
  "\<exists>p. (process_step (\<lambda>c' t'. c' = M_running \<and> t' = 0))\<^sup>*\<^sup>* worker_process p \<and>
     live p \<and> wp_server p = L_listening \<and> wp_heartbeat p = Hb_exited"
  using early_signal_deafens_worker by blast

end
