(* ===== verification/Client_Lifecycle.thy ===== *)
theory Client_Lifecycle
  imports Grpc_Client
begin

text \<open>
  The life of a \<open>GrpcClient\<close> (\<open>src/client/src/grpc_client.cpp\<close>): its constructor, the polling thread
  that runs \<open>CompleteRpc\<close>, the coroutine calls that are under way, and its destructor, interleaved.
  Of gRPC the model uses that every started call puts one event on the completion queue, that
  \<open>AsyncNext\<close> returns the oldest event, times out only on an empty queue, and reports the shutdown
  only when the queue was shut down and nothing is left. The thread pool the constructor makes is
  used by nothing.
\<close>

section \<open>The client and its threads\<close>

type_synonym event = "nat \<times> bool \<times> grpc_status \<times> SubmitDagResponse"

datatype poll_pc = P_test | P_next | P_got event | P_exited
datatype client_pc = C_alive | C_queue | C_join | C_gone

text \<open>Call \<open>i\<close> is the \<open>i\<close>-th of \<open>cl_calls\<close>; \<open>cl_open\<close> are the calls that wait for their answer, and
  \<open>cl_answers\<close> remembers the answers gRPC has put on the queue.\<close>

record grpc_client =
  cl_main :: client_pc
  cl_shutdown :: bool
  cl_queue_down :: bool
  cl_poll :: poll_pc
  cl_events :: "event list"
  cl_calls :: "awaiter list"
  cl_open :: "nat list"
  cl_answers :: "nat \<Rightarrow> (bool \<times> grpc_status \<times> SubmitDagResponse) option"

definition GrpcClient :: grpc_client where
  "GrpcClient =
     \<lparr>cl_main = C_alive, cl_shutdown = False, cl_queue_down = False, cl_poll = P_test, cl_events = [],
      cl_calls = [], cl_open = [], cl_answers = (\<lambda>_. None)\<rparr>"

text \<open>A coroutine awaits \<open>submit_dag_co\<close>.\<close>

definition start_call :: "bool \<Rightarrow> grpc_client \<Rightarrow> grpc_client" where
  "start_call has_reader c =
     c\<lparr>cl_calls := cl_calls c @ [await_suspend has_reader GrpcAwaiter],
       cl_open := (if has_reader then cl_open c @ [length (cl_calls c)] else cl_open c)\<rparr>"

text \<open>gRPC hands the answer of a call over.\<close>

definition answer_call :: "event \<Rightarrow> grpc_client \<Rightarrow> grpc_client" where
  "answer_call e c =
     c\<lparr>cl_open := removeAll (fst e) (cl_open c), cl_events := cl_events c @ [e],
       cl_answers := (cl_answers c)(fst e := Some (snd e))\<rparr>"

text \<open>The next step of \<open>CompleteRpc\<close>; \<open>None\<close> when it has returned.\<close>

definition poll_step :: "grpc_client \<Rightarrow> grpc_client option" where
  "poll_step c =
     (case cl_poll c of
        P_test \<Rightarrow> Some (c\<lparr>cl_poll := (if cl_shutdown c then P_exited else P_next)\<rparr>)
      | P_next \<Rightarrow>
          Some (case cl_events c of
             e # es \<Rightarrow> c\<lparr>cl_events := es, cl_poll := P_got e\<rparr>
           | [] \<Rightarrow> c\<lparr>cl_poll := (if cl_queue_down c \<and> cl_open c = [] then P_exited else P_test)\<rparr>)
      | P_got (tag, ok, st, resp) \<Rightarrow>
          Some (c\<lparr>cl_calls := (cl_calls c)[tag := awaiter_Proceed ok st resp (cl_calls c ! tag)], cl_poll := P_test\<rparr>)
      | P_exited \<Rightarrow> None)"

text \<open>The destructor.\<close>

definition destroy_step :: "grpc_client \<Rightarrow> grpc_client option" where
  "destroy_step c =
     (case cl_main c of
        C_alive \<Rightarrow> Some (c\<lparr>cl_shutdown := True, cl_main := C_queue\<rparr>)
      | C_queue \<Rightarrow> Some (c\<lparr>cl_queue_down := True, cl_main := C_join\<rparr>)
      | C_join \<Rightarrow> if cl_poll c = P_exited then Some (c\<lparr>cl_main := C_gone\<rparr>) else None
      | C_gone \<Rightarrow> None)"

inductive other_step :: "grpc_client \<Rightarrow> grpc_client \<Rightarrow> bool" where
  call: "cl_main c = C_alive \<Longrightarrow> other_step c (start_call has_reader c)"
| answer: "fst e \<in> set (cl_open c) \<Longrightarrow> other_step c (answer_call e c)"
| destroy: "destroy_step c = Some c' \<Longrightarrow> other_step c c'"

definition client_step :: "grpc_client \<Rightarrow> grpc_client \<Rightarrow> bool" where
  "client_step c c' \<longleftrightarrow> cl_main c \<noteq> C_gone \<and> (poll_step c = Some c' \<or> other_step c c')"

section \<open>The invariant\<close>

fun in_hand :: "poll_pc \<Rightarrow> nat list" where
  "in_hand (P_got e) = [fst e]"
| "in_hand _ = []"

text \<open>The calls that were not resumed: unanswered, on the queue, or in the hands of the thread.\<close>

definition pending :: "grpc_client \<Rightarrow> nat list" where
  "pending c = cl_open c @ map fst (cl_events c) @ in_hand (cl_poll c)"

definition resumed :: "grpc_client \<Rightarrow> nat \<Rightarrow> nat" where
  "resumed c i = aw_resumed (cl_calls c ! i)"

text \<open>A call that was not resumed is as it was started; the outcome of another is the one \<open>co_submit\<close>
  gives for its answer.\<close>

definition call_ok :: "bool \<Rightarrow> awaiter \<Rightarrow> (bool \<times> grpc_status \<times> SubmitDagResponse) option \<Rightarrow> bool" where
  "call_ok waits a answer \<longleftrightarrow>
     (if waits then a = await_suspend True GrpcAwaiter
      else aw_resumed a = 1 \<and> co_submit (0 < aw_started a) answer = Some (await_resume a))"

definition handed_over :: "grpc_client \<Rightarrow> event list" where
  "handed_over c = cl_events c @ (case cl_poll c of P_got e \<Rightarrow> [e] | _ \<Rightarrow> [])"

lemma pending_alt: "pending c = cl_open c @ map fst (handed_over c)"
  by (simp add: pending_def handed_over_def split: poll_pc.split)

definition phase_ok :: "grpc_client \<Rightarrow> bool" where
  "phase_ok c \<longleftrightarrow> (cl_main c = C_alive \<longleftrightarrow> \<not> cl_shutdown c) \<and> (cl_queue_down c \<longrightarrow> cl_shutdown c) \<and>
     (cl_poll c = P_exited \<longrightarrow> cl_shutdown c) \<and> (cl_main c = C_gone \<longrightarrow> cl_poll c = P_exited)"

definition client_ok :: "grpc_client \<Rightarrow> bool" where
  "client_ok c \<longleftrightarrow> distinct (pending c) \<and> set (pending c) \<subseteq> {..< length (cl_calls c)} \<and>
     (\<forall>i < length (cl_calls c). call_ok (i \<in> set (pending c)) (cl_calls c ! i) (cl_answers c i)) \<and>
     (\<forall>e \<in> set (handed_over c). cl_answers c (fst e) = Some (snd e)) \<and> phase_ok c"

lemma suspend_simps [simp]:
  "aw_resumed (await_suspend True GrpcAwaiter) = 0" "aw_started (await_suspend True GrpcAwaiter) = 1"
  "aw_resumed (await_suspend False GrpcAwaiter) = 1" "aw_started (await_suspend False GrpcAwaiter) = 0"
  by (simp_all add: await_suspend_def GrpcAwaiter_def)

lemma Proceed_simps [simp]:
  "aw_resumed (awaiter_Proceed ok st resp a) = Suc (aw_resumed a)"
  "aw_started (awaiter_Proceed ok st resp a) = aw_started a"
  by (simp_all add: awaiter_Proceed_def Let_def)

lemma call_ok_simps [simp]:
  "call_ok True (await_suspend True GrpcAwaiter) x"
  "call_ok False (await_suspend False GrpcAwaiter) x"
  "call_ok False (awaiter_Proceed ok st resp (await_suspend True GrpcAwaiter)) (Some (ok, st, resp))"
  by (simp_all add: call_ok_def co_submit_def Let_def)

lemma call_ok_waits: "call_ok True a x \<Longrightarrow> a = await_suspend True GrpcAwaiter"
  by (simp add: call_ok_def)

lemma client_ok_call:
  assumes "client_ok c" "cl_main c = C_alive" shows "client_ok (start_call has_reader c)"
proof -
  let ?n = "length (cl_calls c)"
  have out: "?n \<notin> set (pending c)" using assms(1) by (auto simp: client_ok_def)
  have pend: "set (pending (start_call has_reader c)) = set (pending c) \<union> (if has_reader then {?n} else {})"
    "handed_over (start_call has_reader c) = handed_over c"
    by (auto simp: pending_alt start_call_def handed_over_def)
  have "distinct (pending (start_call has_reader c))"
    using assms(1) out by (auto simp: client_ok_def pending_alt start_call_def handed_over_def)
  moreover have "call_ok (i \<in> set (pending (start_call has_reader c))) (cl_calls (start_call has_reader c) ! i)
      (cl_answers (start_call has_reader c) i)" if "i < length (cl_calls (start_call has_reader c))" for i
    using assms(1) out pend(1) that
    by (cases "i = ?n") (auto simp: client_ok_def start_call_def nth_append less_Suc_eq)
  ultimately show ?thesis using assms pend
    by (auto simp: client_ok_def start_call_def phase_ok_def)
qed

lemma client_ok_answer:
  assumes "client_ok c" "fst e \<in> set (cl_open c)" shows "client_ok (answer_call e c)"
proof -
  have d: "distinct (pending c)" using assms(1) by (simp add: client_ok_def)
  have h: "set (handed_over (answer_call e c)) = insert e (set (handed_over c))"
    by (auto simp: handed_over_def answer_call_def)
  have pend: "set (pending (answer_call e c)) = set (pending c)" "distinct (pending (answer_call e c))"
    using assms(2) d by (auto simp: pending_def answer_call_def distinct_removeAll)
  have "call_ok (i \<in> set (pending (answer_call e c))) (cl_calls c ! i) (cl_answers (answer_call e c) i)"
    if "i < length (cl_calls c)" for i
  proof -
    have c: "call_ok (i \<in> set (pending c)) (cl_calls c ! i) (cl_answers c i)" using assms(1) that by (simp add: client_ok_def)
    show ?thesis
    proof (cases "i = fst e")
      case True
      then have "i \<in> set (pending c)" using assms(2) by (simp add: pending_def)
      then show ?thesis using c pend(1) by (simp add: call_ok_def)
    next
      case False
      then show ?thesis using c pend(1) by (simp add: answer_call_def)
    qed
  qed
  moreover have "fst e \<notin> fst ` set (handed_over c)" using assms(2) d by (auto simp: pending_alt)
  then have "cl_answers (answer_call e c) (fst x) = Some (snd x)" if "x \<in> set (handed_over (answer_call e c))" for x
  proof (cases "x = e")
    case False
    then have "x \<in> set (handed_over c)" using that h by simp
    moreover from this have "fst x \<noteq> fst e" using \<open>fst e \<notin> fst ` set (handed_over c)\<close> by (metis image_eqI)
    ultimately show ?thesis using assms(1) by (simp add: client_ok_def answer_call_def)
  qed (simp add: answer_call_def)
  moreover have "phase_ok (answer_call e c)" "cl_calls (answer_call e c) = cl_calls c"
    using assms(1) by (simp_all add: client_ok_def phase_ok_def answer_call_def)
  ultimately show ?thesis using assms(1) pend by (simp add: client_ok_def)
qed

lemma client_ok_Proceed:
  assumes "client_ok c" "cl_poll c = P_got (tag, ok, st, resp)"
  shows "client_ok (c\<lparr>cl_calls := (cl_calls c)[tag := awaiter_Proceed ok st resp (cl_calls c ! tag)], cl_poll := P_test\<rparr>)"
proof -
  define c1 where "c1 = c\<lparr>cl_calls := (cl_calls c)[tag := awaiter_Proceed ok st resp (cl_calls c ! tag)], cl_poll := P_test\<rparr>"
  have h: "handed_over c = handed_over c1 @ [(tag, ok, st, resp)]" using assms(2) by (simp add: handed_over_def c1_def)
  moreover have "cl_open c1 = cl_open c" by (simp add: c1_def)
  ultimately have p: "pending c = pending c1 @ [tag]" by (simp add: pending_alt)
  have t: "tag \<notin> set (pending c1)" "tag < length (cl_calls c)" "cl_answers c tag = Some (ok, st, resp)"
    "call_ok True (cl_calls c ! tag) (cl_answers c tag)"
    using assms(1) h p unfolding client_ok_def by auto
  have a: "cl_calls c ! tag = await_suspend True GrpcAwaiter" by (rule call_ok_waits [OF t(4)])
  have "call_ok (i \<in> set (pending c1)) (cl_calls c1 ! i) (cl_answers c i)" if "i < length (cl_calls c)" for i
  proof (cases "i = tag")
    case True
    then show ?thesis using t a by (simp add: c1_def)
  next
    case False
    moreover have "call_ok (i \<in> set (pending c)) (cl_calls c ! i) (cl_answers c i)" using assms(1) that by (simp add: client_ok_def)
    ultimately show ?thesis using p by (simp add: c1_def)
  qed
  moreover have "distinct (pending c1)" "set (pending c1) \<subseteq> {..< length (cl_calls c)}"
    "\<forall>e \<in> set (handed_over c1). cl_answers c (fst e) = Some (snd e)"
    using assms(1) h p by (simp_all add: client_ok_def)
  moreover have "phase_ok c1" using assms by (simp add: client_ok_def phase_ok_def c1_def)
  moreover have "length (cl_calls c1) = length (cl_calls c)" "cl_answers c1 = cl_answers c" by (simp_all add: c1_def)
  ultimately have "client_ok c1" by (simp add: client_ok_def)
  then show ?thesis by (simp only: c1_def)
qed

lemma client_ok_poll:
  assumes "client_ok c" "poll_step c = Some c'" shows "client_ok c'"
proof (cases "cl_poll c")
  case P_test
  then have "pending c' = pending c" "handed_over c' = handed_over c" "cl_calls c' = cl_calls c" "cl_answers c' = cl_answers c"
    "phase_ok c'"
    using assms by (auto simp: poll_step_def pending_def handed_over_def client_ok_def phase_ok_def)
  then show ?thesis using assms(1) by (simp add: client_ok_def)
next
  case P_next
  have ph: "phase_ok c" using assms(1) by (simp add: client_ok_def)
  show ?thesis
  proof (cases "cl_events c")
    case Nil
    then have c': "c' = c\<lparr>cl_poll := (if cl_queue_down c \<and> cl_open c = [] then P_exited else P_test)\<rparr>"
      using assms(2) P_next by (simp add: poll_step_def)
    then have "pending c' = pending c" "handed_over c' = handed_over c" using P_next Nil by (auto simp: pending_def handed_over_def)
    moreover have "phase_ok c'" using ph P_next by (auto simp: c' phase_ok_def)
    ultimately show ?thesis using assms(1) by (simp add: client_ok_def c')
  next
    case (Cons e es)
    then have c': "c' = c\<lparr>cl_events := es, cl_poll := P_got e\<rparr>" using assms(2) P_next by (simp add: poll_step_def)
    have "set (pending c') = set (pending c)" "distinct (pending c) \<longrightarrow> distinct (pending c')"
      "set (handed_over c') = set (handed_over c)"
      using P_next Cons by (auto simp: c' pending_def handed_over_def)
    moreover have "phase_ok c'" using ph P_next by (simp add: c' phase_ok_def)
    ultimately show ?thesis using assms(1) by (simp add: client_ok_def c')
  qed
next
  case (P_got e)
  then show ?thesis using assms client_ok_Proceed by (cases e) (auto simp: poll_step_def)
qed (use assms in \<open>simp add: poll_step_def\<close>)

lemma client_ok_destroy:
  assumes "client_ok c" "destroy_step c = Some c'" shows "client_ok c'"
proof -
  have "phase_ok c" using assms(1) by (simp add: client_ok_def)
  then have "pending c' = pending c" "handed_over c' = handed_over c" "cl_calls c' = cl_calls c" "cl_answers c' = cl_answers c"
    "phase_ok c'"
    using assms(2) by (cases "cl_main c"; auto simp: destroy_step_def pending_def handed_over_def phase_ok_def split: if_splits)+
  then show ?thesis using assms(1) by (simp add: client_ok_def)
qed

lemma client_ok_other: "other_step c c' \<Longrightarrow> client_ok c \<Longrightarrow> client_ok c'"
  by (induction rule: other_step.induct) (auto intro: client_ok_call client_ok_answer client_ok_destroy)

lemma client_ok_step: "client_step c c' \<Longrightarrow> client_ok c \<Longrightarrow> client_ok c'"
  unfolding client_step_def using client_ok_other client_ok_poll by blast

lemma client_reach_ok: "client_step\<^sup>*\<^sup>* GrpcClient c \<Longrightarrow> client_ok c"
proof (induction rule: rtranclp_induct)
  case base
  show ?case by (simp add: client_ok_def pending_def handed_over_def phase_ok_def GrpcClient_def)
qed (rule client_ok_step)

section \<open>Answers reach their calls\<close>

text \<open>Steps of the thread until call \<open>i\<close> is resumed, when its answer is there.\<close>

fun place_of :: "nat \<Rightarrow> event list \<Rightarrow> nat" where
  "place_of i [] = 0"
| "place_of i (e # es) = (if fst e = i then 0 else Suc (place_of i es))"

definition answered :: "grpc_client \<Rightarrow> nat \<Rightarrow> bool" where
  "answered c i \<longleftrightarrow> i \<in> fst ` set (handed_over c)"

definition polls_left :: "nat \<Rightarrow> grpc_client \<Rightarrow> nat" where
  "polls_left i c =
     (if \<not> answered c i then 0
      else (case cl_poll c of
          P_got e \<Rightarrow> if fst e = i then 1 else 3 * place_of i (cl_events c) + 4
        | P_test \<Rightarrow> 3 * place_of i (cl_events c) + 3
        | P_next \<Rightarrow> 3 * place_of i (cl_events c) + 2
        | P_exited \<Rightarrow> 0))"

lemma place_of_append: "i \<in> fst ` set es \<Longrightarrow> place_of i (es @ es') = place_of i es"
  by (induction es) auto

lemma place_of_less: "i \<in> fst ` set es \<Longrightarrow> place_of i es < length es"
  by (induction es) auto

lemma polls_left_cong:
  "cl_poll c' = cl_poll c \<Longrightarrow> cl_events c' = cl_events c \<Longrightarrow>
   polls_left i c' = polls_left i c \<and> answered c' i = answered c i"
  by (cases "cl_poll c") (simp_all add: polls_left_def answered_def handed_over_def)

lemma destroy_step_keeps:
  "destroy_step c = Some c' \<Longrightarrow> cl_poll c' = cl_poll c \<and> cl_events c' = cl_events c \<and> cl_calls c' = cl_calls c \<and>
     cl_open c' = cl_open c \<and> cl_answers c' = cl_answers c"
  by (cases "cl_main c") (auto simp: destroy_step_def split: if_splits)

lemma polls_left_other:
  assumes "other_step c c'" "answered c i"
  shows "polls_left i c' = polls_left i c \<and> answered c' i"
  using assms
proof (induction rule: other_step.induct)
  case (call c has_reader)
  then show ?case using polls_left_cong [of "start_call has_reader c" c i] by (simp add: start_call_def)
next
  case (answer e c)
  then show ?case
    by (cases "cl_poll c") (auto simp: polls_left_def answered_def handed_over_def answer_call_def
        intro!: place_of_append intro: rev_image_eqI)
next
  case (destroy c c')
  then show ?case using polls_left_cong [of c' c i] destroy_step_keeps by simp
qed

lemma polls_left_poll:
  assumes "poll_step c = Some c'" "client_ok c" "\<not> cl_shutdown c" "answered c i"
  shows "polls_left i c = Suc (polls_left i c') \<and> (polls_left i c' = 0 \<or> answered c' i)"
proof (cases "cl_poll c")
  case P_test
  then show ?thesis using assms by (auto simp: poll_step_def polls_left_def answered_def handed_over_def)
next
  case P_next
  then obtain e es where e: "cl_events c = e # es" using assms(4) by (cases "cl_events c") (auto simp: answered_def handed_over_def)
  then have "c' = c\<lparr>cl_events := es, cl_poll := P_got e\<rparr>" using assms(1) P_next by (simp add: poll_step_def)
  then show ?thesis using P_next e assms(4) by (auto simp: polls_left_def answered_def handed_over_def)
next
  case (P_got e)
  obtain tag ok st resp where t: "e = (tag, ok, st, resp)" by (cases e) auto
  have c': "cl_events c' = cl_events c" "cl_poll c' = P_test" using assms(1) P_got t by (auto simp: poll_step_def)
  have "fst e \<notin> fst ` set (cl_events c)" using assms(2) P_got by (auto simp: client_ok_def pending_def)
  then show ?thesis using P_got c' assms(4) by (auto simp: polls_left_def answered_def handed_over_def)
qed (use assms in \<open>simp add: poll_step_def\<close>)

text \<open>A turn of the thread, after anything else has happened.\<close>

definition poll_turn :: "grpc_client \<Rightarrow> grpc_client \<Rightarrow> bool" where
  "poll_turn c c' \<longleftrightarrow> (\<exists>c1. (\<lambda>x y. other_step x y \<and> \<not> cl_shutdown y)\<^sup>*\<^sup>* c c1 \<and> poll_step c1 = Some c')"

lemma others_keep:
  assumes "(\<lambda>x y. other_step x y \<and> \<not> cl_shutdown y)\<^sup>*\<^sup>* c c1" "client_ok c" "\<not> cl_shutdown c"
  shows "client_ok c1 \<and> \<not> cl_shutdown c1 \<and>
     (answered c i \<longrightarrow> polls_left i c1 = polls_left i c \<and> answered c1 i)"
  using assms
proof (induction rule: rtranclp_induct)
  case (step y z)
  then show ?case using polls_left_other [of y z i] client_ok_other [of y z] by simp
qed simp

lemma poll_keeps_shutdown: "poll_step c = Some c' \<Longrightarrow> cl_shutdown c' = cl_shutdown c"
  by (auto simp: poll_step_def split: poll_pc.splits list.splits)

lemma turn_keeps:
  assumes "poll_turn c c'" "client_ok c" "\<not> cl_shutdown c"
  shows "client_ok c' \<and> \<not> cl_shutdown c' \<and>
     (answered c i \<longrightarrow>
        polls_left i c = Suc (polls_left i c') \<and> (polls_left i c' = 0 \<or> answered c' i))"
proof -
  obtain c1 where c1: "(\<lambda>x y. other_step x y \<and> \<not> cl_shutdown y)\<^sup>*\<^sup>* c c1" "poll_step c1 = Some c'"
    using assms(1) by (auto simp: poll_turn_def)
  have k: "client_ok c1" "\<not> cl_shutdown c1" "answered c i \<longrightarrow> polls_left i c1 = polls_left i c \<and> answered c1 i"
    using others_keep [OF c1(1) assms(2,3), of i] by auto
  then show ?thesis
    using polls_left_poll [OF c1(2) k(1,2), of i] client_ok_poll [OF k(1) c1(2)] poll_keeps_shutdown [OF c1(2)] by auto
qed

lemma polls_left_pos:
  "client_ok c \<Longrightarrow> \<not> cl_shutdown c \<Longrightarrow> answered c i \<Longrightarrow> 0 < polls_left i c"
  by (auto simp: polls_left_def client_ok_def phase_ok_def split: poll_pc.split)

text \<open>A call that is not open any more.\<close>

definition closed :: "grpc_client \<Rightarrow> nat \<Rightarrow> bool" where
  "closed c i \<longleftrightarrow> i < length (cl_calls c) \<and> i \<notin> set (cl_open c)"

definition settles :: "nat \<Rightarrow> grpc_client \<Rightarrow> grpc_client \<Rightarrow> bool" where
  "settles i c c' \<longleftrightarrow> closed c' i \<and> (cl_answers c i \<noteq> None \<longrightarrow> cl_answers c' i = cl_answers c i) \<and>
     (\<not> answered c i \<longrightarrow> \<not> answered c' i)"

lemma settles_other: "other_step c c' \<Longrightarrow> closed c i \<Longrightarrow> settles i c c'"
proof (induction rule: other_step.induct)
  case (answer e c)
  then show ?case by (cases "cl_poll c") (auto simp: settles_def closed_def answered_def handed_over_def answer_call_def)
next
  case (destroy c c')
  then show ?case using destroy_step_keeps [of c c'] polls_left_cong [of c' c i] by (simp add: settles_def closed_def)
qed (auto simp: settles_def closed_def answered_def handed_over_def start_call_def)

lemma settles_poll: "poll_step c = Some c' \<Longrightarrow> closed c i \<Longrightarrow> settles i c c'"
  by (auto simp: settles_def closed_def answered_def handed_over_def poll_step_def
      split: poll_pc.splits list.splits if_splits)

lemma settles_trans: "settles i c c1 \<Longrightarrow> settles i c1 c' \<Longrightarrow> settles i c c'"
  by (auto simp: settles_def)

lemma settles_turn:
  assumes "poll_turn c c'" "closed c i" shows "settles i c c'"
proof -
  obtain c1 where c1: "(\<lambda>x y. other_step x y \<and> \<not> cl_shutdown y)\<^sup>*\<^sup>* c c1" "poll_step c1 = Some c'"
    using assms(1) by (auto simp: poll_turn_def)
  have "settles i c c1" using c1(1)
  proof (induction rule: rtranclp_induct)
    case base
    show ?case using assms(2) by (simp add: settles_def)
  next
    case (step y z)
    then show ?case using settles_other [of y z i] settles_trans by (auto simp: settles_def)
  qed
  moreover from this have "settles i c1 c'" using settles_poll [OF c1(2)] by (simp add: settles_def)
  ultimately show ?thesis by (rule settles_trans)
qed

lemma turns_resume:
  assumes "(poll_turn ^^ k) c c'" "client_ok c" "\<not> cl_shutdown c" "closed c i" "answered c i \<longrightarrow> polls_left i c \<le> n"
  shows "client_ok c' \<and> \<not> cl_shutdown c' \<and> settles i c c' \<and> (answered c' i \<longrightarrow> polls_left i c' + k \<le> n)"
  using assms
proof (induction k arbitrary: c')
  case 0
  then show ?case by (simp add: settles_def)
next
  case (Suc k)
  then obtain c1 where c1: "(poll_turn ^^ k) c c1" "poll_turn c1 c'" by auto
  note IH = Suc.IH [OF c1(1) Suc.prems(2-5)]
  then have ok: "client_ok c1" "\<not> cl_shutdown c1" "closed c1 i" by (auto simp: settles_def)
  have s: "settles i c1 c'" by (rule settles_turn [OF c1(2) ok(3)])
  have "answered c' i \<longrightarrow> polls_left i c' + Suc k \<le> n"
    using IH s turn_keeps [OF c1(2) ok(1,2), of i] by (auto simp: settles_def)
  moreover have "settles i c c'" using IH s settles_trans by blast
  ultimately show ?case using turn_keeps [OF c1(2) ok(1,2), of i] by simp
qed

lemma closed_outcome:
  assumes "client_ok c" "closed c i" "\<not> answered c i"
  shows "aw_resumed (cl_calls c ! i) = 1 \<and>
     co_submit (0 < aw_started (cl_calls c ! i)) (cl_answers c i) = Some (await_resume (cl_calls c ! i))"
proof -
  have "i \<notin> set (pending c)" using assms(2,3) by (simp add: closed_def answered_def pending_alt)
  then show ?thesis using assms(1,2) by (auto simp: client_ok_def call_ok_def closed_def)
qed

lemma place_of_nth: "j < length es \<Longrightarrow> place_of (fst (es ! j)) es \<le> j"
proof (induction es arbitrary: j)
  case (Cons e es)
  then show ?case by (cases j) auto
qed simp

lemma event_answered:
  assumes "client_ok c" "j < length (cl_events c)"
  shows "answered c (fst (cl_events c ! j))" "closed c (fst (cl_events c ! j))"
    "cl_answers c (fst (cl_events c ! j)) = Some (snd (cl_events c ! j))"
    "polls_left (fst (cl_events c ! j)) c \<le> 3 * j + 4"
proof -
  let ?e = "cl_events c ! j"
  have m: "?e \<in> set (handed_over c)" using assms(2) by (simp add: handed_over_def)
  then show "answered c (fst ?e)" by (simp add: answered_def)
  show "cl_answers c (fst ?e) = Some (snd ?e)" using assms(1) m by (simp add: client_ok_def)
  have "fst ?e \<in> set (pending c)" "fst ?e \<notin> set (cl_open c)" using m assms(1) by (auto simp: client_ok_def pending_alt)
  then show "closed c (fst ?e)" using assms(1) by (auto simp: client_ok_def closed_def)
  have "place_of (fst ?e) (cl_events c) \<le> j" by (rule place_of_nth [OF assms(2)])
  then show "polls_left (fst ?e) c \<le> 3 * j + 4" by (auto simp: polls_left_def split: poll_pc.split)
qed

lemma poll_can_turn: "client_ok c \<Longrightarrow> \<not> cl_shutdown c \<Longrightarrow> \<exists>c'. poll_turn c c'"
proof -
  assume "client_ok c" "\<not> cl_shutdown c"
  then have "cl_poll c \<noteq> P_exited" by (auto simp: client_ok_def phase_ok_def)
  then have "\<exists>c'. poll_step c = Some c'" by (auto simp: poll_step_def split: poll_pc.split)
  then show ?thesis unfolding poll_turn_def by (meson rtranclp.rtrancl_refl)
qed

section \<open>The destructor\<close>

definition resumptions :: "grpc_client \<Rightarrow> nat" where
  "resumptions c = sum_list (map aw_resumed (cl_calls c))"

fun still_due :: "poll_pc \<Rightarrow> nat" where
  "still_due P_next = 1" | "still_due (P_got e) = 1" | "still_due _ = 0"

lemma resumptions_set:
  "i < length xs \<Longrightarrow> aw_resumed y = Suc (aw_resumed (xs ! i)) \<Longrightarrow>
   sum_list (map aw_resumed (xs[i := y])) = Suc (sum_list (map aw_resumed xs))"
proof (induction xs arbitrary: i)
  case (Cons x xs)
  then show ?case by (cases i) auto
qed simp

lemma shutdown_step_due:
  assumes "client_step c c'" "client_ok c" "cl_shutdown c"
  shows "client_ok c' \<and> cl_shutdown c' \<and> resumptions c' + still_due (cl_poll c') \<le> resumptions c + still_due (cl_poll c)"
proof -
  have ok: "client_ok c'" by (rule client_ok_step [OF assms(1,2)])
  have dead: "cl_main c \<noteq> C_alive" using assms(2,3) by (auto simp: client_ok_def phase_ok_def)
  have "cl_shutdown c' \<and> resumptions c' + still_due (cl_poll c') \<le> resumptions c + still_due (cl_poll c)"
  proof (cases "poll_step c = Some c'")
    case True
    show ?thesis
    proof (cases "cl_poll c")
      case (P_got e)
      obtain tag ok st resp where e: "e = (tag, ok, st, resp)" by (cases e) auto
      have "tag < length (cl_calls c)" using assms(2) P_got e by (auto simp: client_ok_def pending_def)
      moreover have "c' = c\<lparr>cl_calls := (cl_calls c)[tag := awaiter_Proceed ok st resp (cl_calls c ! tag)], cl_poll := P_test\<rparr>"
        using True P_got e by (simp add: poll_step_def)
      ultimately show ?thesis using P_got assms(3) by (simp add: resumptions_def resumptions_set)
    qed (use True assms(3) in \<open>auto simp: poll_step_def resumptions_def split: list.splits\<close>)
  next
    case False
    then have "other_step c c'" using assms(1) by (simp add: client_step_def)
    then show ?thesis
    proof cases
      case (answer e)
      then show ?thesis using assms(3) by (simp add: answer_call_def resumptions_def)
    next
      case destroy
      then show ?thesis using assms(3) dead by (cases "cl_main c") (auto simp: destroy_step_def resumptions_def split: if_splits)
    qed (use dead in simp)
  qed
  with ok show ?thesis by simp
qed

lemma shutdown_run_due:
  assumes "client_step\<^sup>*\<^sup>* c d" "client_ok c" "cl_shutdown c"
  shows "client_ok d \<and> cl_shutdown d \<and> resumptions d + still_due (cl_poll d) \<le> resumptions c + still_due (cl_poll c)"
  using assms
proof (induction rule: rtranclp_induct)
  case (step y z)
  then show ?case using shutdown_step_due [of y z] by simp
qed simp

section \<open>A run into the destructor\<close>

text \<open>Two calls are answered when the destructor begins; the thread is about to test the flag.\<close>

abbreviation accepted :: "nat \<Rightarrow> event" where
  "accepted i \<equiv> (i, True, GrpcOK, new_SubmitDagResponse)"

definition two_answered :: grpc_client where
  "two_answered = answer_call (accepted 1) (answer_call (accepted 0) (start_call True (start_call True GrpcClient)))"

lemma two_answered_reached: "client_step\<^sup>*\<^sup>* GrpcClient two_answered"
proof -
  let ?a = "start_call True GrpcClient"
  let ?b = "start_call True ?a"
  let ?c = "answer_call (accepted 0) ?b"
  have go: "client_step c (start_call True c)" if "cl_main c = C_alive" for c
    using that other_step.call by (simp add: client_step_def)
  have reply: "client_step c (answer_call e c)" if "fst e \<in> set (cl_open c)" "cl_main c = C_alive" for e c
    using that other_step.answer by (simp add: client_step_def)
  have "client_step GrpcClient ?a" by (rule go) (simp add: GrpcClient_def)
  moreover have "client_step ?a ?b" by (rule go) (simp add: start_call_def GrpcClient_def)
  moreover have "client_step ?b ?c" by (rule reply) (simp_all add: start_call_def GrpcClient_def)
  moreover have "client_step ?c two_answered"
    unfolding two_answered_def by (rule reply) (simp_all add: start_call_def answer_call_def GrpcClient_def)
  ultimately show ?thesis by (meson converse_rtranclp_into_rtranclp rtranclp.rtrancl_refl)
qed

definition destroying :: grpc_client where
  "destroying = two_answered\<lparr>cl_shutdown := True, cl_main := C_queue\<rparr>"

definition destroyed :: grpc_client where
  "destroyed = destroying\<lparr>cl_queue_down := True, cl_poll := P_exited, cl_main := C_gone\<rparr>"

lemmas two_answered_defs = two_answered_def start_call_def answer_call_def GrpcClient_def

lemma destroying_reached: "client_step\<^sup>*\<^sup>* GrpcClient destroying" "client_step\<^sup>*\<^sup>* destroying destroyed"
proof -
  have "client_step two_answered destroying"
    by (auto intro!: other_step.destroy simp: client_step_def destroy_step_def destroying_def two_answered_defs)
  then show "client_step\<^sup>*\<^sup>* GrpcClient destroying" using two_answered_reached by simp
  let ?a = "destroying\<lparr>cl_poll := P_exited\<rparr>"
  let ?b = "?a\<lparr>cl_queue_down := True, cl_main := C_join\<rparr>"
  have "client_step destroying ?a" by (simp add: client_step_def poll_step_def destroying_def two_answered_defs)
  moreover have "client_step ?a ?b" "client_step ?b destroyed"
    by (auto intro!: other_step.destroy simp: client_step_def destroy_step_def destroyed_def destroying_def two_answered_defs)
  ultimately show "client_step\<^sup>*\<^sup>* destroying destroyed" by (meson converse_rtranclp_into_rtranclp rtranclp.rtrancl_refl)
qed

section \<open>Properties\<close>

text \<open>
  C38. An answer on the queue reaches its call. While the client lives, and however new calls and
  answers come in between, the answer at position \<open>j\<close> of the completion queue has resumed its
  coroutine after at most \<open>3 * j + 4\<close> turns of the polling thread, exactly once and with the outcome
  \<open>co_submit\<close> gives for that answer; the thread can always take another turn.
\<close>

theorem answers_resume_calls:
  assumes "client_step\<^sup>*\<^sup>* GrpcClient c" "\<not> cl_shutdown c" "j < length (cl_events c)" "cl_events c ! j = (i, answer)"
    and "(poll_turn ^^ k) c d" "3 * j + 4 \<le> k"
  shows "aw_resumed (cl_calls d ! i) = 1 \<and>
     co_submit (0 < aw_started (cl_calls d ! i)) (Some answer) = Some (await_resume (cl_calls d ! i)) \<and>
     (\<exists>d'. poll_turn d d')"
proof -
  have ok: "client_ok c" by (rule client_reach_ok [OF assms(1)])
  note e = event_answered [OF ok assms(3), unfolded assms(4) fst_conv snd_conv]
  have "answered c i \<longrightarrow> polls_left i c \<le> 3 * j + 4" using e(4) by simp
  from turns_resume [OF assms(5) ok assms(2) e(2) this]
  have d: "client_ok d" "\<not> cl_shutdown d" "closed d i" "cl_answers d i = Some answer"
    "answered d i \<longrightarrow> polls_left i d + k \<le> 3 * j + 4"
    using e(3) by (auto simp: settles_def)
  then have "\<not> answered d i" using assms(6) polls_left_pos [OF d(1,2)] by fastforce
  from closed_outcome [OF d(1,3) this] d(4) poll_can_turn [OF d(1,2)] show ?thesis by simp
qed

theorem answers_resume_calls_witness:
  "\<exists>d. (poll_turn ^^ 4) two_answered d \<and> aw_resumed (cl_calls d ! 0) = 1"
proof -
  have ok: "client_ok two_answered" "\<not> cl_shutdown two_answered"
    using client_reach_ok [OF two_answered_reached] by (simp_all add: two_answered_defs)
  have "\<exists>d. (poll_turn ^^ k) two_answered d \<and> client_ok d \<and> \<not> cl_shutdown d" for k
  proof (induction k)
    case 0
    then show ?case using ok by auto
  next
    case (Suc k)
    then obtain d where d: "(poll_turn ^^ k) two_answered d" "client_ok d" "\<not> cl_shutdown d" by blast
    obtain d' where "poll_turn d d'" using poll_can_turn [OF d(2,3)] by blast
    then show ?case using d(1) turn_keeps [OF _ d(2,3)] by (meson relpowp_Suc_I)
  qed
  then obtain d where d: "(poll_turn ^^ 4) two_answered d" by blast
  have "0 < length (cl_events two_answered)" "cl_events two_answered ! 0 = (0, True, GrpcOK, new_SubmitDagResponse)"
    by (simp_all add: two_answered_defs)
  from answers_resume_calls [OF two_answered_reached ok(2) this d] d show ?thesis by auto
qed

text \<open>
  The destructor abandons the calls under way. It sets the flag the polling thread tests before
  every event, so from then on at most one more call is resumed, however many answers are on the
  queue; the coroutines of the others stay suspended for ever.
\<close>

theorem destructor_abandons_calls:
  assumes "client_step\<^sup>*\<^sup>* GrpcClient c" "cl_shutdown c" "client_step\<^sup>*\<^sup>* c d"
  shows "sum_list (map aw_resumed (cl_calls d)) \<le> sum_list (map aw_resumed (cl_calls c)) + 1"
proof -
  have "still_due (cl_poll c) \<le> 1" by (cases "cl_poll c") auto
  with shutdown_run_due [OF assms(3) client_reach_ok [OF assms(1)] assms(2)] show ?thesis by (simp add: resumptions_def)
qed

theorem destructor_abandons_calls_witness:
  "client_step\<^sup>*\<^sup>* GrpcClient destroyed \<and> cl_main destroyed = C_gone \<and>
   cl_answers destroyed 0 \<noteq> None \<and> cl_answers destroyed 1 \<noteq> None \<and>
   map aw_resumed (cl_calls destroyed) = [0, 0] \<and>
   sum_list (map aw_resumed (cl_calls destroyed)) \<le> sum_list (map aw_resumed (cl_calls destroying)) + 1"
proof -
  have "cl_shutdown destroying" by (simp add: destroying_def)
  note destructor_abandons_calls [OF destroying_reached(1) this destroying_reached(2)]
  moreover have "client_step\<^sup>*\<^sup>* GrpcClient destroyed" using destroying_reached by (rule rtranclp_trans)
  moreover have "cl_main destroyed = C_gone" "cl_answers destroyed 0 \<noteq> None" "cl_answers destroyed 1 \<noteq> None"
    "map aw_resumed (cl_calls destroyed) = [0, 0]"
    by (simp_all add: destroyed_def destroying_def two_answered_defs)
  ultimately show ?thesis by blast
qed

end
