(* ===== verification/Hazard_Domain.thy ===== *)
theory Hazard_Domain
  imports Dts_Prelude
begin

text \<open>
  The hazard pointers of \<open>drop/hazard_pointer.hpp\<close>: the slots of the domain, the retired
  objects, and the operations that the code runs under \<open>list_mutex_\<close> or on an atomic and
  that are therefore single steps. An object is named by the number of its allocation, a thread by
  a number. The code after \<open>RetirePointer\<close> and \<open>Scan\<close> runs in many steps; it is in
  \<open>Mpmc_Queue\<close>, with the queue that calls it.

  The slots form a list linked through \<open>next_\<close>, to whose head \<open>acquire\<close> adds. They
  are kept in the order of their creation; the list from \<open>head_\<close> is that order backwards,
  and a slot is named by its place in the order of creation, which never changes.
\<close>

record hp_slot =
  hazard_ptr :: "nat option"
  slot_owner :: "nat option"

record hp_domain =
  dm_slots :: "hp_slot list"
  dm_global_retired :: "nat list"
  dm_retired_mutex :: "nat option"
  dm_retired_list :: "nat \<Rightarrow> nat list"
  dm_all_threads :: "nat list"

definition HazPtrDomain :: hp_domain where
  "HazPtrDomain = \<lparr>dm_slots = [], dm_global_retired = [], dm_retired_mutex = None,
     dm_retired_list = (\<lambda>_. []), dm_all_threads = []\<rparr>"

definition scan_threshold :: nat where
  "scan_threshold = 100"

definition kGlobalThreshold :: nat where
  "kGlobalThreshold = 5000"

section \<open>Slots\<close>

text \<open>The slots in the order of a walk from \<open>head_\<close>.\<close>

definition slot_walk :: "hp_domain \<Rightarrow> nat list" where
  "slot_walk d = rev [0..<length (dm_slots d)]"

definition acquire :: "nat \<Rightarrow> hp_domain \<Rightarrow> nat \<times> hp_domain" where
  "acquire this_id d =
     (case List.find (\<lambda>i. slot_owner (dm_slots d ! i) = None) (slot_walk d) of
        Some i \<Rightarrow> (i, d\<lparr>dm_slots := (dm_slots d)[i := (dm_slots d ! i)\<lparr>slot_owner := Some this_id\<rparr>]\<rparr>)
      | None \<Rightarrow> (length (dm_slots d),
                 d\<lparr>dm_slots := dm_slots d @ [\<lparr>hazard_ptr = None, slot_owner = Some this_id\<rparr>]\<rparr>))"

text \<open>\<open>None\<close> is a failed \<open>assert\<close>: the slot belongs to another thread.\<close>

definition release :: "nat \<Rightarrow> nat \<Rightarrow> hp_domain \<Rightarrow> hp_domain option" where
  "release this_id hp d =
     (let slots = (dm_slots d)[hp := (dm_slots d ! hp)\<lparr>hazard_ptr := None\<rparr>]
      in if slot_owner (slots ! hp) = Some this_id
         then Some (d\<lparr>dm_slots := slots[hp := (slots ! hp)\<lparr>slot_owner := None\<rparr>]\<rparr>)
         else None)"

definition protect :: "nat \<Rightarrow> nat option \<Rightarrow> hp_domain \<Rightarrow> hp_domain" where
  "protect hp p d = d\<lparr>dm_slots := (dm_slots d)[hp := (dm_slots d ! hp)\<lparr>hazard_ptr := p\<rparr>]\<rparr>"

definition holder_get :: "nat \<Rightarrow> hp_domain \<Rightarrow> nat option" where
  "holder_get hp d = hazard_ptr (dm_slots d ! hp)"

text \<open>A \<open>HazPtrHolder\<close> is the slot it owns; a holder that was moved from or released owns none.
  Releasing twice, as \<open>dequeue\<close> does explicitly and in the destructor, is harmless.\<close>

definition holder_release :: "nat \<Rightarrow> nat option \<Rightarrow> hp_domain \<Rightarrow> (nat option \<times> hp_domain) option" where
  "holder_release this_id slot d =
     (case slot of None \<Rightarrow> Some (None, d) | Some hp \<Rightarrow> map_option (Pair None) (release this_id hp d))"

definition holder_protect :: "nat option \<Rightarrow> nat option \<Rightarrow> hp_domain \<Rightarrow> hp_domain" where
  "holder_protect slot p d = (case slot of None \<Rightarrow> d | Some hp \<Rightarrow> protect hp p d)"

definition slot_get :: "nat option \<Rightarrow> hp_domain \<Rightarrow> nat option" where
  "slot_get slot d = (case slot of None \<Rightarrow> None | Some hp \<Rightarrow> holder_get hp d)"

text \<open>The move constructor gives the new holder and what the other one keeps; the move assignment
  (between two different holders) releases what the left one had.\<close>

definition holder_move :: "nat option \<Rightarrow> nat option \<times> nat option" where
  "holder_move other = (other, None)"

definition holder_assign ::
  "nat \<Rightarrow> nat option \<Rightarrow> nat option \<Rightarrow> hp_domain \<Rightarrow> (nat option \<times> nat option \<times> hp_domain) option" where
  "holder_assign this_id slot other d =
     map_option (\<lambda>(_, d'). (other, None, d')) (holder_release this_id slot d)"

text \<open>\<open>isProtected\<close> without interference: the walk stops at the first slot that holds the pointer.\<close>

fun protected_from :: "nat \<Rightarrow> nat list \<Rightarrow> hp_domain \<Rightarrow> bool" where
  "protected_from p [] d = False"
| "protected_from p (i # is) d = (if holder_get i d = Some p then True else protected_from p is d)"

definition isProtected :: "nat \<Rightarrow> hp_domain \<Rightarrow> bool" where
  "isProtected p d = protected_from p (slot_walk d) d"

section \<open>Threads\<close>

definition RegisterThread :: "nat \<Rightarrow> hp_domain \<Rightarrow> hp_domain" where
  "RegisterThread this_id d = d\<lparr>dm_all_threads := dm_all_threads d @ [this_id]\<rparr>"

definition UnregisterThread :: "nat \<Rightarrow> hp_domain \<Rightarrow> hp_domain" where
  "UnregisterThread this_id d = d\<lparr>dm_all_threads := filter (\<lambda>t. t \<noteq> this_id) (dm_all_threads d)\<rparr>"

section \<open>Retired objects\<close>

definition retire_local :: "nat \<Rightarrow> nat \<Rightarrow> hp_domain \<Rightarrow> hp_domain" where
  "retire_local t p d = d\<lparr>dm_retired_list := (dm_retired_list d)(t := dm_retired_list d t @ [p])\<rparr>"

definition splice :: "nat \<Rightarrow> hp_domain \<Rightarrow> hp_domain" where
  "splice t d = d\<lparr>dm_global_retired := dm_global_retired d @ dm_retired_list d t,
     dm_retired_list := (dm_retired_list d)(t := [])\<rparr>"

text \<open>The loop of \<open>Scan\<close> over the registered threads.\<close>

definition splice_all :: "hp_domain \<Rightarrow> hp_domain" where
  "splice_all d = fold splice (dm_all_threads d) d"

definition set_mutex :: "nat option \<Rightarrow> hp_domain \<Rightarrow> hp_domain" where
  "set_mutex m d = d\<lparr>dm_retired_mutex := m\<rparr>"

text \<open>\<open>global_retired_.erase(it)\<close> for the element at a position.\<close>

definition erase_at :: "nat \<Rightarrow> hp_domain \<Rightarrow> hp_domain" where
  "erase_at k d = d\<lparr>dm_global_retired := take k (dm_global_retired d) @ drop (Suc k) (dm_global_retired d)\<rparr>"

lemmas domain_defs = acquire_def release_def protect_def holder_get_def RegisterThread_def
  UnregisterThread_def retire_local_def splice_def set_mutex_def erase_at_def Let_def

section \<open>Facts\<close>

lemma isProtected_iff: "isProtected p d \<longleftrightarrow> (\<exists>s \<in> set (dm_slots d). hazard_ptr s = Some p)"
proof -
  have walk: "protected_from p is d \<longleftrightarrow> (\<exists>i \<in> set is. holder_get i d = Some p)" for "is"
    by (induction "is") auto
  show ?thesis
    unfolding isProtected_def walk slot_walk_def holder_get_def set_rev
    by (fastforce simp: in_set_conv_nth)
qed

text \<open>A slot that was acquired belongs to the thread, nobody had it, and the others are as before.\<close>

lemma free_slotD:
  assumes "List.find (\<lambda>i. slot_owner (dm_slots d ! i) = None) (slot_walk d) = Some i"
  shows "i < length (dm_slots d) \<and> slot_owner (dm_slots d ! i) = None"
proof -
  obtain k where "k < length (slot_walk d)" "slot_owner (dm_slots d ! (slot_walk d ! k)) = None"
    "i = slot_walk d ! k"
    using assms by (auto simp: find_Some_iff)
  moreover from this(1) have "slot_walk d ! k \<in> set (slot_walk d)" by (rule nth_mem)
  ultimately show ?thesis by (simp add: slot_walk_def)
qed

lemma acquire_owner:
  assumes "acquire t d = (i, d')"
  shows "i < length (dm_slots d')" "slot_owner (dm_slots d' ! i) = Some t"
    and "i < length (dm_slots d) \<Longrightarrow> slot_owner (dm_slots d ! i) = None"
    and "j \<noteq> i \<Longrightarrow> j < length (dm_slots d) \<Longrightarrow> dm_slots d' ! j = dm_slots d ! j"
    and "length (dm_slots d) \<le> length (dm_slots d')"
    and "d' = d\<lparr>dm_slots := dm_slots d'\<rparr>"
  using assms
  by (auto simp: acquire_def nth_append split: option.splits dest!: free_slotD)

lemma release_owned:
  "hp < length (dm_slots d) \<Longrightarrow> slot_owner (dm_slots d ! hp) = Some t \<Longrightarrow>
   release t hp d = Some (d\<lparr>dm_slots := (dm_slots d)[hp := \<lparr>hazard_ptr = None, slot_owner = None\<rparr>]\<rparr>)"
  by (cases "dm_slots d ! hp") (simp add: release_def Let_def)

lemma holder_released_once:
  assumes "hp < length (dm_slots d)" "slot_owner (dm_slots d ! hp) = Some t"
  obtains d' where "holder_release t (Some hp) d = Some (None, d')" "holder_release t None d' = Some (None, d')"
    "holder_get hp d' = None" "slot_owner (dm_slots d' ! hp) = None"
  using assms by (auto simp: holder_release_def release_owned holder_get_def intro: that)

text \<open>A protection travels with a move: the left holder of an assignment protects afterwards what the
  right one protected, and the right one protects nothing.\<close>

lemma holder_assign_keeps_protection:
  assumes "holder_assign t slot other d = Some (slot', other', d')" "slot \<noteq> other"
    and "\<And>hp. slot = Some hp \<Longrightarrow> hp < length (dm_slots d)"
  shows "slot_get slot' d' = slot_get other d \<and> slot_get other' d' = None"
proof (cases slot)
  case None
  then show ?thesis using assms(1) by (auto simp: holder_assign_def holder_release_def slot_get_def)
next
  case (Some hp)
  then show ?thesis using assms
    by (auto simp: holder_assign_def holder_release_def slot_get_def holder_get_def release_def Let_def
        nth_list_update split: option.splits if_splits)
qed

lemma splice_fields [simp]:
  "dm_slots (splice t d) = dm_slots d" "dm_retired_mutex (splice t d) = dm_retired_mutex d"
  "dm_all_threads (splice t d) = dm_all_threads d"
  by (simp_all add: splice_def)

lemma splice_all_fields [simp]:
  "dm_slots (splice_all d) = dm_slots d" "dm_retired_mutex (splice_all d) = dm_retired_mutex d"
  "dm_all_threads (splice_all d) = dm_all_threads d"
proof -
  have "dm_slots (fold splice ts e) = dm_slots e \<and> dm_retired_mutex (fold splice ts e) = dm_retired_mutex e \<and>
      dm_all_threads (fold splice ts e) = dm_all_threads e" for ts e
    by (induction ts arbitrary: e) auto
  then show "dm_slots (splice_all d) = dm_slots d" "dm_retired_mutex (splice_all d) = dm_retired_mutex d"
    "dm_all_threads (splice_all d) = dm_all_threads d"
    by (simp_all add: splice_all_def)
qed

end
