(* ===== verification/Mpmc_Queue.thy ===== *)
theory Mpmc_Queue
  imports Hazard_Domain
begin

text \<open>
  The lock-free queue of \<open>drop/mpmc_queue.hpp\<close> together with the reclamation of
  \<open>drop/hazard_pointer.hpp\<close>, run by any number of threads. Every load, store and
  compare-exchange is one step, and the steps of the threads interleave in any order; a weak
  compare-exchange may fail although the values agree. What a thread does next, and the locals it
  still needs, is its program counter.

  The holders of \<open>dequeue\<close> are taken to protect nodes of the queue (the file names an undeclared
  type there), and the undeclared \<open>release_hazard_pointer\<close> of the empty case is left out: the
  destructors of the holders release the slots in the next steps. No step moves or empties a holder
  before it is released, so a holder is the number of its slot. Memory is sequentially consistent.
\<close>

record 'a node =
  nd_data :: 'a
  nd_next :: "nat option"

datatype 'a reply = Enqueued | Dequeued 'a | Found_empty | Scanned

text \<open>The program counters of \<open>enqueue\<close>, \<open>dequeue\<close>,
  \<open>RetirePointer\<close> and \<open>Scan\<close>.\<close>

datatype enq_pc =
    E_tail nat
  | E_next nat nat
  | E_check nat nat "nat option"
  | E_link nat nat
  | E_swing nat nat
  | E_help nat nat nat

datatype 'a deq_pc =
    D_holder
  | D_holder2 nat
  | D_head nat nat
  | D_protect nat nat nat
  | D_check nat nat nat
  | D_tail nat nat nat
  | D_next nat nat nat nat
  | D_protect2 nat nat nat nat "nat option"
  | D_check2 nat nat nat nat "nat option"
  | D_help nat nat nat nat
  | D_cas nat nat nat nat
  | D_data nat nat nat nat
  | D_release nat nat nat 'a
  | D_release2 nat nat 'a
  | D_empty nat nat
  | D_empty2 nat

datatype ret_pc = R_push nat | R_size | R_lock | R_splice | R_check | R_unlock

datatype scan_pc =
    S_lock
  | S_splice
  | S_unlock
  | S_relock
  | S_next nat "nat list"
  | S_slots nat "nat list" "nat list"
  | S_release "nat list"
  | S_delete "nat list"

text \<open>A retirement keeps the element that \<open>dequeue\<close> will return; a scan that it calls keeps it
  too, a scan called from outside has none.\<close>

datatype 'a pc =
    Outside
  | Enq enq_pc
  | Deq "'a deq_pc"
  | Retire ret_pc 'a
  | Scanning scan_pc "'a option"
  | Leaving "'a reply"

text \<open>
  The nodes ever allocated, by number; the two atomics of the queue; the domain; the threads; the
  nodes deleted, in order. The last three fields are history: the nodes linked so far in order, how
  many of them the head has passed, and how many calls of \<open>dequeue\<close> have returned an element.
\<close>

record 'a mq =
  q_nodes :: "'a node list"
  q_head :: nat
  q_tail :: nat
  q_dom :: hp_domain
  q_pc :: "nat \<Rightarrow> 'a pc"
  q_freed :: "nat list"
  q_chain :: "nat list"
  q_popped :: nat
  q_returned :: nat

text \<open>The dummy node holds whatever its storage holds.\<close>

definition MPMCQueue :: "'a \<Rightarrow> 'a mq" where
  "MPMCQueue junk = \<lparr>q_nodes = [\<lparr>nd_data = junk, nd_next = None\<rparr>], q_head = 0, q_tail = 0,
     q_dom = HazPtrDomain, q_pc = (\<lambda>_. Outside), q_freed = [],
     q_chain = [0], q_popped = 0, q_returned = 0\<rparr>"

definition goto :: "nat \<Rightarrow> 'a pc \<Rightarrow> 'a mq \<Rightarrow> 'a mq" where
  "goto t c q = q\<lparr>q_pc := (q_pc q)(t := c)\<rparr>"

definition in_dom :: "(hp_domain \<Rightarrow> hp_domain) \<Rightarrow> 'a mq \<Rightarrow> 'a mq" where
  "in_dom f q = q\<lparr>q_dom := f (q_dom q)\<rparr>"

definition set_next :: "nat \<Rightarrow> nat option \<Rightarrow> 'a mq \<Rightarrow> 'a mq" where
  "set_next x y q = q\<lparr>q_nodes := (q_nodes q)[x := (q_nodes q ! x)\<lparr>nd_next := y\<rparr>]\<rparr>"

section \<open>Enqueue\<close>

text \<open>\<open>new Node<T>(data)\<close>, before the loop.\<close>

definition new_node :: "nat \<Rightarrow> 'a \<Rightarrow> 'a mq \<Rightarrow> 'a mq" where
  "new_node t v q = goto t (Enq (E_tail (length (q_nodes q))))
     (q\<lparr>q_nodes := q_nodes q @ [\<lparr>nd_data = v, nd_next = None\<rparr>]\<rparr>)"

text \<open>The two compare-exchanges of the queue that move the tail and the head.\<close>

definition cas_tail :: "bool \<Rightarrow> nat \<Rightarrow> nat \<Rightarrow> 'a mq \<Rightarrow> 'a mq" where
  "cas_tail ok expected x q = (if ok \<and> q_tail q = expected then q\<lparr>q_tail := x\<rparr> else q)"

fun enqueue_step :: "nat \<Rightarrow> bool \<Rightarrow> enq_pc \<Rightarrow> 'a mq \<Rightarrow> 'a mq" where
  "enqueue_step t ok (E_tail n) q = goto t (Enq (E_next n (q_tail q))) q"
| "enqueue_step t ok (E_next n ct) q = goto t (Enq (E_check n ct (nd_next (q_nodes q ! ct)))) q"
| "enqueue_step t ok (E_check n ct nx) q =
     (if ct = q_tail q
      then (case nx of None \<Rightarrow> goto t (Enq (E_link n ct)) q | Some x \<Rightarrow> goto t (Enq (E_help n ct x)) q)
      else goto t (Enq (E_tail n)) q)"
| "enqueue_step t ok (E_link n ct) q =
     (if ok \<and> nd_next (q_nodes q ! ct) = None
      then goto t (Enq (E_swing n ct)) ((set_next ct (Some n) q)\<lparr>q_chain := q_chain q @ [n]\<rparr>)
      else goto t (Enq (E_tail n)) q)"
| "enqueue_step t ok (E_swing n ct) q = goto t (Leaving Enqueued) (cas_tail ok ct n q)"
| "enqueue_step t ok (E_help n ct x) q = goto t (Enq (E_tail n)) (cas_tail ok ct x q)"

section \<open>Dequeue\<close>

definition acquire_holder :: "nat \<Rightarrow> (nat \<Rightarrow> 'a pc) \<Rightarrow> 'a mq \<Rightarrow> 'a mq" where
  "acquire_holder t c q =
     (case acquire t (q_dom q) of (h, d) \<Rightarrow> goto t (c h) (q\<lparr>q_dom := d\<rparr>))"

definition release_holder :: "nat \<Rightarrow> nat \<Rightarrow> 'a pc \<Rightarrow> 'a mq \<Rightarrow> 'a mq option" where
  "release_holder t h c q =
     map_option (\<lambda>d. goto t c (q\<lparr>q_dom := d\<rparr>)) (release t h (q_dom q))"

text \<open>\<open>None\<close> is a failed assertion.\<close>

fun dequeue_step :: "nat \<Rightarrow> bool \<Rightarrow> 'a deq_pc \<Rightarrow> 'a mq \<Rightarrow> 'a mq option" where
  "dequeue_step t ok D_holder q = Some (acquire_holder t (\<lambda>h. Deq (D_holder2 h)) q)"
| "dequeue_step t ok (D_holder2 h) q = Some (acquire_holder t (\<lambda>h'. Deq (D_head h h')) q)"
| "dequeue_step t ok (D_head h h') q = Some (goto t (Deq (D_protect h h' (q_head q))) q)"
| "dequeue_step t ok (D_protect h h' ch) q =
     Some (goto t (Deq (D_check h h' ch)) (in_dom (protect h (Some ch)) q))"
| "dequeue_step t ok (D_check h h' ch) q =
     Some (if ch \<noteq> q_head q then goto t (Deq (D_head h h')) q else goto t (Deq (D_tail h h' ch)) q)"
| "dequeue_step t ok (D_tail h h' ch) q = Some (goto t (Deq (D_next h h' ch (q_tail q))) q)"
| "dequeue_step t ok (D_next h h' ch ct) q =
     Some (goto t (Deq (D_protect2 h h' ch ct (nd_next (q_nodes q ! ch)))) q)"
| "dequeue_step t ok (D_protect2 h h' ch ct nx) q =
     Some (goto t (Deq (D_check2 h h' ch ct nx)) (in_dom (protect h' nx) q))"
| "dequeue_step t ok (D_check2 h h' ch ct nx) q =
     Some (if ch \<noteq> q_head q then goto t (Deq (D_head h h')) q
           else (case nx of
                   None \<Rightarrow> goto t (Deq (D_empty h h')) q
                 | Some x \<Rightarrow> if ch = ct then goto t (Deq (D_help h h' ct x)) q
                            else goto t (Deq (D_cas h h' ch x)) q))"
| "dequeue_step t ok (D_help h h' ct x) q = Some (goto t (Deq (D_head h h')) (cas_tail ok ct x q))"
| "dequeue_step t ok (D_cas h h' ch x) q =
     Some (if ok \<and> q_head q = ch
           then goto t (Deq (D_data h h' ch x)) (q\<lparr>q_head := x, q_popped := Suc (q_popped q)\<rparr>)
           else goto t (Deq (D_head h h')) q)"
| "dequeue_step t ok (D_data h h' ch x) q =
     Some (goto t (Deq (D_release h h' ch (nd_data (q_nodes q ! x)))) q)"
| "dequeue_step t ok (D_release h h' ch v) q = release_holder t h (Deq (D_release2 h' ch v)) q"
| "dequeue_step t ok (D_release2 h' ch v) q = release_holder t h' (Retire (R_push ch) v) q"
| "dequeue_step t ok (D_empty h h') q = release_holder t h' (Deq (D_empty2 h)) q"
| "dequeue_step t ok (D_empty2 h) q = release_holder t h (Leaving Found_empty) q"

section \<open>Retiring and reclaiming\<close>

text \<open>\<open>global_retired_mutex_\<close> is not recursive: a thread that holds it and locks it again waits.\<close>

definition lock_retired :: "nat \<Rightarrow> 'a pc \<Rightarrow> 'a mq \<Rightarrow> 'a mq option" where
  "lock_retired t c q =
     (if dm_retired_mutex (q_dom q) = None
      then Some (goto t c (in_dom (set_mutex (Some t)) q)) else None)"

fun RetirePointer_step :: "nat \<Rightarrow> ret_pc \<Rightarrow> 'a \<Rightarrow> 'a mq \<Rightarrow> 'a mq option" where
  "RetirePointer_step t (R_push p) v q = Some (goto t (Retire R_size v) (in_dom (retire_local t p) q))"
| "RetirePointer_step t R_size v q =
     Some (goto t (if scan_threshold \<le> length (dm_retired_list (q_dom q) t)
                   then Retire R_lock v else Leaving (Dequeued v)) q)"
| "RetirePointer_step t R_lock v q = lock_retired t (Retire R_splice v) q"
| "RetirePointer_step t R_splice v q = Some (goto t (Retire R_check v) (in_dom (splice t) q))"
| "RetirePointer_step t R_check v q =
     Some (goto t (if kGlobalThreshold < length (dm_global_retired (q_dom q))
                   then Scanning S_lock (Some v) else Retire R_unlock v) q)"
| "RetirePointer_step t R_unlock v q =
     Some (goto t (Leaving (Dequeued v)) (in_dom (set_mutex None) q))"

text \<open>\<open>reclaim_all\<close>: the walk over the retired objects under the mutex, which asks
  \<open>isProtected\<close> slot by slot, and the deletions after it.\<close>

fun reclaim_step :: "nat \<Rightarrow> scan_pc \<Rightarrow> 'a option \<Rightarrow> 'a mq \<Rightarrow> 'a mq option" where
  "reclaim_step t S_relock r q = lock_retired t (Scanning (S_next 0 []) r) q"
| "reclaim_step t (S_next k out) r q =
     Some (goto t (if k < length (dm_global_retired (q_dom q))
                   then Scanning (S_slots k (slot_walk (q_dom q)) out) r
                   else Scanning (S_release out) r) q)"
| "reclaim_step t (S_slots k [] out) r q =
     Some (goto t (Scanning (S_next k (out @ [dm_global_retired (q_dom q) ! k])) r) (in_dom (erase_at k) q))"
| "reclaim_step t (S_slots k (i # is) out) r q =
     Some (goto t (if holder_get i (q_dom q) = Some (dm_global_retired (q_dom q) ! k)
                   then Scanning (S_next (Suc k) out) r
                   else Scanning (S_slots k is out) r) q)"
| "reclaim_step t (S_release out) r q = Some (goto t (Scanning (S_delete out) r) (in_dom (set_mutex None) q))"
| "reclaim_step t (S_delete (p # ps)) r q =
     Some (goto t (Scanning (S_delete ps) r) (q\<lparr>q_freed := q_freed q @ [p]\<rparr>))"
| "reclaim_step t (S_delete []) r q =
     Some (goto t (case r of Some v \<Rightarrow> Retire R_unlock v | None \<Rightarrow> Leaving Scanned) q)"
| "reclaim_step t c r q = None"

fun Scan_step :: "nat \<Rightarrow> scan_pc \<Rightarrow> 'a option \<Rightarrow> 'a mq \<Rightarrow> 'a mq option" where
  "Scan_step t S_lock r q = lock_retired t (Scanning S_splice r) q"
| "Scan_step t S_splice r q = Some (goto t (Scanning S_unlock r) (in_dom splice_all q))"
| "Scan_step t S_unlock r q = Some (goto t (Scanning S_relock r) (in_dom (set_mutex None) q))"
| "Scan_step t c r q = reclaim_step t c r q"

section \<open>The threads\<close>

datatype 'a act = Call_enqueue 'a | Call_dequeue | Call_scan | Call_register | Call_unregister | Go bool

text \<open>What a thread can do when it runs no operation.\<close>

fun start_step :: "nat \<Rightarrow> 'a act \<Rightarrow> 'a mq \<Rightarrow> 'a mq option" where
  "start_step t (Call_enqueue v) q = Some (new_node t v q)"
| "start_step t Call_dequeue q = Some (goto t (Deq D_holder) q)"
| "start_step t Call_scan q = Some (goto t (Scanning S_lock None) q)"
| "start_step t Call_register q = Some (in_dom (RegisterThread t) q)"
| "start_step t Call_unregister q = Some (in_dom (UnregisterThread t) q)"
| "start_step t (Go ok) q = None"

fun go_step :: "nat \<Rightarrow> bool \<Rightarrow> 'a pc \<Rightarrow> 'a mq \<Rightarrow> 'a mq option" where
  "go_step t ok Outside q = None"
| "go_step t ok (Enq c) q = Some (enqueue_step t ok c q)"
| "go_step t ok (Deq c) q = dequeue_step t ok c q"
| "go_step t ok (Retire c v) q = RetirePointer_step t c v q"
| "go_step t ok (Scanning c r) q = Scan_step t c r q"
| "go_step t ok (Leaving r) q =
     Some (goto t Outside
       (case r of Dequeued v \<Rightarrow> q\<lparr>q_returned := Suc (q_returned q)\<rparr> | _ \<Rightarrow> q))"

definition mq_exec :: "nat \<Rightarrow> 'a act \<Rightarrow> 'a mq \<Rightarrow> 'a mq option" where
  "mq_exec t a q =
     (if q_pc q t = Outside then start_step t a q
      else (case a of Go ok \<Rightarrow> go_step t ok (q_pc q t) q | _ \<Rightarrow> None))"

text \<open>What the caller sees: the calls and the returns of the two operations of the queue.\<close>

datatype 'a label = Tau | Invoke_enqueue nat 'a | Invoke_dequeue nat | Respond nat "'a reply"

definition mq_label :: "nat \<Rightarrow> 'a act \<Rightarrow> 'a mq \<Rightarrow> 'a label" where
  "mq_label t a q =
     (case a of
        Call_enqueue v \<Rightarrow> Invoke_enqueue t v
      | Call_dequeue \<Rightarrow> Invoke_dequeue t
      | Go ok \<Rightarrow> (case q_pc q t of Leaving r \<Rightarrow> (if r = Scanned then Tau else Respond t r) | _ \<Rightarrow> Tau)
      | _ \<Rightarrow> Tau)"

definition mq_step :: "'a mq \<Rightarrow> 'a label \<Rightarrow> 'a mq \<Rightarrow> bool" where
  "mq_step q l q' \<longleftrightarrow> (\<exists>t a. mq_exec t a q = Some q' \<and> l = mq_label t a q)"

text \<open>A run of given threads and actions, for examples.\<close>

fun mq_run :: "(nat \<times> 'a act) list \<Rightarrow> 'a mq \<Rightarrow> 'a mq option" where
  "mq_run [] q = Some q"
| "mq_run ((t, a) # xs) q = Option.bind (mq_exec t a q) (mq_run xs)"

end
