(* ===== verification/Mpmc_Structure.thy ===== *)
theory Mpmc_Structure
  imports Mpmc_Queue
begin

text \<open>
  What the nodes of the queue look like at any moment of any run: the nodes linked so far form one
  chain, the head and the tail are nodes of it, the tail is not behind the head, and every node a
  thread has read keeps its place. From this follow the order of the elements, and that the queue
  with all its interleavings does nothing a queue with atomic operations could not do.
\<close>

section \<open>The chain of nodes\<close>

definition at_pos :: "'a mq \<Rightarrow> nat \<Rightarrow> nat \<Rightarrow> bool" where
  "at_pos q i x \<longleftrightarrow> i < length (q_chain q) \<and> q_chain q ! i = x"

definition linked :: "'a mq \<Rightarrow> nat \<Rightarrow> bool" where
  "linked q x \<longleftrightarrow> (\<exists>i. at_pos q i x)"

definition follows :: "'a mq \<Rightarrow> nat \<Rightarrow> nat \<Rightarrow> bool" where
  "follows q x y \<longleftrightarrow> (\<exists>i. at_pos q i x \<and> at_pos q (Suc i) y)"

text \<open>The head has reached the node; the tail has reached it, or has gone past it.\<close>

definition head_reached :: "'a mq \<Rightarrow> nat \<Rightarrow> bool" where
  "head_reached q x \<longleftrightarrow> (\<exists>i \<le> q_popped q. at_pos q i x)"

definition tail_from :: "'a mq \<Rightarrow> nat \<Rightarrow> bool" where
  "tail_from q i \<longleftrightarrow> (\<exists>k \<ge> i. at_pos q k (q_tail q))"

definition chain_ok :: "'a mq \<Rightarrow> bool" where
  "chain_ok q \<longleftrightarrow>
     distinct (q_chain q) \<and> (\<forall>x. linked q x \<longrightarrow> x < length (q_nodes q)) \<and>
     (\<forall>i x. at_pos q i x \<longrightarrow> nd_next (q_nodes q ! x) =
        (if Suc i < length (q_chain q) then Some (q_chain q ! Suc i) else None)) \<and>
     at_pos q (q_popped q) (q_head q) \<and> tail_from q (q_popped q)"

text \<open>The node an \<open>enqueue\<close> has allocated and not linked yet.\<close>

fun enq_node :: "enq_pc \<Rightarrow> nat option" where
  "enq_node (E_tail n) = Some n" | "enq_node (E_next n ct) = Some n"
| "enq_node (E_check n ct nx) = Some n" | "enq_node (E_link n ct) = Some n"
| "enq_node (E_help n ct x) = Some n" | "enq_node (E_swing n ct) = None"

fun own_node :: "'a pc \<Rightarrow> nat option" where
  "own_node (Enq c) = enq_node c" | "own_node _ = None"

definition private_ok :: "'a mq \<Rightarrow> bool" where
  "private_ok q \<longleftrightarrow> (\<forall>t n. own_node (q_pc q t) = Some n \<longrightarrow>
     n < length (q_nodes q) \<and> \<not> linked q n \<and> nd_next (q_nodes q ! n) = None \<and>
     (\<forall>t'. own_node (q_pc q t') = Some n \<longrightarrow> t' = t))"

text \<open>What the locals of a thread still say when other threads have moved on.\<close>

fun enq_ok :: "'a mq \<Rightarrow> enq_pc \<Rightarrow> bool" where
  "enq_ok q (E_tail n) = True"
| "enq_ok q (E_next n ct) = linked q ct"
| "enq_ok q (E_check n ct nx) = (linked q ct \<and> (\<forall>x. nx = Some x \<longrightarrow> follows q ct x))"
| "enq_ok q (E_link n ct) = linked q ct"
| "enq_ok q (E_swing n ct) = follows q ct n"
| "enq_ok q (E_help n ct x) = follows q ct x"

definition head_tail :: "'a mq \<Rightarrow> nat \<Rightarrow> nat \<Rightarrow> bool" where
  "head_tail q ch ct \<longleftrightarrow> (\<exists>i j. i \<le> j \<and> at_pos q i ch \<and> at_pos q j ct \<and> tail_from q j)"

fun deq_ok :: "'a mq \<Rightarrow> 'a deq_pc \<Rightarrow> bool" where
  "deq_ok q (D_protect h h' ch) = head_reached q ch"
| "deq_ok q (D_check h h' ch) = head_reached q ch"
| "deq_ok q (D_tail h h' ch) = head_reached q ch"
| "deq_ok q (D_next h h' ch ct) = (head_reached q ch \<and> head_tail q ch ct)"
| "deq_ok q (D_protect2 h h' ch ct nx) =
     (head_reached q ch \<and> head_tail q ch ct \<and> (\<forall>x. nx = Some x \<longrightarrow> follows q ch x))"
| "deq_ok q (D_check2 h h' ch ct nx) =
     (head_reached q ch \<and> head_tail q ch ct \<and> (\<forall>x. nx = Some x \<longrightarrow> follows q ch x))"
| "deq_ok q (D_help h h' ct x) = follows q ct x"
| "deq_ok q (D_cas h h' ch x) = (follows q ch x \<and> (\<exists>i. at_pos q i ch \<and> tail_from q (Suc i)))"
| "deq_ok q (D_data h h' ch x) = (\<exists>i < q_popped q. at_pos q i ch \<and> at_pos q (Suc i) x)"
| "deq_ok q c = True"

fun pc_ok :: "'a mq \<Rightarrow> 'a pc \<Rightarrow> bool" where
  "pc_ok q (Enq c) = enq_ok q c" | "pc_ok q (Deq c) = deq_ok q c" | "pc_ok q _ = True"

definition mq_ok :: "'a mq \<Rightarrow> bool" where
  "mq_ok q \<longleftrightarrow> chain_ok q \<and> private_ok q \<and> (\<forall>t. pc_ok q (q_pc q t))"

lemmas mq_updates = goto_def in_dom_def set_next_def cas_tail_def new_node_def acquire_holder_def
  release_holder_def lock_retired_def

section \<open>Time only adds\<close>

definition later :: "'a mq \<Rightarrow> 'a mq \<Rightarrow> bool" where
  "later q q' \<longleftrightarrow> (\<forall>i x. at_pos q i x \<longrightarrow> at_pos q' i x) \<and> q_popped q \<le> q_popped q' \<and>
     (\<forall>i. tail_from q i \<longrightarrow> tail_from q' i)"

lemma later_refl [simp]: "later q q"
  by (simp add: later_def)

lemma later_fields:
  "q_chain q' = q_chain q \<Longrightarrow> q_popped q' = q_popped q \<Longrightarrow> q_tail q' = q_tail q \<Longrightarrow> later q q'"
  by (simp add: later_def at_pos_def tail_from_def)

lemma later_at: "later q q' \<Longrightarrow> at_pos q i x \<Longrightarrow> at_pos q' i x"
  by (simp add: later_def)

lemma later_tail: "later q q' \<Longrightarrow> tail_from q i \<Longrightarrow> tail_from q' i"
  by (simp add: later_def)

lemma later_linked: "later q q' \<Longrightarrow> linked q x \<Longrightarrow> linked q' x"
  unfolding linked_def by (meson later_at)

lemma later_follows: "later q q' \<Longrightarrow> follows q x y \<Longrightarrow> follows q' x y"
  unfolding follows_def by (meson later_at)

lemma later_head: "later q q' \<Longrightarrow> head_reached q x \<Longrightarrow> head_reached q' x"
  unfolding head_reached_def by (meson later_def le_trans)

lemma later_head_tail: "later q q' \<Longrightarrow> head_tail q x y \<Longrightarrow> head_tail q' x y"
  unfolding head_tail_def by (meson later_at later_tail)

lemma later_popped:
  "later q q' \<Longrightarrow> \<exists>i < q_popped q. at_pos q i x \<and> at_pos q (Suc i) y \<Longrightarrow>
   \<exists>i < q_popped q'. at_pos q' i x \<and> at_pos q' (Suc i) y"
  by (meson later_def less_le_trans)

lemma later_cas:
  "later q q' \<Longrightarrow> \<exists>i. at_pos q i x \<and> tail_from q (Suc i) \<Longrightarrow> \<exists>i. at_pos q' i x \<and> tail_from q' (Suc i)"
  by (meson later_at later_tail)

lemmas later_intros = later_linked later_follows later_head later_head_tail later_popped later_cas

lemma later_enq_ok: "later q q' \<Longrightarrow> enq_ok q c \<Longrightarrow> enq_ok q' c"
  by (cases c) (auto intro: later_intros)

lemma later_deq_ok: "later q q' \<Longrightarrow> deq_ok q c \<Longrightarrow> deq_ok q' c"
  by (cases c) (simp_all add: later_intros)

lemma later_pc_ok: "later q q' \<Longrightarrow> pc_ok q c \<Longrightarrow> pc_ok q' c"
  by (cases c) (simp_all add: later_enq_ok later_deq_ok)

section \<open>Every step keeps the invariant\<close>

lemma privateD:
  "private_ok q \<Longrightarrow> own_node (q_pc q t) = Some n \<Longrightarrow>
   n < length (q_nodes q) \<and> \<not> linked q n \<and> nd_next (q_nodes q ! n) = None \<and>
   (\<forall>t'. own_node (q_pc q t') = Some n \<longrightarrow> t' = t)"
  unfolding private_ok_def by blast

lemma at_pos_unique: "chain_ok q \<Longrightarrow> at_pos q i x \<Longrightarrow> at_pos q j x \<Longrightarrow> i = j"
  by (auto simp: chain_ok_def at_pos_def nth_eq_iff_index_eq)

lemma at_pos_same: "at_pos q i x \<Longrightarrow> at_pos q i y \<Longrightarrow> x = y"
  by (simp add: at_pos_def)

lemma at_pos_less: "at_pos q i x \<Longrightarrow> j \<le> i \<Longrightarrow> \<exists>y. at_pos q j y"
  by (simp add: at_pos_def)

lemma chain_next:
  "chain_ok q \<Longrightarrow> at_pos q i x \<Longrightarrow> nd_next (q_nodes q ! x) =
     (if Suc i < length (q_chain q) then Some (q_chain q ! Suc i) else None)"
  unfolding chain_ok_def by blast

lemma next_follows: "chain_ok q \<Longrightarrow> linked q x \<Longrightarrow> nd_next (q_nodes q ! x) = Some y \<Longrightarrow> follows q x y"
proof -
  assume ok: "chain_ok q" and "linked q x" and y: "nd_next (q_nodes q ! x) = Some y"
  then obtain i where i: "at_pos q i x" by (auto simp: linked_def)
  then have "at_pos q (Suc i) y" using chain_next [OF ok i] y by (auto simp: at_pos_def split: if_splits)
  with i show ?thesis by (auto simp: follows_def)
qed

lemma next_last:
  "chain_ok q \<Longrightarrow> at_pos q i x \<Longrightarrow> nd_next (q_nodes q ! x) = None \<longleftrightarrow> Suc i = length (q_chain q)"
  by (auto simp: chain_ok_def at_pos_def split: if_splits)

lemma head_at: "chain_ok q \<Longrightarrow> at_pos q (q_popped q) (q_head q)"
  by (simp add: chain_ok_def)

lemma head_now: "chain_ok q \<Longrightarrow> head_reached q (q_head q)"
  using head_at unfolding head_reached_def by blast

lemma tail_linked: "chain_ok q \<Longrightarrow> linked q (q_tail q)"
  by (auto simp: chain_ok_def tail_from_def linked_def)

lemma linked_head: "head_reached q x \<Longrightarrow> linked q x"
  by (auto simp: head_reached_def linked_def)

lemma head_tail_now:
  assumes "chain_ok q" "head_reached q ch"
  shows "head_tail q ch (q_tail q)"
proof -
  obtain i where i: "i \<le> q_popped q" "at_pos q i ch" using assms(2) by (auto simp: head_reached_def)
  obtain k where k: "q_popped q \<le> k" "at_pos q k (q_tail q)" using assms(1) by (auto simp: chain_ok_def tail_from_def)
  then have "tail_from q k" by (auto simp: tail_from_def)
  with i k show ?thesis unfolding head_tail_def by (meson le_trans)
qed

text \<open>A thread sees the head behind the tail it has read: the tail is past the head.\<close>

lemma head_before_tail:
  assumes "chain_ok q" "head_tail q ch ct" "ch \<noteq> ct"
  shows "\<exists>i. at_pos q i ch \<and> tail_from q (Suc i)"
proof -
  obtain i j where ij: "i \<le> j" "at_pos q i ch" "at_pos q j ct" "tail_from q j"
    using assms(2) by (auto simp: head_tail_def)
  then have "i \<noteq> j" using assms(3) at_pos_same by blast
  with ij show ?thesis unfolding tail_from_def by (meson Suc_leI le_neq_implies_less le_trans)
qed

definition same_shape :: "'a mq \<Rightarrow> 'a mq \<Rightarrow> bool" where
  "same_shape q q' \<longleftrightarrow> q_nodes q' = q_nodes q \<and> q_chain q' = q_chain q \<and> q_popped q' = q_popped q \<and>
     q_head q' = q_head q \<and> q_tail q' = q_tail q"

lemma same_shape_facts:
  assumes "same_shape q q'"
  shows "chain_ok q' = chain_ok q" "at_pos q' = at_pos q" "linked q' = linked q" "tail_from q' = tail_from q"
    "later q q'"
proof -
  show a: "at_pos q' = at_pos q" using assms by (intro ext) (simp add: at_pos_def same_shape_def)
  show l: "linked q' = linked q" by (intro ext) (simp add: linked_def a)
  show t: "tail_from q' = tail_from q" using assms by (intro ext) (simp add: tail_from_def a same_shape_def)
  show "chain_ok q' = chain_ok q" using assms by (simp add: chain_ok_def a l t same_shape_def)
  show "later q q'" using assms by (intro later_fields) (simp_all add: same_shape_def)
qed

lemma mq_okI:
  assumes "mq_ok q" "chain_ok q'" "later q q'" "private_ok q'" "pc_ok q' c" "q_pc q' = (q_pc q)(t := c)"
  shows "mq_ok q'"
  using assms later_pc_ok [OF assms(3)] by (simp add: mq_ok_def)

lemma private_kept:
  assumes "private_ok q" "\<And>x. linked q' x \<Longrightarrow> linked q x \<or> own_node (q_pc q t) = Some x \<and> own_node c = None"
    and "length (q_nodes q) \<le> length (q_nodes q')"
    and "\<And>x. x < length (q_nodes q) \<Longrightarrow> \<not> linked q x \<Longrightarrow> nd_next (q_nodes q' ! x) = nd_next (q_nodes q ! x)"
    and "q_pc q' = (q_pc q)(t := c)"
    and "own_node c = None \<or> own_node c = own_node (q_pc q t)"
  shows "private_ok q'"
  unfolding private_ok_def
proof (intro allI impI)
  fix u n
  assume "own_node (q_pc q' u) = Some n"
  then have o: "own_node (q_pc q u) = Some n" and c: "u = t \<Longrightarrow> own_node c = Some n"
    using assms(5,6) by (auto split: if_splits)
  have p: "n < length (q_nodes q)" "\<not> linked q n" "nd_next (q_nodes q ! n) = None"
    "\<And>t'. own_node (q_pc q t') = Some n \<Longrightarrow> t' = u"
    using assms(1) o unfolding private_ok_def by blast+
  have "t' = u" if "own_node (q_pc q' t') = Some n" for t'
    using that assms(5,6) p(4) by (auto split: if_splits)
  moreover have "\<not> linked q' n"
    using assms(2) [of n] p(2,4) c by fastforce
  ultimately show "n < length (q_nodes q') \<and> \<not> linked q' n \<and> nd_next (q_nodes q' ! n) = None \<and>
      (\<forall>t'. own_node (q_pc q' t') = Some n \<longrightarrow> t' = u)"
    using p(1-3) assms(3,4) by simp
qed

lemma quiet_step:
  assumes "mq_ok q" "same_shape q q'" "q_pc q' = (q_pc q)(t := c)" "pc_ok q c"
    and "own_node c = None \<or> own_node c = own_node (q_pc q t)"
  shows "mq_ok q'"
proof (rule mq_okI [OF assms(1) _ _ _ _ assms(3)])
  note s = same_shape_facts [OF assms(2)]
  show "chain_ok q'" "later q q'" using assms(1) s by (simp_all add: mq_ok_def)
  then show "pc_ok q' c" using assms(4) by (rule_tac later_pc_ok)
  show "private_ok q'"
    by (rule private_kept [where q = q and t = t and c = c])
      (use assms s in \<open>auto simp: mq_ok_def same_shape_def\<close>)
qed

text \<open>The tail moves one node on.\<close>

lemma tail_step:
  assumes ok: "mq_ok q" and f: "follows q ct x" and c: "pc_ok q c"
    and own: "own_node c = None \<or> own_node c = own_node (q_pc q t)"
  shows "mq_ok (goto t c (cas_tail b ct x q))"
proof (cases "b \<and> q_tail q = ct")
  case False
  then have "cas_tail b ct x q = q" by (auto simp: cas_tail_def)
  then show ?thesis using assms by (intro quiet_step [OF ok]) (simp_all add: same_shape_def goto_def)
next
  case True
  let ?q = "goto t c (cas_tail b ct x q)"
  have q: "?q = q\<lparr>q_tail := x, q_pc := (q_pc q)(t := c)\<rparr>" using True by (simp add: goto_def cas_tail_def)
  have ch: "chain_ok q" using ok by (simp add: mq_ok_def)
  obtain i where i: "at_pos q i (q_tail q)" "at_pos q (Suc i) x" using f True by (auto simp: follows_def)
  have a: "at_pos ?q = at_pos q" by (intro ext) (simp add: q at_pos_def)
  have tf: "tail_from ?q j" if j: "tail_from q j" for j
  proof -
    obtain k where "j \<le> k" "at_pos q k (q_tail q)" using j by (auto simp: tail_from_def)
    then have "j \<le> Suc i" using at_pos_unique [OF ch i(1)] by auto
    then show ?thesis using i(2) unfolding tail_from_def a by (auto simp: q)
  qed
  have l: "linked ?q = linked q" by (intro ext) (simp add: linked_def a)
  have later: "later q ?q" using tf unfolding later_def a by (simp add: q)
  show ?thesis
  proof (rule mq_okI [OF ok _ later])
    show "chain_ok ?q" using ch tf unfolding chain_ok_def a l by (simp add: q)
    show "pc_ok ?q c" using later_pc_ok [OF later c] .
    show "q_pc ?q = (q_pc q)(t := c)" by (simp add: q)
    show "private_ok ?q"
      by (rule private_kept [where q = q and t = t and c = c])
        (use ok own l in \<open>auto simp: mq_ok_def q\<close>)
  qed
qed

text \<open>A node is linked behind the last one.\<close>

lemma link_step:
  assumes ok: "mq_ok q" and pc: "q_pc q t = Enq (E_link n ct)" and last: "nd_next (q_nodes q ! ct) = None"
  shows "mq_ok (goto t (Enq (E_swing n ct)) ((set_next ct (Some n) q)\<lparr>q_chain := q_chain q @ [n]\<rparr>))"
    (is "mq_ok ?q")
proof -
  have ch: "chain_ok q" and pr: "private_ok q" and "pc_ok q (q_pc q t)" using ok by (auto simp: mq_ok_def)
  then obtain i where i: "at_pos q i ct" using pc by (auto simp: linked_def)
  then have len: "Suc i = length (q_chain q)" using next_last [OF ch] last by blast
  have n: "n < length (q_nodes q)" "\<not> linked q n" "nd_next (q_nodes q ! n) = None"
    using privateD [OF pr, of t n] pc by simp_all
  have q: "?q = q\<lparr>q_nodes := (q_nodes q)[ct := (q_nodes q ! ct)\<lparr>nd_next := Some n\<rparr>],
      q_chain := q_chain q @ [n], q_pc := (q_pc q)(t := Enq (E_swing n ct))\<rparr>"
    by (simp add: goto_def set_next_def)
  have a: "at_pos ?q j x \<longleftrightarrow> at_pos q j x \<or> j = Suc i \<and> x = n" for j x
    using len by (auto simp: at_pos_def q nth_append)
  have l: "linked ?q x \<longleftrightarrow> linked q x \<or> x = n" for x by (auto simp: linked_def a)
  have tf: "tail_from q j \<Longrightarrow> tail_from ?q j" for j
    unfolding tail_from_def a by (auto simp: q)
  have later: "later q ?q" using tf unfolding later_def a by (simp add: q)
  have ctn: "ct < length (q_nodes q)" using ch i by (auto simp: chain_ok_def linked_def)
  show ?thesis
  proof (rule mq_okI [OF ok _ later])
    have nx: "nd_next (q_nodes ?q ! x) = (if Suc j < length (q_chain ?q) then Some (q_chain ?q ! Suc j) else None)"
      if "at_pos ?q j x" for j x
    proof (cases "x = ct")
      case True
      have "ct \<noteq> n" using i n(2) by (auto simp: linked_def)
      then have "at_pos q j ct" using that True a by blast
      then have "j = i" using at_pos_unique [OF ch i] by simp
      with True len ctn show ?thesis by (simp add: q nth_append)
    next
      case False
      show ?thesis
      proof (cases "x = n")
        case True
        then have "j = Suc i" using that n(2) by (auto simp: a linked_def)
        with True len False n show ?thesis by (simp add: q)
      next
        case x: False
        then have "at_pos q j x" using that a by blast
        moreover from this have "Suc j < length (q_chain q)"
          using False len i by (auto simp: at_pos_def) (metis Suc_lessI diff_Suc_1)
        ultimately show ?thesis using ch False by (simp add: q nth_append chain_ok_def)
      qed
    qed
    have "distinct (q_chain ?q)"
      using ch n(2) by (auto simp: q chain_ok_def linked_def at_pos_def in_set_conv_nth)
    moreover have "at_pos ?q (q_popped q) (q_head q)" "tail_from ?q (q_popped q)"
      using ch tf by (simp_all add: a chain_ok_def)
    moreover have "\<forall>x. linked ?q x \<longrightarrow> x < length (q_nodes ?q)"
      using ch n(1) unfolding l by (auto simp: q chain_ok_def)
    moreover have "q_popped ?q = q_popped q" "q_head ?q = q_head q" by (simp_all add: q)
    ultimately show "chain_ok ?q" using nx unfolding chain_ok_def by metis
    show "pc_ok ?q (Enq (E_swing n ct))" using i by (auto simp: follows_def a)
    show "q_pc ?q = (q_pc q)(t := Enq (E_swing n ct))" by (simp add: q)
    have "ct \<noteq> x" if "\<not> linked q x" for x using that i by (auto simp: linked_def)
    then have same: "nd_next (q_nodes ?q ! x) = nd_next (q_nodes q ! x)" if "\<not> linked q x" for x
      using that by (simp add: q)
    show "private_ok ?q"
    proof (rule private_kept [OF pr])
      show "linked ?q x \<Longrightarrow> linked q x \<or> own_node (q_pc q t) = Some x \<and> own_node (Enq (E_swing n ct) :: 'a pc) = None" for x
        using l pc by auto
      show "x < length (q_nodes q) \<Longrightarrow> \<not> linked q x \<Longrightarrow> nd_next (q_nodes ?q ! x) = nd_next (q_nodes q ! x)" for x
        using same by blast
    qed (simp_all add: q)
  qed
qed

text \<open>The head moves one node on.\<close>

lemma pop_step:
  assumes ok: "mq_ok q" and pc: "q_pc q t = Deq (D_cas h h' ch x)" and hd: "q_head q = ch"
  shows "mq_ok (goto t (Deq (D_data h h' ch x)) (q\<lparr>q_head := x, q_popped := Suc (q_popped q)\<rparr>))"
    (is "mq_ok ?q")
proof -
  have ch: "chain_ok q" and pr: "private_ok q" and p: "pc_ok q (q_pc q t)" using ok by (auto simp: mq_ok_def)
  have here: "at_pos q (q_popped q) ch" using head_at [OF ch] hd by simp
  have x: "at_pos q (Suc (q_popped q)) x" and tl: "tail_from q (Suc (q_popped q))"
    using p pc at_pos_unique [OF ch here] by (auto simp: follows_def)
  have a: "at_pos ?q = at_pos q" by (intro ext) (simp add: at_pos_def goto_def)
  have l: "linked ?q = linked q" by (intro ext) (simp add: linked_def a)
  have tf: "tail_from ?q = tail_from q" unfolding tail_from_def a by (simp add: goto_def)
  have later: "later q ?q" unfolding later_def a tf by (simp add: goto_def)
  show ?thesis
  proof (rule mq_okI [OF ok _ later])
    show "chain_ok ?q" using ch x tl unfolding chain_ok_def a l tf by (simp add: goto_def)
    show "pc_ok ?q (Deq (D_data h h' ch x))" using here x unfolding pc_ok.simps deq_ok.simps a by (auto simp: goto_def)
    show "q_pc ?q = (q_pc q)(t := Deq (D_data h h' ch x))" by (simp add: goto_def)
    show "private_ok ?q"
      by (rule private_kept [where q = q and t = t and c = "Deq (D_data h h' ch x)"])
        (use pr l in \<open>auto simp: goto_def\<close>)
  qed
qed

text \<open>A call of \<open>enqueue\<close> allocates a node nobody knows.\<close>

lemma alloc_step:
  assumes ok: "mq_ok q" and pc: "q_pc q t = Outside"
  shows "mq_ok (new_node t v q)" (is "mq_ok ?q")
proof -
  have ch: "chain_ok q" and pr: "private_ok q" using ok by (auto simp: mq_ok_def)
  let ?n = "length (q_nodes q)"
  have q: "?q = q\<lparr>q_nodes := q_nodes q @ [\<lparr>nd_data = v, nd_next = None\<rparr>], q_pc := (q_pc q)(t := Enq (E_tail ?n))\<rparr>"
    by (simp add: new_node_def goto_def)
  have a: "at_pos ?q = at_pos q" by (intro ext) (simp add: at_pos_def q)
  have l: "linked ?q = linked q" by (intro ext) (simp add: linked_def a)
  have tf: "tail_from ?q = tail_from q" unfolding tail_from_def a by (simp add: q)
  have later: "later q ?q" unfolding later_def a tf by (simp add: q)
  have bound: "linked q x \<Longrightarrow> x < ?n" for x using ch by (simp add: chain_ok_def)
  have old: "own_node (q_pc q u) = Some m \<Longrightarrow> m < ?n \<and> \<not> linked q m \<and> nd_next (q_nodes q ! m) = None \<and>
      (\<forall>t'. own_node (q_pc q t') = Some m \<longrightarrow> t' = u)" for u m
    by (rule privateD [OF pr])
  show ?thesis
  proof (rule mq_okI [OF ok _ later])
    have "at_pos q i x \<Longrightarrow> x < ?n" for i x using bound by (auto simp: linked_def)
    then show "chain_ok ?q" using ch unfolding chain_ok_def a l tf by (auto simp: q nth_append)
    show "q_pc ?q = (q_pc q)(t := Enq (E_tail ?n))" by (simp add: q)
    show "private_ok ?q"
      unfolding private_ok_def
    proof (intro allI impI)
      fix u m
      assume m: "own_node (q_pc ?q u) = Some m"
      show "m < length (q_nodes ?q) \<and> \<not> linked ?q m \<and> nd_next (q_nodes ?q ! m) = None \<and>
          (\<forall>t'. own_node (q_pc ?q t') = Some m \<longrightarrow> t' = u)"
      proof (cases "u = t")
        case True
        then have "m = ?n" using m by (simp add: q)
        have "\<not> linked q m" using bound [of m] \<open>m = ?n\<close> by auto
        moreover have "own_node (q_pc q t') \<noteq> Some m" for t' using old [of t' m] \<open>m = ?n\<close> by auto
        ultimately show ?thesis using True \<open>m = ?n\<close> unfolding l by (simp add: q)
      next
        case False
        then have "own_node (q_pc q u) = Some m" using m by (simp add: q)
        from old [OF this] show ?thesis unfolding l by (auto simp: q nth_append)
      qed
    qed
  qed simp
qed

lemma enqueue_step_ok:
  assumes ok: "mq_ok q" and pc: "q_pc q t = Enq c"
  shows "mq_ok (enqueue_step t b c q)"
proof -
  have ch: "chain_ok q" and c: "enq_ok q c" using ok pc by (force simp: mq_ok_def dest: spec [of _ t])+
  have quiet: "mq_ok (goto t c' q)" if "pc_ok q c'" "own_node c' = enq_node c" for c'
    using that pc by (intro quiet_step [OF ok, where t = t and c = c']) (simp_all add: same_shape_def goto_def)
  show ?thesis
  proof (cases c)
    case (E_tail n)
    then show ?thesis using tail_linked [OF ch] by (auto intro!: quiet)
  next
    case (E_next n ct)
    then show ?thesis using c next_follows [OF ch] by (auto intro!: quiet)
  next
    case (E_check n ct nx)
    then show ?thesis using c by (auto intro!: quiet split: option.split)
  next
    case (E_link n ct)
    then show ?thesis using c link_step [OF ok, of t n ct] pc by (auto intro!: quiet)
  next
    case (E_swing n ct)
    then show ?thesis using c by (auto intro!: tail_step [OF ok])
  next
    case (E_help n ct x)
    then show ?thesis using c pc by (auto intro!: tail_step [OF ok])
  qed
qed

lemma dequeue_step_ok:
  assumes ok: "mq_ok q" and pc: "q_pc q t = Deq c" and step: "dequeue_step t b c q = Some q'"
  shows "mq_ok q'"
proof -
  have ch: "chain_ok q" and c: "deq_ok q c" using ok pc by (force simp: mq_ok_def dest: spec [of _ t])+
  have quiet: "mq_ok (goto t c' (q\<lparr>q_dom := d\<rparr>))" if "pc_ok q c'" "own_node c' = None" for c' d
    using that by (intro quiet_step [OF ok, where t = t and c = c']) (simp_all add: same_shape_def goto_def)
  have go: "mq_ok (goto t c' q)" if "pc_ok q c'" "own_node c' = None" for c'
    using quiet [OF that, of "q_dom q"] by simp
  show ?thesis
  proof (cases c)
    case (D_help h h' ct x)
    then show ?thesis using c step by (auto intro!: tail_step [OF ok])
  next
    case (D_cas h h' hd x)
    then show ?thesis using step pop_step [OF ok, of t h h' hd x] pc by (auto intro!: go split: if_splits)
  next
    case (D_check2 h h' hd ct nx)
    then show ?thesis
      using step c head_before_tail [OF ch, of hd ct]
      by (auto intro!: go split: if_splits option.splits)
  next
    case (D_next h h' hd ct)
    then show ?thesis
      using step c next_follows [OF ch] linked_head [of q hd] by (auto intro!: go)
  next
    case (D_tail h h' hd)
    then show ?thesis using step c head_tail_now [OF ch] by (auto intro!: go)
  next
    case (D_head h h')
    then show ?thesis using step head_now [OF ch] by (auto intro!: go)
  qed (use step c in \<open>auto simp: acquire_holder_def release_holder_def in_dom_def
        intro!: go quiet split: prod.splits if_splits\<close>)
qed

lemma retire_quiet:
  assumes "RetirePointer_step t c v q = Some q' \<or> Scan_step t s r q = Some q'"
  shows "same_shape q q' \<and> (\<exists>c'. q_pc q' = (q_pc q)(t := c') \<and> own_node c' = None \<and> pc_ok q c')"
proof -
  have "Scan_step t s r q = Some q' \<Longrightarrow> ?thesis"
  proof (cases s)
    case (S_slots k "is" out)
    then show "Scan_step t s r q = Some q' \<Longrightarrow> ?thesis"
      by (cases "is") (auto simp: same_shape_def mq_updates split: if_splits option.splits)
  next
    case (S_delete out)
    then show "Scan_step t s r q = Some q' \<Longrightarrow> ?thesis"
      by (cases out) (auto simp: same_shape_def mq_updates split: if_splits option.splits)
  qed (auto simp: same_shape_def mq_updates split: if_splits)
  moreover have "RetirePointer_step t c v q = Some q' \<Longrightarrow> ?thesis"
    by (cases c) (auto simp: same_shape_def mq_updates split: if_splits)
  ultimately show ?thesis using assms by blast
qed

lemma mq_exec_ok:
  assumes ok: "mq_ok q" and step: "mq_exec t a q = Some q'"
  shows "mq_ok q'"
proof (cases "q_pc q t")
  case Outside
  have "mq_ok (goto t c q)" if "pc_ok q c" "own_node c = None" for c
    using that by (intro quiet_step [OF ok, where t = t and c = c]) (simp_all add: same_shape_def goto_def)
  moreover have "mq_ok (in_dom f q)" for f
    using Outside by (intro quiet_step [OF ok, where t = t and c = Outside])
      (auto simp: same_shape_def in_dom_def)
  ultimately show ?thesis
    using Outside step alloc_step [OF ok Outside] by (cases a) (auto simp: mq_exec_def)
next
  case (Enq c)
  then show ?thesis using step enqueue_step_ok [OF ok Enq] by (auto simp: mq_exec_def split: act.splits)
next
  case (Deq c)
  then show ?thesis using step dequeue_step_ok [OF ok Deq] by (auto simp: mq_exec_def split: act.splits)
next
  case (Retire c v)
  then have "RetirePointer_step t c v q = Some q'" using step by (auto simp: mq_exec_def split: act.splits)
  with retire_quiet [of t c v q q'] show ?thesis using quiet_step [OF ok] by blast
next
  case (Scanning c r)
  then have "Scan_step t c r q = Some q'" using step by (auto simp: mq_exec_def split: act.splits)
  with retire_quiet [of t _ _ q q' c r] show ?thesis using quiet_step [OF ok] by blast
next
  case (Leaving r)
  then show ?thesis using step
    by (intro quiet_step [OF ok, where t = t and c = Outside])
      (auto simp: mq_exec_def same_shape_def goto_def split: act.splits reply.splits)
qed

lemma MPMCQueue_ok: "mq_ok (MPMCQueue junk)"
  by (auto simp: mq_ok_def chain_ok_def private_ok_def MPMCQueue_def at_pos_def linked_def tail_from_def)

end
