(* ===== verification/Mpmc_Reclaim.thy ===== *)
theory Mpmc_Reclaim
  imports Mpmc_Structure
begin

text \<open>
  What the reclamation does to the nodes of the queue. Every node the head has passed is in exactly
  one place (in the hand of the thread that popped it, in a list of retired nodes, picked for
  deletion, deleted), so nothing is deleted twice; a node that a \<open>dequeue\<close> has protected and
  then found still in place is not deleted while it is protected.
\<close>

section \<open>Where the passed nodes are\<close>

datatype place = In_hand nat | Local_list nat | Global_list | Picked nat | Deleted

fun in_hand :: "'a pc \<Rightarrow> nat list" where
  "in_hand (Deq (D_data h h' ch x)) = [ch]"
| "in_hand (Deq (D_release h h' ch v)) = [ch]"
| "in_hand (Deq (D_release2 h' ch v)) = [ch]"
| "in_hand (Retire (R_push p) v) = [p]"
| "in_hand _ = []"

fun picked :: "'a pc \<Rightarrow> nat list" where
  "picked (Scanning (S_next k out) r) = out"
| "picked (Scanning (S_slots k is out) r) = out"
| "picked (Scanning (S_release out) r) = out"
| "picked (Scanning (S_delete out) r) = out"
| "picked _ = []"

fun held :: "'a mq \<Rightarrow> place \<Rightarrow> nat list" where
  "held q (In_hand t) = in_hand (q_pc q t)"
| "held q (Local_list t) = dm_retired_list (q_dom q) t"
| "held q Global_list = dm_global_retired (q_dom q)"
| "held q (Picked t) = picked (q_pc q t)"
| "held q Deleted = q_freed q"

definition spread :: "(place \<Rightarrow> nat list) \<Rightarrow> nat set \<Rightarrow> bool" where
  "spread P S \<longleftrightarrow> (\<forall>a. distinct (P a) \<and> set (P a) \<subseteq> S) \<and>
     (\<forall>a b. a \<noteq> b \<longrightarrow> set (P a) \<inter> set (P b) = {})"

definition passed :: "'a mq \<Rightarrow> nat set" where
  "passed q = set (take (q_popped q) (q_chain q))"

lemma spread_move:
  assumes "spread P S" "a \<noteq> b" "mset xs + mset ys = mset (P a) + mset (P b)"
  shows "spread (P(a := xs, b := ys)) S"
proof -
  have s: "set xs \<union> set ys = set (P a) \<union> set (P b)"
    using arg_cong [OF assms(3), of set_mset] by simp
  have "distinct (P a @ P b)" using assms(1,2) by (simp add: spread_def)
  then have d: "distinct (xs @ ys)" using assms(3) by (metis mset_append mset_eq_imp_distinct_iff)
  have c: "set (P c) \<inter> (set xs \<union> set ys) = {}" if "c \<noteq> a" "c \<noteq> b" for c
    using assms(1) that unfolding s spread_def by blast
  have S: "set xs \<union> set ys \<subseteq> S" using assms(1) unfolding s by (simp add: spread_def)
  let ?P = "P(a := xs, b := ys)"
  have "distinct (?P e) \<and> set (?P e) \<subseteq> S" for e
    using assms(1) d S by (simp add: spread_def)
  moreover have "set (?P e) \<inter> set (?P f) = {}" if "e \<noteq> f" for e f
  proof -
    have "set (P e) \<inter> set (P f) = {}" "set xs \<inter> set ys = {}" "set ys \<inter> set xs = {}"
      using assms(1) that d by (auto simp: spread_def)
    moreover have "set xs \<inter> set (P g) = {} \<and> set ys \<inter> set (P g) = {} \<and> set (P g) \<inter> set xs = {} \<and>
        set (P g) \<inter> set ys = {}" if "g \<noteq> a" "g \<noteq> b" for g
      using c [OF that] by blast
    ultimately show ?thesis using that assms(2) by auto
  qed
  ultimately show ?thesis unfolding spread_def by blast
qed

lemma spread_gain:
  assumes "spread P S" "x \<notin> S" "P a = []"
  shows "spread (P(a := [x])) (insert x S)"
proof -
  have "distinct (P c) \<and> set (P c) \<subseteq> S \<and> x \<notin> set (P c)" for c
    using assms(1,2) unfolding spread_def by blast
  moreover have "set (P c) \<inter> set (P e) = {}" if "c \<noteq> e" for c e
    using assms(1) that by (simp add: spread_def)
  ultimately show ?thesis unfolding spread_def by auto
qed

section \<open>The mutex of the retired nodes\<close>

fun has_lock :: "'a pc \<Rightarrow> bool" where
  "has_lock (Retire R_splice v) = True"
| "has_lock (Retire R_check v) = True"
| "has_lock (Retire R_unlock v) = True"
| "has_lock (Scanning S_lock r) = (r \<noteq> None)"
| "has_lock (Scanning S_splice r) = True"
| "has_lock (Scanning S_unlock r) = True"
| "has_lock (Scanning (S_next k out) r) = True"
| "has_lock (Scanning (S_slots k is out) r) = True"
| "has_lock (Scanning (S_release out) r) = True"
| "has_lock _ = False"

text \<open>A scan that \<open>RetirePointer\<close> has called and that got past its first lock.\<close>

fun inner_scan :: "'a pc \<Rightarrow> bool" where
  "inner_scan (Scanning S_lock r) = False"
| "inner_scan (Scanning s r) = (r \<noteq> None)"
| "inner_scan _ = False"

definition lock_ok :: "'a mq \<Rightarrow> bool" where
  "lock_ok q \<longleftrightarrow> (\<forall>t. has_lock (q_pc q t) \<longleftrightarrow> dm_retired_mutex (q_dom q) = Some t) \<and>
     (\<forall>t. \<not> inner_scan (q_pc q t))"

lemma lock_frame:
  assumes "lock_ok q" "q_pc q' = (q_pc q)(t := c)" "\<not> inner_scan c"
    and "if has_lock c = has_lock (q_pc q t) then dm_retired_mutex (q_dom q') = dm_retired_mutex (q_dom q)
         else if has_lock c then dm_retired_mutex (q_dom q) = None \<and> dm_retired_mutex (q_dom q') = Some t
         else dm_retired_mutex (q_dom q') = None"
  shows "lock_ok q'"
  using assms unfolding lock_ok_def by (auto split: if_splits)

lemma acquire_mutex: "acquire t d = (i, d') \<Longrightarrow> dm_retired_mutex d' = dm_retired_mutex d"
  by (auto simp: acquire_def split: option.splits)

lemma release_mutex: "release t h d = Some d' \<Longrightarrow> dm_retired_mutex d' = dm_retired_mutex d"
  by (auto simp: release_def Let_def split: if_splits)

text \<open>What a step does to the program counters: one thread moves on.\<close>

lemma enqueue_step_pc:
  "let q' = enqueue_step t b c q in q_pc q' = (q_pc q)(t := q_pc q' t) \<and> \<not> has_lock (q_pc q' t) \<and>
     \<not> inner_scan (q_pc q' t) \<and> q_dom q' = q_dom q"
  by (cases c) (auto simp: mq_updates Let_def split: option.splits if_splits)

lemma lock_step:
  assumes ok: "lock_ok q" and step: "mq_exec t a q = Some q'"
  shows "lock_ok q'"
proof -
  have pc: "\<not> inner_scan (q_pc q t)" "has_lock (q_pc q t) \<longleftrightarrow> dm_retired_mutex (q_dom q) = Some t"
    using ok by (simp_all add: lock_ok_def)
  show ?thesis
  proof (cases "q_pc q t")
    case Outside
    then show ?thesis using step
      by (intro lock_frame [OF ok, where t = t and c = "q_pc q' t"])
        (cases a; auto simp: mq_exec_def mq_updates domain_defs)+
  next
    case (Enq c)
    then show ?thesis using step enqueue_step_pc [of t _ c q]
      by (intro lock_frame [OF ok, where t = t and c = "q_pc q' t"])
        (cases a; auto simp: mq_exec_def Let_def)+
  next
    case (Deq c)
    then show ?thesis using step
      by (intro lock_frame [OF ok, where t = t and c = "q_pc q' t"])
        (cases c; cases a; auto simp: mq_exec_def mq_updates protect_def acquire_mutex release_mutex
          split: if_splits option.splits prod.splits)+
  next
    case (Retire c v)
    then show ?thesis using step
      by (intro lock_frame [OF ok, where t = t and c = "q_pc q' t"])
        (cases c; cases a; auto simp: mq_exec_def mq_updates domain_defs split: if_splits)+
  next
    case (Scanning s r)
    show ?thesis
    proof (cases s)
      case (S_slots k "is" out)
      then show ?thesis using step Scanning pc
        by (intro lock_frame [OF ok, where t = t and c = "q_pc q' t"])
          (cases "is"; cases a; auto simp: mq_exec_def mq_updates domain_defs split: if_splits)+
    next
      case (S_delete out)
      then show ?thesis using step Scanning pc
        by (intro lock_frame [OF ok, where t = t and c = "q_pc q' t"])
          (cases out; cases a; auto simp: mq_exec_def mq_updates domain_defs split: if_splits option.splits)+
    qed (use step Scanning pc in \<open>intro lock_frame [OF ok, where t = t and c = "q_pc q' t"];
        cases a; auto simp: mq_exec_def mq_updates domain_defs split: if_splits\<close>)+
  next
    case (Leaving r)
    then show ?thesis using step
      by (intro lock_frame [OF ok, where t = t and c = "q_pc q' t"])
        (cases a; cases r; auto simp: mq_exec_def mq_updates)+
  qed
qed

section \<open>The hazard pointers of a thread\<close>

fun slots_of :: "'a pc \<Rightarrow> nat list" where
  "slots_of (Deq c) =
     (case c of
        D_holder \<Rightarrow> [] | D_holder2 h \<Rightarrow> [h] | D_head h h' \<Rightarrow> [h, h'] | D_protect h h' ch \<Rightarrow> [h, h']
      | D_check h h' ch \<Rightarrow> [h, h'] | D_tail h h' ch \<Rightarrow> [h, h'] | D_next h h' ch ct \<Rightarrow> [h, h']
      | D_protect2 h h' ch ct nx \<Rightarrow> [h, h'] | D_check2 h h' ch ct nx \<Rightarrow> [h, h']
      | D_help h h' ct x \<Rightarrow> [h, h'] | D_cas h h' ch x \<Rightarrow> [h, h'] | D_data h h' ch x \<Rightarrow> [h, h']
      | D_release h h' ch v \<Rightarrow> [h, h'] | D_release2 h' ch v \<Rightarrow> [h'] | D_empty h h' \<Rightarrow> [h, h']
      | D_empty2 h \<Rightarrow> [h])"
| "slots_of _ = []"

text \<open>What the slots hold, and which of it was found in place after it was put there.\<close>

fun marks :: "'a pc \<Rightarrow> (nat \<times> nat) list" where
  "marks (Deq (D_check h h' ch)) = [(h, ch)]"
| "marks (Deq (D_tail h h' ch)) = [(h, ch)]"
| "marks (Deq (D_next h h' ch ct)) = [(h, ch)]"
| "marks (Deq (D_protect2 h h' ch ct nx)) = [(h, ch)]"
| "marks (Deq (D_check2 h h' ch ct nx)) = (h, ch) # (case nx of None \<Rightarrow> [] | Some x \<Rightarrow> [(h', x)])"
| "marks (Deq (D_cas h h' ch x)) = [(h, ch), (h', x)]"
| "marks (Deq (D_data h h' ch x)) = [(h', x)]"
| "marks _ = []"

fun guards :: "'a pc \<Rightarrow> (nat \<times> nat) list" where
  "guards (Deq (D_check h h' ch)) = []"
| "guards (Deq (D_check2 h h' ch ct nx)) = [(h, ch)]"
| "guards c = marks c"

definition thread_slots :: "hp_domain \<Rightarrow> nat \<Rightarrow> 'a pc \<Rightarrow> bool" where
  "thread_slots d t c \<longleftrightarrow> distinct (slots_of c) \<and>
     (\<forall>h \<in> set (slots_of c). h < length (dm_slots d) \<and> slot_owner (dm_slots d ! h) = Some t) \<and>
     (\<forall>(h, x) \<in> set (marks c). hazard_ptr (dm_slots d ! h) = Some x)"

definition slots_ok :: "'a mq \<Rightarrow> bool" where
  "slots_ok q \<longleftrightarrow> (\<forall>t. thread_slots (q_dom q) t (q_pc q t))"

text \<open>A step of a thread leaves the slots of the others alone.\<close>

definition others_kept :: "nat \<Rightarrow> hp_domain \<Rightarrow> hp_domain \<Rightarrow> bool" where
  "others_kept t d d' \<longleftrightarrow> length (dm_slots d) \<le> length (dm_slots d') \<and>
     (\<forall>j < length (dm_slots d). slot_owner (dm_slots d ! j) \<notin> {None, Some t} \<longrightarrow> dm_slots d' ! j = dm_slots d ! j)"

lemma marks_slots: "(h, x) \<in> set (marks c) \<Longrightarrow> h \<in> set (slots_of c)"
  by (cases c rule: marks.cases) (auto split: option.splits)

lemma slots_frame:
  assumes "slots_ok q" "q_pc q' = (q_pc q)(t := c)" "others_kept t (q_dom q) (q_dom q')"
    and "thread_slots (q_dom q') t c"
  shows "slots_ok q'"
  unfolding slots_ok_def
proof
  fix u
  show "thread_slots (q_dom q') u (q_pc q' u)"
  proof (cases "u = t")
    case False
    have u: "thread_slots (q_dom q) u (q_pc q u)" using assms(1) by (simp add: slots_ok_def)
    have same: "dm_slots (q_dom q') ! h = dm_slots (q_dom q) ! h \<and> h < length (dm_slots (q_dom q'))"
      if "h \<in> set (slots_of (q_pc q u))" for h
    proof -
      have "h < length (dm_slots (q_dom q))" "slot_owner (dm_slots (q_dom q) ! h) = Some u"
        using u that by (simp_all add: thread_slots_def)
      then show ?thesis using assms(3) False unfolding others_kept_def by force
    qed
    have "q_pc q' u = q_pc q u" using assms(2) False by simp
    then show ?thesis
      using u same marks_slots [of _ _ "q_pc q u"] unfolding thread_slots_def by fastforce
  qed (use assms(2,4) in simp)
qed

lemma others_kept_same [simp]: "dm_slots d' = dm_slots d \<Longrightarrow> others_kept t d d'"
  by (simp add: others_kept_def)

lemma others_kept_acquire:
  assumes "acquire t d = (i, d')"
  shows "others_kept t d d'"
  using acquire_owner(3,4,5) [OF assms] unfolding others_kept_def by (metis insertI1)

lemma others_kept_own:
  assumes "slot_owner (dm_slots d ! h) = Some t" "dm_slots d' = (dm_slots d)[h := s]"
  shows "others_kept t d d'"
proof -
  have "dm_slots d' ! j = dm_slots d ! j" if "slot_owner (dm_slots d ! j) \<notin> {None, Some t}" for j
  proof -
    have "h \<noteq> j" using that assms(1) by auto
    then show ?thesis by (simp add: assms(2))
  qed
  then show ?thesis by (simp add: others_kept_def assms(2))
qed

text \<open>The three operations on slots, for the thread that runs them.\<close>

lemma acquire_slots:
  assumes "slots_ok q" "acquire t (q_dom q) = (i, d')"
    and "slots_of c = slots_of (q_pc q t) @ [i]" "marks c = []"
  shows "slots_ok (goto t c (q\<lparr>q_dom := d'\<rparr>))"
proof (rule slots_frame [OF assms(1), where t = t and c = c])
  note a = acquire_owner [OF assms(2)]
  have own: "h < length (dm_slots (q_dom q)) \<and> slot_owner (dm_slots (q_dom q) ! h) = Some t" "distinct (slots_of (q_pc q t))"
    if "h \<in> set (slots_of (q_pc q t))" for h
    using assms(1) that by (auto simp: slots_ok_def thread_slots_def)
  have d: "distinct (slots_of (q_pc q t))" using assms(1) by (simp add: slots_ok_def thread_slots_def)
  have "i \<notin> set (slots_of (q_pc q t))" using own a(3) by force
  moreover have "h < length (dm_slots d') \<and> slot_owner (dm_slots d' ! h) = Some t"
    if "h \<in> set (slots_of (q_pc q t))" for h
    using own(1) [OF that] a(3,5) a(4) [of h] by force
  ultimately show "thread_slots (q_dom (goto t c (q\<lparr>q_dom := d'\<rparr>))) t c"
    using a(1,2) d by (auto simp: thread_slots_def assms(3,4) goto_def)
  show "others_kept t (q_dom q) (q_dom (goto t c (q\<lparr>q_dom := d'\<rparr>)))"
    using others_kept_acquire [OF assms(2)] by (simp add: goto_def)
qed (simp add: goto_def)

lemma release_slots:
  assumes "slots_ok q" "h \<in> set (slots_of (q_pc q t))"
    and "set (slots_of c) = set (slots_of (q_pc q t)) - {h}" "distinct (slots_of c)" "marks c = []"
  shows "\<exists>d'. release t h (q_dom q) = Some d' \<and> slots_ok (goto t c (q\<lparr>q_dom := d'\<rparr>))"
proof -
  let ?d = "(q_dom q)\<lparr>dm_slots := (dm_slots (q_dom q))[h := \<lparr>hazard_ptr = None, slot_owner = None\<rparr>]\<rparr>"
  have own: "g < length (dm_slots (q_dom q)) \<and> slot_owner (dm_slots (q_dom q) ! g) = Some t"
    if "g \<in> set (slots_of (q_pc q t))" for g
    using assms(1) that by (auto simp: slots_ok_def thread_slots_def)
  have r: "release t h (q_dom q) = Some ?d" using own [OF assms(2)] by (simp add: release_owned)
  have "slots_ok (goto t c (q\<lparr>q_dom := ?d\<rparr>))"
  proof (rule slots_frame [OF assms(1), where t = t and c = c])
    show "others_kept t (q_dom q) (q_dom (goto t c (q\<lparr>q_dom := ?d\<rparr>)))"
      by (rule others_kept_own [where h = h]) (use own [OF assms(2)] in \<open>simp_all add: goto_def\<close>)
    show "thread_slots (q_dom (goto t c (q\<lparr>q_dom := ?d\<rparr>))) t c"
      using own assms(3-5) by (auto simp: thread_slots_def goto_def)
  qed (simp add: goto_def)
  with r show ?thesis by blast
qed

lemma protect_slots:
  assumes "slots_ok q" "h \<in> set (slots_of (q_pc q t))" "slots_of c = slots_of (q_pc q t)"
    and "\<And>g x. (g, x) \<in> set (marks c) \<Longrightarrow> g = h \<and> p = Some x \<or> g \<noteq> h \<and> (g, x) \<in> set (marks (q_pc q t))"
  shows "slots_ok (goto t c (in_dom (protect h p) q))"
proof (rule slots_frame [OF assms(1), where t = t and c = c])
  have own: "g < length (dm_slots (q_dom q)) \<and> slot_owner (dm_slots (q_dom q) ! g) = Some t"
    if "g \<in> set (slots_of (q_pc q t))" for g
    using assms(1) that by (auto simp: slots_ok_def thread_slots_def)
  have old: "distinct (slots_of (q_pc q t))" "\<And>g x. (g, x) \<in> set (marks (q_pc q t)) \<Longrightarrow>
      hazard_ptr (dm_slots (q_dom q) ! g) = Some x"
    using assms(1) by (auto simp: slots_ok_def thread_slots_def)
  show "others_kept t (q_dom q) (q_dom (goto t c (in_dom (protect h p) q)))"
    by (rule others_kept_own [where h = h])
      (use own [OF assms(2)] in \<open>simp_all add: goto_def in_dom_def protect_def\<close>)
  have "hazard_ptr ((dm_slots (q_dom q))[h := (dm_slots (q_dom q) ! h)\<lparr>hazard_ptr := p\<rparr>] ! g) = Some x"
    if "(g, x) \<in> set (marks c)" for g x
    using assms(4) [OF that] old(2) own [OF assms(2)] by auto
  moreover have "slot_owner ((dm_slots (q_dom q))[h := (dm_slots (q_dom q) ! h)\<lparr>hazard_ptr := p\<rparr>] ! g) = Some t"
    if "g \<in> set (slots_of c)" for g
    using own assms(3) that by (cases "g = h") auto
  ultimately show "thread_slots (q_dom (goto t c (in_dom (protect h p) q))) t c"
    using old(1) own by (auto simp: thread_slots_def goto_def in_dom_def protect_def assms(3))
qed (simp add: goto_def in_dom_def)

lemma quiet_slots:
  assumes "slots_ok q" "dm_slots (q_dom q') = dm_slots (q_dom q)" "q_pc q' = (q_pc q)(t := c)"
    and "slots_of c = slots_of (q_pc q t) \<or> slots_of c = []" "set (marks c) \<subseteq> set (marks (q_pc q t))"
  shows "slots_ok q'"
proof (rule slots_frame [OF assms(1,3)])
  have "thread_slots (q_dom q) t (q_pc q t)" using assms(1) by (simp add: slots_ok_def)
  then show "thread_slots (q_dom q') t c" using assms(2,4,5) unfolding thread_slots_def by fastforce
qed (simp add: assms(2))

lemma dequeue_slots:
  assumes ok: "slots_ok q" and pc: "q_pc q t = Deq c"
  shows "\<exists>q'. dequeue_step t b c q = Some q' \<and> slots_ok q'"
proof (cases c)
  case D_holder
  then show ?thesis using acquire_slots [OF ok, of t] pc by (auto simp: acquire_holder_def split: prod.split)
next
  case (D_holder2 h)
  then show ?thesis using acquire_slots [OF ok, of t] pc by (auto simp: acquire_holder_def split: prod.split)
next
  case (D_protect h h' ch)
  then show ?thesis using pc by (auto intro!: protect_slots [OF ok])
next
  case (D_protect2 h h' ch ct nx)
  then have "h \<noteq> h'" using ok pc by (fastforce simp: slots_ok_def thread_slots_def dest: spec [of _ t])
  then show ?thesis using D_protect2 pc by (auto intro!: protect_slots [OF ok] split: option.splits)
next
  case (D_release h h' ch v)
  then have "h \<noteq> h'" using ok pc by (fastforce simp: slots_ok_def thread_slots_def dest: spec [of _ t])
  then show ?thesis using release_slots [OF ok, of h t "Deq (D_release2 h' ch v)"] D_release pc
    by (auto simp: release_holder_def)
next
  case (D_release2 h' ch v)
  then show ?thesis using release_slots [OF ok, of h' t "Retire (R_push ch) v"] pc
    by (auto simp: release_holder_def)
next
  case (D_empty h h')
  then have "h \<noteq> h'" using ok pc by (fastforce simp: slots_ok_def thread_slots_def dest: spec [of _ t])
  then show ?thesis using release_slots [OF ok, of h' t "Deq (D_empty2 h)"] D_empty pc
    by (auto simp: release_holder_def)
next
  case (D_empty2 h)
  then show ?thesis using release_slots [OF ok, of h t "Leaving Found_empty"] pc
    by (auto simp: release_holder_def)
qed (use pc in \<open>auto simp: mq_updates intro!: quiet_slots [OF ok, where t = t] split: option.splits\<close>)

lemma Scan_step_slots:
  assumes "Scan_step t s r q = Some q'"
  shows "dm_slots (q_dom q') = dm_slots (q_dom q) \<and> q_pc q' = (q_pc q)(t := q_pc q' t) \<and>
     slots_of (q_pc q' t) = [] \<and> marks (q_pc q' t) = []"
proof (cases s)
  case (S_slots k "is" out)
  then show ?thesis using assms by (cases "is") (auto simp: mq_updates domain_defs split: if_splits)
next
  case (S_delete out)
  then show ?thesis using assms by (cases out; cases r) (auto simp: mq_updates)
qed (use assms in \<open>auto simp: mq_updates set_mutex_def split: if_splits\<close>)

lemma slots_step:
  assumes ok: "slots_ok q" and step: "mq_exec t a q = Some q'"
  shows "slots_ok q'"
proof (cases "q_pc q t")
  case Outside
  then show ?thesis using step
    by (intro quiet_slots [OF ok, where t = t and c = "q_pc q' t"])
      (cases a; auto simp: mq_exec_def mq_updates domain_defs)+
next
  case (Enq c)
  then show ?thesis using step
    by (intro quiet_slots [OF ok, where t = t and c = "q_pc q' t"])
      (cases a; cases c; auto simp: mq_exec_def mq_updates split: option.splits if_splits)+
next
  case (Deq c)
  then obtain b where "dequeue_step t b c q = Some q'" using step by (cases a) (auto simp: mq_exec_def)
  then show ?thesis using dequeue_slots [OF ok Deq, of b] by simp
next
  case (Retire c v)
  then show ?thesis using step
    by (intro quiet_slots [OF ok, where t = t and c = "q_pc q' t"])
      (cases a; cases c; auto simp: mq_exec_def mq_updates domain_defs split: if_splits)+
next
  case (Scanning s r)
  then have "Scan_step t s r q = Some q'" using step by (cases a) (auto simp: mq_exec_def)
  from Scan_step_slots [OF this] show ?thesis
    by (intro quiet_slots [OF ok, where t = t and c = "q_pc q' t"]) auto
next
  case (Leaving r)
  then show ?thesis using step
    by (intro quiet_slots [OF ok, where t = t and c = "q_pc q' t"])
      (cases a; cases r; auto simp: mq_exec_def mq_updates)+
qed

section \<open>No node is in two places\<close>

lemma held_eq: "held q = (\<lambda>p. case p of In_hand t \<Rightarrow> in_hand (q_pc q t) | Local_list t \<Rightarrow> dm_retired_list (q_dom q) t
    | Global_list \<Rightarrow> dm_global_retired (q_dom q) | Picked t \<Rightarrow> picked (q_pc q t) | Deleted \<Rightarrow> q_freed q)"
  by (rule ext) (simp split: place.split)

lemma held_quiet:
  assumes "q_pc q' = (q_pc q)(t := c)" "in_hand c = in_hand (q_pc q t)" "picked c = picked (q_pc q t)"
    and "dm_retired_list (q_dom q') = dm_retired_list (q_dom q)"
    and "dm_global_retired (q_dom q') = dm_global_retired (q_dom q)" "q_freed q' = q_freed q"
  shows "held q' = held q"
  using assms by (auto simp: held_eq fun_eq_iff split: place.split)

lemma passed_link: "mq_ok q \<Longrightarrow> q_chain q' = q_chain q @ xs \<Longrightarrow> q_popped q' = q_popped q \<Longrightarrow> passed q' = passed q"
  by (simp add: passed_def mq_ok_def chain_ok_def at_pos_def)

definition spread_ok :: "'a mq \<Rightarrow> bool" where
  "spread_ok q \<longleftrightarrow> spread (held q) (passed q)"

lemma spread_quiet:
  "spread_ok q \<Longrightarrow> held q' = held q \<Longrightarrow> passed q' = passed q \<Longrightarrow> spread_ok q'"
  by (simp add: spread_ok_def)

lemma spread_moved:
  assumes "spread_ok q" "a \<noteq> b" "held q' = (held q)(a := xs, b := ys)" "passed q' = passed q"
    and "mset xs + mset ys = mset (held q a) + mset (held q b)"
  shows "spread_ok q'"
  using spread_move [OF _ assms(2,5)] assms(1,3,4) by (simp add: spread_ok_def)

text \<open>The places when the lists of retired nodes are those of a domain.\<close>

fun with_lists :: "hp_domain \<Rightarrow> (place \<Rightarrow> nat list) \<Rightarrow> place \<Rightarrow> nat list" where
  "with_lists d P (Local_list t) = dm_retired_list d t"
| "with_lists d P Global_list = dm_global_retired d"
| "with_lists d P p = P p"

lemma with_lists_splice:
  assumes "spread (with_lists d P) S"
  shows "spread (with_lists (splice t d) P) S"
proof -
  have "with_lists (splice t d) P =
      (with_lists d P)(Local_list t := [], Global_list := dm_global_retired d @ dm_retired_list d t)"
  proof
    fix p
    show "with_lists (splice t d) P p =
        ((with_lists d P)(Local_list t := [], Global_list := dm_global_retired d @ dm_retired_list d t)) p"
      by (cases p) (auto simp: splice_def)
  qed
  then show ?thesis by (simp only:) (rule spread_move [OF assms], simp_all)
qed

lemma fold_splice: "spread (with_lists d P) S \<Longrightarrow> spread (with_lists (fold splice ts d) P) S"
  by (induction ts arbitrary: d) (simp_all add: with_lists_splice)

lemma held_with_lists: "with_lists (q_dom q) (held q) = held q"
proof
  fix p
  show "with_lists (q_dom q) (held q) p = held q p" by (cases p) simp_all
qed

lemma pop_gain:
  assumes "mq_ok q" "q_head q = ch"
  shows "ch \<notin> passed q \<and> set (take (Suc (q_popped q)) (q_chain q)) = insert ch (passed q)"
proof -
  have c: "q_popped q < length (q_chain q)" "q_chain q ! q_popped q = ch" "distinct (q_chain q)"
    using assms by (auto simp: mq_ok_def chain_ok_def at_pos_def)
  then have "take (Suc (q_popped q)) (q_chain q) = take (q_popped q) (q_chain q) @ [ch]"
    by (simp add: take_Suc_conv_app_nth)
  moreover have "ch \<notin> set (take (q_popped q) (q_chain q))"
    using c by (auto simp: in_set_conv_nth nth_eq_iff_index_eq)
  ultimately show ?thesis by (auto simp: passed_def)
qed

text \<open>A node beyond the head is in no place.\<close>

lemma spread_retired: "spread_ok q \<Longrightarrow> x \<in> set (held q p) \<Longrightarrow> x \<in> passed q"
  unfolding spread_ok_def spread_def by blast

lemma head_not_passed: "mq_ok q \<Longrightarrow> q_head q \<notin> passed q"
  using pop_gain by blast

lemma follower_not_passed:
  assumes "mq_ok q" "follows q (q_head q) x"
  shows "x \<notin> passed q"
proof -
  have ok: "chain_ok q" using assms(1) by (simp add: mq_ok_def)
  obtain i where "at_pos q i (q_head q)" "at_pos q (Suc i) x" using assms(2) by (auto simp: follows_def)
  then have "at_pos q (Suc (q_popped q)) x" using head_at [OF ok] at_pos_unique [OF ok] by blast
  then show ?thesis
    using ok by (auto simp: passed_def chain_ok_def at_pos_def in_set_conv_nth nth_eq_iff_index_eq)
qed

lemma erase_mset:
  "k < length xs \<Longrightarrow> mset (take k xs @ drop (Suc k) xs) + mset (ys @ [xs ! k]) = mset xs + mset ys"
  using arg_cong [OF id_take_nth_drop [of k xs], of mset] by simp

lemma Scan_spread:
  assumes ok: "spread_ok q" and pc: "q_pc q t = Scanning s r" and step: "Scan_step t s r q = Some q'"
    and k: "\<And>k is out. s = S_slots k is out \<Longrightarrow> k < length (dm_global_retired (q_dom q))"
  shows "spread_ok q'"
proof -
  have same: "passed q' = passed q"
    using retire_quiet [of t R_size undefined q q' s r] step by (simp add: passed_def same_shape_def)
  show ?thesis
  proof (cases s)
    case S_splice
    have q': "q' = q\<lparr>q_dom := splice_all (q_dom q), q_pc := (q_pc q)(t := Scanning S_unlock r)\<rparr>"
      using step S_splice by (simp add: mq_updates)
    have "held q' p = with_lists (splice_all (q_dom q)) (held q) p" for p
      using pc S_splice by (cases p) (auto simp: q')
    then have "held q' = with_lists (splice_all (q_dom q)) (held q)" by (rule ext)
    then show ?thesis
      using fold_splice [of "q_dom q" "held q" "passed q" "dm_all_threads (q_dom q)"] ok same
      by (simp add: spread_ok_def splice_all_def held_with_lists)
  next
    case (S_slots k "is" out)
    show ?thesis
    proof (cases "is")
      case Nil
      let ?p = "dm_global_retired (q_dom q) ! k"
      have q': "q' = q\<lparr>q_dom := erase_at k (q_dom q), q_pc := (q_pc q)(t := Scanning (S_next k (out @ [?p])) r)\<rparr>"
        using step S_slots Nil by (simp add: mq_updates)
      show ?thesis
      proof (rule spread_moved [OF ok, where a = Global_list and b = "Picked t" and q' = q'])
        show "held q' = (held q)(Global_list := take k (dm_global_retired (q_dom q)) @ drop (Suc k) (dm_global_retired (q_dom q)),
            Picked t := out @ [?p])"
          using pc S_slots by (auto simp: q' held_eq fun_eq_iff erase_at_def split: place.split)
        show "mset (take k (dm_global_retired (q_dom q)) @ drop (Suc k) (dm_global_retired (q_dom q))) + mset (out @ [?p]) =
            mset (held q Global_list) + mset (held q (Picked t))"
          using erase_mset [OF k [OF S_slots]] pc S_slots by simp
      qed (simp_all add: same)
    next
      case (Cons i is')
      then show ?thesis using step S_slots pc
        by (intro spread_quiet [OF ok _ same] held_quiet [where t = t and c = "q_pc q' t"])
          (auto simp: mq_updates split: if_splits)
    qed
  next
    case (S_delete out)
    show ?thesis
    proof (cases out)
      case Nil
      then show ?thesis using step S_delete pc
        by (intro spread_quiet [OF ok _ same] held_quiet [where t = t and c = "q_pc q' t"])
          (auto simp: mq_updates split: option.splits)
    next
      case (Cons p ps)
      show ?thesis
        by (rule spread_moved [OF ok, where a = "Picked t" and b = Deleted and q' = q' and xs = ps and ys = "q_freed q @ [p]"])
          (use step S_delete Cons pc same in
            \<open>auto simp: mq_updates held_eq fun_eq_iff split: place.split\<close>)
    qed
  qed (use step pc in \<open>intro spread_quiet [OF ok _ same] held_quiet [where t = t and c = "q_pc q' t"];
      auto simp: mq_updates set_mutex_def split: if_splits\<close>)+
qed

lemma Retire_spread:
  assumes ok: "spread_ok q" and pc: "q_pc q t = Retire c v" and step: "RetirePointer_step t c v q = Some q'"
  shows "spread_ok q'"
proof -
  have same: "passed q' = passed q"
    using retire_quiet [of t c v q q' S_lock None] step by (simp add: passed_def same_shape_def)
  show ?thesis
  proof (cases c)
    case (R_push p)
    show ?thesis
      by (rule spread_moved [OF ok, where a = "In_hand t" and b = "Local_list t" and q' = q' and xs = "[]"
            and ys = "dm_retired_list (q_dom q) t @ [p]"])
        (use step R_push pc same in
          \<open>auto simp: mq_updates retire_local_def held_eq fun_eq_iff split: place.split\<close>)
  next
    case R_splice
    show ?thesis
      by (rule spread_moved [OF ok, where a = "Local_list t" and b = Global_list and q' = q' and xs = "[]"
            and ys = "dm_global_retired (q_dom q) @ dm_retired_list (q_dom q) t"])
        (use step R_splice pc same in
          \<open>auto simp: mq_updates splice_def held_eq fun_eq_iff split: place.split\<close>)
  qed (use step pc in \<open>intro spread_quiet [OF ok _ same] held_quiet [where t = t and c = "q_pc q' t"];
      auto simp: mq_updates set_mutex_def split: if_splits\<close>)+
qed

lemma enqueue_spread:
  assumes ok: "mq_ok q" "spread_ok q" and pc: "q_pc q t = Enq e"
  shows "spread_ok (enqueue_step t b e q)"
proof (rule spread_quiet [OF ok(2)])
  show "held (enqueue_step t b e q) = held q"
    by (rule held_quiet [where t = t and c = "q_pc (enqueue_step t b e q) t"])
      (use pc in \<open>cases e; auto simp: mq_updates split: option.splits\<close>)+
  show "passed (enqueue_step t b e q) = passed q"
    using passed_link [OF ok(1), of "enqueue_step t b e q" "[]"] passed_link [OF ok(1), of "enqueue_step t b e q" "[the (enq_node e)]"]
    by (cases e) (auto simp: mq_updates split: option.splits if_splits)
qed

lemma release_lists:
  "release t h d = Some d' \<Longrightarrow> dm_retired_list d' = dm_retired_list d \<and> dm_global_retired d' = dm_global_retired d"
  "acquire t d = (h, d') \<Longrightarrow> dm_retired_list d' = dm_retired_list d \<and> dm_global_retired d' = dm_global_retired d"
  by (auto simp: release_def acquire_def Let_def split: if_splits option.splits)

lemma dequeue_spread:
  assumes ok: "mq_ok q" "spread_ok q" and pc: "q_pc q t = Deq c" and step: "dequeue_step t b c q = Some q'"
  shows "spread_ok q'"
proof (cases "\<exists>h h' ch x. c = D_cas h h' ch x \<and> b \<and> q_head q = ch")
  case True
  then obtain h h' ch x where c: "c = D_cas h h' ch x" "b" "q_head q = ch" by blast
  have q': "q' = q\<lparr>q_head := x, q_popped := Suc (q_popped q), q_pc := (q_pc q)(t := Deq (D_data h h' ch x))\<rparr>"
    using step c by (simp add: mq_updates)
  note g = pop_gain [OF ok(1) c(3)]
  have "held q' = (held q)(In_hand t := [ch])"
    using pc c by (auto simp: q' held_eq fun_eq_iff split: place.split)
  moreover have "passed q' = insert ch (passed q)" using g by (simp add: passed_def q')
  ultimately show ?thesis
    using spread_gain [of "held q" "passed q" ch "In_hand t"] ok(2) g pc c by (simp add: spread_ok_def)
next
  case False
  have "held q' = held q"
    by (rule held_quiet [where t = t and c = "q_pc q' t"])
      (use step False pc in \<open>cases c; auto simp: mq_updates protect_def release_lists
          split: if_splits option.splits prod.splits\<close>)+
  moreover have "passed q' = passed q"
    using step False by (cases c) (auto simp: passed_def mq_updates split: if_splits option.splits prod.splits)
  ultimately show ?thesis by (rule spread_quiet [OF ok(2)])
qed

section \<open>A protected node is not deleted\<close>

definition scan_ok :: "'a mq \<Rightarrow> bool" where
  "scan_ok q \<longleftrightarrow> (\<forall>t k is out r. q_pc q t = Scanning (S_slots k is out) r \<longrightarrow>
     k < length (dm_global_retired (q_dom q)))"

text \<open>What a guard excludes: the node is not deleted or picked, and a scan that is asking about it
  has not read the slot yet.\<close>

definition untouched :: "'a mq \<Rightarrow> nat \<Rightarrow> nat \<Rightarrow> bool" where
  "untouched q h x \<longleftrightarrow> x \<notin> set (q_freed q) \<and> (\<forall>u. x \<notin> set (picked (q_pc q u))) \<and>
     (\<forall>u k is out r. q_pc q u = Scanning (S_slots k is out) r \<longrightarrow> dm_global_retired (q_dom q) ! k = x \<longrightarrow> h \<in> set is)"

definition safe_ok :: "'a mq \<Rightarrow> bool" where
  "safe_ok q \<longleftrightarrow> (\<forall>t h x. (h, x) \<in> set (guards (q_pc q t)) \<longrightarrow> untouched q h x)"

definition rec_ok :: "'a mq \<Rightarrow> bool" where
  "rec_ok q \<longleftrightarrow> mq_ok q \<and> lock_ok q \<and> slots_ok q \<and> spread_ok q \<and> scan_ok q \<and> safe_ok q"

lemma slots_pc_lock: "q_pc q u = Scanning (S_slots k is out) r \<Longrightarrow> has_lock (q_pc q u)"
  by simp

lemma lock_unique: "lock_ok q \<Longrightarrow> has_lock (q_pc q t) \<Longrightarrow> has_lock (q_pc q u) \<Longrightarrow> u = t"
  by (simp add: lock_ok_def)

text \<open>A node beyond the head is untouched by everybody.\<close>

lemma fresh_untouched:
  assumes "spread_ok q" "scan_ok q" "x \<notin> passed q"
  shows "untouched q h x"
proof -
  have no: "x \<notin> set (held q p)" for p using spread_retired [OF assms(1)] assms(3) by blast
  have "dm_global_retired (q_dom q) ! k \<noteq> x" if "q_pc q u = Scanning (S_slots k is out) r" for u k "is" out r
  proof -
    have "k < length (dm_global_retired (q_dom q))" using assms(2) that unfolding scan_ok_def by blast
    then have "dm_global_retired (q_dom q) ! k \<in> set (held q Global_list)" by simp
    then show ?thesis using no [of Global_list] by metis
  qed
  then show ?thesis using no [of Deleted] no [of "Picked u" for u] unfolding untouched_def by auto
qed

text \<open>Steps that delete nothing, pick nothing and ask nothing new.\<close>

lemma untouched_quiet:
  assumes "q_pc q' = (q_pc q)(t := c)" "picked c = []" "\<And>k is out r. c \<noteq> Scanning (S_slots k is out) r"
    and "q_freed q' = q_freed q"
    and "\<And>u k is out r. u \<noteq> t \<Longrightarrow> q_pc q u = Scanning (S_slots k is out) r \<Longrightarrow>
      dm_global_retired (q_dom q') ! k = dm_global_retired (q_dom q) ! k"
    and u: "untouched q h x"
  shows "untouched q' h x"
proof -
  have "h \<in> set is" if v: "q_pc q' v = Scanning (S_slots k is out) r" and x: "dm_global_retired (q_dom q') ! k = x"
    for v k "is" out r
  proof -
    have "v \<noteq> t" using v assms(1,3) by auto
    then have "q_pc q v = Scanning (S_slots k is out) r" using v assms(1) by simp
    with x assms(5) [OF \<open>v \<noteq> t\<close>] u show ?thesis unfolding untouched_def by metis
  qed
  moreover have "x \<notin> set (picked (q_pc q' v))" for v using u assms(1,2) by (simp add: untouched_def)
  moreover have "x \<notin> set (q_freed q')" using u assms(4) by (simp add: untouched_def)
  ultimately show ?thesis unfolding untouched_def by blast
qed

lemma scan_quiet:
  assumes "scan_ok q" "q_pc q' = (q_pc q)(t := c)" "\<And>k is out r. c \<noteq> Scanning (S_slots k is out) r"
    and "\<And>u k is out r. u \<noteq> t \<Longrightarrow> q_pc q u = Scanning (S_slots k is out) r \<Longrightarrow>
      length (dm_global_retired (q_dom q)) \<le> length (dm_global_retired (q_dom q'))"
  shows "scan_ok q'"
  unfolding scan_ok_def
proof (intro allI impI)
  fix u k "is" out r
  assume u: "q_pc q' u = Scanning (S_slots k is out) r"
  then have "u \<noteq> t" using assms(2,3) by auto
  then have "q_pc q u = Scanning (S_slots k is out) r" using u assms(2) by simp
  with assms(1,4) \<open>u \<noteq> t\<close> show "k < length (dm_global_retired (q_dom q'))" unfolding scan_ok_def by fastforce
qed

lemma safe_frame:
  assumes "safe_ok q" "q_pc q' = (q_pc q)(t := c)"
    and "\<And>h x. untouched q h x \<Longrightarrow> untouched q' h x"
    and "\<And>h x. (h, x) \<in> set (guards c) \<Longrightarrow> (h, x) \<in> set (guards (q_pc q t)) \<or> untouched q h x"
  shows "safe_ok q'"
  unfolding safe_ok_def
proof (intro allI impI)
  fix u h x
  assume "(h, x) \<in> set (guards (q_pc q' u))"
  then have "untouched q h x"
    using assms(1,2) assms(4) [of h x] unfolding safe_ok_def by (cases "u = t") auto
  then show "untouched q' h x" by (rule assms(3))
qed

text \<open>One step that asks nothing new: its thread keeps or drops its guards, or has just
  found the node in place.\<close>

lemma guarded_step:
  assumes ok: "scan_ok q" "safe_ok q" and pc: "q_pc q' = (q_pc q)(t := c)" "q_freed q' = q_freed q"
    and c: "picked c = []" "\<And>k is out r. c \<noteq> Scanning (S_slots k is out) r"
    and g: "dm_global_retired (q_dom q') = dm_global_retired (q_dom q) \<or> lock_ok q \<and> has_lock (q_pc q t)"
    and s: "\<And>h x. (h, x) \<in> set (guards c) \<Longrightarrow> (h, x) \<in> set (guards (q_pc q t)) \<or> untouched q h x"
  shows "scan_ok q' \<and> safe_ok q'"
proof -
  have same: "dm_global_retired (q_dom q') = dm_global_retired (q_dom q)"
    if "u \<noteq> t" "q_pc q u = Scanning (S_slots k is out) r" for u k "is" out r
    using g lock_unique [of q t u] that by auto
  have "scan_ok q'" by (rule scan_quiet [OF ok(1) pc(1) c(2)]) (simp_all add: same)
  moreover have "untouched q' h x" if "untouched q h x" for h x
    by (rule untouched_quiet [OF pc(1) c pc(2) _ that]) (simp add: same)
  then have "safe_ok q'" using safe_frame [OF ok(2) pc(1) _ s] by blast
  ultimately show ?thesis ..
qed

lemma dequeue_guards:
  assumes ok: "rec_ok q" and pc: "q_pc q t = Deq c" and step: "dequeue_step t b c q = Some q'"
  shows "scan_ok q' \<and> safe_ok q'"
proof -
  have r: "mq_ok q" "spread_ok q" "scan_ok q" "safe_ok q" using ok by (simp_all add: rec_ok_def)
  have p: "pc_ok q (Deq c)" using r(1) pc by (metis mq_ok_def)
  have q': "q_pc q' = (q_pc q)(t := q_pc q' t)" "q_freed q' = q_freed q" "picked (q_pc q' t) = []"
    "\<And>k is out r. q_pc q' t \<noteq> Scanning (S_slots k is out) r"
    "dm_global_retired (q_dom q') = dm_global_retired (q_dom q)"
    using step by (cases c; auto simp: mq_updates protect_def release_lists
        split: if_splits option.splits prod.splits)+
  have "(h, x) \<in> set (guards (q_pc q t)) \<or> untouched q h x" if "(h, x) \<in> set (guards (q_pc q' t))" for h x
  proof (cases c)
    case (D_check g g' ch)
    then show ?thesis
      using that step fresh_untouched [OF r(2,3) head_not_passed [OF r(1)]]
      by (auto simp: mq_updates split: if_splits)
  next
    case (D_check2 g g' ch ct nx)
    have "untouched q h x" if "nx = Some x" "ch = q_head q"
      using fresh_untouched [OF r(2,3) follower_not_passed [OF r(1)]] p D_check2 that by simp
    then show ?thesis
      using that step D_check2 pc by (auto simp: mq_updates split: if_splits option.splits)
  qed (use that step pc in \<open>auto simp: mq_updates split: if_splits option.splits prod.splits\<close>)
  then show ?thesis using guarded_step [OF r(3,4) q'(1-4)] q'(5) by blast
qed

lemma retire_guards:
  assumes ok: "rec_ok q" and pc: "q_pc q t = Retire c v" and step: "RetirePointer_step t c v q = Some q'"
  shows "scan_ok q' \<and> safe_ok q'"
proof -
  have r: "lock_ok q" "scan_ok q" "safe_ok q" using ok by (simp_all add: rec_ok_def)
  show ?thesis
    by (rule guarded_step [OF r(2,3), where t = t and c = "q_pc q' t"])
      (use step pc r(1) in \<open>cases c; auto simp: mq_updates domain_defs split: if_splits\<close>)+
qed

lemma untouched_sub:
  assumes "untouched q h x" "q_pc q' = (q_pc q)(t := c)" "set (q_freed q') \<subseteq> set (q_freed q) \<union> set (picked (q_pc q t))"
    and "x \<notin> set (picked c)"
    and "\<And>k is out r. c = Scanning (S_slots k is out) r \<Longrightarrow> dm_global_retired (q_dom q') ! k = x \<Longrightarrow> h \<in> set is"
    and "\<And>u k is out r. u \<noteq> t \<Longrightarrow> q_pc q u = Scanning (S_slots k is out) r \<Longrightarrow>
      dm_global_retired (q_dom q') = dm_global_retired (q_dom q)"
  shows "untouched q' h x"
proof -
  have "h \<in> set is" if v: "q_pc q' v = Scanning (S_slots k is out) r" and x: "dm_global_retired (q_dom q') ! k = x"
    for v k "is" out r
  proof (cases "v = t")
    case True
    then show ?thesis using v x assms(2,5) by simp
  next
    case False
    then have "q_pc q v = Scanning (S_slots k is out) r" using v assms(2) by simp
    with x assms(1) assms(6) [OF False] show ?thesis unfolding untouched_def by metis
  qed
  moreover have "x \<notin> set (picked (q_pc q' v))" for v
    using assms(1,2,4) by (simp add: untouched_def)
  moreover have "x \<notin> set (q_freed q')" using assms(1,3) by (auto simp: untouched_def)
  ultimately show ?thesis unfolding untouched_def by blast
qed

text \<open>The question about one retired node: the slot of a guard is on the walk until it is read,
  and then the node is kept.\<close>

lemma ask_guards:
  assumes ok: "rec_ok q" and pc: "q_pc q t = Scanning (S_slots k is out) r"
    and step: "reclaim_step t (S_slots k is out) r q = Some q'"
  shows "scan_ok q' \<and> safe_ok q'"
proof -
  have r: "lock_ok q" "slots_ok q" "scan_ok q" "safe_ok q" using ok by (simp_all add: rec_ok_def)
  have k: "k < length (dm_global_retired (q_dom q))" using r(3) pc unfolding scan_ok_def by blast
  have only: "u = t" if "q_pc q u = Scanning (S_slots k' is' out') r'" for u k' is' out' r'
    using lock_unique [OF r(1), of t u] pc that by simp
  have guard: "untouched q h x" "hazard_ptr (dm_slots (q_dom q) ! h) = Some x" if "(h, x) \<in> set (guards (q_pc q u))" for h x u
  proof -
    show "untouched q h x" using r(4) that unfolding safe_ok_def by blast
    have "(h, x) \<in> set (marks (q_pc q u))" using that by (cases "q_pc q u" rule: guards.cases) auto
    then show "hazard_ptr (dm_slots (q_dom q) ! h) = Some x"
      using r(2) unfolding slots_ok_def thread_slots_def by fast
  qed
  have asked: "h \<in> set is" if "(h, dm_global_retired (q_dom q) ! k) \<in> set (guards (q_pc q u))" for h u
    using guard(1) [OF that] pc unfolding untouched_def by blast
  have pcs: "q_pc q' = (q_pc q)(t := q_pc q' t)" "q_freed q' = q_freed q" "guards (q_pc q' t) = []"
    using step by (cases "is"; auto simp: mq_updates split: if_splits)+
  have "untouched q' h x" if g: "(h, x) \<in> set (guards (q_pc q' u))" for h x u
  proof -
    have "u \<noteq> t" using g pcs(3) by auto
    then have g: "(h, x) \<in> set (guards (q_pc q u))" using g pcs(1) by (metis fun_upd_other)
    show ?thesis
    proof (rule untouched_sub [OF guard(1) [OF g] pcs(1)])
      show "x \<notin> set (picked (q_pc q' t))"
        using step guard(1) [OF g] asked [of h u] g pc unfolding untouched_def
        by (cases "is") (auto simp: mq_updates split: if_splits dest: spec [of _ t])
      show "h \<in> set is'" if "q_pc q' t = Scanning (S_slots k' is' out') r'" "dm_global_retired (q_dom q') ! k' = x" for k' is' out' r'
        using step that asked [of h u] g guard(2) [OF g]
        by (cases "is") (auto simp: mq_updates holder_get_def split: if_splits)
    qed (use pcs only in auto)
  qed
  then have "safe_ok q'" unfolding safe_ok_def by blast
  moreover have "scan_ok q'"
    unfolding scan_ok_def
  proof (intro allI impI)
    fix u k' is' out' r'
    assume u: "q_pc q' u = Scanning (S_slots k' is' out') r'"
    have "u = t" using u pcs(1) only by (metis fun_upd_other)
    with u step k show "k' < length (dm_global_retired (q_dom q'))"
      by (cases "is") (auto simp: mq_updates split: if_splits)
  qed
  ultimately show ?thesis by simp
qed

lemma scan_guards:
  assumes ok: "rec_ok q" and pc: "q_pc q t = Scanning s r" and step: "Scan_step t s r q = Some q'"
  shows "scan_ok q' \<and> safe_ok q'"
proof -
  have r: "lock_ok q" "slots_ok q" "scan_ok q" "safe_ok q" using ok by (simp_all add: rec_ok_def)
  have only: "u = t" if "has_lock (q_pc q t)" "q_pc q u = Scanning (S_slots k is out) r'" for u k "is" out r'
    using lock_unique [OF r(1) that(1), of u] that(2) by simp
  have guard: "untouched q h x" "h < length (dm_slots (q_dom q))" if "(h, x) \<in> set (guards (q_pc q u))" for h x u
  proof -
    show "untouched q h x" using r(4) that unfolding safe_ok_def by blast
    have "(h, x) \<in> set (marks (q_pc q u))" using that by (cases "q_pc q u" rule: guards.cases) auto
    then show "h < length (dm_slots (q_dom q))"
      using r(2) marks_slots unfolding slots_ok_def thread_slots_def by blast
  qed
  have lists: "scan_ok q' \<and> safe_ok q'"
    if pcs: "q_pc q' = (q_pc q)(t := c)" and g0: "guards c = []"
      and ask: "\<And>k is out r'. c = Scanning (S_slots k is out) r' \<Longrightarrow>
        k < length (dm_global_retired (q_dom q')) \<and> is = slot_walk (q_dom q)"
      and p: "set (picked c) \<subseteq> set (picked (q_pc q t))"
      and f: "set (q_freed q') \<subseteq> set (q_freed q) \<union> set (picked (q_pc q t))"
      and g: "dm_global_retired (q_dom q') = dm_global_retired (q_dom q)" for c
  proof
    show "scan_ok q'"
      using r(3) pcs ask g unfolding scan_ok_def by (auto split: if_splits)
    have "untouched q' h x" if h: "(h, x) \<in> set (guards (q_pc q u))" for h x u
    proof (rule untouched_sub [OF guard(1) [OF h] pcs f])
      show "x \<notin> set (picked c)" using guard(1) [OF h] p unfolding untouched_def by blast
      show "h \<in> set is" if "c = Scanning (S_slots k is out) r'" for k "is" out r'
        using ask [OF that] guard(2) [OF h] by (simp add: slot_walk_def)
    qed (use g in auto)
    then show "safe_ok q'" using pcs g0 unfolding safe_ok_def by (auto split: if_splits)
  qed
  have go: ?thesis if "picked (q_pc q' t) = []" "guards (q_pc q' t) = []"
      "\<And>k is out r. q_pc q' t \<noteq> Scanning (S_slots k is out) r" "q_freed q' = q_freed q"
      "q_pc q' = (q_pc q)(t := q_pc q' t)"
      "dm_global_retired (q_dom q') = dm_global_retired (q_dom q) \<or> has_lock (q_pc q t)"
    by (rule guarded_step [OF r(3,4) that(5,4,1,3)]) (use that r(1) in auto)
  show ?thesis
  proof (cases s)
    case (S_slots k "is" out)
    then show ?thesis using ask_guards [OF ok] pc step by simp
  next
    case (S_next k out)
    then show ?thesis using step pc
      by (intro lists [where c = "q_pc q' t"]) (auto simp: mq_updates split: if_splits)
  next
    case (S_release out)
    then show ?thesis using step pc
      by (intro lists [where c = "q_pc q' t"]) (auto simp: mq_updates set_mutex_def)
  next
    case (S_delete out)
    then show ?thesis using step pc
      by (intro lists [where c = "q_pc q' t"]; cases out; auto simp: mq_updates split: option.splits)
  qed (use step pc in \<open>intro go; auto simp: mq_updates set_mutex_def split: if_splits\<close>)+
qed

lemma rec_ok_step:
  assumes ok: "rec_ok q" and step: "mq_exec t a q = Some q'"
  shows "rec_ok q'"
proof -
  have r: "mq_ok q" "lock_ok q" "slots_ok q" "spread_ok q" "scan_ok q" "safe_ok q"
    using ok by (simp_all add: rec_ok_def)
  have "spread_ok q' \<and> scan_ok q' \<and> safe_ok q'"
  proof (cases "q_pc q t")
    case (Deq c)
    then obtain b where "dequeue_step t b c q = Some q'" using step by (cases a) (auto simp: mq_exec_def)
    then show ?thesis using dequeue_spread [OF r(1,4) Deq] dequeue_guards [OF ok Deq] by blast
  next
    case (Retire c v)
    then have "RetirePointer_step t c v q = Some q'" using step by (cases a) (auto simp: mq_exec_def)
    then show ?thesis using Retire_spread [OF r(4) Retire] retire_guards [OF ok Retire] by blast
  next
    case (Scanning s r')
    then have "Scan_step t s r' q = Some q'" using step by (cases a) (auto simp: mq_exec_def)
    moreover have "k < length (dm_global_retired (q_dom q))" if "s = S_slots k is out" for k "is" out
      using r(5) Scanning that unfolding scan_ok_def by blast
    ultimately show ?thesis using Scan_spread [OF r(4) Scanning] scan_guards [OF ok Scanning] by blast
  next
    case (Enq e)
    then obtain b where q': "q' = enqueue_step t b e q" using step by (cases a) (auto simp: mq_exec_def)
    have "q_pc q' = (q_pc q)(t := q_pc q' t) \<and> picked (q_pc q' t) = [] \<and> guards (q_pc q' t) = [] \<and>
        (\<forall>k is out r. q_pc q' t \<noteq> Scanning (S_slots k is out) r) \<and> q_freed q' = q_freed q \<and> q_dom q' = q_dom q"
      by (cases e) (auto simp: q' mq_updates split: option.splits)
    then have "scan_ok q' \<and> safe_ok q'"
      by (intro guarded_step [OF r(5,6), where t = t and c = "q_pc q' t"]) auto
    then show ?thesis using enqueue_spread [OF r(1,4) Enq] q' by blast
  next
    case Outside
    have "scan_ok q' \<and> safe_ok q'"
      by (rule guarded_step [OF r(5,6), where t = t and c = "q_pc q' t"])
        (use Outside step in \<open>cases a; auto simp: mq_exec_def mq_updates domain_defs\<close>)+
    moreover have "held q' = held q"
      by (rule held_quiet [where t = t and c = "q_pc q' t"])
        (use Outside step in \<open>cases a; auto simp: mq_exec_def mq_updates domain_defs\<close>)+
    moreover have "passed q' = passed q"
      using Outside step by (cases a) (auto simp: mq_exec_def mq_updates passed_def)
    ultimately show ?thesis using spread_quiet [OF r(4)] by blast
  next
    case (Leaving x)
    have "scan_ok q' \<and> safe_ok q'"
      by (rule guarded_step [OF r(5,6), where t = t and c = "q_pc q' t"])
        (use Leaving step in \<open>cases a; cases x; auto simp: mq_exec_def mq_updates\<close>)+
    moreover have "held q' = held q"
      by (rule held_quiet [where t = t and c = "q_pc q' t"])
        (use Leaving step in \<open>cases a; cases x; auto simp: mq_exec_def mq_updates\<close>)+
    moreover have "passed q' = passed q"
      using Leaving step by (cases a; cases x) (auto simp: mq_exec_def mq_updates passed_def)
    ultimately show ?thesis using spread_quiet [OF r(4)] by blast
  qed
  then show ?thesis
    using mq_exec_ok [OF r(1) step] lock_step [OF r(2) step] slots_step [OF r(3) step] by (simp add: rec_ok_def)
qed

lemma rec_ok_start: "rec_ok (MPMCQueue junk)"
proof -
  have "spread_ok (MPMCQueue junk)"
  proof -
    have "held (MPMCQueue junk) p = []" for p by (cases p) (simp_all add: MPMCQueue_def HazPtrDomain_def)
    then show ?thesis by (simp add: spread_ok_def spread_def)
  qed
  then show ?thesis
    using MPMCQueue_ok [of junk]
    by (simp add: rec_ok_def lock_ok_def slots_ok_def thread_slots_def scan_ok_def safe_ok_def)
      (simp add: MPMCQueue_def HazPtrDomain_def)
qed

end
