(* ===== verification/Traces.thy ===== *)
theory Traces
  imports Main
begin

text \<open>
  Runs of a system with labelled steps, of which one label is hidden, and the interface of a forward
  simulation: when every step of the code can be followed by a step of the specification with the
  same label, every trace of the code is a trace of the specification.
\<close>

inductive trace :: "('s \<Rightarrow> 'l \<Rightarrow> 's \<Rightarrow> bool) \<Rightarrow> 'l \<Rightarrow> 's \<Rightarrow> 'l list \<Rightarrow> 's \<Rightarrow> bool"
  for step tau s where
  start: "trace step tau s [] s"
| hidden: "trace step tau s ls s' \<Longrightarrow> step s' tau s'' \<Longrightarrow> trace step tau s ls s''"
| visible: "trace step tau s ls s' \<Longrightarrow> step s' l s'' \<Longrightarrow> l \<noteq> tau \<Longrightarrow> trace step tau s (ls @ [l]) s''"

lemma trace_invariant:
  assumes "trace step tau s ls s'" "I s" "\<And>s l s'. I s \<Longrightarrow> step s l s' \<Longrightarrow> I s'"
  shows "I s'"
  using assms(1) by induction (use assms(2,3) in blast)+

locale forward_simulation =
  fixes cstep :: "'c \<Rightarrow> 'l \<Rightarrow> 'c \<Rightarrow> bool"
    and astep :: "'a \<Rightarrow> 'l \<Rightarrow> 'a \<Rightarrow> bool"
    and tau :: 'l
    and inv :: "'c \<Rightarrow> bool"
    and sim :: "'c \<Rightarrow> 'a \<Rightarrow> bool"
  assumes inv_step: "inv c \<Longrightarrow> cstep c l c' \<Longrightarrow> inv c'"
    and sim_step: "inv c \<Longrightarrow> sim c a \<Longrightarrow> cstep c l c' \<Longrightarrow> \<exists>a'. astep a l a' \<and> sim c' a'"
begin

lemma trace_inv: "trace cstep tau c ls c' \<Longrightarrow> inv c \<Longrightarrow> inv c'"
  by (erule trace_invariant) (auto intro: inv_step)

lemma trace_inclusion:
  assumes "trace cstep tau c ls c'" "inv c" "sim c a"
  shows "\<exists>a'. trace astep tau a ls a' \<and> sim c' a'"
  using assms(1)
proof induction
  case start
  show ?case using assms(3) trace.start [of astep tau a] by blast
next
  case (hidden ls c1 c2)
  then obtain a1 where a1: "trace astep tau a ls a1" "sim c1 a1" by blast
  with sim_step [OF trace_inv [OF hidden.hyps(1) assms(2)] _ hidden.hyps(2)] trace.hidden show ?case by metis
next
  case (visible ls c1 l c2)
  then obtain a1 where a1: "trace astep tau a ls a1" "sim c1 a1" by blast
  with sim_step [OF trace_inv [OF visible.hyps(1) assms(2)] _ visible.hyps(2)] visible.hyps(3) trace.visible
  show ?case by metis
qed

end

end
