(* ===== verification/Mpmc_Linearizable.thy ===== *)
theory Mpmc_Linearizable
  imports Mpmc_Structure Traces
begin

text \<open>
  The queue behaves like one whose operations are atomic: between the call and the return of every
  operation lies one moment at which it takes effect on a list. For an \<open>enqueue\<close> it is the
  compare-exchange that links the node, for a \<open>dequeue\<close> that returns an element the
  compare-exchange of the head; a \<open>dequeue\<close> that finds nothing read the null pointer at a
  moment when the list was empty.
\<close>

section \<open>The atomic queue\<close>

datatype 'a call = No_call | Enq_called 'a | Enq_done | Deq_called bool | Deq_done 'a

record 'a aq =
  aq_items :: "'a list"
  aq_call :: "nat \<Rightarrow> 'a call"

definition atomic_queue :: "'a aq" where
  "atomic_queue = \<lparr>aq_items = [], aq_call = (\<lambda>_. No_call)\<rparr>"

definition set_call :: "nat \<Rightarrow> 'a call \<Rightarrow> 'a aq \<Rightarrow> 'a aq" where
  "set_call t c a = a\<lparr>aq_call := (aq_call a)(t := c)\<rparr>"

text \<open>\<open>Deq_called True\<close>: the operation has seen the list empty since it was called.\<close>

inductive aq_step :: "'a aq \<Rightarrow> 'a label \<Rightarrow> 'a aq \<Rightarrow> bool" where
  call_enqueue: "aq_call a t = No_call \<Longrightarrow> aq_step a (Invoke_enqueue t v) (set_call t (Enq_called v) a)"
| call_dequeue: "aq_call a t = No_call \<Longrightarrow> aq_step a (Invoke_dequeue t) (set_call t (Deq_called False) a)"
| effect_enqueue: "aq_call a t = Enq_called v \<Longrightarrow>
    aq_step a Tau (set_call t Enq_done (a\<lparr>aq_items := aq_items a @ [v]\<rparr>))"
| effect_dequeue: "aq_call a t = Deq_called b \<Longrightarrow> aq_items a = v # vs \<Longrightarrow>
    aq_step a Tau (set_call t (Deq_done v) (a\<lparr>aq_items := vs\<rparr>))"
| see_empty: "aq_call a t = Deq_called b \<Longrightarrow> aq_items a = [] \<Longrightarrow> aq_step a Tau (set_call t (Deq_called True) a)"
| return_enqueue: "aq_call a t = Enq_done \<Longrightarrow> aq_step a (Respond t Enqueued) (set_call t No_call a)"
| return_dequeue: "aq_call a t = Deq_done v \<Longrightarrow> aq_step a (Respond t (Dequeued v)) (set_call t No_call a)"
| return_empty: "aq_call a t = Deq_called True \<Longrightarrow> aq_step a (Respond t Found_empty) (set_call t No_call a)"
| idle: "aq_step a Tau a"

inductive_cases aq_step_tauE: "aq_step a Tau a'"
inductive_cases aq_step_respondE: "aq_step a (Respond t r) a'"

section \<open>The simulation\<close>

definition contents :: "'a mq \<Rightarrow> 'a list" where
  "contents q = map (\<lambda>x. nd_data (q_nodes q ! x)) (drop (Suc (q_popped q)) (q_chain q))"

fun enq_call :: "'a mq \<Rightarrow> enq_pc \<Rightarrow> 'a call" where
  "enq_call q (E_swing n ct) = Enq_done"
| "enq_call q c = Enq_called (nd_data (q_nodes q ! the (enq_node c)))"

text \<open>The program counters at which a \<open>dequeue\<close> has seen the list empty.\<close>

fun seen_empty :: "'a deq_pc \<Rightarrow> bool" where
  "seen_empty (D_protect2 h h' ch ct nx) = (nx = None)"
| "seen_empty (D_check2 h h' ch ct nx) = (nx = None)"
| "seen_empty (D_empty h h') = True" | "seen_empty (D_empty2 h) = True"
| "seen_empty _ = False"

fun deq_done :: "'a mq \<Rightarrow> 'a deq_pc \<Rightarrow> 'a option" where
  "deq_done q (D_data h h' ch x) = Some (nd_data (q_nodes q ! x))"
| "deq_done q (D_release h h' ch v) = Some v" | "deq_done q (D_release2 h' ch v) = Some v"
| "deq_done q _ = None"

fun call_rel :: "'a mq \<Rightarrow> 'a pc \<Rightarrow> 'a call \<Rightarrow> bool" where
  "call_rel q Outside c = (c = No_call)"
| "call_rel q (Enq e) c = (c = enq_call q e)"
| "call_rel q (Deq e) c =
     (case deq_done q e of Some v \<Rightarrow> c = Deq_done v
      | None \<Rightarrow> (\<exists>b. c = Deq_called b \<and> (seen_empty e \<longrightarrow> b)))"
| "call_rel q (Retire e v) c = (c = Deq_done v)"
| "call_rel q (Scanning e r) c = (case r of Some v \<Rightarrow> c = Deq_done v | None \<Rightarrow> c = No_call)"
| "call_rel q (Leaving Enqueued) c = (c = Enq_done)"
| "call_rel q (Leaving (Dequeued v)) c = (c = Deq_done v)"
| "call_rel q (Leaving Found_empty) c = (c = Deq_called True)"
| "call_rel q (Leaving Scanned) c = (c = No_call)"

definition queue_sim :: "'a mq \<Rightarrow> 'a aq \<Rightarrow> bool" where
  "queue_sim q a \<longleftrightarrow> aq_items a = contents q \<and> (\<forall>t. call_rel q (q_pc q t) (aq_call a t))"

definition data_kept :: "'a mq \<Rightarrow> 'a mq \<Rightarrow> bool" where
  "data_kept q q' \<longleftrightarrow> (\<forall>x < length (q_nodes q). nd_data (q_nodes q' ! x) = nd_data (q_nodes q ! x))"

lemma known_node:
  assumes "mq_ok q" "pc_ok q (q_pc q t)"
  shows "q_pc q t = Enq e \<Longrightarrow> enq_node e = Some n \<Longrightarrow> n < length (q_nodes q)"
    and "q_pc q t = Deq (D_data h h' ch x) \<Longrightarrow> x < length (q_nodes q)"
proof -
  show "q_pc q t = Enq e \<Longrightarrow> enq_node e = Some n \<Longrightarrow> n < length (q_nodes q)"
    using assms(1) privateD [of q t n] by (simp add: mq_ok_def)
  assume "q_pc q t = Deq (D_data h h' ch x)"
  then have "linked q x" using assms(2) by (auto simp: linked_def)
  then show "x < length (q_nodes q)" using assms(1) by (simp add: mq_ok_def chain_ok_def)
qed

lemma enq_call_node: "enq_node e = None \<Longrightarrow> enq_call q e = Enq_done"
  "enq_node e = Some n \<Longrightarrow> enq_call q e = Enq_called (nd_data (q_nodes q ! n))"
  by (cases e; simp)+

lemma call_rel_kept:
  assumes "mq_ok q" "data_kept q q'" "call_rel q (q_pc q t) c"
  shows "call_rel q' (q_pc q t) c"
proof (cases "q_pc q t")
  case (Enq e)
  have "pc_ok q (q_pc q t)" using assms(1) by (simp add: mq_ok_def)
  from known_node(1) [OF assms(1) this Enq] show ?thesis
    using assms(2,3) Enq by (cases "enq_node e") (auto simp: enq_call_node data_kept_def)
next
  case (Deq e)
  have "pc_ok q (q_pc q t)" using assms(1) by (simp add: mq_ok_def)
  from known_node(2) [OF assms(1) this] show ?thesis
    using assms(2,3) Deq by (cases e) (auto simp: data_kept_def)
next
  case (Leaving r)
  then show ?thesis using assms(3) by (cases r) auto
qed (use assms(3) in auto)

text \<open>What is left to show of a step: its own thread, and the list.\<close>

lemma queue_simI:
  assumes "mq_ok q" "queue_sim q a" "data_kept q q'" "q_pc q' = (q_pc q)(t := c)"
    and "call_rel q' c k" "contents q' = aq_items a'" "aq_call a' = (aq_call a)(t := k)"
  shows "queue_sim q' a'"
  using assms call_rel_kept [OF assms(1,3)] by (simp add: queue_sim_def)

lemma sim_call: "queue_sim q a \<Longrightarrow> q_pc q t = c \<Longrightarrow> call_rel q c (aq_call a t)"
  by (auto simp: queue_sim_def)

lemma contents_kept:
  assumes "mq_ok q" "data_kept q q'" "q_chain q' = q_chain q" "q_popped q' = q_popped q"
  shows "contents q' = contents q"
proof -
  have "x < length (q_nodes q)" if "x \<in> set (q_chain q)" for x
    using that assms(1) by (auto simp: mq_ok_def chain_ok_def linked_def at_pos_def in_set_conv_nth)
  then show ?thesis
    using assms(2-4) by (auto simp: contents_def data_kept_def dest: in_set_dropD)
qed

lemma silent_step:
  assumes "mq_ok q" "queue_sim q a" "q_pc q' = (q_pc q)(t := c)" "call_rel q' c (aq_call a t)"
    and "data_kept q q'" "q_chain q' = q_chain q" "q_popped q' = q_popped q"
  shows "queue_sim q' a"
  using queue_simI [OF assms(1,2,5,3,4), of a] contents_kept [OF assms(1,5,6,7)] assms(2)
  by (simp add: queue_sim_def)

lemma call_rel_nodes:
  assumes "q_nodes q' = q_nodes q"
  shows "call_rel q' c k = call_rel q c k"
proof (cases c)
  case (Enq e)
  then show ?thesis using assms by (cases e) simp_all
next
  case (Deq e)
  then show ?thesis using assms by (cases e) simp_all
next
  case (Leaving r)
  then show ?thesis by (cases r) simp_all
qed simp_all

lemma call_rel_updates [simp]:
  "call_rel (q\<lparr>q_pc := p\<rparr>) c k = call_rel q c k" "call_rel (q\<lparr>q_dom := d\<rparr>) c k = call_rel q c k"
  "call_rel (q\<lparr>q_tail := l\<rparr>) c k = call_rel q c k"
  by (rule call_rel_nodes, simp)+

lemma data_kept_same [simp]: "q_nodes q' = q_nodes q \<Longrightarrow> data_kept q q'"
  by (simp add: data_kept_def)

lemma enqueue_sim:
  assumes ok: "mq_ok q" and sim: "queue_sim q a" and pc: "q_pc q t = Enq e"
  shows "\<exists>a'. aq_step a Tau a' \<and> queue_sim (enqueue_step t b e q) a'"
proof -
  have call: "aq_call a t = enq_call q e" using sim_call [OF sim pc] by simp
  have quiet: "queue_sim (goto t c q) a" if "call_rel q c (enq_call q e)" for c
    by (rule silent_step [OF ok sim, where t = t and c = c])
      (use that call in \<open>simp_all add: goto_def\<close>)
  show ?thesis
  proof (cases "\<exists>n ct. e = E_link n ct \<and> b \<and> nd_next (q_nodes q ! ct) = None")
    case True
    then obtain n ct where e: "e = E_link n ct" and b: "b" "nd_next (q_nodes q ! ct) = None" by blast
    let ?q = "enqueue_step t b e q"
    have q: "?q = q\<lparr>q_nodes := (q_nodes q)[ct := (q_nodes q ! ct)\<lparr>nd_next := Some n\<rparr>],
        q_chain := q_chain q @ [n], q_pc := (q_pc q)(t := Enq (E_swing n ct))\<rparr>"
      using e b by (simp add: goto_def set_next_def)
    have kept: "data_kept q ?q" 
      by (cases "ct < length (q_nodes q)") (auto simp: data_kept_def q nth_list_update list_update_beyond)
    let ?v = "nd_data (q_nodes q ! n)"
    let ?a = "set_call t Enq_done (a\<lparr>aq_items := aq_items a @ [?v]\<rparr>)"
    have "aq_step a Tau ?a" by (rule effect_enqueue) (simp add: call e)
    moreover have "queue_sim ?q ?a"
    proof (rule queue_simI [OF ok sim kept, where t = t and c = "Enq (E_swing n ct)" and k = Enq_done])
      have "q_popped q < length (q_chain q)" using ok by (simp add: mq_ok_def chain_ok_def at_pos_def)
      moreover have "nd_data (q_nodes ?q ! x) = nd_data (q_nodes q ! x)" for x
        by (cases "ct < length (q_nodes q)") (auto simp: q nth_list_update list_update_beyond)
      ultimately show "contents ?q = aq_items ?a"
        using sim by (simp add: contents_def queue_sim_def set_call_def) (simp add: q)
    qed (simp_all add: q set_call_def)
    ultimately show ?thesis by blast
  next
    case False
    have "queue_sim (enqueue_step t b e q) a"
    proof (cases e)
      case (E_swing n ct)
      then show ?thesis using call
        by (intro silent_step [OF ok sim, where t = t and c = "Leaving Enqueued"]) (auto simp: mq_updates)
    next
      case (E_help n ct x)
      then show ?thesis using call
        by (intro silent_step [OF ok sim, where t = t and c = "Enq (E_tail n)"]) (auto simp: mq_updates)
    qed (use False in \<open>auto intro!: quiet split: option.split\<close>)
    then show ?thesis using idle by blast
  qed
qed

lemma empty_contents:
  assumes "mq_ok q" "head_reached q ch" "nd_next (q_nodes q ! ch) = None"
  shows "contents q = []"
proof -
  have ok: "chain_ok q" using assms(1) by (simp add: mq_ok_def)
  obtain i where i: "i \<le> q_popped q" "at_pos q i ch" using assms(2) by (auto simp: head_reached_def)
  have "Suc i = length (q_chain q)" using next_last [OF ok i(2)] assms(3) by simp
  with i(1) show ?thesis by (simp add: contents_def)
qed

lemma popped_contents:
  assumes "mq_ok q" "q_pc q t = Deq (D_cas h h' ch x)" "q_head q = ch"
  shows "contents q = nd_data (q_nodes q ! x) # map (\<lambda>x. nd_data (q_nodes q ! x)) (drop (Suc (Suc (q_popped q))) (q_chain q))"
proof -
  have ok: "chain_ok q" and "pc_ok q (q_pc q t)" using assms(1) by (auto simp: mq_ok_def)
  then have "follows q ch x" using assms(2) by simp
  then have "at_pos q (Suc (q_popped q)) x"
    using head_at [OF ok] assms(3) at_pos_unique [OF ok] by (auto simp: follows_def)
  then show ?thesis by (auto simp: contents_def at_pos_def simp flip: Cons_nth_drop_Suc)
qed

lemma dequeue_sim:
  assumes ok: "mq_ok q" and sim: "queue_sim q a" and pc: "q_pc q t = Deq e"
    and step: "dequeue_step t b e q = Some q'"
  shows "\<exists>a'. aq_step a Tau a' \<and> queue_sim q' a'"
proof -
  have call: "call_rel q (Deq e) (aq_call a t)" using sim_call [OF sim pc] .
  have go: "queue_sim (goto t c (q\<lparr>q_dom := d, q_tail := l\<rparr>)) a" if "call_rel q c (aq_call a t)" for c d l
    by (rule silent_step [OF ok sim, where t = t and c = c])
      (use that in \<open>simp_all add: goto_def\<close>)
  have go_d: "queue_sim (goto t c (q\<lparr>q_dom := d\<rparr>)) a" if "call_rel q c (aq_call a t)" for c d
    using go [OF that, where d = d and l = "q_tail q"] by simp
  have go_l: "queue_sim (goto t c (q\<lparr>q_tail := l\<rparr>)) a" if "call_rel q c (aq_call a t)" for c l
    using go [OF that, where d = "q_dom q" and l = l] by simp
  have go_0: "queue_sim (goto t c q) a" if "call_rel q c (aq_call a t)" for c
    using go_d [OF that, where d = "q_dom q"] by simp
  have pc_ok: "pc_ok q (Deq e)" using ok pc by (metis mq_ok_def)
  have silent: ?thesis if "queue_sim q' a" using that idle by blast
  show ?thesis
  proof (cases e)
    case (D_next h h' hd ct)
    show ?thesis
    proof (cases "nd_next (q_nodes q ! hd)")
      case None
      obtain k where k: "aq_call a t = Deq_called k" using call D_next by auto
      have "aq_items a = []" using sim pc_ok D_next empty_contents [OF ok _ None] by (simp add: queue_sim_def)
      then have "aq_step a Tau (set_call t (Deq_called True) a)" using see_empty k by blast
      moreover have "queue_sim q' (set_call t (Deq_called True) a)"
        by (rule queue_simI [OF ok sim, where t = t and c = "Deq (D_protect2 h h' hd ct None)" and k = "Deq_called True"])
          (use D_next None step sim in \<open>auto simp: goto_def set_call_def queue_sim_def contents_def\<close>)
      ultimately show ?thesis by blast
    next
      case (Some x)
      then show ?thesis using step call D_next by (intro silent) (auto intro!: go_0)
    qed
  next
    case (D_cas h h' hd x)
    show ?thesis
    proof (cases "b \<and> q_head q = hd")
      case True
      obtain k where k: "aq_call a t = Deq_called k" using call D_cas by auto
      let ?v = "nd_data (q_nodes q ! x)"
      let ?vs = "map (\<lambda>x. nd_data (q_nodes q ! x)) (drop (Suc (Suc (q_popped q))) (q_chain q))"
      have "aq_items a = ?v # ?vs"
        using popped_contents [OF ok, of t h h' hd x] pc D_cas True sim by (simp add: queue_sim_def)
      then have "aq_step a Tau (set_call t (Deq_done ?v) (a\<lparr>aq_items := ?vs\<rparr>))" by (rule effect_dequeue [OF k])
      moreover have "queue_sim q' (set_call t (Deq_done ?v) (a\<lparr>aq_items := ?vs\<rparr>))"
        by (rule queue_simI [OF ok sim, where t = t and c = "Deq (D_data h h' hd x)" and k = "Deq_done ?v"])
          (use D_cas True step in \<open>auto simp: goto_def set_call_def contents_def\<close>)
      ultimately show ?thesis by blast
    next
      case False
      then show ?thesis using step call D_cas by (intro silent) (auto intro!: go_0)
    qed
  next
    case (D_help h h' ct x)
    then show ?thesis using step call by (intro silent) (auto simp: cas_tail_def intro!: go_0 go_l)
  next
    case (D_check2 h h' hd ct nx)
    then show ?thesis using step call
      by (intro silent) (auto intro!: go_0 exI [of _ True] split: option.split)
  qed (rule silent; use step call in \<open>auto simp: acquire_holder_def release_holder_def in_dom_def
        intro!: go_0 go_d exI [of _ True] split: prod.splits if_splits\<close>)+
qed

lemma retire_sim:
  assumes ok: "mq_ok q" and sim: "queue_sim q a"
    and step: "q_pc q t = Retire c v \<and> RetirePointer_step t c v q = Some q' \<or>
      q_pc q t = Scanning s r \<and> Scan_step t s r q = Some q'"
  shows "queue_sim q' a"
proof -
  let ?k = "aq_call a t"
  have "q_pc q' = (q_pc q)(t := q_pc q' t) \<and> (call_rel q (q_pc q t) ?k \<longrightarrow> call_rel q (q_pc q' t) ?k)"
  proof (cases "q_pc q t")
    case (Retire c v)
    then show ?thesis using step by (cases c) (auto simp: mq_updates split: if_splits)
  next
    case (Scanning s' r')
    then have s: "Scan_step t s' r' q = Some q'" using step by auto
    show ?thesis
    proof (cases s')
      case (S_slots k "is" out)
      then show ?thesis using s Scanning by (cases "is") (auto simp: mq_updates split: if_splits)
    next
      case (S_delete out)
      then show ?thesis using s Scanning by (cases out; cases r') (auto simp: mq_updates)
    qed (use s Scanning in \<open>auto simp: mq_updates split: if_splits\<close>)
  qed (use step in auto)
  then have c': "q_pc q' = (q_pc q)(t := q_pc q' t)" "call_rel q (q_pc q' t) ?k"
    using sim_call [OF sim refl] by blast+
  have "same_shape q q'" using retire_quiet [of t c v q q' s r] step by blast
  then show ?thesis
    by (intro silent_step [OF ok sim c'(1)])
      (simp_all add: same_shape_def call_rel_nodes [of q' q] c'(2))
qed

lemma mq_sim:
  assumes ok: "mq_ok q" and sim: "queue_sim q a" and step: "mq_exec t x q = Some q'"
  shows "\<exists>a'. aq_step a (mq_label t x q) a' \<and> queue_sim q' a'"
proof (cases "q_pc q t")
  case Outside
  have call: "aq_call a t = No_call" using sim_call [OF sim Outside] by simp
  have same: "queue_sim q' (set_call t k a)"
    if "q_pc q' = (q_pc q)(t := c)" "call_rel q' c k" "data_kept q q'"
      "q_chain q' = q_chain q" "q_popped q' = q_popped q" for c k
    by (rule queue_simI [OF ok sim that(3,1,2)])
      (use contents_kept [OF ok that(3-5)] sim in \<open>simp_all add: set_call_def queue_sim_def\<close>)
  show ?thesis
  proof (cases x)
    case (Call_enqueue v)
    then have "queue_sim q' (set_call t (Enq_called v) a)"
      using step Outside
      by (intro same [where c = "Enq (E_tail (length (q_nodes q)))"])
        (auto simp: mq_exec_def new_node_def goto_def data_kept_def nth_append)
    then show ?thesis using call_enqueue [OF call] Call_enqueue by (auto simp: mq_label_def)
  next
    case Call_dequeue
    then have "queue_sim q' (set_call t (Deq_called False) a)"
      using step Outside by (intro same [where c = "Deq D_holder"]) (auto simp: mq_exec_def goto_def)
    then show ?thesis using call_dequeue [OF call] Call_dequeue by (auto simp: mq_label_def)
  next
    case Call_scan
    then have "queue_sim q' a"
      using step Outside call by (intro silent_step [OF ok sim, where t = t and c = "Scanning S_lock None"])
        (auto simp: mq_exec_def goto_def)
    then show ?thesis using idle Call_scan by (auto simp: mq_label_def)
  next
    case (Go b)
    then show ?thesis using step Outside by (simp add: mq_exec_def)
  qed (use step Outside call idle in \<open>auto simp: mq_exec_def mq_label_def in_dom_def
        intro!: exI [of _ a] silent_step [OF ok sim, where t = t and c = Outside]\<close>)
next
  case (Enq e)
  then show ?thesis using step enqueue_sim [OF ok sim Enq] by (auto simp: mq_exec_def mq_label_def split: act.splits)
next
  case (Deq e)
  then show ?thesis using step dequeue_sim [OF ok sim Deq]
    by (auto simp: mq_exec_def mq_label_def split: act.splits)
next
  case (Retire c v)
  then have "queue_sim q' a" using step
    by (intro retire_sim [OF ok sim, of t c v]) (auto simp: mq_exec_def split: act.splits)
  then show ?thesis using idle step Retire by (auto simp: mq_exec_def mq_label_def split: act.splits)
next
  case (Scanning s r)
  then have "queue_sim q' a" using step
    by (intro retire_sim [OF ok sim, of t _ _ _ s r]) (auto simp: mq_exec_def split: act.splits)
  then show ?thesis using idle step Scanning by (auto simp: mq_exec_def mq_label_def split: act.splits)
next
  case (Leaving r)
  have call: "call_rel q (Leaving r) (aq_call a t)" using sim_call [OF sim Leaving] .
  have q': "q_pc q' = (q_pc q)(t := Outside)" "q_nodes q' = q_nodes q" "q_chain q' = q_chain q" "q_popped q' = q_popped q"
    using step Leaving by (auto simp: mq_exec_def goto_def split: act.splits reply.splits)
  have "queue_sim q' (set_call t No_call a)"
    by (rule queue_simI [OF ok sim, where t = t and c = Outside and k = No_call])
      (use q' sim in \<open>simp_all add: set_call_def queue_sim_def contents_def\<close>)
  moreover have "aq_step a (mq_label t x q) (set_call t No_call a)"
  proof (cases r)
    case Scanned
    then have "set_call t No_call a = a" using call by (simp add: set_call_def fun_upd_idem)
    then show ?thesis using idle Scanned Leaving step by (auto simp: mq_exec_def mq_label_def split: act.splits)
  qed (use call Leaving step in \<open>auto simp: mq_exec_def mq_label_def
        intro: return_enqueue return_dequeue return_empty split: act.splits\<close>)
  ultimately show ?thesis by blast
qed

lemma mq_step_ok: "mq_ok q \<Longrightarrow> mq_step q l q' \<Longrightarrow> mq_ok q'"
  by (auto simp: mq_step_def intro: mq_exec_ok)

lemma mq_step_sim: "mq_ok q \<Longrightarrow> queue_sim q a \<Longrightarrow> mq_step q l q' \<Longrightarrow> \<exists>a'. aq_step a l a' \<and> queue_sim q' a'"
  by (auto simp: mq_step_def intro: mq_sim)

interpretation mpmc: forward_simulation mq_step aq_step Tau mq_ok queue_sim
  by unfold_locales (rule mq_step_ok mq_step_sim; assumption)+

lemma start_sim: "queue_sim (MPMCQueue junk) atomic_queue"
  by (simp add: queue_sim_def MPMCQueue_def atomic_queue_def contents_def)

end
