(* ===== verification/Mpmc_Limits.thy ===== *)
theory Mpmc_Limits
  imports Mpmc_Reclaim Mpmc_Linearizable
begin

text \<open>
  What the invariants say of the runs of the queue: which operation can touch a deleted node, and
  how far the queue gets before the reclamation stops it.
\<close>

section \<open>Runs\<close>

text \<open>The states that threads of a set reach, with or without calls of \<open>Scan\<close> from outside
  (\<open>RetirePointer\<close> calls it in any case).\<close>

inductive mq_reach :: "'a \<Rightarrow> nat set \<Rightarrow> bool \<Rightarrow> 'a mq \<Rightarrow> bool" for junk threads scans where
  start: "mq_reach junk threads scans (MPMCQueue junk)"
| step: "mq_reach junk threads scans q \<Longrightarrow> t \<in> threads \<Longrightarrow> a = Call_scan \<longrightarrow> scans \<Longrightarrow>
    mq_exec t a q = Some q' \<Longrightarrow> mq_reach junk threads scans q'"

lemma reach_rec_ok: "mq_reach junk threads scans q \<Longrightarrow> rec_ok q"
  by (induction rule: mq_reach.induct) (auto intro: rec_ok_start rec_ok_step)

lemma run_reach:
  "mq_run xs q = Some q' \<Longrightarrow> mq_reach junk threads scans q \<Longrightarrow> fst ` set xs \<subseteq> threads \<Longrightarrow>
   scans \<or> Call_scan \<notin> snd ` set xs \<Longrightarrow> mq_reach junk threads scans q'"
proof (induction xs arbitrary: q)
  case (Cons x xs)
  obtain t a where x: "x = (t, a)" by (cases x)
  obtain q1 where q1: "mq_exec t a q = Some q1" "mq_run xs q1 = Some q'"
    using Cons.prems(1) x by (cases "mq_exec t a q") auto
  have "mq_reach junk threads scans q1"
    using Cons.prems x by (intro mq_reach.step [OF Cons.prems(2) _ _ q1(1)]) auto
  with Cons.IH [OF q1(2)] Cons.prems(3,4) show ?case by auto
qed simp

section \<open>Deleted nodes\<close>

text \<open>The nodes of which the next step reads or exchanges a field.\<close>

fun enq_touches :: "enq_pc \<Rightarrow> nat list" where
  "enq_touches (E_next n ct) = [ct]" | "enq_touches (E_link n ct) = [ct]" | "enq_touches c = []"

fun deq_touches :: "'a deq_pc \<Rightarrow> nat list" where
  "deq_touches (D_next h h' ch ct) = [ch]" | "deq_touches (D_data h h' ch x) = [x]" | "deq_touches c = []"

text \<open>A thread has read the tail; others take the node out and delete it; then it reads the node.\<close>

definition steps :: "nat \<Rightarrow> nat \<Rightarrow> (nat \<times> 'a act) list" where
  "steps t n = replicate n (t, Go True)"

lemma steps_simps: "steps t 0 = []" "steps t (Suc n) = (t, Go True) # steps t n"
  by (simp_all add: steps_def)

definition stale_tail_run :: "(nat \<times> nat act) list" where
  "stale_tail_run = [(0, Call_enqueue 1), (0, Go True)] @
     (1, Call_register) # (1, Call_enqueue 2) # steps 1 6 @
     (1, Call_dequeue) # steps 1 16 @ (1, Call_scan) # steps 1 11"

lemma stale_tail_reached:
  "\<exists>q n ct. mq_reach (0 :: nat) {0, 1} True q \<and> q_pc q 0 = Enq (E_next n ct) \<and> ct \<in> set (q_freed q)"
proof -
  have run: "map_option (\<lambda>q. (q_pc q 0, q_freed q)) (mq_run stale_tail_run (MPMCQueue 0)) = Some (Enq (E_next 1 0), [0])"
    by code_simp
  then obtain q where q: "mq_run stale_tail_run (MPMCQueue 0) = Some q" "q_pc q 0 = Enq (E_next 1 0)" "q_freed q = [0]"
    by auto
  have "mq_reach 0 {0, 1} True q"
    by (rule run_reach [OF q(1) mq_reach.start]) (auto simp: stale_tail_run_def steps_def)
  with q show ?thesis by auto
qed

section \<open>Nothing is reclaimed\<close>

text \<open>Only a scan deletes, and a scan called by \<open>RetirePointer\<close> waits for a mutex that its own
  thread holds.\<close>

lemma mq_exec_pc: "mq_exec t a q = Some q' \<Longrightarrow> q_pc q' = (q_pc q)(t := q_pc q' t)"
proof (cases "q_pc q t")
  case (Deq c)
  then show "mq_exec t a q = Some q' \<Longrightarrow> ?thesis"
    by (cases a; cases c) (auto simp: mq_exec_def mq_updates split: option.splits prod.splits if_splits)
next
  case (Enq e)
  then show "mq_exec t a q = Some q' \<Longrightarrow> ?thesis"
    using enqueue_step_pc [of t _ e q] by (cases a) (auto simp: mq_exec_def Let_def)
next
  case (Retire c v)
  then show "mq_exec t a q = Some q' \<Longrightarrow> ?thesis"
    by (cases a; cases c) (auto simp: mq_exec_def mq_updates split: if_splits)
next
  case (Scanning s r)
  then show "mq_exec t a q = Some q' \<Longrightarrow> ?thesis"
    using Scan_step_slots [of t s r q q'] by (cases a) (auto simp: mq_exec_def)
next
  case (Leaving r)
  then show "mq_exec t a q = Some q' \<Longrightarrow> ?thesis"
    by (cases a; cases r) (auto simp: mq_exec_def mq_updates)
next
  case Outside
  then show "mq_exec t a q = Some q' \<Longrightarrow> ?thesis"
    by (cases a) (auto simp: mq_exec_def mq_updates)
qed

lemma self_locked:
  "lock_ok q \<Longrightarrow> q_pc q t = Scanning S_lock (Some v) \<Longrightarrow> mq_exec t a q = None"
  by (cases a) (auto simp: mq_exec_def lock_retired_def lock_ok_def dest: spec [of _ t])

lemma no_scan_inside: "mq_reach junk threads False q \<Longrightarrow> q_pc q t = Scanning s r \<Longrightarrow> s = S_lock \<and> r \<noteq> None"
proof (induction arbitrary: t s r rule: mq_reach.induct)
  case start
  then show ?case by (simp add: MPMCQueue_def)
next
  case (step q u a q')
  have lock: "lock_ok q" using reach_rec_ok [OF step.hyps(1)] by (simp add: rec_ok_def)
  show ?case
  proof (cases "t = u")
    case False
    then have "q_pc q t = Scanning s r" using step.prems mq_exec_pc [OF step.hyps(4)] by (metis fun_upd_other)
    then show ?thesis by (rule step.IH)
  next
    case True
    show ?thesis
    proof (cases "q_pc q u")
      case (Scanning s' r')
      then have "s' = S_lock" "r' \<noteq> None" using step.IH by blast+
      then show ?thesis using self_locked [OF lock, of u] Scanning step.hyps(4) by auto
    next
      case (Retire c v)
      then show ?thesis using step.hyps(4) step.prems True
        by (cases a; cases c) (auto simp: mq_exec_def mq_updates split: if_splits)
    next
      case (Enq e)
      then show ?thesis using step.hyps(4) step.prems True
        by (cases a; cases e) (auto simp: mq_exec_def mq_updates split: if_splits option.splits)
    next
      case (Deq c)
      then show ?thesis using step.hyps(4) step.prems True
        by (cases a; cases c) (auto simp: mq_exec_def mq_updates split: option.splits prod.splits if_splits)
    next
      case (Leaving x)
      then show ?thesis using step.hyps(4) step.prems True
        by (cases a; cases x) (auto simp: mq_exec_def mq_updates)
    next
      case Outside
      then show ?thesis using step.hyps(3,4) step.prems True
        by (cases a) (auto simp: mq_exec_def mq_updates)
    qed
  qed
qed

text \<open>The waiting thread never goes on, and keeps the mutex.\<close>

lemma stuck_step:
  assumes "rec_ok q" "q_pc q t = Scanning S_lock (Some v)" "mq_exec u a q = Some q'"
  shows "rec_ok q' \<and> q_pc q' t = Scanning S_lock (Some v)"
proof -
  have "u \<noteq> t" using self_locked [of q t v a] assms by (auto simp: rec_ok_def)
  then show ?thesis using mq_exec_pc [OF assms(3)] rec_ok_step [OF assms(1,3)] assms(2) by (metis fun_upd_other)
qed

lemma stuck_run:
  "mq_run xs q = Some q' \<Longrightarrow> rec_ok q \<Longrightarrow> q_pc q t = Scanning S_lock (Some v) \<Longrightarrow>
   rec_ok q' \<and> q_pc q' t = Scanning S_lock (Some v)"
proof (induction xs arbitrary: q)
  case (Cons x xs)
  obtain u a where x: "x = (u, a)" by (cases x)
  obtain q1 where q1: "mq_exec u a q = Some q1" "mq_run xs q1 = Some q'"
    using Cons.prems(1) x by (cases "mq_exec u a q") auto
  from stuck_step [OF Cons.prems(2,3) q1(1)] Cons.IH [OF q1(2)] show ?case by blast
qed simp

section \<open>How many elements the queue can return\<close>

text \<open>The node of the element has been retired, the call has not returned.\<close>

fun retired_by :: "'a pc \<Rightarrow> bool" where
  "retired_by (Retire c v) = (case c of R_push p \<Rightarrow> False | _ \<Rightarrow> True)"
| "retired_by (Scanning s r) = (r \<noteq> None)"
| "retired_by (Leaving (Dequeued v)) = True"
| "retired_by _ = False"

definition balance :: "'a mq \<Rightarrow> nat \<Rightarrow> int" where
  "balance q t = int (length (dm_retired_list (q_dom q) t)) - (if retired_by (q_pc q t) then 1 else 0)"

fun full_list :: "'a pc \<Rightarrow> bool" where
  "full_list (Retire R_size v) = True" | "full_list (Retire R_lock v) = True"
| "full_list (Retire R_splice v) = True" | "full_list _ = False"

fun just_spliced :: "'a pc \<Rightarrow> bool" where
  "just_spliced (Retire R_check v) = True" | "just_spliced (Scanning s r) = (r \<noteq> None)" | "just_spliced _ = False"

definition count_ok :: "nat set \<Rightarrow> 'a mq \<Rightarrow> bool" where
  "count_ok T q \<longleftrightarrow>
     int (q_returned q) = int (length (dm_global_retired (q_dom q))) + (\<Sum>t \<in> T. balance q t) \<and>
     (\<forall>t. length (dm_retired_list (q_dom q) t) \<le> (if full_list (q_pc q t) then 100 else 99)) \<and>
     (\<forall>t. just_spliced (q_pc q t) \<longrightarrow> dm_retired_list (q_dom q) t = []) \<and>
     (length (dm_global_retired (q_dom q)) \<le> 5000 \<or>
      length (dm_global_retired (q_dom q)) \<le> 5100 \<and> (\<exists>t \<in> T. just_spliced (q_pc q t)))"

lemma sum_changed:
  fixes f g :: "nat \<Rightarrow> int"
  assumes "finite T" "t \<in> T" "\<And>u. u \<noteq> t \<Longrightarrow> g u = f u"
  shows "(\<Sum>u \<in> T. g u) = (\<Sum>u \<in> T. f u) - f t + g t"
proof -
  have "(\<Sum>u \<in> T - {t}. g u) = (\<Sum>u \<in> T - {t}. f u)" by (rule sum.cong) (use assms(3) in auto)
  then show ?thesis using assms(1,2) by (simp add: sum.remove [of T t])
qed

lemma count_bound:
  assumes "finite T" "count_ok T q"
  shows "q_returned q \<le> 5000 + 99 * card T"
proof -
  have b: "balance q t \<le> 99" for t
  proof -
    have "length (dm_retired_list (q_dom q) t) \<le> (if full_list (q_pc q t) then 100 else 99)"
      using assms(2) by (simp add: count_ok_def)
    moreover have "full_list (q_pc q t) \<Longrightarrow> retired_by (q_pc q t)"
      by (cases "q_pc q t" rule: full_list.cases) auto
    ultimately show ?thesis by (auto simp: balance_def split: if_splits)
  qed
  have all: "(\<Sum>t \<in> S. balance q t) \<le> 99 * int (card S)" for S
    using sum_bounded_above [of S "balance q" 99] b by (simp add: mult.commute)
  have eq: "int (q_returned q) = int (length (dm_global_retired (q_dom q))) + (\<Sum>t \<in> T. balance q t)"
    using assms(2) by (simp add: count_ok_def)
  show ?thesis
  proof (cases "length (dm_global_retired (q_dom q)) \<le> 5000")
    case True
    then show ?thesis using eq all [of T] by linarith
  next
    case False
    then obtain t where t: "t \<in> T" "just_spliced (q_pc q t)" and g: "length (dm_global_retired (q_dom q)) \<le> 5100"
      using assms(2) by (auto simp: count_ok_def)
    have "retired_by (q_pc q t)" using t(2) by (cases "q_pc q t" rule: just_spliced.cases) auto
    moreover have "dm_retired_list (q_dom q) t = []" using assms(2) t(2) by (simp add: count_ok_def)
    ultimately have "balance q t = -1" by (simp add: balance_def)
    moreover have "(\<Sum>u \<in> T. balance q u) = balance q t + (\<Sum>u \<in> T - {t}. balance q u)"
      using assms(1) t(1) by (simp add: sum.remove [of T t])
    moreover have "card T = Suc (card (T - {t}))" by (rule card.remove [OF assms(1) t(1)])
    ultimately show ?thesis using eq g all [of "T - {t}"] by linarith
  qed
qed

lemma count_frame:
  assumes "finite T" "t \<in> T" "count_ok T q" "q_pc q' = (q_pc q)(t := c)"
    and "\<And>u. u \<noteq> t \<Longrightarrow> dm_retired_list (q_dom q') u = dm_retired_list (q_dom q) u"
    and "length (dm_retired_list (q_dom q') t) \<le> (if full_list c then 100 else 99)"
    and "just_spliced c \<Longrightarrow> dm_retired_list (q_dom q') t = []"
    and "int (q_returned q') - int (q_returned q) =
      int (length (dm_global_retired (q_dom q'))) - int (length (dm_global_retired (q_dom q))) + balance q' t - balance q t"
    and "length (dm_global_retired (q_dom q')) \<le> 5000 \<or>
      length (dm_global_retired (q_dom q')) \<le> 5100 \<and> just_spliced c \<or>
      dm_global_retired (q_dom q') = dm_global_retired (q_dom q) \<and> (just_spliced (q_pc q t) \<longrightarrow> just_spliced c)"
  shows "count_ok T q'"
proof -
  have "balance q' u = balance q u" if "u \<noteq> t" for u
    using assms(4,5) that by (simp add: balance_def)
  from sum_changed [OF assms(1,2) this]
  have "int (q_returned q') = int (length (dm_global_retired (q_dom q'))) + (\<Sum>u \<in> T. balance q' u)"
    using assms(3,8) by (simp add: count_ok_def)
  moreover have "length (dm_global_retired (q_dom q')) \<le> 5000 \<or>
      length (dm_global_retired (q_dom q')) \<le> 5100 \<and> (\<exists>u \<in> T. just_spliced (q_pc q' u))"
    using assms(2,3,4,9) unfolding count_ok_def by (metis fun_upd_apply)
  moreover have "length (dm_retired_list (q_dom q') u) \<le> (if full_list (q_pc q' u) then 100 else 99)" for u
    using assms(3-6) by (cases "u = t") (simp_all add: count_ok_def)
  moreover have "just_spliced (q_pc q' u) \<Longrightarrow> dm_retired_list (q_dom q') u = []" for u
    using assms(3-5,7) by (cases "u = t") (simp_all add: count_ok_def)
  ultimately show ?thesis unfolding count_ok_def by blast
qed

lemma just_spliced_lock:
  assumes "just_spliced (q_pc q u)" "lock_ok q"
  shows "has_lock (q_pc q u)"
proof -
  have "\<not> inner_scan (q_pc q u)" using assms(2) by (simp add: lock_ok_def)
  with assms(1) show ?thesis
    by (cases "q_pc q u" rule: just_spliced.cases) (auto elim: inner_scan.elims)
qed

lemma count_quiet:
  assumes "finite T" "t \<in> T" "count_ok T q" "q_pc q' = (q_pc q)(t := c)"
    and "dm_retired_list (q_dom q') = dm_retired_list (q_dom q)"
      "dm_global_retired (q_dom q') = dm_global_retired (q_dom q)" "q_returned q' = q_returned q"
    and "retired_by c = retired_by (q_pc q t)" "full_list c \<or> \<not> full_list (q_pc q t)"
      "just_spliced c = just_spliced (q_pc q t)"
  shows "count_ok T q'"
proof (rule count_frame [OF assms(1-4)])
  have "length (dm_retired_list (q_dom q) t) \<le> (if full_list (q_pc q t) then 100 else 99)"
    using assms(3) by (simp add: count_ok_def)
  then show "length (dm_retired_list (q_dom q') t) \<le> (if full_list c then 100 else 99)"
    using assms(5,9) by (auto split: if_splits)
  show "just_spliced c \<Longrightarrow> dm_retired_list (q_dom q') t = []" using assms(3,5,10) by (simp add: count_ok_def)
qed (use assms in \<open>simp_all add: balance_def\<close>)

lemma count_retire:
  assumes T: "finite T" "t \<in> T" and ok: "count_ok T q" "lock_ok q" and pc: "q_pc q t = Retire c v"
    and step: "RetirePointer_step t c v q = Some q'"
  shows "count_ok T q'"
proof -
  have len: "length (dm_retired_list (q_dom q) t) \<le> (if full_list (q_pc q t) then 100 else 99)"
    and spl: "just_spliced (q_pc q t) \<Longrightarrow> dm_retired_list (q_dom q) t = []"
    using ok(1) by (simp_all add: count_ok_def)
  show ?thesis
  proof (cases c)
    case (R_push p)
    then show ?thesis using step pc len
      by (intro count_frame [OF T ok(1), where c = "Retire R_size v"])
        (auto simp: mq_updates retire_local_def balance_def)
  next
    case R_size
    then show ?thesis using step pc len
      by (intro count_frame [OF T ok(1), where c = "q_pc q' t"])
        (auto simp: mq_updates balance_def scan_threshold_def split: if_splits)
  next
    case R_splice
    have "\<not> just_spliced (q_pc q u)" for u
      using just_spliced_lock [OF _ ok(2), of u] lock_unique [OF ok(2), of t u] pc R_splice by auto
    then have "length (dm_global_retired (q_dom q)) \<le> 5000" using ok(1) by (simp add: count_ok_def)
    then show ?thesis using step pc len R_splice
      by (intro count_frame [OF T ok(1), where c = "Retire R_check v"])
        (auto simp: mq_updates splice_def balance_def)
  next
    case R_check
    then show ?thesis using step pc spl
      by (intro count_frame [OF T ok(1), where c = "q_pc q' t"])
        (auto simp: mq_updates balance_def kGlobalThreshold_def split: if_splits)
  qed (use step pc in \<open>intro count_quiet [OF T ok(1), where c = "q_pc q' t"];
      auto simp: mq_updates set_mutex_def split: if_splits\<close>)+
qed

lemma count_step:
  assumes reach: "mq_reach junk T False q" and T: "finite T" "t \<in> T" and ok: "count_ok T q"
    and step: "mq_exec t a q = Some q'" "a \<noteq> Call_scan"
  shows "count_ok T q'"
proof -
  have lock: "lock_ok q" using reach_rec_ok [OF reach] by (simp add: rec_ok_def)
  show ?thesis
  proof (cases "q_pc q t")
    case (Retire c v)
    then have "RetirePointer_step t c v q = Some q'" using step by (cases a) (auto simp: mq_exec_def)
    then show ?thesis by (rule count_retire [OF T ok lock Retire])
  next
    case (Scanning s r)
    then show ?thesis
      using no_scan_inside [OF reach Scanning] self_locked [OF lock, of t] step(1) by auto
  next
    case (Enq e)
    then obtain b where q': "q' = enqueue_step t b e q" using step by (cases a) (auto simp: mq_exec_def)
    have "q_pc q' = (q_pc q)(t := q_pc q' t) \<and> q_dom q' = q_dom q \<and> q_returned q' = q_returned q \<and>
        \<not> retired_by (q_pc q' t) \<and> \<not> just_spliced (q_pc q' t)"
      unfolding q' by (cases e) (auto simp: mq_updates split: option.splits)
    with Enq show ?thesis by (intro count_quiet [OF T ok, where c = "q_pc q' t"]) auto
  next
    case (Deq c)
    then obtain b where "dequeue_step t b c q = Some q'" using step by (cases a) (auto simp: mq_exec_def)
    then have "q_pc q' = (q_pc q)(t := q_pc q' t) \<and> dm_retired_list (q_dom q') = dm_retired_list (q_dom q) \<and>
        dm_global_retired (q_dom q') = dm_global_retired (q_dom q) \<and> q_returned q' = q_returned q \<and>
        \<not> retired_by (q_pc q' t) \<and> \<not> just_spliced (q_pc q' t)"
      by (cases c) (auto simp: mq_updates protect_def release_lists split: option.splits prod.splits if_splits)
    with Deq show ?thesis by (intro count_quiet [OF T ok, where c = "q_pc q' t"]) auto
  next
    case (Leaving x)
    have "length (dm_retired_list (q_dom q) t) \<le> (if full_list (q_pc q t) then 100 else 99)"
      using ok unfolding count_ok_def by blast
    then have len: "length (dm_retired_list (q_dom q) t) \<le> 99" using Leaving by simp
    show ?thesis using step Leaving len
      by (intro count_frame [OF T ok, where c = Outside];
          cases a; cases x; auto simp: mq_exec_def mq_updates balance_def)
  next
    case Outside
    then show ?thesis using step
      by (intro count_quiet [OF T ok, where c = "q_pc q' t"];
          cases a; auto simp: mq_exec_def mq_updates domain_defs)
  qed
qed

lemma reach_count: "mq_reach junk T False q \<Longrightarrow> finite T \<Longrightarrow> count_ok T q"
proof (induction rule: mq_reach.induct)
  case start
  then show ?case by (simp add: count_ok_def balance_def MPMCQueue_def HazPtrDomain_def)
next
  case (step q t a q')
  then show ?case using count_step [OF step.hyps(1)] by blast
qed

lemma nothing_freed: "mq_reach junk T False q \<Longrightarrow> q_freed q = []"
proof (induction rule: mq_reach.induct)
  case start
  then show ?case by (simp add: MPMCQueue_def)
next
  case (step q t a q')
  have lock: "lock_ok q" using reach_rec_ok [OF step.hyps(1)] by (simp add: rec_ok_def)
  have "q_freed q' = q_freed q"
  proof (cases "q_pc q t")
    case (Retire c v)
    then show ?thesis using step.hyps(4)
      by (cases a; cases c) (auto simp: mq_exec_def mq_updates split: if_splits)
  next
    case (Scanning s r)
    then show ?thesis
      using no_scan_inside [OF step.hyps(1) Scanning] self_locked [OF lock, of t] step.hyps(4) by auto
  next
    case (Enq e)
    then show ?thesis using step.hyps(4)
      by (cases a; cases e) (auto simp: mq_exec_def mq_updates split: option.splits)
  next
    case (Deq c)
    then show ?thesis using step.hyps(4)
      by (cases a; cases c) (auto simp: mq_exec_def mq_updates split: option.splits prod.splits if_splits)
  next
    case (Leaving x)
    then show ?thesis using step.hyps(4) by (cases a; cases x) (auto simp: mq_exec_def mq_updates)
  next
    case Outside
    then show ?thesis using step.hyps(4) by (cases a) (auto simp: mq_exec_def mq_updates)
  qed
  with step.IH show ?case by simp
qed

section \<open>One thread alone\<close>

lemma enqueue_alone:
  assumes "q_pc q 0 = Outside" "q_tail q = n" "length (q_nodes q) = Suc n" "nd_next (q_nodes q ! n) = None"
  shows "mq_run ((0, Call_enqueue v) # steps 0 6) q = Some (q\<lparr>
     q_nodes := (q_nodes q)[n := (q_nodes q ! n)\<lparr>nd_next := Some (Suc n)\<rparr>] @ [\<lparr>nd_data = v, nd_next = None\<rparr>],
     q_tail := Suc n, q_chain := q_chain q @ [Suc n]\<rparr>)"
  using assms
  by (simp add: steps_def numeral_eq_Suc mq_exec_def mq_updates nth_append list_update_append fun_upd_idem)

abbreviation free_slot :: hp_slot where
  "free_slot \<equiv> \<lparr>hazard_ptr = None, slot_owner = None\<rparr>"

lemma dequeue_alone:
  assumes "q_pc q 0 = Outside" "q_head q = n" "q_tail q = Suc n"
    and "nd_next (q_nodes q ! n) = Some (Suc n)" "nd_data (q_nodes q ! Suc n) = v"
    and "dm_slots (q_dom q) \<in> {[], [free_slot, free_slot]}"
  shows "mq_run ((0, Call_dequeue) # steps 0 14) q = Some (q\<lparr>
     q_head := Suc n, q_popped := Suc (q_popped q), q_pc := (q_pc q)(0 := Retire R_size v),
     q_dom := (q_dom q)\<lparr>dm_slots := [free_slot, free_slot],
       dm_retired_list := (dm_retired_list (q_dom q))(0 := dm_retired_list (q_dom q) 0 @ [n])\<rparr>\<rparr>)"
proof (cases "dm_slots (q_dom q) = []")
  case True
  then show ?thesis using assms(1-5)
    by (simp add: numeral_eq_Suc steps_simps mq_exec_def mq_updates domain_defs slot_walk_def)
next
  case False
  then show ?thesis using assms
    by (simp add: numeral_eq_Suc steps_simps mq_exec_def mq_updates domain_defs slot_walk_def)
qed
lemma mq_run_append: "mq_run (xs @ ys) q = Option.bind (mq_run xs q) (mq_run ys)"
  by (induction xs arbitrary: q) (auto split: bind_split)

lemma run_then: "mq_run xs q = Some q1 \<Longrightarrow> mq_run ys q1 = r \<Longrightarrow> mq_run (xs @ ys) q = r"
  by (simp add: mq_run_append)

text \<open>The queue after some rounds of one \<open>enqueue\<close> and one \<open>dequeue\<close>.\<close>

definition alone :: "nat \<Rightarrow> 'a mq \<Rightarrow> bool" where
  "alone n q \<longleftrightarrow> q_pc q 0 = Outside \<and> q_head q = n \<and> q_tail q = n \<and> length (q_nodes q) = Suc n \<and>
     nd_next (q_nodes q ! n) = None \<and> dm_slots (q_dom q) \<in> {[], [free_slot, free_slot]} \<and>
     dm_retired_mutex (q_dom q) = None \<and> length (dm_retired_list (q_dom q) 0) = n mod 100 \<and>
     length (dm_global_retired (q_dom q)) = n - n mod 100 \<and> q_returned q = n"

text \<open>A round up to the point where the retired list is measured.\<close>

lemma round_to_size:
  assumes "alone n q"
  shows "\<exists>q'. mq_run (((0, Call_enqueue v) # steps 0 6) @ (0, Call_dequeue) # steps 0 14) q = Some q' \<and>
     q_pc q' 0 = Retire R_size v \<and> q_head q' = Suc n \<and> q_tail q' = Suc n \<and> length (q_nodes q') = Suc (Suc n) \<and>
     nd_next (q_nodes q' ! Suc n) = None \<and> dm_slots (q_dom q') = [free_slot, free_slot] \<and>
     dm_retired_mutex (q_dom q') = None \<and> length (dm_retired_list (q_dom q') 0) = Suc (n mod 100) \<and>
     length (dm_global_retired (q_dom q')) = n - n mod 100 \<and> q_returned q' = n"
proof -
  have a: "q_pc q 0 = Outside" "q_head q = n" "q_tail q = n" "length (q_nodes q) = Suc n"
    "nd_next (q_nodes q ! n) = None" "dm_slots (q_dom q) \<in> {[], [free_slot, free_slot]}"
    using assms by (simp_all add: alone_def)
  let ?q = "q\<lparr>q_nodes := (q_nodes q)[n := (q_nodes q ! n)\<lparr>nd_next := Some (Suc n)\<rparr>] @ [\<lparr>nd_data = v, nd_next = None\<rparr>],
     q_tail := Suc n, q_chain := q_chain q @ [Suc n]\<rparr>"
  have e: "mq_run ((0, Call_enqueue v) # steps 0 6) q = Some ?q"
    by (rule enqueue_alone [OF a(1,3,4,5)])
  have "mq_run ((0, Call_dequeue) # steps 0 14) ?q = Some (?q\<lparr>
     q_head := Suc n, q_popped := Suc (q_popped ?q), q_pc := (q_pc ?q)(0 := Retire R_size v),
     q_dom := (q_dom ?q)\<lparr>dm_slots := [free_slot, free_slot],
       dm_retired_list := (dm_retired_list (q_dom ?q))(0 := dm_retired_list (q_dom ?q) 0 @ [n])\<rparr>\<rparr>)"
    by (rule dequeue_alone) (use a in \<open>auto simp: nth_append\<close>)
  with e show ?thesis
    unfolding mq_run_append e using assms by (simp add: alone_def nth_append)
qed

text \<open>The rest of the round: the element is returned, or the list is handed over.\<close>

lemma round_returns:
  assumes "q_pc q 0 = Retire R_size v" "length (dm_retired_list (q_dom q) 0) < 100"
  shows "mq_run (steps 0 2) q = Some (q\<lparr>q_pc := (q_pc q)(0 := Outside), q_returned := Suc (q_returned q)\<rparr>)"
  using assms by (simp add: numeral_2_eq_2 steps_simps mq_exec_def mq_updates scan_threshold_def)

lemma round_splices:
  assumes "q_pc q 0 = Retire R_size v" "100 \<le> length (dm_retired_list (q_dom q) 0)" "dm_retired_mutex (q_dom q) = None"
  shows "mq_run (steps 0 (Suc (Suc (Suc 0)))) q = Some (q\<lparr>q_pc := (q_pc q)(0 := Retire R_check v),
     q_dom := (q_dom q)\<lparr>dm_global_retired := dm_global_retired (q_dom q) @ dm_retired_list (q_dom q) 0,
       dm_retired_mutex := Some 0, dm_retired_list := (dm_retired_list (q_dom q))(0 := [])\<rparr>\<rparr>)"
  using assms by (simp add: steps_simps mq_exec_def mq_updates scan_threshold_def set_mutex_def splice_def)

lemma round_unlocks:
  assumes "q_pc q 0 = Retire R_check v" "length (dm_global_retired (q_dom q)) \<le> 5000"
  shows "mq_run (steps 0 (Suc (Suc (Suc 0)))) q = Some (q\<lparr>q_pc := (q_pc q)(0 := Outside), q_returned := Suc (q_returned q),
     q_dom := (q_dom q)\<lparr>dm_retired_mutex := None\<rparr>\<rparr>)"
  using assms by (simp add: steps_simps mq_exec_def mq_updates kGlobalThreshold_def set_mutex_def)

lemma one_round:
  fixes v :: 'a and q :: "'a mq"
  assumes "alone n q" "Suc n < 5100"
  shows "\<exists>xs q'. mq_run xs q = Some q' \<and> alone (Suc n) q' \<and> fst ` set xs \<subseteq> {0} \<and> Call_scan \<notin> snd ` set xs"
proof -
  let ?xs = "((0, Call_enqueue v) # steps 0 6) @ (0, Call_dequeue) # steps 0 14"
  obtain q1 where q1: "mq_run ?xs q = Some q1" "q_pc q1 0 = Retire R_size v" "q_head q1 = Suc n"
    "q_tail q1 = Suc n" "length (q_nodes q1) = Suc (Suc n)" "nd_next (q_nodes q1 ! Suc n) = None"
    "dm_slots (q_dom q1) = [free_slot, free_slot]" "dm_retired_mutex (q_dom q1) = None"
    "length (dm_retired_list (q_dom q1) 0) = Suc (n mod 100)"
    "length (dm_global_retired (q_dom q1)) = n - n mod 100" "q_returned q1 = n"
    using round_to_size [OF assms(1), of v] by blast
  have le: "n mod 100 \<le> n" by simp
  show ?thesis
  proof (cases "Suc (n mod 100) < 100")
    case True
    then have m: "Suc n mod 100 = Suc (n mod 100)" by (simp add: mod_Suc)
    let ?q = "q1\<lparr>q_pc := (q_pc q1)(0 := Outside), q_returned := Suc (q_returned q1)\<rparr>"
    have "mq_run (?xs @ steps 0 2) q = Some ?q"
      using round_returns [OF q1(2)] True unfolding mq_run_append [of ?xs] q1(1) by (simp add: q1(9))
    moreover have "alone (Suc n) ?q" using q1 m by (simp add: alone_def)
    moreover have "fst ` set (?xs @ steps 0 2) \<subseteq> {0} \<and> Call_scan \<notin> snd ` set (?xs @ steps 0 2)"
      by (auto simp: steps_def)
    ultimately show ?thesis by blast
  next
    case False
    then have m: "n mod 100 = 99" "Suc n mod 100 = 0" using mod_less_divisor [of 100 n] by (simp_all add: mod_Suc)
    let ?q2 = "q1\<lparr>q_pc := (q_pc q1)(0 := Retire R_check v),
     q_dom := (q_dom q1)\<lparr>dm_global_retired := dm_global_retired (q_dom q1) @ dm_retired_list (q_dom q1) 0,
       dm_retired_mutex := Some 0, dm_retired_list := (dm_retired_list (q_dom q1))(0 := [])\<rparr>\<rparr>"
    have s: "mq_run (steps 0 (Suc (Suc (Suc 0)))) q1 = Some ?q2"
      by (rule round_splices [OF q1(2) _ q1(8)]) (simp add: q1(9) m)
    have g: "length (dm_global_retired (q_dom ?q2)) = Suc n" using q1(9,10) m le by simp
    obtain k where "Suc n = 100 * k" using m(2) by (metis mod_eq_0_iff_dvd dvdE)
    moreover from this have "k < 51" using assms(2) by simp
    ultimately have "Suc n \<le> 5000" by linarith
    then have u: "mq_run (steps 0 (Suc (Suc (Suc 0)))) ?q2 = Some (?q2\<lparr>q_pc := (q_pc ?q2)(0 := Outside), q_returned := Suc (q_returned ?q2),
     q_dom := (q_dom ?q2)\<lparr>dm_retired_mutex := None\<rparr>\<rparr>)" (is "_ = Some ?q3")
      by (intro round_unlocks [where v = v]) (use g in simp_all)
    let ?ys = "steps 0 (Suc (Suc (Suc 0))) @ steps 0 (Suc (Suc (Suc 0))) :: (nat \<times> 'a act) list"
    have "mq_run (?xs @ ?ys) q = Some ?q3" by (rule run_then [OF q1(1) run_then [OF s u]])
    moreover have "alone (Suc n) ?q3" using q1 m g by (simp add: alone_def)
    moreover have "fst ` set (?xs @ ?ys) \<subseteq> {0} \<and> Call_scan \<notin> snd ` set (?xs @ ?ys)"
      by (auto simp: steps_def)
    ultimately show ?thesis by blast
  qed
qed

lemma rounds: "n < 5100 \<Longrightarrow> \<exists>q. mq_reach junk {0} False q \<and> alone n q"
proof (induction n)
  case 0
  have "alone 0 (MPMCQueue junk)" by (simp add: alone_def MPMCQueue_def HazPtrDomain_def)
  then show ?case using mq_reach.start [of junk "{0}" False] by blast
next
  case (Suc n)
  then obtain q where q: "mq_reach junk {0} False q" "alone n q" by auto
  from one_round [OF q(2) Suc.prems] run_reach [OF _ q(1)] show ?case by blast
qed

lemma dequeue_5100_stuck:
  "\<exists>q v. mq_reach junk {0} False q \<and> q_returned q = 5099 \<and> q_pc q 0 = Scanning S_lock (Some v) \<and>
     dm_retired_mutex (q_dom q) = Some 0 \<and>
     (\<forall>xs q'. mq_run xs q = Some q' \<longrightarrow> q_pc q' 0 = Scanning S_lock (Some v))"
proof -
  obtain q where q: "mq_reach junk {0} False q" "alone 5099 q" using rounds [of 5099 junk] by auto
  let ?xs = "((0, Call_enqueue junk) # steps 0 6) @ (0, Call_dequeue) # steps 0 14"
  obtain q1 where q1: "mq_run ?xs q = Some q1" "q_pc q1 0 = Retire R_size junk"
    "dm_retired_mutex (q_dom q1) = None" "length (dm_retired_list (q_dom q1) 0) = 100"
    "length (dm_global_retired (q_dom q1)) = 5000" "q_returned q1 = 5099"
    using round_to_size [OF q(2), of junk] by auto
  let ?q2 = "q1\<lparr>q_pc := (q_pc q1)(0 := Retire R_check junk),
     q_dom := (q_dom q1)\<lparr>dm_global_retired := dm_global_retired (q_dom q1) @ dm_retired_list (q_dom q1) 0,
       dm_retired_mutex := Some 0, dm_retired_list := (dm_retired_list (q_dom q1))(0 := [])\<rparr>\<rparr>"
  let ?q3 = "?q2\<lparr>q_pc := (q_pc ?q2)(0 := Scanning S_lock (Some junk))\<rparr>"
  have s: "mq_run (steps 0 (Suc (Suc (Suc 0)))) q1 = Some ?q2"
    by (rule round_splices [OF q1(2) _ q1(3)]) (simp add: q1(4))
  have c: "mq_run (steps 0 (Suc 0)) ?q2 = Some ?q3"
    by (simp add: steps_simps mq_exec_def mq_updates kGlobalThreshold_def q1(4,5))
  let ?ys = "?xs @ steps 0 (Suc (Suc (Suc 0))) @ steps 0 (Suc 0)"
  have "mq_run ?ys q = Some ?q3" by (rule run_then [OF q1(1) run_then [OF s c]])
  then have reach: "mq_reach junk {0} False ?q3"
    by (rule run_reach [OF _ q(1)]) (auto simp: steps_def)
  have pc: "q_pc ?q3 0 = Scanning S_lock (Some junk)" by simp
  have "q_pc q' 0 = Scanning S_lock (Some junk)" if "mq_run xs ?q3 = Some q'" for xs q'
    using stuck_run [OF that reach_rec_ok [OF reach] pc] by blast
  then show ?thesis
    using reach pc q1(6) by (intro exI [of _ ?q3] exI [of _ junk]) simp
qed

section \<open>No step fails\<close>

text \<open>The assertions of the domain hold: a thread inside an operation can always go on, unless it
  waits for the mutex.\<close>

lemma only_the_mutex_blocks:
  assumes "mq_reach junk threads scans q" "q_pc q t \<noteq> Outside" "mq_exec t (Go b) q = None"
  shows "dm_retired_mutex (q_dom q) \<noteq> None"
proof -
  have ok: "slots_ok q" using reach_rec_ok [OF assms(1)] by (simp add: rec_ok_def)
  show ?thesis
  proof (cases "q_pc q t")
    case (Deq c)
    then show ?thesis using dequeue_slots [OF ok Deq, of b] assms(3) by (auto simp: mq_exec_def)
  next
    case (Retire c v)
    then show ?thesis using assms(3) by (cases c) (auto simp: mq_exec_def lock_retired_def split: if_splits)
  next
    case (Scanning s r)
    show ?thesis
    proof (cases s)
      case (S_slots k "is" out)
      then show ?thesis using Scanning assms(3) by (cases "is") (auto simp: mq_exec_def)
    next
      case (S_delete out)
      then show ?thesis using Scanning assms(3) by (cases out) (auto simp: mq_exec_def)
    qed (use Scanning assms(3) in \<open>auto simp: mq_exec_def lock_retired_def split: if_splits\<close>)
  qed (use assms(2,3) in \<open>auto simp: mq_exec_def\<close>)
qed

section \<open>The destructor\<close>

text \<open>\<open>~MPMCQueue\<close>: the nodes deleted on the walk from the head, with fuel for its loop.\<close>

fun destroy_nodes :: "nat \<Rightarrow> 'a node list \<Rightarrow> nat option \<Rightarrow> nat list option" where
  "destroy_nodes fuel nodes None = Some []"
| "destroy_nodes 0 nodes (Some x) = None"
| "destroy_nodes (Suc fuel) nodes (Some x) =
     map_option (\<lambda>xs. x # xs) (destroy_nodes fuel nodes (nd_next (nodes ! x)))"

lemma destroy_chain:
  assumes "chain_ok q" "k < length (q_chain q)"
  shows "destroy_nodes (length (q_chain q) - k) (q_nodes q) (Some (q_chain q ! k)) = Some (drop k (q_chain q))"
  using assms(2)
proof (induction "length (q_chain q) - k" arbitrary: k)
  case (Suc n)
  have nx: "nd_next (q_nodes q ! (q_chain q ! k)) = (if Suc k < length (q_chain q) then Some (q_chain q ! Suc k) else None)"
    using chain_next [OF assms(1), of k "q_chain q ! k"] Suc.prems by (simp add: at_pos_def)
  have f: "length (q_chain q) - k = Suc (length (q_chain q) - Suc k)" using Suc.prems by simp
  show ?case
  proof (cases "Suc k < length (q_chain q)")
    case True
    then have "destroy_nodes (length (q_chain q) - Suc k) (q_nodes q) (Some (q_chain q ! Suc k)) = Some (drop (Suc k) (q_chain q))"
      using Suc.hyps by (intro Suc.hyps(1)) simp_all
    then show ?thesis using nx True Suc.prems unfolding f by (simp add: Cons_nth_drop_Suc)
  next
    case False
    then have "drop k (q_chain q) = [q_chain q ! k]" using Suc.prems by (simp add: Cons_nth_drop_Suc [symmetric])
    then show ?thesis using nx False unfolding f by simp
  qed
qed simp

text \<open>It deletes each node from the head on once, and none of those that were retired: they are
  never deleted.\<close>

lemma destructor_deletes_rest:
  assumes "mq_reach junk threads scans q"
  shows "\<exists>xs. destroy_nodes (length (q_chain q) - q_popped q) (q_nodes q) (Some (q_head q)) = Some xs \<and> distinct xs \<and>
     length xs = Suc (length (contents q)) \<and> (\<forall>p. set xs \<inter> set (held q p) = {})"
proof -
  have ok: "chain_ok q" "spread_ok q" using reach_rec_ok [OF assms] by (auto simp: rec_ok_def mq_ok_def)
  have h: "q_popped q < length (q_chain q)" "q_chain q ! q_popped q = q_head q" "distinct (q_chain q)"
    using ok(1) by (auto simp: chain_ok_def at_pos_def)
  have "set (drop (q_popped q) (q_chain q)) \<inter> passed q = {}"
    using h(3) by (metis append_take_drop_id distinct_append inf_commute passed_def)
  then have "set (drop (q_popped q) (q_chain q)) \<inter> set (held q p) = {}" for p
    using spread_retired [OF ok(2)] by blast
  then show ?thesis
    using destroy_chain [OF ok(1) h(1)] h by (auto simp: contents_def)
qed

section \<open>Runs for the witnesses\<close>

fun run_labels :: "(nat \<times> 'a act) list \<Rightarrow> 'a mq \<Rightarrow> 'a label list" where
  "run_labels [] q = []"
| "run_labels ((t, a) # xs) q =
     (case mq_exec t a q of
        None \<Rightarrow> []
      | Some q' \<Rightarrow> (if mq_label t a q = Tau then [] else [mq_label t a q]) @ run_labels xs q')"

lemma trace_prepend:
  "trace step tau s' ls s'' \<Longrightarrow> step s l s' \<Longrightarrow> trace step tau s ((if l = tau then [] else [l]) @ ls) s''"
proof (induction rule: trace.induct)
  case start
  then show ?case using trace.start [of step tau s] trace.hidden [of step tau s "[]" s s']
      trace.visible [of step tau s "[]" s l s'] by auto
next
  case (hidden ls s2 s3)
  then show ?case using trace.hidden by metis
next
  case (visible ls s2 k s3)
  then show ?case using trace.visible [of step tau s "(if l = tau then [] else [l]) @ ls" s2 k s3] by simp
qed

lemma run_trace: "mq_run xs q = Some q' \<Longrightarrow> trace mq_step Tau q (run_labels xs q) q'"
proof (induction xs arbitrary: q)
  case Nil
  then show ?case using trace.start [of mq_step Tau q] by simp
next
  case (Cons x xs)
  obtain t a where x: "x = (t, a)" by (cases x)
  obtain q1 where q1: "mq_exec t a q = Some q1" "mq_run xs q1 = Some q'"
    using Cons.prems x by (cases "mq_exec t a q") auto
  have "mq_step q (mq_label t a q) q1" using q1(1) by (auto simp: mq_step_def)
  from trace_prepend [OF Cons.IH [OF q1(2)] this] show ?case by (simp add: x q1(1))
qed

text \<open>A \<open>dequeue\<close> reads the null pointer, an \<open>enqueue\<close> finishes, and only then the
  \<open>dequeue\<close> answers that the queue is empty.\<close>

definition two_calls :: "(nat \<times> nat act) list" where
  "two_calls = (0, Call_enqueue 7) # steps 0 2 @ (1, Call_dequeue) # steps 1 7 @ steps 0 4 @ steps 1 5"

lemma two_calls_run:
  "map_option contents (mq_run two_calls (MPMCQueue 0)) = Some [7]"
  "run_labels two_calls (MPMCQueue 0) =
     [Invoke_enqueue 0 7, Invoke_dequeue 1, Respond 0 Enqueued, Respond 1 Found_empty]"
  by code_simp+

definition reading_run :: "(nat \<times> nat act) list" where
  "reading_run = (0, Call_enqueue 7) # steps 0 6 @ (1, Call_dequeue) # steps 1 10"

lemma reading_run_pc:
  "map_option (\<lambda>q. (q_pc q 1, q_freed q)) (mq_run reading_run (MPMCQueue 0)) = Some (Deq (D_data 0 1 0 1), [])"
  by code_simp

section \<open>Properties\<close>

text \<open>
  C10. The lock-free queue is linearizable. Whatever the interleaving of any number of threads, what
  the callers see (calls and returns in their order) is what a queue with atomic operations can show:
  each operation takes effect once between its call and its return, an element is handed out once and
  in the order of the effects, and a \<open>dequeue\<close> that finds nothing was called when or before the
  queue was empty. The nodes after the head hold the elements of that queue.
\<close>

theorem mpmc_linearizable:
  assumes "trace mq_step Tau (MPMCQueue junk) ls q"
  shows "\<exists>a. trace aq_step Tau atomic_queue ls a \<and> aq_items a = contents q"
  using mpmc.trace_inclusion [OF assms MPMCQueue_ok start_sim] by (auto simp: queue_sim_def)

theorem mpmc_linearizable_witness:
  "\<exists>a. trace aq_step Tau atomic_queue
     [Invoke_enqueue 0 7, Invoke_dequeue 1, Respond 0 Enqueued, Respond 1 Found_empty] a \<and> aq_items a = [7 :: nat]"
proof -
  obtain q where q: "mq_run two_calls (MPMCQueue 0) = Some q" "contents q = [7]"
    using two_calls_run(1) by auto
  show ?thesis using mpmc_linearizable [OF run_trace [OF q(1)]] q(2) two_calls_run(2) by simp
qed



text \<open>
  C34. An \<open>enqueue\<close> can read a deleted node. It reads the tail without protecting it: two threads
  and one call of \<open>Scan\<close> suffice for the other thread to take the node out and delete it before
  its \<open>next\<close> is read.
\<close>

theorem enqueue_reads_deleted_node:
  "\<exists>q c ct. mq_reach (0 :: nat) {0, 1} True q \<and> q_pc q 0 = Enq c \<and> ct \<in> set (enq_touches c) \<and>
     ct \<in> set (q_freed q)"
  using stale_tail_reached by force

text \<open>
  C35. Nothing is ever reclaimed, and the queue stops. As long as nobody calls \<open>Scan\<close> directly, no
  node is deleted, and a set of threads gets at most 5000 elements and 99 per thread out of the queue
  in its whole life: \<open>RetirePointer\<close> calls \<open>Scan\<close> with the mutex that \<open>Scan\<close> locks.
\<close>

theorem returns_bounded:
  assumes "mq_reach junk T False q" "finite T"
  shows "q_freed q = [] \<and> q_returned q \<le> 5000 + 99 * card T"
  using nothing_freed [OF assms(1)] count_bound [OF assms(2) reach_count [OF assms]] by simp

theorem returns_bounded_witness:
  "\<exists>q. mq_reach (0 :: nat) {0} False q \<and> q_freed q = [] \<and> q_returned q = 5099 \<and> 5099 \<le> 5000 + 99 * card {0 :: nat}"
proof -
  obtain q where q: "mq_reach (0 :: nat) {0} False q" "q_returned q = 5099"
    using dequeue_5100_stuck [of 0] by blast
  have "q_freed q = []" using returns_bounded [OF q(1)] by simp
  with q show ?thesis by (intro exI [of _ q]) simp
qed

text \<open>
  The bound is reached by one thread alone: after 5099 rounds of one \<open>enqueue\<close> and one
  \<open>dequeue\<close> the next \<open>dequeue\<close> waits for a mutex that its own thread holds, and no
  continuation of the run, by whatever threads, lets it return.
\<close>

theorem dequeue_5100_never_returns:
  "\<exists>q v. mq_reach junk {0} False q \<and> q_returned q = 5099 \<and> q_pc q 0 = Scanning S_lock (Some v) \<and>
     (\<forall>xs. case mq_run xs q of None \<Rightarrow> True | Some q' \<Rightarrow> q_pc q' 0 = Scanning S_lock (Some v))"
proof -
  obtain q v where q: "mq_reach junk {0} False q" "q_returned q = 5099" "q_pc q 0 = Scanning S_lock (Some v)"
    "\<And>xs q'. mq_run xs q = Some q' \<Longrightarrow> q_pc q' 0 = Scanning S_lock (Some v)"
    using dequeue_5100_stuck [of junk] by blast
  have "case mq_run xs q of None \<Rightarrow> True | Some q' \<Rightarrow> q_pc q' 0 = Scanning S_lock (Some v)" for xs
    using q(4) [of xs] by (cases "mq_run xs q") simp_all
  with q(1-3) show ?thesis by (intro exI [of _ q] exI [of _ v]) simp
qed

end
