(* ===== verification/Repo_Tests.thy ===== *)
theory Repo_Tests
  imports Worker_Manager Dag_Builder Task_Repository Worker_Tasks
    Redis_Manager
begin

text \<open>
  The unit tests under \<open>src/tests\<close>, run on the model: one lemma per test, with the calls of the test
  in its order and what it expects. A clock reading is the argument of a call, a sleep a later reading.
  The tests of \<open>task_repository_test.cpp\<close> are commented out in the repository; those whose methods still
  exist are here.
\<close>

section \<open>\<open>worker_manager_test.cpp\<close>\<close>

definition heartbeat_of :: "string \<Rightarrow> 32 word \<Rightarrow> HeartbeatRequest" where
  "heartbeat_of i n = \<lparr>hb_worker_id = i, hb_running_task_count = n, hb_cpu_usage_percent = 0\<rparr>"

abbreviation sorted_workers :: "int \<Rightarrow> WorkerManager \<Rightarrow> WorkerInfo list" where
  "sorted_workers \<equiv> GetAvailableWorkersSorted (sort_key load)"

lemma test_RegisterAndHeartbeat:
  "let m = HandleRegister 0 ''worker-01'' ''127.0.0.1:5000'' (new_WorkerManager 1);
       (success, m1) = HandleHeartbeat 0 (heartbeat_of ''worker-01'' 5) m;
       (fail, m2) = HandleHeartbeat 0 (heartbeat_of ''ghost-worker'' 0) m1
   in map (\<lambda>w. (wi_worker_id w, wi_address w)) (sorted_workers 0 m) = [(''worker-01'', ''127.0.0.1:5000'')] \<and>
      success \<and> map wi_running_task_count (sorted_workers 0 m1) = [5] \<and> \<not> fail"
  by code_simp

lemma test_LoadBalancingSort:
  "let m = HandleRegister 0 ''w3'' ''addr3'' (HandleRegister 0 ''w2'' ''addr2'' (HandleRegister 0 ''w1'' ''addr1'' (new_WorkerManager 1)));
       m1 = snd (HandleHeartbeat 0 (heartbeat_of ''w1'' 10) m);
       m2 = snd (HandleHeartbeat 0 (heartbeat_of ''w2'' 0) m1);
       m3 = snd (HandleHeartbeat 0 (heartbeat_of ''w3'' 5) m2)
   in map (\<lambda>w. (wi_worker_id w, wi_running_task_count w)) (sorted_workers 0 m3) = [(''w2'', 0), (''w3'', 5), (''w1'', 10)]"
  by code_simp

lemma test_PruneDeadWorkers:
  "let m = HandleRegister 0 ''dead-worker'' ''addr'' (new_WorkerManager 1);
       (dead, m1) = PruneDeadWorkers 0 m;
       (dead', m2) = PruneDeadWorkers 1100000000 m1
   in dead = [] \<and> dead' = [''dead-worker''] \<and> sorted_workers 1100000000 m2 = []"
  by code_simp

section \<open>\<open>dag_builder_test.cpp\<close>\<close>

text \<open>The calls of a test up to the first exception.\<close>

definition call_of :: "builder_call \<Rightarrow> DagBuilder \<Rightarrow> builder_err + DagBuilder" where
  "call_of c b =
     (case c of CallAddTask n f p \<Rightarrow> AddTask n f p b | CallAddDependency p c \<Rightarrow> AddDependency p c b)"

fun built :: "builder_call list \<Rightarrow> builder_err + DagBuilder \<Rightarrow> builder_err + DagBuilder" where
  "built [] b = b"
| "built (c # cs) b = (case b of Inl e \<Rightarrow> Inl e | Inr b \<Rightarrow> built cs (call_of c b))"

definition build :: "string \<Rightarrow> builder_call list \<Rightarrow> (builder_err + PbSubmitDagRequest) option" where
  "build key cs = (case built cs (new_DagBuilder key) of Inl e \<Rightarrow> Some (Inl e) | Inr b \<Rightarrow> BuildProto sample_json_lib 4 b)"

abbreviation task_call :: "string \<Rightarrow> builder_call" where
  "task_call n \<equiv> CallAddTask n ''func'' (JObject [])"

lemma test_BuildValidDag:
  "case build ''idempotency_key_123''
     [CallAddTask ''task_a'' ''download'' (JObject [(''url'', JString ''http://example.com'')]),
      CallAddTask ''task_b'' ''process'' (JObject []), CallAddDependency ''task_a'' ''task_b''] of
     Some (Inr q) \<Rightarrow> pr_idempotency_key q = ''idempotency_key_123'' \<and>
       map (\<lambda>t. (p_natural_id t, p_func_name t)) (pr_tasks q) = [(''task_a'', ''download''), (''task_b'', ''process'')] \<and>
       map (\<lambda>e. (parent_natural_id e, child_natural_id e)) (pr_edges q) = [(''task_a'', ''task_b'')]
   | _ \<Rightarrow> False"
  by code_simp

lemma test_DuplicateTaskThrow:
  "case built [task_call ''task_a'', task_call ''task_a''] (new_DagBuilder ''key_dup'') of Inl (RuntimeError _) \<Rightarrow> True | _ \<Rightarrow> False"
  by code_simp

lemma test_MissingDependencyThrow:
  "case built [task_call ''task_a'', CallAddDependency ''task_a'' ''task_b''] (new_DagBuilder ''key_miss'') of
     Inl (RuntimeError _) \<Rightarrow> True | _ \<Rightarrow> False"
  by code_simp

lemma test_JsonParamsParsing:
  "case build ''key_json'' [CallAddTask ''task_complex'' ''compute'' (JObject [(''retry'', JInt 3), (''threshold'', JFloat 85)])] of
     Some (Inr q) \<Rightarrow> map p_natural_id (pr_tasks q) = [''task_complex''] | _ \<Rightarrow> False"
  by code_simp

lemma test_CycleDetection_self:
  "case built [task_call ''A'', CallAddDependency ''A'' ''A''] (new_DagBuilder ''key_cycle_1'') of
     Inl (RuntimeError _) \<Rightarrow> True | _ \<Rightarrow> False"
  by code_simp

lemma test_CycleDetection_indirect:
  "case build ''key_cycle_2'' [task_call ''A'', task_call ''B'', task_call ''C'', CallAddDependency ''A'' ''B'',
       CallAddDependency ''B'' ''C'', CallAddDependency ''C'' ''A''] of
     Some (Inl (RuntimeError msg)) \<Rightarrow> contains ''Cycle detected'' msg | _ \<Rightarrow> False"
  by code_simp

lemma test_CycleDetection_diamond:
  "case build ''key_diamond'' [task_call ''A'', task_call ''B'', task_call ''C'', task_call ''D'', CallAddDependency ''A'' ''B'',
       CallAddDependency ''A'' ''C'', CallAddDependency ''B'' ''D'', CallAddDependency ''C'' ''D''] of
     Some (Inr _) \<Rightarrow> True | _ \<Rightarrow> False"
  by code_simp

section \<open>\<open>task_repository_test.cpp\<close>\<close>

definition repo_db :: "task_row list \<Rightarrow> database" where
  "repo_db rows = \<lparr>db_jobs = [\<lparr>j_job_id = ''j'', j_idempotency_key = ''key_j'', j_state = 1\<rparr>], db_tasks = rows, db_edges = []\<rparr>"

lemma test_UpdateTaskToRunning:
  "let (success, db) = UpdateTaskToRunning sample_types (tx_ok 0) ''t1'' ''worker-01'' (repo_db [sample_row ''t1'' 0 0]);
       (success2, db2) = UpdateTaskToRunning sample_types (tx_ok 0) ''t1'' ''worker-02'' db
   in success \<and> map (\<lambda>r. (tr_state r, tr_worker_id r)) (db_tasks db) = [(1, Some ''worker-01'')] \<and> \<not> success2"
  by code_simp

lemma test_HandleFailure_Retry:
  "let (retry, db) = HandleTaskFailure sample_types (tx_ok 0) ''t1'' ''Error'' 0
         (repo_db [(sample_row ''t1'' 1 0)\<lparr>tr_max_retry := 3\<rparr>])
   in retry \<and> map (\<lambda>r. (tr_state r, tr_retry_count r)) (db_tasks db) = [(0, 1)]"
  by code_simp

lemma test_RequeueOrphanedTasks:
  "let (count, db) = RequeueOrphanedTasks (tx_ok 0) ''dead-worker''
         (repo_db [(sample_row ''t1'' 1 0)\<lparr>tr_worker_id := Some ''dead-worker''\<rparr>,
                   (sample_row ''t2'' 1 0)\<lparr>tr_worker_id := Some ''alive-worker''\<rparr>])
   in count = 1 \<and> map (\<lambda>r. (tr_task_id r, tr_state r)) (db_tasks db) = [(''t1'', 0), (''t2'', 1)]"
  by code_simp

lemma test_StateSafety_PreventIllegalTransition:
  "\<not> fst (UpdateTaskToRunning sample_types (tx_ok 0) ''t1'' ''worker-new'' (repo_db [sample_row ''t1'' 2 0]))"
  by code_simp

section \<open>\<open>json_convert_test.cpp\<close> and \<open>worker_core_test.cpp\<close>\<close>

text \<open>The member that is null is lost; in the test, indexing the result puts it back.\<close>

lemma test_RoundTrip:
  "let original = JObject [(''count'', JInt 123), (''is_valid'', JBool True), (''nested'', JObject [(''key'', JString ''value'')]),
         (''null_val'', JNull), (''url'', JString ''http://example.com'')];
       fields = map_of (JsonToStruct sample_json_lib original)
   in fields ''url'' = Some (PString ''http://example.com'') \<and> fields ''count'' = Some (PNumber (jl_i2d sample_json_lib 123)) \<and>
      fields ''is_valid'' = Some (PBool True) \<and>
      (case StructToJson (JsonToStruct sample_json_lib original) of
         JObject kvs \<Rightarrow> map_of kvs ''url'' = Some (JString ''http://example.com'') \<and>
           map_of kvs ''nested'' = Some (JObject [(''key'', JString ''value'')]) \<and> map_of kvs ''null_val'' = None
       | _ \<Rightarrow> False)"
  by code_simp

lemma test_EmptyHandling:
  "JsonToStruct sample_json_lib (JObject []) = [] \<and> StructToJson [] = JObject []"
  by code_simp

lemma test_RegisterAndGet:
  "let registry = Register_task ''test_func'' (\<lambda>params. Inr ''hello world'') (\<lambda>_. None)
   in (case Get_task ''test_func'' registry of Some handler \<Rightarrow> handler ''{}'' = Inr ''hello world'' | None \<Rightarrow> False) \<and>
      (case Get_task ''non_existent_func'' registry of Some _ \<Rightarrow> False | None \<Rightarrow> True)"
  by code_simp

end
