(* ===== verification/Spec2Isabelle.thy ===== *)
theory Spec2Isabelle
  imports Dag_Execution Task_Repository Worker_Manager Scheduler_Service Status_Rpc Api_Web End_To_End
    Scheduler_Main Api_Lifecycle Worker_Main Client_Lifecycle Process_Config Mpmc_Limits Repo_Tests
begin

text \<open>
  A verification library for the distributed task system under \<open>src/src\<close> and for the lock-free
  queue under \<open>src/drop\<close>.

  \<^bold>\<open>The program.\<close> A client builds a DAG of tasks and submits it, over HTTP (\<open>api-web\<close>) or gRPC
  (\<open>client\<close>). The API server (\<open>api-server\<close>) queues the request, stores batches of requests in
  PostgreSQL and lays the dependencies out in Redis, where entry tasks go on a stream. The
  scheduler (\<open>scheduler\<close>) reads the stream through a consumer group, dispatches each task to a
  worker and acknowledges the entry. The worker (\<open>worker\<close>) runs the task on a thread pool and
  reports the outcome; a success runs a Lua script that releases the children whose last
  dependency it was, a failure is retried a bounded number of times. \<open>common\<close> holds what they share.

  \<^bold>\<open>The theories\<close>, in the order of their imports. \<open>Dts_Prelude\<close>: computations with a state and
  exceptions, decimal numbers, \<open>std::map\<close> as a sorted association list, shared lemmas.
  \<open>Redis_Keys\<close> (\<open>redis/RedisKeys.hpp\<close>): the key namespace. \<open>Redis_Store\<close>: the interface of the Redis
  commands as a locale over an abstract store, with a reference implementation. \<open>Task_Types\<close>
  (\<open>task.hpp\<close>, \<open>dag.hpp\<close>, \<open>converters.cpp\<close>): tasks, JSON and protobuf structs and the conversions.
  \<open>Task_Serializer\<close> (\<open>utils/TaskSerializer.hpp\<close>): stream entries. \<open>Complete_Task\<close>
  (\<open>scripts/complete_task.hpp\<close>): the Lua script. \<open>Db_Tables\<close> (\<open>init.sql\<close>): tables, constraints and
  transactions. \<open>Database_Pool\<close> (\<open>database_pool.h\<close>): the connection pool and \<open>ExecuteTx\<close>.
  \<open>Worker_Manager\<close>, \<open>Task_Repository\<close> (\<open>worker_manager.cpp\<close>, \<open>task_repository.cpp\<close>): the scheduler's
  table of workers and its SQL. \<open>Task_Submitter\<close> and \<open>Submit_Batch\<close> (\<open>task_submitter.cpp\<close>): accepting
  requests, storing a batch, building the pipeline, and the theorems on stored batches.
  \<open>Dag_Flow\<close>, \<open>Dag_Run\<close>: the layout of a batch in Redis composed with the script. \<open>Dag_Execution\<close>: a batch
  worked off to its end. \<open>Work_Queue\<close>: the
  contract of a queue that background threads empty. \<open>Db_Batcher\<close> (\<open>db_batcher.cpp\<close>),
  \<open>Submit_Threads\<close> (the flusher threads of \<open>task_submitter.cpp\<close>), \<open>Thread_Pool\<close> (\<open>thread_pool.h\<close>): three
  such queues with their threads as step relations. \<open>Redis_Manager\<close> (\<open>RedisManager.cpp\<close>): the facade
  over Redis and its script cache. \<open>Rpc_Types\<close>: error codes and headers. \<open>Scheduler_Service\<close>
  (\<open>scheduler_service_impl.cpp\<close>): the handlers the workers call. \<open>Scheduler_Loop\<close> and \<open>Loop_Dispatch\<close>
  (\<open>scheduler_loop.cpp\<close>): reading, dispatching, acknowledging and rescuing entries, as interleaved
  steps, and the channel cache. \<open>Patrol\<close> (\<open>scheduler/src/main.cpp\<close>): the patrol loop and the writes of
  all services. \<open>Job_Query\<close> (\<open>job_query_handler.cpp\<close>): the state of a job. \<open>Dag_Builder\<close>
  (\<open>dag_builder.cpp\<close>): the client's builder and its cycle check. \<open>Grpc_Client\<close> (\<open>grpc_client.cpp\<close>,
  \<open>async_tags.hpp\<close>, \<open>dts_coroutine.h\<close>): the three ways to submit. \<open>Api_Server\<close> (\<open>api_server.hpp\<close>,
  \<open>api_server.cpp\<close>): call contexts and handlers. \<open>Api_Web\<close> (\<open>api_web.cpp\<close>): the HTTP handler. \<open>Worker_Tasks\<close>
  (\<open>task_registry.cpp\<close>, \<open>tasks.cpp\<close>), \<open>Worker_Node\<close> (\<open>scheduler_client.cpp\<close>, \<open>worker_service.cpp\<close>,
  \<open>worker_node.cpp\<close>): the worker. \<open>Startup\<close> (\<open>RedisConfig.hpp\<close>, \<open>utils.hpp\<close>): configuration and retries.

  The processes: \<open>Process_Config\<close> (the four \<open>main.cpp\<close>, \<open>logger.hpp\<close>, \<open>dts_metrics.h\<close>): what they read from
  environment and arguments and how they start. \<open>Scheduler_Main\<close> (\<open>scheduler/src/main.cpp\<close>): the main
  thread with its loop, batcher, patrol and handlers from the start through the shutdown to the
  destruction of the members. \<open>Api_Lifecycle\<close> (\<open>api_server.cpp\<close>, \<open>api-server/src/main.cpp\<close>): \<open>Run\<close>,
  \<open>Shutdown\<close>, the completion-queue threads and the signal handler. \<open>Worker_Main\<close> (\<open>worker/src/main.cpp\<close>,
  \<open>worker_node.cpp\<close>): \<open>Start\<close>, \<open>Await\<close>, \<open>Stop\<close>, the heartbeat thread and the signal handler.
  \<open>Client_Lifecycle\<close> (\<open>grpc_client.cpp\<close>): the polling thread, the calls and the destructor. \<open>Status_Rpc\<close>: the \<open>GetJobStatus\<close>
  call, and a submission followed by queries.

  The system as a whole: \<open>Task_Stream\<close>: the stream between its producers (layout, script, retries) and
  the loop, with a server that hosts script and consumer group. \<open>System_Steps\<close>: Redis, the scheduler's
  loop and handlers and any number of worker nodes as one step relation over the functions of the
  component theories. \<open>System_Invariant\<close>: what every reachable state satisfies. \<open>System_Run\<close>: steps that
  are evaluated, and two runs. \<open>End_To_End\<close>: the theorems on it. \<open>Repo_Tests\<close>: the unit tests under
  \<open>src/tests\<close>, run on the model.

  \<open>Hazard_Domain\<close> (\<open>drop/hazard_pointer.hpp\<close>) and \<open>Mpmc_Queue\<close> (\<open>drop/mpmc_queue.hpp\<close>) model the
  queue with every atomic access as a step of its own. \<open>Traces\<close>: runs with observable events and
  forward simulations, as a locale. \<open>Mpmc_Structure\<close>: the invariant of the linked list.
  \<open>Mpmc_Linearizable\<close>: the queue whose operations are atomic, and the simulation. \<open>Mpmc_Reclaim\<close>:
  where each node is between its allocation and its deletion, the hazard pointers, and the walk of
  \<open>Scan\<close>. \<open>Mpmc_Limits\<close>: the mutex that is locked twice, the counting argument, the destructor, the
  properties. A node is named by the number of its allocation, so an address that is used again is
  another node; the theorems say which nodes are read after their deletion, which is where reuse
  would matter. Weak compare-exchanges may fail although the values agree.

  \<^bold>\<open>How state and operations correspond.\<close> A class is a record of its members, a method a function
  on the record; a method that throws returns a sum, or is a computation of type \<open>sem\<close> that keeps
  the state at the throw. Fixed-width integers are words where the width matters. Threads are
  step relations whose steps are the critical sections; the theorems hold for every interleaving.
  What the environment decides (a commit that fails, a lost connection, a lost message, the time,
  the order \<open>std::sort\<close> leaves equal elements in, which row PostgreSQL takes of several) is an
  argument of the step or function. Records of threads carry histories (\<open>bt_added\<close>, \<open>tp_ran\<close>,
  \<open>wn_sent\<close> and the like) that no step reads.

  \<^bold>\<open>Interfaces.\<close> \<open>redis_store\<close> states what the Redis commands do to an abstract key space and is
  interpreted on the reference store; \<open>script_host\<close> adds the script cache and \<open>consumer_group\<close> the
  consumer group, each with its interpretation; \<open>task_stream\<close> extends \<open>script_host\<close> by a consumer group
  on the task stream that loses no entry, and is interpreted on a server with all three. \<open>forward_simulation\<close> is interpreted on the lock-free
  queue. \<open>handoff\<close> is interpreted on the batcher, the submitter and the thread pool. \<open>sorts_by\<close> is what is used of \<open>std::sort\<close>.

  \<^bold>\<open>What the lemmas show.\<close> Submission: accepted requests are stored whole or not at all, with states
  and in-degrees computed from their edges. The DAG: exactly the tasks whose parents have all
  completed are put on the stream, each once, and an acyclic request never stalls. The stream: an
  entry is undelivered, pending, or acknowledged because a worker took it. Failures are retried a
  bounded number of times. Queues are first in first out, lose no wake-up, and the pool and the
  batcher drain at the stop. Workers report each task once and come back after being forgotten.
  The HTTP answer says whether the request was queued. A submitted job is unknown to queries
  until its batch is stored and known with all its tasks from then on. A shutdown of the scheduler
  flushes every report and comes to its end. For the system as a whole: no worker receives a task before
  its parents have run, and a task that is ready is on the stream or with a worker, under
  every interleaving of the processes, lost and repeated messages included. The theorems of kind \<open>error\<close> state where the
  program does not do this: lost batches, children that are never released, tasks of dead workers
  that nobody recovers, items and reports lost at a shutdown. The set-aside queue is linearizable
  and its \<open>dequeue\<close> reads no deleted node, while its \<open>enqueue\<close> can, and after 5000 retired nodes
  (\<open>kGlobalThreshold\<close>) and at most 99 more per thread (\<open>scan_threshold\<close>) it stops for ever.

  \<^bold>\<open>Bounds and fuel.\<close> The depth-first search of the builder has fuel; one unit per task is enough,
  which \<open>validate_cycle_decides\<close> proves together with the result. \<open>InitWithRetry\<close> recurses on the
  retries left. The batcher and the pool have explicit bounds on the steps to their end
  (\<open>stop_flushes_everything\<close>, \<open>destructor_drains\<close>), and so have the shutdowns
  (\<open>shutdown_completes\<close>, \<open>signal_in_loop_exits_cleanly\<close>, \<open>worker_signal_exits_cleanly\<close>). A task of the pool and a handler are taken to
  return. All other recursion is structural.

  \<^bold>\<open>Parameters.\<close> PostgreSQL's input checks (\<open>pg_types\<close>), the JSON library (\<open>json_lib\<close>, \<open>web_lib\<close>), the
  protobuf codec (\<open>pb_codec\<close>), the id generator and the script hash are arguments, instantiated by
  concrete functions in the witnesses. gRPC and Redis are used through what their documentation
  promises: one event per operation, one outcome per call, commands of a pipeline run in order.

  \<^bold>\<open>Not modelled.\<close> The text of the log and the metrics other than the pool's gauges (output only);
  in the \<open>main\<close> functions the construction of components that have no failure of their own; UUID
  generation; the resource tracker (an empty shell); \<open>drop/thread_pool.*\<close> (commented out); the Go
  command line tool; the benchmark; files generated by CMake. Memory order of atomics is sequential
  consistency. Details of a gRPC status and the deadline of a call are not kept; a call that misses
  it is a lost message. A signal is taken on any thread at any step; that code which is not
  async-signal-safe runs in the handlers is not represented beyond what \<open>Api_Lifecycle\<close> says.
\<close>

end
